(* ===== verification/Prelude.thy ===== *)
theory Prelude
  imports Main "HOL-Library.Word"
begin

text \<open>
  Shared vocabulary of the development: the machine integers of the Rust sources as words,
  the error values a fallible operation returns, the byte-level helpers of the Rust standard
  library the wire formats use (\<open>to_be_bytes\<close>, \<open>from_be_bytes\<close>, slices, \<open>copy_from_slice\<close>),
  saturating arithmetic, and the interface every wire format of the program satisfies
  (locale \<open>wire_codec\<close>).
\<close>

unbundle bit_operations_syntax

named_theorems codec \<open>byte-level encoding facts\<close>
named_theorems sat_simps \<open>saturating arithmetic read as natural numbers\<close>

type_synonym u8 = "8 word"
type_synonym u16 = "16 word"
type_synonym u32 = "32 word"
type_synonym u64 = "64 word"
type_synonym i8 = "8 word" \<comment> \<open>read with \<open>sint\<close>\<close>
type_synonym bytes = "u8 list"
type_synonym micros = u64 \<comment> \<open>\<open>rusty_esp_core::Micros\<close>, the tuple struct around a \<open>u64\<close>\<close>

lemma unat_less: "unat (w :: 'a::len word) < 2 ^ LENGTH('a)"
  by (rule unsigned_less)

lemma unat_2p: "n < LENGTH('a) \<Longrightarrow> unat (2 ^ n :: 'a::len word) = 2 ^ n"
proof -
  assume "n < LENGTH('a)"
  then have "(2::nat) ^ n < 2 ^ LENGTH('a)"
    by simp
  then have "unat (of_nat (2 ^ n) :: 'a word) = 2 ^ n"
    by (simp only: unat_of_nat mod_less)
  then show ?thesis by simp
qed

lemma unat_ucast_up:
  assumes "LENGTH('a::len) \<le> LENGTH('b::len)"
  shows "unat (ucast (w :: 'a word) :: 'b word) = unat w"
proof -
  have "unat w < 2 ^ LENGTH('b)"
    using unat_less[of w] assms by (meson le_less_trans less_le_trans one_le_numeral order_less_imp_le power_increasing)
  then show ?thesis
    by (simp add: unsigned_ucast_eq take_bit_nat_eq_self)
qed

lemma ucast_up_inject:
  assumes "LENGTH('a::len) \<le> LENGTH('b::len)"
  shows "(ucast (v :: 'a word) :: 'b word) = ucast w \<longleftrightarrow> v = w"
  using unat_ucast_up[OF assms] by (metis word_unat_eq_iff)

lemma list2_exhaust: "length xs = 2 \<Longrightarrow> \<exists>x y. xs = [x, y]"
  by (cases xs rule: list.exhaust; cases "tl xs") auto

section \<open>Results\<close>

text \<open>The variants of \<open>rusty_esp_core::Error\<close> that the modelled sources return.\<close>

datatype err =
    InvalidFormat
  | BufferTooSmall nat
  | Unsupported
  | Denied
  | Crypto
  | Busy
  | Hardware
  | InvalidGeometry

type_synonym 'a res = "err + 'a"

definition rbind :: "'e + 'a \<Rightarrow> ('a \<Rightarrow> 'e + 'b) \<Rightarrow> 'e + 'b" where
  "rbind r f = (case r of Inl e \<Rightarrow> Inl e | Inr a \<Rightarrow> f a)"

lemma rbind_simps [simp]: "rbind (Inl e) f = Inl e" "rbind (Inr a) f = f a"
  by (simp_all add: rbind_def)

lemma rbind_Inr_iff: "rbind r f = Inr b \<longleftrightarrow> (\<exists>a. r = Inr a \<and> f a = Inr b)"
  by (cases r) auto

definition ok_or :: "'a option \<Rightarrow> 'e \<Rightarrow> 'e + 'a" where
  "ok_or x e = (case x of None \<Rightarrow> Inl e | Some a \<Rightarrow> Inr a)"

lemma ok_or_simps [simp]: "ok_or None e = Inl e" "ok_or (Some a) e = Inr a"
  by (simp_all add: ok_or_def)

lemma ok_or_Inr_iff: "ok_or x e = Inr a \<longleftrightarrow> x = Some a"
  by (cases x) auto

definition is_ok :: "'e + 'a \<Rightarrow> bool" where
  "is_ok r = (case r of Inl _ \<Rightarrow> False | Inr _ \<Rightarrow> True)"

lemma is_ok_simps [simp]: "is_ok (Inr a)" "\<not> is_ok (Inl e)"
  by (simp_all add: is_ok_def)

lemma is_ok_iff: "is_ok r \<longleftrightarrow> (\<exists>a. r = Inr a)"
  by (cases r) auto

section \<open>Byte strings\<close>

text \<open>\<open>xs.get(a..b)\<close>: \<open>None\<close> when the range does not fit.\<close>

definition slice_get :: "'a list \<Rightarrow> nat \<Rightarrow> nat \<Rightarrow> 'a list option" where
  "slice_get xs a b = (if a \<le> b \<and> b \<le> length xs then Some (take (b - a) (drop a xs)) else None)"

lemma length_slice_get: "slice_get xs a b = Some ys \<Longrightarrow> length ys = b - a"
  by (auto simp: slice_get_def split: if_splits)

text \<open>\<open>xs[i..i + ys.len()].copy_from_slice(ys)\<close>, for a range inside \<open>xs\<close>.\<close>

definition write_at :: "'a list \<Rightarrow> nat \<Rightarrow> 'a list \<Rightarrow> 'a list" where
  "write_at xs i ys = take i xs @ ys @ drop (i + length ys) xs"

lemma length_write_at [simp]: "i + length ys \<le> length xs \<Longrightarrow> length (write_at xs i ys) = length xs"
  by (simp add: write_at_def)

lemma take_write_at: "i + length ys \<le> length xs \<Longrightarrow> take (i + length ys) (write_at xs i ys) = take i xs @ ys"
  by (simp add: write_at_def)

lemma write_at_0: "write_at xs 0 ys = ys @ drop (length ys) xs"
  by (simp add: write_at_def)

text \<open>Consecutive writes into a buffer, walked from the front.\<close>

lemma write_at_skip_Cons: "0 < i \<Longrightarrow> write_at (x # xs) i ys = x # write_at xs (i - 1) ys"
  by (cases i) (simp_all add: write_at_def)

lemma write_at_skip_append: "length xs \<le> i \<Longrightarrow> write_at (xs @ ys) i zs = xs @ write_at ys (i - length xs) zs"
  by (simp add: write_at_def)

lemmas write_at_walk = write_at_0 write_at_skip_Cons write_at_skip_append

text \<open>\<open>slice::chunks_exact\<close>: whole chunks, a shorter remainder left out.\<close>

function chunks_exact :: "nat \<Rightarrow> 'a list \<Rightarrow> 'a list list" where
  "chunks_exact n xs = (if n = 0 \<or> length xs < n then [] else take n xs # chunks_exact n (drop n xs))"
  by pat_completeness auto
termination
  by (relation "measure (\<lambda>(n, xs). length xs)") auto

declare chunks_exact.simps [simp del]

text \<open>\<open>iter().position\<close>: the index of the first element that satisfies a test.\<close>

fun position :: "('a \<Rightarrow> bool) \<Rightarrow> 'a list \<Rightarrow> nat option" where
  "position P [] = None"
| "position P (x # xs) = (if P x then Some 0 else map_option Suc (position P xs))"

lemma position_None: "position P xs = None \<longleftrightarrow> (\<forall>x\<in>set xs. \<not> P x)"
  by (induction xs) auto

lemma position_Some: "position P xs = Some i \<Longrightarrow> i < length xs \<and> P (xs ! i) \<and> (\<forall>j<i. \<not> P (xs ! j))"
  by (induction xs arbitrary: i) (auto simp: nth_Cons' split: if_splits)

lemma position_map: "position P (map f xs) = position (\<lambda>x. P (f x)) xs"
  by (induction xs) auto

lemma position_append:
  "position P (xs @ ys) = (case position P xs of Some i \<Rightarrow> Some i | None \<Rightarrow> map_option ((+) (length xs)) (position P ys))"
  by (cases "position P ys"; induction xs) (auto split: option.splits)

text \<open>Big-endian and little-endian digits of a number, and the words read back from them.\<close>

fun nat_be :: "nat \<Rightarrow> nat \<Rightarrow> bytes" where
  "nat_be 0 v = []"
| "nat_be (Suc n) v = nat_be n (v div 256) @ [of_nat v]"

definition be_nat :: "bytes \<Rightarrow> nat" where
  "be_nat bs = foldl (\<lambda>a b. 256 * a + unat b) 0 bs"

definition be_bytes :: "nat \<Rightarrow> 'a::len word \<Rightarrow> bytes" where
  "be_bytes n w = nat_be n (unat w)"

definition be_word :: "bytes \<Rightarrow> 'a::len word" where
  "be_word bs = of_nat (be_nat bs)"

definition le_bytes :: "nat \<Rightarrow> 'a::len word \<Rightarrow> bytes" where
  "le_bytes n w = rev (be_bytes n w)"

definition le_word :: "bytes \<Rightarrow> 'a::len word" where
  "le_word bs = be_word (rev bs)"

lemma length_nat_be [simp]: "length (nat_be n v) = n"
  by (induction n arbitrary: v) auto

lemma length_be_bytes [simp]: "length (be_bytes n w) = n"
  by (simp add: be_bytes_def)

lemma length_le_bytes [simp]: "length (le_bytes n w) = n"
  by (simp add: le_bytes_def)

lemma be_nat_Nil [simp]: "be_nat [] = 0"
  by (simp add: be_nat_def)

lemma be_nat_snoc [simp]: "be_nat (bs @ [b]) = 256 * be_nat bs + unat b"
  by (simp add: be_nat_def)

lemma unat_of_nat_u8: "unat (of_nat v :: u8) = v mod 256"
  by (simp add: unat_of_nat)

lemma be_nat_nat_be: "be_nat (nat_be n v) = v mod 256 ^ n"
proof (induction n arbitrary: v)
  case 0
  then show ?case by simp
next
  case (Suc n)
  have "be_nat (nat_be (Suc n) v) = 256 * (v div 256 mod 256 ^ n) + v mod 256"
    by (simp add: Suc.IH unat_of_nat_u8)
  also have "\<dots> = v mod 256 ^ Suc n"
    by (simp add: mod_mult2_eq)
  finally show ?case .
qed

lemma be_nat_bound: "be_nat bs < 256 ^ length bs"
proof (induction bs rule: rev_induct)
  case Nil
  then show ?case by simp
next
  case (snoc b bs)
  have "unat b < 256"
    using unsigned_less[of b] by simp
  with snoc.IH show ?case by simp
qed

lemma nat_be_be_nat: "nat_be (length bs) (be_nat bs) = bs"
proof (induction bs rule: rev_induct)
  case Nil
  then show ?case by simp
next
  case (snoc b bs)
  have b: "unat b < 256"
    using unsigned_less[of b] by simp
  have "(of_nat (256 * be_nat bs + unat b) :: u8) = b"
  proof -
    have "(256 :: u8) = 0"
      by simp
    then show ?thesis
      by (simp only: of_nat_add of_nat_mult of_nat_numeral mult_zero_left add_0_left
          of_nat_unat ucast_id)
  qed
  with b snoc.IH show ?case by simp
qed

lemma be_word_be_bytes [codec]:
  assumes "LENGTH('a::len) = 8 * n"
  shows "be_word (be_bytes n (w :: 'a word)) = w"
proof -
  have "(256::nat) ^ n = 2 ^ LENGTH('a)"
    by (simp add: assms power_mult)
  then have "unat w < 256 ^ n"
    using unsigned_less[of w] by simp
  then show ?thesis
    by (simp add: be_word_def be_bytes_def be_nat_nat_be)
qed

lemma be_bytes_be_word [codec]:
  assumes "LENGTH('a::len) = 8 * length bs"
  shows "be_bytes (length bs) (be_word bs :: 'a word) = bs"
proof -
  have "(256::nat) ^ length bs = 2 ^ LENGTH('a)"
    by (simp add: assms power_mult)
  then have "unat (be_word bs :: 'a word) = be_nat bs"
    using be_nat_bound[of bs] by (simp add: be_word_def unat_of_nat)
  then show ?thesis
    by (simp add: be_bytes_def nat_be_be_nat)
qed

lemma le_word_le_bytes [codec]:
  "LENGTH('a::len) = 8 * n \<Longrightarrow> le_word (le_bytes n (w :: 'a word)) = w"
  by (simp add: le_word_def le_bytes_def be_word_be_bytes)

lemma be_word_u16 [simp]: "be_word (be_bytes 2 (w :: u16)) = w"
  by (rule be_word_be_bytes) simp
lemma be_word_u32 [simp]: "be_word (be_bytes 4 (w :: u32)) = w"
  by (rule be_word_be_bytes) simp
lemma be_word_u64 [simp]: "be_word (be_bytes 8 (w :: u64)) = w"
  by (rule be_word_be_bytes) simp
lemma le_word_u16 [simp]: "le_word (le_bytes 2 (w :: u16)) = w"
  by (rule le_word_le_bytes) simp
lemma le_word_u32 [simp]: "le_word (le_bytes 4 (w :: u32)) = w"
  by (rule le_word_le_bytes) simp
lemma le_word_u64 [simp]: "le_word (le_bytes 8 (w :: u64)) = w"
  by (rule le_word_le_bytes) simp

section \<open>Saturating arithmetic\<close>

text \<open>\<open>saturating_add\<close>, \<open>saturating_sub\<close> and \<open>saturating_mul\<close> of the unsigned integers.\<close>

definition sat_add :: "'a::len word \<Rightarrow> 'a word \<Rightarrow> 'a word" where
  "sat_add a b = (if unat a + unat b < 2 ^ LENGTH('a) then a + b else - 1)"

definition sat_sub :: "'a::len word \<Rightarrow> 'a word \<Rightarrow> 'a word" where
  "sat_sub a b = (if b \<le> a then a - b else 0)"

definition sat_mul :: "'a::len word \<Rightarrow> 'a word \<Rightarrow> 'a word" where
  "sat_mul a b = (if unat a * unat b < 2 ^ LENGTH('a) then a * b else - 1)"

lemma unat_minus_1: "unat (- 1 :: 'a::len word) = 2 ^ LENGTH('a) - 1"
  by (simp add: unsigned_minus_1_eq_mask mask_eq_exp_minus_1)

lemma unat_sat_add [sat_simps]:
  "unat (sat_add a (b :: 'a::len word)) = min (unat a + unat b) (2 ^ LENGTH('a) - 1)"
  by (auto simp: sat_add_def unat_minus_1 unat_word_ariths)

lemma unat_sat_sub [sat_simps]: "unat (sat_sub a (b :: 'a::len word)) = unat a - unat b"
  by (auto simp: sat_sub_def unat_sub word_le_nat_alt)

lemma unat_sat_mul [sat_simps]:
  "unat (sat_mul a (b :: 'a::len word)) = min (unat a * unat b) (2 ^ LENGTH('a) - 1)"
  by (auto simp: sat_mul_def unat_minus_1 unat_word_ariths)

text \<open>
  \<open>Micros::since\<close> of \<open>rusty_esp_core\<close> is not part of this repository: the operations that call
  it take it as an argument. What they rely on is that it is the saturating difference of the
  two clock readings.
\<close>

definition saturating_since :: "(micros \<Rightarrow> micros \<Rightarrow> u64) \<Rightarrow> bool" where
  "saturating_since since \<longleftrightarrow> (\<forall>a b. unat (since a b) = unat a - unat b)"

lemma saturating_since_sat_sub: "saturating_since sat_sub"
  by (simp add: saturating_since_def unat_sat_sub)

section \<open>The interface of a wire format\<close>

text \<open>
  Every wire format of the program is an encoder into a byte string and a decoder of byte
  strings that may refuse. What its users rely on is that a valid value is read back from its
  encoding; that two values never share an encoding then follows once, here.
\<close>

locale wire_codec =
  fixes enc :: "'a \<Rightarrow> bytes" and dec :: "bytes \<Rightarrow> err + 'a" and valid :: "'a \<Rightarrow> bool"
  assumes dec_enc: "valid x \<Longrightarrow> dec (enc x) = Inr x"
begin

lemma enc_inject:
  assumes "valid x" and "valid y" and "enc x = enc y"
  shows "x = y"
proof -
  have "dec (enc y) = Inr x"
    unfolding assms(3)[symmetric] by (rule dec_enc) (rule assms(1))
  then show ?thesis
    unfolding dec_enc[OF assms(2)] by simp
qed

lemma enc_accepted: "valid x \<Longrightarrow> is_ok (dec (enc x))"
  by (simp add: dec_enc)

end

end
