(* ===== verification/Replay.thy ===== *)
theory Replay
  imports Prelude
begin

text \<open>
  The anti-replay window of the link (\<open>ReplayWindow\<close> in
  \<open>crates/rusty_esp_signal-core/src/link.rs\<close>): a 64-frame sliding bitmap over \<open>u32\<close> sequence
  numbers. Its contract is stated over the set of the sequence numbers accepted so far
  (\<open>window_accepts\<close>); \<open>window_rel\<close> relates a window to that set and every operation is a
  simulation of the set-based one. The interface \<open>replay_guard\<close> is what a receiver relies on;
  it is interpreted here on the window and in theory \<open>Session\<close> on the receiving session.
\<close>

definition WINDOW :: nat where
  "WINDOW = 64"

record replay_window =
  rw_highest :: u32
  rw_bitmap :: u64
  rw_primed :: bool

definition rw_new :: replay_window where
  "rw_new = \<lparr>rw_highest = 0, rw_bitmap = 0, rw_primed = False\<rparr>"

definition would_accept :: "replay_window \<Rightarrow> u32 \<Rightarrow> bool" where
  "would_accept w s =
     (if \<not> rw_primed w then True
      else if s > rw_highest w then True
      else let behind = unat (rw_highest w - s)
           in behind < WINDOW \<and> drop_bit behind (rw_bitmap w) AND 1 = 0)"

definition accept :: "replay_window \<Rightarrow> u32 \<Rightarrow> bool \<times> replay_window" where
  "accept w s =
     (if \<not> rw_primed w then (True, \<lparr>rw_highest = s, rw_bitmap = 1, rw_primed = True\<rparr>)
      else if s > rw_highest w then
        let shift = unat (s - rw_highest w);
            shifted = (if shift \<ge> WINDOW then 0 else push_bit shift (rw_bitmap w))
        in (True, w\<lparr>rw_bitmap := shifted OR 1, rw_highest := s\<rparr>)
      else let behind = unat (rw_highest w - s)
           in if behind \<ge> WINDOW \<or> drop_bit behind (rw_bitmap w) AND 1 = 1 then (False, w)
              else (True, w\<lparr>rw_bitmap := rw_bitmap w OR push_bit behind 1\<rparr>))"

definition rw_highest_seen :: "replay_window \<Rightarrow> u32 option" where
  "rw_highest_seen w = (if rw_primed w then Some (rw_highest w) else None)"

section \<open>The interface of a replay guard\<close>

text \<open>
  A guard decides message by message; \<open>key\<close> is the number a message carries. The law: with the
  set of keys accepted so far tracked by \<open>rel\<close>, an accepted message has a new key, and the
  tracked set grows by exactly that key.
\<close>

fun accepted_by :: "('s \<Rightarrow> 'm \<Rightarrow> bool \<times> 's) \<Rightarrow> 's \<Rightarrow> 'm list \<Rightarrow> 'm list" where
  "accepted_by acc s [] = []"
| "accepted_by acc s (m # ms) =
     (case acc s m of (b, s') \<Rightarrow> (if b then [m] else []) @ accepted_by acc s' ms)"

locale replay_guard =
  fixes acc :: "'s \<Rightarrow> 'm \<Rightarrow> bool \<times> 's"
    and key :: "'m \<Rightarrow> 'k"
    and rel :: "'s \<Rightarrow> 'k set \<Rightarrow> bool"
  assumes new_key: "rel s S \<Longrightarrow> acc s m = (True, s') \<Longrightarrow> key m \<notin> S"
    and rel_accept: "rel s S \<Longrightarrow> acc s m = (True, s') \<Longrightarrow> rel s' (insert (key m) S)"
    and rel_refuse: "rel s S \<Longrightarrow> acc s m = (False, s') \<Longrightarrow> rel s' S"
begin

lemma accepted_fresh:
  "rel s S \<Longrightarrow> distinct (map key (accepted_by acc s ms)) \<and> key ` set (accepted_by acc s ms) \<inter> S = {}"
proof (induction ms arbitrary: s S)
  case Nil
  then show ?case by simp
next
  case (Cons m ms)
  obtain b s' where step: "acc s m = (b, s')"
    by fastforce
  show ?case
  proof (cases b)
    case True
    with step have acc: "acc s m = (True, s')"
      by simp
    have "key m \<notin> S" and "rel s' (insert (key m) S)"
      by (rule new_key[OF Cons.prems acc], rule rel_accept[OF Cons.prems acc])
    with Cons.IH[of s' "insert (key m) S"] step True show ?thesis
      by auto
  next
    case False
    with Cons.prems step have "rel s' S"
      by (auto intro: rel_refuse)
    with Cons.IH[of s' S] step False show ?thesis
      by simp
  qed
qed

lemma accepted_distinct: "rel s S \<Longrightarrow> distinct (map key (accepted_by acc s ms))"
  using accepted_fresh by blast

end

section \<open>The window against the set of accepted numbers\<close>

definition window_accepts :: "nat set \<Rightarrow> nat \<Rightarrow> bool" where
  "window_accepts S n \<longleftrightarrow> n \<notin> S \<and> (S = {} \<or> n + WINDOW > Max S)"

definition window_rel :: "replay_window \<Rightarrow> nat set \<Rightarrow> bool" where
  "window_rel w S \<longleftrightarrow> finite S \<and> (rw_primed w \<longleftrightarrow> S \<noteq> {}) \<and>
     (S \<noteq> {} \<longrightarrow> Max S = unat (rw_highest w) \<and>
        (\<forall>n<WINDOW. bit (rw_bitmap w) n \<longleftrightarrow> n \<le> Max S \<and> Max S - n \<in> S))"

lemma window_rel_new [simp]: "window_rel rw_new {}"
  by (simp add: window_rel_def rw_new_def)

lemma drop_bit_and_1: "(drop_bit n (w :: 'a::len word) AND 1 = 1) = bit w n"
  by (simp add: bit_iff_and_drop_bit_eq_1)

lemma drop_bit_and_0: "(drop_bit n (w :: 'a::len word) AND 1 = 0) = (\<not> bit w n)"
  by (simp add: bit_iff_and_drop_bit_eq_1 and_one_eq mod_2_eq_odd)

lemma window_rel_bit:
  assumes "window_rel w S" and "S \<noteq> {}" and "n \<le> Max S" and "Max S - n < WINDOW"
  shows "bit (rw_bitmap w) (Max S - n) \<longleftrightarrow> n \<in> S"
  using assms by (auto simp: window_rel_def)

text \<open>One case of the simulation per branch of \<open>accept\<close>.\<close>

lemma accept_first: "window_rel w {} \<Longrightarrow>
  accept w s = (True, \<lparr>rw_highest = s, rw_bitmap = 1, rw_primed = True\<rparr>)"
  by (simp add: accept_def window_rel_def)

lemma window_rel_first: "window_rel \<lparr>rw_highest = s, rw_bitmap = 1, rw_primed = True\<rparr> {unat s}"
  by (auto simp: window_rel_def bit_1_iff)

lemma accept_newer:
  assumes "window_rel w S" and "S \<noteq> {}" and "Max S < unat s"
  shows "\<exists>w'. accept w s = (True, w') \<and> window_rel w' (insert (unat s) S)"
proof -
  have fin: "finite S" and hi: "unat (rw_highest w) = Max S" and pr: "rw_primed w"
    and bits: "\<And>n. n < WINDOW \<Longrightarrow> bit (rw_bitmap w) n \<longleftrightarrow> n \<le> Max S \<and> Max S - n \<in> S"
    using assms(1,2) by (auto simp: window_rel_def)
  let ?sh = "unat s - Max S"
  have gt: "rw_highest w < s"
    using assms(3) hi by (simp add: word_less_nat_alt)
  have sh: "unat (s - rw_highest w) = ?sh"
    using gt hi by (simp add: unat_sub)
  define bm where "bm = (if ?sh \<ge> WINDOW then 0 else push_bit ?sh (rw_bitmap w)) OR 1"
  have acc: "accept w s = (True, w\<lparr>rw_bitmap := bm, rw_highest := s\<rparr>)"
    using gt pr by (simp add: accept_def Let_def sh bm_def)
  have mx: "Max (insert (unat s) S) = unat s"
    using assms(2,3) fin by simp
  have le: "x \<le> Max S" if "x \<in> S" for x
    using fin that by simp
  have bm: "bit bm n \<longleftrightarrow> n \<le> unat s \<and> unat s - n \<in> insert (unat s) S" if n: "n < WINDOW" for n
  proof (cases "n = 0")
    case True
    then show ?thesis by (simp add: bm_def bit_or_iff bit_1_iff)
  next
    case False
    have "bit bm n \<longleftrightarrow> ?sh \<le> n \<and> bit (rw_bitmap w) (n - ?sh)"
      using False n by (auto simp: bm_def bit_or_iff bit_1_iff bit_push_bit_iff WINDOW_def)
    also have "\<dots> \<longleftrightarrow> ?sh \<le> n \<and> n - ?sh \<le> Max S \<and> Max S - (n - ?sh) \<in> S"
      using bits[of "n - ?sh"] n by auto
    also have "\<dots> \<longleftrightarrow> n \<le> unat s \<and> unat s - n \<in> S"
    proof (cases "?sh \<le> n")
      case True
      then have "n - ?sh \<le> Max S \<longleftrightarrow> n \<le> unat s" and "Max S - (n - ?sh) = unat s - n"
        using assms(3) by arith+
      with True show ?thesis by simp
    next
      case False
      then have "Max S < unat s - n"
        using assms(3) by arith
      with False le[of "unat s - n"] show ?thesis by auto
    qed
    finally show ?thesis
      using False by auto
  qed
  have "window_rel (w\<lparr>rw_bitmap := bm, rw_highest := s\<rparr>) (insert (unat s) S)"
    using fin pr bm mx by (simp add: window_rel_def)
  with acc show ?thesis by blast
qed

lemma accept_older:
  assumes "window_rel w S" and "S \<noteq> {}" and "unat s \<le> Max S"
  shows "\<exists>w'. accept w s = (window_accepts S (unat s), w') \<and>
    window_rel w' (if window_accepts S (unat s) then insert (unat s) S else S)"
proof -
  have fin: "finite S" and hi: "unat (rw_highest w) = Max S" and pr: "rw_primed w"
    and bits: "\<And>n. n < WINDOW \<Longrightarrow> bit (rw_bitmap w) n \<longleftrightarrow> n \<le> Max S \<and> Max S - n \<in> S"
    using assms(1,2) by (auto simp: window_rel_def)
  let ?behind = "Max S - unat s"
  have le: "\<not> rw_highest w < s"
    using assms(3) hi by (simp add: word_less_nat_alt)
  have bk: "unat (rw_highest w - s) = ?behind"
    using assms(3) hi by (simp add: unat_sub word_le_nat_alt)
  have seen: "?behind < WINDOW \<Longrightarrow> bit (rw_bitmap w) ?behind \<longleftrightarrow> unat s \<in> S"
    using bits[of ?behind] assms(3) by auto
  have dec: "window_accepts S (unat s) \<longleftrightarrow> ?behind < WINDOW \<and> \<not> bit (rw_bitmap w) ?behind"
  proof -
    have "?behind < WINDOW \<longleftrightarrow> Max S < unat s + WINDOW"
      using assms(3) by (auto simp: WINDOW_def)
    with seen assms(2) show ?thesis
      by (auto simp: window_accepts_def)
  qed
  let ?w' = "if window_accepts S (unat s)
    then w\<lparr>rw_bitmap := rw_bitmap w OR push_bit ?behind 1\<rparr> else w"
  have acc: "accept w s = (window_accepts S (unat s), ?w')"
    using pr le by (auto simp: accept_def Let_def bk drop_bit_and_1 dec)
  have "window_rel ?w' (insert (unat s) S)" if win: "window_accepts S (unat s)"
  proof -
    have mx: "Max (insert (unat s) S) = Max S"
      using assms(2,3) fin by simp
    have "bit (rw_bitmap w OR push_bit ?behind 1) n \<longleftrightarrow> n \<le> Max S \<and> Max S - n \<in> insert (unat s) S"
      if n: "n < WINDOW" for n
    proof -
      have "bit (push_bit ?behind (1 :: u64)) n \<longleftrightarrow> n = ?behind"
        using n by (auto simp: bit_exp_iff possible_bit_def WINDOW_def)
      moreover have "n = ?behind \<longleftrightarrow> n \<le> Max S \<and> Max S - n = unat s"
        using assms(3) by arith
      ultimately show ?thesis
        using bits[OF n] by (auto simp: bit_or_iff)
    qed
    with win fin hi pr mx show ?thesis
      by (simp add: window_rel_def)
  qed
  with acc assms(1) show ?thesis by auto
qed

lemma accept_refines:
  assumes "window_rel w S"
  shows "\<exists>w'. accept w s = (window_accepts S (unat s), w') \<and>
    window_rel w' (if window_accepts S (unat s) then insert (unat s) S else S)"
proof (cases "S = {}")
  case True
  with assms show ?thesis
    using accept_first[of w s] window_rel_first[of s] by (simp add: window_accepts_def)
next
  case False
  show ?thesis
  proof (cases "Max S < unat s")
    case True
    have "finite S"
      using assms by (simp add: window_rel_def)
    with True have "window_accepts S (unat s)"
      by (auto simp: window_accepts_def dest: Max_ge)
    with accept_newer[OF assms False True] show ?thesis by auto
  next
    case old: False
    with accept_older[OF assms False, of s] show ?thesis by simp
  qed
qed

lemma accept_fst: "window_rel w S \<Longrightarrow> fst (accept w s) = window_accepts S (unat s)"
  using accept_refines[of w S s] by auto

lemma accept_rel:
  "window_rel w S \<Longrightarrow> accept w s = (b, w') \<Longrightarrow>
    b = window_accepts S (unat s) \<and> window_rel w' (if b then insert (unat s) S else S)"
  using accept_refines[of w S s] by auto

lemma would_accept_eq: "would_accept w s = fst (accept w s)"
  by (auto simp: would_accept_def accept_def Let_def drop_bit_and_1 drop_bit_and_0)

lemma accept_refused_unchanged: "accept w s = (False, w') \<Longrightarrow> w' = w"
  by (auto simp: accept_def Let_def split: if_splits)

interpretation window: replay_guard accept unat window_rel
  by unfold_locales (auto dest: accept_rel simp: window_accepts_def)

section \<open>Properties\<close>

text \<open>C26: the replay window is a refinement of its specification over the set of accepted
  sequence numbers: \<open>accept\<close> answers exactly "not accepted before, and not 64 or more behind the
  highest", and records exactly the number it accepted.\<close>

theorem replay_window_refines:
  assumes "window_rel w S"
  shows "fst (accept w s) = (unat s \<notin> S \<and> (S = {} \<or> unat s + 64 > Max S)) \<and>
    window_rel (snd (accept w s)) (if fst (accept w s) then insert (unat s) S else S)"
  using accept_refines[OF assms, of s] by (auto simp: window_accepts_def WINDOW_def split: if_splits)

theorem replay_window_refines_witness:
  "fst (accept rw_new 7) = (unat (7::u32) \<notin> {} \<and> (({}::nat set) = {} \<or> unat (7::u32) + 64 > Max {})) \<and>
    window_rel (snd (accept rw_new 7)) (if fst (accept rw_new 7) then insert (unat (7::u32)) {} else {})"
  by (rule replay_window_refines) simp

lemma replay_never_twice: "distinct (accepted_by accept rw_new ss)"
  using window.accepted_distinct[OF window_rel_new, of ss] by (simp add: distinct_map)

lemma would_accept_predicts:
  "would_accept w s = fst (accept w s) \<and> (\<not> would_accept w s \<longleftrightarrow> accept w s = (False, w))"
  using accept_refused_unchanged[of w s "snd (accept w s)"]
  by (cases "accept w s") (auto simp: would_accept_eq)

end
