(* ===== verification/Hmac.thy ===== *)
theory Hmac
  imports Prelude
begin

text \<open>
  The link's HMAC-SHA256 (the block engine of \<open>crates/rusty_esp_signal-core/src/link.rs\<close>): the
  trait \<open>Sha256Blocks\<close> as a record of its two methods, the software engine \<open>SoftSha\<close>, the key's
  two midstates (\<open>Keyed\<close>, \<open>keyed\<close>), \<open>hmac_with\<close> and the constant-time comparison \<open>ct_eq\<close>.
  \<open>sha2::compress256\<close> is a dependency: the parameter \<open>c256\<close>, the compression of one 64-byte
  block on a state of eight numeric words. The interface \<open>sha_blocks\<close> is the contract the trait's
  documentation states; \<open>SoftSha\<close> satisfies it for every compression function.
\<close>

type_synonym sha_state = "u32 list" \<comment> \<open>\<open>[u32; 8]\<close>\<close>

record sha_engine =
  compress :: "sha_state \<Rightarrow> bytes \<Rightarrow> sha_state"
  compress2 :: "sha_state \<Rightarrow> bytes \<Rightarrow> bytes \<Rightarrow> sha_state"

text \<open>The trait's default \<open>compress2\<close>.\<close>

definition default_compress2 ::
  "(sha_state \<Rightarrow> bytes \<Rightarrow> sha_state) \<Rightarrow> sha_state \<Rightarrow> bytes \<Rightarrow> bytes \<Rightarrow> sha_state" where
  "default_compress2 cmp st first second = cmp (cmp st first) second"

definition swap_bytes :: "u32 \<Rightarrow> u32" where
  "swap_bytes w = be_word (le_bytes 4 w)"

definition soft_compress :: "(sha_state \<Rightarrow> bytes \<Rightarrow> sha_state) \<Rightarrow> sha_state \<Rightarrow> bytes \<Rightarrow> sha_state" where
  "soft_compress c256 st blocks =
     (let numeric = map swap_bytes st
      in map swap_bytes (foldl c256 numeric (chunks_exact 64 blocks)))"

definition soft_sha :: "(sha_state \<Rightarrow> bytes \<Rightarrow> sha_state) \<Rightarrow> sha_engine" where
  "soft_sha c256 = \<lparr>compress = soft_compress c256, compress2 = default_compress2 (soft_compress c256)\<rparr>"

definition IV :: sha_state where
  "IV = map swap_bytes [0x6a09e667, 0xbb67ae85, 0x3c6ef372, 0xa54ff53a,
    0x510e527f, 0x9b05688c, 0x1f83d9ab, 0x5be0cd19]"

record keyed_state =
  k_inner :: sha_state
  k_outer :: sha_state

text \<open>\<open>ipad[i] ^= k\<close> for each byte of the key, on a 64-byte pad.\<close>

definition key_pad :: "u8 \<Rightarrow> bytes \<Rightarrow> bytes" where
  "key_pad p key = map (\<lambda>k. p XOR k) key @ replicate (64 - length key) p"

definition keyed :: "(sha_state \<Rightarrow> bytes \<Rightarrow> sha_state) \<Rightarrow> bytes \<Rightarrow> keyed_state" where
  "keyed c256 key = \<lparr>k_inner = soft_compress c256 IV (key_pad 0x36 key),
                     k_outer = soft_compress c256 IV (key_pad 0x5c key)\<rparr>"

text \<open>The digest's byte order: each state word little-endian.\<close>

definition digest_bytes :: "sha_state \<Rightarrow> bytes" where
  "digest_bytes st = concat (map (le_bytes 4) st)"

definition hmac_with :: "sha_engine \<Rightarrow> keyed_state \<Rightarrow> bytes \<Rightarrow> bytes" where
  "hmac_with engine k msg =
     (let whole = length msg div 64 * 64;
          rest = drop whole msg;
          tail = write_at (write_at (replicate 128 0) 0 rest) (length rest) [0x80];
          n = (if length rest + 9 \<le> 64 then 64 else 128);
          bits = of_nat (64 + length msg) * 8 :: u64;
          tail = write_at tail (n - 8) (be_bytes 8 bits);
          st = compress2 engine (k_inner k) (take whole msg) (take n tail);
          outer = write_at (replicate 64 0) 0 (digest_bytes st);
          outer = write_at outer 32 [0x80];
          outer = write_at outer 56 (be_bytes 8 (768 :: u64));
          st = compress engine (k_outer k) outer
      in digest_bytes st)"

definition TAG_LEN :: nat where
  "TAG_LEN = 16"

definition ct_eq :: "bytes \<Rightarrow> bytes \<Rightarrow> bool" where
  "ct_eq a b \<longleftrightarrow> foldl (\<lambda>d (x, y). d OR (x XOR y)) 0 (zip a b) = 0 \<and> length b = TAG_LEN"

section \<open>The engines' contract\<close>

definition whole_blocks :: "bytes \<Rightarrow> bool" where
  "whole_blocks bs \<longleftrightarrow> length bs mod 64 = 0"

lemma whole_blocks_append: "whole_blocks a \<Longrightarrow> whole_blocks (a @ b) = whole_blocks b"
  using mod_add_left_eq[of "length a" 64 "length b"] by (simp add: whole_blocks_def)

locale sha_blocks =
  fixes cmp :: "sha_state \<Rightarrow> bytes \<Rightarrow> sha_state"
    and cmp2 :: "sha_state \<Rightarrow> bytes \<Rightarrow> bytes \<Rightarrow> sha_state"
  assumes cmp_append: "whole_blocks a \<Longrightarrow> whole_blocks b \<Longrightarrow> cmp st (a @ b) = cmp (cmp st a) b"
    and cmp2_eq: "whole_blocks a \<Longrightarrow> whole_blocks b \<Longrightarrow> cmp2 st a b = cmp (cmp st a) b"
begin

lemma cmp2_append: "whole_blocks a \<Longrightarrow> whole_blocks b \<Longrightarrow> cmp2 st a b = cmp st (a @ b)"
  by (simp add: cmp_append cmp2_eq)

lemma resume_from_midstate:
  "whole_blocks pad \<Longrightarrow> whole_blocks a \<Longrightarrow> whole_blocks b \<Longrightarrow>
    cmp2 (cmp st pad) a b = cmp st (pad @ a @ b)"
  by (simp add: cmp2_append cmp_append whole_blocks_append)

end

lemma chunks_exact_append:
  "0 < n \<Longrightarrow> length a mod n = 0 \<Longrightarrow> chunks_exact n (a @ b) = chunks_exact n a @ chunks_exact n b"
proof (induction n a rule: chunks_exact.induct)
  case (1 n a)
  show ?case
  proof (cases "a = []")
    case True
    then show ?thesis by (simp add: chunks_exact.simps[of n "[]"] "1.prems")
  next
    case False
    then have le: "n \<le> length a"
      using "1.prems" by (metis dvd_imp_le length_greater_0_conv mod_0_imp_dvd)
    then have "length (drop n a) mod n = 0"
      using "1.prems" le by (simp add: le_mod_geq)
    with le "1.IH" "1.prems"
    have "chunks_exact n (drop n a @ b) = chunks_exact n (drop n a) @ chunks_exact n b"
      by simp
    with le "1.prems" show ?thesis
      by (simp add: chunks_exact.simps[of n "a @ b"] chunks_exact.simps[of n a])
  qed
qed

lemma swap_bytes_swap_bytes [simp]: "swap_bytes (swap_bytes w) = w"
proof -
  have "be_bytes 4 (be_word (rev (be_bytes 4 w)) :: u32) = rev (be_bytes 4 w)"
    using be_bytes_be_word[where 'a = 32, of "rev (be_bytes 4 w)"] by simp
  then show ?thesis
    by (simp add: swap_bytes_def le_bytes_def)
qed

lemma swap_bytes_o [simp]: "swap_bytes \<circ> swap_bytes = id"
  by (simp add: fun_eq_iff)

lemma soft_compress_append:
  "whole_blocks a \<Longrightarrow> soft_compress c256 st (a @ b) = soft_compress c256 (soft_compress c256 st a) b"
  by (simp add: soft_compress_def whole_blocks_def chunks_exact_append)

interpretation soft: sha_blocks "soft_compress c256" "compress2 (soft_sha c256)"
  for c256 :: "sha_state \<Rightarrow> bytes \<Rightarrow> sha_state"
  by unfold_locales (simp_all add: soft_compress_append soft_sha_def default_compress2_def)

section \<open>RFC 2104 over FIPS 180-4 padding\<close>

text \<open>
  The reference: SHA-256's padding of a whole message of \<open>len\<close> bytes, the hash of a padded
  message, and HMAC as two hashes. Nothing of the streaming above is in it.
\<close>

definition sha_pad :: "nat \<Rightarrow> bytes" where
  "sha_pad len = 0x80 # replicate ((119 - len mod 64) mod 64) 0 @ be_bytes 8 (of_nat len * 8 :: u64)"

definition sha256_of :: "(sha_state \<Rightarrow> bytes \<Rightarrow> sha_state) \<Rightarrow> bytes \<Rightarrow> bytes" where
  "sha256_of c256 m = digest_bytes (soft_compress c256 IV (m @ sha_pad (length m)))"

definition hmac_ref :: "(sha_state \<Rightarrow> bytes \<Rightarrow> sha_state) \<Rightarrow> bytes \<Rightarrow> bytes \<Rightarrow> bytes" where
  "hmac_ref c256 key m =
     sha256_of c256 (key_pad 0x5c key @ sha256_of c256 (key_pad 0x36 key @ m))"

text \<open>The documented shape of \<open>sha2::compress256\<close>: eight words to eight words.\<close>

definition c256_ok :: "(sha_state \<Rightarrow> bytes \<Rightarrow> sha_state) \<Rightarrow> bool" where
  "c256_ok c256 \<longleftrightarrow> (\<forall>st b. length st = 8 \<longrightarrow> length (c256 st b) = 8)"

text \<open>An engine that agrees with the software one on whole blocks (the trait's contract).\<close>

definition engine_agrees :: "(sha_state \<Rightarrow> bytes \<Rightarrow> sha_state) \<Rightarrow> sha_engine \<Rightarrow> bool" where
  "engine_agrees c256 e \<longleftrightarrow>
     (\<forall>st b. whole_blocks b \<longrightarrow> compress e st b = soft_compress c256 st b) \<and>
     (\<forall>st a b. whole_blocks a \<longrightarrow> whole_blocks b \<longrightarrow>
        compress2 e st a b = soft_compress c256 (soft_compress c256 st a) b)"

lemma soft_engine_agrees: "engine_agrees c256 (soft_sha c256)"
  by (simp add: engine_agrees_def soft_sha_def default_compress2_def)

lemma length_key_pad: "length key \<le> 64 \<Longrightarrow> length (key_pad p key) = 64"
  by (simp add: key_pad_def)

lemma length_foldl_c256: "c256_ok c256 \<Longrightarrow> length st = 8 \<Longrightarrow> length (foldl c256 st bs) = 8"
  by (induction bs arbitrary: st) (auto simp: c256_ok_def)

lemma length_soft_compress: "c256_ok c256 \<Longrightarrow> length st = 8 \<Longrightarrow> length (soft_compress c256 st b) = 8"
  by (simp add: soft_compress_def Let_def length_foldl_c256)

lemma length_digest_bytes: "length (digest_bytes st) = 4 * length st"
  by (induction st) (auto simp: digest_bytes_def)

lemma length_IV: "length IV = 8"
  by (simp add: IV_def)

lemma mod_geq_64: "64 \<le> (k::nat) \<Longrightarrow> k < 128 \<Longrightarrow> k mod 64 = k - 64"
  by (simp add: mod_if)

lemma tail_block:
  assumes "length rest < 64" and n: "n = (if length rest + 9 \<le> 64 then 64 else 128)"
    and "length bits = 8"
  shows "take n (write_at (write_at (write_at (replicate 128 0) 0 rest) (length rest) [0x80]) (n - 8) bits)
    = rest @ 0x80 # replicate ((119 - length rest) mod 64) 0 @ bits"
proof -
  define z where "z = (119 - length rest) mod 64"
  have z: "n - 8 = Suc (length rest + z)"
  proof (cases "length rest \<le> 55")
    case True
    then have "(119 - length rest) mod 64 = 55 - length rest"
      using mod_geq_64[of "119 - length rest"] by simp
    with True show ?thesis by (simp add: n z_def)
  next
    case False
    with assms(1) show ?thesis by (simp add: n z_def)
  qed
  have "z < 64" by (simp add: z_def)
  have "write_at (write_at (replicate 128 0) 0 rest) (length rest) [0x80]
      = rest @ 0x80 # replicate (127 - length rest) 0"
    by (simp add: write_at_def)
  moreover have "take z (replicate (127 - length rest) (0::u8)) = replicate z 0"
    using \<open>z < 64\<close> assms(1) by (simp add: min_def)
  moreover have "n = length rest + z + 9" and "n - 8 = length rest + (z + 1)"
    using z by simp_all
  ultimately show ?thesis
    using assms(3) by (simp add: write_at_def z_def[symmetric] take_Cons')
qed

lemma outer_block:
  assumes "length d = 32"
  shows "write_at (write_at (write_at (replicate 64 0) 0 d) 32 [0x80]) 56 (be_bytes 8 (768 :: u64))
    = d @ sha_pad 96"
proof -
  have "write_at (write_at (replicate 64 0) 0 d) 32 [0x80] = d @ 0x80 # replicate 31 0"
    using assms by (simp add: write_at_def)
  then show ?thesis
    using assms by (simp add: write_at_def sha_pad_def)
qed

lemma sha_pad_whole: "whole_blocks (m @ sha_pad (length m))"
proof -
  define r where "r = length m mod 64"
  have "r < 64" by (simp add: r_def)
  have "(length m + k) mod 64 = (r + k) mod 64" for k
    by (simp add: r_def mod_add_left_eq)
  moreover have "(r + (9 + (119 - r) mod 64)) mod 64 = 0"
  proof (cases "r \<le> 55")
    case True
    then show ?thesis using mod_geq_64[of "119 - r"] by simp
  next
    case False
    with \<open>r < 64\<close> show ?thesis by simp
  qed
  ultimately have "(length m + (9 + (119 - r) mod 64)) mod 64 = 0"
    by simp
  then show ?thesis
    by (simp add: whole_blocks_def sha_pad_def r_def)
qed

lemma hmac_with_blocks:
  assumes "rest = drop (length msg div 64 * 64) msg"
  shows "hmac_with e k msg =
    (let st = compress2 e (k_inner k) (take (length msg div 64 * 64) msg)
           (rest @ 0x80 # replicate ((119 - length rest) mod 64) 0
              @ be_bytes 8 (of_nat (64 + length msg) * 8 :: u64))
     in digest_bytes (compress e (k_outer k)
          (write_at (write_at (write_at (replicate 64 0) 0 (digest_bytes st)) 32 [0x80])
            56 (be_bytes 8 (768 :: u64)))))"
proof -
  have lt: "length rest < 64"
    by (simp add: assms minus_div_mult_eq_mod)
  show ?thesis
    unfolding hmac_with_def Let_def assms[symmetric] tail_block[OF lt refl length_be_bytes] ..
qed

lemma hmac_with_eq:
  assumes agrees: "engine_agrees c256 e" and ok: "c256_ok c256" and key: "length key \<le> 64"
  shows "hmac_with e (keyed c256 key) msg = hmac_ref c256 key msg"
proof -
  let ?w = "length msg div 64 * 64"
  define rest where "rest = drop ?w msg"
  let ?ipad = "key_pad 0x36 key" and ?opad = "key_pad 0x5c key"
  let ?pad = "rest @ 0x80 # replicate ((119 - length rest) mod 64) 0
    @ be_bytes 8 (of_nat (64 + length msg) * 8 :: u64)"
  have restlen: "length rest = length msg mod 64"
    by (simp add: rest_def minus_div_mult_eq_mod)
  have split: "take ?w msg @ rest = msg"
    by (simp add: rest_def)
  have w: "whole_blocks (take ?w msg)"
    by (simp add: whole_blocks_def min_absorb2 div_times_less_eq_dividend)
  have ip: "whole_blocks ?ipad" and op: "whole_blocks ?opad"
    using key by (simp_all add: whole_blocks_def length_key_pad)
  have pad: "take ?w msg @ ?pad = msg @ sha_pad (length (?ipad @ msg))"
    using key split by (simp add: sha_pad_def length_key_pad restlen flip: append_assoc)
  have "whole_blocks (?ipad @ take ?w msg @ ?pad)"
    using sha_pad_whole[of "?ipad @ msg"] pad by simp
  then have padw: "whole_blocks ?pad"
    using ip w by (simp only: whole_blocks_append)
  define st where "st = soft_compress c256 IV (?ipad @ msg @ sha_pad (length (?ipad @ msg)))"
  have st: "compress2 e (soft_compress c256 IV ?ipad) (take ?w msg) ?pad = st"
    using agrees w padw ip unfolding st_def pad[symmetric]
    by (simp add: engine_agrees_def soft_compress_append)
  have stlen: "length (digest_bytes st) = 32"
    using ok by (simp add: st_def length_digest_bytes length_soft_compress length_IV)
  have inner: "digest_bytes st = sha256_of c256 (?ipad @ msg)"
    by (simp add: st_def sha256_of_def)
  have outer: "whole_blocks (digest_bytes st @ sha_pad 96)"
    using stlen by (simp add: whole_blocks_def sha_pad_def)
  have "hmac_with e (keyed c256 key) msg =
      digest_bytes (compress e (soft_compress c256 IV ?opad) (digest_bytes st @ sha_pad 96))"
    unfolding hmac_with_blocks[OF rest_def] keyed_def keyed_state.simps st Let_def outer_block[OF stlen] ..
  also have "\<dots> = digest_bytes (soft_compress c256 IV (?opad @ digest_bytes st @ sha_pad 96))"
    using agrees outer op by (simp add: engine_agrees_def soft_compress_append)
  also have "\<dots> = hmac_ref c256 key msg"
    using key stlen by (simp add: hmac_ref_def sha256_of_def[of _ "?opad @ _"] length_key_pad flip: inner)
  finally show ?thesis .
qed

lemma hmac_ref_length: "c256_ok c256 \<Longrightarrow> length (hmac_ref c256 key m) = 32"
  by (simp add: hmac_ref_def sha256_of_def length_digest_bytes length_soft_compress length_IV)

section \<open>Comparison of tags\<close>

lemma xor_eq_zero: "(x XOR y = (0 :: 'a::len word)) = (x = y)"
  by (auto simp: bit_eq_iff bit_xor_iff)

lemma or_eq_zero: "(x OR y = (0 :: 'a::len word)) = (x = 0 \<and> y = 0)"
  by (auto simp: bit_eq_iff bit_or_iff)

lemma ct_fold: "foldl (\<lambda>d (x, y). d OR (x XOR y)) acc ps = (0 :: u8) \<longleftrightarrow>
  acc = 0 \<and> (\<forall>p\<in>set ps. fst p = snd p)"
  by (induction ps arbitrary: acc) (auto simp: or_eq_zero xor_eq_zero split: prod.splits)

lemma zip_all_equal: "length a = length b \<Longrightarrow> (\<forall>p\<in>set (zip a b). fst p = snd p) \<longleftrightarrow> a = b"
  by (induction a b rule: list_induct2) auto

lemma ct_eq_iff: "length a = TAG_LEN \<Longrightarrow> ct_eq a b \<longleftrightarrow> a = b"
  by (cases "length a = length b") (auto simp: ct_eq_def ct_fold zip_all_equal)

section \<open>Properties\<close>

text \<open>C28: resuming from a key's two midstates, in two engine calls with the padded tail built by
  hand, computes HMAC-SHA256 of RFC 2104 over FIPS 180-4 padding, for every message, on any engine
  that meets the trait's contract (the software engine and a chip's SHA unit alike).\<close>

theorem hmac_with_is_rfc2104:
  assumes "engine_agrees c256 e" and "c256_ok c256" and "length key \<le> 64"
  shows "hmac_with e (keyed c256 key) msg = hmac_ref c256 key msg"
  using assms by (rule hmac_with_eq)

theorem hmac_with_is_rfc2104_witness:
  "hmac_with (soft_sha (\<lambda>st b. rev st)) (keyed (\<lambda>st b. rev st) (replicate 32 0x0b)) (replicate 55 1) =
    hmac_ref (\<lambda>st b. rev st) (replicate 32 0x0b) (replicate 55 1)"
  by (rule hmac_with_is_rfc2104) (simp_all add: soft_engine_agrees c256_ok_def)

end
