(* ===== verification/Session.thy ===== *)
theory Session
  imports Replay Hmac
begin

text \<open>
  Data frames of an established session (\<open>Envelope\<close>, \<open>Counters\<close> and \<open>Session\<close> in
  \<open>crates/rusty_esp_signal-core/src/link.rs\<close>): the wire layout, sealing and opening on an HMAC
  engine, the order of the checks on reception, the counters, the exhaustion of the sequence
  space. A \<open>&mut self\<close> operation takes the session and returns it; a caller's \<open>out\<close> buffer is
  returned with what was written.
\<close>

definition VERSION :: u8 where "VERSION = 1"
definition HEADER_LEN :: nat where "HEADER_LEN = 7"
definition MAX_FRAME :: nat where "MAX_FRAME = 250"
definition MAX_PAYLOAD :: nat where "MAX_PAYLOAD = MAX_FRAME - HEADER_LEN - TAG_LEN"

lemmas frame_consts = VERSION_def HEADER_LEN_def MAX_FRAME_def MAX_PAYLOAD_def TAG_LEN_def

section \<open>Envelope\<close>

record envelope =
  ev_ver :: u8
  ev_session :: u16
  ev_seq :: u32
  ev_payload :: bytes
  ev_tag :: bytes

definition wire_len :: "nat \<Rightarrow> nat" where
  "wire_len payload_len = HEADER_LEN + payload_len + TAG_LEN"

definition envelope_parse :: "bytes \<Rightarrow> err + envelope" where
  "envelope_parse bs =
     (if length bs < HEADER_LEN + TAG_LEN then Inl InvalidFormat
      else if bs ! 0 \<noteq> VERSION then Inl InvalidFormat
      else let tag_at = length bs - TAG_LEN
           in Inr \<lparr>ev_ver = bs ! 0,
                   ev_session = be_word [bs ! 1, bs ! 2],
                   ev_seq = be_word [bs ! 3, bs ! 4, bs ! 5, bs ! 6],
                   ev_payload = take (tag_at - HEADER_LEN) (drop HEADER_LEN bs),
                   ev_tag = drop tag_at bs\<rparr>)"

section \<open>Session\<close>

record counters =
  c_sent :: u32
  c_received :: u32
  c_bad_tag :: u32
  c_replayed :: u32
  c_foreign :: u32

definition counters_zero :: counters where
  "counters_zero = \<lparr>c_sent = 0, c_received = 0, c_bad_tag = 0, c_replayed = 0, c_foreign = 0\<rparr>"

record 'did session =
  s_id :: u16
  s_peer :: 'did
  s_k_send :: bytes
  s_k_recv :: bytes
  s_mac_send :: keyed_state
  s_mac_recv :: keyed_state
  s_send_seq :: u32
  s_exhausted :: bool
  s_window :: replay_window
  s_established :: micros
  s_lifetime :: micros
  s_counters :: counters

definition expired :: "'did session \<Rightarrow> micros \<Rightarrow> bool" where
  "expired s now \<longleftrightarrow> sat_sub now (s_established s) \<ge> s_lifetime s"

definition seal_with ::
  "sha_engine \<Rightarrow> 'did session \<Rightarrow> bytes \<Rightarrow> bytes \<Rightarrow> (err + nat) \<times> 'did session \<times> bytes" where
  "seal_with engine s payload out =
     (if length payload > MAX_PAYLOAD then (Inl Unsupported, s, out)
      else let needed = wire_len (length payload) in
        if length out < needed then (Inl (BufferTooSmall needed), s, out)
        else if s_exhausted s then (Inl Denied, s, out)
        else
          let sq = s_send_seq s;
              s' = (if sq = - 1 then s\<lparr>s_exhausted := True\<rparr> else s\<lparr>s_send_seq := sq + 1\<rparr>);
              out = write_at out 0 [VERSION];
              out = write_at out 1 (be_bytes 2 (s_id s));
              out = write_at out 3 (be_bytes 4 sq);
              out = write_at out HEADER_LEN payload;
              full = hmac_with engine (s_mac_send s) (take (HEADER_LEN + length payload) out);
              tag = take TAG_LEN full;
              out = write_at out (HEADER_LEN + length payload) tag;
              c = s_counters s
          in (Inr needed, s'\<lparr>s_counters := c\<lparr>c_sent := c_sent c + 1\<rparr>\<rparr>, out))"

definition bump_foreign :: "'did session \<Rightarrow> 'did session" where
  "bump_foreign s = (let c = s_counters s in s\<lparr>s_counters := c\<lparr>c_foreign := c_foreign c + 1\<rparr>\<rparr>)"

definition open_with :: "sha_engine \<Rightarrow> 'did session \<Rightarrow> bytes \<Rightarrow> (err + bytes) \<times> 'did session" where
  "open_with engine s frame =
     (case envelope_parse frame of
        Inl e \<Rightarrow> (Inl e, bump_foreign s)
      | Inr env \<Rightarrow>
          if ev_session env \<noteq> s_id s then (Inl Denied, bump_foreign s)
          else
            let signed_len = length frame - TAG_LEN;
                full = hmac_with engine (s_mac_recv s) (take signed_len frame);
                want = take TAG_LEN full;
                c = s_counters s
            in if \<not> ct_eq want (ev_tag env)
               then (Inl Crypto, s\<lparr>s_counters := c\<lparr>c_bad_tag := c_bad_tag c + 1\<rparr>\<rparr>)
               else case accept (s_window s) (ev_seq env) of
                 (False, w) \<Rightarrow>
                   (Inl Denied, s\<lparr>s_window := w, s_counters := c\<lparr>c_replayed := c_replayed c + 1\<rparr>\<rparr>)
               | (True, w) \<Rightarrow>
                   (Inr (ev_payload env),
                    s\<lparr>s_window := w, s_counters := c\<lparr>c_received := c_received c + 1\<rparr>\<rparr>))"

text \<open>\<open>seal\<close> and \<open>open\<close>: the software engine.\<close>

definition seal where "seal c256 = seal_with (soft_sha c256)"
definition open_frame where "open_frame c256 = open_with (soft_sha c256)"

section \<open>Frames on the wire\<close>

definition frame_header :: "u16 \<Rightarrow> u32 \<Rightarrow> bytes" where
  "frame_header i sq = VERSION # be_bytes 2 i @ be_bytes 4 sq"

definition frame_bytes :: "sha_engine \<Rightarrow> keyed_state \<Rightarrow> u16 \<Rightarrow> u32 \<Rightarrow> bytes \<Rightarrow> bytes" where
  "frame_bytes e k i sq payload =
     (let signed = frame_header i sq @ payload in signed @ take TAG_LEN (hmac_with e k signed))"

definition frame_seq :: "bytes \<Rightarrow> nat" where
  "frame_seq f = unat (be_word [f ! 3, f ! 4, f ! 5, f ! 6] :: u32)"

lemma length_frame_header [simp]: "length (frame_header i sq) = HEADER_LEN"
  by (simp add: frame_header_def HEADER_LEN_def)

lemma list2_eq: "length xs = 2 \<Longrightarrow> [xs ! 0, xs ! 1] = xs"
  by (cases xs rule: list.exhaust; cases "tl xs" rule: list.exhaust) auto

lemma list4_eq: "length xs = 4 \<Longrightarrow> [xs ! 0, xs ! 1, xs ! 2, xs ! 3] = xs"
  by (rule nth_equalityI) (auto simp: nth_Cons' less_Suc_eq numeral_eq_Suc)

lemma be_bytes_2: "be_bytes 2 (w :: u16) = [be_bytes 2 w ! 0, be_bytes 2 w ! 1]"
  by (rule list2_eq[symmetric]) simp

lemma be_bytes_4: "be_bytes 4 (w :: u32) = [be_bytes 4 w ! 0, be_bytes 4 w ! 1, be_bytes 4 w ! 2, be_bytes 4 w ! 3]"
  by (rule list4_eq[symmetric]) simp

lemma frame_header_nth:
  "frame_header i sq ! 0 = VERSION"
  "be_word [(frame_header i sq @ r) ! 1, (frame_header i sq @ r) ! 2] = i"
  "be_word [(frame_header i sq @ r) ! 3, (frame_header i sq @ r) ! 4,
     (frame_header i sq @ r) ! 5, (frame_header i sq @ r) ! 6] = sq"
proof -
  obtain a b where ab: "be_bytes 2 i = [a, b]"
    using be_bytes_2[of i] by blast
  obtain c d e f where cf: "be_bytes 4 sq = [c, d, e, f]"
    using be_bytes_4[of sq] by blast
  show "frame_header i sq ! 0 = VERSION"
    by (simp add: frame_header_def)
  show "be_word [(frame_header i sq @ r) ! 1, (frame_header i sq @ r) ! 2] = i"
    using be_word_u16[of i, unfolded ab] by (simp add: frame_header_def ab cf)
  show "be_word [(frame_header i sq @ r) ! 3, (frame_header i sq @ r) ! 4,
     (frame_header i sq @ r) ! 5, (frame_header i sq @ r) ! 6] = sq"
    using be_word_u32[of sq, unfolded cf] by (simp add: frame_header_def ab cf)
qed

text \<open>What a successful \<open>seal\<close> leaves in the buffer, and what it does to the session.\<close>

definition after_seal :: "'did session \<Rightarrow> 'did session" where
  "after_seal s =
     (let s' = (if s_send_seq s = - 1 then s\<lparr>s_exhausted := True\<rparr>
                else s\<lparr>s_send_seq := s_send_seq s + 1\<rparr>);
          c = s_counters s
      in s'\<lparr>s_counters := c\<lparr>c_sent := c_sent c + 1\<rparr>\<rparr>)"

lemma write_frame:
  assumes "HEADER_LEN + length payload + length tag \<le> length out"
  shows "write_at (write_at (write_at (write_at (write_at out 0 [VERSION]) 1 (be_bytes 2 i)) 3 (be_bytes 4 sq))
      HEADER_LEN payload) (HEADER_LEN + length payload) tag
    = frame_header i sq @ payload @ tag @ drop (HEADER_LEN + length payload + length tag) out"
  and "take (HEADER_LEN + length payload)
      (write_at (write_at (write_at (write_at out 0 [VERSION]) 1 (be_bytes 2 i)) 3 (be_bytes 4 sq)) HEADER_LEN payload)
    = frame_header i sq @ payload"
proof -
  have 1: "write_at (write_at (write_at out 0 [VERSION]) 1 (be_bytes 2 (i::u16))) 3 (be_bytes 4 (sq::u32))
      = frame_header i sq @ drop HEADER_LEN out"
    using assms by (simp add: write_at_def frame_header_def HEADER_LEN_def)
  have 2: "write_at (frame_header i sq @ drop HEADER_LEN out) HEADER_LEN payload
      = frame_header i sq @ payload @ drop (HEADER_LEN + length payload) out"
    by (simp add: write_at_def add.commute)
  show "write_at (write_at (write_at (write_at (write_at out 0 [VERSION]) 1 (be_bytes 2 i)) 3 (be_bytes 4 sq))
      HEADER_LEN payload) (HEADER_LEN + length payload) tag
    = frame_header i sq @ payload @ tag @ drop (HEADER_LEN + length payload + length tag) out"
    unfolding 1 2 by (simp add: write_at_def ac_simps)
  show "take (HEADER_LEN + length payload)
      (write_at (write_at (write_at (write_at out 0 [VERSION]) 1 (be_bytes 2 i)) 3 (be_bytes 4 sq)) HEADER_LEN payload)
    = frame_header i sq @ payload"
    unfolding 1 2 by simp
qed

text \<open>A 16-byte tag: what the engine's contract gives for a session's keys.\<close>

definition tags_full :: "sha_engine \<Rightarrow> keyed_state \<Rightarrow> bool" where
  "tags_full e k \<longleftrightarrow> (\<forall>m. TAG_LEN \<le> length (hmac_with e k m))"

lemma tags_full_keyed:
  "engine_agrees c256 e \<Longrightarrow> c256_ok c256 \<Longrightarrow> length key \<le> 64 \<Longrightarrow> tags_full e (keyed c256 key)"
  by (simp add: tags_full_def hmac_with_eq hmac_ref_length TAG_LEN_def)

lemma seal_with_ok:
  assumes "tags_full e (s_mac_send s)" and "length payload \<le> MAX_PAYLOAD"
    and "wire_len (length payload) \<le> length out" and "\<not> s_exhausted s"
  shows "seal_with e s payload out =
    (Inr (wire_len (length payload)), after_seal s,
     frame_bytes e (s_mac_send s) (s_id s) (s_send_seq s) payload @ drop (wire_len (length payload)) out)"
proof -
  let ?tag = "take TAG_LEN (hmac_with e (s_mac_send s) (frame_header (s_id s) (s_send_seq s) @ payload))"
  have tag: "length ?tag = TAG_LEN"
    using assms(1) by (simp add: tags_full_def)
  have fits: "HEADER_LEN + length payload + length ?tag \<le> length out"
    using assms(3) tag by (simp add: wire_len_def)
  have sig: "take (HEADER_LEN + length payload)
      (write_at (write_at (write_at (write_at out 0 [VERSION]) 1 (be_bytes 2 (s_id s))) 3
        (be_bytes 4 (s_send_seq s))) HEADER_LEN payload) = frame_header (s_id s) (s_send_seq s) @ payload"
    by (rule write_frame(2)[where tag = ?tag]) (rule fits)
  show ?thesis
    using assms(2-4) tag
    unfolding seal_with_def Let_def sig write_frame(1)[OF fits] frame_bytes_def after_seal_def wire_len_def
    by simp
qed

lemma seal_with_refused:
  "seal_with e s payload out = (Inl er, s', out') \<Longrightarrow> s' = s \<and> out' = out"
  by (auto simp: seal_with_def Let_def split: if_splits)

lemma length_frame_bytes:
  "tags_full e k \<Longrightarrow> length (frame_bytes e k i sq payload) = wire_len (length payload)"
  by (simp add: frame_bytes_def Let_def tags_full_def wire_len_def)

lemma envelope_parse_frame:
  assumes "tags_full e k"
  shows "envelope_parse (frame_bytes e k i sq payload) = Inr \<lparr>ev_ver = VERSION, ev_session = i, ev_seq = sq,
    ev_payload = payload, ev_tag = take TAG_LEN (hmac_with e k (frame_header i sq @ payload))\<rparr>"
proof -
  let ?tag = "take TAG_LEN (hmac_with e k (frame_header i sq @ payload))"
  have tag: "length ?tag = TAG_LEN"
    using assms by (simp add: tags_full_def)
  have f: "frame_bytes e k i sq payload = frame_header i sq @ payload @ ?tag"
    by (simp add: frame_bytes_def)
  have v: "(frame_header i sq @ payload @ ?tag) ! 0 = VERSION"
    by (simp add: frame_header_def)
  show ?thesis
    using tag unfolding f envelope_parse_def
    by (simp only: v frame_header_nth) (simp add: Let_def)
qed

lemma frame_seq_frame: "frame_seq (frame_bytes e k i sq payload) = unat sq"
  by (simp add: frame_seq_def frame_bytes_def Let_def frame_header_nth)

section \<open>Opening\<close>

lemma open_with_Inr:
  assumes "open_with e s f = (Inr p, s')"
  obtains env where "envelope_parse f = Inr env" and "ev_session env = s_id s"
    and "ct_eq (take TAG_LEN (hmac_with e (s_mac_recv s) (take (length f - TAG_LEN) f))) (ev_tag env)"
    and "accept (s_window s) (ev_seq env) = (True, s_window s')" and "p = ev_payload env"
    and "s_mac_recv s' = s_mac_recv s" and "s_id s' = s_id s"
    and "s_counters s' = (s_counters s)\<lparr>c_received := c_received (s_counters s) + 1\<rparr>"
  using assms
  by (auto simp: open_with_def Let_def bump_foreign_def split: sum.splits if_splits prod.splits bool.splits)

lemma open_with_Inl:
  assumes "open_with e s f = (Inl er, s')"
  shows "s_window s' = s_window s" and "s_mac_recv s' = s_mac_recv s" and "s_id s' = s_id s"
    and "c_received (s_counters s') = c_received (s_counters s)"
  using assms
  by (auto simp: open_with_def Let_def bump_foreign_def
      split: sum.splits if_splits prod.splits bool.splits dest!: accept_refused_unchanged)

lemma envelope_parse_Inr:
  assumes "envelope_parse f = Inr env"
  shows "unat (ev_seq env) = frame_seq f"
    and "f = frame_header (ev_session env) (ev_seq env) @ ev_payload env @ ev_tag env"
    and "length (ev_tag env) = TAG_LEN"
    and "take (length f - TAG_LEN) f = frame_header (ev_session env) (ev_seq env) @ ev_payload env"
proof -
  have len: "HEADER_LEN + TAG_LEN \<le> length f" and v: "f ! 0 = VERSION"
    and i: "ev_session env = be_word [f ! 1, f ! 2]"
    and sq: "ev_seq env = be_word [f ! 3, f ! 4, f ! 5, f ! 6]"
    and p: "ev_payload env = take (length f - TAG_LEN - HEADER_LEN) (drop HEADER_LEN f)"
    and tg: "ev_tag env = drop (length f - TAG_LEN) f"
    using assms by (auto simp: envelope_parse_def Let_def split: if_splits)
  show "unat (ev_seq env) = frame_seq f"
    by (simp add: sq frame_seq_def)
  have bi: "be_bytes 2 (ev_session env) = [f ! 1, f ! 2]"
    using be_bytes_be_word[where 'a = 16, of "[f ! 1, f ! 2]"] by (simp add: i numeral_2_eq_2)
  have bs: "be_bytes 4 (ev_seq env) = [f ! 3, f ! 4, f ! 5, f ! 6]"
    using be_bytes_be_word[where 'a = 32, of "[f ! 3, f ! 4, f ! 5, f ! 6]"]
    by (simp only: sq) (simp add: eval_nat_numeral)
  have h: "frame_header (ev_session env) (ev_seq env) = take HEADER_LEN f"
  proof (rule nth_equalityI)
    show "length (frame_header (ev_session env) (ev_seq env)) = length (take HEADER_LEN f)"
      using len by simp
    fix n
    assume "n < length (frame_header (ev_session env) (ev_seq env))"
    then have "n \<in> {0, 1, 2, 3, 4, 5, 6}"
      by (auto simp: HEADER_LEN_def)
    then show "frame_header (ev_session env) (ev_seq env) ! n = take HEADER_LEN f ! n"
      using v by (auto simp: frame_header_def bi bs HEADER_LEN_def)
  qed
  have tk: "take (length f - TAG_LEN) f = take HEADER_LEN f @ ev_payload env"
    unfolding p using len by (metis add_le_imp_le_diff append_take_drop_id drop_take le_add_diff_inverse
      min.absorb1 take_add take_take)
  show "take (length f - TAG_LEN) f = frame_header (ev_session env) (ev_seq env) @ ev_payload env"
    using tk h by simp
  show "f = frame_header (ev_session env) (ev_seq env) @ ev_payload env @ ev_tag env"
    using append_take_drop_id[of "length f - TAG_LEN" f] unfolding tk h tg by simp
  show "length (ev_tag env) = TAG_LEN"
    using len by (simp add: tg)
qed

lemma open_with_frame:
  assumes "tags_full e (s_mac_recv s)" and "open_with e s f = (Inr p, s')"
  obtains sq where "f = frame_bytes e (s_mac_recv s) (s_id s) sq p"
    and "accept (s_window s) sq = (True, s_window s')"
proof -
  from assms(2) obtain env where env: "envelope_parse f = Inr env" "ev_session env = s_id s"
    and eq: "ct_eq (take TAG_LEN (hmac_with e (s_mac_recv s) (take (length f - TAG_LEN) f))) (ev_tag env)"
    and acc: "accept (s_window s) (ev_seq env) = (True, s_window s')" and p: "p = ev_payload env"
    by (rule open_with_Inr)
  have "take TAG_LEN (hmac_with e (s_mac_recv s) (take (length f - TAG_LEN) f)) = ev_tag env"
    using eq assms(1) by (simp add: ct_eq_iff tags_full_def)
  then have "f = frame_bytes e (s_mac_recv s) (s_id s) (ev_seq env) p"
    using envelope_parse_Inr(2,4)[OF env(1)] by (simp add: frame_bytes_def Let_def env(2) p)
  with acc show ?thesis
    using that by blast
qed

lemma open_with_own_frame:
  assumes "tags_full e (s_mac_recv s)" and "accept (s_window s) sq = (True, w)"
  shows "open_with e s (frame_bytes e (s_mac_recv s) (s_id s) sq p) =
    (Inr p, s\<lparr>s_window := w, s_counters := (s_counters s)\<lparr>c_received := c_received (s_counters s) + 1\<rparr>\<rparr>)"
proof -
  let ?m = "frame_header (s_id s) sq @ p"
  let ?tag = "take TAG_LEN (hmac_with e (s_mac_recv s) ?m)"
  have tag: "length ?tag = TAG_LEN"
    using assms(1) by (simp add: tags_full_def)
  have sig: "take (length (frame_bytes e (s_mac_recv s) (s_id s) sq p) - TAG_LEN)
      (frame_bytes e (s_mac_recv s) (s_id s) sq p) = ?m"
    using tag by (simp add: frame_bytes_def Let_def)
  show ?thesis
    using assms(2) tag
    by (simp add: open_with_def envelope_parse_frame[OF assms(1)] sig ct_eq_iff Let_def)
qed

text \<open>The receiving session is a replay guard over the frames it is given.\<close>

definition open_guard :: "sha_engine \<Rightarrow> 'did session \<Rightarrow> bytes \<Rightarrow> bool \<times> 'did session" where
  "open_guard e s f = (is_ok (fst (open_with e s f)), snd (open_with e s f))"

definition session_rel :: "'did session \<Rightarrow> nat set \<Rightarrow> bool" where
  "session_rel s S \<longleftrightarrow> window_rel (s_window s) S"

lemma open_guard_step:
  assumes "session_rel s S" and "open_guard e s f = (b, s')"
  shows "if b then frame_seq f \<notin> S \<and> session_rel s' (insert (frame_seq f) S) else session_rel s' S"
proof -
  obtain r where r: "open_with e s f = (r, s')" and b: "b = is_ok r"
    using assms(2) by (cases "open_with e s f") (auto simp: open_guard_def)
  show ?thesis
  proof (cases r)
    case (Inl er)
    with r b assms(1) show ?thesis
      using open_with_Inl(1)[of e s f er s'] by (simp add: session_rel_def)
  next
    case (Inr p)
    from r[unfolded Inr] obtain env where "envelope_parse f = Inr env"
      and "accept (s_window s) (ev_seq env) = (True, s_window s')"
      by (rule open_with_Inr)
    then show ?thesis
      using accept_rel[of "s_window s" S "ev_seq env" True "s_window s'"] assms(1) b Inr
      by (auto simp: session_rel_def window_accepts_def envelope_parse_Inr(1))
  qed
qed

interpretation receiver: replay_guard "open_guard e" frame_seq session_rel for e
  using open_guard_step by unfold_locales fastforce+

section \<open>Runs\<close>

text \<open>A session as the handshake leaves it: keys in place, nothing sent, an empty window.\<close>

definition session_new ::
  "(sha_state \<Rightarrow> bytes \<Rightarrow> sha_state) \<Rightarrow> u16 \<Rightarrow> 'did \<Rightarrow> bytes \<Rightarrow> bytes \<Rightarrow> micros \<Rightarrow> micros \<Rightarrow> 'did session" where
  "session_new c256 i peer k_send k_recv now lifetime =
     \<lparr>s_id = i, s_peer = peer, s_k_send = k_send, s_k_recv = k_recv,
      s_mac_send = keyed c256 k_send, s_mac_recv = keyed c256 k_recv,
      s_send_seq = 0, s_exhausted = False, s_window = rw_new,
      s_established = now, s_lifetime = lifetime, s_counters = counters_zero\<rparr>"

text \<open>The frames a sender emits for a list of payloads, and what a receiver makes of a list of
  frames.\<close>

fun sealed :: "sha_engine \<Rightarrow> 'did session \<Rightarrow> bytes list \<Rightarrow> bytes list" where
  "sealed e s [] = []"
| "sealed e s (p # ps) =
     (case seal_with e s p (replicate MAX_FRAME 0) of
        (Inl _, s', _) \<Rightarrow> sealed e s' ps
      | (Inr n, s', out) \<Rightarrow> take n out # sealed e s' ps)"

fun opened :: "sha_engine \<Rightarrow> 'did session \<Rightarrow> bytes list \<Rightarrow> (err + bytes) list" where
  "opened e s [] = []"
| "opened e s (f # fs) = (case open_with e s f of (r, s') \<Rightarrow> r # opened e s' fs)"

lemma sealed_step:
  assumes "tags_full e (s_mac_send s)" and "length p \<le> MAX_PAYLOAD" and "\<not> s_exhausted s"
  shows "sealed e s (p # ps) =
    frame_bytes e (s_mac_send s) (s_id s) (s_send_seq s) p # sealed e (after_seal s) ps"
proof -
  have "wire_len (length p) \<le> length (replicate MAX_FRAME (0::u8))"
    using assms(2) by (simp add: wire_len_def frame_consts)
  from seal_with_ok[OF assms(1,2) this assms(3)] show ?thesis
    by (simp add: length_frame_bytes[OF assms(1)])
qed

lemma sealed_skip:
  assumes "MAX_PAYLOAD < length p \<or> s_exhausted s"
  shows "sealed e s (p # ps) = sealed e s ps"
proof -
  have "seal_with e s p (replicate MAX_FRAME 0) = (Inl Unsupported, s, replicate MAX_FRAME 0) \<or>
      seal_with e s p (replicate MAX_FRAME 0) = (Inl Denied, s, replicate MAX_FRAME 0)"
    using assms by (auto simp: seal_with_def Let_def wire_len_def frame_consts)
  then show ?thesis by auto
qed

lemma after_seal_simps [simp]:
  "s_mac_send (after_seal s) = s_mac_send s" "s_id (after_seal s) = s_id s"
  "s_exhausted (after_seal s) = (s_exhausted s \<or> s_send_seq s = - 1)"
  by (simp_all add: after_seal_def Let_def)

lemma after_seal_seq: "s_send_seq s \<noteq> - 1 \<Longrightarrow> unat (s_send_seq (after_seal s)) = Suc (unat (s_send_seq s))"
  by (simp add: after_seal_def Let_def) (metis add.commute add_eq_0_iff unatSuc Suc_eq_plus1)

lemma sealed_exhausted: "s_exhausted s \<Longrightarrow> sealed e s ps = []"
  by (induction ps) (simp_all add: sealed_skip del: sealed.simps(2))

lemma sealed_seqs:
  assumes "tags_full e (s_mac_send s)" and "\<not> s_exhausted s"
  shows "map frame_seq (sealed e s ps) =
      [unat (s_send_seq s) ..< unat (s_send_seq s) + length (sealed e s ps)] \<and>
    unat (s_send_seq s) + length (sealed e s ps) \<le> 2 ^ 32"
  using assms
proof (induction ps arbitrary: s)
  case Nil
  then show ?case
    using unat_less[of "s_send_seq s"] by simp
next
  case (Cons p ps)
  let ?a = "unat (s_send_seq s)"
  show ?case
  proof (cases "length p \<le> MAX_PAYLOAD")
    case False
    with Cons show ?thesis by (simp add: sealed_skip del: sealed.simps(2))
  next
    case True
    note st = sealed_step[OF Cons.prems(1) True Cons.prems(2), of ps]
    show ?thesis
    proof (cases "s_send_seq s = - 1")
      case True
      then show ?thesis
        unfolding st by (simp add: sealed_exhausted frame_seq_frame unat_minus_1)
    next
      case False
      with Cons.prems Cons.IH[of "after_seal s"]
      have "map frame_seq (sealed e (after_seal s) ps)
            = [Suc ?a ..< Suc ?a + length (sealed e (after_seal s) ps)]"
        and "Suc ?a + length (sealed e (after_seal s) ps) \<le> 2 ^ 32"
        by (simp_all add: after_seal_seq del: upt_Suc)
      moreover have "[?a ..< ?a + Suc n] = ?a # [Suc ?a ..< Suc ?a + n]" for n
        by (simp add: upt_conv_Cons del: upt_Suc)
      ultimately show ?thesis
        unfolding st by (simp add: frame_seq_frame del: upt_Suc)
    qed
  qed
qed

text \<open>A receiver that has taken exactly the numbers below \<open>n\<close> takes the next one.\<close>

lemma accept_next:
  assumes "window_rel w {..<n}" and "unat sq = n"
  shows "\<exists>w'. accept w sq = (True, w') \<and> window_rel w' {..<Suc n}"
proof -
  have "window_accepts {..<n} (unat sq)"
  proof (cases n)
    case 0
    then show ?thesis using assms(2) by (simp add: window_accepts_def)
  next
    case (Suc k)
    have "Max {..<Suc k} = k"
      by (rule Max_eqI) auto
    then show ?thesis using assms(2) Suc by (simp add: window_accepts_def)
  qed
  then show ?thesis
    using accept_refines[OF assms(1), of sq] assms(2) by (simp add: lessThan_Suc)
qed

lemma opened_sealed:
  assumes "tags_full e (s_mac_send a)" and "\<not> s_exhausted a" and "\<forall>p\<in>set ps. length p \<le> MAX_PAYLOAD"
    and "s_mac_recv b = s_mac_send a" and "s_id b = s_id a"
    and "window_rel (s_window b) {..<unat (s_send_seq a)}"
    and "unat (s_send_seq a) + length ps \<le> 2 ^ 32"
  shows "opened e b (sealed e a ps) = map Inr ps"
  using assms
proof (induction ps arbitrary: a b)
  case Nil
  then show ?case by simp
next
  case (Cons p ps)
  have p: "length p \<le> MAX_PAYLOAD"
    using Cons.prems(3) by simp
  note st = sealed_step[OF Cons.prems(1) p Cons.prems(2), of ps]
  obtain w where w: "accept (s_window b) (s_send_seq a) = (True, w)"
      "window_rel w {..<Suc (unat (s_send_seq a))}"
    using accept_next[OF Cons.prems(6) refl] by blast
  define b' where "b' = b\<lparr>s_window := w,
    s_counters := (s_counters b)\<lparr>c_received := c_received (s_counters b) + 1\<rparr>\<rparr>"
  have op: "open_with e b (frame_bytes e (s_mac_send a) (s_id a) (s_send_seq a) p) = (Inr p, b')"
    using open_with_own_frame[of e b "s_send_seq a" w p] Cons.prems(1,4,5) w(1) by (simp add: b'_def)
  show ?case
  proof (cases "s_send_seq a = - 1")
    case True
    then have "ps = []"
      using Cons.prems(7) by (simp add: unat_minus_1)
    then show ?thesis
      unfolding st by (simp add: op)
  next
    case False
    have "opened e b' (sealed e (after_seal a) ps) = map Inr ps"
      using Cons.prems False w(2)
      by (intro Cons.IH) (simp_all add: b'_def after_seal_seq)
    then show ?thesis
      unfolding st by (simp add: op)
  qed
qed

section \<open>Properties\<close>

lemma seal_then_open:
  assumes "tags_full e (s_mac_send a)" and "s_mac_recv b = s_mac_send a" and "s_id b = s_id a"
    and "length payload \<le> MAX_PAYLOAD" and "wire_len (length payload) \<le> length out"
    and "\<not> s_exhausted a" and "would_accept (s_window b) (s_send_seq a)"
  shows "\<exists>a' out' b'. seal_with e a payload out = (Inr (wire_len (length payload)), a', out') \<and>
    open_with e b (take (wire_len (length payload)) out') = (Inr payload, b') \<and>
    c_received (s_counters b') = c_received (s_counters b) + 1"
proof -
  obtain w where "accept (s_window b) (s_send_seq a) = (True, w)"
    using assms(7) by (cases "accept (s_window b) (s_send_seq a)") (auto simp: would_accept_eq)
  with assms open_with_own_frame[of e b "s_send_seq a" w payload] seal_with_ok[of e a payload out]
  show ?thesis
    by (simp add: length_frame_bytes)
qed

text \<open>C1: what a session delivers is authentic and fresh: if \<open>open\<close> returns a payload, the frame is
  bit for bit the frame the holder of the receive key builds for this session and that payload,
  and its sequence number passed the replay window.\<close>

theorem open_only_authentic:
  assumes "tags_full e (s_mac_recv s)" and "open_with e s f = (Inr p, s')"
  shows "\<exists>sq. f = frame_bytes e (s_mac_recv s) (s_id s) sq p \<and> would_accept (s_window s) sq"
  using assms open_with_frame[OF assms] by (metis fst_conv would_accept_eq)

theorem open_only_authentic_witness:
  "\<exists>sq. frame_bytes (soft_sha (\<lambda>st b. st)) (keyed (\<lambda>st b. st) (replicate 32 2)) 7 5 [9]
      = frame_bytes (soft_sha (\<lambda>st b. st)) (keyed (\<lambda>st b. st) (replicate 32 2)) 7 sq [9] \<and>
    would_accept rw_new sq"
proof -
  let ?e = "soft_sha (\<lambda>st b. st)"
  let ?s = "session_new (\<lambda>st b. st) 7 () (replicate 32 1) (replicate 32 2) 0 0"
  have tf: "tags_full ?e (s_mac_recv ?s)"
    by (simp add: session_new_def tags_full_keyed[OF soft_engine_agrees] c256_ok_def)
  have acc: "accept (s_window ?s) 5 = (True, \<lparr>rw_highest = 5, rw_bitmap = 1, rw_primed = True\<rparr>)"
    by (simp add: session_new_def accept_def rw_new_def)
  from open_only_authentic[OF tf open_with_own_frame[OF tf acc, of "[9]"]]
  show ?thesis by (simp add: session_new_def)
qed

lemma refused_frame_keeps_window:
  assumes "open_with e s f = (Inl er, s')"
  shows "s_window s' = s_window s \<and> c_received (s_counters s') = c_received (s_counters s)"
  using open_with_Inl[OF assms] by simp

text \<open>C2: over any sequence of frames, reordered, repeated or forged, a session delivers no sequence
  number twice.\<close>

theorem session_never_delivers_twice:
  "distinct (map frame_seq (accepted_by (open_guard e) (session_new c256 i peer ks kr now life) fs))"
proof (rule receiver.accepted_distinct)
  show "session_rel (session_new c256 i peer ks kr now life) {}"
    by (simp add: session_rel_def session_new_def)
qed

lemma sequence_numbers_never_reused:
  assumes "tags_full e (keyed c256 ks)"
  shows "map frame_seq (sealed e (session_new c256 i peer ks kr now life) ps) =
      [0 ..< length (sealed e (session_new c256 i peer ks kr now life) ps)] \<and>
    length (sealed e (session_new c256 i peer ks kr now life) ps) \<le> 2 ^ 32"
  using sealed_seqs[of e "session_new c256 i peer ks kr now life" ps] assms
  by (simp add: session_new_def)

text \<open>C37: a whole conversation in one direction: everything a fresh sender seals, delivered in
  order to the fresh peer, comes out as exactly the payloads that went in.\<close>

theorem conversation_delivered:
  assumes "tags_full e (keyed c256 k)" and "\<forall>p\<in>set ps. length p \<le> MAX_PAYLOAD" and "length ps \<le> 2 ^ 32"
  shows "opened e (session_new c256 i pa k' k t life)
      (sealed e (session_new c256 i pb k k' t' life') ps) = map Inr ps"
  by (rule opened_sealed) (use assms in \<open>simp_all add: session_new_def lessThan_0\<close>)

theorem conversation_delivered_witness:
  "opened (soft_sha (\<lambda>st b. st)) (session_new (\<lambda>st b. st) 7 () (replicate 32 2) (replicate 32 1) 0 0)
      (sealed (soft_sha (\<lambda>st b. st)) (session_new (\<lambda>st b. st) 7 () (replicate 32 1) (replicate 32 2) 5 9)
        [[1], [], replicate 227 3]) = map Inr [[1], [], replicate 227 3]"
  by (rule conversation_delivered)
    (simp_all add: tags_full_keyed[OF soft_engine_agrees] c256_ok_def frame_consts)

end
