(* ===== verification/Handshake.thy ===== *)
theory Handshake
  imports Session
begin

text \<open>
  The three-message handshake that establishes a session (\<open>Handshake\<close>, \<open>Pending\<close> and the key
  schedule in \<open>crates/rusty_esp_signal-core/src/link.rs\<close>). The elliptic-curve, HKDF, HMAC and random
  number primitives come from other crates: they are the fields of a parameter record, and what the
  handshake relies on is stated by \<open>link_crypto_ok\<close>.
\<close>

definition NONCE_LEN :: nat where "NONCE_LEN = 16"
definition PUBKEY_LEN :: nat where "PUBKEY_LEN = 33"
definition HELLO_LEN :: nat where "HELLO_LEN = 2 + PUBKEY_LEN + PUBKEY_LEN + NONCE_LEN"
definition ACCEPT_LEN :: nat where "ACCEPT_LEN = HELLO_LEN + TAG_LEN"
definition CONFIRM_LEN :: nat where "CONFIRM_LEN = 2 + TAG_LEN"
definition KIND_HELLO :: u8 where "KIND_HELLO = 1"
definition KIND_ACCEPT :: u8 where "KIND_ACCEPT = 2"
definition KIND_CONFIRM :: u8 where "KIND_CONFIRM = 3"
definition KEY_LEN :: nat where "KEY_LEN = 32"
definition OKM_LEN :: nat where "OKM_LEN = 3 * KEY_LEN + 2"

text \<open>\<open>b"janus-link-v1"\<close>, \<open>b"accept"\<close> and \<open>b"confirm"\<close>.\<close>

definition INFO :: bytes where
  "INFO = [106, 97, 110, 117, 115, 45, 108, 105, 110, 107, 45, 118, 49]"
definition LABEL_ACCEPT :: bytes where "LABEL_ACCEPT = [97, 99, 99, 101, 112, 116]"
definition LABEL_CONFIRM :: bytes where "LABEL_CONFIRM = [99, 111, 110, 102, 105, 114, 109]"

lemmas handshake_consts = NONCE_LEN_def PUBKEY_LEN_def HELLO_LEN_def ACCEPT_LEN_def CONFIRM_LEN_def
  KEY_LEN_def OKM_LEN_def TAG_LEN_def

section \<open>The primitives\<close>

text \<open>\<open>DeviceKey::did\<close>, \<open>Did::pubkey\<close>, \<open>Did::from_pubkey\<close> and \<open>DeviceKey::shared_secret\<close> of the identity
  crate; \<open>SecretKey::from_slice\<close>, the compressed public point, \<open>PublicKey::from_sec1_bytes\<close> and
  \<open>diffie_hellman\<close> of \<open>p256\<close>; HKDF, HMAC and its truncated verification; \<open>Rng::fill\<close>.\<close>

record ('dev, 'did, 'sk, 'pk, 'rng) link_crypto =
  lc_did :: "'dev \<Rightarrow> 'did"
  lc_pubkey :: "'did \<Rightarrow> bytes"
  lc_from_pubkey :: "bytes \<Rightarrow> err + 'did"
  lc_shared :: "'dev \<Rightarrow> 'did \<Rightarrow> err + bytes"
  lc_from_slice :: "bytes \<Rightarrow> 'sk option"
  lc_compressed :: "'sk \<Rightarrow> bytes"
  lc_from_sec1 :: "bytes \<Rightarrow> 'pk option"
  lc_ecdh :: "'sk \<Rightarrow> 'pk \<Rightarrow> bytes"
  lc_hkdf :: "bytes \<Rightarrow> bytes \<Rightarrow> bytes \<Rightarrow> nat \<Rightarrow> bytes option"
  lc_hmac :: "bytes \<Rightarrow> bytes \<Rightarrow> bytes"
  lc_verify_left :: "bytes \<Rightarrow> bytes \<Rightarrow> bytes \<Rightarrow> bool"
  lc_fill :: "'rng \<Rightarrow> nat \<Rightarrow> (err + bytes) \<times> 'rng"

section \<open>Key schedule\<close>

record keys =
  ky_i2r :: bytes
  ky_r2i :: bytes
  ky_confirm :: bytes
  ky_id :: u16

definition expand_keys ::
  "('dev, 'did, 'sk, 'pk, 'rng) link_crypto \<Rightarrow> bytes \<Rightarrow> bytes \<Rightarrow> bytes \<Rightarrow> err + keys" where
  "expand_keys C ikm nonce_i nonce_r =
     rbind (ok_or (lc_hkdf C (nonce_i @ nonce_r) ikm INFO OKM_LEN) Crypto) (\<lambda>okm.
       Inr \<lparr>ky_i2r = take KEY_LEN okm,
            ky_r2i = take KEY_LEN (drop KEY_LEN okm),
            ky_confirm = take KEY_LEN (drop (2 * KEY_LEN) okm),
            ky_id = be_word [okm ! (3 * KEY_LEN), okm ! (3 * KEY_LEN + 1)]\<rparr>)"

definition derive ::
  "('dev, 'did, 'sk, 'pk, 'rng) link_crypto \<Rightarrow> 'dev \<Rightarrow> 'did \<Rightarrow> 'sk \<Rightarrow> 'pk \<Rightarrow> bytes \<Rightarrow> bytes \<Rightarrow> err + keys" where
  "derive C me their_did my_eph their_eph nonce_i nonce_r =
     rbind (lc_shared C me their_did) (\<lambda>s.
       expand_keys C (s @ lc_ecdh C my_eph their_eph) nonce_i nonce_r)"

definition mac :: "('dev, 'did, 'sk, 'pk, 'rng) link_crypto \<Rightarrow> bytes \<Rightarrow> bytes list \<Rightarrow> bytes" where
  "mac C key parts = take TAG_LEN (lc_hmac C key (concat parts))"

definition verify :: "('dev, 'did, 'sk, 'pk, 'rng) link_crypto \<Rightarrow> bytes \<Rightarrow> bytes list \<Rightarrow> bytes \<Rightarrow> bool" where
  "verify C key parts tag = lc_verify_left C key (concat parts) tag"

text \<open>\<open>for _ in 0..8\<close> of \<open>ephemeral\<close>: at most so many draws.\<close>

fun ephemeral_tries ::
  "('dev, 'did, 'sk, 'pk, 'rng) link_crypto \<Rightarrow> nat \<Rightarrow> 'rng \<Rightarrow> (err + 'sk) \<times> 'rng" where
  "ephemeral_tries C 0 rng = (Inl Crypto, rng)"
| "ephemeral_tries C (Suc n) rng =
     (case lc_fill C rng 32 of
        (Inl e, rng') \<Rightarrow> (Inl e, rng')
      | (Inr bs, rng') \<Rightarrow> (case lc_from_slice C bs of
          Some key \<Rightarrow> (Inr key, rng') | None \<Rightarrow> ephemeral_tries C n rng'))"

definition ephemeral :: "('dev, 'did, 'sk, 'pk, 'rng) link_crypto \<Rightarrow> 'rng \<Rightarrow> (err + 'sk) \<times> 'rng" where
  "ephemeral C rng = ephemeral_tries C 8 rng"

section \<open>The messages\<close>

record 'sk handshake =
  hs_eph :: 'sk
  hs_hello :: bytes

record 'did pending_session =
  pd_session :: "'did session"
  pd_k_confirm :: bytes
  pd_transcript :: bytes

definition initiate ::
  "('dev, 'did, 'sk, 'pk, 'rng) link_crypto \<Rightarrow> 'dev \<Rightarrow> 'rng \<Rightarrow> (err + ('sk handshake \<times> bytes)) \<times> 'rng" where
  "initiate C me rng =
     (case ephemeral C rng of
        (Inl e, rng1) \<Rightarrow> (Inl e, rng1)
      | (Inr eph, rng1) \<Rightarrow> (case lc_fill C rng1 NONCE_LEN of
          (Inl e, rng2) \<Rightarrow> (Inl e, rng2)
        | (Inr nonce, rng2) \<Rightarrow>
            let hello = [VERSION, KIND_HELLO] @ lc_pubkey C (lc_did C me) @ lc_compressed C eph @ nonce
            in (Inr (\<lparr>hs_eph = eph, hs_hello = hello\<rparr>, hello), rng2)))"

text \<open>The fields of a \<open>Hello\<close> and of the head of an \<open>Accept\<close>.\<close>

definition msg_pubkey :: "bytes \<Rightarrow> bytes" where
  "msg_pubkey m = take PUBKEY_LEN (drop 2 m)"
definition msg_eph :: "bytes \<Rightarrow> bytes" where
  "msg_eph m = take PUBKEY_LEN (drop (2 + PUBKEY_LEN) m)"
definition msg_nonce :: "bytes \<Rightarrow> bytes" where
  "msg_nonce m = take NONCE_LEN (drop (2 + 2 * PUBKEY_LEN) m)"

definition respond ::
  "(sha_state \<Rightarrow> bytes \<Rightarrow> sha_state) \<Rightarrow> ('dev, 'did, 'sk, 'pk, 'rng) link_crypto \<Rightarrow> 'dev \<Rightarrow> 'rng \<Rightarrow> bytes \<Rightarrow>
   ('did \<Rightarrow> bool) \<Rightarrow> micros \<Rightarrow> micros \<Rightarrow> (err + ('did pending_session \<times> bytes)) \<times> 'rng" where
  "respond c256 C me rng hello allow now lifetime =
     (if length hello \<noteq> HELLO_LEN then (Inl InvalidFormat, rng)
      else if hello ! 0 \<noteq> VERSION \<or> hello ! 1 \<noteq> KIND_HELLO then (Inl InvalidFormat, rng)
      else case lc_from_pubkey C (msg_pubkey hello) of
        Inl e \<Rightarrow> (Inl e, rng)
      | Inr their_did \<Rightarrow>
        if \<not> allow their_did then (Inl Denied, rng)
        else case lc_from_sec1 C (msg_eph hello) of
          None \<Rightarrow> (Inl Crypto, rng)
        | Some their_eph \<Rightarrow>
          (case ephemeral C rng of
             (Inl e, rng1) \<Rightarrow> (Inl e, rng1)
           | (Inr eph, rng1) \<Rightarrow> (case lc_fill C rng1 NONCE_LEN of
               (Inl e, rng2) \<Rightarrow> (Inl e, rng2)
             | (Inr nonce, rng2) \<Rightarrow>
                 let head = [VERSION, KIND_ACCEPT] @ lc_pubkey C (lc_did C me) @ lc_compressed C eph @ nonce in
                 (case derive C me their_did eph their_eph (msg_nonce hello) (msg_nonce head) of
                    Inl e \<Rightarrow> (Inl e, rng2)
                  | Inr ks \<Rightarrow>
                      let transcript = hello @ head;
                          tag = mac C (ky_confirm ks) [LABEL_ACCEPT, transcript];
                          sess = session_new c256 (ky_id ks) their_did (ky_r2i ks) (ky_i2r ks) now lifetime
                      in (Inr (\<lparr>pd_session = sess, pd_k_confirm = ky_confirm ks, pd_transcript = transcript\<rparr>,
                               head @ tag), rng2)))))"

definition finish ::
  "(sha_state \<Rightarrow> bytes \<Rightarrow> sha_state) \<Rightarrow> ('dev, 'did, 'sk, 'pk, 'rng) link_crypto \<Rightarrow> 'sk handshake \<Rightarrow> 'dev \<Rightarrow>
   bytes \<Rightarrow> ('did \<Rightarrow> bool) \<Rightarrow> micros \<Rightarrow> micros \<Rightarrow> err + ('did session \<times> bytes)" where
  "finish c256 C hs me accept_msg allow now lifetime =
     (if length accept_msg \<noteq> ACCEPT_LEN then Inl InvalidFormat
      else if accept_msg ! 0 \<noteq> VERSION \<or> accept_msg ! 1 \<noteq> KIND_ACCEPT then Inl InvalidFormat
      else rbind (lc_from_pubkey C (msg_pubkey accept_msg)) (\<lambda>their_did.
        if \<not> allow their_did then Inl Denied
        else rbind (ok_or (lc_from_sec1 C (msg_eph accept_msg)) Crypto) (\<lambda>their_eph.
        rbind (derive C me their_did (hs_eph hs) their_eph (msg_nonce (hs_hello hs)) (msg_nonce accept_msg)) (\<lambda>ks.
          let transcript = hs_hello hs @ take HELLO_LEN accept_msg;
              expected = drop HELLO_LEN accept_msg
          in if \<not> verify C (ky_confirm ks) [LABEL_ACCEPT, transcript] expected then Inl Crypto
             else
               let confirm = [VERSION, KIND_CONFIRM] @ mac C (ky_confirm ks) [LABEL_CONFIRM, transcript];
                   sess = session_new c256 (ky_id ks) their_did (ky_i2r ks) (ky_r2i ks) now lifetime
               in Inr (sess, confirm)))))"

definition confirm_session ::
  "('dev, 'did, 'sk, 'pk, 'rng) link_crypto \<Rightarrow> 'did pending_session \<Rightarrow> bytes \<Rightarrow> err + 'did session" where
  "confirm_session C pd cf =
     (if length cf \<noteq> CONFIRM_LEN then Inl InvalidFormat
      else if cf ! 0 \<noteq> VERSION \<or> cf ! 1 \<noteq> KIND_CONFIRM then Inl InvalidFormat
      else if \<not> verify C (pd_k_confirm pd) [LABEL_CONFIRM, pd_transcript pd] (drop 2 cf) then Inl Crypto
      else Inr (pd_session pd))"

section \<open>What the primitives promise\<close>

definition link_crypto_ok :: "('dev, 'did, 'sk, 'pk, 'rng) link_crypto \<Rightarrow> bool" where
  "link_crypto_ok C \<longleftrightarrow>
     (\<forall>d. length (lc_pubkey C (lc_did C d)) = PUBKEY_LEN \<and>
       lc_from_pubkey C (lc_pubkey C (lc_did C d)) = Inr (lc_did C d)) \<and>
     (\<forall>a b. lc_shared C a (lc_did C b) = lc_shared C b (lc_did C a) \<and> is_ok (lc_shared C a (lc_did C b))) \<and>
     (\<forall>x. length (lc_compressed C x) = PUBKEY_LEN) \<and>
     (\<forall>x y. \<exists>px py. lc_from_sec1 C (lc_compressed C x) = Some px \<and> lc_from_sec1 C (lc_compressed C y) = Some py \<and>
       lc_ecdh C x py = lc_ecdh C y px) \<and>
     (\<forall>salt ikm info. \<exists>okm. lc_hkdf C salt ikm info OKM_LEN = Some okm \<and> length okm = OKM_LEN) \<and>
     (\<forall>k m. length (lc_hmac C k m) = 32) \<and>
     (\<forall>k m t. length t = TAG_LEN \<longrightarrow> lc_verify_left C k m t = (t = take TAG_LEN (lc_hmac C k m))) \<and>
     (\<forall>r n bs r'. lc_fill C r n = (Inr bs, r') \<longrightarrow> length bs = n)"

lemma msg_fields:
  assumes "length pk = PUBKEY_LEN" "length ep = PUBKEY_LEN" "length nonce = NONCE_LEN"
  shows "msg_pubkey ([v, k] @ pk @ ep @ nonce @ rest) = pk" "msg_eph ([v, k] @ pk @ ep @ nonce @ rest) = ep"
    "msg_nonce ([v, k] @ pk @ ep @ nonce @ rest) = nonce" "length ([v, k] @ pk @ ep @ nonce) = HELLO_LEN"
  using assms by (simp_all add: msg_pubkey_def msg_eph_def msg_nonce_def handshake_consts)

lemma msg_fields':
  assumes "length pk = PUBKEY_LEN" "length ep = PUBKEY_LEN" "length nonce = NONCE_LEN"
  shows "msg_pubkey ([v, k] @ pk @ ep @ nonce) = pk" "msg_eph ([v, k] @ pk @ ep @ nonce) = ep"
    "msg_nonce ([v, k] @ pk @ ep @ nonce) = nonce" "length ([v, k] @ pk @ ep @ nonce) = HELLO_LEN"
  using assms by (simp_all add: msg_pubkey_def msg_eph_def msg_nonce_def handshake_consts)

lemma link_crypto_okD:
  assumes "link_crypto_ok C"
  shows "length (lc_pubkey C (lc_did C d)) = PUBKEY_LEN" and "length (lc_compressed C x) = PUBKEY_LEN"
    and "lc_from_pubkey C (lc_pubkey C (lc_did C d)) = Inr (lc_did C d)"
    and "length (lc_hmac C k m) = 32"
    and "lc_verify_left C k m (take TAG_LEN (lc_hmac C k m))"
    and "length t = TAG_LEN \<Longrightarrow> lc_verify_left C k m t \<longleftrightarrow> t = take TAG_LEN (lc_hmac C k m)"
    and "lc_fill C r n = (Inr bs, r') \<Longrightarrow> length bs = n"
proof -
  note c = assms[unfolded link_crypto_ok_def]
  show "length (lc_pubkey C (lc_did C d)) = PUBKEY_LEN" "length (lc_compressed C x) = PUBKEY_LEN"
    "lc_from_pubkey C (lc_pubkey C (lc_did C d)) = Inr (lc_did C d)"
    and h: "length (lc_hmac C k m) = 32"
    and v: "length t = TAG_LEN \<Longrightarrow> lc_verify_left C k m t \<longleftrightarrow> t = take TAG_LEN (lc_hmac C k m)" for t
    using c by blast+
  show "lc_verify_left C k m (take TAG_LEN (lc_hmac C k m))"
    by (subst v) (simp_all add: h TAG_LEN_def)
  show "lc_fill C r n = (Inr bs, r') \<Longrightarrow> length bs = n"
    using c by blast
qed

lemma initiate_Inr:
  assumes "initiate C me rng = (Inr (hs, hello), rng')"
  obtains eph rng1 nonce where "ephemeral C rng = (Inr eph, rng1)" "lc_fill C rng1 NONCE_LEN = (Inr nonce, rng')"
    "hs = \<lparr>hs_eph = eph, hs_hello = hello\<rparr>"
    "hello = [VERSION, KIND_HELLO] @ lc_pubkey C (lc_did C me) @ lc_compressed C eph @ nonce"
proof -
  obtain x r1 where x: "ephemeral C rng = (x, r1)"
    by (cases "ephemeral C rng")
  obtain y r2 where y: "lc_fill C r1 NONCE_LEN = (y, r2)"
    by (cases "lc_fill C r1 NONCE_LEN")
  show ?thesis
    using assms x y that by (cases x; cases y) (simp_all add: initiate_def Let_def)
qed

lemma derive_agrees:
  assumes "link_crypto_ok C" and "lc_from_sec1 C (lc_compressed C x) = Some px"
    and "lc_from_sec1 C (lc_compressed C y) = Some py"
  shows "\<exists>ks. derive C a (lc_did C b) x py ni nr = Inr ks \<and> derive C b (lc_did C a) y px ni nr = Inr ks \<and>
    length (ky_i2r ks) = KEY_LEN \<and> length (ky_r2i ks) = KEY_LEN"
proof -
  have sh: "lc_shared C a (lc_did C b) = lc_shared C b (lc_did C a)" "is_ok (lc_shared C a (lc_did C b))"
    using assms(1) by (auto simp: link_crypto_ok_def)
  then obtain s where s: "lc_shared C a (lc_did C b) = Inr s"
    by (auto simp: is_ok_iff)
  have "\<exists>px' py'. lc_from_sec1 C (lc_compressed C x) = Some px' \<and> lc_from_sec1 C (lc_compressed C y) = Some py' \<and>
      lc_ecdh C x py' = lc_ecdh C y px'"
    using assms(1) unfolding link_crypto_ok_def by meson
  then have dh: "lc_ecdh C x py = lc_ecdh C y px"
    using assms(2,3) by auto
  obtain okm where okm: "lc_hkdf C (ni @ nr) (s @ lc_ecdh C y px) INFO OKM_LEN = Some okm" "length okm = OKM_LEN"
    using assms(1) unfolding link_crypto_ok_def by meson
  show ?thesis
    using okm s sh(1) by (simp add: derive_def expand_keys_def dh handshake_consts)
qed

text \<open>Two sessions that face each other.\<close>

definition mirrored :: "'did session \<Rightarrow> 'did session \<Rightarrow> bool" where
  "mirrored a b \<longleftrightarrow> s_id a = s_id b \<and> s_k_send a = s_k_recv b \<and> s_k_recv a = s_k_send b \<and>
     s_mac_send a = s_mac_recv b \<and> s_mac_recv a = s_mac_send b"

lemma handshake_run:
  assumes ok: "link_crypto_ok C"
    and ini: "initiate C a ra = (Inr (hs, hello), ra')"
    and eph: "ephemeral C rb = (Inr eb, rb1)" and fill: "lc_fill C rb1 NONCE_LEN = (Inr nb, rb2)"
    and al: "allow_b (lc_did C a)" "allow_a (lc_did C b)"
  shows "\<exists>pd acc cf i k1 k2.
    respond c256 C b rb hello allow_b nowb lifeb = (Inr (pd, acc), rb2) \<and>
    finish c256 C hs a acc allow_a nowa lifea = Inr (session_new c256 i (lc_did C b) k1 k2 nowa lifea, cf) \<and>
    confirm_session C pd cf = Inr (session_new c256 i (lc_did C a) k2 k1 nowb lifeb) \<and>
    length k1 = KEY_LEN \<and> length k2 = KEY_LEN"
proof -
  obtain ea ra1 na where ea: "ephemeral C ra = (Inr ea, ra1)" "lc_fill C ra1 NONCE_LEN = (Inr na, ra')"
      and hs: "hs = \<lparr>hs_eph = ea, hs_hello = hello\<rparr>"
      and hello: "hello = [VERSION, KIND_HELLO] @ lc_pubkey C (lc_did C a) @ lc_compressed C ea @ na"
    using initiate_Inr[OF ini] by metis
  define head where "head = [VERSION, KIND_ACCEPT] @ lc_pubkey C (lc_did C b) @ lc_compressed C eb @ nb"
  note okD = link_crypto_okD[OF ok]
  note len = okD(1,2)
  have nl: "length na = NONCE_LEN" "length nb = NONCE_LEN"
    using okD(7) ea(2) fill by blast+
  note hf = msg_fields'[OF len(1) len(2) nl(1), of VERSION KIND_HELLO a ea, folded hello]
  note af = msg_fields[OF len(1) len(2) nl(2), of VERSION KIND_ACCEPT b eb]
  note did = okD(3)
  have "\<exists>px py. lc_from_sec1 C (lc_compressed C ea) = Some px \<and> lc_from_sec1 C (lc_compressed C eb) = Some py"
    using ok unfolding link_crypto_ok_def by meson
  then obtain px py where p: "lc_from_sec1 C (lc_compressed C ea) = Some px" "lc_from_sec1 C (lc_compressed C eb) = Some py"
    by blast
  obtain ks where ks: "derive C a (lc_did C b) ea py na nb = Inr ks" "derive C b (lc_did C a) eb px na nb = Inr ks"
      "length (ky_i2r ks) = KEY_LEN" "length (ky_r2i ks) = KEY_LEN"
    using derive_agrees[OF ok p] by blast
  note hm = okD(4) and vf = okD(5)
  define tag where "tag = mac C (ky_confirm ks) [LABEL_ACCEPT, hello @ head]"
  have tag: "length tag = TAG_LEN"
    by (simp add: tag_def mac_def hm TAG_LEN_def)
  define pd where "pd = \<lparr>pd_session = session_new c256 (ky_id ks) (lc_did C a) (ky_r2i ks) (ky_i2r ks) nowb lifeb,
    pd_k_confirm = ky_confirm ks, pd_transcript = hello @ head\<rparr>"
  have h01: "hello ! 0 = VERSION" "hello ! 1 = KIND_HELLO"
    by (simp_all add: hello)
  have hl: "length head = HELLO_LEN"
    unfolding head_def using af(4) by simp
  have r: "respond c256 C b rb hello allow_b nowb lifeb = (Inr (pd, head @ tag), rb2)"
  proof -
    have "msg_nonce head = nb"
      unfolding head_def using msg_fields'(3)[OF len(1) len(2) nl(2), of VERSION KIND_ACCEPT b eb] by simp
    then show ?thesis
      using h01 hf al(1) eph fill ks(2) did p(1)
      by (simp add: respond_def Let_def head_def[symmetric, simplified] pd_def tag_def)
  qed
  define cf where "cf = [VERSION, KIND_CONFIRM] @ mac C (ky_confirm ks) [LABEL_CONFIRM, hello @ head]"
  have acc: "head @ tag = [VERSION, KIND_ACCEPT] @ lc_pubkey C (lc_did C b) @ lc_compressed C eb @ nb @ tag"
    by (simp add: head_def)
  have f: "finish c256 C hs a (head @ tag) allow_a nowa lifea =
      Inr (session_new c256 (ky_id ks) (lc_did C b) (ky_i2r ks) (ky_r2i ks) nowa lifea, cf)"
  proof -
    have fields: "msg_pubkey (head @ tag) = lc_pubkey C (lc_did C b)" "msg_eph (head @ tag) = lc_compressed C eb"
      "msg_nonce (head @ tag) = nb"
      unfolding acc by (rule af)+
    have a01: "(head @ tag) ! 0 = VERSION" "(head @ tag) ! 1 = KIND_ACCEPT"
      by (simp_all add: head_def)
    have v: "verify C (ky_confirm ks) [LABEL_ACCEPT, hello @ head] tag"
      by (simp add: verify_def tag_def mac_def vf)
    show ?thesis
      unfolding finish_def fields a01 did p rbind_simps ok_or_simps Let_def
      using al(2) hf(3) ks(1) v tag hl by (simp add: hs ACCEPT_LEN_def cf_def)
  qed
  have c: "confirm_session C pd cf = Inr (pd_session pd)"
    by (simp add: confirm_session_def cf_def pd_def verify_def mac_def vf hm CONFIRM_LEN_def TAG_LEN_def
      vf[unfolded TAG_LEN_def])
  show ?thesis
    using r f c ks(3,4) unfolding pd_def by (metis pending_session.select_convs(1))
qed

text \<open>A concrete instance of the primitives, small enough to evaluate: it shows that the promises can
  hold together.\<close>

definition toy_crypto :: "(u8, bytes, u8, u8, u8) link_crypto" where
  "toy_crypto = \<lparr>lc_did = (\<lambda>d. replicate 33 d), lc_pubkey = (\<lambda>d. d), lc_from_pubkey = (\<lambda>bs. Inr bs),
     lc_shared = (\<lambda>a d. Inr (replicate 32 (a * hd d))), lc_from_slice = (\<lambda>bs. Some (hd bs)),
     lc_compressed = (\<lambda>x. replicate 33 x), lc_from_sec1 = (\<lambda>bs. Some (hd bs)),
     lc_ecdh = (\<lambda>x p. replicate 32 (x * p)),
     lc_hkdf = (\<lambda>salt ikm info n. Some (replicate n (foldl (+) 0 (salt @ ikm @ info)))),
     lc_hmac = (\<lambda>k m. replicate 32 (foldl (+) 0 (k @ m))),
     lc_verify_left = (\<lambda>k m t. t = take (length t) (replicate 32 (foldl (+) 0 (k @ m)))),
     lc_fill = (\<lambda>r n. (Inr (replicate n r), r + 1))\<rparr>"

lemma toy_crypto_ok: "link_crypto_ok toy_crypto"
  by (auto simp: link_crypto_ok_def toy_crypto_def PUBKEY_LEN_def OKM_LEN_def KEY_LEN_def TAG_LEN_def mult.commute)

section \<open>Properties\<close>

text \<open>C3: the handshake agrees: when both policies admit the other side and the responder's random
  source delivers, the three messages are all accepted, each side ends with the other's identity,
  the two sessions have the same id and swapped direction keys, and from then on whatever either
  side seals, the other opens.\<close>

theorem handshake_agreement:
  assumes "link_crypto_ok C" and "c256_ok c256" and "engine_agrees c256 e"
    and "initiate C a ra = (Inr (hs, hello), ra')"
    and "ephemeral C rb = (Inr eb, rb1)" and "lc_fill C rb1 NONCE_LEN = (Inr nb, rb2)"
    and "allow_b (lc_did C a)" and "allow_a (lc_did C b)"
    and "length ps \<le> 2 ^ 32" and "\<forall>p\<in>set ps. length p \<le> MAX_PAYLOAD"
  shows "\<exists>pd acc sa cf sb.
    respond c256 C b rb hello allow_b nowb lifeb = (Inr (pd, acc), rb2) \<and>
    finish c256 C hs a acc allow_a nowa lifea = Inr (sa, cf) \<and>
    confirm_session C pd cf = Inr sb \<and>
    mirrored sa sb \<and> s_peer sa = lc_did C b \<and> s_peer sb = lc_did C a \<and>
    opened e sb (sealed e sa ps) = map Inr ps \<and> opened e sa (sealed e sb ps) = map Inr ps"
proof -
  obtain pd acc cf i k1 k2 where run:
      "respond c256 C b rb hello allow_b nowb lifeb = (Inr (pd, acc), rb2)"
      "finish c256 C hs a acc allow_a nowa lifea = Inr (session_new c256 i (lc_did C b) k1 k2 nowa lifea, cf)"
      "confirm_session C pd cf = Inr (session_new c256 i (lc_did C a) k2 k1 nowb lifeb)"
      "length k1 = KEY_LEN" "length k2 = KEY_LEN"
    using handshake_run[where allow_a = allow_a and allow_b = allow_b and ?c256.0 = c256 and nowa = nowa
        and lifea = lifea and nowb = nowb and lifeb = lifeb, OF assms(1,4-8)] by metis
  have tf: "tags_full e (keyed c256 k1)" "tags_full e (keyed c256 k2)"
    using run(4,5) assms(2,3) by (auto intro!: tags_full_keyed simp: KEY_LEN_def)
  have deliver: "opened e (session_new c256 i p k' k t l) (sealed e (session_new c256 i q k k' t' l') ps) = map Inr ps"
    if "tags_full e (keyed c256 k)" for p q k k' t l t' l'
    by (rule opened_sealed) (use assms(9,10) that in \<open>simp_all add: session_new_def lessThan_0\<close>)
  let ?sa = "session_new c256 i (lc_did C b) k1 k2 nowa lifea"
  let ?sb = "session_new c256 i (lc_did C a) k2 k1 nowb lifeb"
  have "mirrored ?sa ?sb \<and> s_peer ?sa = lc_did C b \<and> s_peer ?sb = lc_did C a"
    by (simp add: mirrored_def session_new_def)
  moreover have "opened e ?sb (sealed e ?sa ps) = map Inr ps" "opened e ?sa (sealed e ?sb ps) = map Inr ps"
    by (rule deliver, rule tf)+
  ultimately show ?thesis
    using run(1-3) by blast
qed

theorem handshake_agreement_witness:
  "\<exists>pd acc sa cf sb.
    respond (\<lambda>st b. st) toy_crypto 5 9 (snd (projr (fst (initiate toy_crypto 3 1)))) (\<lambda>d. True) 0 0 = (Inr (pd, acc), 11) \<and>
    finish (\<lambda>st b. st) toy_crypto (fst (projr (fst (initiate toy_crypto 3 1)))) 3 acc (\<lambda>d. True) 0 0 = Inr (sa, cf) \<and>
    confirm_session toy_crypto pd cf = Inr sb \<and>
    mirrored sa sb \<and> s_peer sa = lc_did toy_crypto 5 \<and> s_peer sb = lc_did toy_crypto 3 \<and>
    opened (soft_sha (\<lambda>st b. st)) sb (sealed (soft_sha (\<lambda>st b. st)) sa [[1], [2, 3]]) = map Inr [[1], [2, 3]] \<and>
    opened (soft_sha (\<lambda>st b. st)) sa (sealed (soft_sha (\<lambda>st b. st)) sb [[1], [2, 3]]) = map Inr [[1], [2, 3]]"
proof -
  have c: "c256_ok (\<lambda>st b. st)"
    by (simp add: c256_ok_def)
  have e: "ephemeral toy_crypto r = (Inr r, r + 1)" for r
    by (simp add: ephemeral_def toy_crypto_def eval_nat_numeral)
  have i: "initiate toy_crypto 3 1 = (Inr (fst (projr (fst (initiate toy_crypto 3 1))),
      snd (projr (fst (initiate toy_crypto 3 1)))), 3)"
    by (simp add: initiate_def e) (simp add: toy_crypto_def Let_def)
  have f: "lc_fill toy_crypto 10 NONCE_LEN = (Inr (replicate NONCE_LEN 10), 11)"
    by (simp add: toy_crypto_def)
  have e9: "ephemeral toy_crypto 9 = (Inr 9, 10)"
    using e[of 9] by simp
  show ?thesis
    by (rule handshake_agreement[OF toy_crypto_ok c soft_engine_agrees i e9 f])
      (simp_all add: frame_consts)
qed

text \<open>C4: the initiator authenticates the responder: \<open>finish\<close> only gives a session when the claimed
  identity passes the policy and the \<open>Accept\<close> ends in the key-confirmation tag over this very
  transcript (the \<open>Hello\<close> as sent, the head of the \<open>Accept\<close> as received) under the key derived with
  that identity; and a pending session opens only for the one matching \<open>Confirm\<close>.\<close>

theorem finish_authenticates:
  assumes "link_crypto_ok (C :: ('dev, 'did, 'sk, 'pk, 'rng) link_crypto)" and "finish c256 C hs me acc allow now life = Inr (s, cf)"
  shows "(\<exists>pk ks. lc_from_pubkey C (msg_pubkey acc) = Inr (s_peer s) \<and> allow (s_peer s) \<and>
      lc_from_sec1 C (msg_eph acc) = Some pk \<and>
      derive C me (s_peer s) (hs_eph hs) pk (msg_nonce (hs_hello hs)) (msg_nonce acc) = Inr ks \<and>
      acc = take HELLO_LEN acc @ mac C (ky_confirm ks) [LABEL_ACCEPT, hs_hello hs @ take HELLO_LEN acc] \<and>
      s = session_new c256 (ky_id ks) (s_peer s) (ky_i2r ks) (ky_r2i ks) now life) \<and>
    (\<forall>pd cf' s'. confirm_session C pd cf' = Inr s' \<longleftrightarrow>
      cf' = [VERSION, KIND_CONFIRM] @ mac C (pd_k_confirm pd) [LABEL_CONFIRM, pd_transcript pd] \<and> s' = pd_session pd)"
proof (intro conjI allI)
  let ?tr = "hs_hello hs @ take HELLO_LEN acc"
  note hm = link_crypto_okD(4)[OF assms(1)] and vf = link_crypto_okD(6)[OF assms(1)]
  obtain did pk ks where did: "lc_from_pubkey C (msg_pubkey acc) = Inr did" "allow did"
      and pk: "lc_from_sec1 C (msg_eph acc) = Some pk"
      and ks: "derive C me did (hs_eph hs) pk (msg_nonce (hs_hello hs)) (msg_nonce acc) = Inr ks"
      and v: "verify C (ky_confirm ks) [LABEL_ACCEPT, ?tr] (drop HELLO_LEN acc)"
      and s: "s = session_new c256 (ky_id ks) did (ky_i2r ks) (ky_r2i ks) now life"
      and len: "length acc = ACCEPT_LEN"
    using assms(2) by (auto simp: finish_def Let_def rbind_Inr_iff ok_or_Inr_iff split: if_splits)
  have p: "s_peer s = did"
    by (simp add: s session_new_def)
  have "length (drop HELLO_LEN acc) = TAG_LEN"
    by (simp add: len ACCEPT_LEN_def)
  with v have "drop HELLO_LEN acc = mac C (ky_confirm ks) [LABEL_ACCEPT, ?tr]"
    by (simp add: verify_def vf mac_def)
  then have "acc = take HELLO_LEN acc @ mac C (ky_confirm ks) [LABEL_ACCEPT, ?tr]"
    by (metis append_take_drop_id)
  then show "\<exists>pk ks. lc_from_pubkey C (msg_pubkey acc) = Inr (s_peer s) \<and> allow (s_peer s) \<and>
      lc_from_sec1 C (msg_eph acc) = Some pk \<and>
      derive C me (s_peer s) (hs_eph hs) pk (msg_nonce (hs_hello hs)) (msg_nonce acc) = Inr ks \<and>
      acc = take HELLO_LEN acc @ mac C (ky_confirm ks) [LABEL_ACCEPT, ?tr] \<and>
      s = session_new c256 (ky_id ks) (s_peer s) (ky_i2r ks) (ky_r2i ks) now life"
    unfolding p using did pk ks s by blast
  fix pd :: "'did pending_session" and cf' s'
  let ?m = "mac C (pd_k_confirm pd) [LABEL_CONFIRM, pd_transcript pd]"
  have ml: "length ?m = TAG_LEN"
    by (simp add: mac_def hm TAG_LEN_def)
  have vc: "verify C (pd_k_confirm pd) [LABEL_CONFIRM, pd_transcript pd] t \<longleftrightarrow> t = ?m" if "length t = TAG_LEN" for t
    by (simp add: verify_def vf[OF that] mac_def)
  show "confirm_session C pd cf' = Inr s' \<longleftrightarrow> cf' = [VERSION, KIND_CONFIRM] @ ?m \<and> s' = pd_session pd"
  proof (cases "length cf' = CONFIRM_LEN")
    case False
    then show ?thesis
      using ml by (auto simp: confirm_session_def CONFIRM_LEN_def)
  next
    case True
    then obtain a b t where t: "cf' = a # b # t" "length t = TAG_LEN"
      by (cases cf' rule: list.exhaust; cases "tl cf'") (auto simp: CONFIRM_LEN_def)
    then show ?thesis
      using True vc[OF t(2)] by (auto simp: confirm_session_def)
  qed
qed

theorem finish_authenticates_witness:
  "confirm_session toy_crypto \<lparr>pd_session = session_new (\<lambda>st b. st) 7 [] [] [] 0 0, pd_k_confirm = [4], pd_transcript = [1]\<rparr>
     ([VERSION, KIND_CONFIRM] @ mac toy_crypto [4] [LABEL_CONFIRM, [1]]) = Inr (session_new (\<lambda>st b. st) 7 [] [] [] 0 0)"
proof -
  let ?pd = "\<lparr>pd_session = session_new (\<lambda>st b. st) 7 [] [] [] 0 0, pd_k_confirm = [4], pd_transcript = [1]\<rparr>"
  from handshake_agreement_witness obtain acc sa cf where
    "finish (\<lambda>st b. st) toy_crypto (fst (projr (fst (initiate toy_crypto 3 1)))) 3 acc (\<lambda>d. True) 0 0 = Inr (sa, cf)"
    by blast
  from finish_authenticates[OF toy_crypto_ok this] show ?thesis
    by (metis pending_session.select_convs)
qed

lemma stranger_denied:
  assumes "lc_from_pubkey C (msg_pubkey m) = Inr did" and "\<not> allow did"
  shows "(length m = HELLO_LEN \<and> m ! 0 = VERSION \<and> m ! 1 = KIND_HELLO \<longrightarrow>
      respond c256 C me rng m allow now life = (Inl Denied, rng)) \<and>
    (length m = ACCEPT_LEN \<and> m ! 0 = VERSION \<and> m ! 1 = KIND_ACCEPT \<longrightarrow>
      finish c256 C hs me m allow now life = Inl Denied)"
  using assms by (simp add: respond_def finish_def)

end
