(* ===== verification/Wifi.thy ===== *)
theory Wifi
  imports Prelude
begin

text \<open>
  Wi-Fi station credentials and their provisioning TLV, the station reconnect policy and the
  RSSI statistics (\<open>crates/rusty_esp_signal-core/src/wifi.rs\<close>). Wiping memory on drop and the
  \<open>Debug\<close> formatting are not modelled. \<open>Micros::since\<close> and \<open>Micros::add_micros\<close> belong to
  \<open>rusty_esp_core\<close> and are arguments of the operations that use them.
\<close>

definition SSID_MAX_LEN :: nat where "SSID_MAX_LEN = 32"
definition PASSPHRASE_MIN_LEN :: nat where "PASSPHRASE_MIN_LEN = 8"
definition PASSPHRASE_MAX_LEN :: nat where "PASSPHRASE_MAX_LEN = 63"
definition RAW_PSK_HEX_LEN :: nat where "RAW_PSK_HEX_LEN = 64"
definition TAG_SSID :: u8 where "TAG_SSID = 1"
definition TAG_PSK :: u8 where "TAG_PSK = 2"
definition MAX_ENCODED_LEN :: nat where "MAX_ENCODED_LEN = 2 + SSID_MAX_LEN + 2 + RAW_PSK_HEX_LEN"

lemmas wifi_consts = SSID_MAX_LEN_def PASSPHRASE_MIN_LEN_def PASSPHRASE_MAX_LEN_def
  RAW_PSK_HEX_LEN_def TAG_SSID_def TAG_PSK_def MAX_ENCODED_LEN_def

section \<open>Credentials\<close>

datatype psk_kind = PskOpen | Passphrase | RawPsk

record credentials =
  cr_ssid :: bytes
  cr_ssid_len :: u8
  cr_psk :: bytes
  cr_psk_len :: u8

definition is_ascii_hexdigit :: "u8 \<Rightarrow> bool" where
  "is_ascii_hexdigit b \<longleftrightarrow>
     (0x30 \<le> b \<and> b \<le> 0x39) \<or> (0x41 \<le> b \<and> b \<le> 0x46) \<or> (0x61 \<le> b \<and> b \<le> 0x66)"

definition classify :: "bytes \<Rightarrow> err + psk_kind" where
  "classify psk =
     (if length psk = 0 then Inr PskOpen
      else if PASSPHRASE_MIN_LEN \<le> length psk \<and> length psk \<le> PASSPHRASE_MAX_LEN then
        (if list_all (\<lambda>b. 0x20 \<le> b \<and> b \<le> 0x7E) psk then Inr Passphrase else Inl InvalidFormat)
      else if length psk = RAW_PSK_HEX_LEN then
        (if list_all is_ascii_hexdigit psk then Inr RawPsk else Inl InvalidFormat)
      else Inl InvalidFormat)"

text \<open>\<open>u8::try_from\<close> of a length.\<close>

definition u8_try :: "nat \<Rightarrow> u8 option" where
  "u8_try n = (if n < 256 then Some (of_nat n) else None)"

definition creds_new :: "bytes \<Rightarrow> bytes \<Rightarrow> err + credentials" where
  "creds_new ssid psk =
     (if ssid = [] \<or> length ssid > SSID_MAX_LEN then Inl InvalidFormat
      else rbind (classify psk) (\<lambda>_.
        rbind (ok_or (u8_try (length ssid)) InvalidFormat) (\<lambda>sl.
        rbind (ok_or (u8_try (length psk)) InvalidFormat) (\<lambda>pl.
          Inr \<lparr>cr_ssid = write_at (replicate SSID_MAX_LEN 0) 0 ssid, cr_ssid_len = sl,
               cr_psk = write_at (replicate RAW_PSK_HEX_LEN 0) 0 psk, cr_psk_len = pl\<rparr>))))"

definition ssid_of :: "credentials \<Rightarrow> bytes" where
  "ssid_of c = (case slice_get (cr_ssid c) 0 (unat (cr_ssid_len c)) of None \<Rightarrow> [] | Some s \<Rightarrow> s)"

definition psk_of :: "credentials \<Rightarrow> bytes" where
  "psk_of c = (case slice_get (cr_psk c) 0 (unat (cr_psk_len c)) of None \<Rightarrow> [] | Some s \<Rightarrow> s)"

definition psk_kind_of :: "credentials \<Rightarrow> psk_kind" where
  "psk_kind_of c =
     (if unat (cr_psk_len c) = 0 then PskOpen
      else if unat (cr_psk_len c) = RAW_PSK_HEX_LEN then RawPsk else Passphrase)"

definition is_open :: "credentials \<Rightarrow> bool" where
  "is_open c \<longleftrightarrow> cr_psk_len c = 0"

definition creds_encoded_len :: "credentials \<Rightarrow> nat" where
  "creds_encoded_len c = 4 + unat (cr_ssid_len c) + unat (cr_psk_len c)"

text \<open>\<open>write_tlv\<close>: the slice as it is left.\<close>

fun write_tlv :: "bytes \<Rightarrow> u8 \<Rightarrow> bytes \<Rightarrow> bytes" where
  "write_tlv (t # l # body) tag value =
     tag # (case u8_try (length value) of Some n \<Rightarrow> n | None \<Rightarrow> - 1)
       # (if length value \<le> length body then write_at body 0 value else body)"
| "write_tlv out tag value = out"

definition creds_encode :: "credentials \<Rightarrow> bytes \<Rightarrow> (err + nat) \<times> bytes" where
  "creds_encode c out =
     (let needed = creds_encoded_len c in
      if length out < needed then (Inl (BufferTooSmall needed), out)
      else
        let buf = take needed out;
            mid = 2 + unat (cr_ssid_len c);
            ssid_tlv = write_tlv (take mid buf) TAG_SSID (ssid_of c);
            psk_tlv = write_tlv (drop mid buf) TAG_PSK (psk_of c)
        in (Inr needed, ssid_tlv @ psk_tlv @ drop needed out))"

text \<open>The loop of \<open>decode\<close>, over the rest of the input and the two slots.\<close>

function tlv_scan :: "bytes \<Rightarrow> bytes option \<Rightarrow> bytes option \<Rightarrow> err + (bytes option \<times> bytes option)" where
  "tlv_scan [] ssid psk = Inr (ssid, psk)"
| "tlv_scan [tag] ssid psk = Inl InvalidFormat"
| "tlv_scan (tag # len # after) ssid psk =
     (if length after < unat len then Inl InvalidFormat
      else let value = take (unat len) after; tail = drop (unat len) after in
        if tag = TAG_SSID then
          (if ssid \<noteq> None then Inl InvalidFormat else tlv_scan tail (Some value) psk)
        else if tag = TAG_PSK then
          (if psk \<noteq> None then Inl InvalidFormat else tlv_scan tail ssid (Some value))
        else tlv_scan tail ssid psk)"
  by pat_completeness auto
termination by (relation "measure (\<lambda>(bs, _, _). length bs)") auto

definition creds_decode :: "bytes \<Rightarrow> err + credentials" where
  "creds_decode bs =
     rbind (tlv_scan bs None None) (\<lambda>(ssid, psk).
     rbind (ok_or ssid InvalidFormat) (\<lambda>s.
       creds_new s (case psk of None \<Rightarrow> [] | Some p \<Rightarrow> p)))"

subsection \<open>What a stored credential is\<close>

lemma classify_Inr:
  "classify psk = Inr k \<Longrightarrow> length psk \<le> 64 \<and>
     (k = PskOpen \<longleftrightarrow> psk = []) \<and> (k = RawPsk \<longleftrightarrow> length psk = 64)"
  by (auto simp: classify_def wifi_consts split: if_splits)

lemma u8_try_small: "n < 256 \<Longrightarrow> u8_try n = Some (of_nat n)"
  by (simp add: u8_try_def)

lemma creds_new_Inr:
  "creds_new ssid psk = Inr c \<longleftrightarrow> ssid \<noteq> [] \<and> length ssid \<le> 32 \<and> is_ok (classify psk) \<and>
     c = \<lparr>cr_ssid = ssid @ replicate (32 - length ssid) 0, cr_ssid_len = of_nat (length ssid),
          cr_psk = psk @ replicate (64 - length psk) 0, cr_psk_len = of_nat (length psk)\<rparr>"
proof (cases "classify psk")
  case (Inl e)
  then show ?thesis by (auto simp: creds_new_def)
next
  case (Inr k)
  with classify_Inr[OF Inr] show ?thesis
    by (auto simp: creds_new_def u8_try_small write_at_0 SSID_MAX_LEN_def RAW_PSK_HEX_LEN_def)
qed

lemma unat_len_u8: "n < 256 \<Longrightarrow> unat (of_nat n :: u8) = n"
  by (simp add: unat_of_nat)

lemma creds_new_fields:
  assumes "creds_new ssid psk = Inr c"
  shows "ssid_of c = ssid" and "psk_of c = psk" and "unat (cr_ssid_len c) = length ssid"
    and "unat (cr_psk_len c) = length psk" and "classify psk = Inr (psk_kind_of c)"
proof -
  from assms have l: "length ssid \<le> 32" and ok: "is_ok (classify psk)"
    and c: "c = \<lparr>cr_ssid = ssid @ replicate (32 - length ssid) 0, cr_ssid_len = of_nat (length ssid),
          cr_psk = psk @ replicate (64 - length psk) 0, cr_psk_len = of_nat (length psk)\<rparr>"
    unfolding creds_new_Inr by blast+
  from ok obtain k where k: "classify psk = Inr k"
    by (cases "classify psk") auto
  have p: "length psk \<le> 64"
    using classify_Inr[OF k] by blast
  show "unat (cr_ssid_len c) = length ssid" and pl: "unat (cr_psk_len c) = length psk"
    using l p by (simp_all add: c unat_len_u8)
  show "ssid_of c = ssid" and "psk_of c = psk"
    using l p by (simp_all add: c ssid_of_def psk_of_def slice_get_def unat_len_u8)
  have "k = psk_kind_of c"
    using classify_Inr[OF k] unfolding psk_kind_of_def pl RAW_PSK_HEX_LEN_def by (cases k) auto
  then show "classify psk = Inr (psk_kind_of c)"
    by (simp add: k)
qed

subsection \<open>The TLV\<close>

definition tlv :: "u8 \<Rightarrow> bytes \<Rightarrow> bytes" where
  "tlv tag value = tag # of_nat (length value) # value"

lemma write_tlv_tlv:
  "length out = 2 + length value \<Longrightarrow> length value < 256 \<Longrightarrow> write_tlv out tag value = tlv tag value"
  by (cases out rule: list.exhaust; cases "tl out") (auto simp: tlv_def u8_try_small write_at_0)

lemma creds_encode_new:
  assumes "creds_new ssid psk = Inr c" and "creds_encoded_len c \<le> length out"
  shows "creds_encode c out =
    (Inr (creds_encoded_len c), tlv TAG_SSID ssid @ tlv TAG_PSK psk @ drop (creds_encoded_len c) out)"
proof -
  note f = creds_new_fields[OF assms(1)]
  have b: "length ssid < 256" "length psk < 256"
    using assms(1) classify_Inr[OF f(5)] by (auto simp: creds_new_Inr)
  have "write_tlv (take (2 + length ssid) (take (creds_encoded_len c) out)) TAG_SSID ssid = tlv TAG_SSID ssid"
    using assms(2) b f by (intro write_tlv_tlv) (simp_all add: creds_encoded_len_def)
  moreover have "write_tlv (drop (2 + length ssid) (take (creds_encoded_len c) out)) TAG_PSK psk = tlv TAG_PSK psk"
    using assms(2) b f by (intro write_tlv_tlv) (simp_all add: creds_encoded_len_def)
  ultimately show ?thesis
    using assms(2) f by (simp add: creds_encode_def Let_def)
qed

lemma tlv_scan_tlv:
  "length v < 256 \<Longrightarrow> tlv_scan (tlv t v @ rest) s p =
     (if t = TAG_SSID then (if s \<noteq> None then Inl InvalidFormat else tlv_scan rest (Some v) p)
      else if t = TAG_PSK then (if p \<noteq> None then Inl InvalidFormat else tlv_scan rest s (Some v))
      else tlv_scan rest s p)"
  by (simp add: tlv_def unat_len_u8 Let_def)

lemma tags_distinct [simp]: "TAG_PSK \<noteq> TAG_SSID"
  by (simp add: TAG_PSK_def TAG_SSID_def)

lemma creds_decode_tlv:
  assumes "creds_new ssid psk = Inr c"
  shows "creds_decode (tlv TAG_SSID ssid @ tlv TAG_PSK psk) = Inr c"
proof -
  have b: "length ssid < 256" "length psk < 256"
    using assms classify_Inr[OF creds_new_fields(5)[OF assms]] by (auto simp: creds_new_Inr)
  have "tlv_scan (tlv TAG_SSID ssid @ tlv TAG_PSK psk @ []) None None = Inr (Some ssid, Some psk)"
    by (simp only: tlv_scan_tlv[OF b(1)] tlv_scan_tlv[OF b(2)]) simp
  then show ?thesis
    using assms by (simp add: creds_decode_def)
qed

text \<open>The wire format of credentials, as the bytes \<open>encode\<close> leaves in a buffer of exactly the
  announced length.\<close>

definition creds_wire :: "credentials \<Rightarrow> bytes" where
  "creds_wire c = snd (creds_encode c (replicate (creds_encoded_len c) 0))"

definition creds_valid :: "credentials \<Rightarrow> bool" where
  "creds_valid c \<longleftrightarrow> creds_new (ssid_of c) (psk_of c) = Inr c"

interpretation creds: wire_codec creds_wire creds_decode creds_valid
  by unfold_locales
    (simp add: creds_wire_def creds_valid_def creds_encode_new creds_decode_tlv)

lemma creds_new_valid: "creds_new s p = Inr c \<Longrightarrow> creds_valid c"
  by (simp add: creds_valid_def creds_new_fields)

text \<open>A TLV stream, read entry by entry: the value of a tag when it occurs once.\<close>

definition tlv_stream :: "(u8 \<times> bytes) list \<Rightarrow> bytes" where
  "tlv_stream es = concat (map (\<lambda>(t, v). tlv t v) es)"

definition values_of :: "u8 \<Rightarrow> (u8 \<times> bytes) list \<Rightarrow> bytes list" where
  "values_of t es = map snd (filter (\<lambda>e. fst e = t) es)"

lemma tlv_scan_stream:
  assumes "\<forall>e\<in>set es. length (snd e) < 256"
  shows "tlv_scan (tlv_stream es) s p =
    (if length (values_of TAG_SSID es) + (if s = None then 0 else 1) \<le> 1 \<and>
        length (values_of TAG_PSK es) + (if p = None then 0 else 1) \<le> 1
     then Inr (if s = None \<and> values_of TAG_SSID es \<noteq> [] then Some (hd (values_of TAG_SSID es)) else s,
               if p = None \<and> values_of TAG_PSK es \<noteq> [] then Some (hd (values_of TAG_PSK es)) else p)
     else Inl InvalidFormat)"
  using assms
proof (induction es arbitrary: s p)
  case Nil
  then show ?case by (simp add: tlv_stream_def values_of_def)
next
  case (Cons e es)
  obtain t v where e: "e = (t, v)"
    by (cases e)
  have st: "tlv_stream ((t, v) # es) = tlv t v @ tlv_stream es"
    by (simp add: tlv_stream_def)
  have v: "length v < 256" and es: "\<forall>e\<in>set es. length (snd e) < 256"
    using Cons.prems by (auto simp: e)
  show ?case
    unfolding e st tlv_scan_tlv[OF v] values_of_def
    by (cases s; cases p; cases "t = TAG_SSID"; cases "t = TAG_PSK")
      (simp_all add: Cons.IH[OF es] values_of_def)
qed

section \<open>The station policy\<close>

datatype phase = Unprovisioned | Connecting | Connected | Backoff | Fallback

definition phase_as_u8 :: "phase \<Rightarrow> u8" where
  "phase_as_u8 p = (case p of Unprovisioned \<Rightarrow> 0 | Connecting \<Rightarrow> 1 | Connected \<Rightarrow> 2 | Backoff \<Rightarrow> 3 | Fallback \<Rightarrow> 4)"

definition phase_from_u8 :: "u8 \<Rightarrow> phase option" where
  "phase_from_u8 v =
     (if v = 0 then Some Unprovisioned else if v = 1 then Some Connecting
      else if v = 2 then Some Connected else if v = 3 then Some Backoff
      else if v = 4 then Some Fallback else None)"

datatype event = EvProvisioned | EvConnected | EvDisconnected | EvTick

datatype action = ActConnect | ActWait micros | ActStartProvisioning | ActNone

record policy_config =
  pc_min_backoff :: micros
  pc_max_backoff :: micros
  pc_max_failures :: u8

definition policy_config_default :: policy_config where
  "policy_config_default =
     \<lparr>pc_min_backoff = 1000000, pc_max_backoff = 60 * 1000000, pc_max_failures = 10\<rparr>"

record station_policy =
  sp_cfg :: policy_config
  sp_phase :: phase
  sp_failures :: u8
  sp_reconnects :: u32
  sp_wait_until :: micros

definition policy_new :: "policy_config \<Rightarrow> station_policy" where
  "policy_new cfg =
     \<lparr>sp_cfg = cfg, sp_phase = Unprovisioned, sp_failures = 0, sp_reconnects = 0, sp_wait_until = 0\<rparr>"

definition backoff_for :: "policy_config \<Rightarrow> u8 \<Rightarrow> micros" where
  "backoff_for cfg failures =
     (let shift = unat (sat_sub failures 1);
          raw = (if shift \<ge> 64 then - 1 else sat_mul (pc_min_backoff cfg) (push_bit shift 1))
      in if raw > pc_max_backoff cfg then pc_max_backoff cfg else raw)"

definition policy_on ::
  "(micros \<Rightarrow> micros \<Rightarrow> u64) \<Rightarrow> (micros \<Rightarrow> u64 \<Rightarrow> micros) \<Rightarrow>
   station_policy \<Rightarrow> event \<Rightarrow> micros \<Rightarrow> action \<times> station_policy" where
  "policy_on since add_micros p ev now =
     (case (sp_phase p, ev) of
        (_, EvProvisioned) \<Rightarrow> (ActConnect, p\<lparr>sp_failures := 0, sp_phase := Connecting\<rparr>)
      | (_, EvConnected) \<Rightarrow> (ActNone, p\<lparr>sp_failures := 0, sp_phase := Connected\<rparr>)
      | (ph, EvDisconnected) \<Rightarrow>
          if ph = Connecting \<or> ph = Connected then
            let f = sat_add (sp_failures p) 1 in
            if f \<ge> pc_max_failures (sp_cfg p)
            then (ActStartProvisioning, p\<lparr>sp_failures := f, sp_phase := Fallback\<rparr>)
            else let wait = backoff_for (sp_cfg p) f in
              (ActWait wait,
               p\<lparr>sp_failures := f, sp_wait_until := add_micros now wait, sp_phase := Backoff\<rparr>)
          else (ActNone, p)
      | (Backoff, EvTick) \<Rightarrow>
          let remaining = since (sp_wait_until p) now in
          if remaining = 0
          then (ActConnect, p\<lparr>sp_reconnects := sat_add (sp_reconnects p) 1, sp_phase := Connecting\<rparr>)
          else (ActWait remaining, p)
      | _ \<Rightarrow> (ActNone, p))"

text \<open>A run of the policy over timed events: the actions it hands out and where it ends.\<close>

fun policy_run where
  "policy_run since add_micros p [] = ([], p)"
| "policy_run since add_micros p ((ev, now) # es) =
     (let (a, p') = policy_on since add_micros p ev now;
          (as, p'') = policy_run since add_micros p' es
      in (a # as, p''))"

subsection \<open>The delay\<close>

lemma backoff_for_eq:
  assumes "0 < pc_min_backoff cfg \<or> f \<le> 64"
  shows "unat (backoff_for cfg f) =
    min (unat (pc_min_backoff cfg) * 2 ^ (unat f - 1)) (unat (pc_max_backoff cfg))"
proof -
  let ?s = "unat f - 1" and ?m = "pc_min_backoff cfg" and ?x = "pc_max_backoff cfg"
  have s: "unat (sat_sub f 1) = ?s"
    by (simp add: sat_simps)
  have x: "unat ?x \<le> 2 ^ 64 - 1"
    using unat_less[of ?x] by simp
  show ?thesis
  proof (cases "64 \<le> ?s")
    case True
    have "unat f \<le> 64" if "f \<le> 64"
      using that by (simp add: word_le_nat_alt)
    with True assms have m: "1 \<le> unat ?m"
      by (auto simp: word_less_nat_alt Suc_le_eq)
    have "(2::nat) ^ 64 \<le> 2 ^ ?s"
      using True by (intro power_increasing) auto
    with m have "2 ^ 64 \<le> unat ?m * 2 ^ ?s"
      by (metis mult_le_mono nat_mult_1)
    with x True s show ?thesis
      by (auto simp: backoff_for_def Let_def min_def word_less_nat_alt unat_minus_1)
  next
    case False
    then have p: "unat (push_bit ?s 1 :: u64) = 2 ^ ?s"
      by (simp add: unat_2p)
    have r: "unat (sat_mul ?m (push_bit ?s 1)) = min (unat ?m * 2 ^ ?s) (2 ^ 64 - 1)"
      unfolding unat_sat_mul p by simp
    with x s False show ?thesis
      unfolding backoff_for_def Let_def
      by (auto simp: min_def word_less_nat_alt)
  qed
qed

lemma backoff_for_le: "backoff_for cfg f \<le> pc_max_backoff cfg"
  unfolding backoff_for_def Let_def by (simp only: split: if_split) (simp add: not_less)

subsection \<open>Reachable policies\<close>

inductive policy_reaches where
  start: "policy_reaches since add cfg (policy_new cfg)"
| step: "policy_reaches since add cfg p \<Longrightarrow> policy_on since add p ev now = (a, p') \<Longrightarrow>
    policy_reaches since add cfg p'"

text \<open>What holds of every policy: the failure count is the number of failures of the current
  streak, so it is zero while joined, short of the limit while waiting and at the limit when the
  policy has given up.\<close>

definition policy_wf :: "station_policy \<Rightarrow> bool" where
  "policy_wf p \<longleftrightarrow>
     (case sp_phase p of
        Unprovisioned \<Rightarrow> sp_failures p = 0
      | Connected \<Rightarrow> sp_failures p = 0
      | Connecting \<Rightarrow> sp_failures p = 0 \<or> sp_failures p < pc_max_failures (sp_cfg p)
      | Backoff \<Rightarrow> 0 < sp_failures p \<and> sp_failures p < pc_max_failures (sp_cfg p)
      | Fallback \<Rightarrow> pc_max_failures (sp_cfg p) \<le> sp_failures p)"

lemma sat_add_1_pos: "0 < sat_add (f :: u8) 1"
  by (simp add: word_less_nat_alt sat_simps)

lemma policy_wf_new [simp]: "policy_wf (policy_new cfg)"
  by (simp add: policy_wf_def policy_new_def)

lemma policy_on_wf: "policy_wf p \<Longrightarrow> policy_on since add p ev now = (a, p') \<Longrightarrow> policy_wf p'"
  by (cases "sp_phase p"; cases ev)
    (auto simp: policy_on_def policy_wf_def Let_def sat_add_1_pos not_le split: if_splits)

lemma policy_on_cfg: "policy_on since add p ev now = (a, p') \<Longrightarrow> sp_cfg p' = sp_cfg p"
  by (cases "sp_phase p"; cases ev) (auto simp: policy_on_def Let_def split: if_splits)

lemma policy_reaches_wf: "policy_reaches since add cfg p \<Longrightarrow> policy_wf p \<and> sp_cfg p = cfg"
proof (induction rule: policy_reaches.induct)
  case (start since add cfg)
  then show ?case by (simp add: policy_new_def) (simp add: policy_new_def[symmetric])
next
  case (step since add cfg p ev now a p')
  then show ?case using policy_on_wf policy_on_cfg by metis
qed

text \<open>How many joins the policy may still start by itself before it gives up.\<close>

definition tries_left :: "station_policy \<Rightarrow> nat" where
  "tries_left p =
     (case sp_phase p of
        Connecting \<Rightarrow> unat (pc_max_failures (sp_cfg p)) - 1 - unat (sp_failures p)
      | Connected \<Rightarrow> unat (pc_max_failures (sp_cfg p)) - 1 - unat (sp_failures p)
      | Backoff \<Rightarrow> unat (pc_max_failures (sp_cfg p)) - unat (sp_failures p)
      | _ \<Rightarrow> 0)"

lemma unat_sat_add_1: "unat (sat_add (f :: u8) 1) = min (unat f + 1) 255"
  by (simp add: sat_simps)

lemma policy_on_tries:
  assumes "policy_wf p" and "ev = EvDisconnected \<or> ev = EvTick" and "policy_on since add p ev now = (a, p')"
  shows "(if a = ActConnect then 1 else 0) + tries_left p' \<le> tries_left p"
proof -
  have f: "unat (sp_failures p) < 256" "unat (pc_max_failures (sp_cfg p)) < 256"
    using unat_less[where 'a = 8] by simp_all
  then show ?thesis
    using assms
    by (cases "sp_phase p")
      (auto simp: policy_on_def tries_left_def policy_wf_def Let_def word_less_nat_alt word_le_nat_alt
        unat_sat_add_1 split: if_splits)
qed

lemma policy_run_tries:
  assumes "policy_wf p" and "\<forall>e\<in>set es. fst e = EvDisconnected \<or> fst e = EvTick"
  shows "length (filter (\<lambda>a. a = ActConnect) (fst (policy_run since add p es))) \<le> tries_left p"
  using assms
proof (induction es arbitrary: p)
  case Nil
  then show ?case by simp
next
  case (Cons e es)
  obtain ev now a p' where e: "e = (ev, now)" "policy_on since add p ev now = (a, p')"
    by (cases e; cases "policy_on since add p (fst e) (snd e)") auto
  have ih: "length (filter (\<lambda>a. a = ActConnect) (fst (policy_run since add p' es))) \<le> tries_left p'"
    using Cons e policy_on_wf[OF _ e(2)] by (intro Cons.IH) auto
  have "(if a = ActConnect then 1 else 0) + tries_left p' \<le> tries_left p"
    using Cons.prems e by (intro policy_on_tries[of p ev since add now]) auto
  with ih show ?case
    by (auto simp: e split: prod.split)
qed

text \<open>A round of failure: the join fails at \<open>t\<close>, and a tick comes at \<open>t'\<close>, late enough for
  whatever delay was asked for.\<close>

definition fail_rounds :: "(micros \<times> micros) list \<Rightarrow> (event \<times> micros) list" where
  "fail_rounds rs = concat (map (\<lambda>(t, t'). [(EvDisconnected, t), (EvTick, t')]) rs)"

definition patient where
  "patient since add_micros cfg rs \<longleftrightarrow>
     list_all (\<lambda>(t, t'). \<forall>w\<le>pc_max_backoff cfg. since (add_micros t w) t' = (0::u64)) rs"

lemma policy_on_fallback:
  "sp_phase p = Fallback \<Longrightarrow> policy_on since add p EvDisconnected now = (ActNone, p)"
  "sp_phase p = Fallback \<Longrightarrow> policy_on since add p EvTick now = (ActNone, p)"
  by (simp_all add: policy_on_def)

lemma policy_on_failure:
  assumes "sp_phase p = Connecting \<or> sp_phase p = Connected"
  shows "policy_on since add p EvDisconnected now =
    (let f = sat_add (sp_failures p) 1 in
      if f \<ge> pc_max_failures (sp_cfg p)
      then (ActStartProvisioning, p\<lparr>sp_failures := f, sp_phase := Fallback\<rparr>)
      else let wait = backoff_for (sp_cfg p) f in
        (ActWait wait, p\<lparr>sp_failures := f, sp_wait_until := add now wait, sp_phase := Backoff\<rparr>))"
  using assms by (elim disjE) (simp_all add: policy_on_def)

lemma policy_on_elapsed:
  "sp_phase p = Backoff \<Longrightarrow> since (sp_wait_until p) now = 0 \<Longrightarrow> policy_on since add p EvTick now =
    (ActConnect, p\<lparr>sp_reconnects := sat_add (sp_reconnects p) 1, sp_phase := Connecting\<rparr>)"
  by (simp add: policy_on_def)

lemma policy_run_fallback_stays:
  "sp_phase p = Fallback \<Longrightarrow> snd (policy_run since add p (fail_rounds rs)) = p"
  by (induction rs) (auto simp: fail_rounds_def policy_on_fallback split: prod.split)

lemma policy_run_falls_back:
  assumes "sp_phase p = Connecting \<or> sp_phase p = Connected"
    and "patient since add (sp_cfg p) rs" and "rs \<noteq> []"
    and "unat (pc_max_failures (sp_cfg p)) \<le> unat (sp_failures p) + length rs"
  shows "sp_phase (snd (policy_run since add p (fail_rounds rs))) = Fallback"
  using assms
proof (induction rs arbitrary: p)
  case Nil
  then show ?case by simp
next
  case (Cons r rs)
  obtain t t' where r: "r = (t, t')"
    by (cases r)
  let ?f = "sat_add (sp_failures p) 1"
  have split_run: "snd (policy_run since add p (fail_rounds (r # rs))) =
      snd (policy_run since add (snd (policy_on since add (snd (policy_on since add p EvDisconnected t)) EvTick t'))
        (fail_rounds rs))"
    by (simp add: fail_rounds_def r split: prod.split)
  show ?case
  proof (cases "?f \<ge> pc_max_failures (sp_cfg p)")
    case True
    have "sp_phase (snd (policy_on since add (snd (policy_on since add p EvDisconnected t)) EvTick t')) = Fallback"
      using True by (simp add: policy_on_failure[OF Cons.prems(1)] policy_on_fallback)
    then show ?thesis
      unfolding split_run by (simp add: policy_run_fallback_stays)
  next
    case False
    define q where "q = snd (policy_on since add (snd (policy_on since add p EvDisconnected t)) EvTick t')"
    have "since (add t (backoff_for (sp_cfg p) ?f)) t' = 0"
      using Cons.prems(2) backoff_for_le by (auto simp: patient_def r)
    with False have q: "sp_phase q = Connecting" "sp_failures q = ?f" "sp_cfg q = sp_cfg p"
      by (simp_all add: q_def policy_on_failure[OF Cons.prems(1)] policy_on_elapsed Let_def)
    have lt: "unat ?f < unat (pc_max_failures (sp_cfg p))"
      using False by (simp add: word_less_nat_alt word_le_nat_alt)
    have fs: "unat ?f = unat (sp_failures p) + 1"
      using lt unat_less[of "pc_max_failures (sp_cfg p)"] unat_sat_add_1[of "sp_failures p"] by simp
    have "rs \<noteq> []"
      using Cons.prems(4) lt fs by auto
    moreover have "patient since add (sp_cfg p) rs"
      using Cons.prems(2) by (simp add: patient_def)
    ultimately have "sp_phase (snd (policy_run since add q (fail_rounds rs))) = Fallback"
      using Cons.prems(4) q fs by (intro Cons.IH) auto
    then show ?thesis
      unfolding split_run q_def[symmetric] .
  qed
qed

section \<open>RSSI statistics\<close>

text \<open>\<open>sum\<close> is an \<open>i64\<close>; \<open>sat_i64\<close> is its saturation.\<close>

record rssi_stats =
  rs_count :: u32
  rs_sum :: int
  rs_min :: i8
  rs_max :: i8

definition sat_i64 :: "int \<Rightarrow> int" where
  "sat_i64 x = max (- (2 ^ 63)) (min (2 ^ 63 - 1) x)"

definition rssi_new :: rssi_stats where
  "rssi_new = \<lparr>rs_count = 0, rs_sum = 0, rs_min = 0, rs_max = 0\<rparr>"

definition rssi_push :: "rssi_stats \<Rightarrow> i8 \<Rightarrow> rssi_stats" where
  "rssi_push r x =
     (let r1 = (if rs_count r = 0 then r\<lparr>rs_min := x, rs_max := x\<rparr>
                else r\<lparr>rs_min := (if sint x < sint (rs_min r) then x else rs_min r),
                       rs_max := (if sint (rs_max r) \<le> sint x then x else rs_max r)\<rparr>)
      in if rs_count r1 < - 1
         then r1\<lparr>rs_count := rs_count r1 + 1, rs_sum := sat_i64 (rs_sum r1 + sint x)\<rparr>
         else r1)"

definition rssi_min :: "rssi_stats \<Rightarrow> i8 option" where
  "rssi_min r = (if rs_count r = 0 then None else Some (rs_min r))"

definition rssi_max :: "rssi_stats \<Rightarrow> i8 option" where
  "rssi_max r = (if rs_count r = 0 then None else Some (rs_max r))"

definition rssi_mean :: "rssi_stats \<Rightarrow> i8 option" where
  "rssi_mean r =
     (if rs_count r = 0 then None
      else let floor = rs_sum r div int (unat (rs_count r)) in
        if - 128 \<le> floor \<and> floor \<le> 127 then Some (word_of_int floor) else None)"

definition rssi_of :: "i8 list \<Rightarrow> rssi_stats" where
  "rssi_of xs = foldl rssi_push rssi_new xs"

text \<open>The samples the mean is taken over: the first \<open>2 ^ 32 - 1\<close>.\<close>

definition counted :: "i8 list \<Rightarrow> int list" where
  "counted xs = map sint (take (2 ^ 32 - 1) xs)"

lemma sint_i8: "- 128 \<le> sint (x :: i8)" "sint (x :: i8) \<le> 127"
  using sint_greater_eq[of x] sint_less[of x] by simp_all

lemma sum_list_bounds:
  "\<forall>y\<in>set ys. a \<le> y \<and> y \<le> b \<Longrightarrow> int (length ys) * a \<le> sum_list ys \<and> sum_list ys \<le> int (length ys) * b"
  by (induction ys) (auto simp: algebra_simps)

lemma counted_sum_small: "\<bar>sum_list (counted xs)\<bar> \<le> 2 ^ 40"
proof -
  have "int (length (counted xs)) * (- 128) \<le> sum_list (counted xs) \<and>
      sum_list (counted xs) \<le> int (length (counted xs)) * 127"
    by (rule sum_list_bounds) (auto simp: counted_def sint_i8 dest: in_set_takeD)
  moreover have "length (counted xs) < 2 ^ 32"
    by (simp add: counted_def)
  ultimately show ?thesis by auto
qed

definition rssi_rel :: "rssi_stats \<Rightarrow> i8 list \<Rightarrow> bool" where
  "rssi_rel r xs \<longleftrightarrow>
     unat (rs_count r) = length (counted xs) \<and> rs_sum r = sum_list (counted xs) \<and>
     (xs \<noteq> [] \<longrightarrow> sint (rs_min r) = Min (sint ` set xs) \<and> sint (rs_max r) = Max (sint ` set xs))"

lemma counted_snoc:
  "counted (xs @ [x]) = (if length xs < 2 ^ 32 - 1 then counted xs @ [sint x] else counted xs)"
  by (simp add: counted_def)

lemma counted_Nil [simp]: "counted [] = []"
  by (simp add: counted_def)

lemma counted_eq_Nil [simp]: "counted xs = [] \<longleftrightarrow> xs = []"
  by (simp add: counted_def)

lemma rssi_push_sel:
  "rs_count (rssi_push r x) = (if rs_count r < - 1 then rs_count r + 1 else rs_count r)"
  "rs_sum (rssi_push r x) = (if rs_count r < - 1 then sat_i64 (rs_sum r + sint x) else rs_sum r)"
  "sint (rs_min (rssi_push r x)) = (if rs_count r = 0 then sint x else min (sint x) (sint (rs_min r)))"
  "sint (rs_max (rssi_push r x)) = (if rs_count r = 0 then sint x else max (sint (rs_max r)) (sint x))"
  by (auto simp: rssi_push_def Let_def)

lemma rssi_push_rel:
  assumes "rssi_rel r xs"
  shows "rssi_rel (rssi_push r x) (xs @ [x])"
proof -
  have c: "unat (rs_count r) = length (counted xs)" and sm: "rs_sum r = sum_list (counted xs)"
    using assms by (auto simp: rssi_rel_def)
  have z: "rs_count r = 0 \<longleftrightarrow> xs = []"
    using c by (metis counted_eq_Nil length_0_conv unat_eq_zero)
  have lt: "rs_count r < - 1 \<longleftrightarrow> length xs < 2 ^ 32 - 1"
    using c by (simp add: word_less_nat_alt unat_minus_1 counted_def min_less_iff_disj)
  have cnt: "unat (rs_count (rssi_push r x)) = length (counted (xs @ [x]))"
  proof (cases "rs_count r < - 1")
    case True
    then have "unat (rs_count r + 1) = unat (rs_count r) + 1"
      by (simp add: unat_word_ariths word_less_nat_alt unat_minus_1)
    with True lt c show ?thesis
      by (simp add: rssi_push_sel counted_snoc)
  next
    case False
    with lt c show ?thesis
      by (simp add: rssi_push_sel counted_snoc)
  qed
  have "sat_i64 (sum_list (counted xs) + sint x) = sum_list (counted xs) + sint x"
    using counted_sum_small[of xs] sint_i8[of x] by (simp add: sat_i64_def)
  then have sum: "rs_sum (rssi_push r x) = sum_list (counted (xs @ [x]))"
    using lt sm by (simp add: rssi_push_sel counted_snoc)
  have mm: "sint (rs_min (rssi_push r x)) = Min (sint ` set (xs @ [x])) \<and>
      sint (rs_max (rssi_push r x)) = Max (sint ` set (xs @ [x]))"
    using assms z by (auto simp: rssi_push_sel rssi_rel_def max.commute)
  from cnt sum mm show ?thesis
    by (simp add: rssi_rel_def)
qed

lemma rssi_of_rel: "rssi_rel (rssi_of xs) xs"
proof (induction xs rule: rev_induct)
  case Nil
  then show ?case by (simp add: rssi_rel_def rssi_of_def rssi_new_def)
next
  case (snoc x xs)
  then show ?case
    using rssi_push_rel[of "rssi_of xs" xs x] by (simp add: rssi_of_def)
qed

section \<open>Properties\<close>

lemma credentials_roundtrip:
  assumes "creds_new ssid psk = Inr c" and "creds_encoded_len c \<le> length out"
  shows "\<exists>out'. creds_encode c out = (Inr (creds_encoded_len c), out') \<and>
    creds_decode (take (creds_encoded_len c) out') = Inr c \<and>
    drop (creds_encoded_len c) out' = drop (creds_encoded_len c) out \<and>
    ssid_of c = ssid \<and> psk_of c = psk \<and> creds_encoded_len c \<le> MAX_ENCODED_LEN"
proof -
  note f = creds_new_fields[OF assms(1)]
  have n: "creds_encoded_len c = length (tlv TAG_SSID ssid @ tlv TAG_PSK psk)"
    using f by (simp add: creds_encoded_len_def tlv_def)
  have "creds_encoded_len c \<le> MAX_ENCODED_LEN"
    using assms(1) classify_Inr[OF f(5)] f(3,4)
    by (auto simp: creds_encoded_len_def wifi_consts creds_new_Inr)
  with f show ?thesis
    using creds_encode_new[OF assms] creds_decode_tlv[OF assms(1)] by (simp add: n)
qed

lemma creds_sample: "creds_new [110, 101, 116] (replicate 8 97) = Inr
  \<lparr>cr_ssid = [110, 101, 116] @ replicate 29 0, cr_ssid_len = 3,
   cr_psk = replicate 8 97 @ replicate 56 0, cr_psk_len = 8\<rparr>"
  by (simp add: creds_new_Inr classify_def wifi_consts list_all_iff)

lemma credentials_decode_spec:
  assumes "\<forall>e\<in>set es. length (snd e) < 256"
  shows "creds_decode (tlv_stream es) =
    (case (values_of TAG_SSID es, values_of TAG_PSK es) of
       ([s], []) \<Rightarrow> creds_new s []
     | ([s], [p]) \<Rightarrow> creds_new s p
     | _ \<Rightarrow> Inl InvalidFormat)"
  unfolding creds_decode_def tlv_scan_stream[OF assms]
  by (cases "values_of TAG_SSID es" rule: list.exhaust; cases "tl (values_of TAG_SSID es)";
      cases "values_of TAG_PSK es" rule: list.exhaust; cases "tl (values_of TAG_PSK es)") auto

lemma backoff_is_capped_exponential:
  assumes "0 < pc_min_backoff cfg \<or> f \<le> 64"
  shows "unat (backoff_for cfg f) =
    min (unat (pc_min_backoff cfg) * 2 ^ (unat f - 1)) (unat (pc_max_backoff cfg))"
  using assms by (rule backoff_for_eq)

lemma policy_retries_bounded:
  assumes "policy_reaches since add cfg p" and "0 < pc_max_failures cfg"
    and "\<forall>e\<in>set es. fst e = EvDisconnected \<or> fst e = EvTick"
  shows "length (filter (\<lambda>a. a = ActConnect) (fst (policy_run since add p es))) < unat (pc_max_failures cfg)"
proof -
  have wf: "policy_wf p" and cfg: "sp_cfg p = cfg"
    using policy_reaches_wf[OF assms(1)] by auto
  have "tries_left p < unat (pc_max_failures cfg)"
    using wf cfg assms(2)
    by (cases "sp_phase p") (auto simp: tries_left_def policy_wf_def word_less_nat_alt)
  with policy_run_tries[OF wf assms(3), of since add] show ?thesis
    by simp
qed

lemma policy_falls_back:
  assumes "sp_phase p = Connecting \<or> sp_phase p = Connected"
    and "patient since add (sp_cfg p) rs" and "rs \<noteq> []"
    and "unat (pc_max_failures (sp_cfg p)) \<le> unat (sp_failures p) + length rs"
  shows "sp_phase (snd (policy_run since add p (fail_rounds rs))) = Fallback"
  using assms by (rule policy_run_falls_back)

lemma rssi_is_summary:
  assumes "xs \<noteq> []"
  shows "map_option sint (rssi_min (rssi_of xs)) = Some (Min (sint ` set xs)) \<and>
    map_option sint (rssi_max (rssi_of xs)) = Some (Max (sint ` set xs)) \<and>
    map_option sint (rssi_mean (rssi_of xs)) = Some (sum_list (counted xs) div int (length (counted xs))) \<and>
    Min (sint ` set xs) \<le> sum_list (counted xs) div int (length (counted xs)) \<and>
    sum_list (counted xs) div int (length (counted xs)) \<le> Max (sint ` set xs)"
proof -
  let ?n = "int (length (counted xs))" and ?S = "sum_list (counted xs)"
  let ?lo = "Min (sint ` set xs)" and ?hi = "Max (sint ` set xs)"
  have rel: "rssi_rel (rssi_of xs) xs"
    by (rule rssi_of_rel)
  have n: "0 < ?n"
    using assms by simp
  have nz: "rs_count (rssi_of xs) \<noteq> 0"
    using rel n by (auto simp: rssi_rel_def)
  have "\<forall>y\<in>set (counted xs). ?lo \<le> y \<and> y \<le> ?hi"
    by (auto simp: counted_def dest!: in_set_takeD)
  then have b: "?n * ?lo \<le> ?S" "?S \<le> ?n * ?hi"
    using sum_list_bounds by blast+
  have lo: "?lo \<le> ?S div ?n"
    using zdiv_mono1[OF b(1) n] n by simp
  have hi: "?S div ?n \<le> ?hi"
    using zdiv_mono1[OF b(2) n] n by simp
  have "?lo \<in> sint ` set xs" "?hi \<in> sint ` set xs"
    using assms by simp_all
  then have "- 128 \<le> ?lo" "?hi \<le> 127"
    using sint_i8 by auto
  then have r: "- 128 \<le> ?S div ?n" "?S div ?n \<le> 127"
    using lo hi by linarith+
  then have "sint (word_of_int (?S div ?n) :: i8) = ?S div ?n"
    by (simp add: sint_sbintrunc' signed_take_bit_int_eq_self)
  with rel assms nz lo hi r show ?thesis
    by (simp add: rssi_rel_def rssi_min_def rssi_max_def rssi_mean_def Let_def)
qed

end
