(* ===== verification/Lora.thy ===== *)
theory Lora
  imports Complex_Main Prelude
begin

text \<open>
  LoRa modem parameters, time on air, the regional duty-cycle budget and the discovery beacon
  (\<open>crates/rusty_esp_signal-core/src/lora.rs\<close>). \<open>u64\<close> quantities are 64-bit words; the \<open>i64\<close>
  arithmetic of the payload symbol count is on \<open>int\<close>, which is exact for every payload below
  \<open>2 ^ 59\<close> bytes. \<open>Micros::since\<close> is an argument of the duty-cycle operations.
\<close>

section \<open>Modem parameters\<close>

datatype sf = Sf7 | Sf8 | Sf9 | Sf10 | Sf11 | Sf12
datatype bw = Khz125 | Khz250 | Khz500
datatype cr = Cr4_5 | Cr4_6 | Cr4_7 | Cr4_8
datatype ldro = LdroAuto | LdroOn | LdroOff
datatype region = Eu868 | Us915 | Au915 | As923 | In865

definition sf_value :: "sf \<Rightarrow> u8" where
  "sf_value s = (case s of Sf7 \<Rightarrow> 7 | Sf8 \<Rightarrow> 8 | Sf9 \<Rightarrow> 9 | Sf10 \<Rightarrow> 10 | Sf11 \<Rightarrow> 11 | Sf12 \<Rightarrow> 12)"

definition chips_per_symbol :: "sf \<Rightarrow> u32" where
  "chips_per_symbol s = push_bit (unat (sf_value s)) 1"

definition sf_from_u8 :: "u8 \<Rightarrow> sf option" where
  "sf_from_u8 v =
     (if v = 7 then Some Sf7 else if v = 8 then Some Sf8 else if v = 9 then Some Sf9
      else if v = 10 then Some Sf10 else if v = 11 then Some Sf11 else if v = 12 then Some Sf12
      else None)"

text \<open>\<open>Sf\<close> derives \<open>Ord\<close>: the order of the variants.\<close>

instantiation sf :: linorder
begin

definition less_eq_sf :: "sf \<Rightarrow> sf \<Rightarrow> bool" where
  "less_eq_sf a b \<longleftrightarrow> sf_value a \<le> sf_value b"

definition less_sf :: "sf \<Rightarrow> sf \<Rightarrow> bool" where
  "less_sf a b \<longleftrightarrow> sf_value a < sf_value b"

instance
proof
  fix x y z :: sf
  have inj: "a = b" if "sf_value a = sf_value b" for a b
    using that by (cases a; cases b) (simp_all add: sf_value_def)
  show "(x < y) = (x \<le> y \<and> \<not> y \<le> x)"
    by (auto simp: less_eq_sf_def less_sf_def)
  show "x \<le> x"
    by (simp add: less_eq_sf_def)
  show "x \<le> y \<Longrightarrow> y \<le> z \<Longrightarrow> x \<le> z"
    by (simp add: less_eq_sf_def)
  show "x \<le> y \<Longrightarrow> y \<le> x \<Longrightarrow> x = y"
    using inj by (simp add: less_eq_sf_def)
  show "x \<le> y \<or> y \<le> x"
    by (auto simp: less_eq_sf_def)
qed

end

definition bw_hz :: "bw \<Rightarrow> u32" where
  "bw_hz b = (case b of Khz125 \<Rightarrow> 125000 | Khz250 \<Rightarrow> 250000 | Khz500 \<Rightarrow> 500000)"

definition cr_value :: "cr \<Rightarrow> u8" where
  "cr_value c = (case c of Cr4_5 \<Rightarrow> 1 | Cr4_6 \<Rightarrow> 2 | Cr4_7 \<Rightarrow> 3 | Cr4_8 \<Rightarrow> 4)"

definition cr_denominator :: "cr \<Rightarrow> u8" where
  "cr_denominator c = 4 + cr_value c"

definition LDRO_THRESHOLD_MICROS :: u64 where "LDRO_THRESHOLD_MICROS = 16380"

definition symbol_micros :: "sf \<Rightarrow> bw \<Rightarrow> u64" where
  "symbol_micros s b = push_bit (unat (sf_value s)) 1 * 1000000 div ucast (bw_hz b)"

definition ldro_resolve :: "ldro \<Rightarrow> sf \<Rightarrow> bw \<Rightarrow> bool" where
  "ldro_resolve l s b =
     (case l of LdroOn \<Rightarrow> True | LdroOff \<Rightarrow> False
      | LdroAuto \<Rightarrow> symbol_micros s b \<ge> LDRO_THRESHOLD_MICROS)"

section \<open>Regions\<close>

definition region_all :: "region list" where
  "region_all = [Eu868, Us915, Au915, As923, In865]"

definition region_name :: "region \<Rightarrow> string" where
  "region_name r = (case r of Eu868 \<Rightarrow> ''EU868'' | Us915 \<Rightarrow> ''US915'' | Au915 \<Rightarrow> ''AU915''
     | As923 \<Rightarrow> ''AS923'' | In865 \<Rightarrow> ''IN865'')"

definition freq_min_hz :: "region \<Rightarrow> u32" where
  "freq_min_hz r = (case r of Eu868 \<Rightarrow> 863000000 | Us915 \<Rightarrow> 902000000 | Au915 \<Rightarrow> 915000000
     | As923 \<Rightarrow> 923000000 | In865 \<Rightarrow> 865000000)"

definition freq_max_hz :: "region \<Rightarrow> u32" where
  "freq_max_hz r = (case r of Eu868 \<Rightarrow> 870000000 | Us915 \<Rightarrow> 928000000 | Au915 \<Rightarrow> 928000000
     | As923 \<Rightarrow> 925000000 | In865 \<Rightarrow> 867000000)"

definition contains_freq :: "region \<Rightarrow> u32 \<Rightarrow> bool" where
  "contains_freq r f \<longleftrightarrow> f \<ge> freq_min_hz r \<and> f \<le> freq_max_hz r"

definition max_power_dbm :: "region \<Rightarrow> i8" where
  "max_power_dbm r = (case r of Eu868 \<Rightarrow> 14 | Us915 \<Rightarrow> 30 | Au915 \<Rightarrow> 30 | As923 \<Rightarrow> 16 | In865 \<Rightarrow> 30)"

definition duty_cycle_permille :: "region \<Rightarrow> u16 option" where
  "duty_cycle_permille r = (case r of Eu868 \<Rightarrow> Some 10 | As923 \<Rightarrow> Some 10
     | Us915 \<Rightarrow> None | Au915 \<Rightarrow> None | In865 \<Rightarrow> None)"

definition dwell_max :: "region \<Rightarrow> micros option" where
  "dwell_max r = (case r of Us915 \<Rightarrow> Some 400000 | Au915 \<Rightarrow> Some 400000
     | Eu868 \<Rightarrow> None | As923 \<Rightarrow> None | In865 \<Rightarrow> None)"

definition default_freq_hz :: "region \<Rightarrow> u32" where
  "default_freq_hz r = (case r of Eu868 \<Rightarrow> 868100000 | Us915 \<Rightarrow> 903900000 | Au915 \<Rightarrow> 916800000
     | As923 \<Rightarrow> 923200000 | In865 \<Rightarrow> 865062500)"

section \<open>Params\<close>

definition MIN_PREAMBLE_SYMBOLS :: u16 where "MIN_PREAMBLE_SYMBOLS = 6"
definition MAX_PAYLOAD_LEN :: nat where "MAX_PAYLOAD_LEN = 255"

record params =
  p_sf :: sf
  p_bw :: bw
  p_cr :: cr
  p_freq_hz :: u32
  p_power_dbm :: i8
  p_preamble_symbols :: u16
  p_explicit_header :: bool
  p_crc :: bool
  p_ldro :: ldro

definition params_new :: "sf \<Rightarrow> bw \<Rightarrow> cr \<Rightarrow> u32 \<Rightarrow> i8 \<Rightarrow> params" where
  "params_new s b c f pw =
     \<lparr>p_sf = s, p_bw = b, p_cr = c, p_freq_hz = f, p_power_dbm = pw, p_preamble_symbols = 8,
      p_explicit_header = True, p_crc = True, p_ldro = LdroAuto\<rparr>"

definition default_for :: "region \<Rightarrow> params" where
  "default_for r = params_new Sf7 Khz125 Cr4_5 (default_freq_hz r) (max_power_dbm r)"

definition ldro_enabled :: "params \<Rightarrow> bool" where
  "ldro_enabled p = ldro_resolve (p_ldro p) (p_sf p) (p_bw p)"

definition preamble_micros :: "params \<Rightarrow> u64" where
  "preamble_micros p = (4 * ucast (p_preamble_symbols p) + 17) * symbol_micros (p_sf p) (p_bw p) div 4"

definition div_ceil :: "u64 \<Rightarrow> u64 \<Rightarrow> u64" where
  "div_ceil a b = (if a mod b > 0 then a div b + 1 else a div b)"

definition payload_symbols :: "params \<Rightarrow> nat \<Rightarrow> u64" where
  "payload_symbols p payload_len =
     (let sfv = uint (sf_value (p_sf p));
          pl = int payload_len;
          crc = (if p_crc p then 1 else 0);
          ih = (if p_explicit_header p then 0 else 1);
          de = (if ldro_enabled p then 1 else 0);
          numerator = 8 * pl - 4 * sfv + 28 + 16 * crc - 20 * ih;
          denominator = word_of_int (4 * (sfv - 2 * de)) :: u64;
          blocks = (if numerator \<le> 0 then 0 else div_ceil (word_of_int numerator) denominator)
      in 8 + blocks * (ucast (cr_value (p_cr p)) + 4))"

definition airtime_micros :: "params \<Rightarrow> nat \<Rightarrow> u64" where
  "airtime_micros p payload_len =
     preamble_micros p + payload_symbols p payload_len * symbol_micros (p_sf p) (p_bw p)"

definition validate :: "params \<Rightarrow> region \<Rightarrow> err + unit" where
  "validate p r =
     (if \<not> contains_freq r (p_freq_hz p) then Inl Unsupported
      else if sint (p_power_dbm p) > sint (max_power_dbm r) then Inl Unsupported
      else if p_preamble_symbols p < MIN_PREAMBLE_SYMBOLS then Inl Unsupported
      else case dwell_max r of
        Some dwell \<Rightarrow> if airtime_micros p 0 > dwell then Inl Unsupported else Inr ()
      | None \<Rightarrow> Inr ())"

subsection \<open>Exactness\<close>

lemma sf_value_bounds: "7 \<le> unat (sf_value s)" "unat (sf_value s) \<le> 12"
  by (cases s; simp add: sf_value_def)+

lemma unat_symbol_micros: "unat (symbol_micros s b) = 2 ^ unat (sf_value s) * 1000000 div unat (bw_hz b)"
  by (cases s; cases b) (simp_all add: symbol_micros_def sf_value_def bw_hz_def)

lemma symbol_micros_exact: "unat (symbol_micros s b) * unat (bw_hz b) = 2 ^ unat (sf_value s) * 1000000"
  by (cases s; cases b) (simp_all add: symbol_micros_def sf_value_def bw_hz_def)

lemma symbol_micros_bounds: "256 dvd unat (symbol_micros s b)" "unat (symbol_micros s b) \<le> 32768"
  by (cases s; cases b; simp add: symbol_micros_def sf_value_def bw_hz_def)+

lemma sf_round_trip: "sf_from_u8 (sf_value s) = Some s"
  by (cases s) (simp_all add: sf_from_u8_def sf_value_def)

lemma ceiling_nat_div:
  assumes "0 < b"
  shows "\<lceil>real a / real b\<rceil> = int (a div b + (if a mod b = 0 then 0 else 1))"
proof -
  have a: "real a = real (a div b) * real b + real (a mod b)"
    by (metis div_mult_mod_eq of_nat_add of_nat_mult)
  have m: "real (a mod b) < real b"
    using assms by simp
  have d: "real a / real b = real (a div b) + real (a mod b) / real b"
    using assms by (simp add: a add_divide_distrib)
  show ?thesis
  proof (cases "a mod b = 0")
    case True
    then show ?thesis
      using d by simp
  next
    case False
    then have "0 < real (a mod b) / real b" "real (a mod b) / real b < 1"
      using assms m by simp_all
    then show ?thesis
      using False unfolding d by (intro ceiling_unique) auto
  qed
qed

lemma unat_div_ceil:
  assumes "0 < b"
  shows "int (unat (div_ceil a b)) = \<lceil>real (unat a) / real (unat b)\<rceil>"
proof -
  have b: "0 < unat b"
    using assms by (simp add: word_less_nat_alt)
  have q: "unat (a div b) = unat a div unat b"
    by (rule unat_div)
  have one: "unat (a div b + 1) = unat a div unat b + 1" if "unat a mod unat b \<noteq> 0"
  proof -
    have "unat b \<noteq> 1"
      using that by auto
    then have "2 \<le> unat b"
      using b by linarith
    then have "unat a div unat b \<le> unat a div 2"
      by (simp add: div_le_mono2)
    then have "unat (a div b) + 1 < 2 ^ 64"
      using unat_less[of a] by (simp add: q)
    then show ?thesis
      by (simp add: unat_word_ariths(1) q)
  qed
  have pos: "0 < a mod b \<longleftrightarrow> unat a mod unat b \<noteq> 0"
    by (simp add: word_less_nat_alt unat_mod)
  have "unat (div_ceil a b) = unat a div unat b + (if unat a mod unat b = 0 then 0 else 1)"
    unfolding div_ceil_def pos using one q by presburger
  then show ?thesis
    unfolding ceiling_nat_div[OF b] by (simp only:)
qed

text \<open>Semtech's count of payload symbols, with a real-number ceiling.\<close>

definition bit_of :: "bool \<Rightarrow> int" where
  "bit_of b = (if b then 1 else 0)"

definition semtech_symbols :: "params \<Rightarrow> nat \<Rightarrow> int" where
  "semtech_symbols p pl =
     (let s = int (unat (sf_value (p_sf p)));
          num = 8 * int pl - 4 * s + 28 + 16 * bit_of (p_crc p) - 20 * (1 - bit_of (p_explicit_header p));
          den = 4 * (s - 2 * bit_of (ldro_enabled p))
      in 8 + max (\<lceil>real_of_int num / real_of_int den\<rceil> * (int (unat (cr_value (p_cr p))) + 4)) 0)"

lemma payload_symbols_semtech:
  assumes "pl \<le> 2 ^ 32"
  shows "int (unat (payload_symbols p pl)) = semtech_symbols p pl"
proof -
  define s where "s = int (unat (sf_value (p_sf p)))"
  define num where "num = 8 * int pl - 4 * s + 28 + 16 * bit_of (p_crc p) - 20 * (1 - bit_of (p_explicit_header p))"
  define den where "den = 4 * (s - 2 * bit_of (ldro_enabled p))"
  define k where "k = int (unat (cr_value (p_cr p))) + 4"
  have s: "7 \<le> s" "s \<le> 12"
    using sf_value_bounds[of "p_sf p"] unfolding s_def by linarith+
  have den: "20 \<le> den" "den \<le> 48"
    using s by (auto simp: den_def bit_of_def)
  have num: "num \<le> 2 ^ 36"
    using s assms by (auto simp: num_def bit_of_def)
  have k: "5 \<le> k" "k \<le> 8"
    by (cases "p_cr p"; simp add: k_def cr_value_def)+
  have k_word: "unat (ucast (cr_value (p_cr p)) + 4 :: u64) = nat k"
    by (cases "p_cr p") (simp_all add: k_def cr_value_def)
  define blocks where "blocks = (if num \<le> 0 then 0 else div_ceil (word_of_int num) (word_of_int den :: u64))"
  have b0: "(if b then 1 else 0) = bit_of b" "(if b then 0 else 1) = 1 - bit_of b" for b
    by (simp_all add: bit_of_def)
  have su: "uint (sf_value (p_sf p)) = s"
    by (simp add: s_def)
  have ps: "payload_symbols p pl = 8 + blocks * (ucast (cr_value (p_cr p)) + 4)"
    unfolding payload_symbols_def Let_def su b0 num_def[symmetric] den_def[symmetric] blocks_def[symmetric] ..
  have un: "unat (word_of_int num :: u64) = nat num" if "0 < num"
    using that num by (simp add: unsigned_of_int take_bit_int_eq_self nat_take_bit_eq)
  have ud: "unat (word_of_int den :: u64) = nat den"
    using den by (simp add: unsigned_of_int take_bit_int_eq_self nat_take_bit_eq)
  have bl: "int (unat blocks) = max \<lceil>real_of_int num / real_of_int den\<rceil> 0"
  proof (cases "num \<le> 0")
    case True
    then have "real_of_int num / real_of_int den \<le> 0"
      using den by (simp add: divide_nonpos_pos)
    with True show ?thesis
      by (simp add: blocks_def ceiling_le_zero)
  next
    case False
    have "0 < (word_of_int den :: u64)"
      using ud den by (simp add: word_less_nat_alt)
    from unat_div_ceil[OF this, of "word_of_int num"]
    have "int (unat blocks) = \<lceil>real_of_int num / real_of_int den\<rceil>"
      using False un ud den by (simp only: blocks_def if_False) simp
    then show ?thesis
      by (metis max.absorb1 of_nat_0_le_iff)
  qed
  have "\<lceil>real_of_int num / real_of_int den\<rceil> \<le> 2 ^ 36"
  proof -
    have "real_of_int num / real_of_int den \<le> 2 ^ 36"
    proof (cases "0 < num")
      case True
      then have "real_of_int num / real_of_int den \<le> real_of_int num / 1"
        using den by (intro divide_left_mono) auto
      also have "\<dots> \<le> 2 ^ 36"
        using num by (simp flip: of_int_le_numeral_iff)
      finally show ?thesis .
    next
      case False
      then have "real_of_int num / real_of_int den \<le> 0"
        using den by (simp add: divide_nonpos_pos)
      then show ?thesis by simp
    qed
    then show ?thesis
      by (simp add: ceiling_le_iff)
  qed
  then have "int (unat blocks) \<le> 2 ^ 36"
    unfolding bl by (simp only: max_def) simp
  then have "int (unat blocks) \<le> int (2 ^ 36)"
    by (simp only: of_nat_power of_nat_numeral)
  then have "unat blocks \<le> 2 ^ 36"
    by (simp only: of_nat_le_iff)
  then have "unat blocks * nat k \<le> 2 ^ 36 * 8"
    using k by (intro mult_le_mono) auto
  then have "unat (payload_symbols p pl) = 8 + unat blocks * nat k"
    unfolding ps using k_word by (simp add: unat_word_ariths)
  then have "int (unat (payload_symbols p pl)) = 8 + int (unat blocks) * k"
    using k by (simp only: of_nat_add of_nat_mult) simp
  then have "int (unat (payload_symbols p pl)) = 8 + max \<lceil>real_of_int num / real_of_int den\<rceil> 0 * k"
    unfolding bl .
  also have "\<dots> = 8 + max (\<lceil>real_of_int num / real_of_int den\<rceil> * k) 0"
    using k by (auto simp: max_def mult_le_0_iff zero_le_mult_iff)
  finally show ?thesis
    by (simp add: semtech_symbols_def Let_def s_def num_def den_def k_def)
qed

section \<open>The duty-cycle budget\<close>

definition DUTY_WINDOW_MICROS :: u64 where "DUTY_WINDOW_MICROS = 3600000000"
definition DUTY_RING_LEN :: nat where "DUTY_RING_LEN = 32"

record slot =
  sl_at :: micros
  sl_airtime :: u64

record duty_cycle =
  dc_region :: region
  dc_slots :: "slot list"
  dc_head :: nat
  dc_len :: nat

definition duty_new :: "region \<Rightarrow> duty_cycle" where
  "duty_new r = \<lparr>dc_region = r, dc_slots = replicate DUTY_RING_LEN \<lparr>sl_at = 0, sl_airtime = 0\<rparr>,
     dc_head = 0, dc_len = 0\<rparr>"

definition budget_micros :: "region \<Rightarrow> u64 option" where
  "budget_micros r = (case duty_cycle_permille r of
     Some permille \<Rightarrow> Some (DUTY_WINDOW_MICROS div 1000 * ucast permille) | None \<Rightarrow> None)"

definition slot_get :: "duty_cycle \<Rightarrow> nat \<Rightarrow> slot option" where
  "slot_get d i = (if i < length (dc_slots d) then Some (dc_slots d ! i) else None)"

definition used_micros :: "(micros \<Rightarrow> micros \<Rightarrow> u64) \<Rightarrow> duty_cycle \<Rightarrow> micros \<Rightarrow> u64" where
  "used_micros since d now =
     foldl (\<lambda>sum i. case slot_get d ((dc_head d + i) mod DUTY_RING_LEN) of
         Some sl \<Rightarrow> if since now (sl_at sl) < DUTY_WINDOW_MICROS then sat_add sum (sl_airtime sl) else sum
       | None \<Rightarrow> sum) 0 [0..<dc_len d]"

definition used_permille :: "(micros \<Rightarrow> micros \<Rightarrow> u64) \<Rightarrow> duty_cycle \<Rightarrow> micros \<Rightarrow> u16" where
  "used_permille since d now = ucast (min (used_micros since d now div (DUTY_WINDOW_MICROS div 1000)) 1000)"

function expire :: "(micros \<Rightarrow> micros \<Rightarrow> u64) \<Rightarrow> duty_cycle \<Rightarrow> micros \<Rightarrow> duty_cycle" where
  "expire since d now =
     (if dc_len d > 0 then
        (case slot_get d (dc_head d) of
           Some sl \<Rightarrow>
             if since now (sl_at sl) \<ge> DUTY_WINDOW_MICROS
             then expire since (d\<lparr>dc_head := (dc_head d + 1) mod DUTY_RING_LEN, dc_len := dc_len d - 1\<rparr>) now
             else d
         | None \<Rightarrow> d)
      else d)"
  by pat_completeness auto
termination by (relation "measure (\<lambda>(_, d, _). dc_len d)") auto

declare expire.simps [simp del]

definition push_slot :: "duty_cycle \<Rightarrow> micros \<Rightarrow> u64 \<Rightarrow> duty_cycle" where
  "push_slot d atm airtime =
     (let d1 =
        (if dc_len d = DUTY_RING_LEN then
           let next = (dc_head d + 1) mod DUTY_RING_LEN;
               carry = (case slot_get d (dc_head d) of None \<Rightarrow> 0 | Some s \<Rightarrow> sl_airtime s);
               slots = (case slot_get d next of
                   Some s \<Rightarrow> (dc_slots d)[next := s\<lparr>sl_airtime := sat_add (sl_airtime s) carry\<rparr>]
                 | None \<Rightarrow> dc_slots d)
           in d\<lparr>dc_slots := slots, dc_head := next, dc_len := dc_len d - 1\<rparr>
         else d);
          tail = (dc_head d1 + dc_len d1) mod DUTY_RING_LEN
      in if tail < length (dc_slots d1)
         then d1\<lparr>dc_slots := (dc_slots d1)[tail := \<lparr>sl_at = atm, sl_airtime = airtime\<rparr>],
                 dc_len := dc_len d1 + 1\<rparr>
         else d1)"

definition try_send ::
  "(micros \<Rightarrow> micros \<Rightarrow> u64) \<Rightarrow> duty_cycle \<Rightarrow> micros \<Rightarrow> micros \<Rightarrow> (err + unit) \<times> duty_cycle" where
  "try_send since d now airtime =
     (if (case dwell_max (dc_region d) of Some dwell \<Rightarrow> airtime > dwell | None \<Rightarrow> False)
      then (Inl Unsupported, d)
      else
        let d1 = expire since d now in
        if (case budget_micros (dc_region d1) of
              Some budget \<Rightarrow> sat_add (used_micros since d1 now) airtime > budget | None \<Rightarrow> False)
        then (Inl Busy, d1)
        else (Inr (), push_slot d1 now airtime))"

subsection \<open>The ring as a list\<close>

definition duty_wf :: "duty_cycle \<Rightarrow> bool" where
  "duty_wf d \<longleftrightarrow> length (dc_slots d) = DUTY_RING_LEN \<and> dc_head d < DUTY_RING_LEN \<and> dc_len d \<le> DUTY_RING_LEN"

definition entries :: "duty_cycle \<Rightarrow> slot list" where
  "entries d = map (\<lambda>i. dc_slots d ! ((dc_head d + i) mod DUTY_RING_LEN)) [0..<dc_len d]"

lemma length_entries [simp]: "length (entries d) = dc_len d"
  by (simp add: entries_def)

lemma duty_wf_new [simp]: "duty_wf (duty_new r)" "entries (duty_new r) = []"
  by (simp_all add: duty_wf_def duty_new_def entries_def DUTY_RING_LEN_def)

lemma slot_get_wf: "duty_wf d \<Longrightarrow> slot_get d (i mod DUTY_RING_LEN) = Some (dc_slots d ! (i mod DUTY_RING_LEN))"
  by (simp add: slot_get_def duty_wf_def DUTY_RING_LEN_def)

lemma used_micros_entries:
  assumes "duty_wf d"
  shows "used_micros since d now =
    foldl (\<lambda>sum sl. if since now (sl_at sl) < DUTY_WINDOW_MICROS then sat_add sum (sl_airtime sl) else sum)
      0 (entries d)"
  by (simp add: used_micros_def entries_def slot_get_wf[OF assms] foldl_map)

lemma entries_Cons:
  assumes "dc_len d > 0" and "duty_wf d"
  shows "entries d = dc_slots d ! dc_head d #
    entries (d\<lparr>dc_head := (dc_head d + 1) mod DUTY_RING_LEN, dc_len := dc_len d - 1\<rparr>)"
proof -
  obtain n where n: "dc_len d = Suc n"
    using assms(1) gr0_conv_Suc by blast
  have "[0..<Suc n] = 0 # map Suc [0..<n]"
    by (simp add: upt_conv_Cons map_Suc_upt del: upt_Suc)
  then show ?thesis
    using assms(2) by (simp add: entries_def n duty_wf_def mod_add_left_eq del: upt_Suc)
qed

definition stale where
  "stale since now sl \<longleftrightarrow> since now (sl_at sl) \<ge> (DUTY_WINDOW_MICROS :: u64)"

lemma expire_entries:
  "duty_wf d \<Longrightarrow> entries (expire since d now) = dropWhile (stale since now) (entries d) \<and>
    duty_wf (expire since d now) \<and> dc_region (expire since d now) = dc_region d"
proof (induction since d now rule: expire.induct)
  case (1 since d now)
  let ?d' = "d\<lparr>dc_head := (dc_head d + 1) mod DUTY_RING_LEN, dc_len := dc_len d - 1\<rparr>"
  show ?case
  proof (cases "dc_len d > 0")
    case False
    then show ?thesis
      using 1(2) by (simp add: expire.simps[of since d now] entries_def)
  next
    case True
    have g: "slot_get d (dc_head d) = Some (dc_slots d ! dc_head d)"
      using 1(2) by (simp add: slot_get_def duty_wf_def)
    have wf': "duty_wf ?d'"
      using 1(2) by (auto simp: duty_wf_def DUTY_RING_LEN_def)
    note ec = entries_Cons[OF True 1(2)]
    show ?thesis
    proof (cases "since now (sl_at (dc_slots d ! dc_head d)) \<ge> DUTY_WINDOW_MICROS")
      case st: True
      have "expire since d now = expire since ?d' now"
        using True st g by (simp add: expire.simps[of since d now])
      then show ?thesis
        using 1(1)[OF True g st wf'] ec st by (simp add: stale_def)
    next
      case st: False
      have "expire since d now = d"
        using True st g by (simp add: expire.simps[of since d now])
      then show ?thesis
        using ec st 1(2) by (simp add: stale_def)
    qed
  qed
qed

text \<open>What \<open>push\<close> does to the list: the oldest entry of a full ring is merged into its neighbour.\<close>

fun push_list :: "slot list \<Rightarrow> slot \<Rightarrow> slot list" where
  "push_list (a # b # es) e =
     (if length es + 2 = DUTY_RING_LEN
      then (b\<lparr>sl_airtime := sat_add (sl_airtime b) (sl_airtime a)\<rparr>) # es @ [e] else a # b # es @ [e])"
| "push_list es e = es @ [e]"

lemma push_list_not_full: "length es < DUTY_RING_LEN \<Longrightarrow> push_list es e = es @ [e]"
  by (cases "(es, e)" rule: push_list.cases) auto

lemma ring_index_inj:
  assumes "i < k" and "k < 32" and "(h + i) mod 32 = (h + k) mod (32::nat)"
  shows False
proof -
  have "32 dvd (h + k) - (h + i)"
    using assms by (subst mod_eq_dvd_iff_nat[symmetric]) auto
  then show False
    using assms(1,2) by (auto dest: dvd_imp_le)
qed

lemma entries_snoc:
  assumes "duty_wf d" and "dc_len d < DUTY_RING_LEN"
  shows "entries (d\<lparr>dc_slots := (dc_slots d)[(dc_head d + dc_len d) mod DUTY_RING_LEN := e],
      dc_len := dc_len d + 1\<rparr>) = entries d @ [e]"
proof -
  have "(dc_head d + dc_len d) mod 32 \<noteq> (dc_head d + i) mod 32" if "i < dc_len d" for i
    using ring_index_inj[OF that, of "dc_head d"] assms(2) by (auto simp: DUTY_RING_LEN_def)
  then show ?thesis
    using assms by (auto simp: entries_def duty_wf_def DUTY_RING_LEN_def)
qed

lemma entries_merge:
  assumes "duty_wf d" and "dc_len d = Suc n"
  shows "entries (d\<lparr>dc_slots := (dc_slots d)[dc_head d := e]\<rparr>) = e # tl (entries d)"
proof -
  have h: "dc_head d mod 32 = dc_head d" "n < 32" "length (dc_slots d) = 32" "dc_head d < 32"
    using assms by (auto simp: duty_wf_def DUTY_RING_LEN_def)
  have "dc_head d \<noteq> (dc_head d + Suc i) mod 32" if "i < n" for i
    using ring_index_inj[of 0 "Suc i" "dc_head d"] that h by auto
  moreover have "[0..<Suc n] = 0 # map Suc [0..<n]"
    by (simp add: upt_conv_Cons map_Suc_upt del: upt_Suc)
  ultimately show ?thesis
    using h by (auto simp: entries_def assms(2) DUTY_RING_LEN_def simp del: upt_Suc)
qed

lemma push_slot_entries:
  assumes "duty_wf d"
  shows "entries (push_slot d t air) = push_list (entries d) \<lparr>sl_at = t, sl_airtime = air\<rparr> \<and>
    duty_wf (push_slot d t air) \<and> dc_region (push_slot d t air) = dc_region d"
proof -
  let ?e = "\<lparr>sl_at = t, sl_airtime = air\<rparr>"
  have wf_len: "length (dc_slots d) = DUTY_RING_LEN"
    using assms by (simp add: duty_wf_def)
  show ?thesis
  proof (cases "dc_len d = DUTY_RING_LEN")
    case False
    then have l: "dc_len d < DUTY_RING_LEN"
      using assms by (simp add: duty_wf_def)
    have "push_slot d t air = d\<lparr>dc_slots := (dc_slots d)[(dc_head d + dc_len d) mod DUTY_RING_LEN := ?e],
        dc_len := dc_len d + 1\<rparr>"
      using False wf_len by (simp add: push_slot_def Let_def DUTY_RING_LEN_def)
    then show ?thesis
      using entries_snoc[OF assms l, of ?e] push_list_not_full[of "entries d" ?e] assms l
      by (simp add: duty_wf_def)
  next
    case True
    let ?next = "(dc_head d + 1) mod DUTY_RING_LEN"
    let ?a = "dc_slots d ! dc_head d" and ?b = "dc_slots d ! ?next"
    let ?b' = "?b\<lparr>sl_airtime := sat_add (sl_airtime ?b) (sl_airtime ?a)\<rparr>"
    define d1 where "d1 = d\<lparr>dc_head := ?next, dc_len := dc_len d - 1\<rparr>"
    define d2 where "d2 = d1\<lparr>dc_slots := (dc_slots d1)[dc_head d1 := ?b']\<rparr>"
    have wf1: "duty_wf d1" and len1: "dc_len d1 = Suc 30"
      using assms True by (simp_all add: d1_def duty_wf_def DUTY_RING_LEN_def)
    have wf2: "duty_wf d2" "dc_len d2 < DUTY_RING_LEN"
      using wf1 len1 by (simp_all add: d2_def duty_wf_def DUTY_RING_LEN_def)
    have e0: "entries d = ?a # entries d1"
      using entries_Cons[of d] assms True by (simp add: d1_def DUTY_RING_LEN_def)
    have e1: "entries d1 = ?b # tl (entries d1)"
      using entries_Cons[of d1] wf1 len1 by (simp add: d1_def)
    have e2: "entries d2 = ?b' # tl (entries d1)"
      using entries_merge[OF wf1 len1] by (simp add: d2_def)
    have "push_slot d t air = d2\<lparr>dc_slots := (dc_slots d2)[(dc_head d2 + dc_len d2) mod DUTY_RING_LEN := ?e],
        dc_len := dc_len d2 + 1\<rparr>"
      using True assms
      by (simp add: push_slot_def Let_def d1_def d2_def slot_get_def duty_wf_def DUTY_RING_LEN_def)
    then have "entries (push_slot d t air) = entries d2 @ [?e]" and wf': "duty_wf (push_slot d t air)"
        "dc_region (push_slot d t air) = dc_region d"
      using entries_snoc[OF wf2, of ?e] wf2 by (simp_all add: duty_wf_def d2_def d1_def)
    then have "entries (push_slot d t air) = ?b' # tl (entries d1) @ [?e]"
      by (simp only: e2) simp
    moreover have "length (tl (entries d1)) + 2 = DUTY_RING_LEN"
      by (simp add: len1 DUTY_RING_LEN_def)
    then have "push_list (entries d) ?e = ?b' # tl (entries d1) @ [?e]"
      unfolding e0 by (subst e1) simp
    ultimately show ?thesis
      using wf' by simp
  qed
qed

subsection \<open>The log of what was sent\<close>

text \<open>Every transmission the budget let through, in order, for a list of requests
  \<open>(now, airtime)\<close>; and the airtime of those that started in the hour from \<open>T\<close>.\<close>

fun sends where
  "sends since d [] = []"
| "sends since d ((now, air) # rs) =
     (case try_send since d now air of
        (Inl _, d') \<Rightarrow> sends since d' rs
      | (Inr _, d') \<Rightarrow> (now, air) # sends since d' rs)"

definition air_from :: "nat \<Rightarrow> (micros \<times> u64) list \<Rightarrow> nat" where
  "air_from T lg = sum_list (map (unat \<circ> snd) (filter (\<lambda>e. T \<le> unat (fst e)) lg))"

definition air_in :: "nat \<Rightarrow> nat \<Rightarrow> (micros \<times> u64) list \<Rightarrow> nat" where
  "air_in T T' lg = sum_list (map (unat \<circ> snd) (filter (\<lambda>e. T \<le> unat (fst e) \<and> unat (fst e) < T') lg))"

definition pair_of :: "slot \<Rightarrow> micros \<times> u64" where
  "pair_of sl = (sl_at sl, sl_airtime sl)"

definition ring_air :: "slot list \<Rightarrow> nat" where
  "ring_air es = sum_list (map (unat \<circ> sl_airtime) es)"

definition WIN :: nat where "WIN = 3600000000"

lemma DUTY_WINDOW_unat [simp]: "unat DUTY_WINDOW_MICROS = WIN"
  by (simp add: DUTY_WINDOW_MICROS_def WIN_def)

lemma air_from_append [simp]: "air_from T (xs @ ys) = air_from T xs + air_from T ys"
  by (simp add: air_from_def)

lemma air_from_Cons [simp]: "air_from T (x # xs) = (if T \<le> unat (fst x) then unat (snd x) else 0) + air_from T xs"
  by (simp add: air_from_def)

lemma air_from_Nil [simp]: "air_from T [] = 0"
  by (simp add: air_from_def)

lemma air_in_append [simp]: "air_in T T' (xs @ ys) = air_in T T' xs + air_in T T' ys"
  by (simp add: air_in_def)

lemma air_in_le_from: "air_in T T' xs \<le> air_from T xs"
  by (induction xs) (auto simp: air_in_def air_from_def)

lemma air_from_le_ring: "air_from T (map pair_of es) \<le> ring_air es"
  by (induction es) (auto simp: ring_air_def pair_of_def)

text \<open>The invariant: the ring is ordered, holds nothing later than \<open>now\<close>, holds at most the budget,
  and counts at least what the log says for every window that has not closed.\<close>

definition ordered_upto :: "nat \<Rightarrow> slot list \<Rightarrow> bool" where
  "ordered_upto now es \<longleftrightarrow> sorted (map (unat \<circ> sl_at) es) \<and> (\<forall>e\<in>set es. unat (sl_at e) \<le> now)"

definition over_counts :: "nat \<Rightarrow> slot list \<Rightarrow> (micros \<times> u64) list \<Rightarrow> bool" where
  "over_counts now es lg \<longleftrightarrow> (\<forall>T. now < T + WIN \<longrightarrow> air_from T lg \<le> air_from T (map pair_of es))"

definition duty_inv :: "nat \<Rightarrow> duty_cycle \<Rightarrow> nat \<Rightarrow> (micros \<times> u64) list \<Rightarrow> bool" where
  "duty_inv b d now lg \<longleftrightarrow>
     duty_wf d \<and> ordered_upto now (entries d) \<and> ring_air (entries d) \<le> b \<and>
     over_counts now (entries d) lg \<and> (\<forall>e\<in>set lg. unat (fst e) \<le> now)"

lemma ordered_later: "ordered_upto now es \<Longrightarrow> now \<le> now' \<Longrightarrow> ordered_upto now' es"
  by (auto simp: ordered_upto_def)

lemma over_counts_later: "over_counts now es lg \<Longrightarrow> now \<le> now' \<Longrightarrow> over_counts now' es lg"
  by (auto simp: over_counts_def)

lemma stale_iff:
  assumes "saturating_since since" and "unat (sl_at e) \<le> unat now"
  shows "stale since now e \<longleftrightarrow> unat (sl_at e) + WIN \<le> unat now"
proof -
  have "unat (since now (sl_at e)) = unat now - unat (sl_at e)"
    using assms(1) by (simp add: saturating_since_def)
  then show ?thesis
    using assms(2) by (auto simp: stale_def word_le_nat_alt)
qed

lemma expire_list:
  assumes "saturating_since since" and "ordered_upto (unat now) es"
  shows "ordered_upto (unat now) (dropWhile (stale since now) es)"
    and "ring_air (dropWhile (stale since now) es) \<le> ring_air es"
    and "over_counts (unat now) es lg \<Longrightarrow> over_counts (unat now) (dropWhile (stale since now) es) lg"
    and "\<forall>e\<in>set (dropWhile (stale since now) es). since now (sl_at e) < DUTY_WINDOW_MICROS"
proof -
  have "ordered_upto (unat now) (dropWhile (stale since now) es) \<and>
      ring_air (dropWhile (stale since now) es) \<le> ring_air es \<and>
      (\<forall>T. unat now < T + WIN \<longrightarrow>
        air_from T (map pair_of (dropWhile (stale since now) es)) = air_from T (map pair_of es)) \<and>
      (\<forall>e\<in>set (dropWhile (stale since now) es). \<not> stale since now e)"
    using assms(2)
  proof (induction es)
    case Nil
    then show ?case by (simp add: ordered_upto_def)
  next
    case (Cons e es)
    have le: "unat (sl_at e) \<le> unat now" and le': "\<forall>x\<in>set es. unat (sl_at x) \<le> unat now"
      and o: "ordered_upto (unat now) es" and mono: "\<forall>x\<in>set es. unat (sl_at e) \<le> unat (sl_at x)"
      using Cons.prems by (auto simp: ordered_upto_def)
    show ?case
    proof (cases "stale since now e")
      case True
      have old: "unat (sl_at e) + WIN \<le> unat now"
        using True stale_iff[OF assms(1) le] by blast
      have air: "\<forall>T. unat now < T + WIN \<longrightarrow> air_from T (map pair_of (e # es)) = air_from T (map pair_of es)"
        using old by (simp add: pair_of_def)
      have ring: "ring_air es \<le> ring_air (e # es)"
        by (simp add: ring_air_def)
      have dw: "dropWhile (stale since now) (e # es) = dropWhile (stale since now) es"
        using True by simp
      note ih = Cons.IH[OF o]
      have "ring_air (dropWhile (stale since now) es) \<le> ring_air (e # es)"
        using ih ring le_trans by blast
      moreover have "\<forall>T. unat now < T + WIN \<longrightarrow>
          air_from T (map pair_of (dropWhile (stale since now) es)) = air_from T (map pair_of (e # es))"
        using ih air by metis
      ultimately show ?thesis
        unfolding dw using ih by blast
    next
      case False
      moreover have "\<forall>x\<in>set es. \<not> stale since now x"
      proof
        fix x
        assume "x \<in> set es"
        then have m: "unat (sl_at e) \<le> unat (sl_at x)" and x: "unat (sl_at x) \<le> unat now"
          using mono le' by auto
        show "\<not> stale since now x"
          using False m unfolding stale_iff[OF assms(1) le] stale_iff[OF assms(1) x] by linarith
      qed
      moreover have "dropWhile (stale since now) (e # es) = e # es"
        using False by simp
      ultimately show ?thesis
        using Cons.prems False by (metis order_refl set_ConsD)
    qed
  qed
  note main = this
  show "ordered_upto (unat now) (dropWhile (stale since now) es)"
    and "ring_air (dropWhile (stale since now) es) \<le> ring_air es"
    using main by blast+
  show "over_counts (unat now) (dropWhile (stale since now) es) lg" if "over_counts (unat now) es lg"
    using main that unfolding over_counts_def by metis
  show "\<forall>e\<in>set (dropWhile (stale since now) es). since now (sl_at e) < DUTY_WINDOW_MICROS"
    using main unfolding stale_def not_le by blast
qed

lemma used_fresh:
  assumes "\<forall>e\<in>set es. since now (sl_at e) < DUTY_WINDOW_MICROS" and "unat s + ring_air es < 2 ^ 64"
  shows "unat (foldl (\<lambda>sum sl. if since now (sl_at sl) < DUTY_WINDOW_MICROS then sat_add sum (sl_airtime sl) else sum)
      s es) = unat s + ring_air es"
  using assms
proof (induction es arbitrary: s)
  case Nil
  then show ?case by (simp add: ring_air_def)
next
  case (Cons e es)
  have "unat (sat_add s (sl_airtime e)) = unat s + unat (sl_airtime e)"
    using Cons.prems by (simp add: sat_simps ring_air_def)
  with Cons show ?case
    by (simp add: ring_air_def)
qed

lemma push_list_props:
  assumes "ordered_upto now es" and "ring_air es + unat (sl_airtime e) < 2 ^ 64" and "unat (sl_at e) = now"
  shows "ordered_upto now (push_list es e)" and "ring_air (push_list es e) = ring_air es + unat (sl_airtime e)"
    and "air_from T (map pair_of es) + air_from T [pair_of e] \<le> air_from T (map pair_of (push_list es e))"
proof -
  have snoc: "ordered_upto now (xs @ [e])" if "ordered_upto now xs" for xs
    using that assms(3) by (auto simp: ordered_upto_def sorted_append)
  have "ordered_upto now (push_list es e) \<and> ring_air (push_list es e) = ring_air es + unat (sl_airtime e) \<and>
    air_from T (map pair_of es) + air_from T [pair_of e] \<le> air_from T (map pair_of (push_list es e))"
  proof (cases "(es, e)" rule: push_list.cases)
    case (1 a b r)
    let ?b = "b\<lparr>sl_airtime := sat_add (sl_airtime b) (sl_airtime a)\<rparr>"
    show ?thesis
    proof (cases "length r + 2 = DUTY_RING_LEN")
      case True
      have m: "unat (sat_add (sl_airtime b) (sl_airtime a)) = unat (sl_airtime b) + unat (sl_airtime a)"
        using assms(2) 1 by (simp add: sat_simps ring_air_def)
      have "ordered_upto now (?b # r)"
        using assms(1) 1 by (auto simp: ordered_upto_def)
      then have "ordered_upto now ((?b # r) @ [e])"
        by (rule snoc)
      moreover have "unat (sl_at a) \<le> unat (sl_at b)"
        using assms(1) 1 by (simp add: ordered_upto_def)
      ultimately show ?thesis
        using 1 True m by (simp add: ring_air_def pair_of_def)
    next
      case False
      then show ?thesis
        using 1 snoc[OF assms(1)] by (simp add: ring_air_def)
    qed
  qed (use snoc[OF assms(1)] in \<open>simp_all add: ring_air_def\<close>)
  then show "ordered_upto now (push_list es e)" "ring_air (push_list es e) = ring_air es + unat (sl_airtime e)"
    "air_from T (map pair_of es) + air_from T [pair_of e] \<le> air_from T (map pair_of (push_list es e))"
    by blast+
qed

lemma budget_dwell: "budget_micros r = Some b \<Longrightarrow> dwell_max r = None \<and> unat b < 2 ^ 63"
  by (cases r) (auto simp: budget_micros_def duty_cycle_permille_def dwell_max_def DUTY_WINDOW_MICROS_def)

lemma try_send_step:
  assumes "saturating_since since" and "budget_micros (dc_region d) = Some b"
    and "duty_inv (unat b) d t0 lg" and "t0 \<le> unat now" and "try_send since d now air = (r, d')"
  shows "dc_region d' = dc_region d"
    and "duty_inv (unat b) d' (unat now) (if is_ok r then lg @ [(now, air)] else lg)"
    and "is_ok r \<Longrightarrow> unat now < T + WIN \<Longrightarrow> air_from T (lg @ [(now, air)]) \<le> unat b"
proof -
  let ?d1 = "expire since d now" and ?e = "\<lparr>sl_at = now, sl_airtime = air\<rparr>"
  have wf: "duty_wf d" and inv: "ordered_upto (unat now) (entries d)" "ring_air (entries d) \<le> unat b"
      "over_counts (unat now) (entries d) lg" "\<forall>e\<in>set lg. unat (fst e) \<le> unat now"
    using assms(3,4) ordered_later over_counts_later by (fastforce simp: duty_inv_def)+
  have ex: "entries ?d1 = dropWhile (stale since now) (entries d)" "duty_wf ?d1" "dc_region ?d1 = dc_region d"
    using expire_entries[OF wf, of since now] by auto
  note el = expire_list[OF assms(1) inv(1)]
  have inv1: "duty_inv (unat b) ?d1 (unat now) lg"
    using el(1,2) el(3)[OF inv(3)] inv(2,4) ex by (simp add: duty_inv_def)
  have b: "dwell_max (dc_region d) = None" "unat b < 2 ^ 63"
    using budget_dwell[OF assms(2)] by auto
  have used: "unat (used_micros since ?d1 now) = ring_air (entries ?d1)"
    using used_fresh[of "entries ?d1" since now 0] el(4) ex inv1 b
    by (simp add: used_micros_entries[OF ex(2)] duty_inv_def)
  consider (busy) "r = Inl Busy" "d' = ?d1"
    | (sent) "r = Inr ()" "d' = push_slot ?d1 now air" "ring_air (entries ?d1) + unat air \<le> unat b"
  proof -
    have "unat (sat_add (used_micros since ?d1 now) air) \<le> unat b \<Longrightarrow> ring_air (entries ?d1) + unat air \<le> unat b"
      using b(2) by (simp add: sat_simps used min_def split: if_splits)
    then show ?thesis
      using assms(2,5) b(1) ex(3) that
      by (auto simp: try_send_def Let_def word_less_nat_alt not_less split: if_splits)
  qed
  then have "dc_region d' = dc_region d \<and>
    duty_inv (unat b) d' (unat now) (if is_ok r then lg @ [(now, air)] else lg) \<and>
    (is_ok r \<longrightarrow> unat now < T + WIN \<longrightarrow> air_from T (lg @ [(now, air)]) \<le> unat b)"
  proof cases
    case busy
    then show ?thesis
      using inv1 ex by simp
  next
    case sent
    have lt: "ring_air (entries ?d1) + unat (sl_airtime ?e) < 2 ^ 64"
      using sent(3) b(2) by simp
    have o1: "ordered_upto (unat now) (entries ?d1)" and oc1: "over_counts (unat now) (entries ?d1) lg"
      using inv1 by (simp_all add: duty_inv_def)
    note ps = push_slot_entries[OF ex(2), of now air]
    have at_now: "unat (sl_at ?e) = unat now"
      by simp
    note pl = push_list_props[OF o1 lt at_now]
    have oc: "over_counts (unat now) (push_list (entries ?d1) ?e) (lg @ [(now, air)])"
      unfolding over_counts_def
    proof (intro allI impI)
      fix T
      assume "unat now < T + WIN"
      with oc1 have "air_from T lg \<le> air_from T (map pair_of (entries ?d1))"
        by (simp add: over_counts_def)
      then show "air_from T (lg @ [(now, air)]) \<le> air_from T (map pair_of (push_list (entries ?d1) ?e))"
        using pl(3)[of T] unfolding pair_of_def by auto
    qed
    have tot: "ring_air (push_list (entries ?d1) ?e) \<le> unat b"
      using pl(2) sent(3) by simp
    have "duty_inv (unat b) d' (unat now) (lg @ [(now, air)])"
      using ps pl(1) tot oc inv(4) sent(2) by (auto simp: duty_inv_def)
    moreover have "air_from T (lg @ [(now, air)]) \<le> unat b" if "unat now < T + WIN"
      using oc that air_from_le_ring[of T "push_list (entries ?d1) ?e"] tot
      unfolding over_counts_def by (meson le_trans)
    ultimately show ?thesis
      using sent ps ex by simp
  qed
  then show "dc_region d' = dc_region d"
    "duty_inv (unat b) d' (unat now) (if is_ok r then lg @ [(now, air)] else lg)"
    "is_ok r \<Longrightarrow> unat now < T + WIN \<Longrightarrow> air_from T (lg @ [(now, air)]) \<le> unat b"
    by blast+
qed

lemma sends_within:
  assumes "saturating_since since" and "budget_micros (dc_region d) = Some b"
    and "duty_inv (unat b) d t0 lg" and "sorted (t0 # map (unat \<circ> fst) rs)"
    and "air_in T (T + WIN) lg \<le> unat b"
  shows "air_in T (T + WIN) (lg @ sends since d rs) \<le> unat b"
  using assms(2-5)
proof (induction rs arbitrary: d t0 lg)
  case Nil
  then show ?case by (simp add: air_in_def)
next
  case (Cons q rs)
  obtain now air where q: "q = (now, air)"
    by (cases q)
  obtain r d' where s: "try_send since d now air = (r, d')"
    by (cases "try_send since d now air")
  have le: "t0 \<le> unat now" and srt: "sorted (unat now # map (unat \<circ> fst) rs)"
    using Cons.prems(3) by (auto simp: q comp_def)
  note step = try_send_step[OF assms(1) Cons.prems(1,2) le s]
  have b': "budget_micros (dc_region d') = Some b"
    using step(1) Cons.prems(1) by simp
  show ?case
  proof (cases r)
    case (Inl e)
    then show ?thesis
      using Cons.IH[OF b' _ srt Cons.prems(4)] step(2) by (simp add: q s)
  next
    case (Inr u)
    have "air_in T (T + WIN) (lg @ [(now, air)]) \<le> unat b"
    proof (cases "unat now < T + WIN")
      case True
      have "air_in T (T + WIN) (lg @ [(now, air)]) \<le> air_from T (lg @ [(now, air)])"
        by (rule air_in_le_from)
      also have "\<dots> \<le> unat b"
        using step(3)[of T] Inr True by simp
      finally show ?thesis .
    next
      case False
      then show ?thesis
        using Cons.prems(4) by (simp add: air_in_def)
    qed
    then show ?thesis
      using Cons.IH[OF b' _ srt, of "lg @ [(now, air)]"] step(2) Inr by (simp add: q s)
  qed
qed

section \<open>The discovery beacon\<close>

definition BEACON_LEN :: nat where "BEACON_LEN = 38"
definition BEACON_VER :: u8 where "BEACON_VER = 1"
definition BEACON_KIND :: u8 where "BEACON_KIND = 0x10"
definition FLAG_ADOPTED :: u8 where "FLAG_ADOPTED = 1"
definition FLAG_ACCEPTS_HANDSHAKE :: u8 where "FLAG_ACCEPTS_HANDSHAKE = 2"

record beacon =
  bc_ver :: u8
  bc_kind :: u8
  bc_pubkey :: bytes
  bc_interval_secs :: u16
  bc_flags :: u8

definition beacon_new :: "bytes \<Rightarrow> u16 \<Rightarrow> u8 \<Rightarrow> beacon" where
  "beacon_new pk iv fl =
     \<lparr>bc_ver = BEACON_VER, bc_kind = BEACON_KIND, bc_pubkey = pk, bc_interval_secs = iv, bc_flags = fl\<rparr>"

definition is_adopted :: "beacon \<Rightarrow> bool" where
  "is_adopted b \<longleftrightarrow> bc_flags b AND FLAG_ADOPTED \<noteq> 0"

definition accepts_handshake :: "beacon \<Rightarrow> bool" where
  "accepts_handshake b \<longleftrightarrow> bc_flags b AND FLAG_ACCEPTS_HANDSHAKE \<noteq> 0"

definition beacon_encode :: "beacon \<Rightarrow> bytes \<Rightarrow> (err + nat) \<times> bytes" where
  "beacon_encode b out =
     (if length out < BEACON_LEN then (Inl (BufferTooSmall BEACON_LEN), out)
      else
        let out = write_at out 0 [bc_ver b, bc_kind b];
            out = write_at out 2 (bc_pubkey b);
            out = write_at out (2 + 33) (be_bytes 2 (bc_interval_secs b));
            out = write_at out (2 + 33 + 2) [bc_flags b]
        in (Inr BEACON_LEN, out))"

definition beacon_decode :: "bytes \<Rightarrow> err + beacon" where
  "beacon_decode bs0 =
     (if length bs0 < BEACON_LEN then Inl InvalidFormat
      else let bs = take BEACON_LEN bs0; rest = drop 2 bs; key = take 33 rest in
        if take 2 bs \<noteq> [BEACON_VER, BEACON_KIND] then Inl InvalidFormat
        else if \<not> (key ! 0 = 2 \<or> key ! 0 = 3) then Inl InvalidFormat
        else let rest2 = drop 33 rest in
          Inr \<lparr>bc_ver = BEACON_VER, bc_kind = BEACON_KIND, bc_pubkey = key,
               bc_interval_secs = be_word [rest2 ! 0, rest2 ! 1], bc_flags = rest2 ! 2\<rparr>)"

definition beacon_wf :: "beacon \<Rightarrow> bool" where
  "beacon_wf b \<longleftrightarrow> bc_ver b = BEACON_VER \<and> bc_kind b = BEACON_KIND \<and> length (bc_pubkey b) = 33 \<and>
     (bc_pubkey b ! 0 = 2 \<or> bc_pubkey b ! 0 = 3)"

definition beacon_bytes :: "beacon \<Rightarrow> bytes" where
  "beacon_bytes b = [bc_ver b, bc_kind b] @ bc_pubkey b @ be_bytes 2 (bc_interval_secs b) @ [bc_flags b]"

lemma length_beacon_bytes: "length (bc_pubkey b) = 33 \<Longrightarrow> length (beacon_bytes b) = BEACON_LEN"
  by (simp add: beacon_bytes_def BEACON_LEN_def)

lemma beacon_encode_eq:
  assumes "length (bc_pubkey b) = 33" and "BEACON_LEN \<le> length out"
  shows "beacon_encode b out = (Inr BEACON_LEN, beacon_bytes b @ drop BEACON_LEN out)"
  using assms by (simp add: beacon_encode_def Let_def write_at_def beacon_bytes_def BEACON_LEN_def)

lemma beacon_decode_bytes:
  assumes "beacon_wf b"
  shows "beacon_decode (beacon_bytes b @ extra) = Inr b"
proof -
  obtain x y where xy: "be_bytes 2 (bc_interval_secs b) = [x, y]"
    by (metis length_be_bytes list2_exhaust)
  have w: "be_word [x, y] = bc_interval_secs b"
    using be_word_u16[of "bc_interval_secs b"] by (simp add: xy)
  have l: "length (bc_pubkey b) = 33"
    using assms by (simp add: beacon_wf_def)
  have hd: "take BEACON_LEN (beacon_bytes b @ extra) = beacon_bytes b"
    using length_beacon_bytes[OF l] by simp
  have t: "take 2 (beacon_bytes b) = [BEACON_VER, BEACON_KIND]"
    "drop 2 (beacon_bytes b) = bc_pubkey b @ [x, y, bc_flags b]"
    using assms by (simp_all add: beacon_bytes_def beacon_wf_def xy)
  have k: "take 33 (bc_pubkey b @ [x, y, bc_flags b]) = bc_pubkey b"
    "drop 33 (bc_pubkey b @ [x, y, bc_flags b]) = [x, y, bc_flags b]"
    using l by simp_all
  show ?thesis
    using assms length_beacon_bytes[OF l]
    unfolding beacon_decode_def hd Let_def t k
    by (simp add: beacon_wf_def w)
qed

definition beacon_wire :: "beacon \<Rightarrow> bytes" where
  "beacon_wire b = snd (beacon_encode b (replicate BEACON_LEN 0))"

interpretation beacon: wire_codec beacon_wire beacon_decode beacon_wf
proof
  fix b
  assume "beacon_wf b"
  then show "beacon_decode (beacon_wire b) = Inr b"
    using beacon_decode_bytes[of b "[]"] by (simp add: beacon_wire_def beacon_wf_def beacon_encode_eq)
qed

lemma beacon_decode_Inr:
  assumes "beacon_decode bs = Inr b"
  shows "beacon_wf b" and "take BEACON_LEN bs = beacon_bytes b"
proof -
  define f where "f = take BEACON_LEN bs"
  have len: "length f = 38"
    and t: "take 2 f = [BEACON_VER, BEACON_KIND]"
    and k: "take 33 (drop 2 f) ! 0 = 2 \<or> take 33 (drop 2 f) ! 0 = 3"
    and b: "b = \<lparr>bc_ver = BEACON_VER, bc_kind = BEACON_KIND, bc_pubkey = take 33 (drop 2 f),
      bc_interval_secs = be_word [drop 33 (drop 2 f) ! 0, drop 33 (drop 2 f) ! 1],
      bc_flags = drop 33 (drop 2 f) ! 2\<rparr>"
    using assms unfolding beacon_decode_def Let_def f_def
    by (auto simp only: BEACON_LEN_def length_take split: if_splits)
  show wf: "beacon_wf b"
    using k len by (simp add: b beacon_wf_def)
  have d: "drop 33 (drop 2 f) = [f ! 35, f ! 36, f ! 37]"
    using len by (intro nth_equalityI) (auto simp: less_Suc_eq numeral_3_eq_3 nth_Cons')
  have "be_bytes 2 (be_word [f ! 35, f ! 36] :: u16) = [f ! 35, f ! 36]"
    using be_bytes_be_word[where 'a = 16, of "[f ! 35, f ! 36]"] by (simp add: numeral_2_eq_2)
  then have "beacon_bytes b = take 2 f @ take 33 (drop 2 f) @ drop 33 (drop 2 f)"
    unfolding d by (simp add: beacon_bytes_def b d[simplified] t)
  then show "take BEACON_LEN bs = beacon_bytes b"
    unfolding f_def[symmetric] by (simp only: append_take_drop_id)
qed

section \<open>Properties\<close>

lemma payload_symbols_bounds:
  assumes "pl \<le> 2 ^ 32"
  shows "8 \<le> unat (payload_symbols p pl)" and "unat (payload_symbols p pl) \<le> 2 ^ 40"
proof -
  define s where "s = int (unat (sf_value (p_sf p)))"
  define num where "num = 8 * int pl - 4 * s + 28 + 16 * bit_of (p_crc p) - 20 * (1 - bit_of (p_explicit_header p))"
  define den where "den = 4 * (s - 2 * bit_of (ldro_enabled p))"
  define k where "k = int (unat (cr_value (p_cr p))) + 4"
  have s: "7 \<le> s" "s \<le> 12"
    using sf_value_bounds[of "p_sf p"] unfolding s_def by linarith+
  have den: "20 \<le> den"
    using s by (auto simp: den_def bit_of_def)
  have num: "num \<le> 2 ^ 36"
    using s assms by (auto simp: num_def bit_of_def)
  have k: "5 \<le> k" "k \<le> 8"
    by (cases "p_cr p"; simp add: k_def cr_value_def)+
  have eq: "semtech_symbols p pl = 8 + max (\<lceil>real_of_int num / real_of_int den\<rceil> * k) 0"
    by (simp add: semtech_symbols_def Let_def s_def num_def den_def k_def)
  have "real_of_int num / real_of_int den \<le> 2 ^ 36"
  proof (cases "0 < num")
    case True
    then have "real_of_int num / real_of_int den \<le> real_of_int num / 1"
      using den by (intro divide_left_mono) auto
    also have "\<dots> \<le> 2 ^ 36"
      using num by (simp flip: of_int_le_numeral_iff)
    finally show ?thesis .
  next
    case False
    then have "real_of_int num / real_of_int den \<le> 0"
      using den by (simp add: divide_nonpos_pos)
    then show ?thesis by simp
  qed
  then have "\<lceil>real_of_int num / real_of_int den\<rceil> \<le> 2 ^ 36"
    by (simp add: ceiling_le_iff)
  then have "\<lceil>real_of_int num / real_of_int den\<rceil> * k \<le> 2 ^ 36 * 8"
  proof (cases "0 \<le> \<lceil>real_of_int num / real_of_int den\<rceil>")
    case True
    then show ?thesis
      using \<open>\<lceil>real_of_int num / real_of_int den\<rceil> \<le> 2 ^ 36\<close> k by (intro mult_mono) auto
  next
    case False
    then have "\<lceil>real_of_int num / real_of_int den\<rceil> * k \<le> 0"
      using k by (auto simp: mult_le_0_iff)
    then show ?thesis by simp
  qed
  then have "8 \<le> int (unat (payload_symbols p pl))" "int (unat (payload_symbols p pl)) \<le> int (2 ^ 40)"
    unfolding payload_symbols_semtech[OF assms] eq by (auto simp: max_def)
  then have "int 8 \<le> int (unat (payload_symbols p pl))" "int (unat (payload_symbols p pl)) \<le> int (2 ^ 40)"
    by (simp_all only: of_nat_numeral)
  then show "8 \<le> unat (payload_symbols p pl)" and "unat (payload_symbols p pl) \<le> 2 ^ 40"
    by (simp_all only: of_nat_le_iff)
qed

lemma unat_preamble_micros:
  "4 * unat (preamble_micros p) = (4 * unat (p_preamble_symbols p) + 17) * unat (symbol_micros (p_sf p) (p_bw p))"
  "unat (preamble_micros p) \<le> 2 ^ 40"
proof -
  let ?n = "unat (p_preamble_symbols p)" and ?t = "unat (symbol_micros (p_sf p) (p_bw p))"
  have n: "?n < 2 ^ 16"
    using unat_less[of "p_preamble_symbols p"] by simp
  have u: "unat (ucast (p_preamble_symbols p) :: u64) = ?n"
    using n by (simp add: unsigned_ucast_eq take_bit_nat_eq_self)
  have a: "unat (4 * ucast (p_preamble_symbols p) + 17 :: u64) = 4 * ?n + 17"
    using n by (simp add: unat_word_ariths u)
  have le: "(4 * ?n + 17) * ?t \<le> 2 ^ 20 * 32768"
    using n symbol_micros_bounds(2) by (intro mult_le_mono) auto
  then have "unat ((4 * ucast (p_preamble_symbols p) + 17) * symbol_micros (p_sf p) (p_bw p)) = (4 * ?n + 17) * ?t"
    by (simp add: unat_word_ariths(2) a)
  then have pm: "unat (preamble_micros p) = (4 * ?n + 17) * ?t div 4"
    by (simp add: preamble_micros_def unat_div)
  have "4 dvd ?t"
    by (rule dvd_trans[OF _ symbol_micros_bounds(1)]) simp
  then show "4 * unat (preamble_micros p) = (4 * ?n + 17) * ?t"
    unfolding pm by simp
  show "unat (preamble_micros p) \<le> 2 ^ 40"
    unfolding pm using le by simp
qed

lemma unat_airtime:
  assumes "pl \<le> 2 ^ 32"
  shows "unat (airtime_micros p pl) =
    unat (preamble_micros p) + unat (payload_symbols p pl) * unat (symbol_micros (p_sf p) (p_bw p))"
proof -
  have "unat (payload_symbols p pl) * unat (symbol_micros (p_sf p) (p_bw p)) \<le> 2 ^ 40 * 32768"
    using payload_symbols_bounds(2)[OF assms] symbol_micros_bounds(2) by (intro mult_le_mono)
  with unat_preamble_micros(2)[of p] show ?thesis
    by (simp add: airtime_micros_def unat_word_ariths(1,2))
qed

text \<open>C38: the time on air is exact: for every payload (up to 4 GiB, far beyond the modem's 255 bytes)
  the integer microseconds the code computes are Semtech's formula over the reals,
  \<open>T_sym * (n_preamble + 4.25 + n_payload)\<close> with \<open>T_sym = 2 ^ SF / BW\<close> and the real-valued ceiling
  in the symbol count: no division truncates and no operation wraps.\<close>

theorem airtime_is_semtech:
  assumes "pl \<le> 2 ^ 32"
  shows "real (unat (airtime_micros p pl)) =
    (2 ^ unat (sf_value (p_sf p)) * 1000000 / real (unat (bw_hz (p_bw p)))) *
    (real (unat (p_preamble_symbols p)) + 4.25 + of_int (semtech_symbols p pl))"
proof -
  let ?t = "unat (symbol_micros (p_sf p) (p_bw p))" and ?bw = "unat (bw_hz (p_bw p))"
  have bw: "0 < ?bw"
    by (cases "p_bw p") (simp_all add: bw_hz_def)
  have tb: "2 ^ unat (sf_value (p_sf p)) * 1000000 = real ?t * real ?bw"
    using arg_cong[OF symbol_micros_exact, of real "p_sf p" "p_bw p"]
    by (simp only: of_nat_mult of_nat_power of_nat_numeral)
  have "real ?bw \<noteq> 0"
    using bw by (simp only: of_nat_eq_0_iff)
  then have t: "2 ^ unat (sf_value (p_sf p)) * 1000000 / real ?bw = real ?t"
    unfolding tb by (rule nonzero_mult_div_cancel_right)
  have pre: "real (unat (preamble_micros p)) = (real (unat (p_preamble_symbols p)) + 4.25) * real ?t"
    using arg_cong[OF unat_preamble_micros(1)[of p], of real] by (simp add: field_simps)
  have "of_int (semtech_symbols p pl) = real (unat (payload_symbols p pl))"
    using payload_symbols_semtech[OF assms, of p] by (metis of_int_of_nat_eq)
  then show ?thesis
    unfolding t unat_airtime[OF assms] of_nat_add of_nat_mult pre by (simp add: algebra_simps)
qed

theorem airtime_is_semtech_witness:
  "real (unat (airtime_micros (default_for Eu868) 51)) =
    (2 ^ unat (sf_value (p_sf (default_for Eu868))) * 1000000 / real (unat (bw_hz (p_bw (default_for Eu868))))) *
    (real (unat (p_preamble_symbols (default_for Eu868))) + 4.25 + of_int (semtech_symbols (default_for Eu868) 51))"
  by (rule airtime_is_semtech) simp

text \<open>C25: the regional budget is never exceeded: whatever transmissions are asked for, at
  non-decreasing times, the ones let through have, in every window of one hour, a total airtime of at
  most the region's permille. Evicting into the neighbour keeps this although only 32 are remembered.\<close>

theorem duty_budget_never_exceeded:
  assumes "saturating_since since" and "budget_micros r = Some b" and "sorted (map (unat \<circ> fst) rs)"
  shows "air_in T (T + WIN) (sends since (duty_new r) rs) \<le> unat b"
proof -
  have "duty_inv (unat b) (duty_new r) 0 []"
    by (simp add: duty_inv_def ordered_upto_def ring_air_def over_counts_def)
  from sends_within[OF assms(1) _ this, of rs T] assms(2,3) show ?thesis
    by (simp add: duty_new_def air_in_def)
qed

theorem duty_budget_never_exceeded_witness:
  "air_in 0 (0 + WIN) (sends sat_sub (duty_new Eu868) [(5, 1000), (5, 36000000), (4000000000, 7)]) \<le> 36000000"
  using duty_budget_never_exceeded[of sat_sub Eu868 36000000 "[(5, 1000), (5, 36000000), (4000000000, 7)]" 0]
  by (simp add: saturating_since_sat_sub budget_micros_def duty_cycle_permille_def DUTY_WINDOW_MICROS_def)

lemma beacon_decode_exact:
  "beacon_decode bs = Inr b \<longleftrightarrow> beacon_wf b \<and> (\<exists>extra. bs = beacon_wire b @ extra)"
proof
  have w: "beacon_wire b = beacon_bytes b" if "beacon_wf b"
    using that by (simp add: beacon_wire_def beacon_wf_def beacon_encode_eq)
  show "beacon_wf b \<and> (\<exists>extra. bs = beacon_wire b @ extra)" if "beacon_decode bs = Inr b"
    using beacon_decode_Inr[OF that] w by (metis append_take_drop_id)
  show "beacon_decode bs = Inr b" if "beacon_wf b \<and> (\<exists>extra. bs = beacon_wire b @ extra)"
    using that w beacon_decode_bytes by auto
qed

lemma validate_sound:
  "validate (default_for r) r = Inr () \<and>
   (validate p r = Inr () \<longrightarrow>
      contains_freq r (p_freq_hz p) \<and> sint (p_power_dbm p) \<le> sint (max_power_dbm r) \<and>
      6 \<le> unat (p_preamble_symbols p) \<and>
      (\<forall>dwell. dwell_max r = Some dwell \<longrightarrow>
        unat (airtime_micros p 0) \<le> unat dwell \<and> \<not> (p_sf p = Sf12 \<and> p_bw p = Khz125)))"
proof (intro conjI impI allI)
  show "validate (default_for r) r = Inr ()"
    by (cases r) (simp_all add: validate_def default_for_def params_new_def contains_freq_def freq_min_hz_def
      freq_max_hz_def default_freq_hz_def max_power_dbm_def MIN_PREAMBLE_SYMBOLS_def dwell_max_def
      airtime_micros_def preamble_micros_def payload_symbols_def symbol_micros_def sf_value_def bw_hz_def
      cr_value_def ldro_enabled_def ldro_resolve_def LDRO_THRESHOLD_MICROS_def div_ceil_def Let_def)
next
  assume v: "validate p r = Inr ()"
  then show "contains_freq r (p_freq_hz p)" "sint (p_power_dbm p) \<le> sint (max_power_dbm r)"
    by (auto simp: validate_def split: if_splits)
  show pre: "6 \<le> unat (p_preamble_symbols p)"
    using v by (auto simp: validate_def MIN_PREAMBLE_SYMBOLS_def not_less word_le_nat_alt split: if_splits)
  fix dwell
  assume d: "dwell_max r = Some dwell"
  show le: "unat (airtime_micros p 0) \<le> unat dwell"
    using v d by (auto simp: validate_def not_less word_le_nat_alt split: if_splits)
  have dw: "unat dwell = 400000"
    using d by (cases r) (auto simp: dwell_max_def)
  show "\<not> (p_sf p = Sf12 \<and> p_bw p = Khz125)"
  proof
    assume "p_sf p = Sf12 \<and> p_bw p = Khz125"
    then have t: "unat (symbol_micros (p_sf p) (p_bw p)) = 32768"
      by (simp add: unat_symbol_micros sf_value_def bw_hz_def)
    have "4 * unat (preamble_micros p) \<ge> 41 * 32768"
      unfolding unat_preamble_micros(1) t using pre by simp
    moreover have "unat (payload_symbols p 0) * 32768 \<ge> 8 * 32768"
      using payload_symbols_bounds(1)[of 0 p] by (intro mult_le_mono) auto
    ultimately have "400000 < unat (airtime_micros p 0)"
      by (simp add: unat_airtime t)
    with le dw show False
      by simp
  qed
qed

end
