(* ===== verification/Ld2410.thy ===== *)
theory Ld2410
  imports Prelude
begin

text \<open>
  The HLK-LD2410 serial protocol: report and acknowledgement decoders and the command encoder
  (\<open>crates/rusty_esp_signal-core/src/radar/ld2410.rs\<close>). The streaming parser is in theory
  \<open>Ld2410_Parser\<close>; the \<open>Display\<close> formatters are not modelled.
\<close>

definition GATES :: nat where "GATES = 9"
definition LD_MAX_FRAME :: nat where "LD_MAX_FRAME = 64"
definition FRAMING :: nat where "FRAMING = 10"
definition MAX_DATA :: nat where "MAX_DATA = LD_MAX_FRAME - FRAMING"
definition MIN_DATA :: nat where "MIN_DATA = 2"
definition MAX_EXTRA :: nat where "MAX_EXTRA = 8"
definition REPORT_HEADER :: bytes where "REPORT_HEADER = [0xF4, 0xF3, 0xF2, 0xF1]"
definition REPORT_TAIL :: bytes where "REPORT_TAIL = [0xF8, 0xF7, 0xF6, 0xF5]"
definition COMMAND_HEADER :: bytes where "COMMAND_HEADER = [0xFD, 0xFC, 0xFB, 0xFA]"
definition COMMAND_TAIL :: bytes where "COMMAND_TAIL = [0x04, 0x03, 0x02, 0x01]"
definition ACK_BIT :: u16 where "ACK_BIT = 0x0100"
definition REPORT_HEAD :: u8 where "REPORT_HEAD = 0xAA"
definition REPORT_END :: u8 where "REPORT_END = 0x55"
definition REPORT_CHECK :: u8 where "REPORT_CHECK = 0"
definition DATA_TYPE_ENGINEERING :: u8 where "DATA_TYPE_ENGINEERING = 1"
definition DATA_TYPE_BASIC :: u8 where "DATA_TYPE_BASIC = 2"
definition BASIC_LEN :: nat where "BASIC_LEN = 9"

lemmas ld_consts = GATES_def LD_MAX_FRAME_def FRAMING_def MAX_DATA_def MIN_DATA_def MAX_EXTRA_def
  BASIC_LEN_def

lemmas ld_bytes = REPORT_HEADER_def REPORT_TAIL_def COMMAND_HEADER_def COMMAND_TAIL_def
  REPORT_HEAD_def REPORT_END_def REPORT_CHECK_def DATA_TYPE_ENGINEERING_def DATA_TYPE_BASIC_def

definition le16 :: "bytes \<Rightarrow> nat \<Rightarrow> u16 option" where
  "le16 bs i = (if i < length bs \<and> i + 1 < length bs then Some (le_word [bs ! i, bs ! (i + 1)]) else None)"

definition le32 :: "bytes \<Rightarrow> nat \<Rightarrow> u32 option" where
  "le32 bs i = (case slice_get bs i (i + 4) of Some b \<Rightarrow> Some (le_word b) | None \<Rightarrow> None)"

definition copy_prefix :: "bytes \<Rightarrow> bytes \<Rightarrow> bytes" where
  "copy_prefix dst src = (let n = min (length dst) (length src) in take n src @ drop n dst)"

section \<open>Reports\<close>

datatype target_state = TsNone | TsMoving | TsStationary | TsBoth

definition ts_from_byte :: "u8 \<Rightarrow> target_state" where
  "ts_from_byte b =
     (if b AND 3 = 0 then TsNone else if b AND 3 = 1 then TsMoving
      else if b AND 3 = 2 then TsStationary else TsBoth)"

definition ts_to_byte :: "target_state \<Rightarrow> u8" where
  "ts_to_byte s = (case s of TsNone \<Rightarrow> 0 | TsMoving \<Rightarrow> 1 | TsStationary \<Rightarrow> 2 | TsBoth \<Rightarrow> 3)"

definition ts_moving :: "target_state \<Rightarrow> bool" where
  "ts_moving s \<longleftrightarrow> s = TsMoving \<or> s = TsBoth"

definition ts_stationary :: "target_state \<Rightarrow> bool" where
  "ts_stationary s \<longleftrightarrow> s = TsStationary \<or> s = TsBoth"

definition ts_present :: "target_state \<Rightarrow> bool" where
  "ts_present s \<longleftrightarrow> s \<noteq> TsNone"

record target =
  tg_distance_cm :: u16
  tg_energy :: u8

record engineering =
  en_moving_gates :: u8
  en_stationary_gates :: u8
  en_moving_energy :: bytes
  en_stationary_energy :: bytes
  en_extra :: bytes
  en_extra_len :: u8

definition or_else :: "'a option \<Rightarrow> 'a \<Rightarrow> 'a" where
  "or_else x d = (case x of None \<Rightarrow> d | Some a \<Rightarrow> a)"

definition en_moving :: "engineering \<Rightarrow> bytes" where
  "en_moving e = or_else (slice_get (en_moving_energy e) 0 (unat (en_moving_gates e))) (en_moving_energy e)"

definition en_stationary :: "engineering \<Rightarrow> bytes" where
  "en_stationary e =
     or_else (slice_get (en_stationary_energy e) 0 (unat (en_stationary_gates e))) (en_stationary_energy e)"

definition en_extra_bytes :: "engineering \<Rightarrow> bytes" where
  "en_extra_bytes e = or_else (slice_get (en_extra e) 0 (min (unat (en_extra_len e)) MAX_EXTRA)) (en_extra e)"

definition en_light :: "engineering \<Rightarrow> u8 option" where
  "en_light e = (case en_extra_bytes e of [] \<Rightarrow> None | b # _ \<Rightarrow> Some b)"

definition en_out_pin :: "engineering \<Rightarrow> u8 option" where
  "en_out_pin e = (if 1 < length (en_extra_bytes e) then Some (en_extra_bytes e ! 1) else None)"

definition engineering_parse :: "bytes \<Rightarrow> err + engineering" where
  "engineering_parse bs =
     (case bs of
        max_moving # max_stationary # rest \<Rightarrow>
          let moving_gates = unat max_moving + 1; stationary_gates = unat max_stationary + 1 in
          if moving_gates > GATES \<or> stationary_gates > GATES then Inl InvalidFormat
          else if length rest < moving_gates then Inl InvalidFormat
          else let moving = take moving_gates rest; rest = drop moving_gates rest in
            if length rest < stationary_gates then Inl InvalidFormat
            else let stationary = take stationary_gates rest; extra = drop stationary_gates rest in
              Inr \<lparr>en_moving_gates = max_moving + 1, en_stationary_gates = max_stationary + 1,
                   en_moving_energy = copy_prefix (replicate GATES 0) moving,
                   en_stationary_energy = copy_prefix (replicate GATES 0) stationary,
                   en_extra = copy_prefix (replicate MAX_EXTRA 0) extra,
                   en_extra_len = (if length extra < 256 then of_nat (length extra) else - 1)\<rparr>
      | _ \<Rightarrow> Inl InvalidFormat)"

record report =
  rp_state :: target_state
  rp_moving_distance_cm :: u16
  rp_moving_energy :: u8
  rp_stationary_distance_cm :: u16
  rp_stationary_energy :: u8
  rp_detection_distance_cm :: u16
  rp_engineering :: "engineering option"

definition report_parse :: "bytes \<Rightarrow> err + report" where
  "report_parse data =
     (case data of
        data_type # head # rest \<Rightarrow>
          if head \<noteq> REPORT_HEAD then Inl InvalidFormat
          else if length rest < 2 then Inl InvalidFormat
          else
            let body_len = length rest - 2; body = take body_len rest; trailer = drop body_len rest in
            if trailer \<noteq> [REPORT_END, REPORT_CHECK] then Inl InvalidFormat
            else if length body < BASIC_LEN then Inl InvalidFormat
            else let basic = take BASIC_LEN body; after_basic = drop BASIC_LEN body in
              rbind (if data_type = DATA_TYPE_BASIC then
                       (if after_basic \<noteq> [] then Inl InvalidFormat else Inr None)
                     else if data_type = DATA_TYPE_ENGINEERING then
                       rbind (engineering_parse after_basic) (\<lambda>e. Inr (Some e))
                     else Inl Unsupported)
                (\<lambda>eng. Inr
                  \<lparr>rp_state = ts_from_byte (basic ! 0),
                   rp_moving_distance_cm = le_word [basic ! 1, basic ! 2],
                   rp_moving_energy = basic ! 3,
                   rp_stationary_distance_cm = le_word [basic ! 4, basic ! 5],
                   rp_stationary_energy = basic ! 6,
                   rp_detection_distance_cm = le_word [basic ! 7, basic ! 8],
                   rp_engineering = eng\<rparr>)
      | _ \<Rightarrow> Inl InvalidFormat)"

definition rp_moving :: "report \<Rightarrow> target option" where
  "rp_moving r = (if ts_moving (rp_state r)
     then Some \<lparr>tg_distance_cm = rp_moving_distance_cm r, tg_energy = rp_moving_energy r\<rparr> else None)"

definition rp_stationary :: "report \<Rightarrow> target option" where
  "rp_stationary r = (if ts_stationary (rp_state r)
     then Some \<lparr>tg_distance_cm = rp_stationary_distance_cm r, tg_energy = rp_stationary_energy r\<rparr> else None)"

definition rp_present :: "report \<Rightarrow> bool" where
  "rp_present r = ts_present (rp_state r)"

section \<open>Acknowledgements\<close>

record ack =
  ak_word :: u16
  ak_ok :: bool
  ak_status :: u16
  ak_payload :: bytes

definition ack_parse :: "bytes \<Rightarrow> err + ack" where
  "ack_parse data =
     rbind (ok_or (le16 data 0) InvalidFormat) (\<lambda>raw.
     rbind (ok_or (le16 data 2) InvalidFormat) (\<lambda>status.
       if raw AND ACK_BIT = 0 then Inl InvalidFormat
       else Inr \<lparr>ak_word = raw AND NOT ACK_BIT, ak_ok = (status = 0), ak_status = status,
                 ak_payload = drop 4 data\<rparr>))"

definition ack_expect :: "ack \<Rightarrow> u16 \<Rightarrow> err + bytes" where
  "ack_expect a w = (if ak_word a \<noteq> w then Inl InvalidFormat else if \<not> ak_ok a then Inl Hardware
     else Inr (ak_payload a))"

definition W_ENABLE_CONFIG :: u16 where "W_ENABLE_CONFIG = 0x00FF"
definition W_END_CONFIG :: u16 where "W_END_CONFIG = 0x00FE"
definition W_SET_MAX_GATES :: u16 where "W_SET_MAX_GATES = 0x0060"
definition W_READ_PARAMETERS :: u16 where "W_READ_PARAMETERS = 0x0061"
definition W_ENGINEERING_ON :: u16 where "W_ENGINEERING_ON = 0x0062"
definition W_ENGINEERING_OFF :: u16 where "W_ENGINEERING_OFF = 0x0063"
definition W_SET_SENSITIVITY :: u16 where "W_SET_SENSITIVITY = 0x0064"
definition W_READ_FIRMWARE :: u16 where "W_READ_FIRMWARE = 0x00A0"
definition W_SET_BAUD :: u16 where "W_SET_BAUD = 0x00A1"
definition W_FACTORY_RESET :: u16 where "W_FACTORY_RESET = 0x00A2"
definition W_RESTART :: u16 where "W_RESTART = 0x00A3"
definition W_BLUETOOTH :: u16 where "W_BLUETOOTH = 0x00A4"
definition W_READ_MAC :: u16 where "W_READ_MAC = 0x00A5"

lemmas word_consts = W_ENABLE_CONFIG_def W_END_CONFIG_def W_SET_MAX_GATES_def W_READ_PARAMETERS_def
  W_ENGINEERING_ON_def W_ENGINEERING_OFF_def W_SET_SENSITIVITY_def W_READ_FIRMWARE_def W_SET_BAUD_def
  W_FACTORY_RESET_def W_RESTART_def W_BLUETOOTH_def W_READ_MAC_def

record enable_config =
  ec_protocol_version :: u16
  ec_buffer_size :: u16

record firmware_version =
  fw_type :: u16
  fw_major :: u16
  fw_minor :: u32

record parameters =
  pm_max_gate :: u8
  pm_max_moving_gate :: u8
  pm_max_stationary_gate :: u8
  pm_moving_sensitivity :: bytes
  pm_stationary_sensitivity :: bytes
  pm_no_one_secs :: u16

definition pm_gates :: "parameters \<Rightarrow> nat" where
  "pm_gates p = min (unat (pm_max_gate p) + 1) GATES"

definition pm_moving :: "parameters \<Rightarrow> bytes" where
  "pm_moving p = or_else (slice_get (pm_moving_sensitivity p) 0 (pm_gates p)) (pm_moving_sensitivity p)"

definition pm_stationary :: "parameters \<Rightarrow> bytes" where
  "pm_stationary p =
     or_else (slice_get (pm_stationary_sensitivity p) 0 (pm_gates p)) (pm_stationary_sensitivity p)"

definition ack_enable_config :: "ack \<Rightarrow> err + enable_config" where
  "ack_enable_config a =
     rbind (ack_expect a W_ENABLE_CONFIG) (\<lambda>p.
     rbind (ok_or (le16 p 0) InvalidFormat) (\<lambda>v.
     rbind (ok_or (le16 p 2) InvalidFormat) (\<lambda>b.
       Inr \<lparr>ec_protocol_version = v, ec_buffer_size = b\<rparr>)))"

definition ack_firmware_version :: "ack \<Rightarrow> err + firmware_version" where
  "ack_firmware_version a =
     rbind (ack_expect a W_READ_FIRMWARE) (\<lambda>p.
     rbind (ok_or (le16 p 0) InvalidFormat) (\<lambda>t.
     rbind (ok_or (le16 p 2) InvalidFormat) (\<lambda>mj.
     rbind (ok_or (le32 p 4) InvalidFormat) (\<lambda>mn.
       Inr \<lparr>fw_type = t, fw_major = mj, fw_minor = mn\<rparr>))))"

definition ack_parameters :: "ack \<Rightarrow> err + parameters" where
  "ack_parameters a =
     rbind (ack_expect a W_READ_PARAMETERS) (\<lambda>p.
       if length p < 4 then Inl InvalidFormat
       else if p ! 0 \<noteq> REPORT_HEAD then Inl InvalidFormat
       else let max_gate = p ! 1; gates = unat max_gate + 1 in
         if gates > GATES then Inl InvalidFormat
         else let rest = drop 4 p in
           if length rest < gates then Inl InvalidFormat
           else let moving = take gates rest; rest = drop gates rest in
             if length rest < gates then Inl InvalidFormat
             else let stationary = take gates rest in
               rbind (ok_or (le16 rest gates) InvalidFormat) (\<lambda>no_one_secs.
                 Inr \<lparr>pm_max_gate = max_gate, pm_max_moving_gate = p ! 2, pm_max_stationary_gate = p ! 3,
                      pm_moving_sensitivity = copy_prefix (replicate GATES 0) moving,
                      pm_stationary_sensitivity = copy_prefix (replicate GATES 0) stationary,
                      pm_no_one_secs = no_one_secs\<rparr>))"

definition ack_mac :: "ack \<Rightarrow> err + bytes" where
  "ack_mac a =
     rbind (ack_expect a W_READ_MAC) (\<lambda>p. if length p < 6 then Inl InvalidFormat else Inr (take 6 p))"

section \<open>Frames\<close>

datatype kind = KReport | KCommand

definition kind_header :: "kind \<Rightarrow> bytes" where
  "kind_header k = (case k of KReport \<Rightarrow> REPORT_HEADER | KCommand \<Rightarrow> COMMAND_HEADER)"

definition kind_tail :: "kind \<Rightarrow> bytes" where
  "kind_tail k = (case k of KReport \<Rightarrow> REPORT_TAIL | KCommand \<Rightarrow> COMMAND_TAIL)"

definition starting_with :: "u8 \<Rightarrow> kind option" where
  "starting_with b = (if b = 0xF4 then Some KReport else if b = 0xFD then Some KCommand else None)"

datatype frame = FReport report | FAck ack

definition frame_decode :: "kind \<Rightarrow> bytes \<Rightarrow> err + frame" where
  "frame_decode k data =
     (case k of KReport \<Rightarrow> rbind (report_parse data) (\<lambda>r. Inr (FReport r))
      | KCommand \<Rightarrow> rbind (ack_parse data) (\<lambda>a. Inr (FAck a)))"

definition frame_parse :: "bytes \<Rightarrow> err + frame" where
  "frame_parse bs =
     (if length bs < 4 then Inl InvalidFormat
      else rbind (if take 4 bs = REPORT_HEADER then Inr KReport
                  else if take 4 bs = COMMAND_HEADER then Inr KCommand else Inl InvalidFormat) (\<lambda>k.
        rbind (ok_or (le16 bs 4) InvalidFormat) (\<lambda>l.
          let data_start = FRAMING - 4; data_end = data_start + unat l in
          rbind (ok_or (slice_get bs data_start data_end) InvalidFormat) (\<lambda>data.
            if drop data_end bs \<noteq> kind_tail k then Inl InvalidFormat
            else frame_decode k data))))"

section \<open>Commands\<close>

datatype gate = GateIndex u8 | GateAll

definition gate_value :: "gate \<Rightarrow> u32" where
  "gate_value g = (case g of GateIndex i \<Rightarrow> ucast i | GateAll \<Rightarrow> 0xFFFF)"

datatype baud = B9600 | B19200 | B38400 | B57600 | B115200 | B230400 | B256000 | B460800

definition baud_index :: "baud \<Rightarrow> u16" where
  "baud_index b = (case b of B9600 \<Rightarrow> 1 | B19200 \<Rightarrow> 2 | B38400 \<Rightarrow> 3 | B57600 \<Rightarrow> 4 | B115200 \<Rightarrow> 5
     | B230400 \<Rightarrow> 6 | B256000 \<Rightarrow> 7 | B460800 \<Rightarrow> 8)"

definition baud_from_index :: "u16 \<Rightarrow> baud option" where
  "baud_from_index i =
     (if i = 1 then Some B9600 else if i = 2 then Some B19200 else if i = 3 then Some B38400
      else if i = 4 then Some B57600 else if i = 5 then Some B115200 else if i = 6 then Some B230400
      else if i = 7 then Some B256000 else if i = 8 then Some B460800 else None)"

definition bits_per_second :: "baud \<Rightarrow> u32" where
  "bits_per_second b = (case b of B9600 \<Rightarrow> 9600 | B19200 \<Rightarrow> 19200 | B38400 \<Rightarrow> 38400 | B57600 \<Rightarrow> 57600
     | B115200 \<Rightarrow> 115200 | B230400 \<Rightarrow> 230400 | B256000 \<Rightarrow> 256000 | B460800 \<Rightarrow> 460800)"

definition MAX_GATE :: u8 where "MAX_GATE = 8"
definition MAX_SENSITIVITY :: u8 where "MAX_SENSITIVITY = 100"

datatype command =
    EnableConfig
  | EndConfig
  | SetMaxGates u8 u8 u16
  | ReadParameters
  | EngineeringMode bool
  | SetSensitivity gate u8 u8
  | ReadFirmware
  | SetBaud baud
  | FactoryReset
  | Restart
  | Bluetooth bool
  | ReadMac

definition command_word :: "command \<Rightarrow> u16" where
  "command_word c = (case c of
       EnableConfig \<Rightarrow> W_ENABLE_CONFIG | EndConfig \<Rightarrow> W_END_CONFIG | SetMaxGates _ _ _ \<Rightarrow> W_SET_MAX_GATES
     | ReadParameters \<Rightarrow> W_READ_PARAMETERS
     | EngineeringMode on \<Rightarrow> if on then W_ENGINEERING_ON else W_ENGINEERING_OFF
     | SetSensitivity _ _ _ \<Rightarrow> W_SET_SENSITIVITY | ReadFirmware \<Rightarrow> W_READ_FIRMWARE | SetBaud _ \<Rightarrow> W_SET_BAUD
     | FactoryReset \<Rightarrow> W_FACTORY_RESET | Restart \<Rightarrow> W_RESTART | Bluetooth _ \<Rightarrow> W_BLUETOOTH
     | ReadMac \<Rightarrow> W_READ_MAC)"

definition value_len :: "command \<Rightarrow> nat" where
  "value_len c = (case c of
       EnableConfig \<Rightarrow> 2 | SetBaud _ \<Rightarrow> 2 | Bluetooth _ \<Rightarrow> 2 | ReadMac \<Rightarrow> 2
     | SetMaxGates _ _ _ \<Rightarrow> 3 * (2 + 4) | SetSensitivity _ _ _ \<Rightarrow> 3 * (2 + 4)
     | _ \<Rightarrow> 0)"

definition command_encoded_len :: "command \<Rightarrow> nat" where
  "command_encoded_len c = FRAMING + 2 + value_len c"

definition command_validate :: "command \<Rightarrow> err + unit" where
  "command_validate c = (case c of
       SetMaxGates moving stationary _ \<Rightarrow>
         if moving > MAX_GATE \<or> stationary > MAX_GATE then Inl Unsupported else Inr ()
     | SetSensitivity gate moving stationary \<Rightarrow>
         let gate_ok = (case gate of GateIndex i \<Rightarrow> i \<le> MAX_GATE | GateAll \<Rightarrow> True) in
         if gate_ok \<and> moving \<le> MAX_SENSITIVITY \<and> stationary \<le> MAX_SENSITIVITY
         then Inr () else Inl Unsupported
     | _ \<Rightarrow> Inr ())"

text \<open>The cursor: the buffer and the position, threaded through the writes.\<close>

record cursor =
  cu_out :: bytes
  cu_pos :: nat
  cu_needed :: nat

definition cu_then ::
  "(cursor \<Rightarrow> (err + unit) \<times> cursor) \<Rightarrow> (cursor \<Rightarrow> (err + unit) \<times> cursor) \<Rightarrow> cursor \<Rightarrow> (err + unit) \<times> cursor" where
  "cu_then f g c = (case f c of (Inl e, c') \<Rightarrow> (Inl e, c') | (Inr _, c') \<Rightarrow> g c')"

definition cu_put :: "bytes \<Rightarrow> cursor \<Rightarrow> (err + unit) \<times> cursor" where
  "cu_put bs c =
     (let end_pos = cu_pos c + length bs in
      if length (cu_out c) < end_pos then (Inl (BufferTooSmall (cu_needed c)), c)
      else (Inr (), c\<lparr>cu_out := write_at (cu_out c) (cu_pos c) bs, cu_pos := end_pos\<rparr>))"

definition cu_u16 :: "u16 \<Rightarrow> cursor \<Rightarrow> (err + unit) \<times> cursor" where
  "cu_u16 v = cu_put (le_bytes 2 v)"

definition cu_u32 :: "u32 \<Rightarrow> cursor \<Rightarrow> (err + unit) \<times> cursor" where
  "cu_u32 v = cu_put (le_bytes 4 v)"

definition cu_record :: "u16 \<Rightarrow> u32 \<Rightarrow> cursor \<Rightarrow> (err + unit) \<times> cursor" where
  "cu_record param v = cu_then (cu_u16 param) (cu_u32 v)"

definition cu_value :: "command \<Rightarrow> cursor \<Rightarrow> (err + unit) \<times> cursor" where
  "cu_value c = (case c of
       EnableConfig \<Rightarrow> cu_u16 1
     | ReadMac \<Rightarrow> cu_u16 1
     | SetMaxGates moving stationary no_one_secs \<Rightarrow>
         cu_then (cu_record 0 (ucast moving)) (cu_then (cu_record 1 (ucast stationary)) (cu_record 2 (ucast no_one_secs)))
     | SetSensitivity gate moving stationary \<Rightarrow>
         cu_then (cu_record 0 (gate_value gate)) (cu_then (cu_record 1 (ucast moving)) (cu_record 2 (ucast stationary)))
     | SetBaud b \<Rightarrow> cu_u16 (baud_index b)
     | Bluetooth on \<Rightarrow> cu_u16 (if on then 1 else 0)
     | _ \<Rightarrow> (\<lambda>cur. (Inr (), cur)))"

definition command_encode :: "command \<Rightarrow> bytes \<Rightarrow> (err + nat) \<times> bytes" where
  "command_encode c out =
     (case command_validate c of
        Inl e \<Rightarrow> (Inl e, out)
      | Inr _ \<Rightarrow>
          let needed = command_encoded_len c in
          if length out < needed then (Inl (BufferTooSmall needed), out)
          else if 2 + value_len c \<ge> 2 ^ 16 then (Inl Unsupported, out)
          else case cu_then (cu_put COMMAND_HEADER)
                     (cu_then (cu_u16 (of_nat (2 + value_len c)))
                     (cu_then (cu_u16 (command_word c))
                     (cu_then (cu_value c) (cu_put COMMAND_TAIL))))
                     \<lparr>cu_out = out, cu_pos = 0, cu_needed = needed\<rparr> of
              (Inl e, cur) \<Rightarrow> (Inl e, cu_out cur)
            | (Inr _, cur) \<Rightarrow> (Inr (cu_pos cur), cu_out cur))"
subsection \<open>What the cursor writes\<close>

definition writes :: "(cursor \<Rightarrow> (err + unit) \<times> cursor) \<Rightarrow> bytes \<Rightarrow> bool" where
  "writes f bs \<longleftrightarrow> (\<forall>c. cu_pos c + length bs \<le> length (cu_out c) \<longrightarrow>
     f c = (Inr (), c\<lparr>cu_out := write_at (cu_out c) (cu_pos c) bs, cu_pos := cu_pos c + length bs\<rparr>))"

lemma writes_put: "writes (cu_put bs) bs"
  by (simp add: writes_def cu_put_def Let_def)

lemma write_at_append:
  "p + length a + length b \<le> length out \<Longrightarrow> write_at (write_at out p a) (p + length a) b = write_at out p (a @ b)"
  by (simp add: write_at_def ac_simps)

lemma writes_then: "writes f a \<Longrightarrow> writes g b \<Longrightarrow> writes (cu_then f g) (a @ b)"
  by (simp add: writes_def cu_then_def write_at_append add.assoc)

lemma writes_skip: "writes (\<lambda>cur. (Inr (), cur)) []"
  by (simp add: writes_def write_at_def)

definition record_bytes :: "u16 \<Rightarrow> u32 \<Rightarrow> bytes" where
  "record_bytes param v = le_bytes 2 param @ le_bytes 4 v"

definition command_value :: "command \<Rightarrow> bytes" where
  "command_value c = (case c of
       EnableConfig \<Rightarrow> le_bytes 2 (1 :: u16)
     | ReadMac \<Rightarrow> le_bytes 2 (1 :: u16)
     | SetMaxGates moving stationary no_one_secs \<Rightarrow>
         record_bytes 0 (ucast moving) @ record_bytes 1 (ucast stationary) @ record_bytes 2 (ucast no_one_secs)
     | SetSensitivity gate moving stationary \<Rightarrow>
         record_bytes 0 (gate_value gate) @ record_bytes 1 (ucast moving) @ record_bytes 2 (ucast stationary)
     | SetBaud b \<Rightarrow> le_bytes 2 (baud_index b)
     | Bluetooth on \<Rightarrow> le_bytes 2 (if on then 1 else 0 :: u16)
     | _ \<Rightarrow> [])"

definition command_frame :: "command \<Rightarrow> bytes" where
  "command_frame c = COMMAND_HEADER @ le_bytes 2 (of_nat (2 + value_len c) :: u16) @
     le_bytes 2 (command_word c) @ command_value c @ COMMAND_TAIL"

lemmas writes_intros = writes_put writes_then writes_skip

lemma writes_u16: "writes (cu_u16 v) (le_bytes 2 v)"
  by (simp add: cu_u16_def writes_put)

lemma writes_record: "writes (cu_record p v) (record_bytes p v)"
  unfolding cu_record_def record_bytes_def cu_u32_def by (intro writes_then writes_u16 writes_put)

lemma writes_value: "writes (cu_value c) (command_value c)"
  by (cases c) (auto simp: cu_value_def command_value_def intro!: writes_then writes_record writes_u16 writes_skip)

lemma length_command_value: "length (command_value c) = value_len c"
  by (cases c) (auto simp: command_value_def value_len_def record_bytes_def)

lemma length_command_frame: "length (command_frame c) = command_encoded_len c"
  by (simp add: command_frame_def command_encoded_len_def length_command_value ld_bytes ld_consts)

lemma value_len_small: "2 + value_len c < 2 ^ 16"
  by (cases c) (simp_all add: value_len_def)

lemma le_bytes_inject_u16: "le_bytes 2 (a :: u16) = le_bytes 2 b \<longleftrightarrow> a = b"
  by (metis le_word_u16)

lemma le_bytes_inject_u32: "le_bytes 4 (a :: u32) = le_bytes 4 b \<longleftrightarrow> a = b"
  by (metis le_word_u32)

lemma record_bytes_inject: "record_bytes p a = record_bytes p b \<longleftrightarrow> a = b"
  by (simp add: record_bytes_def le_bytes_inject_u32)

lemma length_record_bytes [simp]: "length (record_bytes p v) = 6"
  by (simp add: record_bytes_def)

lemma ucast_inject_u8: "(ucast (a :: u8) :: u32) = ucast b \<longleftrightarrow> a = b"
  by (rule ucast_up_inject) simp

lemma ucast_inject_u16: "(ucast (a :: u16) :: u32) = ucast b \<longleftrightarrow> a = b"
  by (rule ucast_up_inject) simp

lemma gate_value_inject: "gate_value g = gate_value h \<longleftrightarrow> g = h"
proof -
  have "(ucast (i :: u8) :: u32) \<noteq> 0xFFFF" for i
  proof
    assume "(ucast i :: u32) = 0xFFFF"
    then have "unat (ucast i :: u32) = 65535"
      by simp
    then have "unat i = 65535"
      by (subst (asm) unat_ucast_up) simp_all
    then show False
      using unat_less[of i] by simp
  qed
  then show ?thesis
    by (cases g; cases h) (auto simp: gate_value_def ucast_inject_u8 dest: sym)
qed

lemma baud_round_trip: "baud_from_index (baud_index b) = Some b"
  by (cases b) (simp_all add: baud_index_def baud_from_index_def)

lemma baud_index_inject: "baud_index a = baud_index b \<longleftrightarrow> a = b"
  by (metis baud_round_trip option.inject)

lemma ts_round_trip: "ts_from_byte (ts_to_byte s) = s"
  by (cases s) (simp_all add: ts_from_byte_def ts_to_byte_def)

subsection \<open>The documented report layout\<close>

definition basic_bytes :: "target_state \<Rightarrow> u16 \<Rightarrow> u8 \<Rightarrow> u16 \<Rightarrow> u8 \<Rightarrow> u16 \<Rightarrow> bytes" where
  "basic_bytes ts md me sd se dd =
     [ts_to_byte ts] @ le_bytes 2 md @ [me] @ le_bytes 2 sd @ [se] @ le_bytes 2 dd"

definition report_data :: "u8 \<Rightarrow> bytes \<Rightarrow> bytes \<Rightarrow> bytes" where
  "report_data ty basic rest = [ty, REPORT_HEAD] @ basic @ rest @ [REPORT_END, REPORT_CHECK]"

definition gate_block :: "bytes \<Rightarrow> bytes \<Rightarrow> bytes \<Rightarrow> bytes" where
  "gate_block mv st ex = [of_nat (length mv - 1), of_nat (length st - 1)] @ mv @ st @ ex"

lemma le_bytes_2: "\<exists>a b. le_bytes 2 (w :: u16) = [a, b] \<and> le_word [a, b] = w"
proof -
  obtain a b where ab: "le_bytes 2 w = [a, b]"
    using list2_exhaust[of "le_bytes 2 w"] by auto
  with le_word_u16[of w] show ?thesis
    by auto
qed

lemma copy_prefix_pad: "length src \<le> n \<Longrightarrow> copy_prefix (replicate n 0) src = src @ replicate (n - length src) 0"
  by (simp add: copy_prefix_def Let_def)

lemma copy_prefix_full: "n \<le> length src \<Longrightarrow> copy_prefix (replicate n 0) src = take n src"
  by (simp add: copy_prefix_def Let_def)

lemma engineering_parse_cons:
  assumes "unat a + 1 = length mv" "unat b + 1 = length st" "length mv \<le> GATES" "length st \<le> GATES"
    and "length ex < 256"
  shows "engineering_parse (a # b # mv @ st @ ex) = Inr
    \<lparr>en_moving_gates = a + 1, en_stationary_gates = b + 1,
     en_moving_energy = copy_prefix (replicate GATES 0) mv, en_stationary_energy = copy_prefix (replicate GATES 0) st,
     en_extra = copy_prefix (replicate MAX_EXTRA 0) ex, en_extra_len = of_nat (length ex)\<rparr>"
  using assms(3-) unfolding engineering_parse_def Let_def list.case assms(1,2) by simp

lemma engineering_parse_block:
  assumes "1 \<le> length mv" "length mv \<le> 9" "1 \<le> length st" "length st \<le> 9" "length ex < 256"
  shows "\<exists>e. engineering_parse (gate_block mv st ex) = Inr e \<and> en_moving e = mv \<and> en_stationary e = st \<and>
    en_extra_bytes e = take 8 ex \<and> unat (en_extra_len e) = length ex"
proof -
  have g: "unat (of_nat (length xs - 1) :: u8) = length xs - 1" "unat (of_nat (length xs - 1) + 1 :: u8) = length xs"
    if "1 \<le> length xs" "length xs \<le> 9" for xs :: bytes
  proof -
    show "unat (of_nat (length xs - 1) :: u8) = length xs - 1"
      by (subst unat_of_nat) (use that in simp)
    have "of_nat (length xs - 1) + 1 = (of_nat (length xs) :: u8)"
      using that(1) by (metis le_add_diff_inverse2 of_nat_1 of_nat_add)
    then show "unat (of_nat (length xs - 1) + 1 :: u8) = length xs"
      using that(2) by (simp add: unat_of_nat)
  qed
  have x: "unat (of_nat (length ex) :: u8) = length ex"
    using assms(5) by (simp add: unat_of_nat)
  define e where "e = \<lparr>en_moving_gates = of_nat (length mv - 1) + 1,
    en_stationary_gates = of_nat (length st - 1) + 1,
    en_moving_energy = copy_prefix (replicate GATES 0) mv, en_stationary_energy = copy_prefix (replicate GATES 0) st,
    en_extra = copy_prefix (replicate MAX_EXTRA 0) ex, en_extra_len = of_nat (length ex)\<rparr>"
  have "engineering_parse (gate_block mv st ex) = Inr e"
    unfolding gate_block_def append_Cons append_Nil e_def
    by (rule engineering_parse_cons) (use assms g(1)[of mv] g(1)[of st] in \<open>unfold GATES_def, linarith+\<close>)
  moreover have "en_moving e = mv" "en_stationary e = st"
    using assms by (simp_all add: e_def en_moving_def en_stationary_def slice_get_def unat_of_nat copy_prefix_pad GATES_def or_else_def)
  moreover have "en_extra_bytes e = take 8 ex"
  proof (cases "length ex \<le> 8")
    case True
    then show ?thesis
      by (simp add: e_def en_extra_bytes_def x slice_get_def copy_prefix_pad MAX_EXTRA_def or_else_def)
  next
    case False
    then show ?thesis
      by (simp add: e_def en_extra_bytes_def x slice_get_def copy_prefix_full MAX_EXTRA_def or_else_def)
  qed
  ultimately show ?thesis
    using x by (auto simp: e_def)
qed

definition report_of :: "target_state \<Rightarrow> u16 \<Rightarrow> u8 \<Rightarrow> u16 \<Rightarrow> u8 \<Rightarrow> u16 \<Rightarrow> engineering option \<Rightarrow> report" where
  "report_of ts md me sd se dd eng =
     \<lparr>rp_state = ts, rp_moving_distance_cm = md, rp_moving_energy = me, rp_stationary_distance_cm = sd,
      rp_stationary_energy = se, rp_detection_distance_cm = dd, rp_engineering = eng\<rparr>"

lemma report_parse_data:
  "report_parse (report_data ty (basic_bytes ts md me sd se dd) rest) =
     rbind (if ty = DATA_TYPE_BASIC then (if rest \<noteq> [] then Inl InvalidFormat else Inr None)
            else if ty = DATA_TYPE_ENGINEERING then rbind (engineering_parse rest) (\<lambda>e. Inr (Some e))
            else Inl Unsupported)
       (\<lambda>eng. Inr (report_of ts md me sd se dd eng))"
proof -
  obtain a b where ab: "le_bytes 2 md = [a, b]" "le_word [a, b] = md"
    using le_bytes_2 by blast
  obtain c d where cd: "le_bytes 2 sd = [c, d]" "le_word [c, d] = sd"
    using le_bytes_2 by blast
  obtain f g where fg: "le_bytes 2 dd = [f, g]" "le_word [f, g] = dd"
    using le_bytes_2 by blast
  show ?thesis
    unfolding report_data_def basic_bytes_def ab(1) cd(1) fg(1)
    by (simp add: report_parse_def Let_def BASIC_LEN_def ab(2) cd(2) fg(2) ts_round_trip report_of_def)
qed

section \<open>Properties\<close>

lemma report_parse_layout:
  assumes "1 \<le> length mv" "length mv \<le> 9" "1 \<le> length st" "length st \<le> 9" "length ex < 256"
  shows "report_parse (report_data DATA_TYPE_BASIC (basic_bytes ts md me sd se dd) rest) =
      (if rest = [] then Inr (report_of ts md me sd se dd None) else Inl InvalidFormat) \<and>
    (\<exists>e. report_parse (report_data DATA_TYPE_ENGINEERING (basic_bytes ts md me sd se dd) (gate_block mv st ex)) =
        Inr (report_of ts md me sd se dd (Some e)) \<and>
      en_moving e = mv \<and> en_stationary e = st \<and> en_extra_bytes e = take 8 ex)"
  using engineering_parse_block[OF assms]
  by (auto simp: report_parse_data DATA_TYPE_BASIC_def DATA_TYPE_ENGINEERING_def)

text \<open>C39: encoding a command, on every branch: a rejected command or a short buffer leaves the buffer
  alone and says why; otherwise exactly \<open>encoded_len\<close> bytes are written, header, a length that counts
  the word and the value, the word, the value and the tail, and the rest is untouched.\<close>

theorem command_encode_spec:
  "command_encode c out =
     (case command_validate c of
        Inl e \<Rightarrow> (Inl e, out)
      | Inr _ \<Rightarrow>
          if length out < command_encoded_len c then (Inl (BufferTooSmall (command_encoded_len c)), out)
          else (Inr (command_encoded_len c), command_frame c @ drop (command_encoded_len c) out))"
proof -
  have w: "writes (cu_then (cu_put COMMAND_HEADER)
      (cu_then (cu_u16 (of_nat (2 + value_len c)))
      (cu_then (cu_u16 (command_word c))
      (cu_then (cu_value c) (cu_put COMMAND_TAIL))))) (command_frame c)"
    unfolding command_frame_def by (intro writes_then writes_put writes_u16 writes_value)
  show ?thesis
    using w[unfolded writes_def, rule_format, of "\<lparr>cu_out = out, cu_pos = 0, cu_needed = command_encoded_len c\<rparr>"]
      value_len_small[of c]
    by (auto simp: command_encode_def Let_def length_command_frame write_at_0 not_less split: sum.splits)
qed

lemma command_frames_distinct:
  assumes "command_frame c = command_frame d"
  shows "c = d"
proof -
  have w: "command_word c = command_word d" and v: "command_value c @ COMMAND_TAIL = command_value d @ COMMAND_TAIL"
    using assms by (auto simp: command_frame_def le_bytes_inject_u16)
  from v have "command_value c = command_value d"
    by simp
  with w show ?thesis
    by (cases c; cases d)
      (simp_all add: command_word_def word_consts command_value_def le_bytes_inject_u16 record_bytes_inject
        ucast_inject_u8 ucast_inject_u16 gate_value_inject baud_index_inject split: if_splits)
qed

end
