(* ===== verification/Ld2410_Parser.thy ===== *)
theory Ld2410_Parser
  imports Ld2410
begin

text \<open>
  The streaming, resynchronising parser of the LD2410 protocol (\<open>Parser\<close> in
  \<open>crates/rusty_esp_signal-core/src/radar/ld2410.rs\<close>): its state, one step per byte, the
  byte-wise \<open>feed\<close> and the bulk \<open>feed_slice\<close>. \<open>usize\<close> fields are natural numbers.
\<close>

record stats =
  st_frames :: u32
  st_resyncs :: u32
  st_dropped :: u32
  st_malformed :: u32

datatype pstate = PHeader | PLen | PData | PTail

record parser =
  pr_buf :: bytes
  pr_state :: pstate
  pr_kind :: kind
  pr_matched :: nat
  pr_len :: nat
  pr_pos :: nat
  pr_stats :: stats

definition bump :: "u32 \<Rightarrow> nat \<Rightarrow> u32" where
  "bump counter by_n = sat_add counter (if by_n < 2 ^ 32 then of_nat by_n else - 1)"

definition parser_new :: parser where
  "parser_new = \<lparr>pr_buf = replicate LD_MAX_FRAME 0, pr_state = PHeader, pr_kind = KReport, pr_matched = 0,
     pr_len = 0, pr_pos = 0,
     pr_stats = \<lparr>st_frames = 0, st_resyncs = 0, st_dropped = 0, st_malformed = 0\<rparr>\<rparr>"

definition parser_reset :: "parser \<Rightarrow> parser" where
  "parser_reset p = p\<lparr>pr_state := PHeader, pr_matched := 0, pr_len := 0, pr_pos := 0\<rparr>"

definition parser_start :: "parser \<Rightarrow> u8 \<Rightarrow> parser" where
  "parser_start p b =
     (let p = p\<lparr>pr_state := PHeader\<rparr> in
      case starting_with b of
        Some k \<Rightarrow> p\<lparr>pr_kind := k, pr_matched := 1\<rparr>
      | None \<Rightarrow> let s = pr_stats p in
          p\<lparr>pr_matched := 0, pr_stats := s\<lparr>st_dropped := bump (st_dropped s) 1\<rparr>\<rparr>)"

definition parser_abandon :: "parser \<Rightarrow> nat \<Rightarrow> parser" where
  "parser_abandon p consumed =
     (let s = pr_stats p in
      parser_reset (p\<lparr>pr_stats := s\<lparr>st_resyncs := bump (st_resyncs s) 1,
        st_dropped := bump (st_dropped s) consumed\<rparr>\<rparr>))"

definition nth_get :: "'a list \<Rightarrow> nat \<Rightarrow> 'a option" where
  "nth_get xs i = (if i < length xs then Some (xs ! i) else None)"

definition parser_step :: "parser \<Rightarrow> u8 \<Rightarrow> bool \<times> parser" where
  "parser_step p b =
     (case pr_state p of
        PHeader \<Rightarrow>
          if pr_matched p = 0 then (False, parser_start p b)
          else if nth_get (kind_header (pr_kind p)) (pr_matched p) = Some b then
            let p = p\<lparr>pr_matched := pr_matched p + 1\<rparr> in
            (False, if pr_matched p = 4 then p\<lparr>pr_state := PLen, pr_matched := 0, pr_len := 0\<rparr> else p)
          else (False, parser_start (parser_abandon p (pr_matched p)) b)
      | PLen \<Rightarrow>
          let p = p\<lparr>pr_len := pr_len p OR push_bit (8 * pr_matched p) (unat b), pr_matched := pr_matched p + 1\<rparr> in
          (False,
           if pr_matched p = 2 then
             (if MIN_DATA \<le> pr_len p \<and> pr_len p \<le> MAX_DATA then p\<lparr>pr_state := PData, pr_pos := 0\<rparr>
              else parser_start (parser_abandon p (4 + 1)) b)
           else p)
      | PData \<Rightarrow>
          let p = (if pr_pos p < length (pr_buf p) then p\<lparr>pr_buf := (pr_buf p)[pr_pos p := b]\<rparr> else p);
              p = p\<lparr>pr_pos := pr_pos p + 1\<rparr> in
          (False, if pr_pos p \<ge> pr_len p then p\<lparr>pr_state := PTail, pr_matched := 0\<rparr> else p)
      | PTail \<Rightarrow>
          if nth_get (kind_tail (pr_kind p)) (pr_matched p) \<noteq> Some b
          then (False, parser_start (parser_abandon p (4 + 2 + pr_len p + pr_matched p)) b)
          else let p = p\<lparr>pr_matched := pr_matched p + 1\<rparr> in
            if pr_matched p < 4 then (False, p)
            else (True, p\<lparr>pr_state := PHeader, pr_matched := 0\<rparr>))"

definition parser_emit :: "parser \<Rightarrow> frame option \<times> parser" where
  "parser_emit p =
     (let data = or_else (slice_get (pr_buf p) 0 (pr_len p)) []; s = pr_stats p in
      case frame_decode (pr_kind p) data of
        Inr frame \<Rightarrow> (Some frame, p\<lparr>pr_stats := s\<lparr>st_frames := bump (st_frames s) 1\<rparr>\<rparr>)
      | Inl _ \<Rightarrow> (None, p\<lparr>pr_stats := s\<lparr>st_malformed := bump (st_malformed s) 1\<rparr>\<rparr>))"

definition parser_feed :: "parser \<Rightarrow> u8 \<Rightarrow> frame option \<times> parser" where
  "parser_feed p b = (case parser_step p b of (True, p') \<Rightarrow> parser_emit p' | (False, p') \<Rightarrow> (None, p'))"

text \<open>The loop of \<open>feed_slice\<close>, at index \<open>i\<close> of the slice.\<close>

function feed_slice_loop :: "parser \<Rightarrow> bytes \<Rightarrow> nat \<Rightarrow> (nat \<times> frame option) \<times> parser" where
  "feed_slice_loop p bs i =
     (if i < length bs then
        let n = min (pr_len p - pr_pos p) (length bs - i) in
        if pr_state p = PData \<and> n > 1 then
          let p = (if pr_pos p < LD_MAX_FRAME
                   then p\<lparr>pr_buf := write_at (pr_buf p) (pr_pos p)
                          (take (min n (LD_MAX_FRAME - pr_pos p)) (drop i bs))\<rparr> else p);
              p = p\<lparr>pr_pos := pr_pos p + n\<rparr>;
              p = (if pr_pos p \<ge> pr_len p then p\<lparr>pr_state := PTail, pr_matched := 0\<rparr> else p)
          in feed_slice_loop p bs (i + n)
        else
          (case parser_step p (bs ! i) of
             (True, p') \<Rightarrow> (case parser_emit p' of (fr, p'') \<Rightarrow> ((i + 1, fr), p''))
           | (False, p') \<Rightarrow> feed_slice_loop p' bs (i + 1))
      else ((length bs, None), p))"
  by pat_completeness auto
termination by (relation "measure (\<lambda>(_, bs, i). length bs - i)") auto

declare feed_slice_loop.simps [simp del]

definition feed_slice :: "parser \<Rightarrow> bytes \<Rightarrow> (nat \<times> frame option) \<times> parser" where
  "feed_slice p bs = feed_slice_loop p bs 0"

section \<open>Byte by byte\<close>

text \<open>What \<open>feed_slice\<close> stands for: \<open>step\<close> on one byte after the other, until one completes a
  frame. \<open>quiet\<close> is a run that completes none.\<close>

fun feed_until :: "parser \<Rightarrow> bytes \<Rightarrow> nat \<Rightarrow> (nat \<times> frame option) \<times> parser" where
  "feed_until p [] n = ((n, None), p)"
| "feed_until p (b # bs) n =
     (case parser_step p b of
        (True, p') \<Rightarrow> (case parser_emit p' of (fr, p'') \<Rightarrow> ((n + 1, fr), p''))
      | (False, p') \<Rightarrow> feed_until p' bs (n + 1))"

fun quiet :: "parser \<Rightarrow> bytes \<Rightarrow> parser option" where
  "quiet p [] = Some p"
| "quiet p (b # bs) = (case parser_step p b of (True, _) \<Rightarrow> None | (False, p') \<Rightarrow> quiet p' bs)"

lemma feed_until_quiet:
  "quiet p xs = Some p' \<Longrightarrow> feed_until p (xs @ ys) n = feed_until p' ys (n + length xs)"
  by (induction xs arbitrary: p n) (auto split: prod.splits bool.splits)

lemma quiet_append: "quiet p xs = Some p' \<Longrightarrow> quiet p (xs @ ys) = quiet p' ys"
  by (induction xs arbitrary: p) (auto split: prod.splits bool.splits)

definition parser_wf :: "parser \<Rightarrow> bool" where
  "parser_wf p \<longleftrightarrow> length (pr_buf p) = LD_MAX_FRAME \<and>
     (case pr_state p of
        PHeader \<Rightarrow> pr_matched p < 4
      | PLen \<Rightarrow> pr_matched p < 2 \<and> (pr_matched p = 0 \<longrightarrow> pr_len p = 0)
      | PData \<Rightarrow> MIN_DATA \<le> pr_len p \<and> pr_len p \<le> MAX_DATA \<and> pr_pos p < pr_len p
      | PTail \<Rightarrow> MIN_DATA \<le> pr_len p \<and> pr_len p \<le> MAX_DATA \<and> pr_matched p < 4)"

text \<open>The bytes of the frame in progress, and of a completed frame.\<close>

definition pending :: "parser \<Rightarrow> nat" where
  "pending p = (case pr_state p of
       PHeader \<Rightarrow> pr_matched p | PLen \<Rightarrow> 4 + pr_matched p | PData \<Rightarrow> 6 + pr_pos p
     | PTail \<Rightarrow> 6 + pr_len p + pr_matched p)"

lemma parser_new_wf [simp]: "parser_wf parser_new" "pending parser_new = 0"
  by (simp_all add: parser_wf_def parser_new_def pending_def)

lemma start_wf: "length (pr_buf p) = LD_MAX_FRAME \<Longrightarrow> parser_wf (parser_start p b)"
  by (auto simp: parser_start_def parser_wf_def Let_def split: option.splits)

lemma abandon_sel [simp]:
  "pr_buf (parser_abandon p n) = pr_buf p" "pr_state (parser_abandon p n) = PHeader"
  "pr_matched (parser_abandon p n) = 0"
  "st_dropped (pr_stats (parser_abandon p n)) = bump (st_dropped (pr_stats p)) n"
  by (simp_all add: parser_abandon_def parser_reset_def Let_def)

lemma step_wf:
  assumes "parser_wf p" and "parser_step p b = (done, p')"
  shows "parser_wf p'" and "done \<Longrightarrow> pr_state p' = PHeader \<and> pr_matched p' = 0 \<and>
    MIN_DATA \<le> pr_len p' \<and> pr_len p' \<le> MAX_DATA"
proof -
  have buf: "length (pr_buf p) = LD_MAX_FRAME"
    using assms(1) by (simp add: parser_wf_def)
  have "parser_wf p' \<and> (done \<longrightarrow> pr_state p' = PHeader \<and> pr_matched p' = 0 \<and>
    MIN_DATA \<le> pr_len p' \<and> pr_len p' \<le> MAX_DATA)"
  proof (cases "pr_state p")
    case PHeader
    then show ?thesis
      using assms buf by (auto simp: parser_step_def Let_def start_wf split: if_splits) (auto simp: parser_wf_def)
  next
    case PLen
    then show ?thesis
      using assms buf
      by (auto simp: parser_step_def Let_def start_wf split: if_splits) (auto simp: parser_wf_def MIN_DATA_def)
  next
    case PData
    then show ?thesis
      using assms buf by (auto simp: parser_step_def Let_def parser_wf_def split: if_splits)
  next
    case PTail
    then show ?thesis
      using assms buf by (auto simp: parser_step_def Let_def start_wf split: if_splits) (auto simp: parser_wf_def)
  qed
  then show "parser_wf p'" and "done \<Longrightarrow> pr_state p' = PHeader \<and> pr_matched p' = 0 \<and>
    MIN_DATA \<le> pr_len p' \<and> pr_len p' \<le> MAX_DATA"
    by blast+
qed

lemma emit_sel [simp]:
  "pr_buf (snd (parser_emit p)) = pr_buf p" "pr_state (snd (parser_emit p)) = pr_state p"
  "pr_matched (snd (parser_emit p)) = pr_matched p" "pr_len (snd (parser_emit p)) = pr_len p"
  "pr_pos (snd (parser_emit p)) = pr_pos p"
  "st_dropped (pr_stats (snd (parser_emit p))) = st_dropped (pr_stats p)"
  by (simp_all add: parser_emit_def Let_def split: sum.splits)

lemma emit_wf: "parser_wf p \<Longrightarrow> parser_wf (snd (parser_emit p))"
  by (cases "pr_state p") (simp_all add: parser_wf_def)

section \<open>The bulk copy of the data phase\<close>

definition data_run :: "parser \<Rightarrow> bytes \<Rightarrow> parser" where
  "data_run p ds =
     (let p = p\<lparr>pr_buf := write_at (pr_buf p) (pr_pos p) ds, pr_pos := pr_pos p + length ds\<rparr>
      in if pr_pos p \<ge> pr_len p then p\<lparr>pr_state := PTail, pr_matched := 0\<rparr> else p)"

lemma write_at_Cons:
  "i < length xs \<Longrightarrow> write_at (xs[i := b]) (Suc i) ds = write_at xs i (b # ds)"
  by (simp add: write_at_def take_Suc_conv_app_nth drop_update_cancel)

lemma step_data:
  assumes "parser_wf p" and "pr_state p = PData"
  shows "parser_step p b = (False, data_run p [b])"
proof -
  have "pr_pos p < length (pr_buf p)"
    using assms by (simp add: parser_wf_def ld_consts)
  then have "write_at (pr_buf p) (pr_pos p) [b] = (pr_buf p)[pr_pos p := b]"
    by (simp add: write_at_def upd_conv_take_nth_drop)
  with \<open>pr_pos p < length (pr_buf p)\<close> show ?thesis
    using assms(2) by (simp add: parser_step_def data_run_def Let_def)
qed

lemma quiet_data:
  assumes "parser_wf p" and "pr_state p = PData" and "ds \<noteq> []" and "pr_pos p + length ds \<le> pr_len p"
  shows "quiet p ds = Some (data_run p ds)"
  using assms
proof (induction ds arbitrary: p)
  case Nil
  then show ?case by simp
next
  case (Cons b ds)
  note st = step_data[OF Cons.prems(1,2), of b]
  show ?case
  proof (cases "ds = []")
    case True
    then show ?thesis
      by (simp add: st)
  next
    case False
    let ?p = "data_run p [b]"
    have pos: "pr_pos p < length (pr_buf p)" and lt: "Suc (pr_pos p) < pr_len p"
      using Cons.prems False by (cases ds; auto simp: parser_wf_def ld_consts)+
    have wf: "parser_wf ?p"
      using step_wf(1)[OF Cons.prems(1) st] .
    have sel: "pr_state ?p = PData" "pr_pos ?p = Suc (pr_pos p)" "pr_len ?p = pr_len p"
      "pr_buf ?p = (pr_buf p)[pr_pos p := b]"
      using lt Cons.prems(2) pos by (simp_all add: data_run_def Let_def write_at_def upd_conv_take_nth_drop)
    have "quiet ?p ds = Some (data_run ?p ds)"
      using Cons.prems(4) sel by (intro Cons.IH[OF wf _ False]) simp_all
    moreover have "data_run ?p ds = data_run p (b # ds)"
      using lt write_at_Cons[OF pos, of b ds] pos
      by (simp add: data_run_def Let_def write_at_def upd_conv_take_nth_drop)
    ultimately show ?thesis
      by (simp add: st)
  qed
qed

lemma feed_slice_loop_eq:
  assumes "parser_wf p" and "i \<le> length bs"
  shows "feed_slice_loop p bs i = feed_until p (drop i bs) i"
  using assms
proof (induction p bs i rule: feed_slice_loop.induct)
  case (1 p bs i)
  let ?n = "min (pr_len p - pr_pos p) (length bs - i)"
  show ?case
  proof (cases "i < length bs")
    case False
    then show ?thesis
      using 1(4) unfolding feed_slice_loop.simps[of p bs i] by simp
  next
    case i: True
    then have d: "drop i bs = bs ! i # drop (Suc i) bs"
      by (simp add: Cons_nth_drop_Suc)
    show ?thesis
    proof (cases "pr_state p = PData \<and> ?n > 1")
      case bulk: True
      define n where "n = ?n"
      define ds where "ds = take n (drop i bs)"
      have st: "pr_state p = PData" and n1: "n > 1"
        using bulk by (simp_all add: n_def)
      have pos: "pr_pos p + n \<le> pr_len p" "pr_len p \<le> 54" "i + n \<le> length bs"
        using 1(3) bulk i by (auto simp: parser_wf_def ld_consts n_def)
      have ds: "length ds = n" "ds \<noteq> []"
        using pos n1 by (auto simp: ds_def)
      have q: "quiet p ds = Some (data_run p ds)"
        using st pos ds by (intro quiet_data[OF 1(3)]) auto
      have lt: "pr_pos p < LD_MAX_FRAME" and "min n (LD_MAX_FRAME - pr_pos p) = n"
        using pos n1 by (auto simp: LD_MAX_FRAME_def)
      then have tk: "take (min n (LD_MAX_FRAME - pr_pos p)) (drop i bs) = ds"
        by (simp only: ds_def)
      have wf: "parser_wf (data_run p ds)"
        using 1(3) st pos ds by (auto simp: data_run_def Let_def parser_wf_def ld_consts)
      have run: "data_run p ds = (let p = p\<lparr>pr_buf := write_at (pr_buf p) (pr_pos p) ds\<rparr>;
          p = p\<lparr>pr_pos := pr_pos p + n\<rparr>
        in if pr_pos p \<ge> pr_len p then p\<lparr>pr_state := PTail, pr_matched := 0\<rparr> else p)"
        by (simp add: data_run_def Let_def ds(1))
      have fs: "feed_slice_loop p bs i = feed_slice_loop (data_run p ds) bs (i + n)"
        unfolding feed_slice_loop.simps[of p bs i] Let_def n_def[symmetric] tk run Let_def
        by (simp only: i st n1 lt ds(1) if_True simp_thms)
      have "feed_slice_loop (data_run p ds) bs (i + n) = feed_until (data_run p ds) (drop (i + n) bs) (i + n)"
        using 1(1)[OF i n_def _ refl refl refl] st n1 wf pos(3)
        unfolding tk run Let_def if_P[OF lt] by simp
      also have "\<dots> = feed_until p (ds @ drop (i + n) bs) i"
        using feed_until_quiet[OF q, of "drop (i + n) bs" i] ds(1) by simp
      also have "ds @ drop (i + n) bs = drop i bs"
        unfolding ds_def by (metis append_take_drop_id drop_drop add.commute)
      finally show ?thesis
        by (simp only: fs)
    next
      case single: False
      obtain dn p' where st: "parser_step p (bs ! i) = (dn, p')"
        by (cases "parser_step p (bs ! i)")
      have wf: "parser_wf p'"
        using step_wf(1)[OF 1(3) st] .
      have one: "feed_slice_loop p bs i = (case parser_step p (bs ! i) of
             (True, p') \<Rightarrow> (case parser_emit p' of (fr, p'') \<Rightarrow> ((i + 1, fr), p''))
           | (False, p') \<Rightarrow> feed_slice_loop p' bs (i + 1))"
        unfolding feed_slice_loop.simps[of p bs i] Let_def if_P[OF i] if_not_P[OF single] ..
      show ?thesis
      proof (cases dn)
        case True
        then show ?thesis
          unfolding one d feed_until.simps st by simp
      next
        case False
        then have "feed_slice_loop p' bs (i + 1) = feed_until p' (drop (i + 1) bs) (i + 1)"
          using 1(2)[OF i refl single st[symmetric]] wf i False by simp
        with False show ?thesis
          unfolding one d feed_until.simps st by simp
      qed
    qed
  qed
qed

section \<open>A whole frame\<close>

definition on_wire :: "kind \<Rightarrow> bytes \<Rightarrow> bytes" where
  "on_wire k data = kind_header k @ le_bytes 2 (of_nat (length data) :: u16) @ data @ kind_tail k"

definition hunting :: "parser \<Rightarrow> bool" where
  "hunting p \<longleftrightarrow> pr_state p = PHeader \<and> pr_matched p = 0"

lemma kind_header_bytes:
  "\<exists>a b c d. kind_header k = [a, b, c, d] \<and> starting_with a = Some k"
  by (cases k) (simp_all add: kind_header_def ld_bytes starting_with_def)

lemma kind_tail_bytes: "\<exists>a b c d. kind_tail k = [a, b, c, d]"
  by (cases k) (simp_all add: kind_tail_def ld_bytes)

lemma length_kind_header [simp]: "length (kind_header k) = 4" "length (kind_tail k) = 4"
  by (cases k; simp add: kind_header_def kind_tail_def ld_bytes)+

lemma length_on_wire: "length (on_wire k data) = FRAMING + length data"
  by (simp add: on_wire_def FRAMING_def)

lemma quiet_junk:
  assumes "hunting p" and "parser_wf p" and "list_all (\<lambda>b. starting_with b = None) junk"
  shows "\<exists>p'. quiet p junk = Some p' \<and> hunting p' \<and> parser_wf p'"
  using assms
proof (induction junk arbitrary: p)
  case Nil
  then show ?case by simp
next
  case (Cons b junk)
  have st: "parser_step p b = (False, parser_start p b)"
    using Cons.prems(1) by (simp add: hunting_def parser_step_def)
  have "hunting (parser_start p b)"
    using Cons.prems(3) by (simp add: hunting_def parser_start_def Let_def)
  moreover have "parser_wf (parser_start p b)"
    using step_wf(1)[OF Cons.prems(2) st] .
  ultimately show ?case
    using Cons.IH[of "parser_start p b"] Cons.prems(3) by (simp add: st)
qed

lemma quiet_header:
  assumes "hunting p"
  shows "quiet p (kind_header k) = Some (p\<lparr>pr_state := PLen, pr_kind := k, pr_matched := 0, pr_len := 0\<rparr>)"
proof -
  obtain a b c d where h: "kind_header k = [a, b, c, d]" and a: "starting_with a = Some k"
    using kind_header_bytes by blast
  show ?thesis
    using assms unfolding h
    by (simp add: hunting_def parser_step_def parser_start_def Let_def nth_get_def h a)
qed

lemma or_push_bit_8:
  assumes "a < 256"
  shows "a OR push_bit 8 b = a + 256 * (b :: nat)"
proof -
  have t: "take_bit 8 a = a"
    using assms by (simp add: take_bit_nat_eq_self)
  have "a AND push_bit 8 b = 0"
  proof (rule bit_eqI)
    fix n
    have "n < 8" if "bit a n"
      using that t by (metis bit_take_bit_iff)
    then show "bit (a AND push_bit 8 b) n \<longleftrightarrow> bit 0 n"
      by (auto simp: bit_and_iff bit_push_bit_iff)
  qed
  then have "a + push_bit 8 b = a OR push_bit 8 b"
    by (rule disjunctive_add_eq_or)
  then show ?thesis
    by (simp add: push_bit_eq_mult mult.commute)
qed

lemma le_word_nat: "unat (le_word [a, b] :: u16) = unat a + 256 * unat b"
proof -
  have "unat a < 256" "unat b < 256"
    using unat_less[where 'a = 8] by simp_all
  then have "256 * unat b + unat a < 2 ^ 16"
    by simp
  moreover have be: "be_nat (rev [a, b]) = 256 * unat b + unat a"
    using be_nat_snoc[of "[b]" a] be_nat_snoc[of "[]" b] by simp
  ultimately show ?thesis
    unfolding le_word_def be_word_def be unat_of_nat by simp
qed

lemma quiet_len:
  assumes "pr_state p = PLen" "pr_matched p = 0" "pr_len p = 0"
    and "MIN_DATA \<le> unat w" "unat w \<le> MAX_DATA"
  shows "quiet p (le_bytes 2 (w :: u16)) = Some (p\<lparr>pr_len := unat w, pr_matched := 2, pr_state := PData, pr_pos := 0\<rparr>)"
proof -
  obtain a b where ab: "le_bytes 2 w = [a, b]" and w: "le_word [a, b] = w"
    using le_bytes_2 by blast
  have "unat a < 256"
    using unat_less[of a] by simp
  from or_push_bit_8[OF this, of "unat b"] have l: "unat a OR push_bit 8 (unat b) = unat w"
    using le_word_nat[of a b] by (simp add: w)
  show ?thesis
    using assms l unfolding ab
    by (simp add: parser_step_def Let_def)
qed

lemma step_tail:
  assumes "pr_state p = PTail" "pr_matched p = 0"
  shows "\<exists>t u. kind_tail (pr_kind p) = t @ [u] \<and> length t = 3 \<and>
    quiet p t = Some (p\<lparr>pr_matched := 3\<rparr>) \<and>
    parser_step (p\<lparr>pr_matched := 3\<rparr>) u = (True, p\<lparr>pr_state := PHeader, pr_matched := 0\<rparr>)"
proof -
  obtain a b c d where h: "kind_tail (pr_kind p) = [a, b, c, d]"
    using kind_tail_bytes by blast
  have "quiet p [a, b, c] = Some (p\<lparr>pr_matched := 3\<rparr>)"
    using assms by (simp add: parser_step_def Let_def nth_get_def h numeral_3_eq_3)
  moreover have "parser_step (p\<lparr>pr_matched := 3\<rparr>) d = (True, p\<lparr>pr_state := PHeader, pr_matched := 0\<rparr>)"
    using assms by (simp add: parser_step_def Let_def nth_get_def h)
  ultimately show ?thesis
    using h by (intro exI[of _ "[a, b, c]"] exI[of _ d]) simp
qed

lemma feed_frame:
  assumes "hunting p" and "parser_wf p" and "MIN_DATA \<le> length data" and "length data \<le> MAX_DATA"
  shows "\<exists>p'. feed_until p (on_wire k data @ rest) n =
      ((n + length (on_wire k data), case frame_decode k data of Inr f \<Rightarrow> Some f | Inl _ \<Rightarrow> None), p') \<and>
    hunting p' \<and> parser_wf p' \<and> st_dropped (pr_stats p') = st_dropped (pr_stats p)"
proof -
  let ?w = "of_nat (length data) :: u16"
  have w: "unat ?w = length data"
    using assms(4) by (simp add: unat_of_nat ld_consts)
  have buf: "length (pr_buf p) = 64"
    using assms(2) by (simp add: parser_wf_def ld_consts)
  define p1 where "p1 = p\<lparr>pr_state := PLen, pr_kind := k, pr_matched := 0, pr_len := 0\<rparr>"
  define p2 where "p2 = p1\<lparr>pr_len := unat ?w, pr_matched := 2, pr_state := PData, pr_pos := 0\<rparr>"
  define p3 where "p3 = data_run p2 data"
  have q1: "quiet p (kind_header k) = Some p1"
    using quiet_header[OF assms(1)] by (simp add: p1_def)
  have q2: "quiet p1 (le_bytes 2 ?w) = Some p2"
    unfolding p2_def by (rule quiet_len) (use assms w in \<open>simp_all add: p1_def\<close>)
  have wf2: "parser_wf p2" "pr_state p2 = PData" "pr_pos p2 + length data \<le> pr_len p2" "data \<noteq> []"
    using assms(3,4) w buf by (auto simp: p2_def p1_def parser_wf_def ld_consts)
  have q3: "quiet p2 data = Some p3"
    unfolding p3_def using wf2 by (intro quiet_data)
  have s3: "pr_state p3 = PTail" "pr_matched p3 = 0" "pr_kind p3 = k" "pr_len p3 = length data"
    "pr_buf p3 = write_at (pr_buf p) 0 data" "pr_stats p3 = pr_stats p"
    by (simp_all add: p3_def data_run_def p2_def p1_def Let_def w)
  obtain t u where tl: "kind_tail k = t @ [u]" "length t = 3" "quiet p3 t = Some (p3\<lparr>pr_matched := 3\<rparr>)"
      "parser_step (p3\<lparr>pr_matched := 3\<rparr>) u = (True, p3\<lparr>pr_state := PHeader, pr_matched := 0\<rparr>)"
    using step_tail[OF s3(1,2)] s3(3) by auto
  define p4 where "p4 = p3\<lparr>pr_state := PHeader, pr_matched := 0\<rparr>"
  have q: "quiet p (kind_header k @ le_bytes 2 ?w @ data @ t) = Some (p3\<lparr>pr_matched := 3\<rparr>)"
    by (simp add: quiet_append[OF q1] quiet_append[OF q2] quiet_append[OF q3] tl(3))
  have wire: "on_wire k data @ rest = (kind_header k @ le_bytes 2 ?w @ data @ t) @ u # rest"
    by (simp add: on_wire_def tl(1))
  have em: "fst (parser_emit p4) = (case frame_decode k data of Inr f \<Rightarrow> Some f | Inl _ \<Rightarrow> None)"
    using assms(4) buf
    by (simp add: p4_def parser_emit_def s3 Let_def slice_get_def write_at_0 or_else_def ld_consts split: sum.splits)
  have "feed_until p (on_wire k data @ rest) n = (case parser_emit p4 of (fr, p'') \<Rightarrow>
      ((n + length (on_wire k data), fr), p''))"
    unfolding wire feed_until_quiet[OF q] feed_until.simps tl(4) p4_def[symmetric]
    by (simp add: length_on_wire FRAMING_def tl(2) split: prod.split)
  moreover have "hunting (snd (parser_emit p4))" "parser_wf (snd (parser_emit p4))"
    "st_dropped (pr_stats (snd (parser_emit p4))) = st_dropped (pr_stats p)"
    using assms(4) buf by (simp_all add: hunting_def p4_def s3 parser_wf_def ld_consts)
  ultimately show ?thesis
    by (intro exI[of _ "snd (parser_emit p4)"]) (simp add: em case_prod_beta)
qed

lemma frame_parse_on_wire:
  assumes "length data < 2 ^ 16"
  shows "frame_parse (on_wire k data) = frame_decode k data"
proof -
  obtain a b where ab: "le_bytes 2 (of_nat (length data) :: u16) = [a, b]" "le_word [a, b] = (of_nat (length data) :: u16)"
    using le_bytes_2 by blast
  have w: "unat (of_nat (length data) :: u16) = length data"
    using assms by (simp add: unat_of_nat)
  have ow: "on_wire k data = kind_header k @ a # b # data @ kind_tail k"
    by (simp add: on_wire_def ab)
  have l: "le16 (on_wire k data) 4 = Some (of_nat (length data))"
    by (simp add: le16_def ow nth_append ab)
  have d: "slice_get (on_wire k data) 6 (6 + length data) = Some data"
    by (simp add: slice_get_def ow)
  have t: "drop (6 + length data) (on_wire k data) = kind_tail k"
    by (simp add: ow)
  have h: "take 4 (on_wire k data) = kind_header k"
    by (simp add: ow)
  have hk: "(if kind_header k = REPORT_HEADER then Inr KReport
      else if kind_header k = COMMAND_HEADER then Inr KCommand else Inl InvalidFormat) = (Inr k :: err + kind)"
    by (cases k) (simp_all add: kind_header_def ld_bytes)
  have "\<not> length (on_wire k data) < 4"
    by (simp add: length_on_wire FRAMING_def)
  then show ?thesis
    unfolding frame_parse_def h l hk Let_def by (simp add: FRAMING_def w d t)
qed

section \<open>Accounting\<close>

lemma unat_bump: "unat c + n < 2 ^ 32 \<Longrightarrow> unat (bump c n) = unat c + n"
  by (simp add: bump_def sat_simps unat_of_nat)

definition dropped :: "parser \<Rightarrow> nat" where
  "dropped p = unat (st_dropped (pr_stats p))"

lemma start_account:
  "dropped p + 1 < 2 ^ 32 \<Longrightarrow> dropped (parser_start p b) + pending (parser_start p b) = dropped p + 1"
  by (auto simp: dropped_def parser_start_def pending_def Let_def unat_bump split: option.splits)

lemma abandon_account:
  "dropped p + n < 2 ^ 32 \<Longrightarrow> dropped (parser_abandon p n) = dropped p + n"
  by (simp add: dropped_def unat_bump)

lemma stats_update_account [simp]:
  "dropped (p\<lparr>pr_buf := b\<rparr>) = dropped p" "dropped (p\<lparr>pr_state := s\<rparr>) = dropped p"
  "dropped (p\<lparr>pr_matched := m\<rparr>) = dropped p" "dropped (p\<lparr>pr_len := l\<rparr>) = dropped p"
  "dropped (p\<lparr>pr_pos := i\<rparr>) = dropped p"
  by (simp_all add: dropped_def)

lemma restart_account:
  assumes "dropped p + n + 1 < 2 ^ 32"
  shows "dropped (parser_start (parser_abandon p n) b) + pending (parser_start (parser_abandon p n) b) = dropped p + n + 1"
  using assms by (simp add: start_account abandon_account)

lemma step_account:
  assumes "parser_wf p" and "parser_step p b = (dn, p')" and "dropped p + pending p + 1 < 2 ^ 32"
  shows "dropped p' + pending p' + (if dn then FRAMING + pr_len p' else 0) = dropped p + pending p + 1"
proof (cases "pr_state p")
  case PHeader
  then show ?thesis
    using assms restart_account[of p "pr_matched p" b] start_account[of p b]
    by (auto simp: parser_step_def Let_def pending_def split: if_splits)
next
  case PLen
  define q where "q = p\<lparr>pr_len := pr_len p OR push_bit (8 * pr_matched p) (unat b), pr_matched := pr_matched p + 1\<rparr>"
  have q: "dropped q = dropped p" "pr_matched q = pr_matched p + 1" "pr_state q = PLen"
    using PLen by (simp_all add: q_def)
  have m: "pr_matched p < 2"
    using assms(1) PLen by (simp add: parser_wf_def)
  have st: "parser_step p b = (False,
      if pr_matched q = 2 then
        (if MIN_DATA \<le> pr_len q \<and> pr_len q \<le> MAX_DATA then q\<lparr>pr_state := PData, pr_pos := 0\<rparr>
         else parser_start (parser_abandon q (4 + 1)) b)
      else q)"
    by (simp only: parser_step_def PLen pstate.case Let_def q_def)
  have pn: "pending p = 4 + pr_matched p"
    using PLen by (simp add: pending_def)
  consider (more) "pr_matched q \<noteq> 2" | (data) "pr_matched q = 2" "MIN_DATA \<le> pr_len q \<and> pr_len q \<le> MAX_DATA"
    | (bad) "pr_matched q = 2" "\<not> (MIN_DATA \<le> pr_len q \<and> pr_len q \<le> MAX_DATA)"
    by blast
  then show ?thesis
  proof cases
    case more
    then show ?thesis
      using assms(2) st pn q by (simp add: pending_def)
  next
    case data
    then have "p' = q\<lparr>pr_state := PData, pr_pos := 0\<rparr>" "\<not> dn"
      using assms(2) st by auto
    moreover have "pending (q\<lparr>pr_state := PData, pr_pos := 0\<rparr>) = 6"
      by (simp add: pending_def)
    ultimately show ?thesis
      using pn q data(1) by simp
  next
    case bad
    then have "p' = parser_start (parser_abandon q 5) b" "\<not> dn"
      using assms(2) st by auto
    then show ?thesis
      using restart_account[of q 5 b] assms(3) pn q bad(1) by simp
  qed
next
  case PData
  then show ?thesis
    using assms
    by (auto simp: parser_step_def Let_def pending_def parser_wf_def split: if_splits)
next
  case PTail
  then show ?thesis
    using assms restart_account[of p "6 + pr_len p + pr_matched p" b]
    by (auto simp: parser_step_def Let_def pending_def parser_wf_def FRAMING_def split: if_splits)
qed

lemma step_stats:
  "parser_step p b = (dn, p') \<Longrightarrow> st_frames (pr_stats p') = st_frames (pr_stats p) \<and>
     st_malformed (pr_stats p') = st_malformed (pr_stats p)"
  by (cases "pr_state p")
    (auto simp: parser_step_def parser_start_def parser_abandon_def parser_reset_def Let_def
      split: if_splits option.splits)

text \<open>A whole stream, byte by byte: the length of the data and the result of every frame that
  completed, and the parser at the end.\<close>

fun feed_all :: "parser \<Rightarrow> bytes \<Rightarrow> (nat \<times> frame option) list \<times> parser" where
  "feed_all p [] = ([], p)"
| "feed_all p (b # bs) =
     (case parser_step p b of
        (False, p') \<Rightarrow> feed_all p' bs
      | (True, p') \<Rightarrow> (case parser_emit p' of (fr, p'') \<Rightarrow>
          (case feed_all p'' bs of (out, q) \<Rightarrow> ((pr_len p', fr) # out, q))))"

definition frame_bytes_of :: "(nat \<times> frame option) list \<Rightarrow> nat" where
  "frame_bytes_of out = sum_list (map (\<lambda>(l, _). FRAMING + l) out)"

lemma frame_bytes_of_simps [simp]:
  "frame_bytes_of [] = 0" "frame_bytes_of ((l, fr) # out) = FRAMING + l + frame_bytes_of out"
  by (simp_all add: frame_bytes_of_def)

definition delivered :: "(nat \<times> frame option) list \<Rightarrow> nat" where
  "delivered out = length (filter (\<lambda>x. snd x \<noteq> None) out)"

lemma delivered_simps [simp]:
  "delivered [] = 0" "delivered ((l, fr) # out) = (if fr = None then 0 else 1) + delivered out"
  by (simp_all add: delivered_def)

lemma delivered_le: "delivered out \<le> length out"
  by (simp add: delivered_def)

lemma emit_stats:
  assumes "unat (st_frames (pr_stats p)) + 1 < 2 ^ 32" and "unat (st_malformed (pr_stats p)) + 1 < 2 ^ 32"
    and "parser_emit p = (fr, p')"
  shows "unat (st_frames (pr_stats p')) = unat (st_frames (pr_stats p)) + (if fr = None then 0 else 1)"
    and "unat (st_malformed (pr_stats p')) = unat (st_malformed (pr_stats p)) + (if fr = None then 1 else 0)"
  using assms by (auto simp: parser_emit_def Let_def unat_bump split: sum.splits)

lemma feed_all_account:
  assumes "parser_wf p" and "feed_all p bs = (out, q)" and "dropped p + pending p + length bs < 2 ^ 32"
    and "unat (st_frames (pr_stats p)) + length bs < 2 ^ 32" and "unat (st_malformed (pr_stats p)) + length bs < 2 ^ 32"
  shows "dropped q + pending q + frame_bytes_of out = dropped p + pending p + length bs \<and>
    unat (st_frames (pr_stats q)) = unat (st_frames (pr_stats p)) + delivered out \<and>
    unat (st_malformed (pr_stats q)) = unat (st_malformed (pr_stats p)) + (length out - delivered out)"
  using assms
proof (induction bs arbitrary: p out)
  case Nil
  then show ?case by (auto simp: delivered_def)
next
  case (Cons b bs)
  obtain dn p' where st: "parser_step p b = (dn, p')"
    by (cases "parser_step p b")
  note wf = step_wf[OF Cons.prems(1) st]
  have acc: "dropped p' + pending p' + (if dn then FRAMING + pr_len p' else 0) = dropped p + pending p + 1"
    using Cons.prems(3) by (intro step_account[OF Cons.prems(1) st]) simp
  note stt = step_stats[OF st]
  show ?case
  proof (cases dn)
    case False
    then have "feed_all p' bs = (out, q)"
      using Cons.prems(2) st by simp
    from Cons.IH[OF wf(1) this] show ?thesis
      using acc stt Cons.prems(3-5) False by simp
  next
    case True
    obtain fr p'' where em: "parser_emit p' = (fr, p'')"
      by (cases "parser_emit p'")
    obtain out' where fa: "feed_all p'' bs = (out', q)" and out: "out = (pr_len p', fr) # out'"
      using Cons.prems(2) st em True by (auto split: prod.splits)
    have wf'': "parser_wf p''" and dr: "dropped p'' = dropped p'" and pn: "pending p'' = 0" "pending p' = 0"
      using emit_wf[OF wf(1)] emit_sel[of p'] wf(2)[OF True] by (simp_all add: em dropped_def pending_def)
    have es: "unat (st_frames (pr_stats p'')) = unat (st_frames (pr_stats p)) + (if fr = None then 0 else 1)"
      "unat (st_malformed (pr_stats p'')) = unat (st_malformed (pr_stats p)) + (if fr = None then 1 else 0)"
      using emit_stats[OF _ _ em] stt Cons.prems(4,5) by simp_all
    have ih: "dropped q + pending q + frame_bytes_of out' = dropped p'' + pending p'' + length bs \<and>
      unat (st_frames (pr_stats q)) = unat (st_frames (pr_stats p'')) + delivered out' \<and>
      unat (st_malformed (pr_stats q)) = unat (st_malformed (pr_stats p'')) + (length out' - delivered out')"
      using Cons.prems(3-5) acc es dr pn by (intro Cons.IH[OF wf'' fa]) (auto split: if_splits)
    show ?thesis
      using ih acc es dr pn True out delivered_le[of out'] by (auto simp: Suc_diff_le)
  qed
qed

lemma feed_all_wf: "parser_wf p \<Longrightarrow> parser_wf (snd (feed_all p bs))"
proof (induction bs arbitrary: p)
  case Nil
  then show ?case by simp
next
  case (Cons b bs)
  obtain dn p' where st: "parser_step p b = (dn, p')"
    by (cases "parser_step p b")
  have "parser_wf p'" "parser_wf (snd (parser_emit p'))"
    using step_wf(1)[OF Cons.prems st] emit_wf by auto
  then show ?case
    using Cons.IH by (cases dn) (auto simp: st case_prod_beta)
qed

section \<open>Properties\<close>

text \<open>C24: the bulk copy is an optimisation only: after any history of bytes, \<open>feed_slice\<close> consumes,
  returns and leaves behind exactly what feeding the same bytes one by one until a frame completes
  would.\<close>

theorem feed_slice_is_bytewise:
  "feed_slice (snd (feed_all parser_new history)) bs = feed_until (snd (feed_all parser_new history)) bs 0"
proof -
  have "parser_wf (snd (feed_all parser_new history))"
    by (rule feed_all_wf) simp
  from feed_slice_loop_eq[OF this, of 0 bs] show ?thesis
    by (simp add: feed_slice_def)
qed

lemma frame_recognised:
  assumes "hunting p" and "parser_wf p" and "list_all (\<lambda>b. starting_with b = None) junk"
    and "MIN_DATA \<le> length data" and "length data \<le> MAX_DATA"
  shows "\<exists>p'. feed_slice p (junk @ on_wire k data @ rest) =
      ((length junk + FRAMING + length data,
        case frame_parse (on_wire k data) of Inr f \<Rightarrow> Some f | Inl _ \<Rightarrow> None), p') \<and>
    hunting p' \<and> parser_wf p'"
proof -
  obtain p1 where p1: "quiet p junk = Some p1" "hunting p1" "parser_wf p1"
    using quiet_junk[OF assms(1-3)] by blast
  have fp: "frame_parse (on_wire k data) = frame_decode k data"
    using assms(5) by (intro frame_parse_on_wire) (simp add: ld_consts)
  from feed_frame[OF p1(2,3) assms(4,5), of k rest "length junk"] show ?thesis
    using feed_slice_loop_eq[OF assms(2), of 0 "junk @ on_wire k data @ rest"]
      feed_until_quiet[OF p1(1), of "on_wire k data @ rest" 0]
    by (auto simp: feed_slice_def fp length_on_wire add.assoc)
qed

text \<open>C40: every byte is accounted for: over any stream shorter than \<open>2 ^ 32\<close> bytes, the bytes counted as
  dropped, those of the frame in progress and those of completed frames add up to what was fed, and
  the delivered and malformed counters count exactly the frames that decoded and those that did not.\<close>

theorem every_byte_accounted:
  assumes "length bs < 2 ^ 32" and "feed_all parser_new bs = (out, q)"
  shows "unat (st_dropped (pr_stats q)) + pending q + frame_bytes_of out = length bs \<and>
    unat (st_frames (pr_stats q)) = delivered out \<and>
    unat (st_malformed (pr_stats q)) = length out - delivered out"
proof -
  have "dropped parser_new = 0" "st_frames (pr_stats parser_new) = 0" "st_malformed (pr_stats parser_new) = 0"
    by (simp_all add: dropped_def parser_new_def)
  with feed_all_account[OF parser_new_wf(1) assms(2)] assms(1) show ?thesis
    by (simp add: dropped_def)
qed

theorem every_byte_accounted_witness:
  "unat (st_dropped (pr_stats (snd (feed_all parser_new [1, 0xF4, 2])))) +
     pending (snd (feed_all parser_new [1, 0xF4, 2])) +
     frame_bytes_of (fst (feed_all parser_new [1, 0xF4, 2])) = length [1, 0xF4, 2 :: u8]"
  using every_byte_accounted[of "[1, 0xF4, 2]" "fst (feed_all parser_new [1, 0xF4, 2])"
      "snd (feed_all parser_new [1, 0xF4, 2])"] by simp

end
