(* ===== verification/Csi.thy ===== *)
theory Csi
  imports Prelude
begin

text \<open>
  Presence from Wi-Fi channel state information (\<open>crates/rusty_esp_signal-core/src/radar/csi.rs\<close>):
  layouts, per-frame features, gain normalisation, verdicts and the sliding-window detector.
  Everything is integer arithmetic at the code's widths. The 32-bit integer square root belongs to
  the crate \<open>rusty_esp_dsp\<close> and is an argument; the 64-bit one is modelled here. The window length
  \<open>W\<close> is the detector's const generic, positive (the code divides by it).
\<close>

definition MAX_SUBCARRIERS :: nat where "MAX_SUBCARRIERS = 64"

section \<open>Integer square root\<close>

text \<open>\<open>while bit > rem { bit >>= 2 }\<close>, then the digit loop.\<close>

function isqrt64_scan :: "u64 \<Rightarrow> u64 \<Rightarrow> u64" where
  "isqrt64_scan rem b = (if b > rem then isqrt64_scan rem (drop_bit 2 b) else b)"
  by pat_completeness auto
termination
proof (relation "measure (\<lambda>(_, b). unat b)")
  show "wf (measure (\<lambda>(_, b). unat b))"
    by simp
  fix rem b :: u64
  assume "b > rem"
  then have "0 < unat b"
    by (simp add: word_less_nat_alt)
  then show "((rem, drop_bit 2 b), (rem, b)) \<in> measure (\<lambda>(_, b). unat b)"
    by (simp add: drop_bit_eq_div unat_div)
qed

declare isqrt64_scan.simps [simp del]

function isqrt64_digits :: "u64 \<Rightarrow> u64 \<Rightarrow> u64 \<Rightarrow> u64" where
  "isqrt64_digits rem root b =
     (if b \<noteq> 0 then
        (if rem \<ge> root + b
         then isqrt64_digits (rem - (root + b)) (drop_bit 1 root + b) (drop_bit 2 b)
         else isqrt64_digits rem (drop_bit 1 root) (drop_bit 2 b))
      else root)"
  by pat_completeness auto
termination
proof (relation "measure (\<lambda>(_, _, b). unat b)")
  show "wf (measure (\<lambda>(_, _, b). unat b))"
    by simp
  fix rem root b :: u64
  assume "b \<noteq> 0"
  then have "0 < unat b"
    by (simp add: unat_gt_0)
  then have lt: "unat (drop_bit 2 b) < unat b"
    by (simp add: drop_bit_eq_div unat_div)
  then show "((rem - (root + b), drop_bit 1 root + b, drop_bit 2 b), (rem, root, b)) \<in> measure (\<lambda>(_, _, b). unat b)"
    by simp
  show "((rem, drop_bit 1 root, drop_bit 2 b), (rem, root, b)) \<in> measure (\<lambda>(_, _, b). unat b)"
    using lt by simp
qed

declare isqrt64_digits.simps [simp del]

definition isqrt64 :: "u64 \<Rightarrow> u64" where
  "isqrt64 v = isqrt64_digits v 0 (isqrt64_scan v (push_bit 62 1))"

lemma unat_of_nat_small: "n < 2 ^ 64 \<Longrightarrow> unat (of_nat n :: u64) = n"
  by (simp add: unat_of_nat)

lemma pow4_small: "k \<le> 31 \<Longrightarrow> (4::nat) ^ k < 2 ^ 64"
proof -
  assume "k \<le> 31"
  then have "(4::nat) ^ k \<le> 4 ^ 31"
    by (intro power_increasing) auto
  then show ?thesis by simp
qed

lemma drop_bit_of_nat: "n < 2 ^ 64 \<Longrightarrow> drop_bit m (of_nat n :: u64) = of_nat (n div 2 ^ m)"
proof -
  assume n: "n < 2 ^ 64"
  have "n div 2 ^ m \<le> n"
    by simp
  then have "n div 2 ^ m < 2 ^ 64"
    using n by linarith
  moreover have "unat (drop_bit m (of_nat n :: u64)) = drop_bit m (unat (of_nat n :: u64))"
    by (rule unat_drop_bit_eq)
  then have "unat (drop_bit m (of_nat n :: u64)) = n div 2 ^ m"
    unfolding unat_of_nat_small[OF n] by (simp only: drop_bit_eq_div)
  ultimately show ?thesis
    by (simp only: word_unat_eq_iff unat_of_nat_small)
qed

text \<open>One digit: with \<open>s\<close> the root found so far, \<open>rem = v - s^2\<close> and \<open>root = s * 2^(k+1)\<close>.\<close>

lemma isqrt64_digit:
  fixes v s rem :: nat
  assumes k: "k \<le> 31" and rem: "rem + s\<^sup>2 = v" and up: "v < (s + 2 ^ Suc k)\<^sup>2" and dv: "2 ^ Suc k dvd s"
    and v: "v < 2 ^ 64"
  obtains s' rem' where "isqrt64_digits (of_nat rem) (of_nat (s * 2 ^ Suc k)) (of_nat (4 ^ k)) =
      isqrt64_digits (of_nat rem') (of_nat (s' * 2 ^ k)) (of_nat (4 ^ k div 4))"
    and "rem' + s'\<^sup>2 = v" and "v < (s' + 2 ^ k)\<^sup>2" and "2 ^ k dvd s'" and "s' < 2 ^ 32"
proof -
  have "s\<^sup>2 < (2 ^ 32)\<^sup>2"
    using rem v by simp
  then have s32: "s < 2 ^ 32"
    by (rule power2_less_imp_less) simp
  obtain c where c: "s = 2 ^ Suc k * c"
    using dv by blast
  have sk: "s + 2 ^ Suc k \<le> 2 ^ 32"
  proof -
    have e: "(2::nat) ^ 32 = 2 ^ Suc k * 2 ^ (31 - k)"
      using k by (simp flip: power_add power_Suc)
    then have "c < 2 ^ (31 - k)"
      using s32 unfolding c e by (simp only: mult_less_cancel1)
    then have "2 ^ Suc k * Suc c \<le> 2 ^ Suc k * 2 ^ (31 - k)"
      by (intro mult_le_mono) auto
    then show ?thesis
      unfolding e c by simp
  qed
  have kp: "(2::nat) ^ k < 2 ^ Suc k"
    by simp
  let ?cand = "s * 2 ^ Suc k + 4 ^ k"
  have p4: "(4::nat) ^ k = 2 ^ k * 2 ^ k"
    by (simp flip: power_mult_distrib)
  have sq: "(s + 2 ^ k)\<^sup>2 = s\<^sup>2 + ?cand"
    by (simp add: p4 power2_eq_square algebra_simps)
  have "s + 2 ^ k < 2 ^ 32"
    using sk kp by linarith
  then have "(s + 2 ^ k)\<^sup>2 < (2 ^ 32)\<^sup>2"
    by (intro power_strict_mono) auto
  then have cand: "?cand < 2 ^ 64"
    unfolding sq by simp
  have r64: "rem < 2 ^ 64"
    using rem v by simp
  have b0: "(of_nat (4 ^ k) :: u64) \<noteq> 0"
    using arg_cong[of "of_nat (4 ^ k) :: u64" 0 unat] unat_of_nat_small[OF pow4_small[OF k]] by auto
  have root: "drop_bit 1 (of_nat (s * 2 ^ Suc k) :: u64) = of_nat (s * 2 ^ k)"
    using drop_bit_of_nat[of "s * 2 ^ Suc k" 1] cand by simp
  have nb: "drop_bit 2 (of_nat (4 ^ k) :: u64) = of_nat (4 ^ k div 4)"
    using drop_bit_of_nat[OF pow4_small[OF k], of 2] by simp
  have sum: "(of_nat (s * 2 ^ Suc k) + of_nat (4 ^ k) :: u64) = of_nat ?cand"
    by (simp only: of_nat_add)
  have cmp: "(of_nat rem :: u64) \<ge> of_nat ?cand \<longleftrightarrow> ?cand \<le> rem"
    by (simp only: word_le_nat_alt unat_of_nat_small[OF r64] unat_of_nat_small[OF cand])
  have two: "s + 2 ^ Suc k = s + 2 ^ k + 2 ^ k"
    by simp
  have dv': "2 ^ k dvd s"
    using dv by (rule power_le_dvd) simp
  note step = isqrt64_digits.simps[of "of_nat rem" "of_nat (s * 2 ^ Suc k)" "of_nat (4 ^ k)"]
  show ?thesis
  proof (cases "?cand \<le> rem")
    case True
    have "(of_nat rem - of_nat ?cand :: u64) = of_nat (rem - ?cand)"
      using True by (simp only: of_nat_diff)
    moreover have "(of_nat (s * 2 ^ k) + of_nat (4 ^ k) :: u64) = of_nat ((s + 2 ^ k) * 2 ^ k)"
      by (simp only: add_mult_distrib of_nat_add flip: power_mult_distrib) simp
    ultimately have "isqrt64_digits (of_nat rem) (of_nat (s * 2 ^ Suc k)) (of_nat (4 ^ k)) =
        isqrt64_digits (of_nat (rem - ?cand)) (of_nat ((s + 2 ^ k) * 2 ^ k)) (of_nat (4 ^ k div 4))"
      using True b0 cmp unfolding step sum root nb by (simp only: if_True not_False_eq_True simp_thms)
    then show ?thesis
      by (rule that) (use True sq rem up[unfolded two] dv' \<open>s + 2 ^ k < 2 ^ 32\<close> in \<open>auto intro!: dvd_add\<close>)
  next
    case False
    have "isqrt64_digits (of_nat rem) (of_nat (s * 2 ^ Suc k)) (of_nat (4 ^ k)) =
        isqrt64_digits (of_nat rem) (of_nat (s * 2 ^ k)) (of_nat (4 ^ k div 4))"
      using False b0 cmp unfolding step sum root nb by (simp only: if_True if_False not_False_eq_True simp_thms)
    then show ?thesis
      by (rule that) (use False sq rem dv' s32 in auto)
  qed
qed

lemma isqrt64_digits_correct:
  fixes v s rem :: nat
  assumes "k \<le> 31" and "rem + s\<^sup>2 = v" and "v < (s + 2 ^ Suc k)\<^sup>2" and "2 ^ Suc k dvd s" and "v < 2 ^ 64"
  shows "\<exists>r. isqrt64_digits (of_nat rem) (of_nat (s * 2 ^ Suc k)) (of_nat (4 ^ k)) = of_nat r \<and>
    r\<^sup>2 \<le> v \<and> v < (r + 1)\<^sup>2 \<and> r < 2 ^ 32"
  using assms
proof (induction k arbitrary: rem s)
  case 0
  obtain s' rem' where d: "isqrt64_digits (of_nat rem) (of_nat (s * 2 ^ Suc 0)) (of_nat (4 ^ 0)) =
      isqrt64_digits (of_nat rem') (of_nat (s' * 2 ^ 0)) (of_nat (4 ^ 0 div 4))"
    and s': "rem' + s'\<^sup>2 = v" "v < (s' + 2 ^ 0)\<^sup>2" "s' < 2 ^ 32"
    by (rule isqrt64_digit[OF 0])
  have z: "of_nat (4 ^ 0 div 4) = (0 :: u64)"
    by simp
  have "isqrt64_digits (of_nat rem') (of_nat (s' * 2 ^ 0)) 0 = of_nat s'"
    unfolding isqrt64_digits.simps[of "of_nat rem'" "of_nat (s' * 2 ^ 0)" 0] by simp
  with d[unfolded z] s' show ?case
    by (intro exI[of _ s']) simp
next
  case (Suc k)
  obtain s' rem' where d: "isqrt64_digits (of_nat rem) (of_nat (s * 2 ^ Suc (Suc k))) (of_nat (4 ^ Suc k)) =
      isqrt64_digits (of_nat rem') (of_nat (s' * 2 ^ Suc k)) (of_nat (4 ^ Suc k div 4))"
    and s': "rem' + s'\<^sup>2 = v" "v < (s' + 2 ^ Suc k)\<^sup>2" "2 ^ Suc k dvd s'"
    by (rule isqrt64_digit[OF Suc.prems])
  have q: "(4::nat) ^ Suc k div 4 = 4 ^ k"
    by simp
  have "k \<le> 31"
    using Suc.prems(1) by simp
  from Suc.IH[OF this s' Suc.prems(5)] show ?case
    unfolding d q .
qed

text \<open>The scan stops at the largest power of four not above \<open>v\<close>, or at zero.\<close>

lemma isqrt64_scan_correct:
  assumes "k \<le> 31" and "v < 4 ^ Suc k" and "v < 2 ^ 64"
  shows "(v = 0 \<and> isqrt64_scan (of_nat v) (of_nat (4 ^ k)) = 0) \<or>
    (\<exists>j\<le>31. isqrt64_scan (of_nat v) (of_nat (4 ^ k)) = of_nat (4 ^ j) \<and> v < 4 ^ Suc j)"
  using assms
proof (induction k)
  case 0
  note st = isqrt64_scan.simps[of "of_nat v" "of_nat (4 ^ 0)"]
  show ?case
  proof (cases "v = 0")
    case True
    have db: "drop_bit 2 (of_nat (4 ^ 0) :: u64) = 0"
      by simp
    have "isqrt64_scan 0 0 = 0"
      unfolding isqrt64_scan.simps[of 0 0] by simp
    moreover have "(of_nat (4 ^ 0) :: u64) > 0"
      by simp
    moreover have v0: "(of_nat v :: u64) = 0"
      using True by simp
    ultimately show ?thesis
      using True st[unfolded db v0] unfolding v0 by (simp only: if_True simp_thms)
  next
    case False
    then have "\<not> (of_nat (4 ^ 0) :: u64) > of_nat v"
      using unat_of_nat_small[OF 0(3)] by (simp add: word_less_nat_alt)
    then show ?thesis
      using 0 unfolding st by (intro disjI2 exI[of _ 0]) (simp only: if_False simp_thms)
  qed
next
  case (Suc k)
  note st = isqrt64_scan.simps[of "of_nat v" "of_nat (4 ^ Suc k)"]
  have cmp: "(of_nat (4 ^ Suc k) :: u64) > of_nat v \<longleftrightarrow> v < 4 ^ Suc k"
    by (simp only: word_less_nat_alt unat_of_nat_small[OF Suc.prems(3)] unat_of_nat_small[OF pow4_small[OF Suc.prems(1)]])
  show ?case
  proof (cases "v < 4 ^ Suc k")
    case True
    have "(4::nat) ^ Suc k div 2 ^ 2 = 4 ^ k"
      by simp
    then have db: "drop_bit 2 (of_nat (4 ^ Suc k) :: u64) = of_nat (4 ^ k)"
      using drop_bit_of_nat[OF pow4_small[OF Suc.prems(1)], of 2] by (simp only:)
    have "isqrt64_scan (of_nat v) (of_nat (4 ^ Suc k)) = isqrt64_scan (of_nat v) (of_nat (4 ^ k))"
      using True cmp unfolding st db by (simp only: if_True)
    moreover have "k \<le> 31"
      using Suc.prems(1) by simp
    ultimately show ?thesis
      using Suc.IH[OF _ True Suc.prems(3)] by (simp only: simp_thms)
  next
    case False
    then have "isqrt64_scan (of_nat v) (of_nat (4 ^ Suc k)) = of_nat (4 ^ Suc k)"
      using cmp unfolding st by (simp only: if_False)
    then show ?thesis
      using Suc.prems(1,2) by (intro disjI2 exI[of _ "Suc k"]) (simp only: simp_thms)
  qed
qed

lemma isqrt64_nat: "(unat (isqrt64 v))\<^sup>2 \<le> unat v \<and> unat v < (unat (isqrt64 v) + 1)\<^sup>2"
proof -
  have v: "unat v < 2 ^ 64"
    using unat_less[of v] by simp
  have p: "push_bit 62 (1 :: u64) = of_nat (4 ^ 31)"
    by simp
  have vv: "(of_nat (unat v) :: u64) = v"
    by simp
  have "unat v < 4 ^ Suc 31"
    using v by simp
  note sc = isqrt64_scan_correct[OF order_refl this v, unfolded vv, folded p]
  consider (zero) "unat v = 0" "isqrt64_scan v (push_bit 62 1) = 0"
    | (some) j where "j \<le> 31" "isqrt64_scan v (push_bit 62 1) = of_nat (4 ^ j)" "unat v < 4 ^ Suc j"
    using sc by (elim disjE exE conjE)
  then show ?thesis
  proof cases
    case zero
    then show ?thesis
      unfolding isqrt64_def zero(2) isqrt64_digits.simps[of v 0 0] by simp
  next
    case some
    have "(4::nat) ^ Suc j = (0 + 2 ^ Suc j)\<^sup>2"
      by (simp add: power2_eq_square flip: power_mult_distrib)
    then have up: "unat v < (0 + 2 ^ Suc j)\<^sup>2"
      using some(3) by simp
    obtain r where r: "isqrt64_digits (of_nat (unat v)) (of_nat (0 * 2 ^ Suc j)) (of_nat (4 ^ j)) = of_nat r"
        "r\<^sup>2 \<le> unat v" "unat v < (r + 1)\<^sup>2" "r < 2 ^ 32"
      using isqrt64_digits_correct[OF some(1) _ up _ v, of "unat v"] by auto
    have "isqrt64 v = of_nat r"
      using r(1) unfolding isqrt64_def some(2) by simp
    moreover have "unat (of_nat r :: u64) = r"
      using r(4) by (intro unat_of_nat_small) simp
    ultimately show ?thesis
      using r(2,3) by simp
  qed
qed

section \<open>Layouts and frames\<close>

record layout =
  ly_valid :: "(nat \<times> nat) list"
  ly_entries :: nat

definition LLTF_20MHZ :: layout where
  "LLTF_20MHZ = \<lparr>ly_valid = [(1, 27), (38, 64)], ly_entries = 64\<rparr>"
definition HTLTF_20MHZ :: layout where
  "HTLTF_20MHZ = \<lparr>ly_valid = [(1, 29), (36, 64)], ly_entries = 64\<rparr>"
definition C6_HT20_NATURAL :: layout where
  "C6_HT20_NATURAL = \<lparr>ly_valid = [(4, 32), (33, 61)], ly_entries = 64\<rparr>"
definition DENSE_64 :: layout where
  "DENSE_64 = \<lparr>ly_valid = [(0, 64)], ly_entries = 64\<rparr>"

definition layout_count :: "layout \<Rightarrow> nat" where
  "layout_count l = sum_list (map (\<lambda>(a, b). b - a) (ly_valid l))"

definition layout_indices :: "layout \<Rightarrow> nat list" where
  "layout_indices l = concat (map (\<lambda>(a, b). [a..<b]) (ly_valid l))"

record csi_frame =
  cf_timestamp :: micros
  cf_rssi :: i8
  cf_channel :: u8
  cf_iq :: "i8 list"

record features =
  ft_amplitude :: "u16 list"
  ft_count :: u8
  ft_mean :: u16
  ft_variance :: u32

text \<open>One \<open>imaginary, real\<close> pair: \<open>isqrt(16 (i^2 + q^2))\<close>, stored at the running count.\<close>

definition amp_pair :: "(u32 \<Rightarrow> u32) \<Rightarrow> i8 list \<Rightarrow> u32" where
  "amp_pair isqrt p =
     (let im = sint (p ! 0); re = sint (p ! 1) in isqrt (word_of_int (16 * (im * im + re * re))))"

definition features_pair ::
  "(u32 \<Rightarrow> u32) \<Rightarrow> u16 list \<times> u8 \<times> u32 \<Rightarrow> i8 list \<Rightarrow> u16 list \<times> u8 \<times> u32" where
  "features_pair isqrt st p =
     (case st of (amp, count, tot) \<Rightarrow>
        let a = amp_pair isqrt p in (amp[unat count := ucast a], count + 1, tot + a))"

definition features_of :: "(u32 \<Rightarrow> u32) \<Rightarrow> csi_frame \<Rightarrow> layout \<Rightarrow> err + features" where
  "features_of isqrt fr l =
     (if length (cf_iq fr) < 2 * ly_entries l \<or> layout_count l > MAX_SUBCARRIERS then Inl InvalidGeometry
      else
        let (amp, count, tot) =
          foldl (\<lambda>st (a, b). if a \<ge> b then st
              else foldl (features_pair isqrt) st (chunks_exact 2 (take (2 * b - 2 * a) (drop (2 * a) (cf_iq fr)))))
            (replicate MAX_SUBCARRIERS 0, 0, 0) (ly_valid l)
        in if count = 0 then Inl InvalidGeometry
           else
             let n = ucast count; mean = ucast (tot div n) :: u16;
                 ss = foldl (\<lambda>ss a. let d = word_of_int \<bar>uint a - uint mean\<bar> :: u32 in ss + d * d) 0
                        (take (unat count) amp)
             in Inr \<lparr>ft_amplitude = amp, ft_count = count, ft_mean = mean, ft_variance = ss div n\<rparr>)"

definition amplitudes :: "features \<Rightarrow> u16 list" where
  "amplitudes f = take (unat (ft_count f)) (ft_amplitude f)"

definition sum_u32 :: "u16 list \<Rightarrow> u32" where
  "sum_u32 xs = foldl (\<lambda>s a. s + ucast a) 0 xs"

definition normalised :: "features \<Rightarrow> features" where
  "normalised f =
     (let n = min (unat (ft_count f)) MAX_SUBCARRIERS;
          amps = take n (ft_amplitude f);
          total = sum_u32 amps
      in if n = 0 \<or> total = 0 then f
         else
           let n32 = of_nat n :: u32;
               vs = map (\<lambda>a. ucast (min (ucast a * 1024 * n32 div total) 0xFFFF) :: u16) amps;
               mean = ucast (sum_u32 vs div n32) :: u16;
               ss = foldl (\<lambda>ss a. let d = word_of_int \<bar>uint a - uint mean\<bar> :: u64 in ss + d * d) 0 vs
           in \<lparr>ft_amplitude = vs @ drop n (replicate MAX_SUBCARRIERS 0), ft_count = ft_count f, ft_mean = mean,
               ft_variance = ucast (min (ss div of_nat n) 0xFFFFFFFF)\<rparr>)"

section \<open>Verdicts\<close>

datatype verdict = Warming | Absent | Present u8

definition verdict_tag :: "verdict \<Rightarrow> u8" where
  "verdict_tag v = (case v of Warming \<Rightarrow> 0 | Absent \<Rightarrow> 1 | Present _ \<Rightarrow> 2)"

definition verdict_motion :: "verdict \<Rightarrow> u8" where
  "verdict_motion v = (case v of Present m \<Rightarrow> m | _ \<Rightarrow> 0)"

fun either :: "verdict \<Rightarrow> verdict \<Rightarrow> verdict" where
  "either (Present a) (Present b) = Present (if a > b then a else b)"
| "either (Present a) v = Present a"
| "either v (Present b) = Present b"
| "either Warming v = Warming"
| "either v Warming = Warming"
| "either Absent Absent = Absent"

section \<open>The detector\<close>

record csi_config =
  cg_on_permille :: u16
  cg_off_permille :: u16
  cg_hold :: micros

definition csi_config_normalised :: csi_config where
  "csi_config_normalised = \<lparr>cg_on_permille = 32, cg_off_permille = 23, cg_hold = 3 * 1000000\<rparr>"

definition csi_config_default :: csi_config where
  "csi_config_default = \<lparr>cg_on_permille = 42, cg_off_permille = 32, cg_hold = 3 * 1000000\<rparr>"

record detector =
  dt_config :: csi_config
  dt_ring :: "u16 list list"
  dt_sum :: "u32 list"
  dt_sumsq :: "u64 list"
  dt_count :: u8
  dt_filled :: nat
  dt_next :: nat
  dt_wander :: u16
  dt_present :: bool
  dt_last_motion :: micros
  dt_frames :: u32

definition detector_new :: "nat \<Rightarrow> csi_config \<Rightarrow> detector" where
  "detector_new W cfg =
     \<lparr>dt_config = cfg, dt_ring = replicate W (replicate MAX_SUBCARRIERS 0),
      dt_sum = replicate MAX_SUBCARRIERS 0, dt_sumsq = replicate MAX_SUBCARRIERS 0,
      dt_count = 0, dt_filled = 0, dt_next = 0, dt_wander = 0, dt_present = False,
      dt_last_motion = 0, dt_frames = 0\<rparr>"

definition detector_set_config :: "detector \<Rightarrow> csi_config \<Rightarrow> detector" where
  "detector_set_config d cfg = d\<lparr>dt_config := cfg\<rparr>"

definition detector_warm :: "nat \<Rightarrow> detector \<Rightarrow> bool" where
  "detector_warm W d \<longleftrightarrow> dt_filled d \<ge> W"

definition detector_reset :: "detector \<Rightarrow> detector" where
  "detector_reset d = d\<lparr>dt_filled := 0, dt_next := 0, dt_count := 0, dt_wander := 0, dt_present := False\<rparr>"

definition verdict_now :: "nat \<Rightarrow> detector \<Rightarrow> verdict" where
  "verdict_now W d =
     (if dt_filled d < W then Warming
      else if dt_present d then Present (if dt_wander d > 255 then 255 else ucast (dt_wander d))
      else Absent)"

definition wander_term :: "(u32 \<Rightarrow> u32) \<Rightarrow> u64 \<Rightarrow> u64 \<Rightarrow> u64 \<Rightarrow> u32" where
  "wander_term isqrt w tot sumsq =
     (let mean = tot div w in
      if mean = 0 then 0
      else
        let var_w2 = sat_sub (w * sumsq) (tot * tot);
            scaled = 256 * var_w2;
            std16 = (if scaled \<le> 0xFFFFFFFF then ucast (isqrt (ucast scaled)) div w else isqrt64 scaled div w)
        in ucast std16 * 1000 div (ucast mean * 16))"

definition compute_wander :: "(u32 \<Rightarrow> u32) \<Rightarrow> nat \<Rightarrow> detector \<Rightarrow> u16" where
  "compute_wander isqrt W d =
     (let n = min (unat (dt_count d)) MAX_SUBCARRIERS in
      if n = 0 \<or> W = 0 then 0
      else
        let total = foldl (\<lambda>total sc. total + wander_term isqrt (of_nat W) (ucast (dt_sum d ! sc)) (dt_sumsq d ! sc))
              0 [0..<n]
        in ucast (min (total div of_nat n) 0xFFFF))"

text \<open>The update of the sums and of the slot that is overwritten, subcarrier by subcarrier.\<close>

definition slide_one :: "u16 list \<Rightarrow> u32 list \<times> u64 list \<times> u16 list \<Rightarrow> nat \<Rightarrow> u32 list \<times> u64 list \<times> u16 list" where
  "slide_one amps st sc =
     (case st of (tot, sumsq, slot) \<Rightarrow>
        let old = ucast (slot ! sc) :: u32; new = ucast (amps ! sc) :: u32 in
        (tot[sc := tot ! sc - old + new],
         sumsq[sc := sumsq ! sc - ucast (old * old) + ucast (new * new)],
         slot[sc := amps ! sc]))"

definition detector_slide :: "detector \<Rightarrow> u16 list \<Rightarrow> detector" where
  "detector_slide d amps =
     (let (tot, sumsq, slot) =
        foldl (slide_one amps) (dt_sum d, dt_sumsq d, dt_ring d ! dt_next d) [0..<length amps]
      in d\<lparr>dt_sum := tot, dt_sumsq := sumsq, dt_ring := (dt_ring d)[dt_next d := slot]\<rparr>)"

definition detector_push ::
  "(u32 \<Rightarrow> u32) \<Rightarrow> nat \<Rightarrow> detector \<Rightarrow> features \<Rightarrow> micros \<Rightarrow> verdict \<times> detector" where
  "detector_push isqrt W d f now =
     (if ft_count f = 0 then (verdict_now W d, d)
      else
        let d = (if dt_filled d > 0 \<and> ft_count f \<noteq> dt_count d then detector_reset d else d);
            d = detector_slide (d\<lparr>dt_count := ft_count f\<rparr>) (amplitudes f);
            d = d\<lparr>dt_next := (dt_next d + 1) mod W,
                  dt_filled := (if dt_filled d < W then dt_filled d + 1 else dt_filled d),
                  dt_frames := dt_frames d + 1\<rparr>
        in if dt_filled d < W then (Warming, d)
           else
             let d = d\<lparr>dt_wander := compute_wander isqrt W d\<rparr>;
                 d = (if dt_wander d \<ge> cg_on_permille (dt_config d)
                      then d\<lparr>dt_present := True, dt_last_motion := now\<rparr>
                      else if dt_present d \<and> dt_wander d \<le> cg_off_permille (dt_config d) \<and>
                        sat_sub now (dt_last_motion d) \<ge> cg_hold (dt_config d)
                      then d\<lparr>dt_present := False\<rparr> else d)
             in (verdict_now W d, d))"

section \<open>What the wander is\<close>

definition nat_sqrt :: "nat \<Rightarrow> nat" where
  "nat_sqrt v = Max {r. r\<^sup>2 \<le> v}"

lemma nat_sqrt_eqI:
  assumes "r\<^sup>2 \<le> v" and "v < (r + 1)\<^sup>2"
  shows "nat_sqrt v = r"
  unfolding nat_sqrt_def
proof (rule Max_eqI)
  have le: "s \<le> r" if "s\<^sup>2 \<le> v" for s
  proof -
    have "s\<^sup>2 < (r + 1)\<^sup>2"
      using that assms(2) by linarith
    then have "s < r + 1"
      by (rule power2_less_imp_less) simp
    then show ?thesis by simp
  qed
  then have "{s. s\<^sup>2 \<le> v} \<subseteq> {..r}"
    by auto
  then show "finite {s. s\<^sup>2 \<le> v}"
    by (rule finite_subset) simp
  show "s \<le> r" if "s \<in> {s. s\<^sup>2 \<le> v}" for s
    using that le by simp
  show "r \<in> {s. s\<^sup>2 \<le> v}"
    using assms(1) by simp
qed

definition isqrt_ok :: "(u32 \<Rightarrow> u32) \<Rightarrow> bool" where
  "isqrt_ok isqrt \<longleftrightarrow> (\<forall>v. (unat (isqrt v))\<^sup>2 \<le> unat v \<and> unat v < (unat (isqrt v) + 1)\<^sup>2)"

lemma unat_isqrt64: "unat (isqrt64 v) = nat_sqrt (unat v)"
  using isqrt64_nat[of v] nat_sqrt_eqI by metis

lemma unat_isqrt: "isqrt_ok isqrt \<Longrightarrow> unat (isqrt v) = nat_sqrt (unat v)"
  unfolding isqrt_ok_def using nat_sqrt_eqI by metis

lemma nat_sqrt_le: "nat_sqrt v \<le> b" if "v \<le> b\<^sup>2" for b :: nat
proof -
  have f: "{r. r\<^sup>2 \<le> v} \<subseteq> {..b}"
  proof
    fix r
    assume "r \<in> {r. r\<^sup>2 \<le> v}"
    then have "r\<^sup>2 \<le> v"
      by simp
    also note that
    finally have "r \<le> b"
      by (simp only: power2_nat_le_eq_le)
    then show "r \<in> {..b}"
      by simp
  qed
  then have "finite {r. r\<^sup>2 \<le> v}"
    by (rule finite_subset) simp
  moreover have "0 \<in> {r. r\<^sup>2 \<le> v}"
    by simp
  then have "{r. r\<^sup>2 \<le> v} \<noteq> {}"
    by blast
  ultimately have "nat_sqrt v \<in> {r. r\<^sup>2 \<le> v}"
    unfolding nat_sqrt_def by (rule Max_in)
  with f show ?thesis by blast
qed

text \<open>The coefficient of variation of one subcarrier over the window, exactly.\<close>

definition cv_permille :: "nat list \<Rightarrow> nat" where
  "cv_permille xs =
     (let w = length xs; s = sum_list xs; q = sum_list (map power2 xs); m = s div w in
      if m = 0 then 0 else nat_sqrt (256 * (w * q - s\<^sup>2)) div w * 1000 div (m * 16))"

definition batch_wander :: "nat \<Rightarrow> u16 list list \<Rightarrow> nat" where
  "batch_wander n rows =
     min (sum_list (map (\<lambda>sc. cv_permille (map (\<lambda>row. unat (row ! sc)) rows)) [0..<n]) div n) 65535"


lemma cv_permille_rotate: "cv_permille (xs @ ys) = cv_permille (ys @ xs)"
  by (simp add: cv_permille_def add.commute)

text \<open>Sums of 16-bit samples and of their squares, and what fits in the accumulators.\<close>

definition column :: "u16 list list \<Rightarrow> nat \<Rightarrow> nat list" where
  "column rows sc = map (\<lambda>row. unat (row ! sc)) rows"

lemma unat_u16_le: "unat (x :: u16) \<le> 65535"
  using unat_less[of x] by simp

lemma column_sum_le: "sum_list (column rows sc) \<le> length rows * 65535"
proof (induction rows)
  case (Cons r rows)
  then show ?case
    using unat_u16_le[of "r ! sc"] by (simp add: column_def)
qed (simp add: column_def)

lemma column_sumsq_le: "sum_list (map power2 (column rows sc)) \<le> length rows * 65535\<^sup>2"
proof (induction rows)
  case (Cons r rows)
  have "(unat (r ! sc))\<^sup>2 \<le> 65535\<^sup>2"
    by (intro power_mono unat_u16_le) simp
  with Cons show ?case
    by (simp add: column_def)
qed (simp add: column_def)

lemma column_update:
  assumes "k < length rows"
  shows "sum_list (column (rows[k := r]) sc) = sum_list (column rows sc) - unat (rows ! k ! sc) + unat (r ! sc)"
    and "sum_list (map power2 (column (rows[k := r]) sc)) =
      sum_list (map power2 (column rows sc)) - (unat (rows ! k ! sc))\<^sup>2 + (unat (r ! sc))\<^sup>2"
    and "unat (rows ! k ! sc) \<le> sum_list (column rows sc)"
    and "(unat (rows ! k ! sc))\<^sup>2 \<le> sum_list (map power2 (column rows sc))"
proof -
  have k: "k < length (column rows sc)" "k < length (map power2 (column rows sc))"
    using assms by (simp_all add: column_def)
  have n: "column rows sc ! k = unat (rows ! k ! sc)"
    "map power2 (column rows sc) ! k = (unat (rows ! k ! sc))\<^sup>2"
    using assms by (simp_all add: column_def)
  show le: "unat (rows ! k ! sc) \<le> sum_list (column rows sc)"
    using elem_le_sum_list[OF k(1)] n(1) by simp
  show le2: "(unat (rows ! k ! sc))\<^sup>2 \<le> sum_list (map power2 (column rows sc))"
    using elem_le_sum_list[OF k(2)] n(2) by simp
  show "sum_list (column (rows[k := r]) sc) = sum_list (column rows sc) - unat (rows ! k ! sc) + unat (r ! sc)"
    using sum_list_update[OF k(1), of "unat (r ! sc)"] le n(1) by (simp add: column_def map_update)
  show "sum_list (map power2 (column (rows[k := r]) sc)) =
      sum_list (map power2 (column rows sc)) - (unat (rows ! k ! sc))\<^sup>2 + (unat (r ! sc))\<^sup>2"
    using sum_list_update[OF k(2), of "(unat (r ! sc))\<^sup>2"] le2 n(2) by (simp add: column_def map_update)
qed

section \<open>The sliding update\<close>

lemma slide_one_foldl:
  assumes "m \<le> length amps" and "m \<le> length slot" and "m \<le> length S" and "m \<le> length Q"
  shows "foldl (slide_one amps) (S, Q, slot) [0..<m] =
    (map (\<lambda>sc. if sc < m then S ! sc - ucast (slot ! sc) + ucast (amps ! sc) else S ! sc) [0..<length S],
     map (\<lambda>sc. if sc < m
            then Q ! sc - ucast ((ucast (slot ! sc) :: u32) * ucast (slot ! sc)) +
              ucast ((ucast (amps ! sc) :: u32) * ucast (amps ! sc))
            else Q ! sc) [0..<length Q],
     take m amps @ drop m slot)"
  using assms
proof (induction m)
  case 0
  then show ?case
    by (simp add: map_nth)
next
  case (Suc m)
  have sl: "(take m amps @ drop m slot) ! m = slot ! m"
    using Suc.prems by (simp add: nth_append)
  have up: "(take m amps @ drop m slot)[m := amps ! m] = take (Suc m) amps @ drop (Suc m) slot"
    using Suc.prems by (simp add: list_update_append take_Suc_conv_app_nth Cons_nth_drop_Suc[symmetric])
  show ?case
    using Suc.prems Suc.IH
    by (auto simp: slide_one_def Let_def sl up intro!: nth_equalityI simp: nth_list_update)
qed

text \<open>The words of the accumulators, read as natural numbers.\<close>

lemma unat_replace:
  fixes s x y :: "'a::len word"
  assumes "unat x \<le> unat s" and "unat s - unat x + unat y < 2 ^ LENGTH('a)"
  shows "unat (s - x + y) = unat s - unat x + unat y"
proof -
  have "unat (s - x) = unat s - unat x"
    using assms(1) by (simp add: unat_sub word_le_nat_alt)
  then show ?thesis
    using assms(2) by (simp add: unat_add_lem[THEN iffD1])
qed

lemma unat_square:
  "unat (ucast ((ucast (x :: u16) :: u32) * ucast x) :: u64) = (unat x)\<^sup>2"
proof -
  have "unat x * unat x \<le> 65535 * 65535"
    by (intro mult_le_mono unat_u16_le)
  then have "unat ((ucast x :: u32) * ucast x) = unat x * unat x"
    using unat_mult_lem[of "ucast x :: u32" "ucast x", THEN iffD1] by (simp add: unat_ucast_up)
  then show ?thesis
    by (simp add: unat_ucast_up power2_eq_square)
qed

definition detector_ok :: "nat \<Rightarrow> detector \<Rightarrow> bool" where
  "detector_ok W d \<longleftrightarrow> 0 < W \<and> W \<le> 4096 \<and> length (dt_ring d) = W \<and>
     (\<forall>r\<in>set (dt_ring d). length r = MAX_SUBCARRIERS) \<and>
     length (dt_sum d) = MAX_SUBCARRIERS \<and> length (dt_sumsq d) = MAX_SUBCARRIERS \<and>
     dt_next d < W \<and> dt_filled d \<le> W \<and>
     (\<forall>sc<MAX_SUBCARRIERS. unat (dt_sum d ! sc) = sum_list (column (dt_ring d) sc) \<and>
        unat (dt_sumsq d ! sc) = sum_list (map power2 (column (dt_ring d) sc)))"

lemma detector_slide_ok:
  assumes ok: "detector_ok W d" and len: "length amps \<le> MAX_SUBCARRIERS"
  shows "detector_ok W (detector_slide d amps) \<and>
    dt_ring (detector_slide d amps) =
      (dt_ring d)[dt_next d := amps @ drop (length amps) (dt_ring d ! dt_next d)]"
proof -
  let ?k = "dt_next d"
  let ?slot = "dt_ring d ! ?k"
  let ?slot' = "amps @ drop (length amps) ?slot"
  have k: "?k < length (dt_ring d)" and W: "W \<le> 4096" "length (dt_ring d) = W"
    using ok by (simp_all add: detector_ok_def)
  then have sl: "length ?slot = MAX_SUBCARRIERS"
    using ok by (simp add: detector_ok_def)
  have ls: "length (dt_sum d) = MAX_SUBCARRIERS" "length (dt_sumsq d) = MAX_SUBCARRIERS"
    using ok by (simp_all add: detector_ok_def)
  define S where "S = map (\<lambda>sc. if sc < length amps then dt_sum d ! sc - ucast (?slot ! sc) + ucast (amps ! sc)
    else dt_sum d ! sc) [0..<MAX_SUBCARRIERS]"
  define Q where "Q = map (\<lambda>sc. if sc < length amps
      then dt_sumsq d ! sc - ucast ((ucast (?slot ! sc) :: u32) * ucast (?slot ! sc)) +
        ucast ((ucast (amps ! sc) :: u32) * ucast (amps ! sc))
      else dt_sumsq d ! sc) [0..<MAX_SUBCARRIERS]"
  have f: "foldl (slide_one amps) (dt_sum d, dt_sumsq d, ?slot) [0..<length amps] = (S, Q, ?slot')"
    using len sl ls by (simp add: slide_one_foldl S_def Q_def)
  let ?d = "detector_slide d amps"
  have e: "?d = d\<lparr>dt_sum := S, dt_sumsq := Q, dt_ring := (dt_ring d)[?k := ?slot']\<rparr>"
    unfolding detector_slide_def f by simp
  have new: "unat (S ! sc) = sum_list (column ((dt_ring d)[?k := ?slot']) sc) \<and>
      unat (Q ! sc) = sum_list (map power2 (column ((dt_ring d)[?k := ?slot']) sc))" if sc: "sc < MAX_SUBCARRIERS" for sc
  proof -
    note cu = column_update(1,2)[OF k, of ?slot' sc] and lec = column_update(3,4)[OF k, of sc]
    have old: "unat (dt_sum d ! sc) = sum_list (column (dt_ring d) sc)"
      "unat (dt_sumsq d ! sc) = sum_list (map power2 (column (dt_ring d) sc))"
      using ok sc by (simp_all add: detector_ok_def)
    have W': "length ((dt_ring d)[?k := ?slot']) * c \<le> 4096 * c" for c
      using W by simp
    have b: "sum_list (column ((dt_ring d)[?k := ?slot']) sc) \<le> 4096 * 65535"
      "sum_list (map power2 (column ((dt_ring d)[?k := ?slot']) sc)) \<le> 4096 * 65535\<^sup>2"
      using order_trans[OF column_sum_le W'] order_trans[OF column_sumsq_le W'] by blast+
    show ?thesis
    proof (cases "sc < length amps")
      case True
      then have n: "?slot' ! sc = amps ! sc"
        by (simp add: nth_append)
      have S: "S ! sc = dt_sum d ! sc - ucast (?slot ! sc) + ucast (amps ! sc)"
        using True sc unfolding S_def by simp
      have Q: "Q ! sc = dt_sumsq d ! sc - ucast ((ucast (?slot ! sc) :: u32) * ucast (?slot ! sc)) +
          ucast ((ucast (amps ! sc) :: u32) * ucast (amps ! sc))"
        using True sc unfolding Q_def by simp
      have u: "unat (ucast (x :: u16) :: u32) = unat x" for x
        by (rule unat_ucast_up) simp
      have small: "(4096::nat) * 65535 < 2 ^ LENGTH(32)" "(4096::nat) * 65535\<^sup>2 < 2 ^ LENGTH(64)"
        by simp_all
      have "unat (S ! sc) = unat (dt_sum d ! sc) - unat (?slot ! sc) + unat (amps ! sc)"
        unfolding S using unat_replace[of "ucast (?slot ! sc)" "dt_sum d ! sc" "ucast (amps ! sc)"]
          le_less_trans[OF b(1)[unfolded cu n] small(1)] lec(1)
        unfolding u old by blast
      moreover have "unat (Q ! sc) = unat (dt_sumsq d ! sc) - (unat (?slot ! sc))\<^sup>2 + (unat (amps ! sc))\<^sup>2"
        unfolding Q using unat_replace[of "ucast ((ucast (?slot ! sc) :: u32) * ucast (?slot ! sc))" "dt_sumsq d ! sc"
            "ucast ((ucast (amps ! sc) :: u32) * ucast (amps ! sc))"]
          le_less_trans[OF b(2)[unfolded cu n] small(2)] lec(2)
        unfolding unat_square old by blast
      ultimately show ?thesis
        by (simp only: old cu n)
    next
      case False
      then have n: "?slot' ! sc = ?slot ! sc"
        using sl sc by (simp add: nth_append)
      show ?thesis
        using False sc lec old unfolding S_def Q_def by (simp add: cu n)
    qed
  qed
  have rows: "\<forall>r\<in>set ((dt_ring d)[?k := ?slot']). length r = MAX_SUBCARRIERS"
    using ok len sl set_update_subset_insert[of "dt_ring d" ?k ?slot'] by (auto simp: detector_ok_def)
  have ln: "length S = MAX_SUBCARRIERS" "length Q = MAX_SUBCARRIERS"
    by (simp_all add: S_def Q_def)
  have "0 < W" "dt_next d < W" "dt_filled d \<le> W"
    using ok by (simp_all add: detector_ok_def)
  moreover have fields: "dt_ring ?d = (dt_ring d)[?k := ?slot']" "dt_sum ?d = S" "dt_sumsq ?d = Q"
    "dt_next ?d = ?k" "dt_filled ?d = dt_filled d"
    by (simp_all add: e)
  ultimately show ?thesis
    unfolding detector_ok_def fields length_list_update using new rows ln W by blast
qed

section \<open>The wander of the sums is the wander of the window\<close>

lemma unat_mult_small:
  "unat (x :: 'a::len word) * unat y < 2 ^ LENGTH('a) \<Longrightarrow> unat (x * y) = unat x * unat y"
  by (rule unat_mult_lem[THEN iffD1])

lemma unat_add_small:
  "unat (x :: 'a::len word) + unat y < 2 ^ LENGTH('a) \<Longrightarrow> unat (x + y) = unat x + unat y"
  by (rule unat_add_lem[THEN iffD1])

lemma unat_ucast_down:
  "unat (w :: 'a::len word) < 2 ^ LENGTH('b) \<Longrightarrow> unat (ucast w :: 'b::len word) = unat w"
  by (simp add: unsigned_ucast_eq take_bit_nat_eq_self)

lemma nat_sqrt_square_le: "(nat_sqrt v)\<^sup>2 \<le> v"
proof -
  have "{r. r\<^sup>2 \<le> v} \<subseteq> {..v}"
  proof
    fix r
    assume "r \<in> {r. r\<^sup>2 \<le> v}"
    then have "r * r \<le> v"
      by (simp add: power2_eq_square)
    moreover have "r \<le> r * r"
      by simp
    ultimately show "r \<in> {..v}"
      by (meson atMost_iff le_trans)
  qed
  then have "finite {r. r\<^sup>2 \<le> v}"
    by (rule finite_subset) simp
  moreover have "{r. r\<^sup>2 \<le> v} \<noteq> {}"
    by (intro notI) (drule arg_cong[where f = "\<lambda>S. 0 \<in> S"], simp)
  ultimately have "nat_sqrt v \<in> {r. r\<^sup>2 \<le> v}"
    unfolding nat_sqrt_def by (rule Max_in)
  then show ?thesis by simp
qed

text \<open>\<open>16 * std\<close> of \<open>W\<close> samples is at most \<open>16 * 65535\<close>.\<close>

lemma std16_le:
  assumes q: "q \<le> w * 65535\<^sup>2"
  shows "nat_sqrt (256 * (w * q - t)) div w \<le> 1048560"
proof -
  have "256 * (w * q - t) \<le> 256 * (w * (w * 65535\<^sup>2))"
    by (intro mult_le_mono2 order_trans[OF diff_le_self] q)
  also have "\<dots> = (w * 1048560)\<^sup>2"
    by (simp add: power2_eq_square)
  finally have "nat_sqrt (256 * (w * q - t)) \<le> w * 1048560"
    by (rule nat_sqrt_le)
  then have "nat_sqrt (256 * (w * q - t)) div w \<le> (w * 1048560) div w"
    by (rule div_le_mono)
  then show ?thesis
    by (cases "w = 0") simp_all
qed

lemma wander_term_cv:
  fixes t :: u32 and q :: u64
  assumes isq: "isqrt_ok isqrt" and w: "0 < w" "w \<le> 4096" and len: "length xs = w"
    and t: "unat t = sum_list xs" "sum_list xs \<le> w * 65535"
    and q: "unat q = sum_list (map power2 xs)" "sum_list (map power2 xs) \<le> w * 65535\<^sup>2"
  shows "unat (wander_term isqrt (of_nat w) (ucast t) q) = cv_permille xs \<and> cv_permille xs \<le> 65535000"
proof -
  let ?s = "sum_list xs" and ?q = "sum_list (map power2 xs)"
  define W :: u64 where "W = of_nat w"
  define T :: u64 where "T = ucast t"
  have uW: "unat W = w"
    unfolding W_def using w by (intro unat_of_nat_small) simp
  have uT: "unat T = ?s"
    unfolding T_def t(1)[symmetric] by (rule unat_ucast_up) simp
  have s: "?s \<le> 268431360"
    using t(2) w(2) by linarith
  have um: "unat (T div W) = ?s div w"
    by (simp only: unat_div uT uW)
  have m: "?s div w \<le> 65535"
    using div_le_mono[OF t(2), of w] w(1) by simp
  have wq: "w * ?q \<le> 4096 * (4096 * 65535\<^sup>2)"
    by (rule mult_le_mono[OF w(2) order_trans[OF q(2) mult_le_mono1[OF w(2)]]])
  have uwq: "unat (W * q) = w * ?q"
    using unat_mult_small[of W q] wq unfolding uW q(1) by simp
  have "?s * ?s \<le> 268431360 * 268431360"
    by (intro mult_le_mono s)
  then have uss: "unat (T * T) = ?s\<^sup>2"
    using unat_mult_small[of T T] unfolding uT by (simp add: power2_eq_square)
  define var where "var = w * ?q - ?s\<^sup>2"
  have uvar: "unat (sat_sub (W * q) (T * T)) = var"
    unfolding unat_sat_sub uwq uss var_def ..
  have var: "var \<le> 4096 * (4096 * 65535\<^sup>2)"
    unfolding var_def using wq by linarith
  define X where "X = 256 * sat_sub (W * q) (T * T)"
  have uX: "unat X = 256 * var"
    unfolding X_def using unat_mult_small[of 256 "sat_sub (W * q) (T * T)"] var unfolding uvar by simp
  define R where "R = (if X \<le> 0xFFFFFFFF then ucast (isqrt (ucast X)) div W else isqrt64 X div W)"
  have uR: "unat R = nat_sqrt (256 * var) div w"
  proof (cases "X \<le> 0xFFFFFFFF")
    case True
    then have "unat X < 2 ^ LENGTH(32)"
      by (simp add: word_le_nat_alt)
    then have "unat (ucast X :: u32) = 256 * var"
      unfolding uX[symmetric] by (rule unat_ucast_down)
    then have "unat (ucast (isqrt (ucast X)) :: u64) = nat_sqrt (256 * var)"
      by (simp add: unat_ucast_up unat_isqrt[OF isq])
    then show ?thesis
      unfolding R_def using True by (simp only: if_True unat_div uW)
  next
    case False
    then show ?thesis
      unfolding R_def by (simp only: if_False unat_div uW unat_isqrt64 uX)
  qed
  have R: "nat_sqrt (256 * var) div w \<le> 1048560"
    unfolding var_def by (rule std16_le[OF q(2)])
  have r32: "unat (ucast R :: u32) = nat_sqrt (256 * var) div w"
    unfolding uR[symmetric] using R unfolding uR[symmetric] by (intro unat_ucast_down) simp
  have m32: "unat (ucast (T div W) :: u32) = ?s div w"
    unfolding um[symmetric] using m unfolding um[symmetric] by (intro unat_ucast_down) simp
  have n1: "unat ((ucast R :: u32) * 1000) = nat_sqrt (256 * var) div w * 1000"
    using unat_mult_small[of "ucast R :: u32" 1000] R unfolding r32 by simp
  have n2: "unat ((ucast (T div W) :: u32) * 16) = ?s div w * 16"
    using unat_mult_small[of "ucast (T div W) :: u32" 16] m unfolding m32 by simp
  have wt: "wander_term isqrt W T q =
      (if T div W = 0 then 0 else ucast R * 1000 div (ucast (T div W) * 16))"
    unfolding wander_term_def Let_def R_def X_def ..
  have z: "T div W = 0 \<longleftrightarrow> ?s div w = 0"
    unfolding um[symmetric] by (simp only: unat_eq_0)
  have cv: "cv_permille xs = (if ?s div w = 0 then 0 else nat_sqrt (256 * var) div w * 1000 div (?s div w * 16))"
    unfolding cv_permille_def Let_def len var_def ..
  have "unat (wander_term isqrt W T q) = cv_permille xs"
    unfolding wt cv z by (simp only: if_distrib[of unat] unat_div n1 n2 unat_0)
  moreover have "cv_permille xs \<le> 65535000"
  proof (cases "?s div w = 0")
    case False
    have "nat_sqrt (256 * var) div w * 1000 div (?s div w * 16) \<le> nat_sqrt (256 * var) div w * 1000 div 16"
      using False by (intro div_le_mono2) auto
    also have "\<dots> \<le> 1048560 * 1000 div 16"
      using R by (intro div_le_mono mult_le_mono1)
    finally show ?thesis
      unfolding cv by simp
  qed (simp add: cv)
  ultimately show ?thesis
    unfolding W_def T_def ..
qed

lemma length_column [simp]: "length (column rows sc) = length rows"
  by (simp add: column_def)

definition cv_sum :: "u16 list list \<Rightarrow> nat \<Rightarrow> nat" where
  "cv_sum rows n = sum_list (map (\<lambda>sc. cv_permille (column rows sc)) [0..<n])"

lemma batch_wander_cv_sum: "batch_wander n rows = min (cv_sum rows n div n) 65535"
  unfolding batch_wander_def cv_sum_def column_def ..

text \<open>No accumulator overflows: at most 64 terms, each at most 65535000.\<close>

lemma compute_wander_total:
  assumes isq: "isqrt_ok isqrt" and ok: "detector_ok W d" and n: "n \<le> MAX_SUBCARRIERS"
  shows "unat (foldl (\<lambda>total sc. total + wander_term isqrt (of_nat W) (ucast (dt_sum d ! sc)) (dt_sumsq d ! sc))
      0 [0..<n]) = cv_sum (dt_ring d) n \<and> cv_sum (dt_ring d) n \<le> n * 65535000"
  using n
proof (induction n)
  case 0
  then show ?case
    by (simp add: cv_sum_def)
next
  case (Suc n)
  have W: "0 < W" "W \<le> 4096" "length (dt_ring d) = W"
    using ok by (simp_all add: detector_ok_def)
  have sums: "unat (dt_sum d ! n) = sum_list (column (dt_ring d) n)"
    "unat (dt_sumsq d ! n) = sum_list (map power2 (column (dt_ring d) n))"
    using ok Suc.prems by (simp_all add: detector_ok_def)
  let ?t = "wander_term isqrt (of_nat W) (ucast (dt_sum d ! n)) (dt_sumsq d ! n)"
  have t: "unat ?t = cv_permille (column (dt_ring d) n)" "cv_permille (column (dt_ring d) n) \<le> 65535000"
    using wander_term_cv[OF isq W(1,2), of "column (dt_ring d) n", OF _ sums(1) _ sums(2)]
      column_sum_le[of "dt_ring d" n] column_sumsq_le[of "dt_ring d" n] W(3) by auto
  define acc where "acc = foldl (\<lambda>total sc. total + wander_term isqrt (of_nat W) (ucast (dt_sum d ! sc)) (dt_sumsq d ! sc))
      0 [0..<n]"
  have IH: "unat acc = cv_sum (dt_ring d) n" "cv_sum (dt_ring d) n \<le> n * 65535000"
    using Suc unfolding acc_def by simp_all
  have step: "cv_sum (dt_ring d) (Suc n) = cv_sum (dt_ring d) n + cv_permille (column (dt_ring d) n)"
    by (simp add: cv_sum_def)
  have b: "cv_sum (dt_ring d) (Suc n) \<le> Suc n * 65535000"
    using IH(2) t(2) unfolding step by simp
  have "Suc n * 65535000 \<le> 64 * 65535000"
    using Suc.prems by (intro mult_le_mono1) (simp add: MAX_SUBCARRIERS_def)
  then have "unat acc + unat ?t < 2 ^ LENGTH(32)"
    using b unfolding step IH(1) t(1) by simp
  then have "unat (acc + ?t) = cv_sum (dt_ring d) (Suc n)"
    unfolding step IH(1)[symmetric] t(1)[symmetric] by (rule unat_add_small)
  with b show ?case
    by (simp add: acc_def)
qed

lemma compute_wander_batch:
  assumes isq: "isqrt_ok isqrt" and ok: "detector_ok W d"
    and n: "unat (dt_count d) \<le> MAX_SUBCARRIERS" "0 < unat (dt_count d)"
  shows "unat (compute_wander isqrt W d) = batch_wander (unat (dt_count d)) (dt_ring d)"
proof -
  define n where "n = unat (dt_count d)"
  have nn: "min (unat (dt_count d)) MAX_SUBCARRIERS = n" "n \<noteq> 0" "W \<noteq> 0" "n \<le> MAX_SUBCARRIERS"
    using n ok by (simp_all add: n_def detector_ok_def)
  define tot where "tot = foldl (\<lambda>total sc. total + wander_term isqrt (of_nat W) (ucast (dt_sum d ! sc)) (dt_sumsq d ! sc))
      0 [0..<n]"
  have tot: "unat tot = cv_sum (dt_ring d) n"
    unfolding tot_def using compute_wander_total[OF isq ok nn(4)] ..
  have e: "compute_wander isqrt W d = ucast (min (tot div of_nat n) 0xFFFF)"
    unfolding compute_wander_def nn(1) Let_def tot_def using nn(2,3) by simp
  have "unat (of_nat n :: u32) = n"
    using nn(4) by (simp add: unat_of_nat MAX_SUBCARRIERS_def)
  then have "unat (tot div of_nat n) = cv_sum (dt_ring d) n div n"
    by (simp only: unat_div tot)
  then have m: "unat (min (tot div of_nat n) 0xFFFF) = min (cv_sum (dt_ring d) n div n) 65535"
    by (simp add: min_def word_le_nat_alt)
  then have "unat (min (tot div of_nat n) 0xFFFF) < 2 ^ LENGTH(16)"
    by simp
  then show ?thesis
    unfolding e batch_wander_cv_sum n_def[symmetric] m[symmetric] by (rule unat_ucast_down)
qed

section \<open>The window is the last frames\<close>

text \<open>The ring unrolled, oldest row first.\<close>

definition unrolled :: "nat \<Rightarrow> detector \<Rightarrow> u16 list list" where
  "unrolled W d = (if dt_filled d < W then take (dt_filled d) (dt_ring d)
     else drop (dt_next d) (dt_ring d) @ take (dt_next d) (dt_ring d))"

definition features_ok :: "features \<Rightarrow> bool" where
  "features_ok f \<longleftrightarrow> length (ft_amplitude f) = MAX_SUBCARRIERS \<and> unat (ft_count f) \<le> MAX_SUBCARRIERS"

definition tracks :: "nat \<Rightarrow> detector \<Rightarrow> u16 list list \<Rightarrow> bool" where
  "tracks W d hist \<longleftrightarrow> detector_ok W d \<and> (dt_filled d < W \<longrightarrow> dt_next d = dt_filled d) \<and>
     length hist = dt_filled d \<and> unat (dt_count d) \<le> MAX_SUBCARRIERS \<and>
     map (take (unat (dt_count d))) (unrolled W d) = hist"

definition hist_push :: "nat \<Rightarrow> u16 list list \<Rightarrow> u16 list \<Rightarrow> u16 list list" where
  "hist_push W hist amps = (if length hist = W then tl hist else hist) @ [amps]"

text \<open>The part of \<open>push\<close> before the verdict.\<close>

definition advance :: "nat \<Rightarrow> detector \<Rightarrow> features \<Rightarrow> detector" where
  "advance W d f =
     (let d = (if dt_filled d > 0 \<and> ft_count f \<noteq> dt_count d then detector_reset d else d);
          d = detector_slide (d\<lparr>dt_count := ft_count f\<rparr>) (amplitudes f)
      in d\<lparr>dt_next := (dt_next d + 1) mod W,
           dt_filled := (if dt_filled d < W then dt_filled d + 1 else dt_filled d),
           dt_frames := dt_frames d + 1\<rparr>)"

definition decide :: "(u32 \<Rightarrow> u32) \<Rightarrow> nat \<Rightarrow> detector \<Rightarrow> micros \<Rightarrow> detector" where
  "decide isqrt W d now =
     (let d = d\<lparr>dt_wander := compute_wander isqrt W d\<rparr>
      in if dt_wander d \<ge> cg_on_permille (dt_config d)
         then d\<lparr>dt_present := True, dt_last_motion := now\<rparr>
         else if dt_present d \<and> dt_wander d \<le> cg_off_permille (dt_config d) \<and>
           sat_sub now (dt_last_motion d) \<ge> cg_hold (dt_config d)
         then d\<lparr>dt_present := False\<rparr> else d)"

lemma detector_push_split:
  "detector_push isqrt W d f now =
     (if ft_count f = 0 then (verdict_now W d, d)
      else if dt_filled (advance W d f) < W then (Warming, advance W d f)
      else (verdict_now W (decide isqrt W (advance W d f) now), decide isqrt W (advance W d f) now))"
  by (simp only: detector_push_def advance_def decide_def Let_def)

lemma decide_core [simp]:
  "dt_ring (decide isqrt W d now) = dt_ring d" "dt_sum (decide isqrt W d now) = dt_sum d"
  "dt_sumsq (decide isqrt W d now) = dt_sumsq d" "dt_count (decide isqrt W d now) = dt_count d"
  "dt_filled (decide isqrt W d now) = dt_filled d" "dt_next (decide isqrt W d now) = dt_next d"
  "dt_wander (decide isqrt W d now) = compute_wander isqrt W d"
  "dt_config (decide isqrt W d now) = dt_config d"
  by (simp_all add: decide_def Let_def)

lemma detector_slide_core [simp]:
  "dt_next (detector_slide d amps) = dt_next d" "dt_filled (detector_slide d amps) = dt_filled d"
  "dt_count (detector_slide d amps) = dt_count d" "dt_config (detector_slide d amps) = dt_config d"
  "dt_present (detector_slide d amps) = dt_present d" "dt_wander (detector_slide d amps) = dt_wander d"
  "dt_last_motion (detector_slide d amps) = dt_last_motion d"
  by (simp_all add: detector_slide_def split: prod.split)

lemma detector_ok_cong:
  assumes "detector_ok W d" "dt_ring d' = dt_ring d" "dt_sum d' = dt_sum d" "dt_sumsq d' = dt_sumsq d"
    and "dt_next d' < W" "dt_filled d' \<le> W"
  shows "detector_ok W d'"
  using assms(1,5,6) unfolding detector_ok_def assms(2-4) by blast

lemma detector_ok_new:
  assumes "0 < W" "W \<le> 4096"
  shows "tracks W (detector_new W cfg) []"
proof -
  have "sum_list (column (replicate W (replicate MAX_SUBCARRIERS 0)) sc) = 0 \<and>
      sum_list (map power2 (column (replicate W (replicate MAX_SUBCARRIERS 0)) sc)) = 0" if "sc < MAX_SUBCARRIERS" for sc
    using that by (simp add: column_def sum_list_replicate map_replicate_const)
  then have "detector_ok W (detector_new W cfg)"
    using assms by (simp add: detector_ok_def detector_new_def)
  then show ?thesis
    using assms by (simp add: tracks_def unrolled_def detector_new_def)
qed

lemma tracks_decide: "tracks W d hist \<Longrightarrow> tracks W (decide isqrt W d now) hist"
  unfolding tracks_def unrolled_def
  using detector_ok_cong[of W d "decide isqrt W d now"] by (auto simp: detector_ok_def)

lemma unroll_full:
  assumes k: "k < length R"
  shows "drop (Suc k mod length R) (R[k := x]) @ take (Suc k mod length R) (R[k := x]) = tl (drop k R @ take k R) @ [x]"
proof -
  have d: "drop k R = R ! k # drop (Suc k) R"
    using k by (simp add: Cons_nth_drop_Suc)
  have t: "take (Suc k) (R[k := x]) = take k R @ [x]"
    using k by (simp add: take_Suc_conv_app_nth)
  show ?thesis
  proof (cases "Suc k = length R")
    case True
    then have "R[k := x] = take k R @ [x]"
      using t by simp
    moreover have "drop (Suc k) R = []"
      using True by simp
    ultimately show ?thesis
      unfolding d using True by simp
  next
    case False
    then have "Suc k mod length R = Suc k"
      using k by simp
    moreover have "drop (Suc k) (R[k := x]) = drop (Suc k) R"
      by simp
    ultimately show ?thesis
      unfolding d by (simp only: t append_Cons list.sel append_assoc)
  qed
qed

lemma unroll_filling:
  assumes k: "k < length R"
  shows "(if Suc k < length R then take (Suc k) (R[k := x])
     else drop (Suc k mod length R) (R[k := x]) @ take (Suc k mod length R) (R[k := x])) = take k R @ [x]"
proof -
  have t: "take (Suc k) (R[k := x]) = take k R @ [x]"
    using k by (simp add: take_Suc_conv_app_nth)
  show ?thesis
  proof (cases "Suc k < length R")
    case False
    then have l: "Suc k = length R"
      using k by simp
    then have "R[k := x] = take k R @ [x]"
      using t by simp
    then show ?thesis
      using l by simp
  qed (simp add: t)
qed

text \<open>One frame of the count the window holds.\<close>

definition write_slot :: "nat \<Rightarrow> detector \<Rightarrow> u16 list \<Rightarrow> detector" where
  "write_slot W d amps =
     (let d = detector_slide d amps
      in d\<lparr>dt_next := (dt_next d + 1) mod W,
           dt_filled := (if dt_filled d < W then dt_filled d + 1 else dt_filled d),
           dt_frames := dt_frames d + 1\<rparr>)"

lemma tracks_write_slot:
  assumes tr: "tracks W d hist" and len: "length amps = unat (dt_count d)"
  shows "tracks W (write_slot W d amps) (hist_push W hist amps)"
proof -
  let ?n = "unat (dt_count d)" and ?k = "dt_next d" and ?R = "dt_ring d"
  have ok: "detector_ok W d" and n: "?n \<le> MAX_SUBCARRIERS" and fill: "dt_filled d < W \<Longrightarrow> ?k = dt_filled d"
    and hl: "length hist = dt_filled d" and h: "map (take ?n) (unrolled W d) = hist"
    using tr by (simp_all add: tracks_def)
  have W: "0 < W" "length ?R = W" "?k < W" "dt_filled d \<le> W"
    using ok by (simp_all add: detector_ok_def)
  define x where "x = amps @ drop (length amps) (?R ! ?k)"
  have sl: "detector_ok W (detector_slide d amps)" "dt_ring (detector_slide d amps) = ?R[?k := x]"
    using detector_slide_ok[OF ok, of amps] len n unfolding x_def by simp_all
  let ?d = "write_slot W d amps"
  have f: "dt_ring ?d = ?R[?k := x]" "dt_next ?d = Suc ?k mod W" "dt_count ?d = dt_count d"
    "dt_filled ?d = (if dt_filled d < W then Suc (dt_filled d) else dt_filled d)"
    "dt_sum ?d = dt_sum (detector_slide d amps)" "dt_sumsq ?d = dt_sumsq (detector_slide d amps)"
    by (simp_all add: write_slot_def Let_def sl(2))
  have ok': "detector_ok W ?d"
    using W f by (intro detector_ok_cong[OF sl(1)]) (auto simp: sl(2))
  have tx: "take ?n x = amps"
    unfolding x_def using len by simp
  have "map (take ?n) (unrolled W ?d) = hist_push W hist amps"
  proof (cases "dt_filled d < W")
    case True
    have "unrolled W ?d = (if Suc ?k < W then take (Suc ?k) (?R[?k := x])
        else drop (Suc ?k mod W) (?R[?k := x]) @ take (Suc ?k mod W) (?R[?k := x]))"
      unfolding unrolled_def f using True by (simp only: if_True fill[OF True])
    also have "\<dots> = take ?k ?R @ [x]"
      using unroll_filling[of ?k ?R x] W(3) unfolding W(2) by blast
    finally have "unrolled W ?d = take ?k ?R @ [x]" .
    moreover have "unrolled W d = take ?k ?R"
      using True fill[OF True] by (simp add: unrolled_def)
    ultimately show ?thesis
      using h True hl by (simp add: hist_push_def tx)
  next
    case False
    have "unrolled W ?d = drop (Suc ?k mod W) (?R[?k := x]) @ take (Suc ?k mod W) (?R[?k := x])"
      unfolding unrolled_def f using False by (simp only: if_False)
    also have "\<dots> = tl (drop ?k ?R @ take ?k ?R) @ [x]"
      using unroll_full[of ?k ?R x] W(3) unfolding W(2) by blast
    finally have "unrolled W ?d = tl (drop ?k ?R @ take ?k ?R) @ [x]" .
    moreover have "unrolled W d = drop ?k ?R @ take ?k ?R"
      using False by (simp add: unrolled_def)
    ultimately show ?thesis
      using h False hl W(4) by (simp add: hist_push_def tx map_tl flip: h)
  qed
  moreover have "dt_filled ?d < W \<longrightarrow> dt_next ?d = dt_filled ?d"
    using fill W unfolding f by auto
  moreover have "length (hist_push W hist amps) = dt_filled ?d"
    using hl W unfolding f hist_push_def by auto
  ultimately show ?thesis
    using ok' n unfolding tracks_def f(3) by blast
qed

lemma tracks_advance:
  assumes tr: "tracks W d hist" and f: "features_ok f"
  shows "tracks W (advance W d f) (hist_push W (if dt_count d = ft_count f then hist else []) (amplitudes f))"
proof -
  define d1 where "d1 = (if dt_filled d > 0 \<and> ft_count f \<noteq> dt_count d then detector_reset d else d)\<lparr>dt_count := ft_count f\<rparr>"
  have ok: "detector_ok W d" and hl: "length hist = dt_filled d"
    using tr by (simp_all add: tracks_def)
  then have W: "0 < W" "dt_next d < W" "dt_filled d \<le> W"
    by (simp_all add: detector_ok_def)
  have n: "unat (ft_count f) \<le> MAX_SUBCARRIERS"
    using f by (simp add: features_ok_def)
  have ok1: "detector_ok W d1"
    using W by (intro detector_ok_cong[OF ok]) (auto simp: d1_def detector_reset_def)
  have "tracks W d1 (if dt_count d = ft_count f then hist else [])"
  proof (cases "dt_count d = ft_count f")
    case True
    then have "d1 = d"
      by (simp add: d1_def)
    with tr True show ?thesis by simp
  next
    case False
    then have "dt_filled d1 = 0" "dt_next d1 = 0" "dt_count d1 = ft_count f"
      using tr W by (auto simp: d1_def detector_reset_def tracks_def)
    with ok1 False n W show ?thesis
      by (simp add: tracks_def unrolled_def)
  qed
  moreover have "length (amplitudes f) = unat (dt_count d1)"
    using f by (simp add: amplitudes_def features_ok_def d1_def)
  moreover have "advance W d f = write_slot W d1 (amplitudes f)"
    unfolding advance_def write_slot_def d1_def Let_def by simp
  ultimately show ?thesis
    using tracks_write_slot by simp
qed

lemma batch_wander_tracks:
  assumes tr: "tracks W d hist" and full: "\<not> dt_filled d < W"
  shows "batch_wander (unat (dt_count d)) (dt_ring d) = batch_wander (unat (dt_count d)) hist"
proof -
  let ?n = "unat (dt_count d)"
  have h: "hist = map (take ?n) (drop (dt_next d) (dt_ring d) @ take (dt_next d) (dt_ring d))"
    using tr full by (auto simp: tracks_def unrolled_def)
  have "cv_permille (column hist sc) = cv_permille (column (dt_ring d) sc)" if "sc < ?n" for sc
  proof -
    have "column hist sc = column (drop (dt_next d) (dt_ring d)) sc @ column (take (dt_next d) (dt_ring d)) sc"
      unfolding h column_def using that by simp
    moreover have "column (dt_ring d) sc = column (take (dt_next d) (dt_ring d)) sc @ column (drop (dt_next d) (dt_ring d)) sc"
      unfolding column_def by (simp flip: map_append)
    ultimately show ?thesis
      using cv_permille_rotate by simp
  qed
  then have "cv_sum hist ?n = cv_sum (dt_ring d) ?n"
    unfolding cv_sum_def by (intro arg_cong[where f = sum_list] map_cong) auto
  then show ?thesis
    by (simp only: batch_wander_cv_sum)
qed

definition detector_run :: "(u32 \<Rightarrow> u32) \<Rightarrow> nat \<Rightarrow> detector \<Rightarrow> (features \<times> micros) list \<Rightarrow> detector" where
  "detector_run isqrt W d fs = foldl (\<lambda>d (f, now). snd (detector_push isqrt W d f now)) d fs"

lemma detector_run_snoc [simp]:
  "detector_run isqrt W d (fs @ [(f, now)]) = snd (detector_push isqrt W (detector_run isqrt W d fs) f now)"
  "detector_run isqrt W d [] = d"
  by (simp_all add: detector_run_def)

lemma tracks_push:
  assumes "tracks W d hist" and "features_ok f" and "ft_count f \<noteq> 0"
  shows "tracks W (snd (detector_push isqrt W d f now))
      (hist_push W (if dt_count d = ft_count f then hist else []) (amplitudes f)) \<and>
    dt_count (snd (detector_push isqrt W d f now)) = ft_count f \<and>
    (\<not> dt_filled (snd (detector_push isqrt W d f now)) < W \<longrightarrow>
      dt_wander (snd (detector_push isqrt W d f now)) = compute_wander isqrt W (snd (detector_push isqrt W d f now)))"
proof -
  have c: "dt_count (advance W d f) = ft_count f"
    by (simp add: advance_def Let_def)
  have cw: "compute_wander isqrt W (decide isqrt W e now) = compute_wander isqrt W e" for e
    unfolding compute_wander_def decide_core ..
  note t = tracks_advance[OF assms(1,2)]
  show ?thesis
  proof (cases "dt_filled (advance W d f) < W")
    case True
    then have e: "snd (detector_push isqrt W d f now) = advance W d f"
      using assms(3) by (simp add: detector_push_split)
    show ?thesis
      unfolding e using t c True by blast
  next
    case False
    then have e: "snd (detector_push isqrt W d f now) = decide isqrt W (advance W d f) now"
      using assms(3) by (simp add: detector_push_split)
    show ?thesis
      unfolding e cw decide_core using tracks_decide[OF t] c by blast
  qed
qed

lemma tracks_run:
  assumes "0 < W" and "W \<le> 4096" and "\<forall>(f, now)\<in>set fs. features_ok f"
  shows "\<exists>hist. tracks W (detector_run isqrt W (detector_new W cfg) fs) hist"
  using assms(3)
proof (induction fs rule: rev_induct)
  case Nil
  then show ?case
    using detector_ok_new[OF assms(1,2)] by auto
next
  case (snoc x fs)
  obtain f now where x: "x = (f, now)"
    by (cases x)
  from snoc obtain hist where h: "tracks W (detector_run isqrt W (detector_new W cfg) fs) hist" and f: "features_ok f"
    unfolding x by auto
  show ?case
  proof (cases "ft_count f = 0")
    case True
    with h show ?thesis
      unfolding x by (auto simp: detector_push_split)
  next
    case False
    then show ?thesis
      using tracks_push[OF h f False] unfolding x by auto
  qed
qed

text \<open>A window of frames of one count: whatever the history held, its tail is those frames.\<close>

lemma tracks_window:
  assumes tr: "tracks W d hist" and W: "0 < W"
    and win: "\<forall>(f, now)\<in>set win. features_ok f \<and> ft_count f = n" and n: "n \<noteq> 0"
    and len: "length win \<le> W" "win \<noteq> []"
  shows "\<exists>pre. tracks W (detector_run isqrt W d win) (pre @ map (\<lambda>(f, now). amplitudes f) win) \<and>
    dt_count (detector_run isqrt W d win) = n \<and>
    (\<not> dt_filled (detector_run isqrt W d win) < W \<longrightarrow>
       dt_wander (detector_run isqrt W d win) = compute_wander isqrt W (detector_run isqrt W d win))"
  using win len
proof (induction win rule: rev_induct)
  case Nil
  then show ?case by simp
next
  case (snoc x fs)
  obtain f now where x: "x = (f, now)"
    by (cases x)
  have f: "features_ok f" "ft_count f = n"
    using snoc.prems unfolding x by simp_all
  show ?case
  proof (cases "fs = []")
    case True
    then have r: "detector_run isqrt W d (fs @ [x]) = snd (detector_push isqrt W d f now)"
      unfolding x by (simp add: detector_run_def)
    define h where "h = (if dt_count d = n then hist else [])"
    have "hist_push W h (amplitudes f) = (if length h = W then tl h else h) @ map (\<lambda>(f, now). amplitudes f) (fs @ [x])"
      using True by (simp add: hist_push_def x)
    then show ?thesis
      using tracks_push[OF tr f(1), of isqrt now] n unfolding r f(2) h_def by metis
  next
    case False
    with snoc obtain pre where p: "tracks W (detector_run isqrt W d fs) (pre @ map (\<lambda>(f, now). amplitudes f) fs)"
      "dt_count (detector_run isqrt W d fs) = n"
      by (auto simp: x)
    let ?rows = "map (\<lambda>(f, now). amplitudes f) fs"
    have "\<exists>pre'. hist_push W (pre @ ?rows) (amplitudes f) = pre' @ ?rows @ [amplitudes f]"
    proof (cases "length (pre @ ?rows) = W")
      case True
      then have "pre \<noteq> []"
        using snoc.prems(2) by auto
      then show ?thesis
        using True by (intro exI[of _ "tl pre"]) (simp add: hist_push_def)
    qed (simp add: hist_push_def)
    then obtain pre' where e: "hist_push W (pre @ ?rows) (amplitudes f) = pre' @ ?rows @ [amplitudes f]" ..
    show ?thesis
      using tracks_push[OF p(1) f(1), of isqrt now] n p(2) unfolding x f(2) by (intro exI[of _ pre']) (simp add: e)
  qed
qed

section \<open>Properties\<close>

lemma isqrt64_is_floor_sqrt:
  "(unat (isqrt64 v))\<^sup>2 \<le> unat v \<and> unat v < (unat (isqrt64 v) + 1)\<^sup>2"
  by (rule isqrt64_nat)

text \<open>C9: The incremental detector computes the batch statistic. Whatever was pushed before (frames
  of other subcarrier counts, resets included), after a window of \<open>W\<close> frames of one count the detector
  is warm and its wander is the mean coefficient of variation of exactly those \<open>W\<close> frames, computed
  from scratch on unbounded numbers: no running sum has drifted, nothing wrapped, and no stale row
  counts. The window is at most 4096 frames: the code admits 65536, but beyond 8192 its \<open>256 * var\<close> can
  leave 64 bits.\<close>

theorem wander_is_batch:
  assumes "isqrt_ok isqrt" and "0 < W" and "W \<le> 4096" and "length win = W" and "n \<noteq> 0"
    and "\<forall>(f, now)\<in>set before. features_ok f"
    and "\<forall>(f, now)\<in>set win. features_ok f \<and> ft_count f = n"
  shows "detector_warm W (detector_run isqrt W (detector_new W cfg) (before @ win)) \<and>
    unat (dt_wander (detector_run isqrt W (detector_new W cfg) (before @ win))) =
      batch_wander (unat n) (map (\<lambda>(f, now). amplitudes f) win)"
proof -
  let ?d = "detector_run isqrt W (detector_new W cfg) before"
  have r: "detector_run isqrt W (detector_new W cfg) (before @ win) = detector_run isqrt W ?d win"
    by (simp add: detector_run_def)
  obtain hist where "tracks W ?d hist"
    using tracks_run[OF assms(2,3,6)] by blast
  moreover have "win \<noteq> []"
    using assms(2,4) by auto
  ultimately obtain pre where p: "tracks W (detector_run isqrt W ?d win) (pre @ map (\<lambda>(f, now). amplitudes f) win)"
    "dt_count (detector_run isqrt W ?d win) = n"
    "\<not> dt_filled (detector_run isqrt W ?d win) < W \<Longrightarrow>
      dt_wander (detector_run isqrt W ?d win) = compute_wander isqrt W (detector_run isqrt W ?d win)"
    using tracks_window[OF _ assms(2,7,5), of ?d hist isqrt] assms(4) by auto
  let ?e = "detector_run isqrt W ?d win"
  have "length pre + W = dt_filled ?e" and ok: "detector_ok W ?e" and n: "unat n \<le> MAX_SUBCARRIERS"
    using p(1,2) assms(4) by (auto simp: tracks_def)
  moreover have "dt_filled ?e \<le> W"
    using ok by (simp add: detector_ok_def)
  ultimately have "dt_filled ?e = W" "length pre = 0"
    by linarith+
  then have full: "dt_filled ?e = W" "pre = []"
    by simp_all
  have n0: "0 < unat n"
    using assms(5) by (simp add: unat_gt_0)
  have "unat (dt_wander ?e) = batch_wander (unat n) (dt_ring ?e)"
    using compute_wander_batch[OF assms(1) ok] p(2,3) full(1) n n0 by simp
  also have "\<dots> = batch_wander (unat n) (map (\<lambda>(f, now). amplitudes f) win)"
    using batch_wander_tracks[OF p(1)] full p(2) by simp
  finally show ?thesis
    unfolding r detector_warm_def full(1) by simp
qed

text \<open>A 32-bit root that satisfies the contract, for evaluation.\<close>

definition isqrt_sample :: "u32 \<Rightarrow> u32" where
  "isqrt_sample v = ucast (isqrt64 (ucast v))"

lemma isqrt_sample_ok: "isqrt_ok isqrt_sample"
  unfolding isqrt_ok_def
proof
  fix v :: u32
  have v: "unat (ucast v :: u64) = unat v"
    by (rule unat_ucast_up) simp
  note r = isqrt64_nat[of "ucast v", unfolded v]
  have e: "(2::nat) ^ LENGTH(32) = (2 ^ 16)\<^sup>2"
    by simp
  have "(unat (isqrt64 (ucast v)))\<^sup>2 < (2 ^ 16)\<^sup>2"
    by (rule le_less_trans[OF r[THEN conjunct1] unat_less[of v, unfolded e]])
  then have "unat (isqrt64 (ucast v)) < 2 ^ 16"
    by (rule power2_less_imp_less) simp
  then have "unat (isqrt_sample v) = unat (isqrt64 (ucast v))"
    unfolding isqrt_sample_def by (intro unat_ucast_down) simp
  with r show "(unat (isqrt_sample v))\<^sup>2 \<le> unat v \<and> unat v < (unat (isqrt_sample v) + 1)\<^sup>2"
    by (simp only:)
qed

definition flat_features :: "u16 \<Rightarrow> u8 \<Rightarrow> features" where
  "flat_features a n = \<lparr>ft_amplitude = replicate MAX_SUBCARRIERS a, ft_count = n, ft_mean = a, ft_variance = 0\<rparr>"

lemma flat_features_ok: "unat n \<le> MAX_SUBCARRIERS \<Longrightarrow> features_ok (flat_features a n)"
  by (simp add: features_ok_def flat_features_def)

abbreviation sample_before :: "(features \<times> micros) list" where
  "sample_before \<equiv> [(flat_features 9 3, 0)]"

abbreviation sample_window :: "(features \<times> micros) list" where
  "sample_window \<equiv> [(flat_features 100 2, 1), (flat_features 300 2, 2)]"

lemma sample_window_ok:
  "\<forall>(f, now)\<in>set sample_before. features_ok f"
  "\<forall>(f, now)\<in>set sample_window. features_ok f \<and> ft_count f = 2"
proof -
  have c: "ft_count (flat_features a n) = n" for a n
    by (simp add: flat_features_def)
  have "unat (2 :: u8) \<le> MAX_SUBCARRIERS" "unat (3 :: u8) \<le> MAX_SUBCARRIERS"
    by (simp_all add: MAX_SUBCARRIERS_def)
  then show "\<forall>(f, now)\<in>set sample_before. features_ok f"
    "\<forall>(f, now)\<in>set sample_window. features_ok f \<and> ft_count f = 2"
    by (auto simp only: list.set insert_iff empty_iff c flat_features_ok)
qed

theorem wander_is_batch_witness:
  "detector_warm 2 (detector_run isqrt_sample 2 (detector_new 2 csi_config_default) (sample_before @ sample_window)) \<and>
   unat (dt_wander (detector_run isqrt_sample 2 (detector_new 2 csi_config_default) (sample_before @ sample_window))) =
     batch_wander (unat (2 :: u8)) (map (\<lambda>(f, now). amplitudes f) sample_window)"
  by (rule wander_is_batch[OF isqrt_sample_ok _ _ _ _ sample_window_ok]) (simp_all only: list.size, simp_all)

lemma unat_sum_u32: "length xs \<le> 65536 \<Longrightarrow> unat (sum_u32 xs) = sum_list (map unat xs) \<and> sum_list (map unat xs) \<le> length xs * 65535"
proof (induction xs rule: rev_induct)
  case Nil
  then show ?case
    by (simp add: sum_u32_def)
next
  case (snoc x xs)
  have x: "unat (ucast x :: u32) = unat x"
    by (rule unat_ucast_up) simp
  have "sum_list (map unat xs) + unat x < 2 ^ LENGTH(32)"
    using snoc unat_u16_le[of x] by simp
  then have "unat (sum_u32 xs + ucast x) = sum_list (map unat xs) + unat x"
    using snoc unat_add_small[of "sum_u32 xs" "ucast x"] x by simp
  then show ?case
    using snoc unat_u16_le[of x] by (simp add: sum_u32_def)
qed

text \<open>One normalised amplitude, as a ratio to the frame's sum.\<close>

lemma unat_ratio:
  fixes a :: u16 and tot n :: u32
  assumes "unat a * 1024 * unat n < 2 ^ 32"
  shows "unat (ucast a * 1024 * n div tot) = unat a * 1024 * unat n div unat tot"
proof (cases "unat n = 0")
  case True
  then have "n = 0"
    by (simp add: unat_eq_0)
  then show ?thesis by simp
next
  case False
  have a: "unat (ucast a :: u32) = unat a"
    by (rule unat_ucast_up) simp
  have "unat a * 1024 \<le> unat a * 1024 * unat n"
    using False by simp
  then have "unat ((ucast a :: u32) * 1024) = unat a * 1024"
    using le_less_trans[OF _ assms] unat_mult_small[of "ucast a :: u32" 1024] a by simp
  then have "unat ((ucast a :: u32) * 1024 * n) = unat a * 1024 * unat n"
    using assms unat_mult_small[of "(ucast a :: u32) * 1024" n] by simp
  then show ?thesis
    by (simp only: unat_div)
qed

lemma normalised_cancels_gain:
  assumes "features_ok f" and "features_ok g" and "ft_count g = ft_count f"
    and "amplitudes g = map (\<lambda>a. of_nat c * a) (amplitudes f)"
    and "0 < c" and "\<forall>a\<in>set (amplitudes f). c * unat a * 65536 < 2 ^ 32"
    and "\<exists>a\<in>set (amplitudes f). a \<noteq> 0"
  shows "normalised g = normalised f"
proof -
  let ?n = "unat (ft_count f)" and ?A = "amplitudes f"
  have n: "?n \<le> MAX_SUBCARRIERS"
    using assms(1) by (simp add: features_ok_def)
  then have mn: "min ?n MAX_SUBCARRIERS = ?n"
    by simp
  have n32: "unat (of_nat ?n :: u32) = ?n"
    by (simp add: unat_ucast_up)
  have len: "length ?A \<le> 64"
    using n by (simp add: amplitudes_def MAX_SUBCARRIERS_def)
  have n0: "?n \<noteq> 0"
  proof
    assume "?n = 0"
    then have "?A = []"
      by (simp only: amplitudes_def take_0)
    with assms(7) show False by simp
  qed
  have mul: "unat (of_nat c * a) = c * unat a" if "a \<in> set ?A" "a \<noteq> 0" for a
  proof -
    have b: "c * unat a < 65536"
      using assms(6) that(1) by auto
    have "c \<le> c * unat a"
      using that(2) by (simp add: unat_eq_0[symmetric])
    with b have "c < 65536"
      by (rule le_less_trans[rotated])
    then have "unat (of_nat c :: u16) = c"
      by (simp add: unat_of_nat)
    then show ?thesis
      using unat_mult_small[of "of_nat c :: u16" a] b by simp
  qed
  have mul': "unat (of_nat c * a) = c * unat a" if "a \<in> set ?A" for a
    using mul[OF that] by (cases "a = 0") auto
  have sums: "sum_list (map unat (map (\<lambda>a. of_nat c * a) ?A)) = c * sum_list (map unat ?A)"
  proof -
    have "map unat (map (\<lambda>a. of_nat c * a) ?A) = map (\<lambda>a. c * unat a) ?A"
      using mul' by simp
    then show ?thesis
      by (simp only: sum_list_const_mult)
  qed
  have tf: "unat (sum_u32 ?A) = sum_list (map unat ?A)"
    using unat_sum_u32[of ?A] len by simp
  have tg: "unat (sum_u32 (map (\<lambda>a. of_nat c * a) ?A)) = c * unat (sum_u32 ?A)"
    using unat_sum_u32[of "map (\<lambda>a. of_nat c * a) ?A"] len sums tf by simp
  have pos: "sum_u32 ?A \<noteq> 0"
  proof -
    obtain a where a: "a \<in> set ?A" "a \<noteq> 0"
      using assms(7) by blast
    then have "unat a \<le> sum_list (map unat ?A)"
      by (intro member_le_sum_list) auto
    moreover have "0 < unat a"
      using a(2) by (simp add: unat_gt_0)
    ultimately show ?thesis
      using tf by (metis not_less unat_0)
  qed
  then have pos': "sum_u32 (map (\<lambda>a. of_nat c * a) ?A) \<noteq> 0"
    using tg assms(5) by (metis mult_is_0 not_less_iff_gr_or_eq unat_0 unat_eq_0)
  have ratio: "ucast (of_nat c * a) * 1024 * of_nat ?n div sum_u32 (map (\<lambda>a. of_nat c * a) ?A) =
      (ucast a * 1024 * of_nat ?n div sum_u32 ?A :: u32)" if a: "a \<in> set ?A" for a
  proof -
    have "1024 * ?n \<le> 65536"
      using n by (simp add: MAX_SUBCARRIERS_def)
    then have k: "c * unat a * (1024 * ?n) \<le> c * unat a * 65536"
      by (rule mult_le_mono2)
    moreover have "c * unat a * 65536 < 2 ^ 32"
      using assms(6) a by blast
    ultimately have "c * unat a * (1024 * ?n) < 2 ^ 32"
      by (rule le_less_trans)
    then have g: "c * unat a * 1024 * ?n < 2 ^ 32"
      by (simp only: mult.assoc)
    have "unat a * 1024 * ?n \<le> c * (unat a * 1024 * ?n)"
      using assms(5) by simp
    moreover have "c * (unat a * 1024 * ?n) < 2 ^ 32"
      using g by (simp only: mult.assoc)
    ultimately have f: "unat a * 1024 * ?n < 2 ^ 32"
      by (rule le_less_trans)
    have "c * (unat a * 1024 * ?n) div (c * unat (sum_u32 ?A)) = unat a * 1024 * ?n div unat (sum_u32 ?A)"
      using assms(5) by (intro div_mult_mult1) simp
    then have "c * unat a * 1024 * ?n div (c * unat (sum_u32 ?A)) = unat a * 1024 * ?n div unat (sum_u32 ?A)"
      by (simp only: mult.assoc)
    then show ?thesis
      using unat_ratio[of "of_nat c * a" "of_nat ?n" "sum_u32 (map (\<lambda>a. of_nat c * a) ?A)"]
        unat_ratio[of a "of_nat ?n" "sum_u32 ?A"] f g
      unfolding word_unat_eq_iff n32 mul'[OF a] tg by presburger
  qed
  have takes: "take ?n (ft_amplitude f) = ?A" "take ?n (ft_amplitude g) = map (\<lambda>a. of_nat c * a) ?A"
    using assms(3,4) by (simp_all add: amplitudes_def)
  have vs: "map (\<lambda>a. ucast (min (ucast a * 1024 * of_nat ?n div sum_u32 (map (\<lambda>a. of_nat c * a) ?A)) (0xFFFF :: u32)) :: u16)
      (map (\<lambda>a. of_nat c * a) ?A) =
    map (\<lambda>a. ucast (min (ucast a * 1024 * of_nat ?n div sum_u32 ?A) (0xFFFF :: u32))) ?A"
    unfolding map_map by (rule map_cong[OF refl]) (simp only: o_apply ratio)
  show ?thesis
    unfolding normalised_def assms(3) mn takes Let_def vs using n0 pos pos' by (simp only: if_False simp_thms)
qed

section \<open>The hold\<close>

definition is_present :: "verdict \<Rightarrow> bool" where
  "is_present v = (case v of Present _ \<Rightarrow> True | _ \<Rightarrow> False)"

fun detector_verdicts :: "(u32 \<Rightarrow> u32) \<Rightarrow> nat \<Rightarrow> detector \<Rightarrow> (features \<times> micros) list \<Rightarrow> verdict list" where
  "detector_verdicts isqrt W d [] = []"
| "detector_verdicts isqrt W d ((f, now) # fs) =
     fst (detector_push isqrt W d f now) # detector_verdicts isqrt W (snd (detector_push isqrt W d f now)) fs"

lemma advance_warm:
  assumes "dt_filled d = W" and "ft_count f = dt_count d"
  shows "dt_filled (advance W d f) = W \<and> dt_count (advance W d f) = dt_count d \<and>
    dt_config (advance W d f) = dt_config d \<and> dt_present (advance W d f) = dt_present d \<and>
    dt_last_motion (advance W d f) = dt_last_motion d"
  using assms by (simp add: advance_def Let_def)

lemma decide_hold:
  assumes "dt_present d" and "dt_last_motion d \<le> now" and "sat_sub now (dt_last_motion d) < cg_hold (dt_config d)"
  shows "dt_present (decide isqrt W d now) \<and> dt_last_motion d \<le> dt_last_motion (decide isqrt W d now)"
  using assms by (auto simp: decide_def Let_def)

lemma sat_sub_antimono: "a \<le> b \<Longrightarrow> sat_sub t b \<le> sat_sub (t :: 'a::len word) a"
  by (simp add: word_le_nat_alt unat_sat_sub)

lemma verdict_now_present: "dt_filled d = W \<Longrightarrow> dt_present d \<Longrightarrow> is_present (verdict_now W d)"
  by (simp add: verdict_now_def is_present_def)

lemma push_held:
  assumes "dt_filled d = W" and "ft_count f = dt_count d" and "dt_count d \<noteq> 0" and "dt_present d"
    and "dt_last_motion d \<le> now" and "sat_sub now (dt_last_motion d) < cg_hold (dt_config d)"
  shows "is_present (fst (detector_push isqrt W d f now)) \<and>
    (let d' = snd (detector_push isqrt W d f now) in
      dt_filled d' = W \<and> dt_count d' = dt_count d \<and> dt_config d' = dt_config d \<and> dt_present d' \<and>
      (dt_last_motion d' = dt_last_motion d \<or> dt_last_motion d' = now))"
proof -
  note a = advance_warm[OF assms(1,2)]
  have h: "dt_present (decide isqrt W (advance W d f) now) \<and>
      (dt_last_motion (decide isqrt W (advance W d f) now) = dt_last_motion d \<or>
       dt_last_motion (decide isqrt W (advance W d f) now) = now)"
    using assms(4-6) a by (auto simp: decide_def Let_def)
  have "detector_push isqrt W d f now =
      (verdict_now W (decide isqrt W (advance W d f) now), decide isqrt W (advance W d f) now)"
    using assms(2,3) a by (simp add: detector_push_split)
  then show ?thesis
    using a h verdict_now_present[of "decide isqrt W (advance W d f) now" W] by (simp add: Let_def)
qed

lemma presence_is_held:
  assumes "dt_filled d = W" and "dt_count d \<noteq> 0" and "dt_present d"
    and "sorted (dt_last_motion d # map snd fs)"
    and "\<forall>(f, now)\<in>set fs. ft_count f = dt_count d \<and>
      unat now - unat (dt_last_motion d) < unat (cg_hold (dt_config d))"
  shows "list_all is_present (detector_verdicts isqrt W d fs)"
  using assms
proof (induction fs arbitrary: d)
  case Nil
  then show ?case by simp
next
  case (Cons x fs)
  obtain f now where x: "x = (f, now)"
    by (cases x)
  let ?d = "snd (detector_push isqrt W d f now)"
  have f: "ft_count f = dt_count d" "dt_last_motion d \<le> now"
    "sat_sub now (dt_last_motion d) < cg_hold (dt_config d)"
    using Cons.prems(4,5) unfolding x by (simp_all add: word_less_nat_alt unat_sat_sub)
  note p = push_held[OF Cons.prems(1) f(1) Cons.prems(2,3) f(2,3), of isqrt, unfolded Let_def]
  have le: "dt_last_motion d \<le> dt_last_motion ?d"
    using p f(2) by auto
  have "list_all is_present (detector_verdicts isqrt W ?d fs)"
  proof (rule Cons.IH)
    show "dt_filled ?d = W" "dt_present ?d" "dt_count ?d \<noteq> 0"
      using p Cons.prems(2) by simp_all
    show "sorted (dt_last_motion ?d # map snd fs)"
      using p Cons.prems(4) unfolding x by auto
    show "\<forall>(g, t)\<in>set fs. ft_count g = dt_count ?d \<and>
        unat t - unat (dt_last_motion ?d) < unat (cg_hold (dt_config ?d))"
    proof safe
      fix g t
      assume g: "(g, t) \<in> set fs"
      then show "ft_count g = dt_count ?d"
        using p Cons.prems(5) by auto
      have "unat t - unat (dt_last_motion d) < unat (cg_hold (dt_config d))"
        using g Cons.prems(5) by auto
      moreover have "unat t - unat (dt_last_motion ?d) \<le> unat t - unat (dt_last_motion d)"
        using le by (intro diff_le_mono2) (simp add: word_le_nat_alt)
      ultimately show "unat t - unat (dt_last_motion ?d) < unat (cg_hold (dt_config ?d))"
        using p by simp
    qed
  qed
  then show ?case
    using p unfolding x by simp
qed

definition sample_detector :: detector where
  "sample_detector = (detector_new 1 csi_config_default)\<lparr>dt_filled := 1, dt_count := 2, dt_present := True, dt_last_motion := 5\<rparr>"

end
