(* ===== verification/Fall.thy ===== *)
theory Fall
  imports Prelude
begin

text \<open>
  Suspected falls (\<open>crates/rusty_esp_signal-core/src/radar/fall.rs\<close>): a state machine over the wander of
  the presence detector. The lemmas show what an event means for the samples that led to it, and how far
  apart two events are.
\<close>

record fall_config =
  fc_active :: u16
  fc_burst :: u16
  fc_still :: u16
  fc_min_active :: micros
  fc_quiet_grace :: micros
  fc_settle :: micros
  fc_still_for :: micros
  fc_refractory :: micros

definition fall_config_default :: fall_config where
  "fall_config_default =
     \<lparr>fc_active = 32, fc_burst = 232, fc_still = 30, fc_min_active = 2 * 1000000, fc_quiet_grace = 3 * 1000000,
      fc_settle = 3 * 1000000, fc_still_for = 10 * 1000000, fc_refractory = 60 * 1000000\<rparr>"

record fall_event =
  fe_burst_at :: micros
  fe_peak :: u16
  fe_still_since :: micros
  fe_at :: micros

datatype fall_phase =
    FIdle
  | FActive micros "micros option"
  | FBurst micros u16
  | FSettling micros u16 micros
  | FRefractory micros

record fall_detector =
  fd_config :: fall_config
  fd_phase :: fall_phase
  fd_events :: u32

definition fall_new :: "fall_config \<Rightarrow> fall_detector" where
  "fall_new cfg = \<lparr>fd_config = cfg, fd_phase = FIdle, fd_events = 0\<rparr>"

definition fall_pending :: "fall_detector \<Rightarrow> bool" where
  "fall_pending d = (case fd_phase d of FBurst _ _ \<Rightarrow> True | FSettling _ _ _ \<Rightarrow> True | _ \<Rightarrow> False)"

definition fall_reset :: "fall_detector \<Rightarrow> fall_detector" where
  "fall_reset d = d\<lparr>fd_phase := FIdle\<rparr>"

definition fall_push :: "fall_detector \<Rightarrow> u16 \<Rightarrow> micros \<Rightarrow> fall_event option \<times> fall_detector" where
  "fall_push d wander now =
     (let c = fd_config d; since = (\<lambda>t. sat_sub now t) in
      case fd_phase d of
        FRefractory till \<Rightarrow> (None, if now \<ge> till then d\<lparr>fd_phase := FIdle\<rparr> else d)
      | FIdle \<Rightarrow> (None, if wander \<ge> fc_active c then d\<lparr>fd_phase := FActive now None\<rparr> else d)
      | FActive start quiet_since \<Rightarrow>
          (None,
           if wander \<ge> fc_burst c \<and> since start \<ge> fc_min_active c then d\<lparr>fd_phase := FBurst now wander\<rparr>
           else if wander \<le> fc_still c then
             (let q = (case quiet_since of None \<Rightarrow> now | Some q \<Rightarrow> q)
              in d\<lparr>fd_phase := (if since q \<ge> fc_quiet_grace c then FIdle else FActive start (Some q))\<rparr>)
           else d\<lparr>fd_phase := FActive start None\<rparr>)
      | FBurst burst_at peak \<Rightarrow>
          (None,
           if wander \<le> fc_still c then d\<lparr>fd_phase := FSettling burst_at peak now\<rparr>
           else if since burst_at > fc_settle c then d\<lparr>fd_phase := FActive now None\<rparr>
           else d\<lparr>fd_phase := FBurst burst_at (max peak wander)\<rparr>)
      | FSettling burst_at peak still_since \<Rightarrow>
          if wander \<ge> fc_active c then (None, d\<lparr>fd_phase := FActive now None\<rparr>)
          else if wander > fc_still c then (None, d)
          else if since still_since \<ge> fc_still_for c then
            (Some \<lparr>fe_burst_at = burst_at, fe_peak = peak, fe_still_since = still_since, fe_at = now\<rparr>,
             d\<lparr>fd_phase := FRefractory (sat_add now (fc_refractory c)), fd_events := sat_add (fd_events d) 1\<rparr>)
          else (None, d))"

text \<open>A run over timed samples: the events raised, in order, and the detector it ends in.\<close>

fun fall_run :: "fall_detector \<Rightarrow> (u16 \<times> micros) list \<Rightarrow> fall_event list \<times> fall_detector" where
  "fall_run d [] = ([], d)"
| "fall_run d ((w, t) # xs) =
     (let r = fall_push d w t; rest = fall_run (snd r) xs
      in (case fst r of None \<Rightarrow> fst rest | Some v \<Rightarrow> v # fst rest, snd rest))"

lemma fall_push_config [simp]: "fd_config (snd (fall_push d w t)) = fd_config d"
  by (simp add: fall_push_def Let_def split: fall_phase.split option.split)

lemma fall_run_config [simp]: "fd_config (snd (fall_run d xs)) = fd_config d"
  by (induction d xs rule: fall_run.induct) (simp_all add: Let_def)

section \<open>What an event means\<close>

text \<open>Movement: a sample at the activity threshold, or above the stillness one after a burst.\<close>

definition moved :: "fall_config \<Rightarrow> u16 \<Rightarrow> bool" where
  "moved c w \<longleftrightarrow> fc_active c \<le> w \<or> fc_still c < w"

definition burst_seen :: "fall_config \<Rightarrow> (u16 \<times> micros) list \<Rightarrow> micros \<Rightarrow> u16 \<Rightarrow> bool" where
  "burst_seen c h burst_at peak \<longleftrightarrow>
     (\<exists>pre wa ta mid wb during. h = pre @ (wa, ta) # mid @ (wb, burst_at) # during \<and>
        moved c wa \<and> unat (fc_min_active c) \<le> unat burst_at - unat ta \<and> fc_burst c \<le> wb \<and>
        (\<forall>(w, t)\<in>set during. fc_still c < w) \<and> peak = Max (set (wb # map fst during)))"

definition fall_shape :: "fall_config \<Rightarrow> (u16 \<times> micros) list \<Rightarrow> fall_event \<Rightarrow> bool" where
  "fall_shape c h e \<longleftrightarrow>
     (\<exists>before ws quiet. h = before @ (ws, fe_still_since e) # quiet \<and>
        burst_seen c before (fe_burst_at e) (fe_peak e) \<and> ws \<le> fc_still c \<and>
        (\<forall>(w, t)\<in>set quiet. w < fc_active c) \<and> quiet \<noteq> [] \<and> fst (last quiet) \<le> fc_still c \<and>
        snd (last quiet) = fe_at e \<and> unat (fc_still_for c) \<le> unat (fe_at e) - unat (fe_still_since e))"

definition phase_inv :: "fall_config \<Rightarrow> (u16 \<times> micros) list \<Rightarrow> fall_phase \<Rightarrow> bool" where
  "phase_inv c h p =
     (case p of
        FActive ta _ \<Rightarrow> (\<exists>pre wa mid. h = pre @ (wa, ta) # mid \<and> moved c wa)
      | FBurst b peak \<Rightarrow> burst_seen c h b peak
      | FSettling b peak st \<Rightarrow>
          (\<exists>before ws quiet. h = before @ (ws, st) # quiet \<and> burst_seen c before b peak \<and> ws \<le> fc_still c \<and>
             (\<forall>(w, t)\<in>set quiet. w < fc_active c))
      | _ \<Rightarrow> True)"

lemma phase_inv_simps [simp]:
  "phase_inv c h FIdle" "phase_inv c h (FRefractory u)"
  "phase_inv c h (FActive ta q) \<longleftrightarrow> (\<exists>pre wa mid. h = pre @ (wa, ta) # mid \<and> moved c wa)"
  "phase_inv c h (FBurst b peak) \<longleftrightarrow> burst_seen c h b peak"
  by (simp_all add: phase_inv_def)

lemma phase_inv_active_here: "moved c w \<Longrightarrow> phase_inv c (h @ [(w, t)]) (FActive t q)"
  by auto

lemma phase_inv_active_later: "phase_inv c h (FActive ta q) \<Longrightarrow> phase_inv c (h @ [x]) (FActive ta q')"
proof -
  assume "phase_inv c h (FActive ta q)"
  then obtain pre wa mid where "h @ [x] = pre @ (wa, ta) # (mid @ [x])" "moved c wa"
    by auto
  then show ?thesis
    by (simp only: phase_inv_simps) blast
qed

lemma burst_seen_here:
  assumes "phase_inv c h (FActive ta q)" and "fc_burst c \<le> w" and "fc_min_active c \<le> sat_sub t ta"
  shows "burst_seen c (h @ [(w, t)]) t w"
proof -
  obtain pre wa mid where "h = pre @ (wa, ta) # mid" "moved c wa"
    using assms(1) by auto
  moreover have "unat (fc_min_active c) \<le> unat t - unat ta"
    using assms(3) by (simp add: word_le_nat_alt unat_sat_sub)
  ultimately show ?thesis
    unfolding burst_seen_def using assms(2)
    by (intro exI[of _ pre] exI[of _ wa] exI[of _ ta] exI[of _ mid] exI[of _ w] exI[of _ "[]"]) simp
qed

lemma burst_seen_later:
  assumes "burst_seen c h b peak" and "fc_still c < w"
  shows "burst_seen c (h @ [(w, t)]) b (max peak w)"
proof -
  obtain pre wa ta mid wb during where *: "h = pre @ (wa, ta) # mid @ (wb, b) # during"
    "moved c wa" "unat (fc_min_active c) \<le> unat b - unat ta" "fc_burst c \<le> wb"
    "\<forall>(w, t)\<in>set during. fc_still c < w" "peak = Max (set (wb # map fst during))"
    using assms(1) unfolding burst_seen_def by blast
  have "max peak w = Max (set (wb # map fst (during @ [(w, t)])))"
    using *(6) by (simp add: max.commute Max_insert2 insert_commute)
  then show ?thesis
    unfolding burst_seen_def using * assms(2)
    by (intro exI[of _ pre] exI[of _ wa] exI[of _ ta] exI[of _ mid] exI[of _ wb] exI[of _ "during @ [(w, t)]"]) auto
qed

text \<open>One sample: the phase stays explained by the history, and an event has its shape in it.\<close>

lemma fall_push_inv:
  assumes "phase_inv (fd_config d) h (fd_phase d)"
  shows "phase_inv (fd_config d) (h @ [(w, t)]) (fd_phase (snd (fall_push d w t))) \<and>
    (\<forall>e. fst (fall_push d w t) = Some e \<longrightarrow> fall_shape (fd_config d) (h @ [(w, t)]) e)"
proof -
  let ?c = "fd_config d"
  have mv: "fc_active ?c \<le> w \<Longrightarrow> moved ?c w" "\<not> w \<le> fc_still ?c \<Longrightarrow> moved ?c w"
    by (auto simp: moved_def)
  show ?thesis
  proof (cases "fd_phase d")
    case FIdle
    then show ?thesis
      using phase_inv_active_here[OF mv(1), of h t None] by (simp add: fall_push_def Let_def del: phase_inv_simps(3))
  next
    case (FActive ta q)
    then have i: "phase_inv ?c h (FActive ta q)"
      using assms by simp
    show ?thesis
      using FActive phase_inv_active_later[OF i] burst_seen_here[OF i, of w t]
      by (simp add: fall_push_def Let_def del: phase_inv_simps(3))
  next
    case (FBurst b peak)
    then have i: "burst_seen ?c h b peak"
      using assms by simp
    have settle: "phase_inv ?c (h @ [(w, t)]) (FSettling b peak t)" if "w \<le> fc_still ?c"
      unfolding phase_inv_def fall_phase.case using i that
      by (intro exI[of _ h] exI[of _ w] exI[of _ "[]"]) simp
    show ?thesis
      using FBurst settle burst_seen_later[OF i, of w t] phase_inv_active_here[OF mv(2), of h t None]
      by (simp add: fall_push_def Let_def not_le del: phase_inv_simps(3))
  next
    case (FSettling b peak st)
    then obtain before ws quiet where q: "h = before @ (ws, st) # quiet" "burst_seen ?c before b peak"
      "ws \<le> fc_still ?c" "\<forall>(w, t)\<in>set quiet. w < fc_active ?c"
      using assms by (auto simp: phase_inv_def)
    have stay: "phase_inv ?c (h @ [(w, t)]) (FSettling b peak st)" if "w < fc_active ?c"
      unfolding phase_inv_def fall_phase.case using q that
      by (intro exI[of _ before] exI[of _ ws] exI[of _ "quiet @ [(w, t)]"]) simp
    have shape: "fall_shape ?c (h @ [(w, t)]) \<lparr>fe_burst_at = b, fe_peak = peak, fe_still_since = st, fe_at = t\<rparr>"
      if "w < fc_active ?c" "w \<le> fc_still ?c" "fc_still_for ?c \<le> sat_sub t st"
      unfolding fall_shape_def using q that
      by (intro exI[of _ before] exI[of _ ws] exI[of _ "quiet @ [(w, t)]"]) (simp add: word_le_nat_alt unat_sat_sub)
    show ?thesis
      using FSettling stay shape phase_inv_active_here[OF mv(1), of h t None]
      by (simp add: fall_push_def Let_def not_le del: phase_inv_simps(3))
  next
    case (FRefractory u)
    then show ?thesis
      by (simp add: fall_push_def Let_def)
  qed
qed

lemma fall_run_shape:
  assumes "phase_inv (fd_config d) h (fd_phase d)" and "e \<in> set (fst (fall_run d xs))"
  shows "\<exists>hist later. h @ xs = hist @ later \<and> fall_shape (fd_config d) hist e"
  using assms
proof (induction d xs arbitrary: h rule: fall_run.induct)
  case (1 d)
  then show ?case by simp
next
  case (2 d w t xs)
  note p = fall_push_inv[OF 2(2), of w t]
  have h: "h @ (w, t) # xs = (h @ [(w, t)]) @ xs"
    by simp
  consider "fst (fall_push d w t) = Some e" | "e \<in> set (fst (fall_run (snd (fall_push d w t)) xs))"
    using 2(3) by (auto simp: Let_def split: option.splits)
  then show ?case
  proof cases
    case 1
    then show ?thesis
      unfolding h using p by blast
  next
    case 2
    then show ?thesis
      unfolding h using "2.IH"[OF refl, of "h @ [(w, t)]"] p by simp
  qed
qed

section \<open>How far apart events are\<close>

text \<open>No event before \<open>base\<close> plus the shortest movement and the shortest stillness; \<open>now\<close> is the last
  sample's time.\<close>

definition fall_floor :: "fall_config \<Rightarrow> nat \<Rightarrow> nat \<Rightarrow> fall_phase \<Rightarrow> bool" where
  "fall_floor c base now p =
     (case p of
        FIdle \<Rightarrow> base \<le> now
      | FActive ta _ \<Rightarrow> base \<le> unat ta \<and> unat ta \<le> now
      | FBurst b _ \<Rightarrow> base + unat (fc_min_active c) \<le> unat b \<and> unat b \<le> now
      | FSettling _ _ st \<Rightarrow> base + unat (fc_min_active c) \<le> unat st \<and> unat st \<le> now
      | FRefractory till \<Rightarrow> base \<le> unat till)"

lemma fall_push_floor:
  assumes "fall_floor (fd_config d) base now (fd_phase d)" and "now \<le> unat t"
  shows "(fst (fall_push d w t) = None \<longrightarrow> fall_floor (fd_config d) base (unat t) (fd_phase (snd (fall_push d w t)))) \<and>
    (\<forall>e. fst (fall_push d w t) = Some e \<longrightarrow> fe_at e = t \<and>
       base + unat (fc_min_active (fd_config d)) + unat (fc_still_for (fd_config d)) \<le> unat t \<and>
       fd_phase (snd (fall_push d w t)) = FRefractory (sat_add t (fc_refractory (fd_config d))))"
proof (cases "fd_phase d")
  case FIdle
  then show ?thesis
    using assms by (simp add: fall_push_def fall_floor_def Let_def)
next
  case (FActive ta q)
  then show ?thesis
    using assms by (auto simp: fall_push_def fall_floor_def Let_def word_le_nat_alt unat_sat_sub)
next
  case (FBurst b peak)
  then show ?thesis
    using assms by (auto simp: fall_push_def fall_floor_def Let_def)
next
  case (FSettling b peak st)
  then show ?thesis
    using assms by (auto simp: fall_push_def fall_floor_def Let_def word_le_nat_alt unat_sat_sub split: if_splits)
next
  case (FRefractory till)
  then show ?thesis
    using assms by (auto simp: fall_push_def fall_floor_def Let_def word_le_nat_alt)
qed

definition spaced :: "fall_config \<Rightarrow> fall_event \<Rightarrow> fall_event \<Rightarrow> bool" where
  "spaced c a b \<longleftrightarrow>
     min (unat (fe_at a) + unat (fc_refractory c)) (2 ^ 64 - 1) + unat (fc_min_active c) + unat (fc_still_for c) \<le>
       unat (fe_at b)"

lemma fall_run_spaced:
  assumes "fall_floor (fd_config d) base now (fd_phase d)" and "sorted (map snd xs)"
    and "\<forall>x\<in>set xs. now \<le> unat (snd x)"
  shows "sorted_wrt (spaced (fd_config d)) (fst (fall_run d xs)) \<and>
    (\<forall>e\<in>set (fst (fall_run d xs)).
       base + unat (fc_min_active (fd_config d)) + unat (fc_still_for (fd_config d)) \<le> unat (fe_at e))"
  using assms
proof (induction d xs arbitrary: base now rule: fall_run.induct)
  case (1 d)
  then show ?case by simp
next
  case (2 d w t xs)
  let ?d = "snd (fall_push d w t)" and ?c = "fd_config d"
  have t: "now \<le> unat t" and later: "\<forall>x\<in>set xs. unat t \<le> unat (snd x)" and so: "sorted (map snd xs)"
    using 2(4) 2(3) by (simp, simp add: word_le_nat_alt, simp)
  note p = fall_push_floor[OF 2(2) t, of w]
  note IH = "2.IH"[OF refl _ so, unfolded fall_push_config]
  show ?case
  proof (cases "fst (fall_push d w t)")
    case None
    then show ?thesis
      using IH[of base "unat t"] p later by (simp add: Let_def)
  next
    case (Some e)
    let ?b = "min (unat t + unat (fc_refractory ?c)) (2 ^ 64 - 1)"
    have e: "fe_at e = t" "base + unat (fc_min_active ?c) + unat (fc_still_for ?c) \<le> unat t"
      "fd_phase ?d = FRefractory (sat_add t (fc_refractory ?c))"
      using p Some by auto
    have "unat (sat_add t (fc_refractory ?c)) = ?b"
      by (simp add: unat_sat_add)
    then have "fall_floor ?c ?b (unat t) (fd_phase ?d)"
      unfolding e(3) by (simp add: fall_floor_def)
    note r = IH[OF this later]
    have "unat t < 2 ^ 64"
      using unat_less[of t] by simp
    then have "base \<le> ?b"
      using e(2) by linarith
    with r e Some show ?thesis
      by (auto simp: Let_def spaced_def)
  qed
qed

section \<open>Properties\<close>

lemma fall_event_shape:
  assumes "e \<in> set (fst (fall_run (fall_new cfg) xs))"
  shows "\<exists>hist later. xs = hist @ later \<and> fall_shape cfg hist e"
proof -
  have "phase_inv (fd_config (fall_new cfg)) [] (fd_phase (fall_new cfg))" "fd_config (fall_new cfg) = cfg"
    by (simp_all add: fall_new_def)
  from fall_run_shape[OF this(1) assms] this(2) show ?thesis
    by simp
qed

definition sample_fall :: "(u16 \<times> micros) list" where
  "sample_fall = [(40, 0), (300, 2000000), (250, 2100000), (10, 3000000), (12, 13000000)]"

abbreviation sample_state :: "fall_phase \<Rightarrow> fall_detector" where
  "sample_state p \<equiv> \<lparr>fd_config = fall_config_default, fd_phase = p, fd_events = 0\<rparr>"

lemma sample_fall_push:
  "fall_push (sample_state FIdle) 40 0 = (None, sample_state (FActive 0 None))"
  "fall_push (sample_state (FActive 0 None)) 300 2000000 = (None, sample_state (FBurst 2000000 300))"
  "fall_push (sample_state (FBurst 2000000 300)) 250 2100000 = (None, sample_state (FBurst 2000000 300))"
  "fall_push (sample_state (FBurst 2000000 300)) 10 3000000 = (None, sample_state (FSettling 2000000 300 3000000))"
  "fst (fall_push (sample_state (FSettling 2000000 300 3000000)) 12 13000000) =
     Some \<lparr>fe_burst_at = 2000000, fe_peak = 300, fe_still_since = 3000000, fe_at = 13000000\<rparr>"
  by (simp_all add: fall_push_def fall_config_default_def sat_sub_def)

lemma sample_fall_run:
  "fst (fall_run (fall_new fall_config_default) sample_fall) =
     [\<lparr>fe_burst_at = 2000000, fe_peak = 300, fe_still_since = 3000000, fe_at = 13000000\<rparr>]"
  unfolding sample_fall_def fall_new_def fall_run.simps Let_def
  by (simp only: sample_fall_push fst_conv snd_conv option.case)

lemma fall_events_spaced:
  assumes "sorted (map snd xs)"
  shows "sorted_wrt (spaced cfg) (fst (fall_run (fall_new cfg) xs))"
proof -
  have "fall_floor (fd_config (fall_new cfg)) 0 0 (fd_phase (fall_new cfg))" "fd_config (fall_new cfg) = cfg"
    by (simp_all add: fall_new_def fall_floor_def)
  from fall_run_spaced[OF this(1) assms] this(2) show ?thesis
    by simp
qed

end
