(* ===== verification/Signed.thy ===== *)
theory Signed
  imports Prelude "HOL-Library.Signed_Division"
begin

text \<open>
  Signed machine integers of the Rust sources: a word read with \<open>sint\<close>. \<open>+\<close>, \<open>-\<close> and \<open>*\<close> are those of
  words; \<open>/\<close> truncates towards zero and \<open>>>\<close> keeps the sign. As long as an exact result fits the width,
  the machine operation gives it: \<open>signed_exact\<close> collects that.
\<close>

type_synonym i16 = "16 word"
type_synonym i32 = "32 word"
type_synonym i64 = "64 word"

named_theorems signed_exact \<open>machine operations whose exact result fits\<close>

text \<open>\<open>a / b\<close>.\<close>

definition s_div :: "'a::len word \<Rightarrow> 'a word \<Rightarrow> 'a word" where
  "s_div a b = word_of_int (sint a sdiv sint b)"

text \<open>\<open>unsigned_abs\<close>, and \<open>clamp\<close> for a lower bound not above the upper one.\<close>

definition unsigned_abs :: "'a::len word \<Rightarrow> 'a word" where
  "unsigned_abs a = (if sint a < 0 then - a else a)"

definition s_clamp :: "'a::len word \<Rightarrow> 'a word \<Rightarrow> 'a word \<Rightarrow> 'a word" where
  "s_clamp lo hi a = (if sint a < sint lo then lo else if sint a > sint hi then hi else a)"

lemma sint_exact [signed_exact]:
  "- (2 ^ (LENGTH('a::len) - 1)) \<le> x \<Longrightarrow> x < 2 ^ (LENGTH('a) - 1) \<Longrightarrow> sint (word_of_int x :: 'a word) = x"
  by (simp add: sint_sbintrunc' signed_take_bit_int_eq_self)

lemma word_of_sint: "word_of_int (sint w) = w"
  by simp

lemma sint_bounds: "- (2 ^ (LENGTH('a::len) - 1)) \<le> sint (w :: 'a word)" "sint (w :: 'a word) < 2 ^ (LENGTH('a) - 1)"
  by (simp_all add: sint_greater_eq sint_less)

lemma sint_i16: "- 32768 \<le> sint (w :: i16)" "sint (w :: i16) < 32768"
  using sint_bounds[of w] by simp_all

lemma scast_word_of_int: "(scast (w :: 'a::len word) :: 'b::len word) = word_of_int (sint w)"
  by (rule scast_eq)

lemma sint_scast_up:
  assumes "LENGTH('a::len) \<le> LENGTH('b::len)"
  shows "sint (scast (w :: 'a word) :: 'b word) = sint w"
proof -
  have "(2::int) ^ (LENGTH('a) - 1) \<le> 2 ^ (LENGTH('b) - 1)"
    using assms by (intro power_increasing) auto
  then have "- (2 ^ (LENGTH('b) - 1)) \<le> sint w" "sint w < 2 ^ (LENGTH('b) - 1)"
    using sint_bounds[of w] by linarith+
  then show ?thesis
    unfolding scast_word_of_int by (rule sint_exact)
qed

lemma s_div_exact [signed_exact]:
  fixes a b :: "'a::len word"
  assumes "0 < sint b"
  shows "sint (s_div a b) = sint a sdiv sint b"
proof -
  have le: "\<bar>sint a\<bar> div sint b \<le> \<bar>sint a\<bar>" "0 \<le> \<bar>sint a\<bar> div sint b"
    using zdiv_mono2[of "\<bar>sint a\<bar>" 1 "sint b"] assms by (simp_all add: pos_imp_zdiv_nonneg_iff)
  have q: "sint a sdiv sint b = sgn (sint a) * (\<bar>sint a\<bar> div sint b)"
    using assms by (simp add: signed_divide_int_def)
  have "- (2 ^ (LENGTH('a) - 1)) \<le> sint a sdiv sint b" "sint a sdiv sint b < 2 ^ (LENGTH('a) - 1)"
    unfolding q using le sint_bounds[of a] by (auto simp: sgn_if)
  then show ?thesis
    unfolding s_div_def by (rule sint_exact)
qed

lemma sint_ring_exact:
  fixes a b :: "'a::len word"
  shows "- (2 ^ (LENGTH('a) - 1)) \<le> sint a + sint b \<Longrightarrow> sint a + sint b < 2 ^ (LENGTH('a) - 1) \<Longrightarrow> sint (a + b) = sint a + sint b"
    and "- (2 ^ (LENGTH('a) - 1)) \<le> sint a - sint b \<Longrightarrow> sint a - sint b < 2 ^ (LENGTH('a) - 1) \<Longrightarrow> sint (a - b) = sint a - sint b"
    and "- (2 ^ (LENGTH('a) - 1)) \<le> sint a * sint b \<Longrightarrow> sint a * sint b < 2 ^ (LENGTH('a) - 1) \<Longrightarrow> sint (a * b) = sint a * sint b"
    and "- sint a < 2 ^ (LENGTH('a) - 1) \<Longrightarrow> sint (- a) = - sint a"
proof -
  have ring: "a + b = word_of_int (sint a + sint b)" "a - b = word_of_int (sint a - sint b)"
    "a * b = word_of_int (sint a * sint b)" "- a = word_of_int (- sint a)"
    by simp_all
  show "- (2 ^ (LENGTH('a) - 1)) \<le> sint a + sint b \<Longrightarrow> sint a + sint b < 2 ^ (LENGTH('a) - 1) \<Longrightarrow> sint (a + b) = sint a + sint b"
    unfolding ring by (rule sint_exact)
  show "- (2 ^ (LENGTH('a) - 1)) \<le> sint a - sint b \<Longrightarrow> sint a - sint b < 2 ^ (LENGTH('a) - 1) \<Longrightarrow> sint (a - b) = sint a - sint b"
    unfolding ring by (rule sint_exact)
  show "- (2 ^ (LENGTH('a) - 1)) \<le> sint a * sint b \<Longrightarrow> sint a * sint b < 2 ^ (LENGTH('a) - 1) \<Longrightarrow> sint (a * b) = sint a * sint b"
    unfolding ring by (rule sint_exact)
  show "- sint a < 2 ^ (LENGTH('a) - 1) \<Longrightarrow> sint (- a) = - sint a"
    unfolding ring using sint_bounds[of a] by (intro sint_exact) auto
qed

lemma sint_nonneg:
  assumes "0 \<le> sint (w :: 'a::len word)"
  shows "int (unat w) = sint w"
proof -
  have "sint w < 2 ^ LENGTH('a)"
    using sint_bounds(2)[of w] power_increasing[of "LENGTH('a) - 1" "LENGTH('a)" "2 :: int"] by linarith
  then have "uint (word_of_int (sint w) :: 'a word) = sint w"
    unfolding uint_word_of_int using assms by (intro mod_pos_pos_trivial) auto
  moreover have "(word_of_int (sint w) :: 'a word) = w"
    by simp
  ultimately show ?thesis
    by (metis uint_nat)
qed

lemma sint_of_nat_small: "n < 2 ^ (LENGTH('a::len) - 1) \<Longrightarrow> sint (of_nat n :: 'a word) = int n"
proof -
  assume n: "n < 2 ^ (LENGTH('a) - 1)"
  then have "int n < 2 ^ (LENGTH('a) - 1)"
    by (metis of_nat_less_iff of_nat_numeral of_nat_power)
  then have "sint (word_of_int (int n) :: 'a word) = int n"
    by (intro sint_exact) (auto intro: order_trans[of _ 0])
  then show ?thesis
    by simp
qed

lemma sint_small: "unat (w :: 'a::len word) < 2 ^ (LENGTH('a) - 1) \<Longrightarrow> sint w = int (unat w)"
  by (metis sint_of_nat_small of_nat_unat ucast_id)

text \<open>The truncated quotient is less than one away from the exact one.\<close>

lemma sdiv_error: "0 < d \<Longrightarrow> \<bar>a - d * (a sdiv d)\<bar> < (d :: int)"
  using smod_int_range[of d a] by (auto simp: minus_mult_sdiv_eq_smod)

text \<open>A sum of machine integers is exact when no partial sum can leave the range.\<close>

lemma sint_sum_list:
  fixes f :: "'a \<Rightarrow> 'b::len word"
  assumes "\<And>x. x \<in> set xs \<Longrightarrow> \<bar>sint (f x)\<bar> \<le> b" and "int (length xs) * b < 2 ^ (LENGTH('b) - 1)" and "0 \<le> b"
  shows "sint (\<Sum>x\<leftarrow>xs. f x) = (\<Sum>x\<leftarrow>xs. sint (f x)) \<and> \<bar>\<Sum>x\<leftarrow>xs. sint (f x)\<bar> \<le> int (length xs) * b"
  using assms(1,2)
proof (induction xs)
  case (Cons x xs)
  have "int (length xs) * b < 2 ^ (LENGTH('b) - 1)"
    using Cons.prems(2) assms(3) by (simp add: algebra_simps)
  then have IH: "sint (\<Sum>y\<leftarrow>xs. f y) = (\<Sum>y\<leftarrow>xs. sint (f y))" "\<bar>\<Sum>y\<leftarrow>xs. sint (f y)\<bar> \<le> int (length xs) * b"
    using Cons by simp_all
  have le: "\<bar>sint (f x) + (\<Sum>y\<leftarrow>xs. sint (f y))\<bar> \<le> int (length (x # xs)) * b"
    using IH(2) Cons.prems(1)[of x] by (simp add: abs_le_iff algebra_simps)
  then have "\<bar>sint (f x) + (\<Sum>y\<leftarrow>xs. sint (f y))\<bar> < 2 ^ (LENGTH('b) - 1)"
    using Cons.prems(2) by (rule le_less_trans)
  then show ?case
    using le IH(1) sint_ring_exact(1)[of "f x" "\<Sum>y\<leftarrow>xs. f y"] by (simp add: abs_less_iff)
qed simp

lemma sint_clamp: "sint lo \<le> sint hi \<Longrightarrow> sint (s_clamp lo hi a) = max (sint lo) (min (sint hi) (sint a))"
  by (auto simp: s_clamp_def)

lemma sint_ucast_small:
  assumes "- (2 ^ (LENGTH('b::len) - 1)) \<le> sint (w :: 'a::len word)" and "sint w < 2 ^ (LENGTH('b) - 1)"
    and "LENGTH('b) \<le> LENGTH('a)"
  shows "sint (ucast w :: 'b word) = sint w"
proof -
  have "(ucast w :: 'b word) = word_of_int (sint w)"
    unfolding scast_word_of_int[symmetric]
  proof (rule bit_word_eqI)
    fix n
    assume "n < LENGTH('b)"
    then have n: "n < LENGTH('a)" "\<not> LENGTH('a) - Suc 0 < n"
      using assms(3) by simp_all
    then show "bit (ucast w :: 'b word) n \<longleftrightarrow> bit (scast w :: 'b word) n"
      using \<open>n < LENGTH('b)\<close> by (cases "n = LENGTH('a) - Suc 0") (auto simp: bit_simps min_def)
  qed
  then show ?thesis
    using assms(1,2) by (simp only: sint_exact)
qed

lemma abs_sdiv_le:
  fixes a b d :: int
  assumes "0 < d" and "\<bar>a\<bar> \<le> d * b"
  shows "\<bar>a sdiv d\<bar> \<le> b"
proof -
  have "\<bar>a\<bar> div d \<le> (d * b) div d"
    using assms by (intro zdiv_mono1) auto
  moreover have "0 \<le> \<bar>a\<bar> div d"
    using assms(1) by (simp add: pos_imp_zdiv_nonneg_iff)
  ultimately show ?thesis
    using assms(1) by (auto simp: signed_divide_int_def sgn_if)
qed

end
