(* ===== verification/Window.thy ===== *)
theory Window
  imports Prelude
begin

text \<open>
  Sliding windows kept in rings, as the detectors of \<open>radar/\<close> keep them: an array of \<open>W\<close> slots, the slot
  to write next and the number of slots filled since the last reset. \<open>window\<close> reads the ring as the list
  it stands for, oldest first; a write appends to that list and drops what no longer fits.
\<close>

definition window :: "nat \<Rightarrow> nat \<Rightarrow> nat \<Rightarrow> 'a list \<Rightarrow> 'a list" where
  "window W filled next ring = (if filled < W then take filled ring else drop next ring @ take next ring)"

definition window_ok :: "nat \<Rightarrow> nat \<Rightarrow> nat \<Rightarrow> 'a list \<Rightarrow> bool" where
  "window_ok W filled next ring \<longleftrightarrow> length ring = W \<and> filled \<le> W \<and> next < W \<and> (filled < W \<longrightarrow> next = filled)"

text \<open>The last \<open>W\<close> elements of a list.\<close>

definition last_n :: "nat \<Rightarrow> 'a list \<Rightarrow> 'a list" where
  "last_n W xs = drop (length xs - W) xs"

lemma length_last_n [simp]: "length (last_n W xs) = min (length xs) W"
  by (simp add: last_n_def)

lemma last_n_all [simp]: "length xs \<le> W \<Longrightarrow> last_n W xs = xs"
  by (simp add: last_n_def)

lemma last_n_Nil [simp]: "last_n W [] = []"
  by (simp add: last_n_def)

lemma map_last_n: "map f (last_n W xs) = last_n W (map f xs)"
  by (simp add: last_n_def drop_map)

lemma last_n_snoc: "last_n W (last_n W xs @ [x]) = last_n W (xs @ [x])"
  by (cases "W = 0"; cases "W \<le> length xs") (simp_all add: last_n_def Suc_diff_le)

lemma last_n_full: "length xs = W \<Longrightarrow> 0 < W \<Longrightarrow> last_n W (xs @ [x]) = tl xs @ [x]"
  by (simp add: last_n_def drop_Suc)

lemma last_n_Cons: "Suc (length xs) = W \<Longrightarrow> last_n W (a # xs @ [x]) = xs @ [x]"
  by (simp add: last_n_def)

lemma window_ok_start: "0 < W \<Longrightarrow> length ring = W \<Longrightarrow> window_ok W 0 0 ring \<and> window W 0 0 ring = []"
  by (simp add: window_ok_def window_def)

lemma window_push:
  assumes "window_ok W filled next ring"
  shows "window_ok W (if filled < W then filled + 1 else filled) ((next + 1) mod W) (ring[next := x]) \<and>
    window W (if filled < W then filled + 1 else filled) ((next + 1) mod W) (ring[next := x]) =
      last_n W (window W filled next ring @ [x])"
proof -
  have n: "next < length ring" "length ring = W"
    using assms by (simp_all add: window_ok_def)
  have old: "drop next ring = ring ! next # drop (Suc next) ring"
    using n(1) by (rule Cons_nth_drop_Suc[symmetric])
  have new: "drop (Suc next) (ring[next := x]) = drop (Suc next) ring" "take (Suc next) (ring[next := x]) = take next ring @ [x]"
    using n(1) by (simp_all add: take_Suc_conv_app_nth)
  show ?thesis
  proof (cases "filled < W")
    case True
    then have f: "next = filled"
      using assms by (simp add: window_ok_def)
    show ?thesis
    proof (cases "Suc filled = W")
      case True
      then show ?thesis
        using f n new by (simp add: window_ok_def window_def)
    next
      case False
      then show ?thesis
        using \<open>filled < W\<close> f n new by (simp add: window_ok_def window_def)
    qed
  next
    case False
    then have "window W filled next ring = ring ! next # drop (Suc next) ring @ take next ring"
      by (simp add: window_def old)
    then have "last_n W (window W filled next ring @ [x]) = drop (Suc next) ring @ take next ring @ [x]"
      using n by (subst last_n_full) auto
    moreover have "drop ((next + 1) mod W) (ring[next := x]) @ take ((next + 1) mod W) (ring[next := x]) =
        drop (Suc next) ring @ take next ring @ [x]"
    proof (cases "Suc next = W")
      case True
      then show ?thesis using n new by simp
    next
      case False
      then show ?thesis using n new by simp
    qed
    ultimately show ?thesis
      using False assms n by (simp add: window_ok_def window_def)
  qed
qed

text \<open>A full window is a rotation of the ring: sums over the one are sums over the other.\<close>

lemma sum_window:
  fixes f :: "'a \<Rightarrow> 'b::comm_monoid_add"
  assumes "window_ok W filled next ring" and "filled = W"
  shows "sum_list (map f (window W filled next ring)) = sum_list (map f ring)"
proof -
  have "sum_list (map f (window W filled next ring)) = sum_list (map f (take next ring)) + sum_list (map f (drop next ring))"
    using assms(2) by (simp add: window_def add.commute)
  also have "\<dots> = sum_list (map f (take next ring @ drop next ring))"
    by (simp only: map_append sum_list_append)
  finally show ?thesis
    by simp
qed

lemma map_window: "map f (window W filled next ring) = window W filled next (map f ring)"
  by (simp add: window_def take_map drop_map)

lemma length_window: "window_ok W filled next ring \<Longrightarrow> length (window W filled next ring) = filled"
  by (auto simp: window_def window_ok_def)

text \<open>The sum carried by the one slot that changes.\<close>

lemma sum_list_slot:
  fixes f :: "'a \<Rightarrow> 'b::ab_group_add"
  shows "i < length xs \<Longrightarrow> sum_list (map f (xs[i := x])) = sum_list (map f xs) - f (xs ! i) + f x"
  by (induction xs arbitrary: i) (auto simp: nth_Cons' algebra_simps split: nat.splits)

section \<open>Detectors over a window\<close>

text \<open>
  What the detectors share: each accepted frame of the window's subcarrier count adds its row, and a frame
  of another count starts the window again. \<open>view\<close> is the window such a detector holds.
\<close>

locale sliding =
  fixes W :: nat
    and step :: "'s \<Rightarrow> 'f \<Rightarrow> 's"
    and cnt :: "'s \<Rightarrow> 'c"
    and fcnt :: "'f \<Rightarrow> 'c"
    and row :: "'f \<Rightarrow> 'r"
    and view :: "'s \<Rightarrow> 'r list"
    and ok :: "'s \<Rightarrow> bool"
    and fok :: "'f \<Rightarrow> bool"
    and skip :: "'f \<Rightarrow> bool"
  assumes skipped: "skip f \<Longrightarrow> step s f = s"
    and stepped: "ok s \<Longrightarrow> fok f \<Longrightarrow> \<not> skip f \<Longrightarrow> ok (step s f) \<and> cnt (step s f) = fcnt f \<and>
      view (step s f) = last_n W ((if cnt s = fcnt f then view s else []) @ [row f])"
begin

lemma run_ok: "ok s \<Longrightarrow> list_all fok fs \<Longrightarrow> ok (foldl step s fs)"
proof (induction fs arbitrary: s)
  case (Cons f fs)
  then show ?case
    using skipped[of f s] stepped[of s f] by (cases "skip f") auto
qed simp

text \<open>After frames of one count, the window ends in them.\<close>

lemma run_same:
  assumes "ok s" and "fs \<noteq> []" and "list_all (\<lambda>f. fok f \<and> \<not> skip f \<and> fcnt f = n) fs"
  shows "ok (foldl step s fs) \<and> cnt (foldl step s fs) = n \<and>
    view (foldl step s fs) = last_n W ((if cnt s = n then view s else []) @ map row fs)"
  using assms(2,3)
proof (induction fs rule: rev_nonempty_induct)
  case (single f)
  then show ?case
    using stepped[OF assms(1), of f] by simp
next
  case (snoc f fs)
  then show ?case
    using stepped[of "foldl step s fs" f] last_n_snoc[of W "(if cnt s = n then view s else []) @ map row fs" "row f"]
    by simp
qed

lemma run_window:
  assumes "ok s" and "list_all fok before" and "list_all (\<lambda>f. fok f \<and> \<not> skip f \<and> fcnt f = n) win"
    and "length win = W" and "0 < W"
  shows "ok (foldl step s (before @ win)) \<and> cnt (foldl step s (before @ win)) = n \<and> view (foldl step s (before @ win)) = map row win"
proof -
  let ?d = "foldl step s before"
  have "win \<noteq> []"
    using assms(4,5) by auto
  moreover have "last_n W (xs @ map row win) = map row win" for xs
    using assms(4) by (simp add: last_n_def)
  ultimately show ?thesis
    using run_same[OF run_ok[OF assms(1,2)] _ assms(3)] by simp
qed

end

end
