(* ===== verification/Phase.thy ===== *)
theory Phase
  imports Signed Window Csi
begin

text \<open>
  Presence from the phase of Wi-Fi channel state (\<open>crates/rusty_esp_signal-core/src/radar/phase.rs\<close>): the
  angle of a subcarrier in binary radians (65536 to a turn, so that 16-bit wrapping is circular), the
  least-squares line taken out of a frame's phases, and the detector on the circular variance of the last
  \<open>W\<close> frames. The 32-bit integer square root of \<open>rusty_esp_dsp\<close> is an argument, as in \<open>Csi\<close>.
\<close>

section \<open>Angles\<close>

record phase_config =
  pg_on_ppm :: u32
  pg_off_ppm :: u32
  pg_hold :: micros

definition phase_config_default :: phase_config where
  "phase_config_default = \<lparr>pg_on_ppm = 380, pg_off_ppm = 260, pg_hold = 3 * 1000000\<rparr>"

definition ATAN_OCTANT :: "u16 list" where
  "ATAN_OCTANT =
    [0, 41, 81, 122, 163, 204, 244, 285, 326, 367, 407, 448, 489, 529, 570, 610, 651, 692, 732, 773, 813, 854, 894,
     935, 975, 1015, 1056, 1096, 1136, 1177, 1217, 1257, 1297, 1337, 1377, 1417, 1457, 1497, 1537, 1577, 1617, 1656,
     1696, 1736, 1775, 1815, 1854, 1894, 1933, 1973, 2012, 2051, 2090, 2129, 2168, 2207, 2246, 2285, 2324, 2363,
     2401, 2440, 2478, 2517, 2555, 2594, 2632, 2670, 2708, 2746, 2784, 2822, 2860, 2897, 2935, 2973, 3010, 3047,
     3085, 3122, 3159, 3196, 3233, 3270, 3307, 3344, 3380, 3417, 3453, 3490, 3526, 3562, 3599, 3635, 3670, 3706,
     3742, 3778, 3813, 3849, 3884, 3920, 3955, 3990, 4025, 4060, 4095, 4129, 4164, 4199, 4233, 4267, 4302, 4336,
     4370, 4404, 4438, 4471, 4505, 4539, 4572, 4605, 4639, 4672, 4705, 4738, 4771, 4803, 4836, 4869, 4901, 4933,
     4966, 4998, 5030, 5062, 5094, 5125, 5157, 5188, 5220, 5251, 5282, 5313, 5344, 5375, 5406, 5437, 5467, 5498,
     5528, 5559, 5589, 5619, 5649, 5679, 5708, 5738, 5768, 5797, 5826, 5856, 5885, 5914, 5943, 5972, 6000, 6029,
     6058, 6086, 6114, 6142, 6171, 6199, 6227, 6254, 6282, 6310, 6337, 6365, 6392, 6419, 6446, 6473, 6500, 6527,
     6554, 6580, 6607, 6633, 6660, 6686, 6712, 6738, 6764, 6790, 6815, 6841, 6867, 6892, 6917, 6943, 6968, 6993,
     7018, 7043, 7068, 7092, 7117, 7141, 7166, 7190, 7214, 7238, 7262, 7286, 7310, 7334, 7358, 7381, 7405, 7428,
     7451, 7475, 7498, 7521, 7544, 7566, 7589, 7612, 7635, 7657, 7679, 7702, 7724, 7746, 7768, 7790, 7812, 7834,
     7856, 7877, 7899, 7920, 7942, 7963, 7984, 8005, 8026, 8047, 8068, 8089, 8110, 8131, 8151, 8172, 8192]"

definition SIN_QUARTER :: "i16 list" where
  "SIN_QUARTER =
    [0, 101, 201, 302, 402, 503, 603, 704, 804, 904, 1005, 1105, 1205, 1306, 1406, 1506, 1606, 1706, 1806, 1906, 2006,
     2105, 2205, 2305, 2404, 2503, 2603, 2702, 2801, 2900, 2999, 3098, 3196, 3295, 3393, 3492, 3590, 3688, 3786,
     3883, 3981, 4078, 4176, 4273, 4370, 4467, 4563, 4660, 4756, 4852, 4948, 5044, 5139, 5235, 5330, 5425, 5520,
     5614, 5708, 5803, 5897, 5990, 6084, 6177, 6270, 6363, 6455, 6547, 6639, 6731, 6823, 6914, 7005, 7096, 7186,
     7276, 7366, 7456, 7545, 7635, 7723, 7812, 7900, 7988, 8076, 8163, 8250, 8337, 8423, 8509, 8595, 8680, 8765,
     8850, 8935, 9019, 9102, 9186, 9269, 9352, 9434, 9516, 9598, 9679, 9760, 9841, 9921, 10001, 10080, 10159, 10238,
     10316, 10394, 10471, 10549, 10625, 10702, 10778, 10853, 10928, 11003, 11077, 11151, 11224, 11297, 11370, 11442,
     11514, 11585, 11656, 11727, 11797, 11866, 11935, 12004, 12072, 12140, 12207, 12274, 12340, 12406, 12472, 12537,
     12601, 12665, 12729, 12792, 12854, 12916, 12978, 13039, 13100, 13160, 13219, 13279, 13337, 13395, 13453, 13510,
     13567, 13623, 13678, 13733, 13788, 13842, 13896, 13949, 14001, 14053, 14104, 14155, 14206, 14256, 14305, 14354,
     14402, 14449, 14497, 14543, 14589, 14635, 14680, 14724, 14768, 14811, 14854, 14896, 14937, 14978, 15019, 15059,
     15098, 15137, 15175, 15213, 15250, 15286, 15322, 15357, 15392, 15426, 15460, 15493, 15525, 15557, 15588, 15619,
     15649, 15679, 15707, 15736, 15763, 15791, 15817, 15843, 15868, 15893, 15917, 15941, 15964, 15986, 16008, 16029,
     16049, 16069, 16088, 16107, 16125, 16143, 16160, 16176, 16192, 16207, 16221, 16235, 16248, 16261, 16273, 16284,
     16295, 16305, 16315, 16324, 16332, 16340, 16347, 16353, 16359, 16364, 16369, 16373, 16376, 16379, 16381, 16383,
     16384, 16384]"

definition UNIT :: i32 where "UNIT = 16384"

definition atan2_brad :: "i32 \<Rightarrow> i32 \<Rightarrow> i16" where
  "atan2_brad y x =
     (if x = 0 \<and> y = 0 then 0
      else
        let ax = unsigned_abs x; ay = unsigned_abs y;
            a = (if ay \<le> ax then ucast (ATAN_OCTANT ! unat (ay * 256 div ax))
                 else 16384 - ucast (ATAN_OCTANT ! unat (ax * 256 div ay))) :: i32;
            a = (if sint x < 0 then 32768 - a else a);
            a = (if sint y < 0 then - a else a)
        in ucast a)"

definition div_round :: "i32 \<Rightarrow> i32 \<Rightarrow> i32" where
  "div_round a b = (if sint a \<ge> 0 then s_div (a + s_div b 2) b else - s_div (- a + s_div b 2) b)"

definition unit_vector :: "i16 \<Rightarrow> i32 \<times> i32" where
  "unit_vector angle =
     (let a = drop_bit 6 angle; quadrant = drop_bit 8 a; i = unat (a AND 255);
          s = scast (SIN_QUARTER ! i) :: i32; c = scast (SIN_QUARTER ! (256 - i)) :: i32
      in if quadrant = 0 then (c, s)
         else if quadrant = 1 then (- s, c)
         else if quadrant = 2 then (- c, - s)
         else (s, - c))"

section \<open>A frame's phases\<close>

record phases =
  ph_phase :: "i16 list"
  ph_count :: u8

definition phases_valid :: "phases \<Rightarrow> i16 list" where
  "phases_valid p = take (unat (ph_count p)) (ph_phase p)"

text \<open>One subcarrier: its angle, unwrapped onto the previous one's.\<close>

definition unwrap_pair :: "i32 list \<times> nat \<times> i16 \<Rightarrow> i8 list \<Rightarrow> i32 list \<times> nat \<times> i16" where
  "unwrap_pair st p =
     (case st of (u, n, prev) \<Rightarrow>
        let im = scast (p ! 0) :: i32; re = scast (p ! 1) :: i32; raw = atan2_brad im re
        in (u[n := (if n = 0 then scast raw else u ! (n - 1) + scast (raw - prev))], n + 1, raw))"

text \<open>The least-squares line through \<open>u\<close> at \<open>0, 1, ...\<close>: slope and intercept with sixteen fraction bits.\<close>

definition fit_line :: "i32 list \<Rightarrow> i64 \<times> i64" where
  "fit_line u =
     (let nn = of_nat (length u) :: i64;
          sk = s_div (nn * (nn - 1)) 2;
          skk = s_div ((nn - 1) * nn * (2 * nn - 1)) 6;
          (su, sku) = foldl (\<lambda>(su, sku) (k, v). (su + scast v, sku + of_nat k * scast v)) (0, 0) (enumerate 0 u);
          den = nn * skk - sk * sk;
          slope_q16 = s_div (push_bit 16 (nn * sku - sk * su)) den;
          icpt_q16 = s_div (push_bit 16 su - slope_q16 * sk) nn
      in (slope_q16, icpt_q16))"

definition residual :: "i64 \<times> i64 \<Rightarrow> nat \<Rightarrow> i32 \<Rightarrow> i16" where
  "residual line k v =
     (case line of (slope_q16, icpt_q16) \<Rightarrow>
        let resid_q16 = push_bit 16 (scast v) - slope_q16 * of_nat k - icpt_q16
        in ucast (signed_drop_bit 16 resid_q16))"

definition phases_of :: "csi_frame \<Rightarrow> layout \<Rightarrow> err + phases" where
  "phases_of fr l =
     (if length (cf_iq fr) < 2 * ly_entries l \<or> layout_count l > MAX_SUBCARRIERS then Inl InvalidGeometry
      else
        let (u, n, _) =
          foldl (\<lambda>st (a, b). if a \<ge> b then st
              else foldl unwrap_pair st (chunks_exact 2 (take (2 * b - 2 * a) (drop (2 * a) (cf_iq fr)))))
            (replicate MAX_SUBCARRIERS 0, 0, 0) (ly_valid l)
        in if n < 2 then Inl InvalidGeometry
           else
             let line = fit_line (take n u);
                 ph = foldl (\<lambda>ph (k, v). ph[k := residual line k v]) (replicate MAX_SUBCARRIERS 0) (enumerate 0 (take n u))
             in Inr \<lparr>ph_phase = ph, ph_count = of_nat n\<rparr>)"

section \<open>The detector\<close>

record phase_detector =
  pd_config :: phase_config
  pd_ring :: "i16 list list"
  pd_sum_cos :: "i32 list"
  pd_sum_sin :: "i32 list"
  pd_count :: u8
  pd_filled :: nat
  pd_next :: nat
  pd_wander :: u32
  pd_present :: bool
  pd_last_motion :: micros
  pd_frames :: u32

definition phase_new :: "nat \<Rightarrow> phase_config \<Rightarrow> phase_detector" where
  "phase_new W cfg =
     \<lparr>pd_config = cfg, pd_ring = replicate W (replicate MAX_SUBCARRIERS 0),
      pd_sum_cos = replicate MAX_SUBCARRIERS (of_nat W * UNIT), pd_sum_sin = replicate MAX_SUBCARRIERS 0,
      pd_count = 0, pd_filled = 0, pd_next = 0, pd_wander = 0, pd_present = False, pd_last_motion = 0, pd_frames = 0\<rparr>"

definition phase_set_config :: "phase_detector \<Rightarrow> phase_config \<Rightarrow> phase_detector" where
  "phase_set_config d cfg = d\<lparr>pd_config := cfg\<rparr>"

definition phase_warm :: "nat \<Rightarrow> phase_detector \<Rightarrow> bool" where
  "phase_warm W d \<longleftrightarrow> pd_filled d \<ge> W"

definition phase_reset :: "phase_detector \<Rightarrow> phase_detector" where
  "phase_reset d = d\<lparr>pd_filled := 0, pd_next := 0, pd_count := 0, pd_wander := 0, pd_present := False\<rparr>"

definition phase_verdict :: "nat \<Rightarrow> phase_detector \<Rightarrow> verdict" where
  "phase_verdict W d =
     (if pd_filled d < W then Warming
      else if pd_present d then
        let tens = pd_wander d div 10 in Present (if tens > 255 then 255 else ucast tens)
      else Absent)"

definition phase_term :: "(u32 \<Rightarrow> u32) \<Rightarrow> i32 \<Rightarrow> i32 \<Rightarrow> i32 \<Rightarrow> u32" where
  "phase_term isqrt w sc ss =
     (let mc = div_round sc w; ms = div_round ss w;
          sq = mc * mc + ms * ms;
          r = s_div (isqrt (4 * sq) + 1) 2;
          r = (if sint r > sint UNIT then UNIT else r);
          d = UNIT - r
      in drop_bit 8 (d * 15625))"

definition phase_wander :: "(u32 \<Rightarrow> u32) \<Rightarrow> nat \<Rightarrow> phase_detector \<Rightarrow> u32" where
  "phase_wander isqrt W d =
     (let n = min (unat (pd_count d)) MAX_SUBCARRIERS in
      if n = 0 \<or> W = 0 then 0
      else foldl (\<lambda>total sc. total + phase_term isqrt (of_nat W) (pd_sum_cos d ! sc) (pd_sum_sin d ! sc)) 0 [0..<n]
             div of_nat n)"

text \<open>The sums and the slot, subcarrier by subcarrier.\<close>

definition phase_slide_one :: "i16 list \<Rightarrow> i32 list \<times> i32 list \<times> i16 list \<Rightarrow> nat \<Rightarrow> i32 list \<times> i32 list \<times> i16 list" where
  "phase_slide_one new st sc =
     (case st of (cos, sin, slot) \<Rightarrow>
        let (oc, os) = unit_vector (slot ! sc); (nc, ns) = unit_vector (new ! sc) in
        (cos[sc := cos ! sc - oc + nc], sin[sc := sin ! sc - os + ns], slot[sc := new ! sc]))"

definition phase_slide :: "phase_detector \<Rightarrow> i16 list \<Rightarrow> phase_detector" where
  "phase_slide d new =
     (let (cos, sin, slot) =
        foldl (phase_slide_one new) (pd_sum_cos d, pd_sum_sin d, pd_ring d ! pd_next d) [0..<length new]
      in d\<lparr>pd_sum_cos := cos, pd_sum_sin := sin, pd_ring := (pd_ring d)[pd_next d := slot]\<rparr>)"

definition phase_advance :: "nat \<Rightarrow> phase_detector \<Rightarrow> phase_detector" where
  "phase_advance W d = d\<lparr>pd_next := (pd_next d + 1) mod W,
     pd_filled := (if pd_filled d < W then pd_filled d + 1 else pd_filled d), pd_frames := pd_frames d + 1\<rparr>"

definition phase_decide :: "(u32 \<Rightarrow> u32) \<Rightarrow> nat \<Rightarrow> phase_detector \<Rightarrow> micros \<Rightarrow> phase_detector" where
  "phase_decide isqrt W d now =
     (if pd_filled d < W then d
      else
        let d = d\<lparr>pd_wander := phase_wander isqrt W d\<rparr>
        in if pd_wander d \<ge> pg_on_ppm (pd_config d) then d\<lparr>pd_present := True, pd_last_motion := now\<rparr>
           else if pd_present d \<and> pd_wander d \<le> pg_off_ppm (pd_config d) \<and>
             sat_sub now (pd_last_motion d) \<ge> pg_hold (pd_config d)
           then d\<lparr>pd_present := False\<rparr>
           else d)"

definition phase_push ::
  "(u32 \<Rightarrow> u32) \<Rightarrow> nat \<Rightarrow> phase_detector \<Rightarrow> phases \<Rightarrow> micros \<Rightarrow> verdict \<times> phase_detector" where
  "phase_push isqrt W d p now =
     (if ph_count p = 0 then (phase_verdict W d, d)
      else
        let d = (if pd_filled d > 0 \<and> ph_count p \<noteq> pd_count d then phase_reset d else d);
            d = phase_advance W (phase_slide (d\<lparr>pd_count := ph_count p\<rparr>) (phases_valid p));
            d = phase_decide isqrt W d now
        in (if pd_filled d < W then Warming else phase_verdict W d, d))"

section \<open>The tables\<close>

lemma unit_table: "list_all (\<lambda>v. 0 \<le> sint v \<and> sint v \<le> 16384) SIN_QUARTER" "length SIN_QUARTER = 257"
  by (simp_all add: SIN_QUARTER_def)

lemma unit_table_nth: "i \<le> 256 \<Longrightarrow> 0 \<le> sint (SIN_QUARTER ! i) \<and> sint (SIN_QUARTER ! i) \<le> 16384"
  using unit_table by (auto simp: list_all_length)

lemma octant_table: "list_all (\<lambda>v. unat v \<le> 8192) ATAN_OCTANT" "length ATAN_OCTANT = 257"
  by (simp_all add: ATAN_OCTANT_def)

text \<open>Every unit vector's components lie in the unit: no sum of \<open>W < 2^17\<close> of them wraps.\<close>

lemma unit_vector_bounds:
  "\<bar>sint (fst (unit_vector a))\<bar> \<le> 16384" "\<bar>sint (snd (unit_vector a))\<bar> \<le> 16384"
proof -
  let ?i = "unat (drop_bit 6 a AND 255)"
  have "drop_bit 6 a AND 255 \<le> 255"
    by (rule word_and_le1)
  then have i: "?i \<le> 256" "256 - ?i \<le> 256"
    by (simp_all add: word_le_nat_alt)
  have up: "sint (scast (SIN_QUARTER ! j) :: i32) = sint (SIN_QUARTER ! j)" for j
    by (rule sint_scast_up) simp
  have neg: "sint (- (scast (SIN_QUARTER ! j) :: i32)) = - sint (SIN_QUARTER ! j)"
    "sint (scast (SIN_QUARTER ! j) :: i32) = sint (SIN_QUARTER ! j)" if "j \<le> 256" for j
    using unit_table_nth[OF that] up[of j] sint_ring_exact(4)[of "scast (SIN_QUARTER ! j) :: i32"] by simp_all
  show "\<bar>sint (fst (unit_vector a))\<bar> \<le> 16384" "\<bar>sint (snd (unit_vector a))\<bar> \<le> 16384"
    using unit_table_nth[OF i(1)] unit_table_nth[OF i(2)] neg[OF i(1)] neg[OF i(2)]
    by (auto simp: unit_vector_def Let_def)
qed

section \<open>The statistic\<close>

text \<open>The circular variance of a list of angles, in parts per million, on exact integers.\<close>

definition round_div :: "int \<Rightarrow> int \<Rightarrow> int" where
  "round_div a b = (if a \<ge> 0 then (a + b div 2) div b else - ((- a + b div 2) div b))"

definition cos_of :: "i16 \<Rightarrow> int" where "cos_of a = sint (fst (unit_vector a))"
definition sin_of :: "i16 \<Rightarrow> int" where "sin_of a = sint (snd (unit_vector a))"

definition circular_ppm :: "i16 list \<Rightarrow> nat" where
  "circular_ppm as =
     (let mc = round_div (\<Sum>a\<leftarrow>as. cos_of a) (int (length as));
          ms = round_div (\<Sum>a\<leftarrow>as. sin_of a) (int (length as));
          r = min 16384 ((nat_sqrt (nat (4 * (mc * mc + ms * ms))) + 1) div 2)
      in (16384 - r) * 15625 div 256)"

definition batch_phase :: "nat \<Rightarrow> i16 list list \<Rightarrow> nat" where
  "batch_phase n rows = (\<Sum>sc\<leftarrow>[0..<n]. circular_ppm (map (\<lambda>r. r ! sc) rows)) div n"

lemma round_div_le:
  assumes "0 < b" and "\<bar>a\<bar> \<le> b * m"
  shows "\<bar>round_div a b\<bar> \<le> m"
proof -
  have "(x + b div 2) div b \<le> m" if "x \<le> b * m" for x
  proof -
    have "x + b div 2 < b * m + b"
      using that assms(1) by simp
    then have "(x + b div 2) div b \<le> (b * m + (b - 1)) div b"
      using assms(1) by (intro zdiv_mono1) auto
    also have "\<dots> = m"
      using assms(1) by (simp add: div_pos_pos_trivial)
    finally show ?thesis .
  qed
  moreover have "0 \<le> (x + b div 2) div b" if "0 \<le> x" for x
    using that assms(1) by (simp add: pos_imp_zdiv_nonneg_iff)
  moreover have "0 \<le> m"
    using assms by (smt (verit) mult_pos_neg)
  moreover note calculation(1,2)[of a] calculation(1,2)[of "- a"]
  ultimately show ?thesis
    using assms(2) by (smt (verit) round_div_def)
qed

lemma div_round_exact:
  assumes "0 < sint b" and "\<bar>sint a\<bar> + sint b div 2 < 2 ^ 31"
  shows "sint (div_round a b) = round_div (sint a) (sint b)"
proof -
  have half: "sint (s_div b 2) = sint b div 2"
    using s_div_exact[of "2 :: i32" b] assms(1) by (simp add: signed_divide_int_def sgn_if)
  have pos: "sint (s_div (x + s_div b 2) b) = (sint x + sint b div 2) div sint b"
    if "0 \<le> sint x" "sint x + sint b div 2 < 2 ^ 31" for x
  proof -
    have "sint (x + s_div b 2) = sint x + sint b div 2"
      using that assms(1) sint_ring_exact(1)[of x "s_div b 2"] by (simp add: half)
    then show ?thesis
      using s_div_exact[OF assms(1), of "x + s_div b 2"] that assms(1) by (simp add: signed_divide_int_def sgn_if)
  qed
  show ?thesis
  proof (cases "0 \<le> sint a")
    case True
    then show ?thesis
      using pos[of a] assms(2) by (simp add: div_round_def round_div_def)
  next
    case False
    then have n: "sint (- a) = - sint a"
      using sint_ring_exact(4)[of a] assms by simp
    then have p: "sint (s_div (- a + s_div b 2) b) = (- sint a + sint b div 2) div sint b"
      using pos[of "- a"] False assms(2) by simp
    then have "0 \<le> sint (s_div (- a + s_div b 2) b)"
      using False assms(1) by (simp add: pos_imp_zdiv_nonneg_iff)
    then have "sint (- s_div (- a + s_div b 2) b) = - sint (s_div (- a + s_div b 2) b)"
      by (intro sint_ring_exact(4)) simp
    then show ?thesis
      using False p by (simp add: div_round_def round_div_def)
  qed
qed

section \<open>The incremental statistic is the batch one\<close>

text \<open>What the sums are: for each subcarrier the word sum of the unit vectors of every slot, filled or not.\<close>

definition phase_ok :: "nat \<Rightarrow> phase_detector \<Rightarrow> bool" where
  "phase_ok W d \<longleftrightarrow> window_ok W (pd_filled d) (pd_next d) (pd_ring d) \<and>
     list_all (\<lambda>row. length row = MAX_SUBCARRIERS) (pd_ring d) \<and>
     pd_sum_cos d = map (\<lambda>sc. \<Sum>row\<leftarrow>pd_ring d. fst (unit_vector (row ! sc))) [0..<MAX_SUBCARRIERS] \<and>
     pd_sum_sin d = map (\<lambda>sc. \<Sum>row\<leftarrow>pd_ring d. snd (unit_vector (row ! sc))) [0..<MAX_SUBCARRIERS]"

definition phase_view :: "nat \<Rightarrow> phase_detector \<Rightarrow> i16 list list" where
  "phase_view W d = map (take (unat (pd_count d))) (window W (pd_filled d) (pd_next d) (pd_ring d))"

definition phases_ok :: "phases \<Rightarrow> bool" where
  "phases_ok p \<longleftrightarrow> length (ph_phase p) = MAX_SUBCARRIERS \<and> unat (ph_count p) \<le> MAX_SUBCARRIERS"

lemma map_prefix_step:
  "m < n \<Longrightarrow> (map (\<lambda>i. if i < m then g i else h i) [0..<n])[m := g m] = map (\<lambda>i. if i < Suc m then g i else h i) [0..<n]"
  by (rule nth_equalityI) (auto simp: nth_list_update less_Suc_eq)

lemma phase_slide_prefix:
  assumes "m \<le> length new" and "length new \<le> length slot" and "length cos = length slot" and "length sin = length slot"
  shows "foldl (phase_slide_one new) (cos, sin, slot) [0..<m] =
    (map (\<lambda>sc. if sc < m then cos ! sc - fst (unit_vector (slot ! sc)) + fst (unit_vector (new ! sc)) else cos ! sc) [0..<length slot],
     map (\<lambda>sc. if sc < m then sin ! sc - snd (unit_vector (slot ! sc)) + snd (unit_vector (new ! sc)) else sin ! sc) [0..<length slot],
     take m new @ drop m slot)"
  using assms(1)
proof (induction m)
  case 0
  then show ?case
    using map_nth[of cos] map_nth[of sin] assms(3,4) by simp
next
  case (Suc m)
  let ?g = "\<lambda>sc. cos ! sc - fst (unit_vector (slot ! sc)) + fst (unit_vector (new ! sc))"
  let ?h = "\<lambda>sc. sin ! sc - snd (unit_vector (slot ! sc)) + snd (unit_vector (new ! sc))"
  have m: "m < length slot" "m < length new" "m \<le> length new"
    using Suc.prems assms(2) by simp_all
  have "(take m new @ drop m slot) ! m = slot ! m"
    using m by (simp add: nth_append)
  moreover have "(take m new @ drop m slot)[m := new ! m] = take (Suc m) new @ drop (Suc m) slot"
    using m by (simp add: list_update_append take_Suc_conv_app_nth flip: Cons_nth_drop_Suc)
  moreover note map_prefix_step[OF m(1), of ?g "\<lambda>sc. cos ! sc"] map_prefix_step[OF m(1), of ?h "\<lambda>sc. sin ! sc"]
  ultimately show ?case
    using Suc.IH[OF m(3)] m by (simp only: upt_Suc le0 if_True foldl_append foldl.simps phase_slide_one_def case_prod_beta
      Let_def fst_conv snd_conv prod.case) (simp only: nth_map nth_upt length_upt minus_nat.diff_0 add_0 less_irrefl if_False)
qed

lemma phase_slide_eq:
  assumes "phase_ok W d" and "length new \<le> MAX_SUBCARRIERS"
  shows "phase_slide d new =
    d\<lparr>pd_sum_cos := map (\<lambda>sc. \<Sum>row\<leftarrow>(pd_ring d)[pd_next d := new @ drop (length new) (pd_ring d ! pd_next d)]. fst (unit_vector (row ! sc))) [0..<MAX_SUBCARRIERS],
      pd_sum_sin := map (\<lambda>sc. \<Sum>row\<leftarrow>(pd_ring d)[pd_next d := new @ drop (length new) (pd_ring d ! pd_next d)]. snd (unit_vector (row ! sc))) [0..<MAX_SUBCARRIERS],
      pd_ring := (pd_ring d)[pd_next d := new @ drop (length new) (pd_ring d ! pd_next d)]\<rparr>"
proof -
  let ?slot = "pd_ring d ! pd_next d"
  have n: "pd_next d < length (pd_ring d)" and slot: "length ?slot = MAX_SUBCARRIERS"
    using assms(1) by (auto simp: phase_ok_def window_ok_def list_all_length)
  let ?new = "new @ drop (length new) ?slot"
  have entry: "?new ! sc = (if sc < length new then new ! sc else ?slot ! sc)" if "sc < MAX_SUBCARRIERS" for sc
    using that assms(2) slot by (simp add: nth_append)
  have moved: "(if sc < length new then (\<Sum>row\<leftarrow>pd_ring d. f (row ! sc)) - f (?slot ! sc) + f (new ! sc) else \<Sum>row\<leftarrow>pd_ring d. f (row ! sc)) =
      (\<Sum>row\<leftarrow>(pd_ring d)[pd_next d := ?new]. f (row ! sc))" if "sc < MAX_SUBCARRIERS" for sc and f :: "i16 \<Rightarrow> i32"
    using sum_list_slot[OF n, of "\<lambda>row. f (row ! sc)" ?new] entry[OF that] by simp
  have cos: "pd_sum_cos d = map (\<lambda>sc. \<Sum>row\<leftarrow>pd_ring d. fst (unit_vector (row ! sc))) [0..<MAX_SUBCARRIERS]"
    and sin: "pd_sum_sin d = map (\<lambda>sc. \<Sum>row\<leftarrow>pd_ring d. snd (unit_vector (row ! sc))) [0..<MAX_SUBCARRIERS]"
    using assms(1) by (simp_all add: phase_ok_def)
  have "foldl (phase_slide_one new) (pd_sum_cos d, pd_sum_sin d, ?slot) [0..<length new] =
    (map (\<lambda>sc. \<Sum>row\<leftarrow>(pd_ring d)[pd_next d := ?new]. fst (unit_vector (row ! sc))) [0..<MAX_SUBCARRIERS],
     map (\<lambda>sc. \<Sum>row\<leftarrow>(pd_ring d)[pd_next d := ?new]. snd (unit_vector (row ! sc))) [0..<MAX_SUBCARRIERS], ?new)"
    (is "_ = (?C, ?S, _)")
  proof -
    have "map (\<lambda>sc. if sc < length new then pd_sum_cos d ! sc - fst (unit_vector (?slot ! sc)) + fst (unit_vector (new ! sc))
        else pd_sum_cos d ! sc) [0..<length ?slot] = ?C"
      unfolding slot cos by (rule map_cong[OF refl]) (simp add: moved[of _ "\<lambda>a. fst (unit_vector a)", symmetric])
    moreover have "map (\<lambda>sc. if sc < length new then pd_sum_sin d ! sc - snd (unit_vector (?slot ! sc)) + snd (unit_vector (new ! sc))
        else pd_sum_sin d ! sc) [0..<length ?slot] = ?S"
      unfolding slot sin by (rule map_cong[OF refl]) (simp add: moved[of _ "\<lambda>a. snd (unit_vector a)", symmetric])
    moreover have "length (pd_sum_cos d) = length ?slot" "length (pd_sum_sin d) = length ?slot" "length new \<le> length ?slot"
      using slot assms(2) by (simp_all add: cos sin)
    ultimately show ?thesis
      using phase_slide_prefix[of "length new" new ?slot "pd_sum_cos d" "pd_sum_sin d"] by simp
  qed
  then show ?thesis
    by (simp add: phase_slide_def)
qed

text \<open>The sums of the unit vectors on exact integers, and the term each subcarrier gives.\<close>

lemma mean_bounded:
  assumes "0 < w" and "w \<le> 131068" and "\<bar>sint s\<bar> \<le> int w * 16384"
  shows "sint (div_round s (of_nat w)) = round_div (sint s) (int w)" "\<bar>round_div (sint s) (int w)\<bar> \<le> 16384"
proof -
  have w: "sint (of_nat w :: i32) = int w"
    using assms(2) by (intro sint_of_nat_small) simp
  have "int w * 16384 + int w div 2 < 2 ^ 31"
    using assms(1,2) by simp
  then show "sint (div_round s (of_nat w)) = round_div (sint s) (int w)"
    using div_round_exact[of "of_nat w" s] assms w by simp
  show "\<bar>round_div (sint s) (int w)\<bar> \<le> 16384"
    using assms by (intro round_div_le) simp_all
qed

lemma phase_term_of_mean:
  assumes "isqrt_ok isqrt" and "sint (div_round sc w) = c" and "sint (div_round ss w) = t"
    and "\<bar>c\<bar> \<le> 16384" and "\<bar>t\<bar> \<le> 16384"
  shows "unat (phase_term isqrt w sc ss) = (16384 - min 16384 ((nat_sqrt (nat (4 * (c * c + t * t))) + 1) div 2)) * 15625 div 256"
proof -
  have sq: "0 \<le> x * x \<and> x * x \<le> 2 ^ 28" if "\<bar>x\<bar> \<le> 16384" for x :: int
    using that mult_mono[of "\<bar>x\<bar>" 16384 "\<bar>x\<bar>" 16384] by (simp add: abs_mult_self_eq)
  define S where "S = div_round sc w * div_round sc w + div_round ss w * div_round ss w"
  have mul: "sint (div_round sc w * div_round sc w) = c * c" "sint (div_round ss w * div_round ss w) = t * t"
    using sint_ring_exact(3)[of "div_round sc w" "div_round sc w"] sint_ring_exact(3)[of "div_round ss w" "div_round ss w"]
      sq[OF assms(4)] sq[OF assms(5)] by (simp_all add: assms(2,3))
  have s: "sint S = c * c + t * t"
    using sint_ring_exact(1)[of "div_round sc w * div_round sc w" "div_round ss w * div_round ss w"]
      sq[OF assms(4)] sq[OF assms(5)] by (simp add: mul S_def)
  moreover have "0 \<le> c * c + t * t"
    using sq[OF assms(4)] sq[OF assms(5)] by linarith
  ultimately have "int (unat S) = c * c + t * t"
    using sint_nonneg[of S] by simp
  then have "unat S = nat (c * c + t * t)"
    by (metis nat_int)
  then have four: "unat (4 * S) = nat (4 * (c * c + t * t))"
    using sq[OF assms(4)] sq[OF assms(5)] by (subst unat_mult_lem[THEN iffD1]) (auto simp: nat_mult_distrib)
  define q where "q = nat_sqrt (nat (4 * (c * c + t * t)))"
  have "nat (4 * (c * c + t * t)) \<le> 2 ^ 31"
    using sq[OF assms(4)] sq[OF assms(5)] by simp
  then have "q \<le> 46341"
    unfolding q_def by (intro nat_sqrt_le) simp
  moreover have u: "unat (isqrt (4 * S)) = q"
    by (simp only: unat_isqrt[OF assms(1)] four q_def)
  ultimately have "unat (isqrt (4 * S) + 1) = q + 1"
    by (subst unat_add_lem[THEN iffD1]) auto
  then have "sint (isqrt (4 * S) + 1) = int (q + 1)"
    using \<open>q \<le> 46341\<close> sint_small[of "isqrt (4 * S) + 1"] by simp
  then have half: "sint (s_div (isqrt (4 * S) + 1) 2) = int ((q + 1) div 2)"
    using s_div_exact[of "2 :: i32" "isqrt (4 * S) + 1"] by (simp add: signed_divide_int_def zdiv_int)
  define r where "r = (if sint (s_div (isqrt (4 * S) + 1) 2) > sint UNIT then UNIT else s_div (isqrt (4 * S) + 1) 2)"
  have "unat (s_div (isqrt (4 * S) + 1) 2) = (q + 1) div 2"
    using half sint_nonneg[of "s_div (isqrt (4 * S) + 1) 2"] by (metis of_nat_eq_iff of_nat_0_le_iff)
  then have r: "unat r = min 16384 ((q + 1) div 2)"
    using half by (auto simp: r_def UNIT_def)
  then have d: "unat (UNIT - r) = 16384 - min 16384 ((q + 1) div 2)"
    by (subst unat_sub) (auto simp: UNIT_def word_le_nat_alt)
  have "unat ((UNIT - r) * 15625) = (16384 - min 16384 ((q + 1) div 2)) * 15625"
    by (subst unat_mult_lem[THEN iffD1]) (auto simp: d)
  then have "unat (drop_bit 8 ((UNIT - r) * 15625)) = (16384 - min 16384 ((q + 1) div 2)) * 15625 div 256"
    by (simp only: unat_drop_bit_eq drop_bit_eq_div[where ?'a = nat]) simp
  then show ?thesis
    by (simp only: phase_term_def Let_def S_def[symmetric] r_def[symmetric] q_def[symmetric])
qed

lemma phase_term_exact:
  assumes "isqrt_ok isqrt" and "0 < length as" and "length as \<le> 131068"
    and "sc = (\<Sum>a\<leftarrow>as. fst (unit_vector a))" and "ss = (\<Sum>a\<leftarrow>as. snd (unit_vector a))"
  shows "unat (phase_term isqrt (of_nat (length as)) sc ss) = circular_ppm as"
proof -
  have c: "sint sc = (\<Sum>a\<leftarrow>as. cos_of a) \<and> \<bar>sint sc\<bar> \<le> int (length as) * 16384"
    using sint_sum_list[of as "\<lambda>a. fst (unit_vector a)" 16384] unit_vector_bounds(1) assms(3,4) by (simp add: cos_of_def)
  have s: "sint ss = (\<Sum>a\<leftarrow>as. sin_of a) \<and> \<bar>sint ss\<bar> \<le> int (length as) * 16384"
    using sint_sum_list[of as "\<lambda>a. snd (unit_vector a)" 16384] unit_vector_bounds(2) assms(3,5) by (simp add: sin_of_def)
  show ?thesis
    using phase_term_of_mean[OF assms(1) mean_bounded(1) mean_bounded(1) mean_bounded(2) mean_bounded(2), OF
        assms(2,3) c[THEN conjunct2] assms(2,3) s[THEN conjunct2] assms(2,3) c[THEN conjunct2] assms(2,3) s[THEN conjunct2]]
    by (simp only: circular_ppm_def Let_def c s)
qed

lemma circular_ppm_le: "circular_ppm as \<le> 1000000"
proof -
  have "circular_ppm as \<le> 16384 * 15625 div 256"
    unfolding circular_ppm_def Let_def by (intro div_le_mono mult_le_mono) simp_all
  then show ?thesis
    by simp
qed

text \<open>A warm detector's wander is the batch statistic of the rows it holds.\<close>

lemma phase_wander_warm:
  assumes "isqrt_ok isqrt" and "phase_ok W d" and "pd_filled d = W" and "W \<le> 131068" and "0 < unat (pd_count d)"
    and "unat (pd_count d) \<le> MAX_SUBCARRIERS"
  shows "unat (phase_wander isqrt W d) = batch_phase (unat (pd_count d)) (phase_view W d)"
proof -
  let ?n = "unat (pd_count d)"
  let ?rows = "window W (pd_filled d) (pd_next d) (pd_ring d)"
  have w: "window_ok W (pd_filled d) (pd_next d) (pd_ring d)" "0 < W"
    using assms(2) by (auto simp: phase_ok_def window_ok_def)
  have sums: "pd_sum_cos d ! sc = (\<Sum>a\<leftarrow>map (\<lambda>r. r ! sc) ?rows. fst (unit_vector a))"
    "pd_sum_sin d ! sc = (\<Sum>a\<leftarrow>map (\<lambda>r. r ! sc) ?rows. snd (unit_vector a))" if "sc < ?n" for sc
    using that assms(2,6) sum_window[OF w(1) assms(3), of "\<lambda>r. fst (unit_vector (r ! sc))"]
      sum_window[OF w(1) assms(3), of "\<lambda>r. snd (unit_vector (r ! sc))"]
    by (simp_all add: phase_ok_def o_def)
  have term_sc: "unat (phase_term isqrt (of_nat W) (pd_sum_cos d ! sc) (pd_sum_sin d ! sc)) =
      circular_ppm (map (\<lambda>r. r ! sc) (phase_view W d))" if "sc < ?n" for sc
  proof -
    have "map (\<lambda>r. r ! sc) (phase_view W d) = map (\<lambda>r. r ! sc) ?rows"
      using that by (simp add: phase_view_def)
    moreover have "?rows \<noteq> []"
      using length_window[OF w(1)] assms(3) w(2) by auto
    ultimately show ?thesis
      using phase_term_exact[OF assms(1) _ _ sums[OF that]] length_window[OF w(1)] assms(3,4) by simp
  qed
  have total: "unat (foldl (\<lambda>t sc. t + phase_term isqrt (of_nat W) (pd_sum_cos d ! sc) (pd_sum_sin d ! sc)) 0 [0..<m]) =
      (\<Sum>sc\<leftarrow>[0..<m]. circular_ppm (map (\<lambda>r. r ! sc) (phase_view W d))) \<and>
      (\<Sum>sc\<leftarrow>[0..<m]. circular_ppm (map (\<lambda>r. r ! sc) (phase_view W d))) \<le> m * 1000000" if "m \<le> ?n" for m
    using that
  proof (induction m)
    case (Suc m)
    then show ?case
      using term_sc[of m] circular_ppm_le[of "map (\<lambda>r. r ! m) (phase_view W d)"] assms(6)
      by (subst upt_Suc_append) (auto simp: unat_word_ariths MAX_SUBCARRIERS_def)
  qed simp
  have "unat (of_nat ?n :: u32) = ?n"
    unfolding unat_of_nat using assms(6) by (simp add: MAX_SUBCARRIERS_def)
  moreover have "min ?n MAX_SUBCARRIERS = ?n"
    using assms(6) by simp
  moreover note total[of ?n]
  ultimately show ?thesis
    using assms(5) w(2) by (simp only: phase_wander_def batch_phase_def Let_def) (simp add: unat_div)
qed

text \<open>One push: the slot is written, the window moves.\<close>

lemma phase_advance_slide:
  assumes "phase_ok W d" and "length new = unat (pd_count d)" and "length new \<le> MAX_SUBCARRIERS"
  shows "phase_ok W (phase_advance W (phase_slide d new)) \<and>
    phase_view W (phase_advance W (phase_slide d new)) = last_n W (phase_view W d @ [new])"
proof -
  let ?row = "new @ drop (length new) (pd_ring d ! pd_next d)"
  have w: "window_ok W (pd_filled d) (pd_next d) (pd_ring d)" "list_all (\<lambda>row. length row = MAX_SUBCARRIERS) (pd_ring d)"
    using assms(1) by (simp_all add: phase_ok_def)
  then have "length (pd_ring d ! pd_next d) = MAX_SUBCARRIERS"
    by (auto simp: window_ok_def list_all_length)
  then have "list_all (\<lambda>row. length row = MAX_SUBCARRIERS) ((pd_ring d)[pd_next d := ?row])"
    using w(2) assms(3) set_update_subset_insert[of "pd_ring d" "pd_next d" ?row] by (auto simp: list_all_iff)
  then show ?thesis
    using window_push[OF w(1), of ?row] phase_slide_eq[OF assms(1,3)] assms(2)
    by (cases "pd_filled d < W") (simp_all add: phase_advance_def phase_ok_def phase_view_def map_last_n)
qed

definition phase_inv :: "(u32 \<Rightarrow> u32) \<Rightarrow> nat \<Rightarrow> phase_detector \<Rightarrow> bool" where
  "phase_inv isqrt W d \<longleftrightarrow> phase_ok W d \<and> (pd_filled d = W \<longrightarrow> pd_wander d = phase_wander isqrt W d)"

lemma phase_inv_new:
  assumes "0 < W"
  shows "phase_inv isqrt W (phase_new W cfg)"
proof -
  have "sum_list (replicate W x) = of_nat W * x" for x :: i32
    by (induction W) (simp_all add: algebra_simps)
  moreover have "unit_vector 0 = (UNIT, 0)"
    by code_simp
  moreover have "replicate MAX_SUBCARRIERS x = map (\<lambda>_. x) [0..<MAX_SUBCARRIERS]" for x :: i32
    by (simp add: map_replicate_const)
  moreover have "map (\<lambda>sc. f (replicate MAX_SUBCARRIERS 0 ! sc)) [0..<MAX_SUBCARRIERS] = map (\<lambda>_. f 0) [0..<MAX_SUBCARRIERS]"
    for f :: "i16 \<Rightarrow> i32"
    by (rule map_cong) simp_all
  ultimately show ?thesis
    using assms window_ok_start[of W "replicate W (replicate MAX_SUBCARRIERS (0 :: i16))"]
    by (simp add: phase_inv_def phase_ok_def phase_new_def list_all_length)
qed

lemma phase_decide_keeps:
  "pd_ring (phase_decide isqrt W d now) = pd_ring d" "pd_sum_cos (phase_decide isqrt W d now) = pd_sum_cos d"
  "pd_sum_sin (phase_decide isqrt W d now) = pd_sum_sin d" "pd_count (phase_decide isqrt W d now) = pd_count d"
  "pd_filled (phase_decide isqrt W d now) = pd_filled d" "pd_next (phase_decide isqrt W d now) = pd_next d"
  "\<not> pd_filled d < W \<Longrightarrow> pd_wander (phase_decide isqrt W d now) = phase_wander isqrt W d"
  by (simp_all add: phase_decide_def Let_def)

lemma phase_decide_inv:
  assumes "phase_ok W d"
  shows "phase_inv isqrt W (phase_decide isqrt W d now)"
proof -
  have "phase_wander isqrt W (phase_decide isqrt W d now) = phase_wander isqrt W d"
    by (simp only: phase_wander_def Let_def phase_decide_keeps)
  then show ?thesis
    using assms by (simp add: phase_inv_def phase_ok_def phase_decide_keeps)
qed

lemma phase_inv_push:
  assumes "phase_inv isqrt W d" and "phases_ok p" and "ph_count p \<noteq> 0"
  shows "phase_inv isqrt W (snd (phase_push isqrt W d p now)) \<and> pd_count (snd (phase_push isqrt W d p now)) = ph_count p \<and>
    phase_view W (snd (phase_push isqrt W d p now)) =
      last_n W ((if pd_count d = ph_count p then phase_view W d else []) @ [phases_valid p])"
proof -
  let ?c = "(if pd_filled d > 0 \<and> ph_count p \<noteq> pd_count d then phase_reset d else d)\<lparr>pd_count := ph_count p\<rparr>"
  let ?e = "phase_advance W (phase_slide ?c (phases_valid p))"
  have new: "length (phases_valid p) = unat (pd_count ?c)" "length (phases_valid p) \<le> MAX_SUBCARRIERS"
    using assms(2) by (simp_all add: phases_ok_def phases_valid_def)
  have "phase_ok W ?c"
    using assms(1) by (auto simp: phase_inv_def phase_ok_def phase_reset_def window_ok_def)
  note e = phase_advance_slide[OF this new]
  have view: "phase_view W ?c = (if pd_count d = ph_count p then phase_view W d else [])"
    using assms(1) by (auto simp: phase_inv_def phase_ok_def phase_view_def phase_reset_def window_def window_ok_def)
  have count: "pd_count ?e = ph_count p"
    by (simp add: phase_advance_def phase_slide_def split_beta)
  have push: "snd (phase_push isqrt W d p now) = phase_decide isqrt W ?e now"
    using assms(3) by (simp add: phase_push_def Let_def)
  have "phase_view W (phase_decide isqrt W ?e now) = phase_view W ?e"
    by (simp add: phase_view_def phase_decide_keeps)
  then show ?thesis
    unfolding push using phase_decide_inv[of W ?e isqrt now] e view count by (simp only: phase_decide_keeps)
qed

lemma phase_push_skipped: "ph_count p = 0 \<Longrightarrow> snd (phase_push isqrt W d p now) = d"
  by (simp add: phase_push_def)

interpretation phase_window: sliding W "\<lambda>d (p, now). snd (phase_push isqrt W d p now)" pd_count "\<lambda>(p, now). ph_count p"
  "\<lambda>(p, now). phases_valid p" "phase_view W" "phase_inv isqrt W" "\<lambda>(p, now). phases_ok p" "\<lambda>(p, now). ph_count p = 0"
  for W isqrt
  by unfold_locales (simp add: phase_push_skipped split_beta, simp only: split_beta phase_inv_push simp_thms)

definition phase_run :: "(u32 \<Rightarrow> u32) \<Rightarrow> nat \<Rightarrow> phase_detector \<Rightarrow> (phases \<times> micros) list \<Rightarrow> phase_detector" where
  "phase_run isqrt W = foldl (\<lambda>d (p, now). snd (phase_push isqrt W d p now))"

text \<open>C10: The phase detector carries its circular variance exactly. Whatever was pushed before, after \<open>W\<close>
  frames of one subcarrier count the detector is warm and its wander is the mean circular variance of exactly
  those frames' angles, computed from scratch on unbounded integers: the sums have not drifted through the
  slots of earlier windows or of the zeroed ring, nothing wrapped, and no stale angle counts.\<close>

theorem phase_wander_is_batch:
  assumes "isqrt_ok isqrt" and "0 < W" and "W \<le> 131068" and "length win = W" and "n \<noteq> 0"
    and "list_all (\<lambda>(p, now). phases_ok p) before"
    and "list_all (\<lambda>(p, now). phases_ok p \<and> ph_count p = n) win"
  shows "phase_warm W (phase_run isqrt W (phase_new W cfg) (before @ win)) \<and>
    unat (pd_wander (phase_run isqrt W (phase_new W cfg) (before @ win))) =
      batch_phase (unat n) (map (\<lambda>(p, now). phases_valid p) win)"
proof -
  let ?d = "phase_run isqrt W (phase_new W cfg) (before @ win)"
  have "list_all (\<lambda>f. (case f of (p, now) \<Rightarrow> phases_ok p) \<and> \<not> (case f of (p, now) \<Rightarrow> ph_count p = 0) \<and>
      (case f of (p, now) \<Rightarrow> ph_count p) = n) win"
    using assms(5,7) by (auto simp: list_all_iff)
  then have d: "phase_inv isqrt W ?d" "pd_count ?d = n" "phase_view W ?d = map (\<lambda>(p, now). phases_valid p) win"
    using phase_window.run_window[OF phase_inv_new[OF assms(2)] assms(6) _ assms(4,2)]
    by (simp_all add: phase_run_def)
  then have ok: "phase_ok W ?d" "pd_filled ?d = W \<longrightarrow> pd_wander ?d = phase_wander isqrt W ?d"
    by (simp_all add: phase_inv_def)
  have "length (phase_view W ?d) = pd_filled ?d"
    using ok(1) by (simp add: phase_view_def phase_ok_def length_window)
  then have full: "pd_filled ?d = W"
    using d(3) assms(4) by simp
  have "win \<noteq> []"
    using assms(2,4) by auto
  then have n: "unat n \<le> MAX_SUBCARRIERS" "0 < unat n"
    using assms(5,7) by (auto simp: list_all_iff phases_ok_def unat_gt_0 neq_Nil_conv)
  then show ?thesis
    using phase_wander_warm[OF assms(1) ok(1) full assms(3)] d(2,3) ok(2) full by (simp add: phase_warm_def)
qed

definition flat_phases :: "i16 list \<Rightarrow> phases" where
  "flat_phases as = \<lparr>ph_phase = as @ replicate (MAX_SUBCARRIERS - length as) 0, ph_count = of_nat (length as)\<rparr>"

abbreviation phase_sample_before :: "(phases \<times> micros) list" where
  "phase_sample_before \<equiv> [(flat_phases [5, 6, 7], 0)]"

abbreviation phase_sample_window :: "(phases \<times> micros) list" where
  "phase_sample_window \<equiv> [(flat_phases [0, 16384], 1), (flat_phases [32767, 0], 2)]"

theorem phase_wander_is_batch_witness:
  "phase_warm 2 (phase_run isqrt_sample 2 (phase_new 2 phase_config_default) (phase_sample_before @ phase_sample_window)) \<and>
   unat (pd_wander (phase_run isqrt_sample 2 (phase_new 2 phase_config_default) (phase_sample_before @ phase_sample_window))) =
     batch_phase (unat (2 :: u8)) (map (\<lambda>(p, now). phases_valid p) phase_sample_window)"
proof (rule phase_wander_is_batch[OF isqrt_sample_ok])
  show "list_all (\<lambda>(p, now). phases_ok p) phase_sample_before"
    "list_all (\<lambda>(p, now). phases_ok p \<and> ph_count p = 2) phase_sample_window"
    by (simp_all add: flat_phases_def phases_ok_def MAX_SUBCARRIERS_def)
qed simp_all

end
