(* ===== verification/Vitals.thy ===== *)
theory Vitals
  imports Signed Window Csi
begin

text \<open>
  Breathing and heart rate from the slow rhythm in Wi-Fi channel state
  (\<open>crates/rusty_esp_signal-core/src/radar/vitals.rs\<close>): frames averaged in blocks into one sample per subcarrier,
  a window of \<open>N\<close> samples, the normalised autocorrelation summed over subcarriers, and the first significant
  peak from lag 2. The two inner products of \<open>rusty_esp_dsp\<close> are arguments, with their documented sums as
  hypotheses.
\<close>

section \<open>Bands and configurations\<close>

record band =
  bd_lo_mhz :: u32
  bd_hi_mhz :: u32

definition BAND_BREATHING :: band where
  "BAND_BREATHING = \<lparr>bd_lo_mhz = 150, bd_hi_mhz = 550\<rparr>"

definition BAND_HEART :: band where
  "BAND_HEART = \<lparr>bd_lo_mhz = 700, bd_hi_mhz = 2200\<rparr>"

definition div_ceil_u32 :: "u32 \<Rightarrow> u32 \<Rightarrow> u32" where
  "div_ceil_u32 a b = (if a mod b > 0 then a div b + 1 else a div b)"

definition band_lags :: "band \<Rightarrow> u32 \<Rightarrow> nat \<times> nat" where
  "band_lags b rate_hz =
     (let lo = (rate_hz * 1000) div bd_hi_mhz b; hi = div_ceil_u32 (rate_hz * 1000) (bd_lo_mhz b)
      in (if lo < 2 then 2 else unat lo, unat hi))"

record vitals_config =
  vc_decim :: u16
  vc_rate_hz :: u32
  vc_band :: band
  vc_update_every :: u16
  vc_accept_permille :: u16
  vc_highpass :: u16

definition vitals_breathing :: "u32 \<Rightarrow> vitals_config" where
  "vitals_breathing frame_hz = \<lparr>vc_decim = ucast (frame_hz div 10), vc_rate_hz = 10, vc_band = BAND_BREATHING,
     vc_update_every = 10, vc_accept_permille = 400, vc_highpass = 0\<rparr>"

definition vitals_heart :: "u32 \<Rightarrow> vitals_config" where
  "vitals_heart frame_hz = \<lparr>vc_decim = ucast (frame_hz div 25), vc_rate_hz = 25, vc_band = BAND_HEART,
     vc_update_every = 25, vc_accept_permille = 400, vc_highpass = 25\<rparr>"

record vitals =
  vt_bpm_x10 :: u16
  vt_confidence :: u16
  vt_lag_x16 :: u32
  vt_accepted :: bool
  vt_at :: micros

definition MAX_LAGS :: nat where "MAX_LAGS = 128"

section \<open>High-pass\<close>

text \<open>The two loops that carry the running sum to the wanted ends of the window.\<close>

function hp_extend :: "i16 list \<Rightarrow> nat \<Rightarrow> i32 \<times> nat \<Rightarrow> i32 \<times> nat" where
  "hp_extend x want (run, hi) = (if hi < want then hp_extend x want (run + scast (x ! hi), hi + 1) else (run, hi))"
  by pat_completeness auto
termination by (relation "measure (\<lambda>(x, want, run, hi). want - hi)") auto

function hp_drop :: "i16 list \<Rightarrow> nat \<Rightarrow> i32 \<times> nat \<Rightarrow> i32 \<times> nat" where
  "hp_drop x want (run, lo) = (if lo < want then hp_drop x want (run - scast (x ! lo), lo + 1) else (run, lo))"
  by pat_completeness auto
termination by (relation "measure (\<lambda>(x, want, run, lo). want - lo)") auto

declare hp_extend.simps [simp del] hp_drop.simps [simp del]

definition clamp_i16 :: "i32 \<Rightarrow> i16" where
  "clamp_i16 v = ucast (s_clamp (- 32768) 32767 v)"

definition highpass_one :: "i16 list \<Rightarrow> nat \<Rightarrow> i32 \<times> nat \<times> nat \<times> i16 list \<Rightarrow> nat \<Rightarrow> i32 \<times> nat \<times> nat \<times> i16 list" where
  "highpass_one x half st i =
     (case st of (run, lo, hi, y) \<Rightarrow>
        let want_lo = i - half; want_hi = min (i + half + 1) (length x);
            (run, hi) = hp_extend x want_hi (run, hi);
            (run, lo) = hp_drop x want_lo (run, lo);
            avg = s_div run (of_nat (hi - lo))
        in (run, lo, hi, y[i := clamp_i16 (scast (x ! i) - avg)]))"

definition highpass :: "i16 list \<Rightarrow> nat \<Rightarrow> i16 list" where
  "highpass x m =
     (let half = max (min m (length x) div 2) 1;
          (_, _, _, y) = foldl (highpass_one x half) (0, 0, 0, replicate (length x) 0) [0..<length x]
      in y)"

section \<open>The estimate\<close>

record estimator =
  ve_config :: vitals_config
  ve_ring :: "i16 list list"
  ve_acc :: "i32 list"
  ve_acc_n :: u16
  ve_count :: u8
  ve_filled :: nat
  ve_next :: nat
  ve_since_update :: u16
  ve_last :: "vitals option"

text \<open>A subcarrier's samples in time order, and with their mean taken out.\<close>

definition series :: "nat \<Rightarrow> estimator \<Rightarrow> nat \<Rightarrow> i16 list" where
  "series N d sc = map (\<lambda>f. ve_ring d ! ((ve_next d + f) mod N) ! sc) [0..<N]"

definition centred :: "i16 list \<Rightarrow> i16 list" where
  "centred xs =
     (let run = foldl (\<lambda>s v. s + scast v) (0 :: i64) xs;
          mean = ucast (s_div run (of_nat (length xs))) :: i32
      in map (\<lambda>v. clamp_i16 (scast v - mean)) xs)"

definition lag_rho :: "(i16 list \<Rightarrow> i16 list \<Rightarrow> i64) \<Rightarrow> i16 list \<Rightarrow> i64 \<Rightarrow> nat \<Rightarrow> i32" where
  "lag_rho dot x energy lag =
     (let r = dot (take (length x - lag) x) (drop lag x);
          rho = s_div (r * 1000 * of_nat (length x)) (of_nat (length x - lag) * energy)
      in ucast (s_clamp (- 2000) 2000 rho))"

definition add_subcarrier ::
  "(i16 list \<Rightarrow> i16 list \<Rightarrow> i64) \<Rightarrow> (i16 list \<Rightarrow> i64) \<Rightarrow> nat \<Rightarrow> nat \<Rightarrow> i32 list \<times> u32 \<Rightarrow> i16 list \<Rightarrow> i32 list \<times> u32" where
  "add_subcarrier dot sumsq hp hi_ext st xs =
     (case st of (summed, used) \<Rightarrow>
        let x = centred xs;
            x = (if hp > 1 then highpass x hp else x);
            energy = sumsq x
        in if sint energy \<le> 0 then (summed, used)
           else (foldl (\<lambda>s (i, lag). s[i := s ! i + lag_rho dot x energy lag]) summed (enumerate 0 [1..<hi_ext + 1]),
                 used + 1))"

definition I32_MIN :: i32 where "I32_MIN = 0x80000000"

definition s_max :: "'a::len word \<Rightarrow> 'a word \<Rightarrow> 'a word" where
  "s_max a b = (if sint b \<ge> sint a then b else a)"

text \<open>The peak: \<open>summed\<close> holds the value of lag \<open>l\<close> at index \<open>l - 1\<close>.\<close>

definition pick_peak :: "i32 list \<Rightarrow> nat \<Rightarrow> nat \<Rightarrow> nat \<times> i32" where
  "pick_peak summed lo hi =
     (let global = foldl (\<lambda>g lag. s_max g (summed ! (lag - 1))) I32_MIN [2..<hi + 1];
          floor = (if sint global > 0 then global - s_div (global * 15) 100 else global);
          (best, best_v) =
            (case List.find (\<lambda>lag. sint (summed ! (lag - 1)) \<ge> sint floor \<and>
                sint (summed ! (lag - 1)) \<ge> sint (summed ! (lag - 2)) \<and>
                sint (summed ! (lag - 1)) \<ge> sint (summed ! lag)) [2..<hi + 1] of
               Some lag \<Rightarrow> (lag, summed ! (lag - 1)) | None \<Rightarrow> (lo, I32_MIN))
      in if best_v = I32_MIN
         then foldl (\<lambda>(best, best_v) lag. if sint (summed ! (lag - 1)) > sint best_v
                then (lag, summed ! (lag - 1)) else (best, best_v)) (best, best_v) [2..<hi + 1]
         else (best, best_v))"

definition refined_lag :: "i32 list \<Rightarrow> nat \<Rightarrow> u32" where
  "refined_lag summed best =
     (let a = summed ! (best - 2); b = summed ! (best - 1); c = summed ! best;
          denom = a - 2 * b + c;
          delta_x16 = (if sint denom < 0 then s_clamp (- 8) 8 (s_div ((a - c) * 8) denom) else 0)
      in s_max (of_nat best * 16 + delta_x16) 16)"

definition no_vitals :: "micros \<Rightarrow> vitals" where
  "no_vitals now = \<lparr>vt_bpm_x10 = 0, vt_confidence = 0, vt_lag_x16 = 0, vt_accepted = False, vt_at = now\<rparr>"

definition vitals_of_curve :: "vitals_config \<Rightarrow> i32 list \<Rightarrow> u32 \<Rightarrow> nat \<Rightarrow> nat \<Rightarrow> micros \<Rightarrow> vitals" where
  "vitals_of_curve cfg summed used lo hi now =
     (let (best, best_v) = pick_peak summed lo hi;
          confidence = ucast (s_clamp 0 1000 (s_div best_v used)) :: u16;
          inside = best > lo \<and> best < hi;
          lag_x16 = refined_lag summed best;
          bpm = (9600 * vc_rate_hz cfg + lag_x16 div 2) div lag_x16
      in \<lparr>vt_bpm_x10 = ucast (min bpm 65535), vt_confidence = confidence, vt_lag_x16 = lag_x16,
          vt_accepted = (inside \<and> confidence \<ge> vc_accept_permille cfg), vt_at = now\<rparr>)"

definition vitals_estimate ::
  "(i16 list \<Rightarrow> i16 list \<Rightarrow> i64) \<Rightarrow> (i16 list \<Rightarrow> i64) \<Rightarrow> nat \<Rightarrow> estimator \<Rightarrow> micros \<Rightarrow> vitals" where
  "vitals_estimate dot sumsq N d now =
     (let n_sc = min (unat (ve_count d)) MAX_SUBCARRIERS;
          (lo, hi) = band_lags (vc_band (ve_config d)) (vc_rate_hz (ve_config d));
          hi = min hi (N - 2)
      in if lo \<ge> hi \<or> n_sc = 0 then no_vitals now
         else
           let hi_ext = min (hi + 1) (N - 1) in
           if hi_ext > MAX_LAGS then no_vitals now
           else
             let (summed, used) = foldl (add_subcarrier dot sumsq (unat (vc_highpass (ve_config d))) hi_ext)
                   (replicate MAX_LAGS 0, 0) (map (series N d) [0..<n_sc])
             in if used = 0 then no_vitals now else vitals_of_curve (ve_config d) summed used lo hi now)"

section \<open>The estimator\<close>

definition estimator_new :: "nat \<Rightarrow> vitals_config \<Rightarrow> estimator" where
  "estimator_new N cfg = \<lparr>ve_config = cfg, ve_ring = replicate N (replicate MAX_SUBCARRIERS 0),
     ve_acc = replicate MAX_SUBCARRIERS 0, ve_acc_n = 0, ve_count = 0, ve_filled = 0, ve_next = 0,
     ve_since_update = 0, ve_last = None\<rparr>"

definition estimator_warm :: "nat \<Rightarrow> estimator \<Rightarrow> bool" where
  "estimator_warm N d \<longleftrightarrow> ve_filled d \<ge> N"

definition estimator_reset :: "estimator \<Rightarrow> estimator" where
  "estimator_reset d = d\<lparr>ve_filled := 0, ve_next := 0, ve_acc_n := 0, ve_count := 0, ve_since_update := 0,
     ve_last := None\<rparr>"

definition estimator_accumulate :: "estimator \<Rightarrow> features \<Rightarrow> estimator" where
  "estimator_accumulate d f =
     (let n = min (unat (ft_count f)) MAX_SUBCARRIERS
      in d\<lparr>ve_count := ft_count f,
           ve_acc := map2 (\<lambda>a v. a + ucast v) (take n (ve_acc d)) (take n (ft_amplitude f)) @ drop n (ve_acc d),
           ve_acc_n := ve_acc_n d + 1\<rparr>)"

text \<open>One sample: the block's mean, into the slot the ring writes next.\<close>

definition estimator_store :: "nat \<Rightarrow> nat \<Rightarrow> estimator \<Rightarrow> estimator" where
  "estimator_store N n d =
     (let m = ucast (ve_acc_n d) :: i32; slot = ve_ring d ! ve_next d
      in d\<lparr>ve_ring := (ve_ring d)[ve_next d := map (\<lambda>a. ucast (s_div a m)) (take n (ve_acc d)) @ drop n slot],
           ve_acc := map (\<lambda>_. 0) (take n (ve_acc d)) @ drop n (ve_acc d),
           ve_acc_n := 0, ve_next := (ve_next d + 1) mod N,
           ve_filled := (if ve_filled d < N then ve_filled d + 1 else ve_filled d),
           ve_since_update := ve_since_update d + 1\<rparr>)"

definition estimator_push ::
  "(i16 list \<Rightarrow> i16 list \<Rightarrow> i64) \<Rightarrow> (i16 list \<Rightarrow> i64) \<Rightarrow> nat \<Rightarrow> estimator \<Rightarrow> features \<Rightarrow> micros \<Rightarrow> vitals option \<times> estimator" where
  "estimator_push dot sumsq N d f now =
     (let n = min (unat (ft_count f)) MAX_SUBCARRIERS in
      if n = 0 then (None, d)
      else
        let d = (if ve_count d \<noteq> 0 \<and> ft_count f \<noteq> ve_count d then estimator_reset d else d);
            d = estimator_accumulate d f
        in if ve_acc_n d < max (vc_decim (ve_config d)) 1 then (None, d)
           else
             let d = estimator_store N n d in
             if ve_filled d < N \<or> ve_since_update d < max (vc_update_every (ve_config d)) 1 then (None, d)
             else
               let d = d\<lparr>ve_since_update := 0\<rparr>; v = vitals_estimate dot sumsq N d now
               in (Some v, d\<lparr>ve_last := Some v\<rparr>))"

section \<open>The high-pass is the centred average\<close>

lemma hp_extend_eq: "hp_extend x want (r, hi) = (r + (\<Sum>j\<leftarrow>[hi..<want]. scast (x ! j)), max hi want)"
proof (induction x want "(r, hi)" arbitrary: r hi rule: hp_extend.induct)
  case (1 x want r hi)
  then show ?case
    by (simp add: hp_extend.simps[of x want r hi] upt_conv_Cons add.assoc)
qed

lemma hp_drop_eq: "hp_drop x want (r, lo) = (r - (\<Sum>j\<leftarrow>[lo..<want]. scast (x ! j)), max lo want)"
proof (induction x want "(r, lo)" arbitrary: r lo rule: hp_drop.induct)
  case (1 x want r lo)
  then show ?case
    by (simp add: hp_drop.simps[of x want r lo] upt_conv_Cons diff_diff_eq)
qed

text \<open>The indices a centred window of half-width \<open>half\<close> around \<open>i\<close> covers.\<close>

abbreviation around :: "nat \<Rightarrow> nat \<Rightarrow> nat \<Rightarrow> nat list" where
  "around n half i \<equiv> [i - half..<min (i + half + 1) n]"

lemma highpass_fold:
  assumes "m \<le> length x"
  shows "foldl (highpass_one x half) (0, 0, 0, replicate (length x) 0) [0..<m] =
    ((\<Sum>j\<leftarrow>[m - 1 - half..<(if m = 0 then 0 else min (m + half) (length x))]. scast (x ! j)), m - 1 - half,
     (if m = 0 then 0 else min (m + half) (length x)),
     map (\<lambda>i. clamp_i16 (scast (x ! i) - s_div (\<Sum>j\<leftarrow>around (length x) half i. scast (x ! j))
        (of_nat (length (around (length x) half i))))) [0..<m] @ replicate (length x - m) 0)"
  using assms
proof (induction m)
  case (Suc m)
  let ?S = "\<lambda>a b. \<Sum>j\<leftarrow>[a..<b]. scast (x ! j) :: i32"
  let ?lo = "m - 1 - half" and ?hi = "if m = 0 then 0 else min (m + half) (length x)"
  let ?wl = "m - half" and ?wh = "min (m + half + 1) (length x)"
  have ord: "?lo \<le> ?wl" "?wl \<le> ?hi" "?lo \<le> ?hi" "?hi \<le> ?wh" "?wl \<le> ?wh" "?lo \<le> ?wh"
    using Suc.prems by auto
  have split: "?S a c = ?S a b + ?S b c" if "a \<le> b" "b \<le> c" for a b c
    using that upt_add_eq_append[of a b "c - b"] by simp
  have "hp_extend x ?wh (?S ?lo ?hi, ?hi) = (?S ?lo ?wh, ?wh)"
    using split[of ?lo ?hi ?wh] ord by (simp add: hp_extend_eq)
  moreover have "hp_drop x ?wl (?S ?lo ?wh, ?lo) = (?S ?wl ?wh, ?wl)"
    using split[of ?lo ?wl ?wh] ord by (simp add: hp_drop_eq)
  moreover have "replicate (length x - m) 0 = 0 # replicate (length x - Suc m) (0 :: i16)"
    using Suc.prems by (simp add: Suc_diff_Suc[symmetric])
  ultimately show ?case
    using Suc by (simp add: highpass_one_def list_update_append)
qed simp

definition clip16 :: "int \<Rightarrow> int" where
  "clip16 v = max (- 32768) (min 32767 v)"

definition centred_average :: "int list \<Rightarrow> nat \<Rightarrow> int list" where
  "centred_average xs m =
     (let half = max (min m (length xs) div 2) 1
      in map (\<lambda>i. clip16 (xs ! i - (\<Sum>j\<leftarrow>around (length xs) half i. xs ! j) sdiv int (length (around (length xs) half i))))
           [0..<length xs])"

text \<open>
  The comment on \<open>highpass\<close> says an even \<open>m\<close> is treated as \<open>m - 1\<close>. The code takes \<open>m div 2\<close> samples on each side, so
  an even \<open>m\<close> is treated as \<open>m + 1\<close>; the two windows give different series.
\<close>

lemma even_average_is_wider:
  assumes "even m" "m < length xs"
  shows "centred_average xs m = centred_average xs (m + 1)"
proof -
  have "min m (length xs) div 2 = min (m + 1) (length xs) div 2"
    using assms by auto
  then show ?thesis
    by (simp only: centred_average_def)
qed

lemma even_average_not_narrower: "centred_average [0, 0, 0, 0, 90] 4 \<noteq> centred_average [0, 0, 0, 0, 90] (4 - 1)"
  by code_simp

lemma sint_clamp_i16: "sint (clamp_i16 v) = clip16 (sint v)"
proof -
  have c: "sint (s_clamp (- 32768) 32767 v) = clip16 (sint v)"
    by (subst sint_clamp) (simp_all add: clip16_def)
  moreover have "- (2 ^ (LENGTH(16) - 1)) \<le> clip16 (sint v)" "clip16 (sint v) < 2 ^ (LENGTH(16) - 1)"
    by (auto simp: clip16_def)
  ultimately show ?thesis
    unfolding clamp_i16_def by (subst sint_ucast_small) simp_all
qed

lemma sint_highpass:
  assumes "length x < 65536"
  shows "map sint (highpass x m) = centred_average (map sint x) m"
proof -
  let ?half = "max (min m (length x) div 2) 1"
  have "sint (scast (x ! i) - s_div (\<Sum>j\<leftarrow>around (length x) ?half i. scast (x ! j)) (of_nat (length (around (length x) ?half i))) :: i32)
      = sint (x ! i) - (\<Sum>j\<leftarrow>around (length x) ?half i. sint (x ! j)) sdiv int (length (around (length x) ?half i))"
    if i: "i < length x" for i
  proof -
    define js where "js = around (length x) ?half i"
    have l: "0 < length js" "length js < 65536"
      using i assms by (auto simp: js_def)
    have up: "sint (scast (x ! j) :: i32) = sint (x ! j)" for j
      by (rule sint_scast_up) simp
    have b: "\<bar>sint (scast (x ! j) :: i32)\<bar> \<le> 32768" for j
      using sint_i16[of "x ! j"] by (simp add: up)
    have "int (length js) * 32768 < 2 ^ 31"
      using l(2) by simp
    then have S: "sint (\<Sum>j\<leftarrow>js. scast (x ! j) :: i32) = (\<Sum>j\<leftarrow>js. sint (x ! j))"
      "\<bar>\<Sum>j\<leftarrow>js. sint (x ! j)\<bar> \<le> int (length js) * 32768"
      using sint_sum_list[of js "\<lambda>j. scast (x ! j) :: i32" 32768] b by (simp_all add: up)
    have n: "sint (of_nat (length js) :: i32) = int (length js)"
      using l(2) by (intro sint_of_nat_small) simp
    then have q: "sint (s_div (\<Sum>j\<leftarrow>js. scast (x ! j)) (of_nat (length js)) :: i32) = (\<Sum>j\<leftarrow>js. sint (x ! j)) sdiv int (length js)"
      using s_div_exact[of "of_nat (length js) :: i32" "\<Sum>j\<leftarrow>js. scast (x ! j)"] l(1) S(1) by simp
    have "\<bar>(\<Sum>j\<leftarrow>js. sint (x ! j)) sdiv int (length js)\<bar> \<le> 32768"
      using S(2) l(1) by (intro abs_sdiv_le) simp_all
    then show ?thesis
      unfolding js_def[symmetric] using sint_i16[of "x ! i"]
      by (subst sint_ring_exact(2)) (auto simp: up q abs_le_iff)
  qed
  note exact = this
  have hp: "highpass x m = map (\<lambda>i. clamp_i16 (scast (x ! i) - s_div (\<Sum>j\<leftarrow>around (length x) ?half i. scast (x ! j))
        (of_nat (length (around (length x) ?half i))))) [0..<length x]"
    by (simp only: highpass_def Let_def highpass_fold[OF le_refl] prod.case diff_self_eq_0 replicate_0 append_Nil2)
  have sums: "(\<Sum>j\<leftarrow>around (length x) ?half i. map sint x ! j) = (\<Sum>j\<leftarrow>around (length x) ?half i. sint (x ! j))" for i
    by (intro arg_cong[where f = sum_list] map_cong) auto
  show ?thesis
    unfolding hp centred_average_def Let_def map_map length_map
  proof (rule map_cong[OF refl])
    fix i
    assume "i \<in> set [0..<length x]"
    then have i: "i < length x"
      by simp
    show "(sint \<circ> (\<lambda>i. clamp_i16 (scast (x ! i) - s_div (\<Sum>j\<leftarrow>around (length x) ?half i. scast (x ! j))
        (of_nat (length (around (length x) ?half i)))))) i =
      clip16 (map sint x ! i - (\<Sum>j\<leftarrow>around (length x) ?half i. map sint x ! j) sdiv int (length (around (length x) ?half i)))"
      unfolding o_apply sint_clamp_i16 exact[OF i] sums nth_map[OF i] by (rule refl)
  qed
qed

section \<open>The curve on exact integers\<close>

text \<open>What \<open>rusty_esp_dsp\<close> documents of its two kernels: the exact inner product and sum of squares.\<close>

definition dot_ok :: "(i16 list \<Rightarrow> i16 list \<Rightarrow> i64) \<Rightarrow> bool" where
  "dot_ok dot \<longleftrightarrow> (\<forall>x y. length x = length y \<longrightarrow> length x < 65536 \<longrightarrow>
     sint (dot x y) = (\<Sum>(a, b)\<leftarrow>zip (map sint x) (map sint y). a * b))"

definition sumsq_ok :: "(i16 list \<Rightarrow> i64) \<Rightarrow> bool" where
  "sumsq_ok sumsq \<longleftrightarrow> (\<forall>x. length x < 65536 \<longrightarrow> sint (sumsq x) = (\<Sum>a\<leftarrow>map sint x. a * a))"

definition mean_removed :: "int list \<Rightarrow> int list" where
  "mean_removed xs = map (\<lambda>v. clip16 (v - sum_list xs sdiv int (length xs))) xs"

definition prepared :: "nat \<Rightarrow> int list \<Rightarrow> int list" where
  "prepared hp xs = (if hp > 1 then centred_average (mean_removed xs) hp else mean_removed xs)"

definition energy_of :: "int list \<Rightarrow> int" where
  "energy_of xs = (\<Sum>a\<leftarrow>xs. a * a)"

text \<open>The normalised autocorrelation in permille, corrected for the overlap, and its sum over subcarriers.\<close>

definition autocorrelation :: "int list \<Rightarrow> nat \<Rightarrow> int" where
  "autocorrelation xs lag =
     max (- 2000) (min 2000 ((\<Sum>(a, b)\<leftarrow>zip (take (length xs - lag) xs) (drop lag xs). a * b) * 1000 * int (length xs)
       sdiv (int (length xs - lag) * energy_of xs)))"

definition rhythmic :: "nat \<Rightarrow> int list list \<Rightarrow> int list list" where
  "rhythmic hp rows = filter (\<lambda>xs. energy_of xs > 0) (map (prepared hp) rows)"

definition curve :: "nat \<Rightarrow> int list list \<Rightarrow> nat \<Rightarrow> int" where
  "curve hp rows lag = (\<Sum>xs\<leftarrow>rhythmic hp rows. autocorrelation xs lag)"

lemma sint_centred:
  assumes "length xs < 65536"
  shows "map sint (centred xs) = mean_removed (map sint xs)"
proof (cases "xs = []")
  case False
  have up: "sint (scast v :: i64) = sint v" "sint (scast v :: i32) = sint v" for v :: i16
    by (rule sint_scast_up; simp)+
  have fold: "foldl (\<lambda>s v. s + scast v) (0 :: i64) xs = (\<Sum>v\<leftarrow>xs. scast v)"
    by (induction xs rule: rev_induct) simp_all
  have b: "\<bar>sint (scast v :: i64)\<bar> \<le> 32768" for v :: i16
    using sint_i16[of v] by (simp add: up)
  have "int (length xs) * 32768 < 2 ^ 63"
    using assms by simp
  then have S: "sint (\<Sum>v\<leftarrow>xs. scast v :: i64) = sum_list (map sint xs)" "\<bar>sum_list (map sint xs)\<bar> \<le> int (length xs) * 32768"
    using sint_sum_list[of xs "\<lambda>v. scast v :: i64" 32768] b by (simp_all add: up)
  let ?m = "sum_list (map sint xs) sdiv int (length xs)"
  have n: "sint (of_nat (length xs) :: i64) = int (length xs)"
    using assms by (intro sint_of_nat_small) simp
  then have q: "sint (s_div (\<Sum>v\<leftarrow>xs. scast v) (of_nat (length xs)) :: i64) = ?m"
    using s_div_exact[of "of_nat (length xs) :: i64" "\<Sum>v\<leftarrow>xs. scast v"] False S(1) by simp
  have m: "\<bar>?m\<bar> \<le> 32768"
    using S(2) False by (intro abs_sdiv_le) simp_all
  have c: "sint (ucast (s_div (\<Sum>v\<leftarrow>xs. scast v) (of_nat (length xs)) :: i64) :: i32) = ?m"
    using q m by (subst sint_ucast_small) (auto simp: abs_le_iff)
  have "sint (scast v - ucast (s_div (\<Sum>v\<leftarrow>xs. scast v) (of_nat (length xs)) :: i64) :: i32) = sint v - ?m" for v :: i16
    using m sint_i16[of v] by (subst sint_ring_exact(2)) (auto simp: up c abs_le_iff)
  then show ?thesis
    by (simp add: centred_def fold mean_removed_def sint_clamp_i16 o_def)
qed (simp add: centred_def mean_removed_def)

lemma clip16_abs: "\<bar>clip16 v\<bar> \<le> 32768"
  by (simp add: clip16_def)

lemma sint_prepared:
  assumes "length xs < 65536"
  shows "map sint (if hp > 1 then highpass (centred xs) hp else centred xs) = prepared hp (map sint xs)"
proof -
  have "length (centred xs) = length xs"
    by (simp add: centred_def Let_def)
  then show ?thesis
    using assms sint_highpass[of "centred xs" hp] by (simp add: prepared_def sint_centred)
qed

lemma prepared_bounds: "length (prepared hp xs) = length xs" "a \<in> set (prepared hp xs) \<Longrightarrow> \<bar>a\<bar> \<le> 32768"
  using clip16_abs by (auto simp: prepared_def mean_removed_def centred_average_def Let_def split: if_splits)

lemma inner_product_le:
  fixes xs ys :: "int list"
  assumes "\<And>a. a \<in> set xs \<Longrightarrow> \<bar>a\<bar> \<le> 32768" and "\<And>a. a \<in> set ys \<Longrightarrow> \<bar>a\<bar> \<le> 32768"
  shows "\<bar>\<Sum>(a, b)\<leftarrow>zip xs ys. a * b\<bar> \<le> int (length (zip xs ys)) * 2 ^ 30"
  using assms
proof (induction xs ys rule: list_induct2')
  case (4 x xs y ys)
  have "\<bar>x * y\<bar> \<le> 32768 * 32768"
    unfolding abs_mult using 4(2,3) by (intro mult_mono) auto
  moreover have "\<bar>\<Sum>(a, b)\<leftarrow>zip xs ys. a * b\<bar> \<le> int (length (zip xs ys)) * 2 ^ 30"
    using 4 by simp
  ultimately show ?case
    by (simp add: abs_le_iff)
qed simp_all

lemma energy_zip: "energy_of xs = (\<Sum>(a, b)\<leftarrow>zip xs xs. a * b)"
  by (induction xs) (simp_all add: energy_of_def)

lemma energy_le:
  assumes "\<And>a. a \<in> set xs \<Longrightarrow> \<bar>a\<bar> \<le> 32768"
  shows "energy_of xs \<le> int (length xs) * 2 ^ 30"
  using inner_product_le[of xs xs] assms by (simp add: energy_zip abs_le_iff)

lemma sint_lag_rho:
  assumes "dot_ok dot" and "length x \<le> 2048" and "lag < length x" and "sint energy = energy_of (map sint x)" and "0 < sint energy"
  shows "sint (lag_rho dot x energy lag) = autocorrelation (map sint x) lag"
proof -
  let ?n = "length x" and ?xs = "map sint x"
  have b: "\<bar>a\<bar> \<le> 32768" if a: "a \<in> set ?xs" for a
  proof -
    obtain w where "a = sint (w :: i16)"
      using a by auto
    then show ?thesis
      using sint_i16[of w] by (simp add: abs_le_iff)
  qed
  define r where "r = (\<Sum>(a, b)\<leftarrow>zip (take (?n - lag) ?xs) (drop lag ?xs). a * b)"
  have "\<bar>r\<bar> \<le> int (length (zip (take (?n - lag) ?xs) (drop lag ?xs))) * 2 ^ 30"
    unfolding r_def using b by (intro inner_product_le) (auto dest: in_set_takeD in_set_dropD)
  also have "\<dots> \<le> 2 ^ 41"
    using assms(2) by simp
  finally have r: "\<bar>r\<bar> \<le> 2 ^ 41" .
  have d: "sint (dot (take (?n - lag) x) (drop lag x)) = r"
    using assms(1,2) by (simp add: dot_ok_def r_def take_map drop_map)
  have m: "sint (dot (take (?n - lag) x) (drop lag x) * 1000) = r * 1000"
    using r by (subst sint_ring_exact(3)) (auto simp: d abs_le_iff)
  have n: "sint (of_nat k :: i64) = int k" if "k \<le> 2048" for k
    using that by (intro sint_of_nat_small) simp
  have "\<bar>r * 1000 * int ?n\<bar> \<le> 2 ^ 41 * 1000 * 2048"
    unfolding abs_mult using r assms(2) by (intro mult_mono) auto
  then have num: "sint (dot (take (?n - lag) x) (drop lag x) * 1000 * of_nat ?n) = r * 1000 * int ?n"
    using n[OF assms(2)] by (subst sint_ring_exact(3)) (auto simp: m abs_le_iff)
  have E: "sint energy \<le> 2 ^ 41"
    using energy_le[of ?xs, OF b] assms(2,4) by simp
  define D where "D = int (?n - lag) * sint energy"
  have D: "0 < D" "D \<le> 2048 * 2 ^ 41"
    unfolding D_def using E assms(2,3,5) mult_mono[of "int (?n - lag)" 2048 "sint energy" "2 ^ 41"] by simp_all
  have nl: "sint (of_nat (?n - lag) :: i64) = int (?n - lag)"
    using assms(2) by (intro n) simp
  have den: "sint (of_nat (?n - lag) * energy) = D"
    using D by (subst sint_ring_exact(3)) (simp_all only: nl D_def[symmetric], simp_all)
  then have q: "sint (s_div (dot (take (?n - lag) x) (drop lag x) * 1000 * of_nat ?n) (of_nat (?n - lag) * energy)) =
      r * 1000 * int ?n sdiv D"
    using D(1) by (subst s_div_exact) (simp_all only: num den)
  then have c: "sint (s_clamp (- 2000) 2000 (s_div (dot (take (?n - lag) x) (drop lag x) * 1000 * of_nat ?n) (of_nat (?n - lag) * energy)))
      = autocorrelation ?xs lag"
    by (subst sint_clamp) (simp_all add: autocorrelation_def r_def assms(4) D_def)
  have "- 2000 \<le> autocorrelation ?xs lag" "autocorrelation ?xs lag \<le> 2000"
    by (simp_all add: autocorrelation_def)
  then show ?thesis
    unfolding lag_rho_def Let_def by (subst sint_ucast_small) (simp_all only: c, simp_all)
qed

lemma foldl_update_each:
  assumes "n \<le> length s"
  shows "foldl (\<lambda>s (i, l). s[i := s ! i + g l]) s (enumerate 0 [1..<n + 1]) = map (\<lambda>i. s ! i + g (i + 1)) [0..<n] @ drop n s"
  using assms
proof (induction n)
  case (Suc n)
  moreover have "drop n s = s ! n # drop (Suc n) s"
    using Suc.prems by (simp add: Cons_nth_drop_Suc)
  ultimately show ?case
    by (simp add: enumerate_append_eq nth_append list_update_append)
qed simp

lemma curve_le: "\<bar>curve hp rows lag\<bar> \<le> 2000 * int (length (rhythmic hp rows))"
proof -
  have "\<bar>\<Sum>xs\<leftarrow>xss. autocorrelation xs lag\<bar> \<le> 2000 * int (length xss)" for xss
    by (induction xss) (auto simp: autocorrelation_def abs_le_iff)
  then show ?thesis
    by (simp add: curve_def)
qed

text \<open>The curve after every subcarrier, and how many had a rhythm at all.\<close>

lemma add_subcarriers:
  assumes "dot_ok dot" and "sumsq_ok sumsq" and "list_all (\<lambda>xs. length xs = N) rows" and "N \<le> 2048" and "hi < N"
    and "hi \<le> MAX_LAGS" and "length rows \<le> MAX_SUBCARRIERS"
  shows "let (summed, used) = foldl (add_subcarrier dot sumsq hp hi) (replicate MAX_LAGS 0, 0) rows;
      ints = map (map sint) rows
    in length summed = MAX_LAGS \<and> unat used = length (rhythmic hp ints) \<and>
      (\<forall>lag. 1 \<le> lag \<and> lag \<le> hi \<longrightarrow> sint (summed ! (lag - 1)) = curve hp ints lag)"
  using assms(3,7)
proof (induction rows rule: rev_induct)
  case Nil
  then show ?case
    using assms(6) by (auto simp: rhythmic_def curve_def)
next
  case (snoc xs rows)
  let ?ints = "map (map sint) rows"
  obtain summed used where st: "foldl (add_subcarrier dot sumsq hp hi) (replicate MAX_LAGS 0, 0) rows = (summed, used)"
    by (cases "foldl (add_subcarrier dot sumsq hp hi) (replicate MAX_LAGS 0, 0) rows") auto
  have IH: "length summed = MAX_LAGS" "unat used = length (rhythmic hp ?ints)"
    "\<And>lag. 1 \<le> lag \<Longrightarrow> lag \<le> hi \<Longrightarrow> sint (summed ! (lag - 1)) = curve hp ?ints lag"
    using snoc by (auto simp: st Let_def)
  define x where "x = (if hp > 1 then highpass (centred xs) hp else centred xs)"
  have xs: "length xs = N"
    using snoc.prems by simp
  then have ix: "map sint x = prepared hp (map sint xs)"
    unfolding x_def using assms(4) by (intro sint_prepared) simp
  then have lx: "length x = N"
    using xs prepared_bounds(1)[of hp "map sint xs"] by (metis length_map)
  then have e: "sint (sumsq x) = energy_of (prepared hp (map sint xs))"
    using assms(2,4) unfolding sumsq_ok_def energy_of_def ix[symmetric] by simp
  have rows: "rhythmic hp (map (map sint) (rows @ [xs])) =
      rhythmic hp ?ints @ (if energy_of (prepared hp (map sint xs)) > 0 then [prepared hp (map sint xs)] else [])"
    by (simp add: rhythmic_def)
  have few: "length (rhythmic hp ?ints) < 64"
    unfolding rhythmic_def using snoc.prems by (intro le_less_trans[OF length_filter_le]) (simp add: MAX_SUBCARRIERS_def)
  have step: "add_subcarrier dot sumsq hp hi (summed, used) xs = (if sint (sumsq x) \<le> 0 then (summed, used)
      else (foldl (\<lambda>s (i, lag). s[i := s ! i + lag_rho dot x (sumsq x) lag]) summed (enumerate 0 [1..<hi + 1]), used + 1))"
    by (simp only: add_subcarrier_def x_def[symmetric] prod.case Let_def)
  show ?case
  proof (cases "sint (sumsq x) \<le> 0")
    case True
    then show ?thesis
      using IH rows e by (simp add: st step curve_def)
  next
    case False
    have rho: "sint (lag_rho dot x (sumsq x) lag) = autocorrelation (prepared hp (map sint xs)) lag" if "lag \<le> hi" for lag
      using that assms(1,4,5) lx False by (subst sint_lag_rho) (simp_all add: ix e)
    let ?g = "\<lambda>lag. lag_rho dot x (sumsq x) lag"
    define summed' where "summed' = map (\<lambda>i. summed ! i + ?g (i + 1)) [0..<hi] @ drop hi summed"
    have fold: "foldl (add_subcarrier dot sumsq hp hi) (replicate MAX_LAGS 0, 0) (rows @ [xs]) = (summed', used + 1)"
      using False assms(6) IH(1) foldl_update_each[of hi summed ?g]
      by (simp add: st step summed'_def)
    have add: "rhythmic hp (map (map sint) (rows @ [xs])) = rhythmic hp ?ints @ [prepared hp (map sint xs)]"
      using rows False by (simp add: e)
    have "sint (summed' ! (lag - 1)) = curve hp (map (map sint) (rows @ [xs])) lag" if lag: "1 \<le> lag" "lag \<le> hi" for lag
    proof -
      have "\<bar>curve hp ?ints lag\<bar> \<le> 128000" "\<bar>autocorrelation (prepared hp (map sint xs)) lag\<bar> \<le> 2000"
        using curve_le[of hp ?ints lag] few by (auto simp: autocorrelation_def)
      then have "sint (summed ! (lag - 1) + ?g lag) = curve hp ?ints lag + autocorrelation (prepared hp (map sint xs)) lag"
        using IH(3)[OF lag] rho[OF lag(2)] by (subst sint_ring_exact(1)) (auto simp: abs_le_iff)
      moreover have "summed' ! (lag - 1) = summed ! (lag - 1) + ?g lag"
      proof -
        have "lag - 1 < hi" "lag - 1 + 1 = lag"
          using lag by simp_all
        then show ?thesis
          by (simp add: summed'_def nth_append)
      qed
      ultimately show ?thesis
        unfolding curve_def add by simp
    qed
    moreover have "length summed' = MAX_LAGS"
      using IH(1) assms(6) by (simp add: summed'_def)
    moreover have "unat (used + 1) = length (rhythmic hp (map (map sint) (rows @ [xs])))"
      using IH(2) few unfolding add by (subst unat_add_lem[THEN iffD1]) simp_all
    ultimately show ?thesis
      by (simp only: fold Let_def prod.case) simp
  qed
qed

section \<open>The first significant peak\<close>

text \<open>
  A lag is significant when its value is within fifteen percent of the highest from lag 2 up and neither
  neighbour is above it.
\<close>

definition significant :: "(nat \<Rightarrow> int) \<Rightarrow> nat \<Rightarrow> nat \<Rightarrow> bool" where
  "significant c hi lag =
     (let top = Max (c ` {2..hi})
      in c lag \<ge> (if top > 0 then top - top * 15 div 100 else top) \<and> c lag \<ge> c (lag - 1) \<and> c lag \<ge> c (lag + 1))"

lemma sint_foldl_max: "sint (foldl (\<lambda>g lag. s_max g (f lag)) g xs) = Max (insert (sint g) ((\<lambda>lag. sint (f lag)) ` set xs))"
proof (induction xs rule: rev_induct)
  case (snoc x xs)
  have "sint (s_max a b) = max (sint a) (sint b)" for a b :: "'a word"
    by (auto simp: s_max_def)
  then show ?case
    using snoc by (simp add: insert_commute[of "sint g"] max.commute)
qed simp

lemma find_first:
  assumes "P l" and "l \<in> set xs" and "\<And>k. k \<in> set xs \<Longrightarrow> k < l \<Longrightarrow> \<not> P k" and "sorted xs"
  shows "List.find P xs = Some (l :: nat)"
  using assms
proof (induction xs)
  case (Cons x xs)
  then show ?case
    by (cases "x = l") (auto simp: le_less)
qed simp

lemma pick_first:
  fixes summed :: "i32 list"
  assumes "2 \<le> hi" and "\<And>lag. 2 \<le> lag \<Longrightarrow> lag \<le> hi \<Longrightarrow> \<bar>c lag\<bar> \<le> 2 ^ 24" and "2 \<le> best" "best \<le> hi"
    and "significant c hi best" and "\<And>lag. 2 \<le> lag \<Longrightarrow> lag < best \<Longrightarrow> \<not> significant c hi lag"
    and c_def: "c = (\<lambda>lag. sint (summed ! (lag - 1)))"
  shows "pick_peak summed lo hi = (best, summed ! (best - 1))"
proof -
  let ?lags = "[2..<hi + 1]"
  define g where "g = foldl (\<lambda>g lag. s_max g (summed ! (lag - 1))) I32_MIN ?lags"
  have lags: "set ?lags = {2..hi}"
    by auto
  have ne: "{2..hi} \<noteq> {}"
    using assms(1) by simp
  have top: "Max (c ` {2..hi}) \<in> c ` {2..hi}"
    using ne by (intro Max_in) auto
  then have tb: "\<bar>Max (c ` {2..hi})\<bar> \<le> 2 ^ 24"
    using assms(2) by auto
  have "sint I32_MIN = - (2 ^ 31)"
    by (simp add: I32_MIN_def)
  then have g: "sint g = Max (c ` {2..hi})"
    using ne tb unfolding g_def sint_foldl_max lags by (simp add: c_def)
  define fl where "fl = (if sint g > 0 then g - s_div (g * 15) 100 else g)"
  have fl: "sint fl = (if Max (c ` {2..hi}) > 0 then Max (c ` {2..hi}) - Max (c ` {2..hi}) * 15 div 100 else Max (c ` {2..hi}))"
  proof (cases "sint g > 0")
    case True
    then have m: "sint (g * 15) = sint g * 15"
      using tb by (subst sint_ring_exact(3)) (simp_all add: g)
    then have q: "sint (s_div (g * 15) 100) = sint g * 15 div 100"
      using s_div_exact[of "100 :: i32" "g * 15"] True by (simp add: signed_divide_int_def)
    have "0 \<le> sint g * 15 div 100" "sint g * 15 div 100 \<le> sint g"
      using True by simp_all
    then have "sint (g - s_div (g * 15) 100) = sint g - sint g * 15 div 100"
      using tb by (subst sint_ring_exact(2)) (simp_all add: q g)
    then show ?thesis
      using True by (simp add: fl_def g)
  qed (simp add: fl_def g)
  have sig: "(sint (summed ! (lag - 1)) \<ge> sint fl \<and> sint (summed ! (lag - 1)) \<ge> sint (summed ! (lag - 2)) \<and>
      sint (summed ! (lag - 1)) \<ge> sint (summed ! lag)) = significant c hi lag" for lag
    by (simp add: significant_def Let_def fl c_def numeral_2_eq_2)
  have "List.find (significant c hi) ?lags = Some best"
    using assms(3-6) by (intro find_first) (auto simp del: upt_Suc)
  moreover have "summed ! (best - 1) \<noteq> I32_MIN"
    using assms(2)[OF assms(3,4)] \<open>sint I32_MIN = - (2 ^ 31)\<close> by (auto simp: c_def)
  ultimately show ?thesis
    unfolding pick_peak_def Let_def g_def[symmetric] fl_def[symmetric] sig by simp
qed

lemma refined_lag_near:
  assumes "2 \<le> best" and "best < 2 ^ 20"
  shows "16 * best \<le> unat (refined_lag summed best) + 8" "unat (refined_lag summed best) \<le> 16 * best + 8"
proof -
  define d :: i32 where "d = (let a = summed ! (best - 2); b = summed ! (best - 1); c = summed ! best; denom = a - 2 * b + c
    in if sint denom < 0 then s_clamp (- 8) 8 (s_div ((a - c) * 8) denom) else 0)"
  have d: "- 8 \<le> sint d" "sint d \<le> 8"
    by (auto simp: d_def Let_def sint_clamp)
  have "sint (of_nat (best * 16) :: i32) = int (best * 16)"
    using assms(2) by (intro sint_of_nat_small) simp
  then have b: "sint (of_nat best * 16 :: i32) = int best * 16"
    by simp
  then have sum: "sint (of_nat best * 16 + d) = int best * 16 + sint d"
    using d assms by (subst sint_ring_exact(1)) simp_all
  moreover have "refined_lag summed best = s_max (of_nat best * 16 + d) 16"
    by (simp only: refined_lag_def d_def Let_def)
  ultimately have r: "refined_lag summed best = of_nat best * 16 + d"
    using d assms(1) by (auto simp: s_max_def)
  then have "int (unat (refined_lag summed best)) = int best * 16 + sint d"
    using sint_nonneg[of "refined_lag summed best"] sum d assms(1) by simp
  then show "16 * best \<le> unat (refined_lag summed best) + 8" "unat (refined_lag summed best) \<le> 16 * best + 8"
    using d by linarith+
qed

lemma confidence_clamped:
  "unat (ucast (s_clamp 0 1000 v :: i32) :: u16) = nat (max 0 (min 1000 (sint v)))"
proof -
  have s: "sint (s_clamp 0 1000 v) = max 0 (min 1000 (sint v))"
    by (subst sint_clamp) simp_all
  then have "int (unat (s_clamp 0 1000 v)) = max 0 (min 1000 (sint v))"
    using sint_nonneg[of "s_clamp 0 1000 v"] by simp
  then have u: "unat (s_clamp 0 1000 v) = nat (max 0 (min 1000 (sint v)))"
    by linarith
  then show ?thesis
    by (subst unat_ucast_down) simp_all
qed

text \<open>Every branch of the estimate: nothing, or what the curve says.\<close>

lemma estimate_eq:
  assumes "band_lags (vc_band (ve_config d)) (vc_rate_hz (ve_config d)) = (lo, hi0)" and "hi = min hi0 (N - 2)"
    and "foldl (add_subcarrier dot sumsq (unat (vc_highpass (ve_config d))) (hi + 1))
        (replicate MAX_LAGS 0, 0) (map (series N d) [0..<min (unat (ve_count d)) MAX_SUBCARRIERS]) = (summed, used)"
    and "lo < hi" and "0 < unat (ve_count d)" and "hi < MAX_LAGS" and "used \<noteq> 0"
  shows "vitals_estimate dot sumsq N d now = vitals_of_curve (ve_config d) summed used lo hi now"
proof -
  have c: "min (hi + 1) (N - 1) = hi + 1" "\<not> (lo \<ge> hi \<or> min (unat (ve_count d)) MAX_SUBCARRIERS = 0)"
    "\<not> hi + 1 > MAX_LAGS"
    using assms(2,4-6) by (auto simp: MAX_SUBCARRIERS_def)
  show ?thesis
    by (simp only: vitals_estimate_def assms(1) assms(2)[symmetric] Let_def prod.case c assms(3,7) if_False)
qed

lemma estimate_cases:
  assumes "band_lags (vc_band (ve_config d)) (vc_rate_hz (ve_config d)) = (lo, hi0)" and "hi = min hi0 (N - 2)"
  obtains "vitals_estimate dot sumsq N d now = no_vitals now"
  | summed used where "lo < hi" "hi < MAX_LAGS" "used \<noteq> 0"
      "vitals_estimate dot sumsq N d now = vitals_of_curve (ve_config d) summed used lo hi now"
proof -
  obtain summed used where st: "foldl (add_subcarrier dot sumsq (unat (vc_highpass (ve_config d))) (hi + 1))
        (replicate MAX_LAGS 0, 0) (map (series N d) [0..<min (unat (ve_count d)) MAX_SUBCARRIERS]) = (summed, used)"
    by (meson surj_pair)
  show thesis
  proof (cases "lo \<ge> hi \<or> unat (ve_count d) = 0 \<or> hi \<ge> MAX_LAGS \<or> used = 0")
    case True
    have "min (hi + 1) (N - 1) = hi + 1" if "lo < hi"
      using that assms(2) by auto
    then have "vitals_estimate dot sumsq N d now = no_vitals now"
      using True st unfolding vitals_estimate_def assms(1) assms(2)[symmetric] Let_def prod.case by auto
    then show ?thesis
      by (rule that(1))
  next
    case False
    then show ?thesis
      using estimate_eq[OF assms st] by (intro that(2)[of used summed]) simp_all
  qed
qed

text \<open>The samples an estimator holds of each subcarrier, oldest first.\<close>

definition held_rows :: "nat \<Rightarrow> estimator \<Rightarrow> int list list" where
  "held_rows N d = map (\<lambda>sc. map (\<lambda>row. sint (row ! sc)) (window N (ve_filled d) (ve_next d) (ve_ring d)))
     [0..<min (unat (ve_count d)) MAX_SUBCARRIERS]"

lemma series_window:
  assumes "window_ok N (ve_filled d) (ve_next d) (ve_ring d)" and "ve_filled d = N"
  shows "series N d sc = map (\<lambda>row. row ! sc) (window N (ve_filled d) (ve_next d) (ve_ring d))"
proof -
  let ?n = "ve_next d"
  have r: "length (ve_ring d) = N" "?n < N"
    using assms(1) by (simp_all add: window_ok_def)
  have "map (\<lambda>f. ve_ring d ! ((?n + f) mod N)) [0..<N] = drop ?n (ve_ring d) @ take ?n (ve_ring d)"
  proof (rule nth_equalityI)
    fix i
    assume "i < length (map (\<lambda>f. ve_ring d ! ((?n + f) mod N)) [0..<N])"
    then have "i < N"
      by simp
    then show "map (\<lambda>f. ve_ring d ! ((?n + f) mod N)) [0..<N] ! i = (drop ?n (ve_ring d) @ take ?n (ve_ring d)) ! i"
      using r by (cases "?n + i < N") (auto simp: nth_append mod_if add.commute)
  qed (use r in simp)
  then have "map (\<lambda>row. row ! sc) (map (\<lambda>f. ve_ring d ! ((?n + f) mod N)) [0..<N]) =
      map (\<lambda>row. row ! sc) (drop ?n (ve_ring d) @ take ?n (ve_ring d))"
    by (rule arg_cong)
  then show ?thesis
    using assms(2) by (simp add: series_def window_def o_def)
qed

lemma rate_of_lag:
  fixes rate lag :: u32
  assumes "unat rate < 2 ^ 18" and "unat lag < 2 ^ 12" and "0 < unat lag"
  shows "unat (ucast (min ((9600 * rate + lag div 2) div lag) 65535) :: u16) =
    min ((9600 * unat rate + unat lag div 2) div unat lag) 65535"
proof -
  have "unat (9600 * rate) = 9600 * unat rate"
    using assms(1) by (subst unat_mult_lem[THEN iffD1]) simp_all
  then have "unat (9600 * rate + lag div 2) = 9600 * unat rate + unat lag div 2"
    using assms(1,2) by (subst unat_add_lem[THEN iffD1]) (simp_all add: unat_div)
  then have "unat ((9600 * rate + lag div 2) div lag) = (9600 * unat rate + unat lag div 2) div unat lag"
    by (simp add: unat_div)
  then have "unat (min ((9600 * rate + lag div 2) div lag) 65535) = min ((9600 * unat rate + unat lag div 2) div unat lag) 65535"
    by (simp add: min_def word_le_nat_alt)
  then show ?thesis
    by (subst unat_ucast_down) simp_all
qed

lemma estimate_at_peak:
  fixes d :: estimator and N :: nat
  defines "cfg \<equiv> ve_config d"
  defines "c \<equiv> curve (unat (vc_highpass cfg)) (held_rows N d)" and "moving \<equiv> rhythmic (unat (vc_highpass cfg)) (held_rows N d)"
  assumes "dot_ok dot" and "sumsq_ok sumsq" and "window_ok N (ve_filled d) (ve_next d) (ve_ring d)" and "ve_filled d = N"
    and "N \<le> 2048" and "unat (vc_rate_hz cfg) < 2 ^ 18" and "0 < unat (ve_count d)" and "moving \<noteq> []"
    and "band_lags (vc_band cfg) (vc_rate_hz cfg) = (lo, hi0)" and "hi = min hi0 (N - 2)" and "lo < hi" and "hi < MAX_LAGS"
    and "2 \<le> best" and "best \<le> hi" and "significant c hi best" and "\<And>lag. 2 \<le> lag \<Longrightarrow> lag < best \<Longrightarrow> \<not> significant c hi lag"
  obtains summed used where "vitals_estimate dot sumsq N d now = vitals_of_curve cfg summed used lo hi now"
    "pick_peak summed lo hi = (best, summed ! (best - 1))"
    "sint (s_div (summed ! (best - 1)) used) = c best sdiv int (length moving)"
proof -
  let ?hp = "unat (vc_highpass cfg)"
  let ?rows = "map (series N d) [0..<min (unat (ve_count d)) MAX_SUBCARRIERS]"
  have rows: "map (map sint) ?rows = held_rows N d"
    using series_window[OF assms(6,7)] by (simp add: held_rows_def o_def)
  obtain summed used where st: "foldl (add_subcarrier dot sumsq ?hp (hi + 1)) (replicate MAX_LAGS 0, 0) ?rows = (summed, used)"
    by (meson surj_pair)
  have "hi + 1 < N" "hi + 1 \<le> MAX_LAGS"
    using assms(13-15) by auto
  moreover have "list_all (\<lambda>xs. length xs = N) ?rows"
    by (auto simp: list_all_iff series_def)
  ultimately have sums: "unat used = length moving" "\<And>lag. 1 \<le> lag \<Longrightarrow> lag \<le> hi + 1 \<Longrightarrow> sint (summed ! (lag - 1)) = c lag"
    using add_subcarriers[OF assms(4,5) _ assms(8), of ?rows "hi + 1" ?hp] rows st
    by (auto simp: Let_def moving_def c_def)
  have few: "length moving \<le> 64"
    unfolding moving_def rhythmic_def by (intro order_trans[OF length_filter_le]) (simp add: held_rows_def MAX_SUBCARRIERS_def)
  have cb: "\<bar>c lag\<bar> \<le> 2 ^ 24" for lag
    using curve_le[of ?hp "held_rows N d" lag] few by (simp add: c_def moving_def)
  define m where "m = (\<lambda>lag. sint (summed ! (lag - 1)))"
  have hi: "2 \<le> hi"
    using assms(16,17) by simp
  have m: "m lag = c lag" if "1 \<le> lag" "lag \<le> hi + 1" for lag
    using sums(2)[OF that] by (simp add: m_def)
  have "m ` {2..hi} = c ` {2..hi}"
    using m by (intro image_cong) auto
  then have sig: "significant m hi lag = significant c hi lag" if "2 \<le> lag" "lag \<le> hi" for lag
    using that m[of lag] m[of "lag - 1"] m[of "lag + 1"] by (simp add: significant_def)
  have pick: "pick_peak summed lo hi = (best, summed ! (best - 1))"
  proof (rule pick_first[OF hi _ assms(16,17) _ _ m_def])
    show "\<bar>m lag\<bar> \<le> 2 ^ 24" if "2 \<le> lag" "lag \<le> hi" for lag
      using m[of lag] cb[of lag] that by simp
    show "significant m hi best"
      using sig assms(16-18) by simp
    show "\<not> significant m hi lag" if "2 \<le> lag" "lag < best" for lag
      using sig[of lag] assms(17,19) that by simp
  qed
  have v: "vitals_estimate dot sumsq N d now = vitals_of_curve cfg summed used lo hi now"
    using estimate_eq[OF assms(12)[unfolded cfg_def] assms(13) st[unfolded cfg_def] assms(14,10,15)] sums(1) assms(11)
    unfolding cfg_def by (metis length_0_conv unat_0)
  have mean: "sint (s_div (summed ! (best - 1)) used) = c best sdiv int (length moving)"
  proof -
    have "sint used = int (length moving)"
      using sint_small[of used] sums(1) few by simp
    then show ?thesis
      using s_div_exact[of used "summed ! (best - 1)"] sums(2)[of best] assms(11,16,17) by simp
  qed
  show thesis
    by (rule that[OF v pick mean])
qed

text \<open>C11: An estimate is read off the first significant peak. With every sample held, take the exact normalised
  autocorrelation summed over the subcarriers that move at all. If \<open>best\<close> is the first lag from 2 whose value is
  within fifteen percent of the highest and no lower than its neighbours, the estimate's lag is within half a
  sample of it, its confidence is the mean value there clamped to a permille, its rate is the rounded quotient
  600 rate / lag in tenths per minute, and it is accepted exactly when the peak is strictly inside the band and
  the confidence reaches the configured one. No 32- or 64-bit operation on the way wraps. The moving average taken
  off first spans \<open>m div 2\<close> samples on each side of its own, so an even \<open>m\<close> counts as \<open>m + 1\<close>, not as the \<open>m - 1\<close> of
  the code's comment (lemmas \<open>even_average_is_wider\<close>, \<open>even_average_not_narrower\<close>).\<close>

theorem vitals_read_first_peak:
  fixes d :: estimator and N :: nat
  defines "cfg \<equiv> ve_config d"
  defines "c \<equiv> curve (unat (vc_highpass cfg)) (held_rows N d)" and "moving \<equiv> rhythmic (unat (vc_highpass cfg)) (held_rows N d)"
  assumes "dot_ok dot" and "sumsq_ok sumsq" and "window_ok N (ve_filled d) (ve_next d) (ve_ring d)" and "ve_filled d = N"
    and "N \<le> 2048" and "unat (vc_rate_hz cfg) < 2 ^ 18" and "0 < unat (ve_count d)" and "moving \<noteq> []"
    and "band_lags (vc_band cfg) (vc_rate_hz cfg) = (lo, hi0)" and "hi = min hi0 (N - 2)" and "lo < hi" and "hi < MAX_LAGS"
    and "2 \<le> best" and "best \<le> hi" and "significant c hi best" and "\<And>lag. 2 \<le> lag \<Longrightarrow> lag < best \<Longrightarrow> \<not> significant c hi lag"
  shows "let v = vitals_estimate dot sumsq N d now; lag = unat (vt_lag_x16 v); confidence = unat (vt_confidence v) in
    16 * best \<le> lag + 8 \<and> lag \<le> 16 * best + 8 \<and>
    confidence = nat (max 0 (min 1000 (c best sdiv int (length moving)))) \<and>
    unat (vt_bpm_x10 v) = min ((9600 * unat (vc_rate_hz cfg) + lag div 2) div lag) 65535 \<and>
    vt_accepted v = (lo < best \<and> best < hi \<and> unat (vc_accept_permille cfg) \<le> confidence)"
proof -
  obtain summed used where v: "vitals_estimate dot sumsq N d now = vitals_of_curve cfg summed used lo hi now"
    "pick_peak summed lo hi = (best, summed ! (best - 1))"
    "sint (s_div (summed ! (best - 1)) used) = c best sdiv int (length moving)"
    unfolding cfg_def c_def moving_def by (rule estimate_at_peak[OF assms(4-19)[unfolded cfg_def c_def moving_def]])
  have "best < 2 ^ 20"
    using assms(15,17) by (simp add: MAX_LAGS_def)
  note near = refined_lag_near[OF assms(16) this, of summed]
  have "unat (refined_lag summed best) < 2 ^ 12" "0 < unat (refined_lag summed best)"
    using near assms(15-17) by (simp_all add: MAX_LAGS_def)
  then show ?thesis
    using v near rate_of_lag[OF assms(9), of "refined_lag summed best"]
    by (simp add: vitals_of_curve_def Let_def confidence_clamped word_le_nat_alt)
qed

lemma vitals_accepted_inside:
  assumes "band_lags (vc_band (ve_config d)) (vc_rate_hz (ve_config d)) = (lo, hi0)"
    and "vt_accepted (vitals_estimate dot sumsq N d now)"
  shows "16 * lo + 8 \<le> unat (vt_lag_x16 (vitals_estimate dot sumsq N d now)) \<and>
    unat (vt_lag_x16 (vitals_estimate dot sumsq N d now)) + 8 \<le> 16 * min hi0 (N - 2) \<and>
    vc_accept_permille (ve_config d) \<le> vt_confidence (vitals_estimate dot sumsq N d now) \<and>
    unat (vt_confidence (vitals_estimate dot sumsq N d now)) \<le> 1000"
proof -
  let ?hi = "min hi0 (N - 2)"
  have lo: "2 \<le> lo"
    using assms(1) by (auto simp: band_lags_def Let_def word_less_nat_alt split: if_splits)
  show ?thesis
  proof (rule estimate_cases[OF assms(1) refl, of dot sumsq N now])
    assume "vitals_estimate dot sumsq N d now = no_vitals now"
    then show ?thesis
      using assms(2) by (simp add: no_vitals_def)
  next
    fix summed used
    assume hi: "?hi < MAX_LAGS" and v: "vitals_estimate dot sumsq N d now = vitals_of_curve (ve_config d) summed used lo ?hi now"
    obtain best best_v where p: "pick_peak summed lo ?hi = (best, best_v)"
      by (meson surj_pair)
    have inside: "lo < best" "best < ?hi"
      using assms(2) by (auto simp: v vitals_of_curve_def p Let_def)
    then have "2 \<le> best" "best < 2 ^ 20"
      using lo hi by (auto simp: MAX_LAGS_def)
    note near = refined_lag_near[OF this, of summed]
    have "unat (refined_lag summed best) + 8 \<le> 16 * ?hi" "16 * lo + 8 \<le> unat (refined_lag summed best)"
      using near inside by linarith+
    moreover have "nat (max 0 (min 1000 z)) \<le> 1000" for z
      by simp
    ultimately show ?thesis
      using assms(2) by (simp add: v vitals_of_curve_def p Let_def confidence_clamped)
  qed
qed

section \<open>Blocks of frames\<close>

definition begin_block :: "estimator \<Rightarrow> u8 \<Rightarrow> estimator" where
  "begin_block d n = (if ve_count d \<noteq> 0 \<and> n \<noteq> ve_count d then estimator_reset d else d)"

definition gathered :: "estimator \<Rightarrow> u8 \<Rightarrow> features list \<Rightarrow> estimator" where
  "gathered d n fs = (begin_block d n)\<lparr>ve_count := n,
     ve_acc := map (\<lambda>i. \<Sum>f\<leftarrow>fs. ucast (ft_amplitude f ! i)) [0..<unat n] @ replicate (MAX_SUBCARRIERS - unat n) 0,
     ve_acc_n := of_nat (length fs)\<rparr>"

definition estimator_clean :: "estimator \<Rightarrow> bool" where
  "estimator_clean d \<longleftrightarrow> ve_acc d = replicate MAX_SUBCARRIERS 0 \<and> ve_acc_n d = 0"

lemma gather_step:
  assumes "estimator_clean d" and "features_ok f" and "ft_count f = n"
  shows "estimator_accumulate (if fs = [] then begin_block d n else gathered d n fs) f = gathered d n (fs @ [f])"
proof -
  have n: "unat n \<le> MAX_SUBCARRIERS" "length (ft_amplitude f) = MAX_SUBCARRIERS"
    using assms(2,3) by (auto simp: features_ok_def)
  have "map2 (\<lambda>a v. a + ucast v) (map g [0..<unat n]) (take (unat n) (ft_amplitude f)) =
      map (\<lambda>i. g i + ucast (ft_amplitude f ! i)) [0..<unat n]" for g :: "nat \<Rightarrow> i32"
    using n by (intro nth_equalityI) auto
  moreover have "map2 (\<lambda>a v. a + ucast v) (replicate (unat n) (0 :: i32)) (take (unat n) (ft_amplitude f)) =
      map (\<lambda>i. ucast (ft_amplitude f ! i)) [0..<unat n]"
    using n by (intro nth_equalityI) auto
  moreover have "ve_acc (begin_block d n) = replicate MAX_SUBCARRIERS 0" "ve_acc_n (begin_block d n) = 0"
    using assms(1) by (simp_all add: begin_block_def estimator_clean_def estimator_reset_def)
  ultimately show ?thesis
    using n assms(3) by (auto simp: estimator_accumulate_def gathered_def min_absorb1 Let_def)
qed

text \<open>What follows a stored sample: perhaps an estimate, never a change of the window.\<close>

definition settle ::
  "(i16 list \<Rightarrow> i16 list \<Rightarrow> i64) \<Rightarrow> (i16 list \<Rightarrow> i64) \<Rightarrow> nat \<Rightarrow> estimator \<Rightarrow> micros \<Rightarrow> estimator" where
  "settle dot sumsq N d now =
     (if ve_filled d < N \<or> ve_since_update d < max (vc_update_every (ve_config d)) 1 then d
      else d\<lparr>ve_since_update := 0, ve_last := Some (vitals_estimate dot sumsq N (d\<lparr>ve_since_update := 0\<rparr>) now)\<rparr>)"

lemma settle_keeps:
  "ve_ring (settle dot sumsq N d now) = ve_ring d" "ve_next (settle dot sumsq N d now) = ve_next d"
  "ve_filled (settle dot sumsq N d now) = ve_filled d" "ve_count (settle dot sumsq N d now) = ve_count d"
  "ve_config (settle dot sumsq N d now) = ve_config d" "ve_acc (settle dot sumsq N d now) = ve_acc d"
  "ve_acc_n (settle dot sumsq N d now) = ve_acc_n d"
  by (simp_all add: settle_def)

lemma push_gathered:
  fixes fs :: "features list"
  assumes "estimator_clean d" and "features_ok f" and "ft_count f = n" and "n \<noteq> 0"
  defines "g \<equiv> gathered d n (fs @ [f])"
  shows "snd (estimator_push dot sumsq N (if fs = [] then d else gathered d n fs) f now) =
    (if of_nat (length fs + 1) < max (vc_decim (ve_config d)) 1 then g
     else settle dot sumsq N (estimator_store N (unat n) g) now)"
proof -
  have n: "min (unat n) MAX_SUBCARRIERS = unat n" "unat n \<noteq> 0"
    using assms(2-4) by (auto simp: features_ok_def unat_eq_0)
  have b: "begin_block (if fs = [] then d else gathered d n fs) n = (if fs = [] then begin_block d n else gathered d n fs)"
    by (simp add: begin_block_def gathered_def)
  have a: "ve_acc_n g = of_nat (length fs + 1)" "ve_config g = ve_config d"
    by (simp_all add: g_def gathered_def begin_block_def estimator_reset_def)
  have push: "snd (estimator_push dot sumsq N s f now) =
    (let e = estimator_accumulate (begin_block s n) f
     in if ve_acc_n e < max (vc_decim (ve_config e)) 1 then e else settle dot sumsq N (estimator_store N (unat n) e) now)" for s
    using n assms(3) by (simp add: estimator_push_def begin_block_def settle_def Let_def)
  show ?thesis
    unfolding push b gather_step[OF assms(1-3)] Let_def g_def[symmetric] a by (rule refl)
qed

definition estimator_run ::
  "(i16 list \<Rightarrow> i16 list \<Rightarrow> i64) \<Rightarrow> (i16 list \<Rightarrow> i64) \<Rightarrow> nat \<Rightarrow> estimator \<Rightarrow> (features \<times> micros) list \<Rightarrow> estimator" where
  "estimator_run dot sumsq N = foldl (\<lambda>d (f, now). snd (estimator_push dot sumsq N d f now))"

text \<open>A block: one frame for each of the decimation's, all of one subcarrier count.\<close>

definition block_count :: "(features \<times> micros) list \<Rightarrow> u8" where
  "block_count block = ft_count (fst (hd block))"

definition block_ok :: "u16 \<Rightarrow> (features \<times> micros) list \<Rightarrow> bool" where
  "block_ok decim block \<longleftrightarrow> length block = unat (max decim 1) \<and>
     list_all (\<lambda>(f, now). features_ok f \<and> ft_count f = block_count block \<and> (\<forall>a\<in>set (ft_amplitude f). a < 32768)) block \<and>
     block_count block \<noteq> 0"

definition block_means :: "(features \<times> micros) list \<Rightarrow> int list" where
  "block_means block = map (\<lambda>i. (\<Sum>(f, now)\<leftarrow>block. int (unat (ft_amplitude f ! i))) div int (length block))
     [0..<unat (block_count block)]"

lemma run_gathered:
  assumes "estimator_clean d" and "n \<noteq> 0" and "list_all (\<lambda>(f, now). features_ok f \<and> ft_count f = n) block"
    and "length block < unat (max (vc_decim (ve_config d)) 1)"
  shows "estimator_run dot sumsq N d block = (if block = [] then d else gathered d n (map fst block))"
  using assms(3,4)
proof (induction block rule: rev_induct)
  case (snoc b block)
  obtain f now where b: "b = (f, now)"
    by (meson surj_pair)
  have less: "(of_nat (length block + 1) :: u16) < max (vc_decim (ve_config d)) 1"
    using snoc.prems(2) unfolding word_less_nat_alt
    by (simp only: unat_of_nat length_append list.size) (simp add: less_le_trans mod_less_eq_dividend le_less_trans)
  have "estimator_run dot sumsq N d block = (if map fst block = [] then d else gathered d n (map fst block))"
    using snoc by simp
  then show ?case
    using push_gathered[OF assms(1) _ _ assms(2), of f dot sumsq N "map fst block" now] snoc.prems(1) less
    by (simp add: estimator_run_def b)
qed (simp add: estimator_run_def)

lemma run_block:
  assumes "estimator_clean d" and "block_ok (vc_decim (ve_config d)) block"
  obtains now where "estimator_run dot sumsq N d block =
    settle dot sumsq N (estimator_store N (unat (block_count block)) (gathered d (block_count block) (map fst block))) now"
proof -
  have "0 < unat (max (vc_decim (ve_config d)) 1)"
    using word_le_nat_alt[of 1 "max (vc_decim (ve_config d)) 1"] by simp
  then have ne: "block \<noteq> []"
    using assms(2) by (auto simp: block_ok_def)
  then obtain init f now where b: "block = init @ [(f, now)]"
    by (metis rev_exhaust surj_pair)
  have l: "length init + 1 = unat (max (vc_decim (ve_config d)) 1)"
    using assms(2) by (simp add: block_ok_def b)
  then have "\<not> (of_nat (length init + 1) :: u16) < max (vc_decim (ve_config d)) 1"
    by (simp only: l of_nat_unat ucast_id less_irrefl not_False_eq_True)
  moreover have "estimator_run dot sumsq N d init = (if map fst init = [] then d else gathered d (block_count block) (map fst init))"
  proof -
    have "list_all (\<lambda>(f, now). features_ok f \<and> ft_count f = block_count block) init"
      using assms(2) by (auto simp: block_ok_def b list_all_iff)
    then show ?thesis
      using run_gathered[OF assms(1), of "block_count block" init dot sumsq N] assms(2) l by (simp add: block_ok_def)
  qed
  ultimately have "estimator_run dot sumsq N d block =
    settle dot sumsq N (estimator_store N (unat (block_count block)) (gathered d (block_count block) (map fst block))) now"
    using push_gathered[OF assms(1), of f "block_count block" dot sumsq N "map fst init" now] assms(2)
    by (simp add: estimator_run_def b block_ok_def)
  then show thesis
    by (rule that)
qed

text \<open>The stored sample is the block's mean.\<close>

lemma sint_block_mean:
  assumes "block_ok decim block" and "decim \<le> 32768" and "i < unat (block_count block)"
  shows "sint (ucast (s_div (\<Sum>f\<leftarrow>map fst block. ucast (ft_amplitude f ! i)) (of_nat (length block)) :: i32) :: i16) =
    (\<Sum>(f, now)\<leftarrow>block. int (unat (ft_amplitude f ! i))) div int (length block)"
proof -
  have len: "0 < length block" "length block \<le> 32768"
    using assms(1,2) word_le_nat_alt[of 1 "max decim 1"] word_le_nat_alt[of "max decim 1" 32768] by (simp_all add: block_ok_def)
  let ?g = "\<lambda>f. ucast (ft_amplitude f ! i) :: i32"
  have amp: "unat (ft_amplitude f ! i) < 32768" if f: "f \<in> set (map fst block)" for f
  proof -
    obtain now where "(f, now) \<in> set block"
      using f by auto
    then have "features_ok f" "ft_count f = block_count block" "\<forall>a\<in>set (ft_amplitude f). a < 32768"
      using assms(1) by (auto simp: block_ok_def list_all_iff)
    moreover from this have "ft_amplitude f ! i \<in> set (ft_amplitude f)"
      using assms(3) by (simp add: features_ok_def)
    ultimately show ?thesis
      by (auto simp: word_less_nat_alt)
  qed
  have g: "sint (?g f) = int (unat (ft_amplitude f ! i))" if "f \<in> set (map fst block)" for f
  proof -
    have u: "unat (?g f) = unat (ft_amplitude f ! i)"
      by (rule unat_ucast_up) simp
    then show ?thesis
      using amp[OF that] sint_small[of "?g f"] by simp
  qed
  define total where "total = (\<Sum>f\<leftarrow>map fst block. int (unat (ft_amplitude f ! i)))"
  have "\<bar>sint (?g f)\<bar> \<le> 32767" if "f \<in> set (map fst block)" for f
    unfolding g[OF that] using amp[OF that] by linarith
  then have "sint (\<Sum>f\<leftarrow>map fst block. ?g f) = (\<Sum>f\<leftarrow>map fst block. sint (?g f)) \<and>
      \<bar>\<Sum>f\<leftarrow>map fst block. sint (?g f)\<bar> \<le> int (length (map fst block)) * 32767"
    using len(2) by (intro sint_sum_list) simp_all
  moreover have "(\<Sum>f\<leftarrow>map fst block. sint (?g f)) = total"
    unfolding total_def using g by (intro arg_cong[where f = sum_list] map_cong) auto
  ultimately have S: "sint (\<Sum>f\<leftarrow>map fst block. ?g f) = total" "total \<le> int (length block) * 32767"
    by (simp_all add: abs_le_iff)
  have pos: "0 \<le> total"
    unfolding total_def by (intro sum_list_nonneg) auto
  have "sint (of_nat (length block) :: i32) = int (length block)"
    using len by (intro sint_of_nat_small) simp
  then have q: "sint (s_div (\<Sum>f\<leftarrow>map fst block. ?g f) (of_nat (length block))) = total div int (length block)"
    using len(1) pos by (subst s_div_exact) (simp_all only: S(1), simp_all add: signed_divide_int_def sgn_if)
  have "total div int (length block) \<le> (int (length block) * 32767) div int (length block)"
    using S(2) len(1) by (intro zdiv_mono1) simp_all
  moreover have "0 \<le> total div int (length block)"
    using pos len(1) by (simp add: pos_imp_zdiv_nonneg_iff)
  ultimately have "sint (ucast (s_div (\<Sum>f\<leftarrow>map fst block. ?g f) (of_nat (length block)) :: i32) :: i16) = total div int (length block)"
    using len(1) by (subst sint_ucast_small) (simp_all only: q, simp_all)
  moreover have "total = (\<Sum>(f, now)\<leftarrow>block. int (unat (ft_amplitude f ! i)))"
    by (simp add: total_def o_def case_prod_unfold)
  ultimately show ?thesis
    by simp
qed

lemma block_count_le: "block_ok decim block \<Longrightarrow> unat (block_count block) \<le> MAX_SUBCARRIERS"
proof -
  assume ok: "block_ok decim block"
  then have "0 < length block"
    using word_le_nat_alt[of 1 "max decim 1"] by (simp add: block_ok_def)
  then obtain f now rest where b: "block = (f, now) # rest"
    by (cases block) auto
  have "features_ok f" "ft_count f = block_count block"
    using ok by (auto simp: b block_ok_def)
  then show ?thesis
    by (simp add: features_ok_def)
qed

definition estimator_ok :: "nat \<Rightarrow> u16 \<Rightarrow> estimator \<Rightarrow> bool" where
  "estimator_ok N decim d \<longleftrightarrow> window_ok N (ve_filled d) (ve_next d) (ve_ring d) \<and>
     list_all (\<lambda>row. length row = MAX_SUBCARRIERS) (ve_ring d) \<and> estimator_clean d \<and> vc_decim (ve_config d) = decim \<and>
     (ve_count d = 0 \<longrightarrow> ve_filled d = 0)"

definition estimator_view :: "nat \<Rightarrow> estimator \<Rightarrow> int list list" where
  "estimator_view N d = map (\<lambda>row. map sint (take (unat (ve_count d)) row)) (window N (ve_filled d) (ve_next d) (ve_ring d))"

lemma settle_view:
  "estimator_ok N decim (settle dot sumsq N d now) = estimator_ok N decim d"
  "estimator_view N (settle dot sumsq N d now) = estimator_view N d"
  by (simp_all add: estimator_ok_def estimator_clean_def estimator_view_def settle_keeps)

lemma begin_block_view:
  assumes "estimator_ok N decim d"
  shows "window_ok N (ve_filled (begin_block d n)) (ve_next (begin_block d n)) (ve_ring (begin_block d n))"
    "map (\<lambda>row. map sint (take (unat n) row)) (window N (ve_filled (begin_block d n)) (ve_next (begin_block d n)) (ve_ring (begin_block d n))) =
      (if ve_count d = n then estimator_view N d else [])"
    "ve_ring (begin_block d n) = ve_ring d" "ve_config (begin_block d n) = ve_config d"
  using assms by (auto simp: estimator_ok_def begin_block_def estimator_reset_def estimator_view_def window_ok_def window_def)

lemma store_gathered:
  assumes "estimator_ok N decim d" and "block_ok decim block" and "decim \<le> 32768"
  defines "e \<equiv> estimator_store N (unat (block_count block)) (gathered d (block_count block) (map fst block))"
  shows "estimator_ok N decim e \<and> ve_count e = block_count block \<and>
    estimator_view N e = last_n N ((if ve_count d = block_count block then estimator_view N d else []) @ [block_means block])"
proof -
  let ?n = "block_count block" and ?b = "begin_block d (block_count block)"
  note bb = begin_block_view[OF assms(1), of ?n]
  have n: "unat ?n \<le> MAX_SUBCARRIERS" "?n \<noteq> 0"
    using block_count_le[OF assms(2)] assms(2) by (simp_all add: block_ok_def)
  have len: "length block \<le> 32768"
    using assms(2,3) word_le_nat_alt[of "max decim 1" 32768] by (simp add: block_ok_def)
  have m: "ucast (of_nat (length block) :: u16) = (of_nat (length block) :: i32)"
    using len by (intro word_unat_eq_iff[THEN iffD2]) (subst unat_ucast_up, simp, simp add: unat_of_nat)
  let ?slot = "ve_ring d ! ve_next ?b"
  define row where "row = map (\<lambda>i. ucast (s_div (\<Sum>f\<leftarrow>map fst block. ucast (ft_amplitude f ! i)) (of_nat (length block)) :: i32) :: i16)
     [0..<unat ?n] @ drop (unat ?n) ?slot"
  have means: "map sint (take (unat ?n) row) = block_means block"
    using sint_block_mean[OF assms(2,3)] by (simp add: row_def block_means_def)
  have slot: "length ?slot = MAX_SUBCARRIERS"
    using bb(1) assms(1) by (auto simp: bb(3) estimator_ok_def window_ok_def list_all_length)
  have ring: "ve_ring e = (ve_ring d)[ve_next ?b := row]"
    by (simp add: e_def estimator_store_def gathered_def bb(3) m row_def Let_def o_def)
  have rest: "ve_next e = (ve_next ?b + 1) mod N" "ve_filled e = (if ve_filled ?b < N then ve_filled ?b + 1 else ve_filled ?b)"
    "ve_count e = ?n" "ve_config e = ve_config d" "ve_acc_n e = 0"
    by (simp_all add: e_def estimator_store_def gathered_def bb(4) Let_def)
  have acc: "ve_acc e = replicate MAX_SUBCARRIERS 0"
    using n(1) by (simp add: e_def estimator_store_def gathered_def Let_def map_replicate_const replicate_add[symmetric])
  have rows: "list_all (\<lambda>row. length row = MAX_SUBCARRIERS) ((ve_ring d)[ve_next ?b := row])"
    using assms(1) set_update_subset_insert[of "ve_ring d" "ve_next ?b" row] n(1) slot
    by (auto simp: estimator_ok_def list_all_iff row_def)
  note push = window_push[OF bb(1), of row]
  have "estimator_view N e = last_n N (map (\<lambda>row. map sint (take (unat ?n) row)) (window N (ve_filled ?b) (ve_next ?b) (ve_ring ?b)) @
      [map sint (take (unat ?n) row)])"
    using push[THEN conjunct2] by (simp add: estimator_view_def rest ring bb(3) map_last_n)
  moreover have "estimator_ok N decim e"
    using push[THEN conjunct1] rows assms(1) n(2)
    by (simp add: estimator_ok_def estimator_clean_def rest ring bb(3) acc)
  ultimately show ?thesis
    using rest(3) by (simp only: bb(2) means)
qed

text \<open>Blocks slide the window as frames slide the presence detectors'.\<close>

interpretation vitals_window: sliding N "estimator_run dot sumsq N" ve_count block_count block_means "estimator_view N"
  "estimator_ok N decim" "\<lambda>block. block_ok decim block \<and> decim \<le> 32768" "\<lambda>_. False"
  for dot sumsq N decim
proof unfold_locales
  fix d and block :: "(features \<times> micros) list"
  assume ok: "estimator_ok N decim d" "block_ok decim block \<and> decim \<le> 32768"
  then have "estimator_clean d" "block_ok (vc_decim (ve_config d)) block"
    by (simp_all add: estimator_ok_def)
  then obtain now where run: "estimator_run dot sumsq N d block =
      settle dot sumsq N (estimator_store N (unat (block_count block)) (gathered d (block_count block) (map fst block))) now"
    by (rule run_block)
  show "estimator_ok N decim (estimator_run dot sumsq N d block) \<and>
      ve_count (estimator_run dot sumsq N d block) = block_count block \<and>
      estimator_view N (estimator_run dot sumsq N d block) =
        last_n N ((if ve_count d = block_count block then estimator_view N d else []) @ [block_means block])"
    unfolding run settle_view settle_keeps using ok by (intro store_gathered) simp_all
qed simp

lemma estimator_new_ok: "0 < N \<Longrightarrow> estimator_ok N (vc_decim cfg) (estimator_new N cfg)"
  using window_ok_start[of N "replicate N (replicate MAX_SUBCARRIERS (0 :: i16))"]
  by (simp add: estimator_ok_def estimator_clean_def estimator_new_def list_all_length)

lemma run_blocks: "estimator_run dot sumsq N d (concat blocks) = foldl (estimator_run dot sumsq N) d blocks"
  by (induction blocks arbitrary: d) (simp_all add: estimator_run_def)

text \<open>C12: The window holds block means. Whatever whole blocks came before, after \<open>N\<close> blocks of \<open>decim\<close> frames
  of one subcarrier count the estimator is warm and the samples it holds of each subcarrier are, oldest first,
  the floored means of exactly those blocks' amplitudes: nothing of an earlier window or of a frame in another
  geometry is left, and no sum wraps.\<close>

theorem vitals_window_is_block_means:
  assumes "0 < N" and "vc_decim cfg \<le> 32768" and "length blocks = N" and "n \<noteq> 0"
    and "list_all (block_ok (vc_decim cfg)) before"
    and "list_all (\<lambda>block. block_ok (vc_decim cfg) block \<and> block_count block = n) blocks"
  shows "let d = estimator_run dot sumsq N (estimator_new N cfg) (concat before @ concat blocks) in
    estimator_warm N d \<and> held_rows N d = map (\<lambda>sc. map (\<lambda>block. block_means block ! sc) blocks) [0..<unat n]"
proof -
  define d where "d = estimator_run dot sumsq N (estimator_new N cfg) (concat (before @ blocks))"
  have "estimator_ok N (vc_decim cfg) d \<and> ve_count d = n \<and> estimator_view N d = map block_means blocks"
    unfolding d_def run_blocks using assms(2,5,6)
    by (intro vitals_window.run_window[OF estimator_new_ok[OF assms(1)] _ _ assms(3,1)]) (auto simp: list_all_iff)
  then have d: "estimator_ok N (vc_decim cfg) d" "ve_count d = n" "estimator_view N d = map block_means blocks"
    by simp_all
  let ?win = "window N (ve_filled d) (ve_next d) (ve_ring d)"
  have w: "window_ok N (ve_filled d) (ve_next d) (ve_ring d)"
    using d(1) by (simp add: estimator_ok_def)
  have view: "map (\<lambda>row. map sint (take (unat n) row)) ?win = map block_means blocks"
    using d(2,3) by (simp add: estimator_view_def)
  then have "length ?win = N"
    using assms(3) by (metis length_map)
  then have full: "ve_filled d = N"
    using length_window[OF w] by simp
  obtain block where "block \<in> set blocks"
    using assms(1,3) by (cases blocks) auto
  then have "block_ok (vc_decim cfg) block" "block_count block = n"
    using assms(6) by (auto simp: list_all_iff)
  then have n: "min (unat n) MAX_SUBCARRIERS = unat n"
    using block_count_le by fastforce
  have "map (\<lambda>row. sint (row ! sc)) ?win = map (\<lambda>block. block_means block ! sc) blocks" if sc: "sc < unat n" for sc
  proof -
    have rows: "list_all (\<lambda>row. length row = MAX_SUBCARRIERS) ?win"
      using d(1) by (auto simp: estimator_ok_def list_all_iff window_def dest: in_set_takeD in_set_dropD)
    have "map (\<lambda>row. sint (row ! sc)) ?win = map (\<lambda>v. v ! sc) (map (\<lambda>row. map sint (take (unat n) row)) ?win)"
      unfolding map_map using rows sc n by (intro map_cong) (auto simp: list_all_iff)
    then show ?thesis
      unfolding view by (simp add: o_def)
  qed
  then show ?thesis
    using full by (simp add: d_def[symmetric] held_rows_def n d(2) estimator_warm_def flip: concat_append cong: map_cong)
qed

section \<open>Instances\<close>

definition dot_sample :: "i16 list \<Rightarrow> i16 list \<Rightarrow> i64" where
  "dot_sample x y = word_of_int (\<Sum>(a, b)\<leftarrow>zip (map sint x) (map sint y). a * b)"

definition sumsq_sample :: "i16 list \<Rightarrow> i64" where
  "sumsq_sample x = dot_sample x x"

lemma dot_sample_exact:
  assumes "length x = length y" and "length x < 65536"
  shows "sint (dot_sample x y) = (\<Sum>(a, b)\<leftarrow>zip (map sint x) (map sint y). a * b)"
proof -
  have b: "\<bar>a\<bar> \<le> 32768" if a: "a \<in> set (map sint (z :: i16 list))" for a z
  proof -
    obtain w where "a = sint (w :: i16)"
      using a by auto
    then show ?thesis
      using sint_i16[of w] by (simp add: abs_le_iff)
  qed
  have "\<bar>\<Sum>(a, b)\<leftarrow>zip (map sint x) (map sint y). a * b\<bar> \<le> int (length (zip (map sint x) (map sint y))) * 2 ^ 30"
    using b[of _ x] b[of _ y] by (intro inner_product_le)
  also have "\<dots> < 2 ^ 46"
    using assms by simp
  finally show ?thesis
    unfolding dot_sample_def by (intro sint_exact) (simp_all add: abs_less_iff)
qed

lemma dot_sample_ok: "dot_ok dot_sample"
  by (simp add: dot_ok_def dot_sample_exact)

lemma sumsq_sample_ok: "sumsq_ok sumsq_sample"
proof -
  have "(\<Sum>(a, b)\<leftarrow>zip xs xs. a * b) = (\<Sum>a\<leftarrow>xs. a * a)" for xs :: "int list"
    by (induction xs) simp_all
  then show ?thesis
    by (simp add: sumsq_ok_def sumsq_sample_def dot_sample_exact)
qed

text \<open>An impulse every four samples, ten samples a second: 150 a minute, in a band from 60 to 200.\<close>

definition sample_vitals_config :: vitals_config where
  "sample_vitals_config = \<lparr>vc_decim = 1, vc_rate_hz = 10, vc_band = \<lparr>bd_lo_mhz = 1000, bd_hi_mhz = 3333\<rparr>,
     vc_update_every = 1, vc_accept_permille = 400, vc_highpass = 0\<rparr>"

definition pulse_estimator :: estimator where
  "pulse_estimator = (estimator_new 12 sample_vitals_config)\<lparr>ve_ring :=
     map (\<lambda>v. [v]) [100, 0, 0, 0, 100, 0, 0, 0, 100, 0, 0, 0], ve_filled := 12, ve_count := 1\<rparr>"

abbreviation pulse :: "int list list" where
  "pulse \<equiv> [[100, 0, 0, 0, 100, 0, 0, 0, 100, 0, 0, 0]]"

lemma pulse_facts:
  "unat (vc_highpass (ve_config pulse_estimator)) = 0" "held_rows 12 pulse_estimator = pulse"
  "window_ok 12 (ve_filled pulse_estimator) (ve_next pulse_estimator) (ve_ring pulse_estimator)"
  "rhythmic 0 pulse \<noteq> []" "band_lags (vc_band (ve_config pulse_estimator)) (vc_rate_hz (ve_config pulse_estimator)) = (3, 10)"
  "map (significant (curve 0 pulse) 10) [2..<5] = [False, False, True]"
  "unat (vc_rate_hz (ve_config pulse_estimator)) = 10" "unat (ve_count pulse_estimator) = 1" "ve_filled pulse_estimator = 12"
  "unat (vc_accept_permille (ve_config pulse_estimator)) = 400"
  "curve 0 pulse 4 sdiv int (length (rhythmic 0 pulse)) = 1000"
  by code_simp+

lemma pulse_first: "2 \<le> lag \<Longrightarrow> lag < 4 \<Longrightarrow> \<not> significant (curve 0 pulse) 10 lag"
proof -
  assume "2 \<le> lag" "lag < 4"
  then have "lag = 2 \<or> lag = 3"
    by auto
  then show ?thesis
    using pulse_facts(6) by (auto simp: upt_rec)
qed

lemma pulse_more: "unat (vc_rate_hz (ve_config pulse_estimator)) < 2 ^ 18" "0 < unat (ve_count pulse_estimator)"
  "significant (curve 0 pulse) 10 4"
  using pulse_facts(6) by (simp_all add: pulse_facts upt_rec)

theorem vitals_read_first_peak_witness:
  "let v = vitals_estimate dot_sample sumsq_sample 12 pulse_estimator 7; lag = unat (vt_lag_x16 v);
      confidence = unat (vt_confidence v) in
    16 * 4 \<le> lag + 8 \<and> lag \<le> 16 * 4 + 8 \<and>
    confidence = nat (max 0 (min 1000 (curve 0 pulse 4 sdiv int (length (rhythmic 0 pulse))))) \<and>
    unat (vt_bpm_x10 v) = min ((9600 * unat (vc_rate_hz (ve_config pulse_estimator)) + lag div 2) div lag) 65535 \<and>
    vt_accepted v = (3 < (4 :: nat) \<and> 4 < (10 :: nat) \<and>
      unat (vc_accept_permille (ve_config pulse_estimator)) \<le> confidence)"
  unfolding pulse_facts(1,2)[symmetric]
  by (rule vitals_read_first_peak[OF dot_sample_ok sumsq_sample_ok pulse_facts(3,9) _ pulse_more(1,2) _ pulse_facts(5)])
    (simp_all add: pulse_facts(1,2,4) pulse_more(3) pulse_first MAX_LAGS_def)

text \<open>
  A count change in mid-block leaves the sums of the unfinished block in place: the first sample after it
  carries them. Here one frame of 100 in two subcarriers precedes a block of two frames of 40 in three, and
  the sample reads 90 where the frames it averages all say 40.
\<close>

lemma partial_block_survives_reset:
  "take 3 (ve_ring (estimator_run dot_sample sumsq_sample 12 (estimator_new 12 (sample_vitals_config\<lparr>vc_decim := 2\<rparr>))
     [(flat_features 100 2, 0), (flat_features 40 3, 1), (flat_features 40 3, 2)]) ! 0) = [90, 90, 40]"
  by code_simp

theorem vitals_window_is_block_means_witness:
  "let d = estimator_run dot_sample sumsq_sample 2 (estimator_new 2 (sample_vitals_config\<lparr>vc_decim := 2\<rparr>))
      (concat [[(flat_features 9 3, 0), (flat_features 9 3, 1)]] @
       concat [[(flat_features 100 2, 2), (flat_features 300 2, 3)], [(flat_features 7 2, 4), (flat_features 8 2, 5)]]) in
    estimator_warm 2 d \<and> held_rows 2 d = map (\<lambda>sc. map (\<lambda>block. block_means block ! sc)
      [[(flat_features 100 2, 2), (flat_features 300 2, 3)], [(flat_features 7 2, 4), (flat_features 8 2, 5)]]) [0..<unat (2 :: u8)]"
proof (rule vitals_window_is_block_means)
  have c: "ft_count (flat_features a n) = n" "set (ft_amplitude (flat_features a n)) = {a}" for a n
    by (simp_all add: flat_features_def MAX_SUBCARRIERS_def)
  have "features_ok (flat_features a n)" if "unat n \<le> 64" for a n
    using that by (simp add: flat_features_ok MAX_SUBCARRIERS_def)
  then show "list_all (block_ok (vc_decim (sample_vitals_config\<lparr>vc_decim := 2\<rparr>))) [[(flat_features 9 3, 0), (flat_features 9 3, 1)]]"
    "list_all (\<lambda>block. block_ok (vc_decim (sample_vitals_config\<lparr>vc_decim := 2\<rparr>)) block \<and> block_count block = 2)
      [[(flat_features 100 2, 2), (flat_features 300 2, 3)], [(flat_features 7 2, 4), (flat_features 8 2, 5)]]"
    by (simp_all add: block_ok_def block_count_def c sample_vitals_config_def)
qed (simp_all add: sample_vitals_config_def)

end
