(* ===== verification/Presence.thy ===== *)
theory Presence
  imports Ld2410 Vitals
begin

text \<open>
  What a presence sensor says (\<open>crates/rusty_esp_signal-core/src/radar/presence.rs\<close>) and the room's
  fingerprint (\<open>radar/fingerprint.rs\<close>): the record both sensors become, its versioned wire form, and
  the calibrated baseline whose distance it carries.
\<close>

section \<open>Fingerprint\<close>

record baseline =
  bl_sum :: u64
  bl_frames :: u32
  bl_mean :: u32

definition baseline_new :: baseline where
  "baseline_new = \<lparr>bl_sum = 0, bl_frames = 0, bl_mean = 0\<rparr>"

definition baseline_calibrate :: "baseline \<Rightarrow> features \<Rightarrow> baseline" where
  "baseline_calibrate b f =
     (if ft_count f = 0 then b
      else
        let b = b\<lparr>bl_sum := bl_sum b + ucast (ft_variance f), bl_frames := bl_frames b + 1\<rparr>
        in b\<lparr>bl_mean := ucast (min (bl_sum b div ucast (bl_frames b)) 0xFFFFFFFF)\<rparr>)"

definition baseline_distance :: "baseline \<Rightarrow> features \<Rightarrow> u16" where
  "baseline_distance b f =
     (if bl_mean b = 0 \<or> ft_count f = 0 then 0
      else
        let d = ucast (if ft_variance f \<ge> bl_mean b then ft_variance f - bl_mean b else bl_mean b - ft_variance f) :: u64
        in ucast (min (d * 1000 div ucast (bl_mean b)) 0xFFFF))"

section \<open>The record\<close>

datatype occupancy = OcUnknown | OcAbsent | OcMoving | OcStationary | OcBoth

definition occupancy_tag :: "occupancy \<Rightarrow> u8" where
  "occupancy_tag oc =
     (case oc of OcUnknown \<Rightarrow> 0 | OcAbsent \<Rightarrow> 1 | OcMoving \<Rightarrow> 2 | OcStationary \<Rightarrow> 3 | OcBoth \<Rightarrow> 4)"

definition occupancy_from_tag :: "u8 \<Rightarrow> occupancy option" where
  "occupancy_from_tag tag =
     (if tag = 0 then Some OcUnknown else if tag = 1 then Some OcAbsent else if tag = 2 then Some OcMoving
      else if tag = 3 then Some OcStationary else if tag = 4 then Some OcBoth else None)"

definition occupied :: "occupancy \<Rightarrow> bool" where
  "occupied oc \<longleftrightarrow> oc \<in> {OcMoving, OcStationary, OcBoth}"

definition PRESENCE_VERSION :: u8 where "PRESENCE_VERSION = 2"
definition V1_LEN :: nat where "V1_LEN = 18"
definition ENCODED_LEN :: nat where "ENCODED_LEN = 28"

record presence =
  ps_state :: occupancy
  ps_moving_cm :: u16
  ps_moving_energy :: u8
  ps_stationary_cm :: u16
  ps_stationary_energy :: u8
  ps_detection_cm :: u16
  ps_at :: micros
  ps_breathing_bpm_x10 :: u16
  ps_breathing_confidence :: u16
  ps_heart_bpm_x10 :: u16
  ps_heart_confidence :: u16
  ps_fingerprint :: u16

definition presence_default :: presence where
  "presence_default =
     \<lparr>ps_state = OcUnknown, ps_moving_cm = 0, ps_moving_energy = 0, ps_stationary_cm = 0,
      ps_stationary_energy = 0, ps_detection_cm = 0, ps_at = 0, ps_breathing_bpm_x10 = 0,
      ps_breathing_confidence = 0, ps_heart_bpm_x10 = 0, ps_heart_confidence = 0, ps_fingerprint = 0\<rparr>"

definition from_ld2410 :: "report \<Rightarrow> micros \<Rightarrow> presence" where
  "from_ld2410 r t = presence_default
     \<lparr>ps_state := (case rp_state r of TsNone \<Rightarrow> OcAbsent | TsMoving \<Rightarrow> OcMoving
                     | TsStationary \<Rightarrow> OcStationary | TsBoth \<Rightarrow> OcBoth),
      ps_moving_cm := rp_moving_distance_cm r, ps_moving_energy := rp_moving_energy r,
      ps_stationary_cm := rp_stationary_distance_cm r, ps_stationary_energy := rp_stationary_energy r,
      ps_detection_cm := rp_detection_distance_cm r, ps_at := t\<rparr>"

definition from_csi :: "verdict \<Rightarrow> micros \<Rightarrow> presence" where
  "from_csi v t =
     (let (state, energy) = (case v of Warming \<Rightarrow> (OcUnknown, 0) | Absent \<Rightarrow> (OcAbsent, 0)
            | Present motion \<Rightarrow> (OcMoving, motion))
      in presence_default\<lparr>ps_state := state, ps_moving_energy := energy, ps_at := t\<rparr>)"

definition carry_rate :: "vitals option \<Rightarrow> u16 \<times> u16" where
  "carry_rate v = (case v of
       Some v \<Rightarrow> (if vt_accepted v then (vt_bpm_x10 v, vt_confidence v) else (0, vt_confidence v))
     | None \<Rightarrow> (0, 0))"

definition with_vitals :: "presence \<Rightarrow> vitals option \<Rightarrow> vitals option \<Rightarrow> presence" where
  "with_vitals p breathing heart =
     p\<lparr>ps_breathing_bpm_x10 := fst (carry_rate breathing), ps_breathing_confidence := snd (carry_rate breathing),
       ps_heart_bpm_x10 := fst (carry_rate heart), ps_heart_confidence := snd (carry_rate heart)\<rparr>"

definition with_fingerprint :: "presence \<Rightarrow> u16 \<Rightarrow> presence" where
  "with_fingerprint p permille = p\<lparr>ps_fingerprint := permille\<rparr>"

section \<open>The wire form\<close>

definition presence_encode :: "presence \<Rightarrow> bytes \<Rightarrow> (err + nat) \<times> bytes" where
  "presence_encode p out =
     (if length out < ENCODED_LEN then (Inl (BufferTooSmall ENCODED_LEN), out)
      else
        let out = write_at out 0 [PRESENCE_VERSION];
            out = write_at out 1 [occupancy_tag (ps_state p)];
            out = write_at out 2 (be_bytes 2 (ps_moving_cm p));
            out = write_at out 4 [ps_moving_energy p];
            out = write_at out 5 (be_bytes 2 (ps_stationary_cm p));
            out = write_at out 7 [ps_stationary_energy p];
            out = write_at out 8 (be_bytes 2 (ps_detection_cm p));
            out = write_at out 10 (be_bytes 8 (ps_at p));
            out = write_at out 18 (be_bytes 2 (ps_breathing_bpm_x10 p));
            out = write_at out 20 (be_bytes 2 (ps_breathing_confidence p));
            out = write_at out 22 (be_bytes 2 (ps_heart_bpm_x10 p));
            out = write_at out 24 (be_bytes 2 (ps_heart_confidence p));
            out = write_at out 26 (be_bytes 2 (ps_fingerprint p))
        in (Inr ENCODED_LEN, out))"

definition u16_at :: "bytes \<Rightarrow> nat \<Rightarrow> u16" where
  "u16_at b i = be_word [b ! i, b ! (i + 1)]"

definition presence_decode :: "bytes \<Rightarrow> err + presence" where
  "presence_decode bs =
     (case bs of [] \<Rightarrow> Inl InvalidFormat
      | version # _ \<Rightarrow>
          rbind (if version = 1 then Inr V1_LEN else if version = PRESENCE_VERSION then Inr ENCODED_LEN
                 else Inl InvalidFormat) (\<lambda>len.
          rbind (ok_or (slice_get bs 0 len) InvalidFormat) (\<lambda>b.
          rbind (ok_or (occupancy_from_tag (b ! 1)) InvalidFormat) (\<lambda>state.
            let p = presence_default
                  \<lparr>ps_state := state, ps_moving_cm := u16_at b 2, ps_moving_energy := b ! 4,
                   ps_stationary_cm := u16_at b 5, ps_stationary_energy := b ! 7,
                   ps_detection_cm := u16_at b 8, ps_at := be_word (take 8 (drop 10 b))\<rparr>
            in Inr (if version = PRESENCE_VERSION
               then p\<lparr>ps_breathing_bpm_x10 := u16_at b 18, ps_breathing_confidence := u16_at b 20,
                      ps_heart_bpm_x10 := u16_at b 22, ps_heart_confidence := u16_at b 24,
                      ps_fingerprint := u16_at b 26\<rparr>
               else p)))))"

section \<open>What the wire form is\<close>

definition v1_bytes :: "u8 \<Rightarrow> presence \<Rightarrow> bytes" where
  "v1_bytes version p =
     [version, occupancy_tag (ps_state p)] @ be_bytes 2 (ps_moving_cm p) @ [ps_moving_energy p] @
     be_bytes 2 (ps_stationary_cm p) @ [ps_stationary_energy p] @ be_bytes 2 (ps_detection_cm p) @
     be_bytes 8 (ps_at p)"

definition v2_tail :: "presence \<Rightarrow> bytes" where
  "v2_tail p = be_bytes 2 (ps_breathing_bpm_x10 p) @ be_bytes 2 (ps_breathing_confidence p) @
     be_bytes 2 (ps_heart_bpm_x10 p) @ be_bytes 2 (ps_heart_confidence p) @ be_bytes 2 (ps_fingerprint p)"

definition presence_bytes :: "presence \<Rightarrow> bytes" where
  "presence_bytes p = v1_bytes PRESENCE_VERSION p @ v2_tail p"

definition v2_fields_zero :: "presence \<Rightarrow> bool" where
  "v2_fields_zero p \<longleftrightarrow> ps_breathing_bpm_x10 p = 0 \<and> ps_breathing_confidence p = 0 \<and>
     ps_heart_bpm_x10 p = 0 \<and> ps_heart_confidence p = 0 \<and> ps_fingerprint p = 0"

lemma length_v1_bytes [simp]: "length (v1_bytes v p) = V1_LEN"
  by (simp add: v1_bytes_def V1_LEN_def)

lemma length_v2_tail [simp]: "length (v2_tail p) = 10"
  by (simp add: v2_tail_def)

lemma length_presence_bytes [simp]: "length (presence_bytes p) = ENCODED_LEN"
  by (simp add: presence_bytes_def V1_LEN_def ENCODED_LEN_def)

lemma presence_encode_eq:
  "ENCODED_LEN \<le> length out \<Longrightarrow> presence_encode p out = (Inr ENCODED_LEN, presence_bytes p @ drop ENCODED_LEN out)"
  by (simp add: presence_encode_def Let_def write_at_walk presence_bytes_def v1_bytes_def v2_tail_def ENCODED_LEN_def)

lemma occupancy_round_trip [simp]: "occupancy_from_tag (occupancy_tag oc) = Some oc"
  by (cases oc) (simp_all add: occupancy_tag_def occupancy_from_tag_def)

lemma occupancy_from_tag_Some: "occupancy_from_tag t = Some oc \<Longrightarrow> occupancy_tag oc = t"
  by (auto simp: occupancy_tag_def occupancy_from_tag_def split: if_splits)

lemma be_bytes_two: "\<exists>x y. be_bytes 2 w = [x, y]"
  by (rule list2_exhaust) simp

lemma be_word_two: "be_bytes 2 (w :: u16) = [x, y] \<Longrightarrow> be_word [x, y] = w"
  using be_word_u16[of w] by simp

lemma be_bytes_u16_at: "be_bytes 2 (u16_at b i) = [b ! i, b ! (i + 1)]"
  using be_bytes_be_word[where 'a = 16, of "[b ! i, b ! (i + 1)]"] by (simp add: u16_at_def numeral_2_eq_2)

lemma upt_ten: "[0..<10] = [0, 1, 2, 3, 4, 5, 6, 7, 8, 9 :: nat]"
  by code_simp

lemma list_nths: "xs = map (nth xs) [0..<length xs]"
  by (simp add: map_nth)

text \<open>Reading the first eighteen bytes, whichever the version.\<close>

definition read_v1 :: "bytes \<Rightarrow> occupancy \<Rightarrow> presence" where
  "read_v1 b state = presence_default
     \<lparr>ps_state := state, ps_moving_cm := u16_at b 2, ps_moving_energy := b ! 4, ps_stationary_cm := u16_at b 5,
      ps_stationary_energy := b ! 7, ps_detection_cm := u16_at b 8, ps_at := be_word (take 8 (drop 10 b))\<rparr>"

definition read_v2 :: "bytes \<Rightarrow> presence \<Rightarrow> presence" where
  "read_v2 b p = p\<lparr>ps_breathing_bpm_x10 := u16_at b 18, ps_breathing_confidence := u16_at b 20,
     ps_heart_bpm_x10 := u16_at b 22, ps_heart_confidence := u16_at b 24, ps_fingerprint := u16_at b 26\<rparr>"

lemma read_v1_bytes:
  "read_v1 (v1_bytes v p @ extra) (ps_state p) =
     p\<lparr>ps_breathing_bpm_x10 := 0, ps_breathing_confidence := 0, ps_heart_bpm_x10 := 0,
       ps_heart_confidence := 0, ps_fingerprint := 0\<rparr>"
proof -
  obtain a b c d e f where *: "be_bytes 2 (ps_moving_cm p) = [a, b]" "be_bytes 2 (ps_stationary_cm p) = [c, d]"
    "be_bytes 2 (ps_detection_cm p) = [e, f]"
    using be_bytes_two by metis
  have l: "v1_bytes v p @ extra = v # occupancy_tag (ps_state p) # a # b # ps_moving_energy p # c # d #
      ps_stationary_energy p # e # f # (be_bytes 8 (ps_at p) @ extra)"
    by (simp add: v1_bytes_def *)
  show ?thesis
    unfolding l read_v1_def u16_at_def presence_default_def
    using *[THEN be_word_two] by simp
qed

lemma read_v2_bytes:
  "length h = 18 \<Longrightarrow> read_v2 (h @ v2_tail p @ extra)
     (p\<lparr>ps_breathing_bpm_x10 := 0, ps_breathing_confidence := 0, ps_heart_bpm_x10 := 0,
       ps_heart_confidence := 0, ps_fingerprint := 0\<rparr>) = p"
proof -
  assume h: "length h = 18"
  obtain a b c d e f g i j k where *: "be_bytes 2 (ps_breathing_bpm_x10 p) = [a, b]"
    "be_bytes 2 (ps_breathing_confidence p) = [c, d]" "be_bytes 2 (ps_heart_bpm_x10 p) = [e, f]"
    "be_bytes 2 (ps_heart_confidence p) = [g, i]" "be_bytes 2 (ps_fingerprint p) = [j, k]"
    using be_bytes_two by metis
  have l: "h @ v2_tail p @ extra = h @ [a, b, c, d, e, f, g, i, j, k] @ extra"
    by (simp add: v2_tail_def *)
  show ?thesis
    unfolding l read_v2_def u16_at_def
    using *[THEN be_word_two] h by (simp add: nth_append)
qed

lemma presence_decode_v2:
  "presence_decode bs = Inr p \<longleftrightarrow>
     (ENCODED_LEN \<le> length bs \<and> bs ! 0 = PRESENCE_VERSION \<and>
        (\<exists>st. occupancy_from_tag (bs ! 1) = Some st \<and>
           p = read_v2 (take ENCODED_LEN bs) (read_v1 (take ENCODED_LEN bs) st))) \<or>
     (V1_LEN \<le> length bs \<and> bs ! 0 = 1 \<and>
        (\<exists>st. occupancy_from_tag (bs ! 1) = Some st \<and> p = read_v1 (take V1_LEN bs) st))"
proof (cases bs)
  case Nil
  then show ?thesis
    by (simp add: presence_decode_def ENCODED_LEN_def V1_LEN_def)
next
  case (Cons v rest)
  have v12: "PRESENCE_VERSION \<noteq> 1"
    by (simp add: PRESENCE_VERSION_def)
  have nth: "take ENCODED_LEN bs ! Suc 0 = bs ! Suc 0" "take V1_LEN bs ! Suc 0 = bs ! Suc 0"
    by (simp_all add: ENCODED_LEN_def V1_LEN_def)
  have get: "slice_get bs 0 n = (if n \<le> length bs then Some (take n bs) else None)" for n
    by (simp add: slice_get_def)
  have h: "bs ! 0 = v"
    using Cons by simp
  show ?thesis
  proof (cases "v = PRESENCE_VERSION")
    case True
    have "presence_decode bs = rbind (ok_or (slice_get bs 0 ENCODED_LEN) InvalidFormat) (\<lambda>b.
        rbind (ok_or (occupancy_from_tag (b ! 1)) InvalidFormat) (\<lambda>st. Inr (read_v2 b (read_v1 b st))))"
      using True v12 unfolding presence_decode_def Cons list.case read_v1_def read_v2_def Let_def
      by (simp only: rbind_simps if_True if_False simp_thms)
    then show ?thesis
      using True v12 h by (auto simp: get rbind_Inr_iff ok_or_Inr_iff nth split: if_splits)
  next
    case False
    show ?thesis
    proof (cases "v = 1")
      case True
      have "presence_decode bs = rbind (ok_or (slice_get bs 0 V1_LEN) InvalidFormat) (\<lambda>b.
          rbind (ok_or (occupancy_from_tag (b ! 1)) InvalidFormat) (\<lambda>st. Inr (read_v1 b st)))"
        using True False v12 unfolding presence_decode_def Cons list.case read_v1_def Let_def
        by (simp only: rbind_simps if_True if_False simp_thms)
      then show ?thesis
        using True False h by (auto simp: get rbind_Inr_iff ok_or_Inr_iff nth split: if_splits)
    next
      case v1: False
      then have "presence_decode bs = Inl InvalidFormat"
        using False by (simp add: presence_decode_def Cons)
      then show ?thesis
        using False v1 h by simp
    qed
  qed
qed

lemma v1_bytes_nth: "v1_bytes v p ! 0 = v" "v1_bytes v p ! Suc 0 = occupancy_tag (ps_state p)"
  by (simp_all add: v1_bytes_def)

lemma presence_decode_bytes: "presence_decode (presence_bytes p @ extra) = Inr p"
proof -
  have t: "take ENCODED_LEN (presence_bytes p @ extra) = presence_bytes p"
    by simp
  have n: "(presence_bytes p @ extra) ! 0 = PRESENCE_VERSION"
    "(presence_bytes p @ extra) ! 1 = occupancy_tag (ps_state p)"
    by (simp_all add: presence_bytes_def nth_append V1_LEN_def v1_bytes_nth)
  have "read_v2 (presence_bytes p) (read_v1 (presence_bytes p) (ps_state p)) = p"
    using read_v2_bytes[of "v1_bytes PRESENCE_VERSION p" p "[]"] read_v1_bytes[of PRESENCE_VERSION p "v2_tail p"]
    by (simp add: presence_bytes_def V1_LEN_def)
  then show ?thesis
    unfolding presence_decode_v2 t n by (simp add: PRESENCE_VERSION_def)
qed

lemma presence_decode_v1_bytes:
  assumes "v2_fields_zero p"
  shows "presence_decode (v1_bytes 1 p @ extra) = Inr p"
proof -
  have t: "take V1_LEN (v1_bytes 1 p @ extra) = v1_bytes 1 p"
    by simp
  have n: "(v1_bytes 1 p @ extra) ! 0 = 1" "(v1_bytes 1 p @ extra) ! 1 = occupancy_tag (ps_state p)"
    by (simp_all add: nth_append V1_LEN_def v1_bytes_nth)
  have "read_v1 (v1_bytes 1 p) (ps_state p) = p"
    using read_v1_bytes[of 1 p "[]"] assms by (simp add: v2_fields_zero_def)
  then show ?thesis
    unfolding presence_decode_v2 t n by simp
qed

definition presence_wire :: "presence \<Rightarrow> bytes" where
  "presence_wire p = snd (presence_encode p (replicate ENCODED_LEN 0))"

lemma presence_wire_eq: "presence_wire p = presence_bytes p"
  by (simp add: presence_wire_def presence_encode_eq)

interpretation presence: wire_codec presence_wire presence_decode "\<lambda>_. True"
  by unfold_locales (use presence_decode_bytes[of _ "[]"] in \<open>simp add: presence_wire_eq\<close>)

text \<open>Conversely, the bytes read are those the record is written as.\<close>

lemma read_v1_take:
  assumes "18 \<le> length b" and "occupancy_from_tag (b ! 1) = Some st"
  shows "v1_bytes (b ! 0) (read_v1 b st) = take 18 b"
proof -
  have "take 18 b = take 10 b @ take 8 (drop 10 b)"
    by (simp flip: take_add)
  also have "take 10 b = map (nth (take 10 b)) [0..<10]"
    using assms(1) list_nths[of "take 10 b"] by simp
  also have "\<dots> = [b ! 0, b ! 1, b ! 2, b ! 3, b ! 4, b ! 5, b ! 6, b ! 7, b ! 8, b ! 9]"
    by (simp add: upt_ten)
  finally have "take 18 b = [b ! 0, b ! 1, b ! 2, b ! 3, b ! 4, b ! 5, b ! 6, b ! 7, b ! 8, b ! 9] @ take 8 (drop 10 b)" .
  moreover have "length (take 8 (drop 10 b)) = 8"
    using assms(1) by simp
  then have "be_bytes 8 (be_word (take 8 (drop 10 b)) :: u64) = take 8 (drop 10 b)"
    using be_bytes_be_word[where 'a = 64, of "take 8 (drop 10 b)"] by simp
  ultimately show ?thesis
    using occupancy_from_tag_Some[OF assms(2)]
    by (simp add: v1_bytes_def read_v1_def presence_default_def be_bytes_u16_at)
qed

lemma read_v2_take:
  assumes "length b = 28"
  shows "v2_tail (read_v2 b p) = drop 18 b"
proof -
  have "drop 18 b = map (nth (drop 18 b)) [0..<10]"
    using assms list_nths[of "drop 18 b"] by simp
  also have "\<dots> = [b ! 18, b ! 19, b ! 20, b ! 21, b ! 22, b ! 23, b ! 24, b ! 25, b ! 26, b ! 27]"
    using assms by (simp add: upt_ten)
  finally show ?thesis
    by (simp add: v2_tail_def read_v2_def be_bytes_u16_at)
qed

lemma read_v2_v1_bytes: "v1_bytes v (read_v2 b p) = v1_bytes v p"
  by (simp add: v1_bytes_def read_v2_def)

section \<open>The baseline's mean\<close>

definition variances :: "features list \<Rightarrow> nat list" where
  "variances fs = map (\<lambda>f. unat (ft_variance f)) (filter (\<lambda>f. ft_count f \<noteq> 0) fs)"

definition baseline_of :: "features list \<Rightarrow> baseline" where
  "baseline_of fs = foldl baseline_calibrate baseline_new fs"

lemma variances_snoc:
  "variances (fs @ [f]) = (if ft_count f = 0 then variances fs else variances fs @ [unat (ft_variance f)])"
  by (simp add: variances_def)

lemma sum_variances_le: "sum_list (variances fs) \<le> length (variances fs) * 4294967295"
proof (induction fs rule: rev_induct)
  case Nil
  then show ?case by (simp add: variances_def)
next
  case (snoc f fs)
  have "unat (ft_variance f) \<le> 4294967295"
    using unat_less[of "ft_variance f"] by simp
  with snoc show ?case
    by (simp add: variances_snoc)
qed

lemma baseline_calibrate_Inv:
  assumes "length (variances (fs @ [f])) < 2 ^ 32" and "ft_count f \<noteq> 0"
    and "unat (bl_sum b) = sum_list (variances fs)" and "unat (bl_frames b) = length (variances fs)"
  shows "unat (bl_sum (baseline_calibrate b f)) = sum_list (variances (fs @ [f])) \<and>
    unat (bl_frames (baseline_calibrate b f)) = length (variances (fs @ [f])) \<and>
    unat (bl_mean (baseline_calibrate b f)) = sum_list (variances (fs @ [f])) div length (variances (fs @ [f]))"
proof -
  let ?V = "variances (fs @ [f])"
  have V: "?V = variances fs @ [unat (ft_variance f)]"
    using assms(2) by (simp add: variances_snoc)
  have le: "sum_list ?V \<le> length ?V * 4294967295"
    by (rule sum_variances_le)
  have lb: "length ?V * 4294967295 \<le> 4294967295 * 4294967295"
    using assms(1) by (intro mult_le_mono1) simp
  have s: "unat (bl_sum b + ucast (ft_variance f)) = sum_list ?V"
    using unat_add_small[of "bl_sum b" "ucast (ft_variance f)"] le lb assms(3)
    by (simp add: V unat_ucast_up)
  have n: "unat (bl_frames b + 1) = length ?V"
    using unat_add_small[of "bl_frames b" 1] assms(1,4) by (simp add: V)
  have m: "sum_list ?V div length ?V \<le> 4294967295"
  proof -
    have "length ?V \<noteq> 0"
      by (simp add: V)
    then have "length ?V * 4294967295 div length ?V = 4294967295"
      by (rule nonzero_mult_div_cancel_left)
    then show ?thesis
      using div_le_mono[OF le, of "length ?V"] by (simp only:)
  qed
  have d: "unat ((bl_sum b + ucast (ft_variance f)) div ucast (bl_frames b + 1)) = sum_list ?V div length ?V"
    by (simp add: unat_div s n unat_ucast_up)
  have "unat (min ((bl_sum b + ucast (ft_variance f)) div ucast (bl_frames b + 1)) 0xFFFFFFFF) = sum_list ?V div length ?V"
    using m d by (simp add: min_def word_le_nat_alt)
  then have "unat (ucast (min ((bl_sum b + ucast (ft_variance f)) div ucast (bl_frames b + 1)) 0xFFFFFFFF) :: u32) =
      sum_list ?V div length ?V"
    using m by (subst unat_ucast_down) simp_all
  then show ?thesis
    using assms(2) s n by (simp add: baseline_calibrate_def Let_def)
qed

lemma baseline_of_inv:
  assumes "length (variances fs) < 2 ^ 32"
  shows "unat (bl_sum (baseline_of fs)) = sum_list (variances fs) \<and>
    unat (bl_frames (baseline_of fs)) = length (variances fs) \<and>
    unat (bl_mean (baseline_of fs)) = sum_list (variances fs) div length (variances fs)"
  using assms
proof (induction fs rule: rev_induct)
  case Nil
  then show ?case
    by (simp add: baseline_of_def baseline_new_def variances_def)
next
  case (snoc f fs)
  have b: "baseline_of (fs @ [f]) = baseline_calibrate (baseline_of fs) f"
    by (simp add: baseline_of_def)
  show ?case
  proof (cases "ft_count f = 0")
    case True
    then show ?thesis
      using snoc by (simp add: b variances_snoc baseline_calibrate_def)
  next
    case False
    then have "length (variances fs) < 2 ^ 32"
      using snoc.prems by (simp add: variances_snoc)
    then show ?thesis
      unfolding b using baseline_calibrate_Inv[OF snoc.prems False] snoc.IH by blast
  qed
qed

lemma baseline_distance_eq:
  "unat (baseline_distance b f) =
     (if bl_mean b = 0 \<or> ft_count f = 0 then 0
      else min (nat \<bar>int (unat (ft_variance f)) - int (unat (bl_mean b))\<bar> * 1000 div unat (bl_mean b)) 65535)"
proof (cases "bl_mean b = 0 \<or> ft_count f = 0")
  case True
  then show ?thesis
    by (simp add: baseline_distance_def)
next
  case False
  let ?v = "ft_variance f" and ?m = "bl_mean b"
  define e where "e = (if ?v \<ge> ?m then ?v - ?m else ?m - ?v)"
  have e: "unat e = nat \<bar>int (unat ?v) - int (unat ?m)\<bar>"
  proof -
    have "unat e = (if unat ?m \<le> unat ?v then unat ?v - unat ?m else unat ?m - unat ?v)"
      unfolding e_def by (auto simp: word_le_nat_alt unat_sub not_le)
    moreover have "(if b \<le> a then a - b else b - a) = nat \<bar>int a - int b\<bar>" for a b :: nat
      by auto
    ultimately show ?thesis
      by (simp only:)
  qed
  have u: "unat (ucast e :: u64) = unat e" "unat (ucast ?m :: u64) = unat ?m"
    by (simp_all add: unat_ucast_up)
  have "unat e \<le> 4294967295"
    using unat_less[of e] by simp
  then have p: "unat ((ucast e :: u64) * 1000) = unat e * 1000"
    using unat_mult_small[of "ucast e :: u64" 1000] u by simp
  have d: "unat ((ucast e :: u64) * 1000 div ucast ?m) = unat e * 1000 div unat ?m"
    by (simp only: unat_div p u)
  have m: "unat (min ((ucast e :: u64) * 1000 div ucast ?m) 0xFFFF) = min (unat e * 1000 div unat ?m) 65535"
    using d by (simp add: min_def word_le_nat_alt)
  have "baseline_distance b f = ucast (min ((ucast e :: u64) * 1000 div ucast ?m) 0xFFFF)"
    using False by (simp add: baseline_distance_def e_def Let_def)
  moreover have "unat (ucast (min ((ucast e :: u64) * 1000 div ucast ?m) 0xFFFF) :: u16) =
      min (unat e * 1000 div unat ?m) 65535"
    by (subst unat_ucast_down) (simp_all only: m, simp)
  ultimately show ?thesis
    using False e by simp
qed

section \<open>Properties\<close>

lemma presence_decode_exact:
  "presence_decode bs = Inr p \<longleftrightarrow>
     (\<exists>extra. bs = presence_wire p @ extra) \<or> (v2_fields_zero p \<and> (\<exists>extra. bs = v1_bytes 1 p @ extra))"
proof
  assume "presence_decode bs = Inr p"
  then consider (v2) st where "ENCODED_LEN \<le> length bs" "bs ! 0 = PRESENCE_VERSION"
      "occupancy_from_tag (bs ! 1) = Some st" "p = read_v2 (take ENCODED_LEN bs) (read_v1 (take ENCODED_LEN bs) st)"
    | (v1) st where "V1_LEN \<le> length bs" "bs ! 0 = 1" "occupancy_from_tag (bs ! 1) = Some st"
      "p = read_v1 (take V1_LEN bs) st"
    unfolding presence_decode_v2 by blast
  then show "(\<exists>extra. bs = presence_wire p @ extra) \<or> (v2_fields_zero p \<and> (\<exists>extra. bs = v1_bytes 1 p @ extra))"
  proof cases
    case v2
    let ?b = "take ENCODED_LEN bs"
    have b: "length ?b = 28" "?b ! 0 = PRESENCE_VERSION" "occupancy_from_tag (?b ! 1) = Some st"
      using v2 by (simp_all add: ENCODED_LEN_def)
    have l: "18 \<le> length ?b"
      unfolding b(1) by simp
    have "presence_bytes p = take 18 ?b @ drop 18 ?b"
      unfolding presence_bytes_def v2(4) read_v2_v1_bytes read_v1_take[OF l b(3), unfolded b(2)] read_v2_take[OF b(1)] ..
    then have "bs = presence_wire p @ drop ENCODED_LEN bs"
      unfolding presence_wire_eq append_take_drop_id by (simp only: append_take_drop_id)
    then show ?thesis
      by blast
  next
    case v1
    let ?b = "take V1_LEN bs"
    have b: "length ?b = 18" "?b ! 0 = 1" "occupancy_from_tag (?b ! 1) = Some st"
      using v1 by (simp_all add: V1_LEN_def)
    have l: "18 \<le> length ?b"
      unfolding b(1) by simp
    have "v1_bytes 1 p = take 18 ?b"
      unfolding v1(4) read_v1_take[OF l b(3), unfolded b(2)] ..
    then have "v1_bytes 1 p = ?b"
      using b(1) by (simp only: take_all order_refl)
    then have "bs = v1_bytes 1 p @ drop V1_LEN bs"
      by simp
    moreover have "v2_fields_zero p"
      using v1(4) by (simp add: v2_fields_zero_def read_v1_def presence_default_def)
    ultimately show ?thesis
      by blast
  qed
qed (auto simp: presence_wire_eq presence_decode_bytes presence_decode_v1_bytes)

lemma only_accepted_rates_on_the_wire:
  "\<exists>q. presence_decode (presence_wire (with_vitals p breathing heart)) = Inr q \<and>
     (ps_breathing_bpm_x10 q = 0 \<or> (\<exists>v. breathing = Some v \<and> vt_accepted v \<and> ps_breathing_bpm_x10 q = vt_bpm_x10 v)) \<and>
     (ps_heart_bpm_x10 q = 0 \<or> (\<exists>v. heart = Some v \<and> vt_accepted v \<and> ps_heart_bpm_x10 q = vt_bpm_x10 v))"
  by (rule exI[of _ "with_vitals p breathing heart"])
    (simp add: presence.dec_enc, simp add: with_vitals_def carry_rate_def split: option.split)

lemma fingerprint_distance_exact:
  assumes "length (variances fs) < 2 ^ 32" and "ft_count f \<noteq> 0"
  shows "unat (baseline_distance (baseline_of fs) f) =
    (let mean = sum_list (variances fs) div length (variances fs)
     in if mean = 0 then 0
        else min (nat \<bar>int (unat (ft_variance f)) - int mean\<bar> * 1000 div mean) 65535)"
proof -
  have m: "unat (bl_mean (baseline_of fs)) = sum_list (variances fs) div length (variances fs)"
    using baseline_of_inv[OF assms(1)] by blast
  have z: "bl_mean (baseline_of fs) = 0 \<longleftrightarrow> sum_list (variances fs) div length (variances fs) = 0"
    unfolding m[symmetric] by (simp only: unat_eq_0)
  show ?thesis
    unfolding baseline_distance_eq Let_def m z using assms(2) by simp
qed

end
