(* ===== verification/Csi_Stream.thy ===== *)
theory Csi_Stream
  imports Csi
begin

text \<open>
  One CSI frame on the wire (\<open>crates/rusty_esp_signal-core/src/radar/csi_stream.rs\<close>): raw samples with the
  tag of their layout, from which a subscriber computes the features the device did.
\<close>

definition STREAM_VERSION :: u8 where "STREAM_VERSION = 1"
definition STREAM_HEADER_LEN :: nat where "STREAM_HEADER_LEN = 13"
definition MAX_IQ :: nat where "MAX_IQ = 2 * MAX_SUBCARRIERS"
definition STREAM_MAX_LEN :: nat where "STREAM_MAX_LEN = STREAM_HEADER_LEN + MAX_IQ"
definition TAG_UNKNOWN :: u8 where "TAG_UNKNOWN = 0"
definition TAG_LLTF_20MHZ :: u8 where "TAG_LLTF_20MHZ = 1"
definition TAG_HTLTF_20MHZ :: u8 where "TAG_HTLTF_20MHZ = 2"
definition TAG_C6_HT20_NATURAL :: u8 where "TAG_C6_HT20_NATURAL = 3"
definition TAG_DENSE_64 :: u8 where "TAG_DENSE_64 = 4"

definition TAGS :: "(u8 \<times> layout) list" where
  "TAGS = [(TAG_LLTF_20MHZ, LLTF_20MHZ), (TAG_HTLTF_20MHZ, HTLTF_20MHZ),
           (TAG_C6_HT20_NATURAL, C6_HT20_NATURAL), (TAG_DENSE_64, DENSE_64)]"

definition layout_of :: "u8 \<Rightarrow> layout option" where
  "layout_of tag = map_option snd (find (\<lambda>(t, _). t = tag) TAGS)"

definition tag_of :: "layout \<Rightarrow> u8 option" where
  "tag_of l = map_option fst (find (\<lambda>(_, k). k = l) TAGS)"

record sample =
  sm_at :: micros
  sm_rssi :: i8
  sm_channel :: u8
  sm_layout :: u8
  sm_len :: u8
  sm_iq :: "i8 list"

definition sample_from_iq :: "micros \<Rightarrow> i8 \<Rightarrow> u8 \<Rightarrow> u8 \<Rightarrow> i8 list \<Rightarrow> err + sample" where
  "sample_from_iq t rssi channel tag iq =
     (if length iq > MAX_IQ then Inl InvalidGeometry
      else
        let buf = write_at (replicate MAX_IQ 0) 0 iq in
        if length iq > 255 then Inl InvalidGeometry
        else Inr \<lparr>sm_at = t, sm_rssi = rssi, sm_channel = channel, sm_layout = tag,
                  sm_len = of_nat (length iq), sm_iq = buf\<rparr>)"

definition sample_iq :: "sample \<Rightarrow> i8 list" where
  "sample_iq s = take (min (unat (sm_len s)) MAX_IQ) (sm_iq s)"

definition sample_encoded_len :: "sample \<Rightarrow> nat" where
  "sample_encoded_len s = STREAM_HEADER_LEN + length (sample_iq s)"

definition sample_encode :: "sample \<Rightarrow> bytes \<Rightarrow> (err + nat) \<times> bytes" where
  "sample_encode s out =
     (let iq = sample_iq s; needed = STREAM_HEADER_LEN + length iq in
      if length out < needed then (Inl (BufferTooSmall needed), out)
      else
        let out = write_at out 0 [STREAM_VERSION];
            out = write_at out 1 [sm_layout s];
            out = write_at out 2 [sm_rssi s];
            out = write_at out 3 [sm_channel s];
            out = write_at out 4 (le_bytes 8 (sm_at s))
        in if length iq > 255 then (Inl InvalidGeometry, out)
           else
             let out = write_at out 12 [of_nat (length iq)];
                 out = write_at out STREAM_HEADER_LEN iq
             in (Inr needed, out))"

definition sample_decode :: "bytes \<Rightarrow> err + sample" where
  "sample_decode bs =
     rbind (ok_or (slice_get bs 0 STREAM_HEADER_LEN) InvalidFormat) (\<lambda>hd.
       if hd ! 0 \<noteq> STREAM_VERSION then Inl InvalidFormat
       else let n = unat (hd ! 12) in
         if n > MAX_IQ \<or> length bs \<noteq> STREAM_HEADER_LEN + n then Inl InvalidFormat
         else Inr \<lparr>sm_at = le_word (take 8 (drop 4 hd)), sm_rssi = hd ! 2, sm_channel = hd ! 3,
                   sm_layout = hd ! 1, sm_len = hd ! 12,
                   sm_iq = write_at (replicate MAX_IQ 0) 0 (take MAX_IQ (drop STREAM_HEADER_LEN bs))\<rparr>)"

definition sample_features :: "(u32 \<Rightarrow> u32) \<Rightarrow> sample \<Rightarrow> err + features" where
  "sample_features isqrt s =
     rbind (ok_or (layout_of (sm_layout s)) Unsupported) (\<lambda>l.
       features_of isqrt \<lparr>cf_timestamp = sm_at s, cf_rssi = sm_rssi s, cf_channel = sm_channel s,
                          cf_iq = sample_iq s\<rparr> l)"

section \<open>The wire form\<close>

definition sample_bytes :: "sample \<Rightarrow> bytes" where
  "sample_bytes s =
     [STREAM_VERSION, sm_layout s, sm_rssi s, sm_channel s] @ le_bytes 8 (sm_at s) @ [sm_len s] @ sample_iq s"

definition sample_wf :: "sample \<Rightarrow> bool" where
  "sample_wf s \<longleftrightarrow> unat (sm_len s) \<le> MAX_IQ \<and>
     sm_iq s = sample_iq s @ replicate (MAX_IQ - unat (sm_len s)) 0 \<and> length (sample_iq s) = unat (sm_len s)"

lemma sample_encode_eq:
  assumes "sample_wf s" and "sample_encoded_len s \<le> length out"
  shows "sample_encode s out = (Inr (sample_encoded_len s), sample_bytes s @ drop (sample_encoded_len s) out)"
proof -
  have n: "length (sample_iq s) \<le> 128" "(of_nat (length (sample_iq s)) :: u8) = sm_len s"
    using assms(1) by (simp_all add: sample_wf_def MAX_IQ_def MAX_SUBCARRIERS_def)
  show ?thesis
    using assms(2) n
    by (simp add: sample_encode_def Let_def write_at_walk sample_bytes_def sample_encoded_len_def STREAM_HEADER_LEN_def add.commute)
qed

lemma length_sample_bytes: "length (sample_bytes s) = sample_encoded_len s"
  by (simp add: sample_bytes_def sample_encoded_len_def STREAM_HEADER_LEN_def)

definition sample_wire :: "sample \<Rightarrow> bytes" where
  "sample_wire s = snd (sample_encode s (replicate (sample_encoded_len s) 0))"

lemma sample_wire_eq: "sample_wf s \<Longrightarrow> sample_wire s = sample_bytes s"
  by (simp add: sample_wire_def sample_encode_eq)

lemma sample_decode_iff:
  "sample_decode bs = Inr s \<longleftrightarrow>
     STREAM_HEADER_LEN \<le> length bs \<and> bs ! 0 = STREAM_VERSION \<and> unat (bs ! 12) \<le> MAX_IQ \<and>
     length bs = STREAM_HEADER_LEN + unat (bs ! 12) \<and>
     s = \<lparr>sm_at = le_word (take 8 (drop 4 bs)), sm_rssi = bs ! 2, sm_channel = bs ! 3, sm_layout = bs ! 1,
          sm_len = bs ! 12, sm_iq = drop STREAM_HEADER_LEN bs @ replicate (MAX_IQ - unat (bs ! 12)) 0\<rparr>"
proof (cases "STREAM_HEADER_LEN \<le> length bs")
  case True
  define n where "n = unat (bs ! 12)"
  have hd: "slice_get bs 0 STREAM_HEADER_LEN = Some (take 13 bs)"
    using True by (simp add: slice_get_def STREAM_HEADER_LEN_def)
  have nth: "take 13 bs ! i = bs ! i" if "i < 13" for i
    using that by simp
  have d: "take 8 (drop 4 (take 13 bs)) = take 8 (drop 4 bs)"
    by (simp add: drop_take min_def)
  have iq: "write_at (replicate MAX_IQ 0) 0 (take MAX_IQ (drop STREAM_HEADER_LEN bs)) =
      drop STREAM_HEADER_LEN bs @ replicate (MAX_IQ - n) 0"
    if "n \<le> MAX_IQ" "length bs = STREAM_HEADER_LEN + n"
    using that by (simp add: write_at_def)
  show ?thesis
    using True iq unfolding sample_decode_def hd ok_or_simps rbind_simps Let_def d n_def
    by (auto simp: nth)
qed (auto simp: sample_decode_def slice_get_def)

lemma sample_decode_bytes:
  assumes wf: "sample_wf s"
  shows "sample_decode (sample_bytes s) = Inr s"
proof -
  let ?t = "le_bytes 8 (sm_at s)"
  have l: "sample_bytes s = STREAM_VERSION # sm_layout s # sm_rssi s # sm_channel s # (?t @ sm_len s # sample_iq s)"
    by (simp add: sample_bytes_def)
  have n: "sample_bytes s ! 0 = STREAM_VERSION" "sample_bytes s ! 1 = sm_layout s" "sample_bytes s ! 2 = sm_rssi s"
    "sample_bytes s ! 3 = sm_channel s" "sample_bytes s ! 12 = sm_len s"
    unfolding l by (simp_all add: nth_append)
  have d: "take 8 (drop 4 (sample_bytes s)) = ?t" "drop STREAM_HEADER_LEN (sample_bytes s) = sample_iq s"
    unfolding l by (simp_all add: STREAM_HEADER_LEN_def)
  have len: "length (sample_bytes s) = STREAM_HEADER_LEN + unat (sm_len s)" "unat (sm_len s) \<le> MAX_IQ"
    using wf by (simp_all add: length_sample_bytes sample_encoded_len_def sample_wf_def)
  have "sm_iq s = sample_iq s @ replicate (MAX_IQ - unat (sm_len s)) 0"
    using wf by (simp add: sample_wf_def)
  then show ?thesis
    unfolding sample_decode_iff n d using len by simp
qed

interpretation sample: wire_codec sample_wire sample_decode sample_wf
  by unfold_locales (simp add: sample_wire_eq sample_decode_bytes)

lemma sample_decode_Inr:
  assumes "sample_decode bs = Inr s"
  shows "sample_wf s \<and> bs = sample_bytes s"
proof -
  let ?n = "unat (bs ! 12)"
  have h: "bs ! 0 = STREAM_VERSION" "?n \<le> MAX_IQ" "length bs = 13 + ?n"
    and s: "s = \<lparr>sm_at = le_word (take 8 (drop 4 bs)), sm_rssi = bs ! 2, sm_channel = bs ! 3, sm_layout = bs ! 1,
          sm_len = bs ! 12, sm_iq = drop 13 bs @ replicate (MAX_IQ - ?n) 0\<rparr>"
    using assms unfolding sample_decode_iff STREAM_HEADER_LEN_def by blast+
  have iq: "sample_iq s = drop 13 bs"
    using h by (simp add: sample_iq_def s)
  have wf: "sample_wf s"
    using h(2,3) unfolding sample_wf_def iq by (simp add: s)
  have "length (take 8 (drop 4 bs)) = 8"
    using h(3) by simp
  then have t: "le_bytes 8 (le_word (take 8 (drop 4 bs)) :: u64) = take 8 (drop 4 bs)"
    using be_bytes_be_word[where 'a = 64, of "rev (take 8 (drop 4 bs))"] by (simp add: le_bytes_def le_word_def)
  have four: "take 4 bs = [bs ! 0, bs ! 1, bs ! 2, bs ! 3]"
    using h(3) by (intro nth_equalityI) (auto simp: less_Suc_eq numeral_eq_Suc)
  have "bs = take 4 bs @ take 8 (drop 4 bs) @ [bs ! 12] @ drop 13 bs"
  proof -
    have "drop 12 bs = bs ! 12 # drop 13 bs"
      using h(3) Cons_nth_drop_Suc[of 12 bs] by simp
    moreover have "bs = take 4 bs @ take 8 (drop 4 bs) @ drop 8 (drop 4 bs)"
      by (simp only: append_take_drop_id)
    ultimately show ?thesis
      by simp
  qed
  then have "bs = sample_bytes s"
    unfolding sample_bytes_def iq four using t h(1) by (simp add: s)
  with wf show ?thesis ..
qed

lemma sample_from_iq_wf:
  assumes "length iq \<le> MAX_IQ"
  shows "\<exists>s. sample_from_iq t rssi channel tag iq = Inr s \<and> sample_wf s \<and> sample_iq s = iq \<and>
    sm_at s = t \<and> sm_rssi s = rssi \<and> sm_channel s = channel \<and> sm_layout s = tag"
proof -
  have l: "length iq \<le> 128"
    using assms by (simp add: MAX_IQ_def MAX_SUBCARRIERS_def)
  then have "unat (of_nat (length iq) :: u8) = length iq"
    by (simp add: unat_of_nat)
  then show ?thesis
    using assms l by (simp add: sample_from_iq_def Let_def write_at_0 sample_wf_def sample_iq_def)
qed

section \<open>Properties\<close>

lemma sample_decode_exact: "sample_decode bs = Inr s \<longleftrightarrow> sample_wf s \<and> bs = sample_wire s"
  using sample_decode_Inr[of bs s] sample_decode_bytes[of s] by (auto simp: sample_wire_eq)

lemma subscriber_features_agree:
  assumes "length iq \<le> MAX_IQ" and "layout_of tag = Some l"
  shows "\<exists>s q. sample_from_iq t rssi channel tag iq = Inr s \<and> sample_decode (sample_wire s) = Inr q \<and>
    sample_features isqrt q =
      features_of isqrt \<lparr>cf_timestamp = t, cf_rssi = rssi, cf_channel = channel, cf_iq = iq\<rparr> l"
proof -
  obtain s where s: "sample_from_iq t rssi channel tag iq = Inr s" "sample_wf s" "sample_iq s = iq"
    "sm_at s = t" "sm_rssi s = rssi" "sm_channel s = channel" "sm_layout s = tag"
    using sample_from_iq_wf[OF assms(1)] by blast
  have "sample_features isqrt s =
      features_of isqrt \<lparr>cf_timestamp = t, cf_rssi = rssi, cf_channel = channel, cf_iq = iq\<rparr> l"
    unfolding sample_features_def s(3-7) assms(2) by simp
  with s(1) sample.dec_enc[OF s(2)] show ?thesis
    by blast
qed

end
