(* ===== verification/Fifo.thy ===== *)
theory Fifo
  imports Window "HOL-Library.Sublist"
begin

text \<open>
  Bounded queues kept in rings. An array, the index of the oldest element and a length stand for the first
  \<open>len\<close> elements of the array rotated to that index. The interface \<open>bounded_fifo\<close> is what the two queues of
  the program promise, whichever end they give up when they are full: what comes out is what went in, in order,
  less what was counted lost.
\<close>

section \<open>Rings\<close>

definition circ :: "'a list \<Rightarrow> nat \<Rightarrow> nat \<Rightarrow> 'a list" where
  "circ ring head len = take len (rotate head ring)"

lemma length_circ [simp]: "length (circ ring head len) = min len (length ring)"
  by (simp add: circ_def min.commute)

lemma circ_0 [simp]: "circ ring head 0 = []"
  by (simp add: circ_def)

lemma nth_circ: "i < len \<Longrightarrow> len \<le> length ring \<Longrightarrow> circ ring head len ! i = ring ! ((head + i) mod length ring)"
  by (simp add: circ_def nth_rotate)

lemma circ_mod [simp]: "circ ring (head mod length ring) len = circ ring head len"
  by (simp add: circ_def rotate_drop_take)

lemma circ_take: "take n (circ ring head len) = circ ring head (min n len)"
  by (simp add: circ_def min.commute)

lemma mod_distinct:
  fixes i j n h :: nat
  assumes "i < j" and "j < i + n"
  shows "(h + i) mod n \<noteq> (h + j) mod n"
proof
  assume "(h + i) mod n = (h + j) mod n"
  then have "n dvd (h + j) - (h + i)"
    by (metis add_le_cancel_left assms(1) less_imp_le mod_eq_dvd_iff_nat)
  then show False
    using assms by (auto dest: dvd_imp_le)
qed

lemma circ_update_outside:
  assumes "len \<le> length ring" and "\<And>i. i < len \<Longrightarrow> (head + i) mod length ring \<noteq> j"
  shows "circ (ring[j := x]) head len = circ ring head len"
proof (rule nth_equalityI)
  fix i
  assume "i < length (circ (ring[j := x]) head len)"
  then have "i < len"
    by simp
  then show "circ (ring[j := x]) head len ! i = circ ring head len ! i"
    using assms(1) assms(2)[of i] by (simp add: nth_circ)
qed simp

lemma circ_snoc:
  assumes "len < length ring"
  shows "circ (ring[(head + len) mod length ring := x]) head (len + 1) = circ ring head len @ [x]"
proof (rule nth_equalityI)
  fix i
  assume "i < length (circ (ring[(head + len) mod length ring := x]) head (len + 1))"
  then have i: "i \<le> len"
    using assms by simp
  have "(head + len) mod length ring < length ring"
    using assms by (intro mod_less_divisor) auto
  then show "circ (ring[(head + len) mod length ring := x]) head (len + 1) ! i = (circ ring head len @ [x]) ! i"
    using i assms mod_distinct[of i len "length ring" head]
    by (cases "i = len") (auto simp: nth_append nth_circ)
qed (use assms in simp)

lemma circ_Cons: "0 < len \<Longrightarrow> len \<le> length ring \<Longrightarrow> head < length ring \<Longrightarrow>
    circ ring head len = ring ! head # circ ring (head + 1) (len - 1)"
  by (rule nth_equalityI) (auto simp: nth_circ nth_Cons')

lemma circ_drop: "n \<le> len \<Longrightarrow> len \<le> length ring \<Longrightarrow> drop n (circ ring head len) = circ ring (head + n) (len - n)"
  by (rule nth_equalityI) (auto simp: nth_circ add.assoc)

text \<open>A block written into a ring, in two copies when it wraps round the end.\<close>

lemma write_at_snoc:
  assumes "i + length ys < length xs"
  shows "write_at xs i (ys @ [y]) = (write_at xs i ys)[i + length ys := y]"
proof -
  have "drop (i + length ys) xs = xs ! (i + length ys) # drop (Suc (i + length ys)) xs"
    using assms by (simp add: Cons_nth_drop_Suc)
  then show ?thesis
    using assms by (simp add: write_at_def list_update_append)
qed

definition write_wrapped :: "'a list \<Rightarrow> nat \<Rightarrow> 'a list \<Rightarrow> 'a list" where
  "write_wrapped ring tail data =
     (let first = min (length data) (length ring - tail)
      in write_at (write_at ring tail (take first data)) 0 (drop first data))"

lemma write_wrapped_snoc:
  assumes "length data < length ring" and "tail < length ring"
  shows "write_wrapped ring tail (data @ [x]) = (write_wrapped ring tail data)[(tail + length data) mod length ring := x]"
proof (cases "length data < length ring - tail")
  case True
  then show ?thesis
    using assms write_at_snoc[of tail data ring x] by (simp add: write_wrapped_def write_at_def[of _ 0])
next
  case False
  define f where "f = length ring - tail"
  have f: "f \<le> length data" "tail + f = length ring"
    using False assms(2) by (simp_all add: f_def)
  have m: "(tail + length data) mod length ring = length data - f"
  proof -
    have "tail + length data = length ring + (length data - f)"
      using f by simp
    then have "(tail + length data) mod length ring = (length data - f) mod length ring"
      by (simp only: mod_add_self1)
    then show ?thesis
      using assms(1) by simp
  qed
  have w: "write_wrapped ring tail ys = write_at (write_at ring tail (take f ys)) 0 (drop f ys)" if "f \<le> length ys" for ys
    unfolding write_wrapped_def f_def[symmetric] Let_def min_absorb2[OF that] by (rule refl)
  let ?o = "write_at ring tail (take f data)"
  have "length ?o = length ring"
    using f by simp
  then have "0 + length (drop f data) < length ?o"
    using assms(1) by simp
  then have "write_at ?o 0 (drop f data @ [x]) = (write_at ?o 0 (drop f data))[length data - f := x]"
    by (subst write_at_snoc) simp_all
  moreover have "take f (data @ [x]) = take f data" "drop f (data @ [x]) = drop f data @ [x]" "f \<le> length (data @ [x])"
    using f(1) by simp_all
  ultimately show ?thesis
    unfolding m w[OF f(1)] by (simp only: w)
qed

lemma length_write_wrapped [simp]:
  "length data \<le> length ring \<Longrightarrow> tail < length ring \<Longrightarrow> length (write_wrapped ring tail data) = length ring"
  by (cases "length data \<le> length ring - tail") (simp_all add: write_wrapped_def Let_def)

lemma circ_append:
  assumes "len + length data \<le> length ring" and "0 < length ring"
  shows "circ (write_wrapped ring ((head + len) mod length ring) data) head (len + length data) = circ ring head len @ data"
  using assms(1)
proof (induction data rule: rev_induct)
  case Nil
  then show ?case
    by (simp add: write_wrapped_def write_at_def)
next
  case (snoc x data)
  let ?w = "write_wrapped ring ((head + len) mod length ring) data"
  have l: "length ?w = length ring"
    using snoc.prems assms(2) by simp
  have "((head + len) mod length ring + length data) mod length ring = (head + (len + length data)) mod length ring"
    by (simp add: mod_add_left_eq add.assoc)
  then have "write_wrapped ring ((head + len) mod length ring) (data @ [x]) = ?w[(head + (len + length data)) mod length ?w := x]"
    using write_wrapped_snoc[of data ring "(head + len) mod length ring" x] snoc.prems assms(2) by (simp add: l)
  then show ?case
    using circ_snoc[of "len + length data" ?w head x] snoc by (simp add: l)
qed

lemma circ_blocks:
  assumes "head < length ring" and "n \<le> length ring"
  shows "take (min n (length ring - head)) (drop head ring) @ take (n - min n (length ring - head)) ring = circ ring head n"
proof -
  have "n + head - length ring \<le> head"
    using assms by arith
  then show ?thesis
    using assms by (cases "n \<le> length ring - head") (simp_all add: circ_def rotate_drop_take)
qed

section \<open>The interface\<close>

datatype 'a fifo_op = Put "'a list" | Get nat

fun fifo_run :: "('s \<Rightarrow> 'a list \<Rightarrow> 's) \<Rightarrow> (nat \<Rightarrow> 's \<Rightarrow> 'a list \<times> 's) \<Rightarrow> 'a fifo_op list \<Rightarrow> 's \<Rightarrow> 'a list \<times> 's" where
  "fifo_run put get [] s = ([], s)"
| "fifo_run put get (Put xs # ops) s = fifo_run put get ops (put s xs)"
| "fifo_run put get (Get n # ops) s =
     (let (out, s) = get n s; (outs, s) = fifo_run put get ops s in (out @ outs, s))"

fun fifo_input :: "'a fifo_op list \<Rightarrow> 'a list" where
  "fifo_input [] = []"
| "fifo_input (Put xs # ops) = xs @ fifo_input ops"
| "fifo_input (Get n # ops) = fifo_input ops"

locale bounded_fifo =
  fixes view :: "'s \<Rightarrow> 'a list"
    and ok :: "'s \<Rightarrow> bool"
    and put :: "'s \<Rightarrow> 'a list \<Rightarrow> 's"
    and get :: "nat \<Rightarrow> 's \<Rightarrow> 'a list \<times> 's"
    and lost :: "'s \<Rightarrow> u32"
    and fit :: "'a list \<Rightarrow> 'a list"
  assumes fit: "subseq (fit xs) xs"
    and put: "ok s \<Longrightarrow> ok (put s xs) \<and> view (put s xs) = fit (view s @ xs) \<and>
      lost (put s xs) = lost s + of_nat (length (view s @ xs) - length (fit (view s @ xs)))"
    and get: "ok s \<Longrightarrow> fst (get n s) = take n (view s) \<and> ok (snd (get n s)) \<and>
      view (snd (get n s)) = drop n (view s) \<and> lost (snd (get n s)) = lost s"
begin

lemma subseq_left: "subseq (fit xs @ ys) (xs @ ys)"
  using fit[of xs] by (rule list_emb_append_mono) simp

text \<open>What came out and what waits is what went in, in order, less what was given up.\<close>

lemma in_order:
  "ok s \<Longrightarrow> fifo_run put get ops s = (outs, s') \<Longrightarrow> ok s' \<and> subseq (outs @ view s') (view s @ fifo_input ops)"
proof (induction ops arbitrary: s outs)
  case (Cons op ops)
  show ?case
  proof (cases op)
    case (Put xs)
    then have "fifo_run put get ops (put s xs) = (outs, s')"
      using Cons.prems(2) by simp
    then have "ok s'" "subseq (outs @ view s') (view (put s xs) @ fifo_input ops)"
      using Cons.IH[of "put s xs"] put[OF Cons.prems(1), of xs] by blast+
    moreover have "subseq (view (put s xs) @ fifo_input ops) ((view s @ xs) @ fifo_input ops)"
      using put[OF Cons.prems(1), of xs] subseq_left[of "view s @ xs" "fifo_input ops"] by simp
    ultimately show ?thesis
      using Put by (auto intro: subseq_order.trans)
  next
    case (Get n)
    obtain out t where g: "get n s = (out, t)"
      by (meson surj_pair)
    obtain outs' where r: "fifo_run put get ops t = (outs', s')" "outs = out @ outs'"
      using Cons.prems(2) by (auto simp: Get g split: prod.splits)
    have t: "out = take n (view s)" "ok t" "view t = drop n (view s)"
      using get[OF Cons.prems(1), of n] by (simp_all add: g)
    have "ok s'" and sub: "subseq (outs' @ view s') (view t @ fifo_input ops)"
      using Cons.IH[OF t(2) r(1)] by auto
    have "subseq (out @ outs' @ view s') (out @ view t @ fifo_input ops)"
      by (rule list_emb_append_mono[OF _ sub]) simp
    moreover have "out @ view t @ xs = view s @ xs" for xs
      by (simp add: t(1,3) flip: append_assoc)
    ultimately show ?thesis
      using \<open>ok s'\<close> by (simp add: Get r(2))
  qed
qed simp

text \<open>And the count of what was given up is right, modulo its width.\<close>

lemma accounted:
  "ok s \<Longrightarrow> fifo_run put get ops s = (outs, s') \<Longrightarrow>
    lost s' + of_nat (length outs + length (view s')) = lost s + of_nat (length (view s) + length (fifo_input ops))"
proof (induction ops arbitrary: s outs)
  case (Cons op ops)
  show ?case
  proof (cases op)
    case (Put xs)
    note p = put[OF Cons.prems(1), of xs]
    have le: "length (fit (view s @ xs)) \<le> length (view s @ xs)"
      using list_emb_length[OF fit] .
    have "lost s' + of_nat (length outs + length (view s')) =
        lost (put s xs) + of_nat (length (view (put s xs)) + length (fifo_input ops))"
      using Cons.IH[of "put s xs"] p Cons.prems(2) by (simp add: Put)
    also have "\<dots> = lost s + (of_nat (length (view s @ xs) - length (fit (view s @ xs))) + of_nat (length (fit (view s @ xs))))
        + of_nat (length (fifo_input ops))"
      using p by simp
    also have "of_nat (length (view s @ xs) - length (fit (view s @ xs))) + of_nat (length (fit (view s @ xs))) =
        (of_nat (length (view s @ xs)) :: u32)"
      unfolding of_nat_add[symmetric] using le by simp
    finally show ?thesis
      by (simp add: Put)
  next
    case (Get n)
    obtain out t where g: "get n s = (out, t)"
      by (meson surj_pair)
    obtain outs' where r: "fifo_run put get ops t = (outs', s')" "outs = out @ outs'"
      using Cons.prems(2) by (auto simp: Get g split: prod.splits)
    have t: "out = take n (view s)" "ok t" "view t = drop n (view s)" "lost t = lost s"
      using get[OF Cons.prems(1), of n] by (simp_all add: g)
    have "length (view s) = length out + length (view t)"
      using t(1,3) by simp
    then show ?thesis
      using Cons.IH[OF t(2) r(1)] t(4) by (simp add: Get r(2) algebra_simps)
  qed
qed simp

end

end
