(* ===== verification/Csi_Queue.thy ===== *)
theory Csi_Queue
  imports Fifo Csi_Stream
begin

text \<open>
  From the radio's callback to the sketch (\<open>crates/rusty_esp_signal-esp/src/csi_queue.rs\<close>): the chip's buffer into
  a frame, and the ring the callback fills and the sketch drains. When the sketch is late the oldest frame goes,
  counted.
\<close>

section \<open>Ingest\<close>

record csi_reading =
  cr_at :: micros
  cr_rssi :: i8
  cr_channel :: u8
  cr_features :: features
  cr_layout :: u8
  cr_len :: u8
  cr_iq :: "i8 list"

definition reading_sample :: "csi_reading \<Rightarrow> sample" where
  "reading_sample r = \<lparr>sm_at = cr_at r, sm_rssi = cr_rssi r, sm_channel = cr_channel r, sm_layout = cr_layout r,
     sm_len = cr_len r, sm_iq = cr_iq r\<rparr>"

datatype short = ShortBuffer | ShortLayout

text \<open>
  \<open>ingest\<close> with the buffer it leaves behind. \<open>None\<close> is the panic of blanking four bytes of a buffer that has
  fewer, which only a layout of fewer than two entries allows.
\<close>

definition ingest ::
  "(u32 \<Rightarrow> u32) \<Rightarrow> i8 list \<Rightarrow> bool \<Rightarrow> layout \<Rightarrow> i8 \<Rightarrow> u8 \<Rightarrow> micros \<Rightarrow> (short + csi_reading) option \<times> i8 list" where
  "ingest isqrt iq first_word_invalid l rssi channel now =
     (if length iq < 2 * ly_entries l then (Some (Inl ShortBuffer), iq)
      else if first_word_invalid \<and> length iq < 4 then (None, iq)
      else
        let iq = (if first_word_invalid then replicate 4 0 @ drop 4 iq else iq)
        in case features_of isqrt \<lparr>cf_timestamp = now, cf_rssi = rssi, cf_channel = channel, cf_iq = iq\<rparr> l of
             Inl _ \<Rightarrow> (Some (Inl ShortLayout), iq)
           | Inr f \<Rightarrow>
               let n = min (length iq) MAX_IQ
               in (Some (Inr \<lparr>cr_at = now, cr_rssi = rssi, cr_channel = channel, cr_features = f,
                     cr_layout = (case tag_of l of Some t \<Rightarrow> t | None \<Rightarrow> TAG_UNKNOWN),
                     cr_len = (if n < 256 then of_nat n else 255),
                     cr_iq = take n iq @ replicate (MAX_IQ - n) 0\<rparr>), iq))"

section \<open>The ring\<close>

record csi_ring =
  rg_frames :: "csi_reading option list"
  rg_head :: nat
  rg_len :: nat
  rg_dropped :: u32

definition ring_new :: "nat \<Rightarrow> csi_ring" where
  "ring_new N = \<lparr>rg_frames = replicate N None, rg_head = 0, rg_len = 0, rg_dropped = 0\<rparr>"

definition ring_push :: "nat \<Rightarrow> csi_ring \<Rightarrow> csi_reading \<Rightarrow> bool \<times> csi_ring" where
  "ring_push N r f =
     (if N = 0 then (True, r\<lparr>rg_dropped := rg_dropped r + 1\<rparr>)
      else
        let overwrote = (rg_len r = N); tail = (rg_head r + rg_len r) mod N;
            r = r\<lparr>rg_frames := (rg_frames r)[tail := Some f]\<rparr>
        in (overwrote,
            if overwrote then r\<lparr>rg_head := (rg_head r + 1) mod N, rg_dropped := rg_dropped r + 1\<rparr>
            else r\<lparr>rg_len := rg_len r + 1\<rparr>))"

definition ring_pop :: "nat \<Rightarrow> csi_ring \<Rightarrow> csi_reading option \<times> csi_ring" where
  "ring_pop N r =
     (if rg_len r = 0 then (None, r)
      else (rg_frames r ! rg_head r,
            r\<lparr>rg_frames := (rg_frames r)[rg_head r := None], rg_head := (rg_head r + 1) mod N, rg_len := rg_len r - 1\<rparr>))"

definition ring_is_empty :: "csi_ring \<Rightarrow> bool" where
  "ring_is_empty r \<longleftrightarrow> rg_len r = 0"

definition ring_clear :: "nat \<Rightarrow> csi_ring \<Rightarrow> csi_ring" where
  "ring_clear N r = r\<lparr>rg_frames := replicate N None, rg_head := 0, rg_len := 0, rg_dropped := 0\<rparr>"

section \<open>What the ring stands for\<close>

definition ring_view :: "csi_ring \<Rightarrow> csi_reading list" where
  "ring_view r = map the (circ (rg_frames r) (rg_head r) (rg_len r))"

definition ring_ok :: "nat \<Rightarrow> csi_ring \<Rightarrow> bool" where
  "ring_ok N r \<longleftrightarrow> length (rg_frames r) = N \<and> rg_len r \<le> N \<and> (N = 0 \<or> rg_head r < N) \<and>
     None \<notin> set (circ (rg_frames r) (rg_head r) (rg_len r))"

lemma ring_new_ok: "ring_ok N (ring_new N) \<and> ring_view (ring_new N) = []"
  by (auto simp: ring_ok_def ring_view_def ring_new_def)

lemma ring_push_view:
  assumes "ring_ok N r"
  shows "ring_ok N (snd (ring_push N r f)) \<and> ring_view (snd (ring_push N r f)) = last_n N (ring_view r @ [f]) \<and>
    fst (ring_push N r f) = (length (ring_view r) = N) \<and>
    rg_dropped (snd (ring_push N r f)) = rg_dropped r + (if length (ring_view r) = N then 1 else 0)"
proof (cases "N = 0")
  case True
  then show ?thesis
    using assms by (simp add: ring_push_def ring_ok_def ring_view_def last_n_def)
next
  case False
  have n: "length (rg_frames r) = N" "rg_len r \<le> N" "rg_head r < N"
    using assms False by (auto simp: ring_ok_def)
  have len: "length (ring_view r) = rg_len r"
    using n by (simp add: ring_view_def)
  let ?frames = "(rg_frames r)[(rg_head r + rg_len r) mod N := Some f]"
  show ?thesis
  proof (cases "rg_len r = N")
    case True
    have "circ ?frames (rg_head r + 1) N = circ (rg_frames r) (rg_head r + 1) (N - 1) @ [Some f]"
      using circ_snoc[of "N - 1" "rg_frames r" "rg_head r + 1" "Some f"] n False True by simp
    moreover have "circ (rg_frames r) (rg_head r) N = rg_frames r ! rg_head r # circ (rg_frames r) (rg_head r + 1) (N - 1)"
      using n False by (intro circ_Cons) simp_all
    moreover have "circ ?frames ((rg_head r + 1) mod N) N = circ ?frames (rg_head r + 1) N"
      using n(1) circ_mod[of ?frames "rg_head r + 1" N] by simp
    ultimately show ?thesis
      using assms n False True len by (simp add: ring_push_def ring_ok_def ring_view_def Let_def last_n_Cons)
  next
    case shorter: False
    then have "circ ?frames (rg_head r) (rg_len r + 1) = circ (rg_frames r) (rg_head r) (rg_len r) @ [Some f]"
      using circ_snoc[of "rg_len r" "rg_frames r" "rg_head r" "Some f"] n by simp
    then show ?thesis
      using assms n False shorter len by (simp add: ring_push_def ring_ok_def ring_view_def Let_def)
  qed
qed

lemma ring_pop_view:
  assumes "ring_ok N r"
  shows "ring_ok N (snd (ring_pop N r)) \<and> rg_dropped (snd (ring_pop N r)) = rg_dropped r \<and>
    (case ring_view r of [] \<Rightarrow> ring_pop N r = (None, r)
     | f # fs \<Rightarrow> fst (ring_pop N r) = Some f \<and> ring_view (snd (ring_pop N r)) = fs)"
proof (cases "rg_len r = 0")
  case True
  then show ?thesis
    using assms by (simp add: ring_pop_def ring_view_def)
next
  case False
  have n: "length (rg_frames r) = N" "rg_len r \<le> N" "rg_head r < N"
    using assms False by (auto simp: ring_ok_def)
  let ?rest = "circ (rg_frames r) (rg_head r + 1) (rg_len r - 1)"
  have c: "circ (rg_frames r) (rg_head r) (rg_len r) = rg_frames r ! rg_head r # ?rest"
    using n False by (intro circ_Cons) simp_all
  let ?frames = "(rg_frames r)[rg_head r := None]"
  have "(rg_head r + 1 + i) mod N \<noteq> rg_head r" if "i < rg_len r - 1" for i
    using mod_distinct[of 0 "1 + i" N "rg_head r"] that n by (simp add: less_diff_conv)
  then have "circ ?frames (rg_head r + 1) (rg_len r - 1) = ?rest"
    using n by (intro circ_update_outside) simp_all
  moreover have "circ ?frames ((rg_head r + 1) mod N) (rg_len r - 1) = circ ?frames (rg_head r + 1) (rg_len r - 1)"
    using n(1) circ_mod[of ?frames "rg_head r + 1"] by simp
  ultimately show ?thesis
    using assms n False c by (auto simp: ring_pop_def ring_ok_def ring_view_def)
qed

section \<open>The ring is a bounded queue\<close>

definition ring_put :: "nat \<Rightarrow> csi_ring \<Rightarrow> csi_reading list \<Rightarrow> csi_ring" where
  "ring_put N = foldl (\<lambda>r f. snd (ring_push N r f))"

primrec ring_take :: "nat \<Rightarrow> nat \<Rightarrow> csi_ring \<Rightarrow> csi_reading list \<times> csi_ring" where
  "ring_take N 0 r = ([], r)"
| "ring_take N (Suc k) r =
     (case ring_pop N r of
        (None, r) \<Rightarrow> ([], r)
      | (Some f, r) \<Rightarrow> let (fs, r) = ring_take N k r in (f # fs, r))"

lemma ring_put_view:
  assumes "ring_ok N r"
  shows "ring_ok N (ring_put N r fs) \<and> ring_view (ring_put N r fs) = last_n N (ring_view r @ fs) \<and>
    rg_dropped (ring_put N r fs) = rg_dropped r + of_nat (length (ring_view r @ fs) - length (last_n N (ring_view r @ fs)))"
proof (induction fs rule: rev_induct)
  case Nil
  have "length (ring_view r) \<le> N"
    using assms by (simp add: ring_ok_def ring_view_def)
  then show ?case
    using assms by (simp add: ring_put_def)
next
  case (snoc f fs)
  let ?r = "ring_put N r fs"
  have p: "ring_ok N (snd (ring_push N ?r f))" "ring_view (snd (ring_push N ?r f)) = last_n N (ring_view ?r @ [f])"
    "rg_dropped (snd (ring_push N ?r f)) = rg_dropped ?r + (if length (ring_view ?r) = N then 1 else 0)"
    using ring_push_view[of N ?r f] snoc by simp_all
  have "ring_put N r (fs @ [f]) = snd (ring_push N ?r f)"
    by (simp add: ring_put_def)
  moreover have "last_n N (ring_view ?r @ [f]) = last_n N (ring_view r @ fs @ [f])"
    using snoc last_n_snoc[of N "ring_view r @ fs" f] by simp
  moreover have "rg_dropped (snd (ring_push N ?r f)) =
      rg_dropped r + of_nat (length (ring_view r @ fs @ [f]) - length (last_n N (ring_view r @ fs @ [f])))"
    using snoc by (simp add: p(3) min_def Suc_diff_le)
  ultimately show ?case
    using p(1,2) by simp
qed

lemma ring_take_view:
  "ring_ok N r \<Longrightarrow> fst (ring_take N k r) = take k (ring_view r) \<and> ring_ok N (snd (ring_take N k r)) \<and>
    ring_view (snd (ring_take N k r)) = drop k (ring_view r) \<and> rg_dropped (snd (ring_take N k r)) = rg_dropped r"
proof (induction k arbitrary: r)
  case (Suc k)
  note p = ring_pop_view[OF Suc.prems]
  show ?case
  proof (cases "ring_view r")
    case Nil
    then show ?thesis
      using p Suc.prems by simp
  next
    case (Cons f fs)
    then obtain r' where "ring_pop N r = (Some f, r')" "ring_ok N r'" "ring_view r' = fs" "rg_dropped r' = rg_dropped r"
      using p by (cases "ring_pop N r") auto
    then show ?thesis
      using Suc.IH[of r'] Cons by (simp add: split_beta)
  qed
qed simp

lemma subseq_last_n: "subseq (last_n W xs) xs"
  by (simp add: last_n_def suffix_drop suffix_imp_subseq)

interpretation csi_fifo: bounded_fifo ring_view "ring_ok N" "ring_put N" "ring_take N" rg_dropped "last_n N" for N
  by unfold_locales (simp_all only: ring_put_view ring_take_view subseq_last_n simp_thms)

section \<open>What the subscriber computes\<close>

text \<open>A layout's features read no entry past the ones it names.\<close>

lemma features_of_prefix:
  assumes "list_all (\<lambda>(a, b). 2 * b \<le> k) (ly_valid l)" and "2 * ly_entries l \<le> k"
  shows "features_of isqrt (fr\<lparr>cf_iq := take k iq\<rparr>) l = features_of isqrt (fr\<lparr>cf_iq := iq\<rparr>) l"
proof -
  have "take (2 * b - 2 * a) (drop (2 * a) (take k iq)) = take (2 * b - 2 * a) (drop (2 * a) iq)" if "2 * b \<le> k" for a b
    using that by (simp add: drop_take min_def)
  then have "foldl (\<lambda>st (a, b). if a \<ge> b then st
        else foldl (features_pair isqrt) st (chunks_exact 2 (take (2 * b - 2 * a) (drop (2 * a) (take k iq))))) st (ly_valid l) =
      foldl (\<lambda>st (a, b). if a \<ge> b then st
        else foldl (features_pair isqrt) st (chunks_exact 2 (take (2 * b - 2 * a) (drop (2 * a) iq)))) st (ly_valid l)" for st
    using assms(1) by (intro foldl_cong refl) (auto simp: list_all_iff)
  moreover have "(length (take k iq) < 2 * ly_entries l) = (length iq < 2 * ly_entries l)"
    using assms(2) by auto
  moreover have "cf_iq (fr\<lparr>cf_iq := x\<rparr>) = x" for x
    by simp
  ultimately show ?thesis
    by (simp only: features_of_def)
qed

lemmas layouts = LLTF_20MHZ_def HTLTF_20MHZ_def C6_HT20_NATURAL_def DENSE_64_def
lemmas layout_tags = TAG_LLTF_20MHZ_def TAG_HTLTF_20MHZ_def TAG_C6_HT20_NATURAL_def TAG_DENSE_64_def

lemma named_layout:
  assumes "tag_of l = Some t"
  shows "layout_of t = Some l" "list_all (\<lambda>(a, b). 2 * b \<le> MAX_IQ) (ly_valid l)" "2 * ly_entries l \<le> MAX_IQ"
  using assms
  by (auto simp: tag_of_def layout_of_def TAGS_def layouts layout_tags MAX_IQ_def MAX_SUBCARRIERS_def split: if_splits)

text \<open>C16: The receiver of the stream computes the device's features. Whenever \<open>ingest\<close> makes a frame, for a
  layout the stream can name, the sample of that frame written to the wire decodes, and its features are the
  ones the device computed from the chip's whole buffer, the blanked first word included, although only 128
  bytes of the buffer travel.\<close>

theorem ingested_features_travel:
  assumes "ingest isqrt iq flag l rssi channel now = (Some (Inr r), buf)" and "tag_of l = Some t"
  shows "case sample_decode (sample_wire (reading_sample r)) of
      Inr q \<Rightarrow> sample_features isqrt q = Inr (cr_features r) \<and>
        features_of isqrt \<lparr>cf_timestamp = now, cf_rssi = rssi, cf_channel = channel, cf_iq = buf\<rparr> l = Inr (cr_features r) \<and>
        buf = (if flag then replicate 4 0 @ drop 4 iq else iq)
    | Inl e \<Rightarrow> False"
proof -
  let ?n = "min (length buf) MAX_IQ"
  have n: "?n < 256"
    by (simp add: MAX_IQ_def MAX_SUBCARRIERS_def)
  have r: "features_of isqrt \<lparr>cf_timestamp = now, cf_rssi = rssi, cf_channel = channel, cf_iq = buf\<rparr> l = Inr (cr_features r)"
    "buf = (if flag then replicate 4 0 @ drop 4 iq else iq)"
    "reading_sample r = \<lparr>sm_at = now, sm_rssi = rssi, sm_channel = channel, sm_layout = t, sm_len = of_nat ?n,
       sm_iq = take ?n buf @ replicate (MAX_IQ - ?n) 0\<rparr>"
    using assms n by (auto simp: ingest_def reading_sample_def Let_def split: if_splits sum.splits)
  let ?s = "reading_sample r"
  have len: "unat (sm_len ?s) = ?n"
    using n by (simp add: r(3) unat_of_nat_u8)
  then have iq: "sample_iq ?s = take MAX_IQ buf"
    by (simp add: sample_iq_def r(3) min_def)
  then have "sample_wf ?s"
    using len by (simp add: sample_wf_def) (simp add: r(3) min_def)
  then have d: "sample_decode (sample_wire ?s) = Inr ?s"
    by (rule sample.dec_enc)
  have "sample_features isqrt ?s =
      features_of isqrt (\<lparr>cf_timestamp = now, cf_rssi = rssi, cf_channel = channel, cf_iq = []\<rparr>\<lparr>cf_iq := take MAX_IQ buf\<rparr>) l"
    using named_layout(1)[OF assms(2)] iq by (simp add: sample_features_def r(3))
  also have "\<dots> = Inr (cr_features r)"
    unfolding features_of_prefix[OF named_layout(2,3)[OF assms(2)]] using r(1) by simp
  finally show ?thesis
    using d r(1,2) by simp
qed

definition flat_iq :: "i8 list" where
  "flat_iq = replicate 130 3"

lemma flat_iq_ingests: "case ingest (\<lambda>_. 5) flat_iq True LLTF_20MHZ 0xCE 6 9 of (Some (Inr r), buf) \<Rightarrow> True | _ \<Rightarrow> False"
  by code_simp

theorem ingested_features_travel_witness:
  "case ingest (\<lambda>_. 5) flat_iq True LLTF_20MHZ 0xCE 6 9 of
     (Some (Inr r), buf) \<Rightarrow>
       (case sample_decode (sample_wire (reading_sample r)) of
          Inr q \<Rightarrow> sample_features (\<lambda>_. 5) q = Inr (cr_features r) \<and>
            features_of (\<lambda>_. 5) \<lparr>cf_timestamp = 9, cf_rssi = 0xCE, cf_channel = 6, cf_iq = buf\<rparr> LLTF_20MHZ =
              Inr (cr_features r) \<and>
            buf = (if True then replicate 4 0 @ drop 4 flat_iq else flat_iq)
        | Inl e \<Rightarrow> False)
   | _ \<Rightarrow> False"
proof -
  have t: "tag_of LLTF_20MHZ = Some 1"
    by (simp add: tag_of_def TAGS_def layout_tags)
  obtain r buf where i: "ingest (\<lambda>_. 5) flat_iq True LLTF_20MHZ 0xCE 6 9 = (Some (Inr r), buf)"
    using flat_iq_ingests by (auto split: prod.splits option.splits sum.splits)
  show ?thesis
    unfolding i prod.case option.case sum.case by (rule ingested_features_travel[OF i t])
qed

text \<open>C15: The sketch sees every frame once, in order, less what is counted. Through any interleaving of the
  callback's pushes and the sketch's pops, what was popped followed by what waits is a subsequence of what was
  pushed, the frames missing from it are exactly as many as the count of dropped ones says (modulo 2^32), and
  the frames that wait are always the latest of the ones not popped.\<close>

theorem csi_ring_delivers_in_order:
  assumes "fifo_run (ring_put N) (ring_take N) ops (ring_new N) = (popped, r)"
  shows "subseq (popped @ ring_view r) (fifo_input ops) \<and> length (ring_view r) \<le> N \<and>
    rg_dropped r + of_nat (length popped + length (ring_view r)) = of_nat (length (fifo_input ops)) \<and>
    ring_view (ring_put N r fs) = last_n N (ring_view r @ fs)"
proof -
  note new = ring_new_ok[of N]
  have ok: "ring_ok N r" "subseq (popped @ ring_view r) (fifo_input ops)"
    using csi_fifo.in_order[OF new[THEN conjunct1] assms] new by simp_all
  moreover have "length (ring_view r) \<le> N"
    using ok(1) by (simp add: ring_ok_def ring_view_def)
  moreover have "rg_dropped r + of_nat (length popped + length (ring_view r)) = of_nat (length (fifo_input ops))"
    using csi_fifo.accounted[OF new[THEN conjunct1] assms] new by (simp add: ring_new_def)
  ultimately show ?thesis
    using ring_put_view[OF ok(1), of fs] by simp
qed

definition flat_reading :: "micros \<Rightarrow> csi_reading" where
  "flat_reading t = \<lparr>cr_at = t, cr_rssi = 0, cr_channel = 6, cr_features = flat_features 3 2, cr_layout = 1, cr_len = 0,
     cr_iq = replicate MAX_IQ 0\<rparr>"

theorem csi_ring_delivers_in_order_witness:
  "let (popped, r) = fifo_run (ring_put 2) (ring_take 2)
      [Put [flat_reading 1, flat_reading 2, flat_reading 3], Get 1, Put [flat_reading 4]] (ring_new 2) in
    subseq (popped @ ring_view r) (fifo_input [Put [flat_reading 1, flat_reading 2, flat_reading 3], Get 1, Put [flat_reading 4]]) \<and>
    length (ring_view r) \<le> 2 \<and>
    rg_dropped r + of_nat (length popped + length (ring_view r)) =
      of_nat (length (fifo_input [Put [flat_reading 1, flat_reading 2, flat_reading 3], Get 1, Put [flat_reading 4]])) \<and>
    ring_view (ring_put 2 r [flat_reading 5]) = last_n 2 (ring_view r @ [flat_reading 5])"
  unfolding Let_def case_prod_unfold by (rule csi_ring_delivers_in_order) (rule prod.collapse[symmetric])

end
