(* ===== verification/Relay_Ring.thy ===== *)
theory Relay_Ring
  imports Fifo
begin

unbundle bit_operations_syntax

text \<open>
  The relay's serial side (\<open>firmware/espnow-relay/src/ring.rs\<close>): the ring the UART's interrupt fills, the line being
  assembled from what the loop takes out of it, and the newline search, four bytes a step.
\<close>

section \<open>The receive ring\<close>

definition RELAY_RING :: nat where "RELAY_RING = 4096"

record relay_ring =
  rr_bytes :: bytes
  rr_head :: nat
  rr_len :: nat
  rr_lost :: u32

definition relay_ring_new :: relay_ring where
  "relay_ring_new = \<lparr>rr_bytes = replicate RELAY_RING 0, rr_head = 0, rr_len = 0, rr_lost = 0\<rparr>"

definition relay_push :: "relay_ring \<Rightarrow> bytes \<Rightarrow> relay_ring" where
  "relay_push r data =
     (let n = min (length data) (RELAY_RING - rr_len r);
          tail = (rr_head r + rr_len r) mod RELAY_RING;
          first = min n (RELAY_RING - tail)
      in r\<lparr>rr_lost := rr_lost r + of_nat (length data - n),
           rr_bytes := write_at (write_at (rr_bytes r) tail (take first data)) 0 (take (n - first) (drop first data)),
           rr_len := rr_len r + n\<rparr>)"

definition relay_pop :: "nat \<Rightarrow> relay_ring \<Rightarrow> bytes \<times> relay_ring" where
  "relay_pop cap r =
     (let n = min (rr_len r) cap; first = min n (RELAY_RING - rr_head r)
      in (take first (drop (rr_head r) (rr_bytes r)) @ take (n - first) (rr_bytes r),
          r\<lparr>rr_head := (rr_head r + n) mod RELAY_RING, rr_len := rr_len r - n\<rparr>))"

text \<open>
  The interrupt: at most eight reads, each what the driver returned, \<open>None\<close> an error it reported. A read of
  nothing ends it.
\<close>

fun on_serial_reads :: "bytes option list \<Rightarrow> relay_ring \<Rightarrow> relay_ring" where
  "on_serial_reads [] r = r"
| "on_serial_reads (Some data # reads) r = (if data = [] then r else on_serial_reads reads (relay_push r data))"
| "on_serial_reads (None # reads) r = on_serial_reads reads (r\<lparr>rr_lost := rr_lost r + 1\<rparr>)"

definition on_serial :: "bytes option list \<Rightarrow> relay_ring \<Rightarrow> relay_ring" where
  "on_serial reads r = on_serial_reads (take 8 reads) r"

section \<open>The newline search\<close>

definition trailing_zeros :: "'a::len word \<Rightarrow> nat" where
  "trailing_zeros w = length (takeWhile (\<lambda>i. \<not> bit w i) [0..<LENGTH('a)])"

text \<open>A zero byte of \<open>x\<close> sets its top bit here, and no byte below the first zero byte sets its own.\<close>

definition zero_bytes :: "u32 \<Rightarrow> u32" where
  "zero_bytes x = (x - 0x01010101) AND NOT x AND 0x80808080"

fun newline_words :: "nat \<Rightarrow> u32 list \<Rightarrow> nat option" where
  "newline_words i [] = None"
| "newline_words i (w # ws) =
     (let zero = zero_bytes (w XOR 0x0a0a0a0a)
      in if zero \<noteq> 0 then Some (i + trailing_zeros zero div 8) else newline_words (i + 4) ws)"

text \<open>
  \<open>align_to\<close> may split the bytes anywhere: \<open>h\<close> bytes before the words, \<open>k\<close> words, the rest.
\<close>

definition newline :: "nat \<Rightarrow> nat \<Rightarrow> bytes \<Rightarrow> nat option" where
  "newline h k bs =
     (let words = map le_word (chunks_exact 4 (take (4 * k) (drop h bs))); tail = drop (h + 4 * k) bs
      in case position (\<lambda>b. b = 10) (take h bs) of
           Some i \<Rightarrow> Some i
         | None \<Rightarrow>
             (case newline_words h words of
                Some i \<Rightarrow> Some i
              | None \<Rightarrow> map_option (\<lambda>i. h + 4 * k + i) (position (\<lambda>b. b = 10) tail)))"

section \<open>Lines\<close>

record relay_lines =
  rl_line :: bytes
  rl_len :: nat
  rl_overrun :: bool

definition lines_new :: "nat \<Rightarrow> relay_lines" where
  "lines_new N = \<lparr>rl_line = replicate N 0, rl_len = 0, rl_overrun = False\<rparr>"

definition lines_take :: "nat \<Rightarrow> (bytes \<Rightarrow> nat option) \<Rightarrow> relay_lines \<Rightarrow> bytes \<Rightarrow> nat \<times> bool \<times> relay_lines" where
  "lines_take N search l bs =
     (let (segment, ended) = (case search bs of Some i \<Rightarrow> (take i bs, True) | None \<Rightarrow> (bs, False));
          fit = min (length segment) (N - rl_len l);
          l = l\<lparr>rl_line := write_at (rl_line l) (rl_len l) (take fit segment), rl_len := rl_len l + fit\<rparr>;
          l = (if fit < length segment then l\<lparr>rl_overrun := True\<rparr> else l)
      in (length segment + (if ended then 1 else 0), ended, l))"

text \<open>
  The loop's inner \<open>while\<close> (\<open>main.rs\<close>): the bytes just read, a line at a time. A line that is empty once its
  carriage return is gone is skipped, one that overran is counted bad. \<open>align\<close> is where \<open>align_to\<close> splits a slice.
\<close>

datatype host_line = HostLine bytes | BadLine

definition strip_cr :: "bytes \<Rightarrow> bytes" where
  "strip_cr bs = (if bs \<noteq> [] \<and> last bs = 13 then butlast bs else bs)"

definition line_out :: "bytes \<Rightarrow> bool \<Rightarrow> host_line list" where
  "line_out line whole =
     (let line = strip_cr line in if line = [] then [] else if \<not> whole then [BadLine] else [HostLine line])"

definition find_newline :: "(bytes \<Rightarrow> nat \<times> nat) \<Rightarrow> bytes \<Rightarrow> nat option" where
  "find_newline align bs = (case align bs of (h, k) \<Rightarrow> newline h k bs)"

lemma lines_take_pos: "(used, True, l') = lines_take N f l bs \<Longrightarrow> bs \<noteq> [] \<Longrightarrow> 0 < used"
  by (auto simp: lines_take_def Let_def split: option.splits)

function drain :: "nat \<Rightarrow> (bytes \<Rightarrow> nat \<times> nat) \<Rightarrow> relay_lines \<Rightarrow> bytes \<Rightarrow> host_line list \<times> relay_lines" where
  "drain N align l bs =
     (if bs = [] then ([], l)
      else
        let (used, ended, l) = lines_take N (find_newline align) l bs in
        if \<not> ended then ([], l)
        else
          let out = line_out (take (rl_len l) (rl_line l)) (\<not> rl_overrun l);
              (outs, l) = drain N align (l\<lparr>rl_len := 0, rl_overrun := False\<rparr>) (drop used bs)
          in (out @ outs, l))"
  by pat_completeness auto
termination
  by (relation "measure (\<lambda>(N, align, l, bs). length bs)") (auto dest: lines_take_pos)

declare drain.simps [simp del]

section \<open>The ring is a bounded queue\<close>

definition relay_view :: "relay_ring \<Rightarrow> bytes" where
  "relay_view r = circ (rr_bytes r) (rr_head r) (rr_len r)"

definition relay_ring_ok :: "relay_ring \<Rightarrow> bool" where
  "relay_ring_ok r \<longleftrightarrow> length (rr_bytes r) = RELAY_RING \<and> rr_len r \<le> RELAY_RING \<and> rr_head r < RELAY_RING"

lemma relay_ring_new_ok: "relay_ring_ok relay_ring_new" "relay_view relay_ring_new = []"
  by (simp_all add: relay_ring_ok_def relay_view_def relay_ring_new_def RELAY_RING_def)

lemma relay_push_view:
  assumes "relay_ring_ok r"
  shows "relay_ring_ok (relay_push r data) \<and> relay_view (relay_push r data) = take RELAY_RING (relay_view r @ data) \<and>
    rr_lost (relay_push r data) = rr_lost r + of_nat (length (relay_view r @ data) - length (take RELAY_RING (relay_view r @ data)))"
proof -
  have r: "length (rr_bytes r) = RELAY_RING" "rr_len r \<le> RELAY_RING" "rr_head r < RELAY_RING" "0 < RELAY_RING"
    using assms by (auto simp: relay_ring_ok_def)
  define n where "n = min (length data) (RELAY_RING - rr_len r)"
  define tl where "tl = (rr_head r + rr_len r) mod RELAY_RING"
  have tl: "tl < RELAY_RING"
    using r(4) by (simp add: tl_def)
  have len: "length (relay_view r) = rr_len r"
    using r by (simp add: relay_view_def)
  have n: "n \<le> length data" "rr_len r + n \<le> RELAY_RING"
    using r(2) by (auto simp: n_def)
  have w: "write_at (write_at (rr_bytes r) tl (take (min n (RELAY_RING - tl)) data)) 0 (take (n - min n (RELAY_RING - tl)) (drop (min n (RELAY_RING - tl)) data)) =
      write_wrapped (rr_bytes r) tl (take n data)"
    using n(1) by (simp add: write_wrapped_def r(1) min_def take_drop Let_def)
  have push: "relay_push r data = r\<lparr>rr_lost := rr_lost r + of_nat (length data - n),
      rr_bytes := write_wrapped (rr_bytes r) tl (take n data), rr_len := rr_len r + n\<rparr>"
    unfolding relay_push_def Let_def n_def[symmetric] tl_def[symmetric] w by (rule refl)
  have "circ (write_wrapped (rr_bytes r) tl (take n data)) (rr_head r) (rr_len r + n) = relay_view r @ take n data"
    using circ_append[of "rr_len r" "take n data" "rr_bytes r" "rr_head r"] n r by (simp add: tl_def relay_view_def)
  moreover have "take RELAY_RING (relay_view r @ data) = relay_view r @ take n data"
    using len r(2) by (simp add: n_def min_def)
  moreover have "length (write_wrapped (rr_bytes r) tl (take n data)) = RELAY_RING"
    using n r tl by simp
  ultimately show ?thesis
    using r n len by (simp add: push relay_ring_ok_def relay_view_def)
qed

lemma relay_pop_view:
  assumes "relay_ring_ok r"
  shows "fst (relay_pop cap r) = take cap (relay_view r) \<and> relay_ring_ok (snd (relay_pop cap r)) \<and>
    relay_view (snd (relay_pop cap r)) = drop cap (relay_view r) \<and> rr_lost (snd (relay_pop cap r)) = rr_lost r"
proof -
  have r: "length (rr_bytes r) = RELAY_RING" "rr_len r \<le> RELAY_RING" "rr_head r < RELAY_RING"
    using assms by (simp_all add: relay_ring_ok_def)
  define n where "n = min (rr_len r) cap"
  have n: "n \<le> rr_len r" "n \<le> RELAY_RING"
    using r(2) by (simp_all add: n_def)
  have pop: "relay_pop cap r = (circ (rr_bytes r) (rr_head r) n,
      r\<lparr>rr_head := (rr_head r + n) mod RELAY_RING, rr_len := rr_len r - n\<rparr>)"
    using circ_blocks[of "rr_head r" "rr_bytes r" n] r n(2) by (simp add: relay_pop_def n_def Let_def)
  have "take cap (relay_view r) = circ (rr_bytes r) (rr_head r) n"
    by (simp add: relay_view_def circ_take n_def min.commute)
  moreover have "drop cap (relay_view r) = drop n (relay_view r)"
    using r by (auto simp: relay_view_def n_def min_def)
  moreover have "drop n (relay_view r) = circ (rr_bytes r) ((rr_head r + n) mod RELAY_RING) (rr_len r - n)"
    using circ_drop[OF n(1), of "rr_bytes r" "rr_head r"] circ_mod[of "rr_bytes r" "rr_head r + n"] r by (simp add: relay_view_def)
  moreover have "(rr_head r + n) mod RELAY_RING < RELAY_RING"
    using r(3) by (intro mod_less_divisor) simp
  ultimately show ?thesis
    using r by (simp add: pop relay_ring_ok_def relay_view_def)
qed

interpretation relay_fifo: bounded_fifo relay_view relay_ring_ok relay_push relay_pop rr_lost "take RELAY_RING"
  by unfold_locales (simp_all only: relay_push_view relay_pop_view simp_thms, simp add: prefix_imp_subseq take_is_prefix)

lemma relay_ring_delivers_in_order:
  assumes "fifo_run relay_push relay_pop ops relay_ring_new = (out, r)"
  shows "subseq (out @ relay_view r) (fifo_input ops) \<and> length (relay_view r) \<le> RELAY_RING \<and>
    rr_lost r + of_nat (length out + length (relay_view r)) = of_nat (length (fifo_input ops)) \<and>
    prefix (relay_view r) (relay_view (relay_push r data))"
proof -
  have ok: "relay_ring_ok r" "subseq (out @ relay_view r) (fifo_input ops)"
    using relay_fifo.in_order[OF relay_ring_new_ok(1) assms] relay_ring_new_ok(2) by simp_all
  have "rr_len r \<le> RELAY_RING" "length (rr_bytes r) = RELAY_RING"
    using ok(1) by (simp_all add: relay_ring_ok_def)
  then have "length (relay_view r) \<le> RELAY_RING"
    by (simp add: relay_view_def)
  moreover have "rr_lost r + of_nat (length out + length (relay_view r)) = of_nat (length (fifo_input ops))"
    using relay_fifo.accounted[OF relay_ring_new_ok(1) assms] relay_ring_new_ok(2) by (simp add: relay_ring_new_def)
  ultimately show ?thesis
    using relay_push_view[OF ok(1), of data] ok(2) by simp
qed

section \<open>The newline search finds the first newline\<close>

definition le_nat :: "bytes \<Rightarrow> nat" where
  "le_nat bs = be_nat (rev bs)"

lemma le_nat_simps [simp]: "le_nat [] = 0" "le_nat (b # bs) = unat b + 256 * le_nat bs"
  by (simp_all add: le_nat_def)

lemma le_word_le_nat: "le_word bs = of_nat (le_nat bs)"
  by (simp add: le_word_def be_word_def le_nat_def)

lemma bit_le_nat: "bit (le_nat bs) k \<longleftrightarrow> k < 8 * length bs \<and> bit (bs ! (k div 8)) (k mod 8)"
proof (induction bs arbitrary: k)
  case (Cons b bs)
  have "take_bit 8 (uint b) = uint b"
    by transfer simp
  then have "int (le_nat (b # bs)) = concat_bit 8 (uint b) (int (le_nat bs))"
    by (simp add: concat_bit_eq push_bit_eq_mult)
  then have "bit (le_nat (b # bs)) k = (k < 8 \<and> bit (uint b) k \<or> 8 \<le> k \<and> bit (int (le_nat bs)) (k - 8))"
    by (metis bit_concat_bit_iff bit_of_nat_iff_bit)
  also have "\<dots> = (k < 8 * length (b # bs) \<and> bit ((b # bs) ! (k div 8)) (k mod 8))"
    using Cons.IH[of "k - 8"] by (cases "k < 8") (auto simp: bit_of_nat_iff_bit bit_uint_iff le_div_geq le_mod_geq not_less)
  finally show ?case .
qed simp

lemma bit_le_word: "bit (le_word bs :: u32) k \<longleftrightarrow> k < 32 \<and> k < 8 * length bs \<and> bit (bs ! (k div 8)) (k mod 8)"
proof -
  have "le_word bs = (word_of_int (int (le_nat bs)) :: u32)"
    by (simp add: le_word_le_nat)
  then show ?thesis
    by (simp only: bit_word_of_int_iff bit_of_nat_iff_bit bit_le_nat) simp
qed

text \<open>Bytewise operations on words, and the subtraction of one from every byte.\<close>

lemma le_word_map2:
  assumes "length as = 4" and "length bs = 4"
  shows "le_word as AND le_word bs = (le_word (map2 (AND) as bs) :: u32)" "le_word as XOR le_word bs = (le_word (map2 (XOR) as bs) :: u32)"
    "NOT (le_word as) = (le_word (map NOT as) :: u32)"
proof -
  have m: "k mod 8 < 8" "k < 32 \<Longrightarrow> k div 8 < 4" for k :: nat
    by auto
  show "le_word as AND le_word bs = (le_word (map2 (AND) as bs) :: u32)" "le_word as XOR le_word bs = (le_word (map2 (XOR) as bs) :: u32)"
    "NOT (le_word as) = (le_word (map NOT as) :: u32)"
    by (rule bit_word_eqI; use assms m in \<open>simp add: bit_le_word bit_and_iff bit_xor_iff bit_not_iff\<close>)+
qed

fun sub_ones :: "bool \<Rightarrow> bytes \<Rightarrow> bytes" where
  "sub_ones borrow [] = []"
| "sub_ones borrow (b # bs) = (b - 1 - of_bool borrow) # sub_ones (unat b < 1 + of_bool borrow) bs"

fun borrows :: "bool \<Rightarrow> bytes \<Rightarrow> bool" where
  "borrows borrow [] = borrow"
| "borrows borrow (b # bs) = borrows (unat b < 1 + of_bool borrow) bs"

lemma length_sub_ones [simp]: "length (sub_ones k bs) = length bs"
  by (induction k bs rule: sub_ones.induct) simp_all

lemma unat_sub_u8: "int (unat (b - c)) = int (unat b) - int (unat c) + 256 * of_bool (unat b < unat c)" for b c :: u8
  using unat_less[of b] unat_less[of c] by (simp add: unat_sub_if_size word_size)

lemma sub_ones_value:
  "int (le_nat (sub_ones k bs)) = int (le_nat bs) - int (le_nat (replicate (length bs) 1)) - of_bool k
    + 256 ^ length bs * of_bool (borrows k bs)"
proof (induction k bs rule: sub_ones.induct)
  case (2 k b bs)
  have c: "b - 1 - of_bool k = b - (1 + of_bool k)" "unat (1 + of_bool k :: u8) = 1 + of_bool k"
    by (cases k; simp)+
  have "int (unat (b - 1 - of_bool k)) = int (unat b) - 1 - of_bool k + 256 * of_bool (unat b < 1 + of_bool k)"
    unfolding c(1) unat_sub_u8 c(2) by simp
  then show ?case
    using 2 by (simp add: algebra_simps)
qed simp

lemma sub_ones_word:
  assumes "length bs = 4"
  shows "le_word bs - 0x01010101 = (le_word (sub_ones False bs) :: u32)"
proof -
  have "replicate 4 (1 :: u8) = [1, 1, 1, 1]"
    by (simp add: numeral_eq_Suc)
  then have "int (le_nat (sub_ones False bs)) = int (le_nat bs) - 0x01010101 + 2 ^ 32 * of_bool (borrows False bs)"
    using sub_ones_value[of False bs] assms by simp
  then have "(word_of_int (int (le_nat (sub_ones False bs))) :: u32) = word_of_int (int (le_nat bs) - 0x01010101 + 2 ^ 32 * of_bool (borrows False bs))"
    by (rule arg_cong)
  also have "\<dots> = of_nat (le_nat bs) - 0x01010101 + 2 ^ 32 * of_bool (borrows False bs)"
    by (simp del: word_of_int_2p)
  also have "(2 ^ 32 :: u32) = 0"
    by simp
  finally show ?thesis
    by (simp add: le_word_le_nat)
qed

text \<open>The mark left in each byte: nothing below the first zero byte, the top bit in it.\<close>

definition marks :: "bytes \<Rightarrow> bytes" where
  "marks bs = map2 (AND) (sub_ones False bs) (map2 (AND) (map NOT bs) (replicate (length bs) 0x80))"

lemma zero_bytes_marks:
  assumes "length bs = 4"
  shows "zero_bytes (le_word bs) = le_word (marks bs)"
proof -
  have "replicate 4 (0x80 :: u8) = [0x80, 0x80, 0x80, 0x80]"
    by (simp add: numeral_eq_Suc)
  then have "(0x80808080 :: u32) = le_word (replicate 4 0x80)"
    by (simp add: le_word_le_nat)
  then show ?thesis
    using assms by (simp only: zero_bytes_def sub_ones_word le_word_map2 marks_def length_map length_zip length_sub_ones length_replicate min.idem)
qed

lemma top_bit: "bit (b :: u8) 7 \<longleftrightarrow> 128 \<le> unat b"
proof -
  have "bit b 7 \<longleftrightarrow> bit (unat b) 7"
    by (simp add: bit_unsigned_iff)
  also have "\<dots> \<longleftrightarrow> odd (unat b div 2 ^ 7)"
    by (rule bit_iff_odd)
  finally have "bit b 7 \<longleftrightarrow> odd (unat b div 2 ^ 7)" .
  moreover have "unat b div 2 ^ 7 = (if 128 \<le> unat b then 1 else 0)"
    using unat_less[of b] by auto
  ultimately show ?thesis
    by simp
qed

lemma bit_top: "bit (0x80 :: u8) n \<longleftrightarrow> n = 7"
proof -
  have "(0x80 :: u8) = push_bit 7 1"
    by simp
  then have "bit (0x80 :: u8) n \<longleftrightarrow> bit (push_bit 7 (1 :: u8)) n"
    by simp
  also have "\<dots> \<longleftrightarrow> n = 7"
    by (simp only: bit_push_bit_iff bit_1_iff) (auto simp: possible_bit_word)
  finally show ?thesis .
qed

lemma nonzero_mark: "b \<noteq> 0 \<Longrightarrow> (b - 1) AND NOT b AND 0x80 = (0 :: u8)"
proof -
  assume "b \<noteq> 0"
  then have "unat (b - 1) = unat b - 1"
    by (simp add: unat_minus_one)
  then have "\<not> (bit (b - 1) 7 \<and> \<not> bit b 7)"
    unfolding top_bit by arith
  then show ?thesis
    by (intro bit_word_eqI) (auto simp only: bit_and_iff bit_not_iff bit_top bit_0_eq bot_fun_def bot_bool_def)
qed

lemma marks_first:
  "marks bs = (case position (\<lambda>b. b = 0) bs of
     None \<Rightarrow> replicate (length bs) 0
   | Some i \<Rightarrow> replicate i 0 @ 0x80 # drop (i + 1) (marks bs))"
proof (induction bs)
  case (Cons b bs)
  show ?case
  proof (cases "b = 0")
    case True
    then show ?thesis
      by (simp add: marks_def)
  next
    case False
    then have "unat b \<noteq> 0"
      by (simp add: unat_eq_0)
    then have "marks (b # bs) = 0 # marks bs"
      using nonzero_mark[OF False] by (simp add: marks_def)
    then show ?thesis
      using Cons False by (simp split: option.splits)
  qed
qed (simp add: marks_def)

lemma first_mark:
  assumes "length bs = 4" and "position (\<lambda>b. b = 0) bs = Some i"
  shows "bit (zero_bytes (le_word bs)) (8 * i + 7)" "k < 8 * i + 7 \<Longrightarrow> \<not> bit (zero_bytes (le_word bs)) k" "i < 4"
proof -
  have m: "marks bs = replicate i 0 @ 0x80 # drop (i + 1) (marks bs)"
    using marks_first[of bs] assms(2) by simp
  show i: "i < 4"
    using position_Some[OF assms(2)] assms(1) by simp
  have len: "length (marks bs) = 4"
    using assms(1) by (simp add: marks_def)
  have b: "bit (zero_bytes (le_word bs)) k \<longleftrightarrow> k < 32 \<and> bit (marks bs ! (k div 8)) (k mod 8)" for k
    using len by (simp add: zero_bytes_marks assms(1) bit_le_word)
  have nth: "marks bs ! i = 0x80" "j < i \<Longrightarrow> marks bs ! j = 0" for j
    by (subst m, simp add: nth_append)+
  have d: "(8 * i + 7) div 8 = i" "(8 * i + 7) mod 8 = 7"
    by simp_all
  show "bit (zero_bytes (le_word bs)) (8 * i + 7)"
    unfolding b d nth(1) bit_top using i by simp
  show "\<not> bit (zero_bytes (le_word bs)) k" if "k < 8 * i + 7"
  proof (cases "k div 8 < i")
    case True
    then show ?thesis
      by (simp add: b nth(2))
  next
    case False
    moreover have "k = 8 * (k div 8) + k mod 8"
      by simp
    ultimately have "k div 8 = i" "k mod 8 \<noteq> 7"
      using that by linarith+
    then show ?thesis
      by (simp only: b nth(1) bit_top) simp
  qed
qed

lemma trailing_zeros_eq:
  assumes "bit (w :: 'a::len word) n" and "\<And>k. k < n \<Longrightarrow> \<not> bit w k"
  shows "trailing_zeros w = n"
proof -
  have n: "n < LENGTH('a)"
    using assms(1) by (rule bit_imp_le_length)
  then have "[0..<LENGTH('a)] = [0..<n] @ n # [Suc n..<LENGTH('a)]"
    by (metis le0 less_imp_le upt_add_eq_append upt_conv_Cons add_diff_inverse_nat add_0 not_less le_add_diff_inverse)
  then show ?thesis
    using assms by (simp only: trailing_zeros_def) (subst takeWhile_append2; auto)
qed

lemma zero_bytes_first:
  assumes "length bs = 4"
  shows "zero_bytes (le_word bs) = 0 \<longleftrightarrow> position (\<lambda>b. b = 0) bs = None"
    and "position (\<lambda>b. b = 0) bs = Some i \<Longrightarrow> trailing_zeros (zero_bytes (le_word bs)) div 8 = i"
proof -
  show "zero_bytes (le_word bs) = 0 \<longleftrightarrow> position (\<lambda>b. b = 0) bs = None"
  proof (cases "position (\<lambda>b. b = 0) bs")
    case None
    then have "marks bs = replicate 4 0"
      using marks_first[of bs] assms by simp
    moreover have "le_word (replicate 4 0) = (0 :: u32)"
      by (simp add: le_word_le_nat numeral_eq_Suc)
    ultimately have "zero_bytes (le_word bs) = 0"
      using zero_bytes_marks[OF assms] by simp
    then show ?thesis
      using None by simp
  next
    case (Some i)
    then show ?thesis
      using first_mark(1)[OF assms Some] by auto
  qed
  show "trailing_zeros (zero_bytes (le_word bs)) div 8 = i" if p: "position (\<lambda>b. b = 0) bs = Some i"
  proof -
    have "trailing_zeros (zero_bytes (le_word bs)) = 8 * i + 7"
      using first_mark[OF assms p] by (intro trailing_zeros_eq) simp_all
    then show ?thesis
      by simp
  qed
qed

lemma newline_word:
  assumes "length bs = 4"
  shows "zero_bytes (le_word bs XOR 0x0a0a0a0a) = 0 \<longleftrightarrow> position (\<lambda>b. b = 10) bs = None"
    and "position (\<lambda>b. b = 10) bs = Some i \<Longrightarrow> trailing_zeros (zero_bytes (le_word bs XOR 0x0a0a0a0a)) div 8 = i"
proof -
  let ?x = "map (\<lambda>b. b XOR 10) bs"
  have "replicate 4 (10 :: u8) = [10, 10, 10, 10]"
    by (simp add: numeral_eq_Suc)
  then have nl: "(0x0a0a0a0a :: u32) = le_word (replicate 4 10)"
    by (simp add: le_word_le_nat)
  have m: "map2 (XOR) bs (replicate 4 10) = ?x"
    using assms by (simp add: map2_map_map[symmetric] zip_replicate2 o_def)
  have x: "le_word bs XOR 0x0a0a0a0a = (le_word ?x :: u32)"
    unfolding nl using assms by (subst le_word_map2(2)) (simp_all add: m)
  have z: "b XOR 10 = 0 \<longleftrightarrow> b = (10 :: u8)" for b
  proof
    assume "b XOR 10 = 0"
    moreover have "b = (b XOR 10) XOR 10"
      by (simp add: xor.assoc)
    ultimately show "b = 10"
      by simp
  qed simp
  have "position (\<lambda>b. b = 0) ?x = position (\<lambda>b. b = 10) bs"
    by (simp add: position_map o_def z)
  then show "zero_bytes (le_word bs XOR 0x0a0a0a0a) = 0 \<longleftrightarrow> position (\<lambda>b. b = 10) bs = None"
    "position (\<lambda>b. b = 10) bs = Some i \<Longrightarrow> trailing_zeros (zero_bytes (le_word bs XOR 0x0a0a0a0a)) div 8 = i"
    using zero_bytes_first[of ?x] assms by (simp_all add: x)
qed

lemma newline_words_first:
  "length bs = 4 * k \<Longrightarrow> newline_words i (map le_word (chunks_exact 4 bs)) = map_option ((+) i) (position (\<lambda>b. b = 10) bs)"
proof (induction k arbitrary: i bs)
  case 0
  then show ?case
    by (simp add: chunks_exact.simps)
next
  case (Suc k)
  then have c: "chunks_exact 4 bs = take 4 bs # chunks_exact 4 (drop 4 bs)" "length (take 4 bs) = 4"
    by (simp_all add: chunks_exact.simps[of 4 bs])
  have p: "position (\<lambda>b. b = 10) bs = (case position (\<lambda>b. b = 10) (take 4 bs) of Some i \<Rightarrow> Some i
      | None \<Rightarrow> map_option ((+) 4) (position (\<lambda>b. b = 10) (drop 4 bs)))"
    using position_append[of "\<lambda>b. b = 10" "take 4 bs" "drop 4 bs"] by (simp only: append_take_drop_id c(2))
  have IH: "newline_words (i + 4) (map le_word (chunks_exact 4 (drop 4 bs))) = map_option ((+) (i + 4)) (position (\<lambda>b. b = 10) (drop 4 bs))"
    using Suc.IH[of "drop 4 bs" "i + 4"] Suc.prems by simp
  show ?case
  proof (cases "position (\<lambda>b. b = 10) (take 4 bs)")
    case None
    moreover have "map_option ((+) (i + 4)) x = map_option (\<lambda>n. i + (4 + n)) x" for x
      by (cases x) simp_all
    ultimately show ?thesis
      using newline_word(1)[OF c(2)] IH by (simp add: c p option.map_comp o_def)
  next
    case (Some j)
    then show ?thesis
      using newline_word[OF c(2)] by (simp add: c p Let_def)
  qed
qed

lemma newline_first:
  assumes "h + 4 * k \<le> length bs"
  shows "newline h k bs = position (\<lambda>b. b = 10) bs"
proof -
  let ?P = "\<lambda>b :: u8. b = 10"
  let ?mid = "take (4 * k) (drop h bs)"
  have "bs = take h bs @ ?mid @ drop (h + 4 * k) bs"
    by (metis append_take_drop_id drop_drop add.commute)
  then have "position ?P bs = position ?P (take h bs @ ?mid @ drop (h + 4 * k) bs)"
    by simp
  moreover have "newline_words h (map le_word (chunks_exact 4 ?mid)) = map_option ((+) h) (position ?P ?mid)"
    using assms by (intro newline_words_first) simp
  ultimately show ?thesis
    using assms by (cases "position ?P (drop (h + 4 * k) bs)")
      (auto simp: newline_def Let_def position_append option.map_comp o_def add.assoc split: option.splits)
qed

text \<open>C17: The word-at-a-time newline search is the byte-at-a-time one. Wherever the platform's alignment splits a
  slice into leading bytes, little-endian words and trailing bytes, the search returns the index of the first
  newline, or none when there is none: no byte of a word is mistaken for one, and of several in a word the first
  is taken.\<close>

theorem newline_is_first:
  assumes "h + 4 * k \<le> length bs"
  shows "newline h k bs = position (\<lambda>b. b = 10) bs"
  using assms by (rule newline_first)

theorem newline_is_first_witness: "newline 1 1 [84, 32, 10, 9, 10, 10] = position (\<lambda>b. b = 10) [84 :: u8, 32, 10, 9, 10, 10]"
  by (rule newline_is_first) simp

section \<open>Lines do not depend on how the bytes arrive\<close>

fun line_bytes :: "nat \<Rightarrow> bytes \<times> bool \<Rightarrow> bytes \<Rightarrow> host_line list \<times> bytes \<times> bool" where
  "line_bytes N s [] = ([], s)"
| "line_bytes N (cur, overrun) (b # bs) =
     (if b = 10 then let (ls, s) = line_bytes N ([], False) bs in (line_out cur (\<not> overrun) @ ls, s)
      else line_bytes N (if length cur < N then (cur @ [b], overrun) else (cur, True)) bs)"

definition line_state :: "relay_lines \<Rightarrow> bytes \<times> bool" where
  "line_state l = (take (rl_len l) (rl_line l), rl_overrun l)"

definition lines_ok :: "nat \<Rightarrow> relay_lines \<Rightarrow> bool" where
  "lines_ok N l \<longleftrightarrow> length (rl_line l) = N \<and> rl_len l \<le> N"

lemma line_bytes_append:
  "line_bytes N s (xs @ ys) = (let (ls, s) = line_bytes N s xs; (ls', s) = line_bytes N s ys in (ls @ ls', s))"
  by (induction N s xs rule: line_bytes.induct) (simp_all add: split_beta Let_def)

lemma line_bytes_segment:
  "10 \<notin> set seg \<Longrightarrow> length cur \<le> N \<Longrightarrow> line_bytes N (cur, overrun) seg =
    ([], cur @ take (N - length cur) seg, overrun \<or> N - length cur < length seg)"
  by (induction seg arbitrary: cur overrun) (auto simp: take_Cons' Suc_diff_Suc)

lemma lines_take_state:
  assumes "lines_ok N l" and "search bs = position (\<lambda>b. b = 10) bs" and "lines_take N search l bs = (used, ended, l')"
  defines "seg \<equiv> (if ended then take (used - 1) bs else bs)"
  shows "lines_ok N l'" "line_bytes N (line_state l) seg = ([], line_state l')" "10 \<notin> set seg"
    "bs = seg @ (if ended then 10 # drop used bs else [])"
proof -
  have l: "length (rl_line l) = N" "rl_len l \<le> N"
    using assms(1) by (simp_all add: lines_ok_def)
  have split: "10 \<notin> set seg \<and> bs = seg @ (if ended then 10 # drop used bs else []) \<and>
      used = length seg + (if ended then 1 else 0) \<and>
      (case search bs of Some i \<Rightarrow> (take i bs, True) | None \<Rightarrow> (bs, False)) = (seg, ended)"
  proof (cases "position (\<lambda>b. b = 10) bs")
    case None
    then have "search bs = None" "10 \<notin> set bs"
      using assms(2) by (auto simp: position_None)
    moreover from this have "used = length bs" "\<not> ended"
      using assms(3) by (auto simp: lines_take_def Let_def)
    ultimately show ?thesis
      by (simp add: seg_def)
  next
    case (Some i)
    then have i: "i < length bs" "bs ! i = 10" "\<forall>j<i. bs ! j \<noteq> 10"
      using position_Some by fastforce+
    then have "10 \<notin> set (take i bs)"
      by (auto simp: in_set_conv_nth)
    moreover have "bs = take i bs @ 10 # drop (i + 1) bs"
      using id_take_nth_drop[OF i(1)] i(2) by simp
    moreover have "search bs = Some i"
      using assms(2) Some by simp
    moreover from this have "used = i + 1" "ended"
      using assms(3) i(1) by (auto simp: lines_take_def Let_def)
    ultimately show ?thesis
      using i(1) by (simp add: seg_def)
  qed
  let ?fit = "min (length seg) (N - rl_len l)"
  have l': "l' = (if ?fit < length seg then \<lambda>l. l\<lparr>rl_overrun := True\<rparr> else id)
      (l\<lparr>rl_line := write_at (rl_line l) (rl_len l) (take ?fit seg), rl_len := rl_len l + ?fit\<rparr>)"
    using assms(3) split by (auto simp: lines_take_def Let_def)
  have "take (rl_len l + ?fit) (write_at (rl_line l) (rl_len l) (take ?fit seg)) = take (rl_len l) (rl_line l) @ take ?fit seg"
    using l take_write_at[of "rl_len l" "take ?fit seg" "rl_line l"] by simp
  moreover have "take ?fit seg = take (N - rl_len l) seg"
    by (simp add: min_def)
  moreover have "line_bytes N (line_state l) seg = ([], take (rl_len l) (rl_line l) @ take (N - rl_len l) seg, rl_overrun l \<or> N - rl_len l < length seg)"
    using line_bytes_segment[of seg "take (rl_len l) (rl_line l)" N] split l by (simp add: line_state_def)
  ultimately show "line_bytes N (line_state l) seg = ([], line_state l')"
    by (auto simp: l' line_state_def)
  show "lines_ok N l'"
    using l by (auto simp: l' lines_ok_def write_at_def)
  show "10 \<notin> set seg" "bs = seg @ (if ended then 10 # drop used bs else [])"
    using split by blast+
qed

lemma drain_bytes:
  assumes "\<And>bs. find_newline align bs = position (\<lambda>b. b = 10) bs"
  shows "lines_ok N l \<Longrightarrow> drain N align l bs = (outs, l') \<Longrightarrow>
    lines_ok N l' \<and> line_bytes N (line_state l) bs = (outs, line_state l')"
proof (induction "length bs" arbitrary: l bs outs l' rule: less_induct)
  case less
  show ?case
  proof (cases "bs = []")
    case True
    then show ?thesis
      using less.prems by (simp add: drain.simps)
  next
    case False
    obtain used ended m where t: "lines_take N (find_newline align) l bs = (used, ended, m)"
      by (cases "lines_take N (find_newline align) l bs") auto
    note s = lines_take_state[OF less.prems(1) assms t]
    show ?thesis
    proof (cases ended)
      case False
      then show ?thesis
        using s less.prems(2) \<open>bs \<noteq> []\<close> by (simp add: drain.simps[of N align l bs] t)
    next
      case True
      let ?m = "m\<lparr>rl_len := 0, rl_overrun := False\<rparr>"
      obtain outs2 l2 where d: "drain N align ?m (drop used bs) = (outs2, l2)"
        by (meson surj_pair)
      have o: "outs = line_out (take (rl_len m) (rl_line m)) (\<not> rl_overrun m) @ outs2" "l' = l2"
        using less.prems(2) \<open>bs \<noteq> []\<close> True by (simp_all add: drain.simps[of N align l bs] t d)
      have "length (drop used bs) < length bs"
        using lines_take_pos[of used m N "find_newline align" l bs] t True \<open>bs \<noteq> []\<close> by simp
      moreover have "lines_ok N ?m" "line_state ?m = ([], False)"
        using s(1) by (simp_all add: lines_ok_def line_state_def)
      ultimately have IH: "lines_ok N l2" "line_bytes N ([], False) (drop used bs) = (outs2, line_state l2)"
        using less.hyps[OF _ _ d] by auto
      let ?seg = "take (used - 1) bs"
      have "line_bytes N (line_state l) (?seg @ 10 # drop used bs) = (outs, line_state l')"
        using s(2) IH(2) True by (simp add: line_bytes_append o line_state_def)
      then show ?thesis
        using s(4) True IH(1) o(2) by simp
    qed
  qed
qed

text \<open>C18: The lines are those of the byte stream. However the host's bytes are cut into reads, wherever each read is
  aligned, and whatever was left in the line buffer of an earlier line, the lines handled over a run are those a
  byte-at-a-time assembler makes of the whole stream: cut at newlines, a carriage return before it dropped, the
  empty ones skipped, and one longer than the buffer counted bad rather than handled cut short.\<close>

definition drain_chunks :: "nat \<Rightarrow> (bytes \<Rightarrow> nat \<times> nat) \<Rightarrow> bytes list \<Rightarrow> host_line list" where
  "drain_chunks N align chunks =
     fst (foldl (\<lambda>(outs, l) bs. let (outs', l) = drain N align l bs in (outs @ outs', l)) ([], lines_new N) chunks)"

theorem relay_lines_of_stream:
  assumes "\<And>bs. fst (align bs) + 4 * snd (align bs) \<le> length bs"
  shows "drain_chunks N align chunks = fst (line_bytes N ([], False) (concat chunks))"
proof -
  have f: "find_newline align bs = position (\<lambda>b. b = 10) bs" for bs
    using newline_first[OF assms] by (simp add: find_newline_def split_beta)
  let ?f = "\<lambda>(outs, l) bs. let (outs', l) = drain N align l bs in (outs @ outs', l)"
  have "let (outs, l) = foldl ?f ([], lines_new N) chunks in
      lines_ok N l \<and> line_bytes N ([], False) (concat chunks) = (outs, line_state l)"
  proof (induction chunks rule: rev_induct)
    case Nil
    then show ?case
      by (simp add: lines_new_def lines_ok_def line_state_def)
  next
    case (snoc c chunks)
    obtain outs l where i: "foldl ?f ([], lines_new N) chunks = (outs, l)"
      by (meson surj_pair)
    obtain outs' l' where d: "drain N align l c = (outs', l')"
      by (meson surj_pair)
    show ?case
      using snoc drain_bytes[OF f _ d] unfolding foldl_append i by (simp add: i d line_bytes_append)
  qed
  then show ?thesis
    by (auto simp: drain_chunks_def split_beta Let_def)
qed

theorem relay_lines_of_stream_witness:
  "drain_chunks 4 (\<lambda>bs. (length bs mod 4, length bs div 4)) [[84, 32, 13], [10, 65, 66, 67, 68, 69], [10, 66, 10]] =
    fst (line_bytes 4 ([], False) (concat [[84, 32, 13], [10, 65, 66, 67, 68, 69], [10, 66, 10]]))"
  by (rule relay_lines_of_stream) simp

end
