(* ===== verification/Utf8.thy ===== *)
theory Utf8
  imports Prelude
begin

text \<open>
  Strings of the Rust standard library as byte lists: \<open>core::str::from_utf8\<close>, \<open>str::is_char_boundary\<close>
  and \<open>char::is_control\<close>, with the fact that a valid string cut at a character boundary, and only there,
  is a valid string.
\<close>

text \<open>The code points of well-formed UTF-8.\<close>

definition cont_byte :: "u8 \<Rightarrow> bool" where
  "cont_byte b \<longleftrightarrow> 0x80 \<le> b \<and> b \<le> 0xBF"

fun utf8_chars :: "bytes \<Rightarrow> nat list option" where
  "utf8_chars [] = Some []"
| "utf8_chars (a # r) =
     (if a \<le> 0x7F then map_option (Cons (unat a)) (utf8_chars r)
      else if 0xC2 \<le> a \<and> a \<le> 0xDF then
        (case r of b # r' \<Rightarrow>
           if cont_byte b then map_option (Cons ((unat a - 0xC0) * 64 + (unat b - 0x80))) (utf8_chars r')
           else None
         | _ \<Rightarrow> None)
      else if 0xE0 \<le> a \<and> a \<le> 0xEF then
        (case r of b # c # r' \<Rightarrow>
           if cont_byte b \<and> cont_byte c \<and> (a = 0xE0 \<longrightarrow> 0xA0 \<le> b) \<and> (a = 0xED \<longrightarrow> b \<le> 0x9F)
           then map_option (Cons ((unat a - 0xE0) * 4096 + (unat b - 0x80) * 64 + (unat c - 0x80))) (utf8_chars r')
           else None
         | _ \<Rightarrow> None)
      else if 0xF0 \<le> a \<and> a \<le> 0xF4 then
        (case r of b # c # d # r' \<Rightarrow>
           if cont_byte b \<and> cont_byte c \<and> cont_byte d \<and> (a = 0xF0 \<longrightarrow> 0x90 \<le> b) \<and> (a = 0xF4 \<longrightarrow> b \<le> 0x8F)
           then map_option (Cons ((unat a - 0xF0) * 262144 + (unat b - 0x80) * 4096 + (unat c - 0x80) * 64 + (unat d - 0x80)))
                  (utf8_chars r')
           else None
         | _ \<Rightarrow> None)
      else None)"

text \<open>\<open>char::is_control\<close>: the general category Cc.\<close>

definition is_control :: "nat \<Rightarrow> bool" where
  "is_control c \<longleftrightarrow> c \<le> 0x1F \<or> (0x7F \<le> c \<and> c \<le> 0x9F)"

text \<open>\<open>str::is_char_boundary\<close>: the ends, and every byte that does not continue a character.\<close>

definition is_char_boundary :: "bytes \<Rightarrow> nat \<Rightarrow> bool" where
  "is_char_boundary s i \<longleftrightarrow> i = 0 \<or> i = length s \<or> (i < length s \<and> \<not> cont_byte (s ! i))"

lemma utf8_ascii: "list_all (\<lambda>b. b \<le> 0x7F) xs \<Longrightarrow> utf8_chars xs \<noteq> None"
  by (induction xs) auto

section \<open>Cutting a string\<close>

lemma utf8_step:
  assumes "utf8_chars xs = Some cs" and "xs \<noteq> []"
  obtains c cs' n where "0 < n" "n \<le> length xs" "cs = c # cs'" "utf8_chars (drop n xs) = Some cs'"
    "\<And>ys. utf8_chars (take n xs @ ys) = map_option (Cons c) (utf8_chars ys)"
    "\<not> cont_byte (xs ! 0)" "\<forall>i. i < n \<longrightarrow> 0 < i \<longrightarrow> cont_byte (xs ! i)"
    "\<forall>k. k < n \<longrightarrow> 0 < k \<longrightarrow> utf8_chars (take k xs) = None"
proof -
  obtain a r where xs: "xs = a # r"
    using assms(2) by (cases xs) auto
  have small: "k < 2 \<longleftrightarrow> k = 0 \<or> k = 1" "k < 3 \<longleftrightarrow> k = 0 \<or> k = 1 \<or> k = 2"
    "k < 4 \<longleftrightarrow> k = 0 \<or> k = 1 \<or> k = 2 \<or> k = 3" for k :: nat
    by auto
  consider (one) "unat a \<le> 127" | (two) "\<not> unat a \<le> 127" "194 \<le> unat a" "unat a \<le> 223"
    | (three) "\<not> unat a \<le> 127" "\<not> unat a \<le> 223" "224 \<le> unat a" "unat a \<le> 239"
    | (four) "\<not> unat a \<le> 127" "\<not> unat a \<le> 223" "\<not> unat a \<le> 239" "240 \<le> unat a" "unat a \<le> 244"
    using assms(1) unfolding xs by (fastforce simp: word_le_nat_alt split: if_splits)
  then show thesis
  proof cases
    case one
    then show thesis
      using assms(1) that[of 1] unfolding xs by (auto simp: word_le_nat_alt cont_byte_def)
  next
    case two
    then obtain b r' where r: "r = b # r'" and "cont_byte b"
      using assms(1) unfolding xs by (auto simp: word_le_nat_alt split: list.splits if_splits)
    with two show thesis
      using assms(1) that[of 2] unfolding xs r
      by (auto simp: word_le_nat_alt small cont_byte_def)
  next
    case three
    then obtain b c r' where r: "r = b # c # r'" and "cont_byte b" "cont_byte c"
      using assms(1) unfolding xs by (auto simp: word_le_nat_alt split: list.splits if_splits)
    with three show thesis
      using assms(1) that[of 3] unfolding xs r
      by (auto simp: word_le_nat_alt small cont_byte_def split: if_splits)
  next
    case four
    then obtain b c d r' where r: "r = b # c # d # r'" and "cont_byte b" "cont_byte c" "cont_byte d"
      using assms(1) unfolding xs by (auto simp: word_le_nat_alt split: list.splits if_splits)
    with four show thesis
      using assms(1) that[of 4] unfolding xs r
      by (auto simp: word_le_nat_alt small cont_byte_def split: if_splits)
  qed
qed

text \<open>Inside a valid string, the boundaries are exactly the places where a valid string ends.\<close>

lemma utf8_cut:
  "utf8_chars xs = Some cs \<Longrightarrow> i \<le> length xs \<Longrightarrow>
     (is_char_boundary xs i \<longleftrightarrow> utf8_chars (take i xs) \<noteq> None) \<and>
     (is_char_boundary xs i \<longrightarrow> (\<exists>k. utf8_chars (take i xs) = Some (take k cs)))"
proof (induction "length xs" arbitrary: xs cs i rule: less_induct)
  case less
  show ?case
  proof (cases "i = 0 \<or> xs = []")
    case True
    then show ?thesis
      using less.prems by (auto simp: is_char_boundary_def intro: exI[of _ 0])
  next
    case False
    then obtain c cs' n where n: "0 < n" "n \<le> length xs" "cs = c # cs'" "utf8_chars (drop n xs) = Some cs'"
      and step: "\<And>ys. utf8_chars (take n xs @ ys) = map_option (Cons c) (utf8_chars ys)"
      and conts: "\<forall>i. i < n \<longrightarrow> 0 < i \<longrightarrow> cont_byte (xs ! i)"
      and none: "\<forall>k. k < n \<longrightarrow> 0 < k \<longrightarrow> utf8_chars (take k xs) = None"
      using utf8_step[OF less.prems(1)] by metis
    show ?thesis
    proof (cases "i < n")
      case True
      then show ?thesis
        using False n(2) conts none by (auto simp: is_char_boundary_def)
    next
      case late: False
      have split: "take i xs = take n xs @ take (i - n) (drop n xs)"
        using late by (metis le_add_diff_inverse not_less take_add)
      have IH: "(is_char_boundary (drop n xs) (i - n) \<longleftrightarrow> utf8_chars (take (i - n) (drop n xs)) \<noteq> None) \<and>
          (is_char_boundary (drop n xs) (i - n) \<longrightarrow> (\<exists>k. utf8_chars (take (i - n) (drop n xs)) = Some (take k cs')))"
        using n less.prems(2) by (intro less.hyps) auto
      show ?thesis
      proof (cases "i = n")
        case True
        have "is_char_boundary xs n"
        proof (cases "drop n xs = []")
          case False
          then have "\<not> cont_byte (drop n xs ! 0)"
            by (rule utf8_step[OF n(4)])
          then show ?thesis
            using False by (simp add: is_char_boundary_def)
        qed (use n(2) in \<open>simp add: is_char_boundary_def\<close>)
        moreover have "utf8_chars (take i xs) = Some (take 1 cs)"
          using step[of "[]"] True n(3) by simp
        ultimately show ?thesis
          using True by auto
      next
        case after: False
        have "is_char_boundary xs i \<longleftrightarrow> is_char_boundary (drop n xs) (i - n)"
          using late after n(1,2) less.prems(2) by (auto simp: is_char_boundary_def)
        moreover have "utf8_chars (take i xs) = map_option (Cons c) (utf8_chars (take (i - n) (drop n xs)))"
          unfolding split by (rule step)
        ultimately show ?thesis
          using IH n(3) by (auto intro: exI[of _ "Suc _"])
      qed
    qed
  qed
qed

end
