(* ===== verification/Relay_Wire.thy ===== *)
theory Relay_Wire
  imports Relay_Ring Utf8 Signed
begin

text \<open>
  The relay's serial protocol (\<open>firmware/espnow-relay/src/hex.rs\<close> and \<open>main.rs\<close>): hex and decimal in buffers, the
  lines the host sends, the lines it is sent, and what a line does to the relay's settings. What the radio and the
  UART answer is an argument of the step.
\<close>

section \<open>Hex\<close>

definition DIGITS :: bytes where
  "DIGITS = [48, 49, 50, 51, 52, 53, 54, 55, 56, 57, 97, 98, 99, 100, 101, 102]"

definition byte_pair :: "u8 \<Rightarrow> bytes" where
  "byte_pair b = [DIGITS ! unat (drop_bit 4 b), DIGITS ! unat (b AND 0xf)]"

text \<open>\<open>None\<close> where the code panics: the output is too short for the text.\<close>

definition hex_into :: "bytes \<Rightarrow> bytes \<Rightarrow> (nat \<times> bytes) option" where
  "hex_into bs out =
     (if length out < length bs * 2 then None
      else Some (length bs * 2, write_at out 0 (concat (map byte_pair bs))))"

definition nibble :: "u8 \<Rightarrow> u8 option" where
  "nibble c =
     (if 48 \<le> c \<and> c \<le> 57 then Some (c - 48)
      else if 97 \<le> c \<and> c \<le> 102 then Some (c - 97 + 10)
      else if 65 \<le> c \<and> c \<le> 70 then Some (c - 65 + 10)
      else None)"

definition INVALID :: u8 where "INVALID = 0x80"

definition nibble_entry :: "u8 \<Rightarrow> u8" where
  "nibble_entry c = (case nibble c of Some v \<Rightarrow> v | None \<Rightarrow> INVALID)"

text \<open>The pairs of the text, each into its byte; the bytes before a bad pair are already written.\<close>

fun unhex_loop :: "bytes list \<Rightarrow> nat \<Rightarrow> bytes \<Rightarrow> bool \<times> bytes" where
  "unhex_loop [] i out = (True, out)"
| "unhex_loop (pair # pairs) i out =
     (let high = nibble_entry (pair ! 0); low = nibble_entry (pair ! 1)
      in if (high OR low) AND INVALID \<noteq> 0 then (False, out)
         else unhex_loop pairs (i + 1) (out[i := push_bit 4 high OR low]))"

definition unhex :: "bytes \<Rightarrow> bytes \<Rightarrow> nat option \<times> bytes" where
  "unhex txt out =
     (if length txt mod 2 \<noteq> 0 \<or> length txt div 2 > length out then (None, out)
      else case unhex_loop (chunks_exact 2 txt) 0 out of
        (ok, out) \<Rightarrow> (if ok then Some (length txt div 2) else None, out))"

section \<open>Decimal\<close>

definition DECIMAL_PAIR :: "nat \<Rightarrow> bytes" where
  "DECIMAL_PAIR v = [48 + of_nat (v div 10), 48 + of_nat (v mod 10)]"

text \<open>Two digits a step into the buffer, from its right end.\<close>

function decimal_loop :: "u32 \<Rightarrow> bytes \<times> nat \<Rightarrow> u32 \<times> bytes \<times> nat" where
  "decimal_loop rest (buf, pos) =
     (if rest \<ge> 100
      then decimal_loop (rest div 100) (write_at buf (pos - 2) (DECIMAL_PAIR (unat (rest mod 100))), pos - 2)
      else (rest, buf, pos))"
  by pat_completeness auto
termination
proof (relation "measure (\<lambda>(rest, st). unat rest)")
  fix rest :: u32 and buf :: bytes and pos :: nat
  assume "rest \<ge> 100"
  then have "100 \<le> unat rest"
    by (simp add: word_le_nat_alt)
  then show "((rest div 100, write_at buf (pos - 2) (DECIMAL_PAIR (unat (rest mod 100))), pos - 2), rest, buf, pos)
      \<in> measure (\<lambda>(rest, st). unat rest)"
    by (simp add: unat_div)
qed simp

declare decimal_loop.simps [simp del]

definition decimal_into :: "i32 \<Rightarrow> bytes \<Rightarrow> (nat \<times> bytes) option" where
  "decimal_into n out =
     (let (rest, buf, pos) = decimal_loop (unsigned_abs n) (replicate 11 0, 11);
          (buf, pos) = (if rest \<ge> 10 then (write_at buf (pos - 2) (DECIMAL_PAIR (unat rest)), pos - 2)
                        else (write_at buf (pos - 1) [48 + ucast rest], pos - 1));
          (buf, pos) = (if sint n < 0 then (write_at buf (pos - 1) [45], pos - 1) else (buf, pos));
          k = 11 - pos
      in if length out < k then None else Some (k, write_at out 0 (drop pos buf)))"

section \<open>The host's lines\<close>

definition strip_prefix :: "bytes \<Rightarrow> bytes \<Rightarrow> bytes option" where
  "strip_prefix p bs = (if take (length p) bs = p then Some (drop (length p) bs) else None)"

definition split_at_checked :: "nat \<Rightarrow> bytes \<Rightarrow> (bytes \<times> bytes) option" where
  "split_at_checked n bs = (if n \<le> length bs then Some (take n bs, drop n bs) else None)"

text \<open>\<open>T <id> <destination> <payload>\<close>: the id, the destination, the payload's length, and the payload's buffer.\<close>

definition parse_send :: "bytes \<Rightarrow> bytes \<Rightarrow> (u8 \<times> bytes \<times> nat) option \<times> bytes" where
  "parse_send line payload =
     (case strip_prefix [84, 32] line of None \<Rightarrow> (None, payload) | Some rest \<Rightarrow>
      case split_at_checked 2 rest of None \<Rightarrow> (None, payload) | Some (id_text, rest) \<Rightarrow>
      case unhex id_text [0] of (None, _) \<Rightarrow> (None, payload) | (Some _, ident) \<Rightarrow>
      case strip_prefix [32] rest of None \<Rightarrow> (None, payload) | Some rest \<Rightarrow>
      case split_at_checked 12 rest of None \<Rightarrow> (None, payload) | Some (dest_text, rest) \<Rightarrow>
      case unhex dest_text (replicate 6 0) of (None, _) \<Rightarrow> (None, payload) | (Some _, destination) \<Rightarrow>
      case strip_prefix [32] rest of None \<Rightarrow> (None, payload) | Some hex \<Rightarrow>
      case unhex hex payload of
        (None, payload) \<Rightarrow> (None, payload)
      | (Some n, payload) \<Rightarrow> (Some (ident ! 0, destination, n), payload))"

text \<open>\<open>split_ascii_whitespace\<close>, and \<open>parse::<u32>\<close>: an optional plus, then digits, below \<open>2^32\<close>.\<close>

definition ascii_space :: "u8 \<Rightarrow> bool" where
  "ascii_space b \<longleftrightarrow> b \<in> {9, 10, 12, 13, 32}"

fun split_spaces :: "bytes \<Rightarrow> bytes \<Rightarrow> bytes list" where
  "split_spaces cur [] = (if cur = [] then [] else [cur])"
| "split_spaces cur (b # bs) =
     (if ascii_space b then (if cur = [] then [] else [cur]) @ split_spaces [] bs else split_spaces (cur @ [b]) bs)"

definition parse_u32 :: "bytes \<Rightarrow> u32 option" where
  "parse_u32 bs =
     (let ds = (if bs \<noteq> [] \<and> hd bs = 43 then tl bs else bs) in
      if ds = [] then None
      else map_option of_nat
        (foldl (\<lambda>acc b. case acc of None \<Rightarrow> None
           | Some n \<Rightarrow> if 48 \<le> b \<and> b \<le> 57 \<and> 10 * n + unat (b - 48) < 2 ^ 32 then Some (10 * n + unat (b - 48)) else None)
          (Some 0) ds))"

fun parse_parts :: "u32 list \<Rightarrow> nat \<Rightarrow> bytes list \<Rightarrow> (u32 list \<times> nat) option" where
  "parse_parts out count [] = Some (out, count)"
| "parse_parts out count (p # ps) =
     (if count = 3 then None
      else case parse_u32 p of None \<Rightarrow> None | Some v \<Rightarrow> parse_parts (out[count := v]) (count + 1) ps)"

definition parse_numbers :: "bytes \<Rightarrow> u8 \<Rightarrow> u32 list option" where
  "parse_numbers line verb =
     (case line of
        [] \<Rightarrow> None
      | b # rest \<Rightarrow>
          if b \<noteq> verb then None
          else if utf8_chars rest = None then None
          else case parse_parts [0, 0, 0] 0 (split_spaces [] rest) of
              None \<Rightarrow> None | Some (out, count) \<Rightarrow> if count > 0 then Some out else None)"

section \<open>Hex text is exactly the bytes it spells\<close>

text \<open>\<open>hex_text\<close> is the lower-case text of some bytes; \<open>ds\<close> spells \<open>bs\<close> when it is that text in either case.\<close>

definition hex_text :: "bytes \<Rightarrow> bytes" where
  "hex_text bs = concat (map byte_pair bs)"

definition hex_lower :: "u8 \<Rightarrow> u8" where
  "hex_lower c = (if 65 \<le> c \<and> c \<le> 70 then c + 32 else c)"

definition spells :: "bytes \<Rightarrow> bytes \<Rightarrow> bool" where
  "spells ds bs \<longleftrightarrow> map hex_lower ds = hex_text bs"

lemma all_bytes: "list_all P (map word_of_int [0..255]) \<Longrightarrow> P (b :: u8)"
proof -
  assume all: "list_all P (map word_of_int [0..255])"
  have "b = word_of_int (uint b)" "0 \<le> uint b" "uint b \<le> 255"
    using uint_bounded[of b] by simp_all
  then show ?thesis
    using all unfolding list_all_iff by (metis atLeastAtMost_iff image_eqI set_map set_upto)
qed

lemma nibble_fact:
  "case nibble c of None \<Rightarrow> bit (nibble_entry c) 7 | Some v \<Rightarrow> \<not> bit (nibble_entry c) 7 \<and> unat v < 16 \<and> hex_lower c = DIGITS ! unat v"
  by (rule all_bytes[where b = c]) code_simp

lemma byte_pair_fact:
  "nibble (byte_pair b ! 0) = Some (drop_bit 4 b) \<and> nibble (byte_pair b ! 1) = Some (b AND 15) \<and>
   push_bit 4 (drop_bit 4 b) OR (b AND 15) = b \<and> map hex_lower (byte_pair b) = byte_pair b"
  by (rule all_bytes[where b = b]) code_simp

lemma nibble_hex_lower: "nibble (hex_lower c) = nibble c"
  by (rule all_bytes[where b = c]) code_simp

lemma pair_of_nibbles:
  assumes "unat a < 16" "unat b < 16"
  shows "byte_pair (push_bit 4 a OR b) = [DIGITS ! unat a, DIGITS ! unat b]"
proof -
  have "list_all (\<lambda>i. list_all (\<lambda>j. byte_pair (push_bit 4 (of_nat i) OR of_nat j) = [DIGITS ! i, DIGITS ! j]) [0..<16]) [0..<16]"
    by code_simp
  from this[unfolded list_all_iff, THEN bspec, of "unat a", THEN bspec, of "unat b"] assms show ?thesis
    by simp
qed

lemma length_byte_pair [simp]: "length (byte_pair b) = 2"
  by (simp add: byte_pair_def)

lemma length_hex_text [simp]: "length (hex_text bs) = 2 * length bs"
  by (induction bs) (auto simp: hex_text_def)

lemma spells_length: "spells ds bs \<Longrightarrow> length ds = 2 * length bs"
  unfolding spells_def by (metis length_hex_text length_map)

lemma spells_hex_text: "spells (hex_text bs) bs"
  using byte_pair_fact by (induction bs) (auto simp: spells_def hex_text_def)

lemma bad_pair_iff: "(nibble_entry h OR nibble_entry l) AND INVALID \<noteq> 0 \<longleftrightarrow> nibble h = None \<or> nibble l = None"
proof -
  have "INVALID = 2 ^ 7"
    by (simp add: INVALID_def)
  then have "(x AND INVALID \<noteq> 0) = bit x 7" for x :: u8
    by (simp add: bit_iff_and_push_bit_not_eq_0 push_bit_eq_mult)
  then show ?thesis
    using nibble_fact[of h] nibble_fact[of l] by (auto simp: bit_or_iff split: option.splits)
qed

lemma spells_Cons2:
  "spells (h # l # ds) (b # bs) \<longleftrightarrow> [hex_lower h, hex_lower l] = byte_pair b \<and> spells ds bs"
  by (auto simp: spells_def hex_text_def byte_pair_def)

lemma pair_value:
  assumes "[hex_lower h, hex_lower l] = byte_pair b"
  shows "nibble h = Some (drop_bit 4 b)" "nibble l = Some (b AND 15)"
    "push_bit 4 (nibble_entry h) OR nibble_entry l = b"
  using byte_pair_fact[of b] assms[symmetric]
  by (auto simp: nibble_hex_lower nibble_entry_def)

lemma chunks2: "chunks_exact 2 (h # l # ds) = [h, l] # chunks_exact 2 ds"
  by (subst chunks_exact.simps) simp

lemma write_at_step: "i < length out \<Longrightarrow> write_at (out[i := v]) (Suc i) bs = write_at out i (v # bs)"
  by (simp add: write_at_def take_Suc_conv_app_nth)

lemma unhex_loop_ok:
  "spells ds bs \<Longrightarrow> i + length bs \<le> length out \<Longrightarrow>
   unhex_loop (chunks_exact 2 ds) i out = (True, write_at out i bs)"
proof (induction bs arbitrary: ds i out)
  case Nil
  then have "ds = []"
    using spells_length by fastforce
  then show ?case
    by (simp add: chunks_exact.simps write_at_def)
next
  case (Cons b bs)
  then have "length ds = 2 + 2 * length bs"
    using spells_length by fastforce
  then obtain h l ds' where ds: "ds = h # l # ds'"
    by (metis Suc_length_conv add_2_eq_Suc)
  have p: "[hex_lower h, hex_lower l] = byte_pair b" "spells ds' bs"
    using Cons.prems(1) unfolding ds spells_Cons2 by simp_all
  have "\<not> (nibble_entry h OR nibble_entry l) AND INVALID \<noteq> 0"
    unfolding bad_pair_iff by (simp add: pair_value[OF p(1)])
  then show ?case
    using Cons.IH[OF p(2), of "Suc i" "out[i := b]"] Cons.prems(2)
    by (simp add: ds chunks2 Let_def pair_value(3)[OF p(1)] write_at_step)
qed

lemma unhex_loop_spells:
  "fst (unhex_loop (chunks_exact 2 ds) i out) \<Longrightarrow> even (length ds) \<Longrightarrow> \<exists>bs. spells ds bs"
proof (induction ds arbitrary: i out rule: induct_list012)
  case 1
  have "spells [] []"
    by (simp add: spells_def hex_text_def)
  then show ?case ..
next
  case (2 x)
  then show ?case by simp
next
  case (3 h l ds)
  define v where "v = push_bit 4 (nibble_entry h) OR nibble_entry l"
  have ok: "\<not> ((nibble_entry h OR nibble_entry l) AND INVALID \<noteq> 0)"
    and rest: "fst (unhex_loop (chunks_exact 2 ds) (i + 1) (out[i := v]))"
    using "3.prems"(1) by (auto simp: chunks2 Let_def v_def split: if_splits)
  obtain bs where bs: "spells ds bs"
    using "3.IH"(1)[OF rest] "3.prems"(2) by auto
  obtain a b where ab: "nibble h = Some a" "nibble l = Some b"
    using ok unfolding bad_pair_iff by auto
  then have "byte_pair (push_bit 4 a OR b) = [hex_lower h, hex_lower l]"
    using nibble_fact[of h] nibble_fact[of l] by (simp add: pair_of_nibbles)
  then show ?case
    using bs spells_Cons2 by metis
qed

lemma unhex_ok: "spells ds bs \<Longrightarrow> length bs \<le> length out \<Longrightarrow> unhex ds out = (Some (length bs), write_at out 0 bs)"
  using unhex_loop_ok[of ds bs 0 out] spells_length[of ds bs] by (simp add: unhex_def)

lemma unhex_Some:
  assumes "unhex ds out = (Some n, out')"
  obtains bs where "spells ds bs" "n = length bs" "n \<le> length out" "out' = write_at out 0 bs"
proof -
  from assms have len: "even (length ds)" "length ds div 2 \<le> length out" and ok: "fst (unhex_loop (chunks_exact 2 ds) 0 out)"
    by (auto simp: unhex_def split: if_splits prod.splits)
  obtain bs where bs: "spells ds bs"
    using unhex_loop_spells[OF ok len(1)] by blast
  with unhex_ok[OF bs, of out] len assms show ?thesis
    by (intro that[OF bs]) (simp_all add: spells_length)
qed

lemma unhex_keeps_length: "length (snd (unhex ds out)) = length out"
proof -
  have "length (snd (unhex_loop ps i out)) = length out" for ps i
    by (induction ps arbitrary: i out) (simp_all add: Let_def)
  from this[of "chunks_exact 2 ds" 0] show ?thesis
    by (auto simp: unhex_def split: prod.splits)
qed

lemma hex_into_text: "hex_into bs out = (if length out < 2 * length bs then None else Some (2 * length bs, write_at out 0 (hex_text bs)))"
  by (simp add: hex_into_def hex_text_def mult.commute)

section \<open>Decimal text is exactly the number\<close>

fun dec_text :: "nat \<Rightarrow> bytes" where
  "dec_text n = (if n < 10 then [48 + of_nat n] else dec_text (n div 10) @ [48 + of_nat (n mod 10)])"

declare dec_text.simps [simp del]

definition int_text :: "int \<Rightarrow> bytes" where
  "int_text n = (if n < 0 then [45] else []) @ dec_text (nat \<bar>n\<bar>)"

lemma dec_text_nonempty: "0 < length (dec_text n)"
  by (subst dec_text.simps) simp

lemma dec_text_pair: "10 \<le> n \<Longrightarrow> n < 100 \<Longrightarrow> dec_text n = DECIMAL_PAIR n"
  by (subst dec_text.simps, subst dec_text.simps) (simp add: DECIMAL_PAIR_def)

lemma dec_text_step: "100 \<le> n \<Longrightarrow> dec_text n = dec_text (n div 100) @ DECIMAL_PAIR (n mod 100)"
proof -
  assume n: "100 \<le> n"
  have "n mod 100 div 10 = n div 10 mod 10" "n mod 100 mod 10 = n mod 10"
    by (simp_all add: mod_mult2_eq[of n 10 10, simplified] mod_mod_cancel)
  then show ?thesis
    using n by (subst dec_text.simps, subst dec_text.simps) (simp add: DECIMAL_PAIR_def div_mult2_eq[of n 10 10, simplified])
qed

lemma length_dec_text: "n < 10 ^ Suc k \<Longrightarrow> length (dec_text n) \<le> Suc k"
proof (induction k arbitrary: n)
  case 0
  then show ?case by (simp add: dec_text.simps)
next
  case (Suc k)
  then have "n div 10 < 10 ^ Suc k"
    by (simp add: less_mult_imp_div_less)
  from Suc.IH[OF this] show ?case
    by (subst dec_text.simps) simp
qed

lemma length_decimal_pair [simp]: "length (DECIMAL_PAIR v) = 2"
  by (simp add: DECIMAL_PAIR_def)

lemma drop_write_end: "i + length ys \<le> length xs \<Longrightarrow> drop i (write_at xs i ys) = ys @ drop (i + length ys) xs"
  by (simp add: write_at_def)

lemma decimal_loop_text:
  assumes "decimal_loop rest (buf, pos) = (rest', buf', pos')"
    and "length buf = 11" "pos \<le> 11" "length (dec_text (unat rest)) < pos"
  shows "unat rest' < 100 \<and> length buf' = 11 \<and> pos' \<le> 11 \<and> length (dec_text (unat rest')) < pos' \<and>
    dec_text (unat rest') @ drop pos' buf' = dec_text (unat rest) @ drop pos buf"
  using assms
proof (induction rest "(buf, pos)" arbitrary: buf pos rule: decimal_loop.induct)
  case (1 rest buf pos)
  show ?case
  proof (cases "rest \<ge> 100")
    case True
    then have n: "100 \<le> unat rest"
      by (simp add: word_le_nat_alt)
    let ?buf = "write_at buf (pos - 2) (DECIMAL_PAIR (unat (rest mod 100)))"
    have parts: "unat (rest div 100) = unat rest div 100" "unat (rest mod 100) = unat rest mod 100"
      by (simp_all add: unat_div unat_mod)
    have step: "dec_text (unat rest) = dec_text (unat (rest div 100)) @ DECIMAL_PAIR (unat (rest mod 100))"
      unfolding parts by (rule dec_text_step[OF n])
    then have fit: "length (dec_text (unat (rest div 100))) + 2 < pos"
      using "1.prems"(4) by simp
    then have up: "Suc (Suc (pos - 2)) = pos"
      by simp
    have "decimal_loop (rest div 100) (?buf, pos - 2) = (rest', buf', pos')"
      using "1.prems"(1) True by (subst (asm) decimal_loop.simps) simp
    from "1.hyps"[OF True this] "1.prems" fit step show ?thesis
      by (simp add: drop_write_end up)
  next
    case False
    then have "unat rest < 100"
      by (simp add: word_le_nat_alt)
    with False "1.prems" show ?thesis
      by (subst (asm) decimal_loop.simps) simp
  qed
qed

lemma unat_unsigned_abs: "unat (unsigned_abs (n :: 'a::len word)) = nat \<bar>sint n\<bar>"
proof (cases "sint n < 0")
  case True
  have "- n = word_of_int (- sint n)"
    by (simp add: word_of_int_minus)
  moreover have "- sint n < 2 ^ LENGTH('a)"
    using sint_bounds(1)[of n] power_strict_increasing[of "LENGTH('a) - 1" "LENGTH('a)" "2 :: int", OF diff_less[OF zero_less_one len_gt_0]]
    by linarith
  ultimately have "uint (- n) = - sint n"
    using True by (metis mod_pos_pos_trivial neg_0_le_iff_le order_less_imp_le uint_word_of_int)
  then have "unat (- n) = nat (- sint n)"
    by (metis unat_eq_nat_uint)
  with True show ?thesis
    by (simp add: unsigned_abs_def)
next
  case False
  then show ?thesis
    using sint_nonneg[of n] unfolding unsigned_abs_def by (metis abs_of_nonneg linorder_not_less nat_int)
qed

lemma decimal_into_text:
  "decimal_into n out =
     (let digits = int_text (sint n)
      in if length out < length digits then None else Some (length digits, write_at out 0 digits))"
proof -
  obtain rest buf pos where loop: "decimal_loop (unsigned_abs n) (replicate 11 0, 11) = (rest, buf, pos)"
    by (metis prod_cases3)
  define v where "v = unat (unsigned_abs n)"
  have "v < 10 ^ Suc 9"
    unfolding v_def using unat_less[of "unsigned_abs n"] by simp
  from length_dec_text[OF this] decimal_loop_text[OF loop]
  have done_: "unat rest < 100" "length buf = 11" "pos \<le> 11" "length (dec_text (unat rest)) < pos"
    "dec_text v = dec_text (unat rest) @ drop pos buf"
    by (simp_all add: v_def)
  let ?w = "dec_text (unat rest)"
  have digits: "?w = (if rest \<ge> 10 then DECIMAL_PAIR (unat rest) else [48 + ucast rest])"
    using done_(1) dec_text_pair[of "unat rest"] by (simp add: word_le_nat_alt dec_text.simps)
  define buf1 where "buf1 = write_at buf (pos - length ?w) ?w"
  define pos1 where "pos1 = pos - length ?w"
  have one: "length buf1 = 11" "pos1 \<le> 11" "0 < pos1" "drop pos1 buf1 = dec_text v"
    using done_ by (simp_all add: buf1_def pos1_def drop_write_end)
  define buf2 where "buf2 = (if sint n < 0 then write_at buf1 (pos1 - 1) [45] else buf1)"
  define pos2 where "pos2 = (if sint n < 0 then pos1 - 1 else pos1)"
  have two: "length buf2 = 11" "pos2 \<le> 11" "drop pos2 buf2 = int_text (sint n)"
    using one by (auto simp: buf2_def pos2_def int_text_def drop_write_end v_def unat_unsigned_abs)
  have "11 - pos2 = length (int_text (sint n))"
    unfolding two(3)[symmetric] using two(1) by simp
  moreover have "decimal_into n out =
      (if length out < 11 - pos2 then None else Some (11 - pos2, write_at out 0 (drop pos2 buf2)))"
    unfolding decimal_into_def loop
    by (simp add: Let_def buf2_def pos2_def buf1_def pos1_def digits split: prod.splits)
  ultimately show ?thesis
    by (simp add: two(3) Let_def)
qed

text \<open>What \<open>parse\<close> reads back.\<close>

definition digit_step :: "nat option \<Rightarrow> u8 \<Rightarrow> nat option" where
  "digit_step acc b = (case acc of None \<Rightarrow> None
     | Some n \<Rightarrow> if 48 \<le> b \<and> b \<le> 57 \<and> 10 * n + unat (b - 48) < 2 ^ 32 then Some (10 * n + unat (b - 48)) else None)"

lemma parse_u32_steps:
  "parse_u32 bs = (let ds = (if bs \<noteq> [] \<and> hd bs = 43 then tl bs else bs)
     in if ds = [] then None else map_option of_nat (foldl digit_step (Some 0) ds))"
  unfolding parse_u32_def digit_step_def by (rule refl)

lemma digit_value: "d < 10 \<Longrightarrow> (48 :: u8) \<le> 48 + of_nat d \<and> 48 + of_nat d \<le> (57 :: u8) \<and> unat (48 + of_nat d - 48 :: u8) = d"
  by (simp add: word_le_nat_alt unat_word_ariths unat_of_nat)

lemma digit_step_digit: "d < 10 \<Longrightarrow> 10 * m + d < 2 ^ 32 \<Longrightarrow> digit_step (Some m) (48 + of_nat d) = Some (10 * m + d)"
  using digit_value[of d] unfolding digit_step_def by simp

lemma foldl_digits: "n < 2 ^ 32 \<Longrightarrow> foldl digit_step (Some 0) (dec_text n) = Some n"
proof (induction n rule: dec_text.induct)
  case (1 n)
  show ?case
  proof (cases "n < 10")
    case True
    then show ?thesis
      using digit_step_digit[of n 0] 1(2) by (simp add: dec_text.simps[of n])
  next
    case False
    with 1 have "foldl digit_step (Some 0) (dec_text (n div 10)) = Some (n div 10)"
      by simp
    moreover have "10 * (n div 10) + n mod 10 = n"
      by simp
    ultimately show ?thesis
      using False digit_step_digit[of "n mod 10" "n div 10"] 1(2) by (simp add: dec_text.simps[of n])
  qed
qed

lemma parse_dec_text: "parse_u32 (dec_text (unat w)) = Some w"
proof -
  have "48 \<le> hd (dec_text n)" for n
  proof (induction n rule: dec_text.induct)
    case (1 n)
    then show ?case
      using digit_value[of n] dec_text_nonempty[of "n div 10"] by (subst dec_text.simps) auto
  qed
  from this[of "unat w"] have "hd (dec_text (unat w)) \<noteq> 43"
    by auto
  then show ?thesis
    using foldl_digits[of "unat w"] unat_less[of w] dec_text_nonempty[of "unat w"] by (simp add: parse_u32_steps)
qed

section \<open>Lines\<close>

lemma strip_prefix_iff: "strip_prefix p bs = Some rest \<longleftrightarrow> bs = p @ rest"
  by (auto simp: strip_prefix_def) (metis append_take_drop_id)

lemma split_at_checked_iff: "split_at_checked n bs = Some (a, b) \<longleftrightarrow> bs = a @ b \<and> length a = n"
  by (auto simp: split_at_checked_def)

definition send_line :: "bytes \<Rightarrow> bytes \<Rightarrow> bytes \<Rightarrow> bytes" where
  "send_line ident destination payload = [84, 32] @ ident @ [32] @ destination @ [32] @ payload"

text \<open>
  A send line is taken exactly when it is \<open>T\<close>, two hex digits, twelve, and the hex of at most the buffer's length,
  with single spaces, in either case of the digits; and what it says is what those digits spell.
\<close>

lemma parse_send_complete:
  assumes "spells a [ident]" "spells b destination" "length destination = 6" "spells c data" "length data \<le> length payload"
  shows "parse_send (send_line a b c) payload = (Some (ident, destination, length data), write_at payload 0 data)"
proof -
  have "length a = 2" "length b = 12"
    using spells_length[OF assms(1)] spells_length[OF assms(2)] assms(3) by simp_all
  then show ?thesis
    using unhex_ok[OF assms(1), of "[0]"] unhex_ok[OF assms(2), of "replicate 6 0"] unhex_ok[OF assms(4,5)] assms(3)
    by (simp add: parse_send_def send_line_def strip_prefix_def split_at_checked_def write_at_0)
qed

lemma parse_send_sound:
  assumes "parse_send line payload = (Some (ident, destination, n), payload')"
  obtains a b c data where "line = send_line a b c" "spells a [ident]" "spells b destination" "length destination = 6"
    "spells c data" "n = length data" "n \<le> length payload" "payload' = write_at payload 0 data"
proof -
  from assms obtain r1 a r2 k1 u r3 b r4 k2 c where
    line: "strip_prefix [84, 32] line = Some r1" "split_at_checked 2 r1 = Some (a, r2)" "unhex a [0] = (Some k1, u)"
      "strip_prefix [32] r2 = Some r3" "split_at_checked 12 r3 = Some (b, r4)"
      "unhex b (replicate 6 0) = (Some k2, destination)" "strip_prefix [32] r4 = Some c"
      "unhex c payload = (Some n, payload')" and u: "ident = u ! 0"
    by (auto simp: parse_send_def split: option.splits prod.splits)
  obtain x where x: "spells a x" "u = write_at [0] 0 x"
    using unhex_Some[OF line(3)] by metis
  obtain y where y: "spells b y" "destination = write_at (replicate 6 0) 0 y"
    using unhex_Some[OF line(6)] by metis
  obtain data where data: "spells c data" "n = length data" "n \<le> length payload" "payload' = write_at payload 0 data"
    using unhex_Some[OF line(8)] by metis
  have len: "length a = 2" "length b = 12"
    using line(2,5) by (auto simp: split_at_checked_iff)
  then have "length x = 1" "length y = 6"
    using spells_length[OF x(1)] spells_length[OF y(1)] by simp_all
  then have "x = [ident]" "y = destination"
    using x(2) y(2) u by (auto simp: write_at_0 length_Suc_conv)
  moreover have "line = send_line a b c"
    using line by (auto simp: strip_prefix_iff split_at_checked_iff send_line_def)
  ultimately show ?thesis
    using that[of a b c data] x(1) y(1) data \<open>length y = 6\<close> by simp
qed

text \<open>Numbers said in decimal are read back, up to three of them.\<close>

lemma dec_text_digits: "b \<in> set (dec_text n) \<Longrightarrow> 48 \<le> b \<and> b \<le> 57"
proof (induction n rule: dec_text.induct)
  case (1 n)
  then show ?case
    using digit_value[of n] digit_value[of "n mod 10"] by (subst (asm) (2) dec_text.simps) (auto split: if_splits)
qed

lemma split_spaces_word: "\<forall>b\<in>set ds. \<not> ascii_space b \<Longrightarrow> split_spaces cur (ds @ rest) = split_spaces (cur @ ds) rest"
  by (induction ds arbitrary: cur) auto

lemma split_spaces_words:
  "\<forall>ds\<in>set dss. ds \<noteq> [] \<and> (\<forall>b\<in>set ds. \<not> ascii_space b) \<Longrightarrow>
   split_spaces cur (concat (map ((#) 32) dss)) = (if cur = [] then [] else [cur]) @ dss"
  by (induction dss arbitrary: cur) (auto simp: split_spaces_word ascii_space_def)

lemma parse_parts_text:
  "length out = 3 \<Longrightarrow> count \<le> 3 \<Longrightarrow>
   parse_parts out count (map (\<lambda>n. dec_text (unat n)) ns) =
     (if count + length ns \<le> 3 then Some (write_at out count ns, count + length ns) else None)"
proof (induction ns arbitrary: out count)
  case Nil
  then show ?case by (simp add: write_at_def)
next
  case (Cons n ns)
  then show ?case
    using Cons.IH[of "out[count := n]" "Suc count"] by (cases "count = 3") (auto simp: parse_dec_text write_at_step)
qed

text \<open>A line of a verb and the decimal texts of any numbers, single spaces between them, is read as those numbers with
  zeros for the ones not given when there are one, two or three, and refused when there are none or more.\<close>

lemma numbers_line_read:
  "parse_numbers (verb # concat (map (\<lambda>n. 32 # dec_text (unat n)) ns)) verb =
     (if 1 \<le> length ns \<and> length ns \<le> 3 then Some (ns @ replicate (3 - length ns) 0) else None)"
proof -
  let ?ds = "map (\<lambda>n. dec_text (unat n)) ns"
  define rest where "rest = concat (map (\<lambda>n. 32 # dec_text (unat n)) ns)"
  have line: "rest = concat (map ((#) 32) ?ds)"
    by (simp add: rest_def comp_def)
  have digits: "\<forall>ds\<in>set ?ds. ds \<noteq> [] \<and> (\<forall>b\<in>set ds. 48 \<le> b \<and> b \<le> 57)"
    using dec_text_digits dec_text_nonempty by (simp add: length_greater_0_conv[symmetric] del: length_greater_0_conv)
  have "\<not> ascii_space b" if "48 \<le> b" for b
    using that by (auto simp: ascii_space_def)
  with digits have words: "split_spaces [] rest = ?ds"
    unfolding line by (subst split_spaces_words) auto
  have "b \<le> 57 \<Longrightarrow> b \<le> 0x7F" for b :: u8
    by (rule order_trans) auto
  then have "utf8_chars rest \<noteq> None"
    unfolding line using digits by (intro utf8_ascii) (auto simp: list_all_iff)
  moreover have "write_at [0, 0, 0] 0 ns = ns @ replicate (3 - length ns) (0 :: u32)" if "length ns \<le> 3"
    using that by (auto simp: write_at_0 numeral_3_eq_3 le_Suc_eq)
  ultimately have "parse_numbers (verb # rest) verb =
      (if 1 \<le> length ns \<and> length ns \<le> 3 then Some (ns @ replicate (3 - length ns) 0) else None)"
    using parse_parts_text[of "[0, 0, 0]" 0 ns] by (auto simp: parse_numbers_def words Suc_le_eq)
  then show ?thesis
    by (simp add: rest_def)
qed

text \<open>C23: The relay takes a send line exactly when it is \<open>T\<close>, an id of two hex digits, a destination of twelve and a
  payload of hex that fits the payload's buffer, with single spaces between them, and the id, the destination, the
  length and the buffer it goes on with are what the digits spell, in lower or upper case.\<close>

theorem send_line_exact:
  "parse_send line payload = (Some (ident, destination, n), payload') \<longleftrightarrow>
   (\<exists>a b c data. line = send_line a b c \<and> spells a [ident] \<and> spells b destination \<and> length destination = 6 \<and>
      spells c data \<and> n = length data \<and> n \<le> length payload \<and> payload' = write_at payload 0 data)"
  (is "?parsed \<longleftrightarrow> ?line")
proof
  assume ?parsed
  then show ?line
    by (rule parse_send_sound) blast
next
  assume ?line
  then show ?parsed
    using parse_send_complete by blast
qed

lemma decimal_into_is_decimal:
  "decimal_into n out =
     (let digits = int_text (sint n)
      in if length out < length digits then None else Some (length digits, write_at out 0 digits)) \<and>
   parse_u32 (int_text (uint w)) = Some w"
proof
  show "decimal_into n out =
     (let digits = int_text (sint n)
      in if length out < length digits then None else Some (length digits, write_at out 0 digits))"
    by (rule decimal_into_text)
  show "parse_u32 (int_text (uint w)) = Some w"
    using parse_dec_text[of w] by (simp add: int_text_def)
qed

end
