(* ===== verification/Relay_Loop.thy ===== *)
theory Relay_Loop
  imports Relay_Wire Session "HOL-Library.Monad_Syntax"
begin

text \<open>
  The relay's loop (\<open>firmware/espnow-relay/src/main.rs\<close>): what a datagram heard prints, what a line from the host does
  to the radio, the UART and the relay's settings, and the speed on trial. What the radio, the UART and the clock
  answer are arguments of a step; what the loop does to them is its list of effects. \<open>None\<close> is a panic.
\<close>

section \<open>The air's rates\<close>

datatype phy_mode = Phy11b | Phy11g

datatype wifi_phy_rate = Rate1mL | Rate2m | Rate5mL | Rate11mL | Rate6m | Rate12m | Rate24m | Rate54m

record rate_config =
  rc_phy_mode :: phy_mode
  rc_rate :: wifi_phy_rate
  rc_ersu :: bool
  rc_dcm :: bool

definition rate_for :: "u32 \<Rightarrow> rate_config option" where
  "rate_for mbps = map_option
     (\<lambda>(phy_mode, rate). \<lparr>rc_phy_mode = phy_mode, rc_rate = rate, rc_ersu = False, rc_dcm = False\<rparr>)
     (if mbps = 1 then Some (Phy11b, Rate1mL)
      else if mbps = 2 then Some (Phy11b, Rate2m)
      else if mbps = 5 then Some (Phy11b, Rate5mL)
      else if mbps = 11 then Some (Phy11b, Rate11mL)
      else if mbps = 6 then Some (Phy11g, Rate6m)
      else if mbps = 12 then Some (Phy11g, Rate12m)
      else if mbps = 24 then Some (Phy11g, Rate24m)
      else if mbps = 54 then Some (Phy11g, Rate54m)
      else None)"

section \<open>State and effects\<close>

definition BOOT_BAUD :: u32 where "BOOT_BAUD = 115200"
definition RELAY_LINE :: nat where "RELAY_LINE = 2 + 3 + 12 + 1 + 500 + 2"
definition BAUD_PATIENCE :: u64 where "BAUD_PATIENCE = 3000000"
definition RELAY_OUT :: nat where "RELAY_OUT = 2 + 12 + 1 + 5 + 1 + 500 + 2"
definition BROADCAST_ADDRESS :: bytes where "BROADCAST_ADDRESS = replicate 6 0xff"

text \<open>What the console is told in words: the values each \<open>println!\<close> puts in its text.\<close>

datatype relay_said =
    Hello u8 bool u32 u32 i8
  | BaudNow u32
  | BaudRefused u32 u32
  | BaudUnanswered u32 u32
  | RateNow u32
  | RateRefused u32 u32
  | BeaconsSent u32 u32 u32 nat
  | PowerNow i8
  | PowerRefused i8 u32
  | ChannelNow u8
  | ChannelRefused u8 u32
  | Report u32 u32 u32 u32 u32

datatype relay_effect =
    Print bytes
  | Say relay_said
  | Wait u64
  | WaitFromStart u64
  | Send bytes bytes
  | AddPeer bytes
  | SetPeerRate bytes rate_config
  | SetBaud u32
  | SetPower i8
  | SetChannel u8

text \<open>What the radio, the UART and the clock answer while one line is handled.\<close>

record relay_env =
  en_peer_exists :: "bytes \<Rightarrow> bool"
  en_peers :: "bytes list"
  en_sent :: "bytes \<Rightarrow> bytes \<Rightarrow> bool"
  en_uart :: "u32 \<Rightarrow> bool"
  en_power :: "i8 \<Rightarrow> bool"
  en_channel :: "u8 \<Rightarrow> bool"
  en_now :: micros

record relay =
  rl_baud :: u32
  rl_trial :: "micros option"
  rl_rate_mbps :: u32
  rl_rate :: "rate_config option"
  rl_channel :: u8
  rl_channel_set :: bool
  rl_power :: i8
  rl_payload :: bytes
  rl_out :: bytes
  rl_heard :: u32
  rl_sent :: u32
  rl_failed :: u32
  rl_bad_lines :: u32
  rl_last_report :: micros

definition relay_start :: "u8 \<Rightarrow> bool \<Rightarrow> micros \<Rightarrow> relay" where
  "relay_start channel channel_set now =
     \<lparr>rl_baud = BOOT_BAUD, rl_trial = None, rl_rate_mbps = 1, rl_rate = None, rl_channel = channel,
      rl_channel_set = channel_set, rl_power = 20, rl_payload = replicate 250 0, rl_out = replicate RELAY_OUT 0,
      rl_heard = 0, rl_sent = 0, rl_failed = 0, rl_bad_lines = 0, rl_last_report = now\<rparr>"

definition hello :: "relay \<Rightarrow> relay_effect" where
  "hello r = Say (Hello (rl_channel r) (rl_channel_set r) (rl_baud r) (rl_rate_mbps r) (rl_power r))"

section \<open>A datagram heard\<close>

text \<open>
  A function that writes at the front of its slice, given \<open>&mut out[n..]\<close>: the room taken and the buffer. A byte
  stored at an index, and the two that end a line; each \<open>None\<close> past the buffer's end.
\<close>

definition write_tail :: "(bytes \<Rightarrow> (nat \<times> bytes) option) \<Rightarrow> nat \<Rightarrow> bytes \<Rightarrow> (nat \<times> bytes) option" where
  "write_tail f n out =
     (if n > length out then None else map_option (\<lambda>(k, tail). (n + k, take n out @ tail)) (f (drop n out)))"

definition put_space :: "nat \<times> bytes \<Rightarrow> (nat \<times> bytes) option" where
  "put_space = (\<lambda>(n, out). if n < length out then Some (n + 1, out[n := 32]) else None)"

definition put_end :: "nat \<times> bytes \<Rightarrow> (bytes \<times> bytes) option" where
  "put_end = (\<lambda>(n, out). if n + 2 \<le> length out
     then (let out = write_at out n [13, 10] in Some (take (n + 2) out, out)) else None)"

definition is_ascii_graphic :: "u8 \<Rightarrow> bool" where
  "is_ascii_graphic b \<longleftrightarrow> 33 \<le> b \<and> b \<le> 126"

definition is_beacon :: "bytes \<Rightarrow> bool" where
  "is_beacon data \<longleftrightarrow> length data \<ge> 7 \<and> take 2 data = [0x4a, 0x42]"

text \<open>The front of a line lies in the buffer, whose length is fixed; what follows may not.\<close>

definition heard_line :: "bytes \<Rightarrow> bytes \<Rightarrow> i32 \<Rightarrow> bytes \<Rightarrow> (bytes \<times> bytes) option" where
  "heard_line out src rssi data =
     do {
       (n, out) \<leftarrow>
        (if is_beacon data then
           (let out = write_at out 0 [98, 32];
                out = out[2 := (if is_ascii_graphic (data ! 2) then data ! 2 else 63)];
                out = out[3 := 32];
                sequence = be_word (take 4 (drop 3 data)) :: u32
            in do {
                 (n, out) \<leftarrow> write_tail (decimal_into sequence) 4 out;
                 (n, out) \<leftarrow> put_space (n, out);
                 write_tail (decimal_into rssi) n out
               })
         else
           (let out = write_at out 0 [82, 32]
            in do {
                 (n, out) \<leftarrow> write_tail (hex_into src) 2 out;
                 (n, out) \<leftarrow> put_space (n, out);
                 (n, out) \<leftarrow> write_tail (decimal_into rssi) n out;
                 (n, out) \<leftarrow> put_space (n, out);
                 write_tail (hex_into data) n out
               }));
       put_end (n, out)
     }"

definition heard_datagram :: "bytes \<Rightarrow> i32 \<Rightarrow> bytes \<Rightarrow> relay \<Rightarrow> (relay_effect list \<times> relay) option" where
  "heard_datagram src rssi data r =
     map_option (\<lambda>(line, out). ([Print line], r\<lparr>rl_heard := rl_heard r + 1, rl_out := out\<rparr>))
       (heard_line (rl_out r) src rssi data)"

section \<open>A line from the host\<close>

definition know :: "relay_env \<Rightarrow> bytes \<Rightarrow> rate_config option \<Rightarrow> relay_effect list" where
  "know env dest rate =
     (if dest = BROADCAST_ADDRESS \<or> en_peer_exists env dest then []
      else AddPeer dest # (case rate of None \<Rightarrow> [] | Some rate \<Rightarrow> [SetPeerRate dest rate]))"

definition set_baud :: "relay_env \<Rightarrow> u32 \<Rightarrow> bool \<times> relay_effect list" where
  "set_baud env baud = (en_uart env baud, [SetBaud baud])"

text \<open>The numbered broadcasts, each at its time after the start, and how many the radio refused.\<close>

definition clamp_nat :: "nat \<Rightarrow> nat \<Rightarrow> nat \<Rightarrow> nat" where
  "clamp_nat lo hi n = max lo (min hi n)"

definition beacon_blank :: "u8 \<Rightarrow> bytes" where
  "beacon_blank tag = (write_at (replicate 250 0xA5) 0 [0x4a, 0x42])[2 := tag]"

fun beacon_loop :: "(bytes \<Rightarrow> bytes \<Rightarrow> bool) \<Rightarrow> u32 \<Rightarrow> nat \<Rightarrow> nat list \<Rightarrow> bytes \<Rightarrow> u32 \<Rightarrow> relay_effect list \<times> u32" where
  "beacon_loop sent gap_us len [] frame failed = ([], failed)"
| "beacon_loop sent gap_us len (sequence # rest) frame failed =
     (let frame = write_at frame 3 (be_bytes 4 (of_nat sequence :: u32));
          failed = (if sent BROADCAST_ADDRESS (take len frame) then failed else failed + 1);
          (effects, failed) = beacon_loop sent gap_us len rest frame failed
      in ([WaitFromStart (of_nat sequence * ucast gap_us), Send BROADCAST_ADDRESS (take len frame)] @ effects, failed))"

definition beacons :: "relay_env \<Rightarrow> u8 \<Rightarrow> u32 \<Rightarrow> u32 \<Rightarrow> u32 \<Rightarrow> u32 \<times> relay_effect list" where
  "beacons env tag count gap_us len =
     (let len = clamp_nat 7 250 (unat len);
          (effects, failed) = beacon_loop (en_sent env) gap_us len [0..<unat count] (beacon_blank tag) 0
      in (failed, effects @ [Say (BeaconsSent count failed gap_us len)]))"

definition on_send :: "relay_env \<Rightarrow> u8 \<Rightarrow> bytes \<Rightarrow> nat \<Rightarrow> relay \<Rightarrow> (relay_effect list \<times> relay) option" where
  "on_send env ident dest n r =
     (let peers = know env dest (rl_rate r); data = take n (rl_payload r);
          ok = en_sent env dest data;
          r = r\<lparr>rl_trial := None\<rparr>;
          r = (if ok then r\<lparr>rl_sent := rl_sent r + 1\<rparr> else r\<lparr>rl_failed := rl_failed r + 1\<rparr>);
          verdict = [75, 32, 48, 48, 32, 48, 13, 10]
      in case hex_into [ident] (take 2 (drop 2 verdict)) of None \<Rightarrow> None | Some (_, digits) \<Rightarrow>
         let verdict = (write_at verdict 2 digits)[5 := 48 + (if ok then 1 else 0)]
         in Some (peers @ [Send dest data, Print verdict], r))"

definition on_baud :: "relay_env \<Rightarrow> u32 \<Rightarrow> relay \<Rightarrow> relay_effect list \<times> relay" where
  "on_baud env wanted r =
     (case set_baud env wanted of (ok, effects) \<Rightarrow>
      let effects = [Say (BaudNow wanted), Wait 40000] @ effects
      in if ok then (effects, r\<lparr>rl_baud := wanted, rl_trial := Some (en_now env)\<rparr>)
         else (effects @ snd (set_baud env (rl_baud r)) @ [Say (BaudRefused (rl_baud r) wanted)], r))"

definition on_rate :: "relay_env \<Rightarrow> u32 \<Rightarrow> relay \<Rightarrow> relay_effect list \<times> relay" where
  "on_rate env mbps r =
     (case rate_for mbps of
        Some config \<Rightarrow>
          (map (\<lambda>peer. SetPeerRate peer config) (en_peers env) @ [Say (RateNow mbps)],
           r\<lparr>rl_rate_mbps := mbps, rl_rate := (if mbps \<noteq> 1 then Some config else None)\<rparr>)
      | None \<Rightarrow> ([Say (RateRefused (rl_rate_mbps r) mbps)], r))"

definition on_power :: "relay_env \<Rightarrow> u32 \<Rightarrow> relay \<Rightarrow> relay_effect list \<times> relay" where
  "on_power env wanted r =
     (if 8 \<le> wanted \<and> wanted \<le> 84
      then if en_power env (ucast wanted)
           then ([SetPower (ucast wanted), Say (PowerNow (ucast wanted))], r\<lparr>rl_power := ucast wanted\<rparr>)
           else ([SetPower (ucast wanted), Say (PowerRefused (rl_power r) wanted)], r)
      else ([Say (PowerRefused (rl_power r) wanted)], r))"

definition on_channel :: "relay_env \<Rightarrow> u32 \<Rightarrow> relay \<Rightarrow> relay_effect list \<times> relay" where
  "on_channel env wanted r =
     (if 1 \<le> wanted \<and> wanted \<le> 13
      then if en_channel env (ucast wanted)
           then ([SetChannel (ucast wanted), Say (ChannelNow (ucast wanted))],
                 r\<lparr>rl_channel := ucast wanted, rl_channel_set := True\<rparr>)
           else ([SetChannel (ucast wanted), Say (ChannelRefused (rl_channel r) wanted)], r)
      else ([Say (ChannelRefused (rl_channel r) wanted)], r))"

text \<open>The chain of tests, in the code's order. A send line that is refused may have written its payload's buffer.\<close>

definition on_line :: "relay_env \<Rightarrow> bytes \<Rightarrow> relay \<Rightarrow> (relay_effect list \<times> relay) option" where
  "on_line env line r =
     (case parse_send line (rl_payload r) of (send, payload) \<Rightarrow>
      let r = r\<lparr>rl_payload := payload\<rparr> in
      case send of Some (ident, dest, n) \<Rightarrow> on_send env ident dest n r | None \<Rightarrow>
      if line = [63] then Some ([hello (r\<lparr>rl_trial := None\<rparr>)], r\<lparr>rl_trial := None\<rparr>)
      else case parse_numbers line 85 of Some ns \<Rightarrow> Some (on_baud env (ns ! 0) r) | None \<Rightarrow>
           case parse_numbers line 80 of Some ns \<Rightarrow> Some (on_rate env (ns ! 0) r) | None \<Rightarrow>
           case parse_numbers line 66 of
             Some ns \<Rightarrow> Some (snd (beacons env 82 (ns ! 0) (ns ! 1) (ns ! 2)), r)
           | None \<Rightarrow>
           case parse_numbers line 87 of Some ns \<Rightarrow> Some (on_power env (ns ! 0) r) | None \<Rightarrow>
           case parse_numbers line 67 of Some ns \<Rightarrow> Some (on_channel env (ns ! 0) r) | None \<Rightarrow>
             Some ([], r\<lparr>rl_bad_lines := rl_bad_lines r + 1\<rparr>))"

definition on_host_line :: "relay_env \<Rightarrow> host_line \<Rightarrow> relay \<Rightarrow> (relay_effect list \<times> relay) option" where
  "on_host_line env l r =
     (case l of HostLine line \<Rightarrow> on_line env line r | BadLine \<Rightarrow> Some ([], r\<lparr>rl_bad_lines := rl_bad_lines r + 1\<rparr>))"

section \<open>The loop\<close>

text \<open>\<open>elapsed\<close> is the difference of two readings of a clock that does not go back.\<close>

definition end_of_loop :: "micros \<Rightarrow> u32 \<Rightarrow> relay \<Rightarrow> relay_effect list \<times> relay" where
  "end_of_loop now lost r =
     (let (e1, r) =
        (case rl_trial r of
           Some since \<Rightarrow>
             if now - since > BAUD_PATIENCE
             then ([SetBaud BOOT_BAUD, Say (BaudUnanswered BOOT_BAUD (rl_baud r))], r\<lparr>rl_baud := BOOT_BAUD, rl_trial := None\<rparr>)
             else ([], r)
         | None \<Rightarrow> ([], r));
        (e2, r) =
        (if now - rl_last_report r > 5000000
         then ([Say (Report (rl_heard r) (rl_sent r) (rl_failed r) (rl_bad_lines r) lost)], r\<lparr>rl_last_report := now\<rparr>)
         else ([], r))
      in (e1 @ e2, r))"

text \<open>
  What one pass of the loop takes in turn: the datagrams heard, the lines the bytes from the host end, and its end.
  Assembling lines touches only the line buffer, so a pass's lines are known before the first is handled.
\<close>

datatype relay_input =
    Datagram bytes i32 bytes
  | Line relay_env host_line
  | PassEnd micros u32

fun relay_step :: "relay_input \<Rightarrow> relay \<Rightarrow> (relay_effect list \<times> relay) option" where
  "relay_step (Datagram src rssi data) r = heard_datagram src rssi data r"
| "relay_step (Line env l) r = on_host_line env l r"
| "relay_step (PassEnd now lost) r = Some (end_of_loop now lost r)"

fun relay_run :: "relay_input list \<Rightarrow> relay \<Rightarrow> (relay_effect list \<times> relay) option" where
  "relay_run [] r = Some ([], r)"
| "relay_run (i # is) r =
     (case relay_step i r of None \<Rightarrow> None | Some (e1, r) \<Rightarrow>
      map_option (\<lambda>(e2, r). (e1 @ e2, r)) (relay_run is r))"

definition relay_pass ::
  "(bytes \<Rightarrow> nat \<times> nat) \<Rightarrow> (bytes \<times> i32 \<times> bytes) list \<Rightarrow> bytes \<Rightarrow> (nat \<Rightarrow> relay_env) \<Rightarrow> micros \<Rightarrow> u32 \<Rightarrow>
   relay_lines \<Rightarrow> relay \<Rightarrow> (relay_effect list \<times> relay_lines \<times> relay) option" where
  "relay_pass align heard chunk env now lost lines r =
     (case drain RELAY_LINE align lines chunk of (ls, lines) \<Rightarrow>
      map_option (\<lambda>(effects, r). (effects, lines, r))
        (relay_run (map (\<lambda>(src, rssi, data). Datagram src rssi data) heard @
                    map (\<lambda>(k, l). Line (env k) l) (enumerate 0 ls) @ [PassEnd now lost]) r))"

section \<open>What a datagram heard prints\<close>

definition heard_text :: "bytes \<Rightarrow> i32 \<Rightarrow> bytes \<Rightarrow> bytes" where
  "heard_text src rssi data =
     (if is_beacon data
      then [98, 32, if is_ascii_graphic (data ! 2) then data ! 2 else 63, 32] @
           int_text (sint (be_word (take 4 (drop 3 data)) :: i32)) @ [32] @ int_text (sint rssi)
      else [82, 32] @ hex_text src @ [32] @ int_text (sint rssi) @ [32] @ hex_text data) @ [13, 10]"

lemma length_int_text: "length (int_text (sint (n :: i32))) \<le> 11"
proof -
  have "nat \<bar>sint n\<bar> < 10 ^ Suc 9"
    using sint_bounds[of n] by simp
  from length_dec_text[OF this] show ?thesis
    by (cases "sint n < 0") (simp_all add: int_text_def)
qed

text \<open>A buffer whose front has been written: \<open>s\<close>, and what was there before behind it.\<close>

definition over :: "bytes \<Rightarrow> bytes \<Rightarrow> bytes" where
  "over s out = s @ drop (length s) out"

lemma over_write: "write_at out 0 s = over s out"
  by (simp add: over_def write_at_0)

lemma over_set: "length s = k \<Longrightarrow> k < length out \<Longrightarrow> (over s out)[k := x] = over (s @ [x]) out"
  by (auto simp: over_def list_update_append Cons_nth_drop_Suc[symmetric])

lemma length_over: "length s \<le> length out \<Longrightarrow> length (over s out) = length out"
  by (simp add: over_def)

lemma over_space: "length s = k \<Longrightarrow> k < length out \<Longrightarrow> put_space (k, over s out) = Some (k + 1, over (s @ [32]) out)"
  by (simp add: put_space_def over_set length_over)

lemma over_decimal:
  "length s = k \<Longrightarrow> k + length (int_text (sint n)) \<le> length out \<Longrightarrow>
   write_tail (decimal_into n) k (over s out) = Some (k + length (int_text (sint n)), over (s @ int_text (sint n)) out)"
  by (auto simp: over_def write_tail_def decimal_into_text Let_def write_at_0 add.commute)

lemma over_hex:
  "length s = k \<Longrightarrow> k \<le> length out \<Longrightarrow>
   write_tail (hex_into bs) k (over s out) =
     (if k + 2 * length bs \<le> length out then Some (k + 2 * length bs, over (s @ hex_text bs) out) else None)"
  by (auto simp: over_def write_tail_def hex_into_text write_at_0 add.commute)

lemma over_end:
  "length s = k \<Longrightarrow> k \<le> length out \<Longrightarrow>
   put_end (k, over s out) = (if k + 2 \<le> length out then Some (s @ [13, 10], over (s @ [13, 10]) out) else None)"
  by (auto simp: over_def write_at_def put_end_def Let_def)

text \<open>The line printed, exactly when it fits the buffer.\<close>

lemma heard_line_exact:
  assumes "length out = RELAY_OUT" "length src = 6"
  shows "heard_line out src rssi data =
    (if length (heard_text src rssi data) \<le> RELAY_OUT then Some (heard_text src rssi data, over (heard_text src rssi data) out)
     else None)"
proof (cases "is_beacon data")
  case True
  have "length (int_text (sint (be_word (take 4 (drop 3 data)) :: i32))) \<le> 11" "length (int_text (sint rssi)) \<le> 11"
    by (rule length_int_text)+
  with True assms show ?thesis
    by (simp add: heard_line_def heard_text_def over_write over_set over_space over_decimal over_end RELAY_OUT_def Let_def
        del: append_Cons append_assoc) simp
next
  case False
  have "length (int_text (sint rssi)) \<le> 11"
    by (rule length_int_text)
  with False assms show ?thesis
    by (simp add: heard_line_def heard_text_def over_write over_space over_decimal over_hex over_end RELAY_OUT_def Let_def
        del: append_Cons append_assoc) simp
qed

section \<open>What a line from the host does\<close>

lemma parse_send_length: "length (snd (parse_send line payload)) = length payload"
proof -
  have "length (snd (unhex hex payload)) = length payload" for hex
    by (rule unhex_keeps_length)
  then have "unhex hex payload = (n, out) \<Longrightarrow> length out = length payload" for hex n out
    by (metis snd_conv)
  then show ?thesis
    by (auto simp: parse_send_def split: option.splits prod.splits)
qed

text \<open>What a send line says does not depend on what its payload's buffer held before.\<close>

lemma parse_send_same:
  assumes "parse_send line p = (Some (ident, dest, n), p')" "length q = length p"
  shows "\<exists>q'. parse_send line q = (Some (ident, dest, n), q') \<and> take n q' = take n p'"
proof -
  obtain a b c data where f: "line = send_line a b c" "spells a [ident]" "spells b dest" "length dest = 6"
    "spells c data" "n = length data" "n \<le> length p" "p' = write_at p 0 data"
    by (rule parse_send_sound[OF assms(1)])
  from parse_send_complete[OF f(2-5), of q] f(1,6,7,8) assms(2) show ?thesis
    by (simp add: write_at_0)
qed

lemma parse_send_None_same: "length q = length p \<Longrightarrow> fst (parse_send line p) = None \<Longrightarrow> fst (parse_send line q) = None"
proof (rule ccontr)
  assume len: "length q = length p" and none: "fst (parse_send line p) = None" and "fst (parse_send line q) \<noteq> None"
  then obtain ident dest n q' where "parse_send line q = (Some (ident, dest, n), q')"
    by (metis not_None_eq prod.collapse)
  from parse_send_same[OF this, of p] len none show False
    by auto
qed

definition verdict_line :: "u8 \<Rightarrow> bool \<Rightarrow> bytes" where
  "verdict_line ident ok = [75, 32] @ byte_pair ident @ [32, 48 + (if ok then 1 else 0), 13, 10]"

lemma on_send_eq:
  "on_send env ident dest n r =
     (let data = take n (rl_payload r); ok = en_sent env dest data; r = r\<lparr>rl_trial := None\<rparr>
      in Some (know env dest (rl_rate r) @ [Send dest data, Print (verdict_line ident ok)],
           if ok then r\<lparr>rl_sent := rl_sent r + 1\<rparr> else r\<lparr>rl_failed := rl_failed r + 1\<rparr>))"
  by (auto simp: on_send_def Let_def hex_into_def verdict_line_def byte_pair_def write_at_def)

text \<open>What a line is, in the order the code asks; the settings verbs.\<close>

datatype verb = VSend u8 bytes bytes | VHello | VBaud u32 | VRate u32 | VBeacons u32 u32 u32 | VPower u32 | VChannel u32 | VBad

definition verb_of :: "bytes \<Rightarrow> verb" where
  "verb_of line =
     (case parse_send line (replicate 250 0) of
        (Some (ident, dest, n), payload) \<Rightarrow> VSend ident dest (take n payload)
      | (None, _) \<Rightarrow>
          if line = [63] then VHello
          else case parse_numbers line 85 of Some ns \<Rightarrow> VBaud (ns ! 0) | None \<Rightarrow>
               case parse_numbers line 80 of Some ns \<Rightarrow> VRate (ns ! 0) | None \<Rightarrow>
               case parse_numbers line 66 of Some ns \<Rightarrow> VBeacons (ns ! 0) (ns ! 1) (ns ! 2) | None \<Rightarrow>
               case parse_numbers line 87 of Some ns \<Rightarrow> VPower (ns ! 0) | None \<Rightarrow>
               case parse_numbers line 67 of Some ns \<Rightarrow> VChannel (ns ! 0) | None \<Rightarrow> VBad)"

text \<open>The step a line's verb takes: nothing depends on the payload's buffer, which each send line writes anew.\<close>

definition verb_step :: "relay_env \<Rightarrow> verb \<Rightarrow> relay \<Rightarrow> relay_effect list \<times> relay" where
  "verb_step env v r =
     (case v of
        VSend ident dest data \<Rightarrow>
          (let ok = en_sent env dest data; r = r\<lparr>rl_trial := None\<rparr>
           in (know env dest (rl_rate r) @ [Send dest data, Print (verdict_line ident ok)],
               if ok then r\<lparr>rl_sent := rl_sent r + 1\<rparr> else r\<lparr>rl_failed := rl_failed r + 1\<rparr>))
      | VHello \<Rightarrow> ([hello (r\<lparr>rl_trial := None\<rparr>)], r\<lparr>rl_trial := None\<rparr>)
      | VBaud wanted \<Rightarrow> on_baud env wanted r
      | VRate mbps \<Rightarrow> on_rate env mbps r
      | VBeacons count gap_us len \<Rightarrow> (snd (beacons env 82 count gap_us len), r)
      | VPower wanted \<Rightarrow> on_power env wanted r
      | VChannel wanted \<Rightarrow> on_channel env wanted r
      | VBad \<Rightarrow> ([], r\<lparr>rl_bad_lines := rl_bad_lines r + 1\<rparr>))"

lemma on_line_verb:
  assumes "length (rl_payload r) = 250"
  shows "\<exists>payload. length payload = 250 \<and> on_line env line r = Some (verb_step env (verb_of line) (r\<lparr>rl_payload := payload\<rparr>))"
proof -
  obtain send payload where parsed: "parse_send line (rl_payload r) = (send, payload)"
    by fastforce
  have len: "length payload = 250"
    using parse_send_length[of line "rl_payload r"] parsed assms by simp
  show ?thesis
  proof (cases send)
    case None
    then have "fst (parse_send line (replicate 250 0)) = None"
      using parse_send_None_same[of "replicate 250 0" "rl_payload r" line] parsed assms by simp
    then obtain q where "parse_send line (replicate 250 0) = (None, q)"
      by (metis prod.collapse)
    with None parsed len show ?thesis
      by (intro exI[of _ payload]) (simp add: on_line_def verb_of_def verb_step_def Let_def split: option.splits)
  next
    case (Some t)
    obtain ident dest n where t: "t = (ident, dest, n)"
      by (metis prod_cases3)
    with Some parsed parse_send_same[of line "rl_payload r" ident dest n payload "replicate 250 0"] assms
    obtain q where "parse_send line (replicate 250 0) = (Some (ident, dest, n), q)" "take n q = take n payload"
      by auto
    with Some t parsed len show ?thesis
      by (intro exI[of _ payload]) (simp add: on_line_def verb_of_def verb_step_def on_send_eq Let_def)
  qed
qed

section \<open>What every pass keeps\<close>

definition settings_lawful :: "relay \<Rightarrow> bool" where
  "settings_lawful r \<longleftrightarrow> 1 \<le> unat (rl_channel r) \<and> unat (rl_channel r) \<le> 13 \<and> 8 \<le> unat (rl_power r) \<and> unat (rl_power r) \<le> 84 \<and>
     rate_for (rl_rate_mbps r) \<noteq> None \<and> rl_rate r = (if rl_rate_mbps r = 1 then None else rate_for (rl_rate_mbps r))"

definition relay_ok :: "relay \<Rightarrow> bool" where
  "relay_ok r \<longleftrightarrow> length (rl_payload r) = 250 \<and> length (rl_out r) = RELAY_OUT"

text \<open>A six-byte source, as its type says, and a line that fits the buffer it is laid out in.\<close>

fun input_fits :: "relay_input \<Rightarrow> bool" where
  "input_fits (Datagram src rssi data) \<longleftrightarrow> length src = 6 \<and> length (heard_text src rssi data) \<le> RELAY_OUT"
| "input_fits (Line env l) \<longleftrightarrow> True"
| "input_fits (PassEnd now lost) \<longleftrightarrow> True"

text \<open>A step that cannot panic, and what it does with the payload's buffer taken out of the picture.\<close>

fun input_step :: "relay_input \<Rightarrow> relay \<Rightarrow> relay_effect list \<times> relay" where
  "input_step (Datagram src rssi data) r =
     ([Print (heard_text src rssi data)], r\<lparr>rl_heard := rl_heard r + 1, rl_out := over (heard_text src rssi data) (rl_out r)\<rparr>)"
| "input_step (Line env (HostLine line)) r = verb_step env (verb_of line) r"
| "input_step (Line env BadLine) r = ([], r\<lparr>rl_bad_lines := rl_bad_lines r + 1\<rparr>)"
| "input_step (PassEnd now lost) r = end_of_loop now lost r"

text \<open>So does every datagram of ESP-NOW v1.0, with a signal strength of at most five characters.\<close>

lemma esp_now_v1_fits:
  "length src = 6 \<Longrightarrow> length (int_text (sint rssi)) \<le> 5 \<Longrightarrow> length data \<le> 250 \<Longrightarrow> input_fits (Datagram src rssi data)"
  using length_int_text[of "be_word (take 4 (drop 3 data))"] by (simp add: heard_text_def RELAY_OUT_def)

lemma relay_step_input:
  assumes "relay_ok r" "input_fits i"
  shows "\<exists>payload. length payload = 250 \<and> relay_step i r = Some (input_step i (r\<lparr>rl_payload := payload\<rparr>))"
proof (cases i)
  case (Datagram src rssi data)
  with assms show ?thesis
    by (intro exI[of _ "rl_payload r"]) (simp add: heard_datagram_def heard_line_exact relay_ok_def)
next
  case (Line env l)
  show ?thesis
  proof (cases l)
    case (HostLine line)
    with Line assms on_line_verb[of r env line] show ?thesis
      by (simp add: on_host_line_def relay_ok_def)
  next
    case BadLine
    with Line assms show ?thesis
      by (intro exI[of _ "rl_payload r"]) (simp add: on_host_line_def relay_ok_def)
  qed
next
  case (PassEnd now lost)
  with assms show ?thesis
    by (intro exI[of _ "rl_payload r"]) (simp add: relay_ok_def)
qed

lemmas verb_defs = verb_step_def on_baud_def on_rate_def on_power_def on_channel_def set_baud_def

lemma input_step_ok: "relay_ok r \<Longrightarrow> input_fits i \<Longrightarrow> relay_ok (snd (input_step i r))"
proof (induction i r rule: input_step.induct)
  case (1 src rssi data r)
  then show ?case
    by (auto simp: relay_ok_def length_over)
next
  case (2 env line r)
  then show ?case
    by (auto simp: relay_ok_def verb_defs Let_def split: verb.splits option.splits)
next
  case (4 now lost r)
  then show ?case
    by (auto simp: relay_ok_def end_of_loop_def split: option.splits)
qed (simp add: relay_ok_def)

text \<open>A run that fits never panics, and what its steps keep or gather, the run keeps or gathers.\<close>

lemma relay_run_rule:
  assumes "relay_ok r" "\<forall>i\<in>set is. input_fits i" and "P [] [] r"
    and step: "\<And>js e r i payload. relay_ok r \<Longrightarrow> input_fits i \<Longrightarrow> i \<in> set is \<Longrightarrow> P js e r \<Longrightarrow> length payload = 250 \<Longrightarrow>
      (let (e', r') = input_step i (r\<lparr>rl_payload := payload\<rparr>) in P (js @ [i]) (e @ e') r')"
  shows "\<exists>e r'. relay_run is r = Some (e, r') \<and> relay_ok r' \<and> P is e r'"
proof -
  have "relay_ok r \<Longrightarrow> set ks \<subseteq> set is \<Longrightarrow> P js e r \<Longrightarrow>
      \<exists>e' r'. relay_run ks r = Some (e', r') \<and> relay_ok r' \<and> P (js @ ks) (e @ e') r'" for ks js e r
  proof (induction ks arbitrary: js e r)
    case Nil
    then show ?case by simp
  next
    case (Cons i ks)
    have i: "i \<in> set is" "input_fits i"
      using Cons.prems(2) assms(2) by auto
    obtain payload where payload: "length payload = 250"
      "relay_step i r = Some (input_step i (r\<lparr>rl_payload := payload\<rparr>))"
      using relay_step_input[OF Cons.prems(1) i(2)] by blast
    obtain e' r' where out: "input_step i (r\<lparr>rl_payload := payload\<rparr>) = (e', r')"
      by fastforce
    have "relay_ok r'"
      using input_step_ok[of "r\<lparr>rl_payload := payload\<rparr>" i] i(2) out payload(1) Cons.prems(1) by (simp add: relay_ok_def)
    moreover have "P (js @ [i]) (e @ e') r'"
      using step[OF Cons.prems(1) i(2,1) Cons.prems(3) payload(1)] out by simp
    ultimately show ?case
      using Cons.IH[of r' "js @ [i]" "e @ e'"] Cons.prems(2) payload(2) out by auto
  qed
  from this[of r "is" "[]" "[]"] assms(1,3) show ?thesis
    by simp
qed

section \<open>Settings\<close>

lemma rate_for_1: "rate_for 1 \<noteq> None"
  by (simp add: rate_for_def)

lemma relay_start_ok: "relay_ok (relay_start channel channel_set now)"
  by (simp add: relay_ok_def relay_start_def)

lemma unat_ucast_u8: "unat (w :: u32) < 256 \<Longrightarrow> unat (ucast w :: u8) = unat w"
  by (simp add: unsigned_ucast_eq take_bit_nat_eq_self)

lemma input_step_lawful: "settings_lawful r \<Longrightarrow> settings_lawful (snd (input_step i r))"
proof (induction i r rule: input_step.induct)
  case (2 env line r)
  then show ?case
    by (auto simp: settings_lawful_def verb_defs rate_for_1 word_le_nat_alt unat_ucast_u8 Let_def split: verb.splits option.splits)
next
  case (4 now lost r)
  then show ?case
    by (auto simp: settings_lawful_def end_of_loop_def split: option.splits)
qed (simp_all add: settings_lawful_def)

text \<open>A datagram whose line does not fit stops the relay.\<close>

lemma relay_run_overrun:
  assumes "relay_ok r" "\<exists>i\<in>set is. \<not> input_fits i" "\<forall>src rssi data. Datagram src rssi data \<in> set is \<longrightarrow> length src = 6"
  shows "relay_run is r = None"
  using assms
proof (induction "is" arbitrary: r)
  case Nil
  then show ?case by simp
next
  case (Cons i js)
  show ?case
  proof (cases "input_fits i")
    case True
    obtain payload where payload: "length payload = 250" "relay_step i r = Some (input_step i (r\<lparr>rl_payload := payload\<rparr>))"
      using relay_step_input[OF Cons.prems(1) True] by blast
    moreover have "relay_run js (snd (input_step i (r\<lparr>rl_payload := payload\<rparr>))) = None"
    proof (rule Cons.IH)
      show "relay_ok (snd (input_step i (r\<lparr>rl_payload := payload\<rparr>)))"
        using input_step_ok[OF _ True, of "r\<lparr>rl_payload := payload\<rparr>"] Cons.prems(1) payload(1) by (simp add: relay_ok_def)
    qed (use Cons.prems(2,3) True in auto)
    ultimately show ?thesis
      by (simp add: case_prod_unfold)
  next
    case False
    then obtain src rssi data where "i = Datagram src rssi data"
      by (cases i) auto
    with False Cons.prems show ?thesis
      by (simp add: heard_datagram_def heard_line_exact relay_ok_def)
  qed
qed

text \<open>C22: From its start, whatever lines, well formed or not, the host sends and whatever datagrams are heard, the relay panics
  exactly when it hears one whose line is longer than its line buffer (a datagram of at most 250 bytes, ESP-NOW v1.0's
  limit, never is: \<open>esp_now_v1_fits\<close>). Otherwise it returns, and its settings are lawful: the channel is 1 to 13, the
  power cap 8 to 84 quarter dBm, the rate one ESP-NOW has, and the rate new peers are given is that rate, left to the
  radio's default exactly at 1 Mbit/s.\<close>

theorem relay_settings_lawful:
  assumes "1 \<le> unat channel" "unat channel \<le> 13" "\<forall>src rssi data. Datagram src rssi data \<in> set is \<longrightarrow> length src = 6"
  shows "if \<forall>i\<in>set is. input_fits i
    then \<exists>e r. relay_run is (relay_start channel channel_set now) = Some (e, r) \<and> settings_lawful r
    else relay_run is (relay_start channel channel_set now) = None"
proof (cases "\<forall>i\<in>set is. input_fits i")
  case True
  let ?P = "\<lambda>js e r. settings_lawful r"
  have "\<exists>e r. relay_run is (relay_start channel channel_set now) = Some (e, r) \<and> relay_ok r \<and> ?P is e r"
  proof (rule relay_run_rule[OF relay_start_ok True])
    show "settings_lawful (relay_start channel channel_set now)"
      using assms rate_for_1 by (simp add: settings_lawful_def relay_start_def)
  next
    fix r i payload
    assume "settings_lawful r"
    then have "settings_lawful (r\<lparr>rl_payload := payload\<rparr>)"
      by (simp add: settings_lawful_def)
    from input_step_lawful[OF this] show "let (e', r') = input_step i (r\<lparr>rl_payload := payload\<rparr>) in settings_lawful r'"
      by (simp add: case_prod_unfold)
  qed
  with True show ?thesis
    by auto
next
  case False
  with relay_run_overrun[OF relay_start_ok _ assms(3), of channel channel_set now] show ?thesis
    by auto
qed

section \<open>Verdicts\<close>

fun verdicts :: "relay_effect list \<Rightarrow> bytes list" where
  "verdicts [] = []"
| "verdicts (e # es) = (case e of Print line \<Rightarrow> if hd line = 75 then [line] else [] | _ \<Rightarrow> []) @ verdicts es"

text \<open>The sends the host asked for: each id, and whether the radio's answer was an acknowledgement.\<close>

fun sends_of :: "relay_input \<Rightarrow> (u8 \<times> bool) list" where
  "sends_of (Line env (HostLine line)) =
     (case verb_of line of VSend ident dest data \<Rightarrow> [(ident, en_sent env dest data)] | _ \<Rightarrow> [])"
| "sends_of _ = []"

lemma verdicts_append [simp]: "verdicts (xs @ ys) = verdicts xs @ verdicts ys"
  by (induction xs) auto

lemma verdicts_silent: "\<forall>e\<in>set es. \<forall>line. e \<noteq> Print line \<Longrightarrow> verdicts es = []"
  by (induction es) (auto split: relay_effect.splits)

lemma verdicts_verb:
  "verdicts (fst (verb_step env v r)) =
     (case v of VSend ident dest data \<Rightarrow> [verdict_line ident (en_sent env dest data)] | _ \<Rightarrow> [])"
proof -
  have "verdicts (know env dest rate) = []" for dest rate
    by (rule verdicts_silent) (auto simp: know_def split: option.splits)
  moreover have "\<forall>e\<in>set (fst (beacon_loop f g n ks frame k)). \<forall>line. e \<noteq> Print line" for f g n ks frame k
    by (induction f g n ks frame k rule: beacon_loop.induct) (auto simp: Let_def split: prod.splits)
  then have "verdicts (fst (beacon_loop f g n ks frame k)) = []" for f g n ks frame k
    by (rule verdicts_silent)
  moreover have "verdicts (map (\<lambda>peer. SetPeerRate peer c) ps) = []" for c ps
    by (induction ps) auto
  ultimately show ?thesis
    by (auto simp: verb_defs hello_def verdict_line_def beacons_def Let_def case_prod_unfold split: verb.splits option.splits)
qed

lemma verdicts_input: "verdicts (fst (input_step i r)) = map (\<lambda>(ident, ok). verdict_line ident ok) (sends_of i)"
proof (induction i r rule: input_step.induct)
  case (1 src rssi data r)
  then show ?case by (simp add: heard_text_def)
next
  case (2 env line r)
  then show ?case by (simp add: verdicts_verb split: verb.splits)
next
  case (4 now lost r)
  then show ?case by (auto simp: end_of_loop_def split: option.splits)
qed simp

lemma sent_input:
  "rl_sent (snd (input_step i r)) = rl_sent r + of_nat (length (filter snd (sends_of i))) \<and>
   rl_failed (snd (input_step i r)) = rl_failed r + of_nat (length (filter (Not \<circ> snd) (sends_of i)))"
proof (induction i r rule: input_step.induct)
  case (2 env line r)
  then show ?case
    by (auto simp: verb_defs Let_def split: verb.splits option.splits)
next
  case (4 now lost r)
  then show ?case by (auto simp: end_of_loop_def split: option.splits)
qed simp_all

text \<open>C20: Every send line the host gets onto the wire is answered by exactly one verdict line, in the order the lines came,
  with its own id and whether the radio had the frame acknowledged, whatever else is asked between them and whatever
  is heard that fits the line buffer; and the report's counts of frames sent and failed are the counts of those
  verdicts.\<close>

theorem relay_answers_every_send:
  assumes "relay_ok r" "\<forall>i\<in>set is. input_fits i"
  shows "\<exists>e r'. relay_run is r = Some (e, r') \<and>
    verdicts e = map (\<lambda>(ident, ok). verdict_line ident ok) (concat (map sends_of is)) \<and>
    rl_sent r' = rl_sent r + of_nat (length (filter snd (concat (map sends_of is)))) \<and>
    rl_failed r' = rl_failed r + of_nat (length (filter (Not \<circ> snd) (concat (map sends_of is))))"
proof -
  let ?P = "\<lambda>js e (r' :: relay). verdicts e = map (\<lambda>(ident, ok). verdict_line ident ok) (concat (map sends_of js)) \<and>
    rl_sent r' = rl_sent r + of_nat (length (filter snd (concat (map sends_of js)))) \<and>
    rl_failed r' = rl_failed r + of_nat (length (filter (Not \<circ> snd) (concat (map sends_of js))))"
  have "\<exists>e r'. relay_run is r = Some (e, r') \<and> relay_ok r' \<and> ?P is e r'"
  proof (rule relay_run_rule[OF assms])
    fix js e r' i payload
    assume "?P js e r'"
    then show "let (e', r'') = input_step i (r'\<lparr>rl_payload := payload\<rparr>) in ?P (js @ [i]) (e @ e') r''"
      using verdicts_input[of i "r'\<lparr>rl_payload := payload\<rparr>"] sent_input[of i "r'\<lparr>rl_payload := payload\<rparr>"]
      by (simp add: case_prod_unfold)
  qed simp
  then show ?thesis
    by blast
qed

section \<open>A new line speed\<close>

fun uart_speed :: "u32 \<Rightarrow> relay_effect list \<Rightarrow> u32" where
  "uart_speed b [] = b"
| "uart_speed b (e # es) = uart_speed (case e of SetBaud b' \<Rightarrow> b' | _ \<Rightarrow> b) es"

fun line_verb :: "relay_input \<Rightarrow> verb option" where
  "line_verb (Line env (HostLine line)) = Some (verb_of line)"
| "line_verb _ = None"

text \<open>The lines that answer a new speed, and the lines that ask for one.\<close>

definition answers :: "relay_input \<Rightarrow> bool" where
  "answers i = (case line_verb i of Some (VSend ident dest data) \<Rightarrow> True | Some VHello \<Rightarrow> True | _ \<Rightarrow> False)"

definition asks_speed :: "relay_input \<Rightarrow> bool" where
  "asks_speed i = (case line_verb i of Some (VBaud wanted) \<Rightarrow> True | _ \<Rightarrow> False)"

lemma uart_speed_append: "uart_speed b (xs @ ys) = uart_speed (uart_speed b xs) ys"
  by (induction xs arbitrary: b) auto

lemma uart_silent: "\<forall>e\<in>set es. \<forall>b. e \<noteq> SetBaud b \<Longrightarrow> uart_speed b es = b"
  by (induction es) (auto split: relay_effect.splits)

lemma uart_input: "uart_speed (rl_baud r) (fst (input_step i r)) = rl_baud (snd (input_step i r))"
proof (induction i r rule: input_step.induct)
  case (2 env line r)
  have "\<forall>e\<in>set (fst (beacon_loop f g n ks frame k)). \<forall>b. e \<noteq> SetBaud b" for f g n ks frame k
    by (induction f g n ks frame k rule: beacon_loop.induct) (auto simp: Let_def split: prod.splits)
  then have quiet: "uart_speed b (fst (beacon_loop f g n ks frame k)) = b" for b f g n ks frame k
    by (intro uart_silent) auto
  have "uart_speed b (know env dest rate) = b" "uart_speed b (map (\<lambda>peer. SetPeerRate peer c) ps) = b" for b dest rate c ps
    by (rule uart_silent; auto simp: know_def split: option.splits)+
  with quiet show ?case
    by (auto simp: verb_defs hello_def beacons_def Let_def case_prod_unfold uart_speed_append split: verb.splits option.splits)
next
  case (4 now lost r)
  then show ?case by (auto simp: end_of_loop_def split: option.splits)
qed simp_all

lemma trial_input:
  "\<not> asks_speed i \<Longrightarrow> rl_trial (snd (input_step i r)) = None \<and> rl_baud (snd (input_step i r)) = BOOT_BAUD \<and> rl_trial r \<noteq> None \<or>
   rl_baud (snd (input_step i r)) = rl_baud r \<and>
     rl_trial (snd (input_step i r)) = (if answers i then None else rl_trial r)"
proof (induction i r rule: input_step.induct)
  case (2 env line r)
  then show ?case
    by (cases "verb_of line") (auto simp: verb_defs answers_def asks_speed_def Let_def split: option.splits)
next
  case (4 now lost r)
  then show ?case by (auto simp: end_of_loop_def answers_def split: option.splits)
qed (simp_all add: answers_def)

text \<open>An input that does not end a pass too late for the speed on trial.\<close>

definition in_time :: "relay_input \<Rightarrow> micros \<Rightarrow> bool" where
  "in_time i since = (case i of PassEnd now lost \<Rightarrow> now - since \<le> BAUD_PATIENCE | _ \<Rightarrow> True)"

lemma kept_input:
  "\<not> asks_speed i \<Longrightarrow> (\<forall>since. rl_trial r = Some since \<longrightarrow> in_time i since) \<Longrightarrow>
   rl_baud (snd (input_step i r)) = rl_baud r \<and> rl_trial (snd (input_step i r)) = (if answers i then None else rl_trial r)"
proof (induction i r rule: input_step.induct)
  case (2 env line r)
  then show ?case
    by (cases "verb_of line") (auto simp: verb_defs answers_def asks_speed_def Let_def split: option.splits)
next
  case (4 now lost r)
  then show ?case by (auto simp: end_of_loop_def answers_def in_time_def split: option.splits)
qed (simp_all add: answers_def)

lemma speed_kept:
  assumes "relay_ok r" "\<forall>i\<in>set is. input_fits i" "\<forall>i\<in>set is. \<not> asks_speed i"
    and "\<forall>i\<in>set is. \<forall>since. rl_trial r = Some since \<longrightarrow> in_time i since"
  shows "\<exists>e r'. relay_run is r = Some (e, r') \<and> relay_ok r' \<and> rl_baud r' = rl_baud r \<and> uart_speed (rl_baud r) e = rl_baud r \<and>
    rl_trial r' \<in> {None, rl_trial r} \<and> ((\<exists>i\<in>set is. answers i) \<longrightarrow> rl_trial r' = None)"
proof (rule relay_run_rule[OF assms(1,2)])
  fix js e and r' :: relay and i payload
  assume i: "i \<in> set is" and P: "rl_baud r' = rl_baud r \<and> uart_speed (rl_baud r) e = rl_baud r \<and>
    rl_trial r' \<in> {None, rl_trial r} \<and> ((\<exists>i\<in>set js. answers i) \<longrightarrow> rl_trial r' = None)"
  let ?r = "r'\<lparr>rl_payload := payload\<rparr>"
  have "rl_baud (snd (input_step i ?r)) = rl_baud r \<and> rl_trial (snd (input_step i ?r)) = (if answers i then None else rl_trial r')"
    using kept_input[of i ?r] assms(3,4) i P by auto
  then show "let (e', r'') = input_step i ?r in rl_baud r'' = rl_baud r \<and> uart_speed (rl_baud r) (e @ e') = rl_baud r \<and>
    rl_trial r'' \<in> {None, rl_trial r} \<and> ((\<exists>i\<in>set (js @ [i]). answers i) \<longrightarrow> rl_trial r'' = None)"
    using P uart_input[of ?r i] by (auto simp: case_prod_unfold uart_speed_append)
qed simp

lemma relay_run_append:
  "relay_run (xs @ ys) r =
     (case relay_run xs r of None \<Rightarrow> None
      | Some (e1, r1) \<Rightarrow> map_option (\<lambda>(e2, r2). (e1 @ e2, r2)) (relay_run ys r1))"
  by (induction xs arbitrary: r) (auto simp: option.map_comp option.map_ident o_def case_prod_unfold split: option.splits)

text \<open>C21: A speed on trial that the host neither sends a datagram at nor asks \<open>?\<close> at is dropped: at the first end of a pass more
  than three seconds after it was taken, whatever else was said since and whatever was heard that fits the line
  buffer, the relay is back at 115200, the UART was last set to 115200, and nothing is on trial.\<close>

theorem unanswered_speed_is_dropped:
  assumes "relay_ok r" "rl_trial r = Some since" "\<forall>i\<in>set is. input_fits i \<and> \<not> answers i \<and> \<not> asks_speed i"
    and late: "now - since > BAUD_PATIENCE"
  shows "\<exists>e r'. relay_run (is @ [PassEnd now lost]) r = Some (e, r') \<and> rl_baud r' = BOOT_BAUD \<and> rl_trial r' = None \<and>
    uart_speed (rl_baud r) e = BOOT_BAUD"
proof -
  let ?P = "\<lambda>js e (r' :: relay). uart_speed (rl_baud r) e = rl_baud r' \<and>
    (rl_trial r' = Some since \<or> rl_trial r' = None \<and> rl_baud r' = BOOT_BAUD)"
  have "\<exists>e r'. relay_run is r = Some (e, r') \<and> relay_ok r' \<and> ?P is e r'"
  proof (rule relay_run_rule)
    fix js e r' i payload
    assume "i \<in> set is" "?P js e r'"
    then show "let (e', r'') = input_step i (r'\<lparr>rl_payload := payload\<rparr>) in ?P (js @ [i]) (e @ e') r''"
      using uart_input[of "r'\<lparr>rl_payload := payload\<rparr>" i] trial_input[of i "r'\<lparr>rl_payload := payload\<rparr>"] assms(3)
      by (auto simp: case_prod_unfold uart_speed_append)
  qed (use assms in auto)
  then obtain e r' where "relay_run is r = Some (e, r')" "?P is e r'"
    by blast
  then show ?thesis
    using late by (auto simp: relay_run_append end_of_loop_def uart_speed_append Let_def)
qed

text \<open>A speed on trial that the host answers in time, with a datagram to send or a \<open>?\<close>, stays: nothing heard or said after
  it, no other speed being asked for, changes the relay's speed or the UART's.\<close>

lemma answered_speed_is_kept:
  assumes "relay_ok r" "rl_trial r = Some since" "\<forall>i\<in>set (xs @ [a] @ ys). input_fits i \<and> \<not> asks_speed i" "answers a"
    and early: "\<forall>i\<in>set xs. in_time i since"
  shows "\<exists>e r'. relay_run (xs @ [a] @ ys) r = Some (e, r') \<and> rl_baud r' = rl_baud r \<and> rl_trial r' = None \<and>
    uart_speed (rl_baud r) e = rl_baud r"
proof -
  have "in_time a since"
    using assms(4) by (cases a) (simp_all add: in_time_def answers_def)
  then obtain e1 r1 where one: "relay_run (xs @ [a]) r = Some (e1, r1)" "relay_ok r1" "rl_baud r1 = rl_baud r"
      "uart_speed (rl_baud r) e1 = rl_baud r" "rl_trial r1 = None"
    using speed_kept[of r "xs @ [a]"] assms by auto
  then obtain e2 r2 where two: "relay_run ys r1 = Some (e2, r2)" "rl_baud r2 = rl_baud r" "uart_speed (rl_baud r) e2 = rl_baud r"
      "rl_trial r2 = None"
    using speed_kept[of r1 ys] assms(3) by auto
  from relay_run_append[of "xs @ [a]" ys r] one two show ?thesis
    by (simp add: uart_speed_append)
qed

section \<open>A conversation over the relay\<close>

lemma verb_of_send_line:
  assumes "length dest = 6" "length data \<le> 250"
  shows "verb_of (send_line (hex_text [ident]) (hex_text dest) (hex_text data)) = VSend ident dest data"
proof -
  have "parse_send (send_line (hex_text [ident]) (hex_text dest) (hex_text data)) (replicate 250 0) =
      (Some (ident, dest, length data), write_at (replicate 250 0) 0 data)"
    by (rule parse_send_complete) (use assms in \<open>simp_all add: spells_hex_text\<close>)
  then show ?thesis
    by (simp add: verb_of_def write_at_0)
qed

lemma sealed_frames_fit:
  "tags_full e (s_mac_send s) \<Longrightarrow> f \<in> set (sealed e s ps) \<Longrightarrow> length f \<le> MAX_FRAME \<and> \<not> is_beacon f"
proof (induction ps arbitrary: s)
  case Nil
  then show ?case by simp
next
  case (Cons p ps)
  obtain res s' out where sw: "seal_with e s p (replicate MAX_FRAME 0) = (res, s', out)"
    by (metis prod_cases3)
  have keeps: "tags_full e (s_mac_send s')"
    using sw Cons.prems(1) by (auto simp: seal_with_def Let_def split: if_splits)
  show ?case
  proof (cases res)
    case (Inl er)
    with Cons sw keeps show ?thesis by simp
  next
    case (Inr n)
    then have fits: "length p \<le> MAX_PAYLOAD" "wire_len (length p) \<le> length (replicate MAX_FRAME (0::u8))" "\<not> s_exhausted s"
      using sw by (auto simp: seal_with_def Let_def split: if_splits)
    note frame = seal_with_ok[OF Cons.prems(1) fits]
    let ?f = "frame_bytes e (s_mac_send s) (s_id s) (s_send_seq s) p"
    have "length ?f = wire_len (length p)"
      using Cons.prems(1) by (simp add: length_frame_bytes)
    then have "take n out = ?f" "length ?f \<le> MAX_FRAME"
      using frame sw Inr fits(2) by auto
    moreover have "\<not> is_beacon ?f"
      by (auto simp: is_beacon_def frame_bytes_def frame_header_def VERSION_def Let_def take_Cons')
    ultimately show ?thesis
      using Cons sw Inr keeps by auto
  qed
qed

text \<open>What the relay puts on the air for one node, in order.\<close>

fun sent_to :: "bytes \<Rightarrow> relay_effect list \<Rightarrow> bytes list" where
  "sent_to dest [] = []"
| "sent_to dest (e # es) = (case e of Send d data \<Rightarrow> if d = dest then [data] else [] | _ \<Rightarrow> []) @ sent_to dest es"

lemma sent_to_append [simp]: "sent_to dest (xs @ ys) = sent_to dest xs @ sent_to dest ys"
  by (induction xs) auto

lemma sent_to_send: "sent_to dest (fst (verb_step env (VSend ident dest data) r)) = [data]"
proof -
  have "sent_to d (know env dest rate) = []" for d rate
    by (auto simp: know_def split: option.splits)
  then show ?thesis
    by (simp add: verb_step_def Let_def)
qed

text \<open>A node's frames as the host's send lines, each with the id and the answers of its turn.\<close>

fun frame_lines :: "(nat \<Rightarrow> relay_env) \<Rightarrow> (nat \<Rightarrow> u8) \<Rightarrow> bytes \<Rightarrow> nat \<Rightarrow> bytes list \<Rightarrow> relay_input list" where
  "frame_lines env ident dest k [] = []"
| "frame_lines env ident dest k (f # fs) =
     Line (env k) (HostLine (send_line (hex_text [ident k]) (hex_text dest) (hex_text f))) # frame_lines env ident dest (k + 1) fs"

definition sends_to :: "bytes \<Rightarrow> relay_input \<Rightarrow> bytes list" where
  "sends_to dest i = (case line_verb i of Some (VSend ident d data) \<Rightarrow> if d = dest then [data] else [] | _ \<Rightarrow> [])"

lemma frame_lines_sends:
  "length dest = 6 \<Longrightarrow> \<forall>f\<in>set fs. length f \<le> 250 \<Longrightarrow>
   concat (map (sends_to dest) (frame_lines env ident dest k fs)) = fs \<and>
   (\<forall>i\<in>set (frame_lines env ident dest k fs). input_fits i \<and> (\<exists>env line ident data. i = Line env (HostLine line) \<and> verb_of line = VSend ident dest data))"
  by (induction fs arbitrary: k) (auto simp: sends_to_def verb_of_send_line)

lemma relay_sends_frames:
  assumes "relay_ok r" "length dest = 6" "\<forall>f\<in>set fs. length f \<le> 250"
  shows "\<exists>e r'. relay_run (frame_lines env ident dest k fs) r = Some (e, r') \<and> sent_to dest e = fs"
proof -
  let ?is = "frame_lines env ident dest k fs"
  have "\<exists>e r'. relay_run ?is r = Some (e, r') \<and> relay_ok r' \<and> sent_to dest e = concat (map (sends_to dest) ?is)"
  proof (rule relay_run_rule[OF assms(1)])
    fix js e and r' :: relay and i payload
    assume "i \<in> set ?is" and P: "sent_to dest e = concat (map (sends_to dest) js)"
    then obtain env line ident data where "i = Line env (HostLine line)" "verb_of line = VSend ident dest data"
      using frame_lines_sends[OF assms(2,3)] by blast
    with P show "let (e', r'') = input_step i (r'\<lparr>rl_payload := payload\<rparr>)
        in sent_to dest (e @ e') = concat (map (sends_to dest) (js @ [i]))"
      using sent_to_send[of dest env ident data "r'\<lparr>rl_payload := payload\<rparr>"]
      by (simp add: case_prod_unfold sends_to_def)
  qed (use frame_lines_sends[OF assms(2,3)] in auto)
  then show ?thesis
    using frame_lines_sends[OF assms(2,3)] by auto
qed

lemma relay_prints_frames:
  assumes "relay_ok r" "length src = 6" "length (int_text (sint rssi)) \<le> 5" "\<forall>f\<in>set fs. length f \<le> 250"
  shows "\<exists>r'. relay_run (map (Datagram src rssi) fs) r = Some (map (\<lambda>f. Print (heard_text src rssi f)) fs, r')"
  using assms(1,4)
proof (induction fs arbitrary: r)
  case (Cons f fs)
  obtain payload where "length payload = 250"
      "relay_step (Datagram src rssi f) r = Some (input_step (Datagram src rssi f) (r\<lparr>rl_payload := payload\<rparr>))"
    using relay_step_input[of r "Datagram src rssi f"] Cons.prems esp_now_v1_fits[OF assms(2,3), of f] by auto
  moreover have "relay_ok (snd (input_step (Datagram src rssi f) (r\<lparr>rl_payload := payload\<rparr>)))"
    using input_step_ok[of "r\<lparr>rl_payload := payload\<rparr>" "Datagram src rssi f"] Cons.prems esp_now_v1_fits[OF assms(2,3), of f] calculation(1)
    by (simp add: relay_ok_def)
  ultimately show ?case
    using Cons.IH Cons.prems(2) by fastforce
qed simp

text \<open>C19: The relay is transparent for a link session. The frames one end seals, each handed over as a send line, leave on
  the air to the node named, byte for byte and in order, so the other end opens them to exactly the payloads sealed;
  and such a frame heard is always printed as a datagram in hex with its source, never taken for a beacon.\<close>

theorem relay_carries_conversation:
  assumes "relay_ok r" "length dest = 6" "length src = 6" "length (int_text (sint rssi)) \<le> 5"
    and "tags_full e (keyed c256 k)" "\<forall>p\<in>set ps. length p \<le> MAX_PAYLOAD" "length ps \<le> 2 ^ 32"
    and fs_def: "fs = sealed e (session_new c256 i pb k k' t' life') ps"
  shows "(\<exists>out r'. relay_run (frame_lines env ident dest 0 fs) r = Some (out, r') \<and>
      opened e (session_new c256 i pa k' k t life) (sent_to dest out) = map Inr ps) \<and>
    (\<exists>r'. relay_run (map (Datagram src rssi) fs) r =
      Some (map (\<lambda>f. Print ([82, 32] @ hex_text src @ [32] @ int_text (sint rssi) @ [32] @ hex_text f @ [13, 10])) fs, r'))"
proof -
  have "s_mac_send (session_new c256 i pb k k' t' life') = keyed c256 k"
    by (simp add: session_new_def)
  then have fit: "\<forall>f\<in>set fs. length f \<le> 250 \<and> \<not> is_beacon f"
    using sealed_frames_fit[of e "session_new c256 i pb k k' t' life'" _ ps] assms(5) by (auto simp: fs_def MAX_FRAME_def)
  have delivered: "opened e (session_new c256 i pa k' k t life) fs = map Inr ps"
    unfolding fs_def by (rule opened_sealed) (use assms(5-7) in \<open>simp_all add: session_new_def lessThan_0\<close>)
  have "heard_text src rssi f = [82, 32] @ hex_text src @ [32] @ int_text (sint rssi) @ [32] @ hex_text f @ [13, 10]" if "f \<in> set fs" for f
    using fit that by (simp add: heard_text_def)
  then have "map (\<lambda>f. Print (heard_text src rssi f)) fs =
      map (\<lambda>f. Print ([82, 32] @ hex_text src @ [32] @ int_text (sint rssi) @ [32] @ hex_text f @ [13, 10])) fs"
    by (intro map_cong) auto
  with relay_prints_frames[OF assms(1,3,4), of fs] relay_sends_frames[OF assms(1,2), of fs env ident 0] fit delivered show ?thesis
    by metis
qed

section \<open>Witnesses\<close>

definition quiet_env :: relay_env where
  "quiet_env = \<lparr>en_peer_exists = (\<lambda>_. False), en_peers = [], en_sent = (\<lambda>_ _. True), en_uart = (\<lambda>_. True),
     en_power = (\<lambda>_. True), en_channel = (\<lambda>_. True), en_now = 100\<rparr>"

definition on_trial :: relay where
  "on_trial = (relay_start 6 True 0)\<lparr>rl_baud := 921600, rl_trial := Some 100\<rparr>"

lemma on_trial_ok: "relay_ok on_trial" "rl_trial on_trial = Some 100" "rl_baud on_trial = 921600"
  by (simp_all add: on_trial_def relay_start_def relay_ok_def)

theorem relay_settings_lawful_witness:
  "(\<exists>e r. relay_run [Line quiet_env (HostLine [67, 32, 49, 49]), Datagram (replicate 6 1) 0 [1, 2]] (relay_start 6 True 0) = Some (e, r) \<and>
      settings_lawful r) \<and>
   relay_run [Datagram (replicate 6 1) 0 (replicate 253 0)] (relay_start 6 True 0) = None"
proof -
  let ?short = "Datagram (replicate 6 1) 0 [1, 2]" and ?long = "Datagram (replicate 6 1) 0 (replicate 253 0)"
  have "hd (take 2 (replicate 253 0)) = (0 :: u8)" "hd [0x4a, 0x42] \<noteq> (0 :: u8)"
    by simp_all
  then have "\<not> is_beacon (replicate 253 0)"
    unfolding is_beacon_def by metis
  then have overlong: "\<not> input_fits ?long"
    by (simp add: heard_text_def RELAY_OUT_def)
  have fits: "input_fits ?short"
    by (rule esp_now_v1_fits) (simp_all add: int_text_def dec_text.simps)
  show ?thesis
    using relay_settings_lawful[of 6 "[Line quiet_env (HostLine [67, 32, 49, 49]), ?short]" True 0]
      relay_settings_lawful[of 6 "[?long]" True 0] overlong fits
    by (simp del: input_fits.simps(1) relay_run.simps)
qed

theorem relay_answers_every_send_witness:
  "\<exists>e r'. relay_run [Line quiet_env (HostLine (send_line (hex_text [7]) (hex_text (replicate 6 2)) (hex_text [9]))),
      Line quiet_env BadLine] on_trial = Some (e, r') \<and> verdicts e = [verdict_line 7 True] \<and> rl_sent r' = 1"
proof -
  let ?is = "[Line quiet_env (HostLine (send_line (hex_text [7]) (hex_text (replicate 6 2)) (hex_text [9]))), Line quiet_env BadLine]"
  have sends: "concat (map sends_of ?is) = [(7, True)]"
    by (simp add: verb_of_send_line quiet_env_def)
  have "\<forall>i\<in>set ?is. input_fits i" "rl_sent on_trial = 0"
    by (simp_all add: on_trial_def relay_start_def)
  from relay_answers_every_send[OF on_trial_ok(1) this(1)] this(2) show ?thesis
    unfolding sends by auto
qed

theorem unanswered_speed_is_dropped_witness:
  "\<exists>e r'. relay_run ([Line quiet_env BadLine] @ [PassEnd 3000101 0]) on_trial = Some (e, r') \<and> rl_baud r' = BOOT_BAUD \<and>
    rl_trial r' = None \<and> uart_speed (rl_baud on_trial) e = BOOT_BAUD"
  by (rule unanswered_speed_is_dropped[OF on_trial_ok(1,2)]) (simp_all add: answers_def asks_speed_def BAUD_PATIENCE_def)

theorem relay_carries_conversation_witness:
  "(\<exists>out r'. relay_run (frame_lines (\<lambda>_. quiet_env) of_nat (replicate 6 2) 0
        (sealed (soft_sha (\<lambda>st b. st)) (session_new (\<lambda>st b. st) 7 () (replicate 32 1) (replicate 32 2) 5 9) [[1], []])) on_trial
        = Some (out, r') \<and>
      opened (soft_sha (\<lambda>st b. st)) (session_new (\<lambda>st b. st) 7 () (replicate 32 2) (replicate 32 1) 0 0)
        (sent_to (replicate 6 2) out) = map Inr [[1], []]) \<and>
    (\<exists>r'. relay_run (map (Datagram (replicate 6 4) 0)
        (sealed (soft_sha (\<lambda>st b. st)) (session_new (\<lambda>st b. st) 7 () (replicate 32 1) (replicate 32 2) 5 9) [[1], []])) on_trial =
      Some (map (\<lambda>f. Print ([82, 32] @ hex_text (replicate 6 4) @ [32] @ int_text (sint (0 :: i32)) @ [32] @ hex_text f @ [13, 10]))
        (sealed (soft_sha (\<lambda>st b. st)) (session_new (\<lambda>st b. st) 7 () (replicate 32 1) (replicate 32 2) 5 9) [[1], []]), r'))"
  by (rule relay_carries_conversation[OF on_trial_ok(1)])
    (simp_all add: int_text_def dec_text.simps tags_full_keyed[OF soft_engine_agrees] c256_ok_def frame_consts)

end
