(* ===== verification/Setup_Message.thy ===== *)
theory Setup_Message
  imports Prelude
begin

text \<open>
  The setup session's messages (\<open>crates/rusty_esp_signal-core/src/setup/\<close>): the setup code a person types
  (\<open>code.rs\<close>), the framing, the codes of refusals and the public Discover (\<open>message.rs\<close>), and the session's
  Context (\<open>mod.rs\<close>). A string is its bytes.
\<close>

section \<open>The setup code\<close>

definition CODE_SYMBOLS :: nat where "CODE_SYMBOLS = 10"
definition DISPLAY_LEN :: nat where "DISPLAY_LEN = CODE_SYMBOLS + 1"

text \<open>\<open>0123456789ABCDEFGHJKMNPQRSTVWXYZ\<close>.\<close>

definition ALPHABET :: bytes where
  "ALPHABET = [48, 49, 50, 51, 52, 53, 54, 55, 56, 57, 65, 66, 67, 68, 69, 70, 71, 72, 74, 75, 77, 78,
     80, 81, 82, 83, 84, 86, 87, 88, 89, 90]"

definition to_ascii_uppercase :: "u8 \<Rightarrow> u8" where
  "to_ascii_uppercase b = (if 97 \<le> b \<and> b \<le> 122 then b - 32 else b)"

definition code_symbol :: "u8 \<Rightarrow> u8" where
  "code_symbol b = (let u = to_ascii_uppercase b in if u = 79 then 48 else if u = 73 \<or> u = 76 then 49 else u)"

text \<open>The loop over the typed bytes: \<open>pw\<close> holds the symbols stored so far.\<close>

fun code_scan :: "bytes \<Rightarrow> bytes \<Rightarrow> err + bytes" where
  "code_scan [] pw = (if length pw \<noteq> CODE_SYMBOLS then Inl InvalidFormat else Inr pw)"
| "code_scan (b # rest) pw =
     (if b = 45 \<or> b = 32 then code_scan rest pw
      else let symbol = code_symbol b in
        if symbol \<notin> set ALPHABET then Inl InvalidFormat
        else if length pw = CODE_SYMBOLS then Inl InvalidFormat
        else code_scan rest (pw @ [symbol]))"

definition code_parse :: "bytes \<Rightarrow> err + bytes" where
  "code_parse typed = code_scan typed []"

definition code_from_bits :: "u64 \<Rightarrow> bytes" where
  "code_from_bits bits =
     map (\<lambda>i. ALPHABET ! unat (drop_bit (5 * (CODE_SYMBOLS - 1 - i)) bits AND 0x1F)) [0..<CODE_SYMBOLS]"

definition code_generate :: "('g \<Rightarrow> nat \<Rightarrow> (err + bytes) \<times> 'g) \<Rightarrow> 'g \<Rightarrow> (err + bytes) \<times> 'g" where
  "code_generate fill g =
     (case fill g 8 of (Inl e, g') \<Rightarrow> (Inl e, g') | (Inr raw, g') \<Rightarrow> (Inr (code_from_bits (le_word raw)), g'))"

definition code_display :: "bytes \<Rightarrow> bytes" where
  "code_display pw = write_at (write_at (replicate DISPLAY_LEN 45) 0 (take 5 pw)) 6 (drop 5 pw)"

lemma length_ALPHABET: "length ALPHABET = 32"
  by (simp add: ALPHABET_def)

lemma ALPHABET_distinct: "distinct ALPHABET"
  by (simp add: ALPHABET_def)

lemma code_symbol_alphabet: "\<forall>s\<in>set ALPHABET. code_symbol s = s \<and> s \<noteq> 45 \<and> s \<noteq> 32"
  by (simp add: ALPHABET_def code_symbol_def to_ascii_uppercase_def)

lemma code_scan_symbols:
  "set xs \<subseteq> set ALPHABET \<Longrightarrow> length pw + length xs \<le> CODE_SYMBOLS \<Longrightarrow>
     code_scan (xs @ rest) pw = code_scan rest (pw @ xs)"
proof (induction xs arbitrary: pw)
  case Nil
  then show ?case by simp
next
  case (Cons x xs)
  then have "code_symbol x = x" "x \<noteq> 45" "x \<noteq> 32" "x \<in> set ALPHABET" "length pw \<noteq> CODE_SYMBOLS"
    using code_symbol_alphabet by auto
  with Cons show ?case
    by (simp add: Let_def)
qed

lemma code_scan_Inr:
  "code_scan bs pw = Inr c \<Longrightarrow> set pw \<subseteq> set ALPHABET \<Longrightarrow> length c = CODE_SYMBOLS \<and> set c \<subseteq> set ALPHABET"
  by (induction bs pw rule: code_scan.induct) (auto simp: Let_def split: if_splits)

lemma code_parse_Inr: "code_parse bs = Inr c \<Longrightarrow> length c = CODE_SYMBOLS \<and> set c \<subseteq> set ALPHABET"
  unfolding code_parse_def by (rule code_scan_Inr) auto

lemma code_display_eq: "length c = CODE_SYMBOLS \<Longrightarrow> code_display c = take 5 c @ 45 # drop 5 c"
  by (simp add: code_display_def write_at_def DISPLAY_LEN_def CODE_SYMBOLS_def)

lemma code_parse_display:
  assumes "length c = CODE_SYMBOLS" and "set c \<subseteq> set ALPHABET"
  shows "code_parse (code_display c) = Inr c"
proof -
  have s: "set (take 5 c) \<subseteq> set ALPHABET" "set (drop 5 c) \<subseteq> set ALPHABET"
    using assms(2) set_take_subset[of 5 c] set_drop_subset[of 5 c] by auto
  have "code_parse (code_display c) = code_scan (45 # drop 5 c) (take 5 c)"
    unfolding code_parse_def code_display_eq[OF assms(1)]
    using code_scan_symbols[OF s(1), of "[]"] assms(1) by (simp add: CODE_SYMBOLS_def)
  also have "\<dots> = code_scan (drop 5 c @ []) (take 5 c)"
    by simp
  also have "\<dots> = code_scan [] (take 5 c @ drop 5 c)"
    using assms(1) by (intro code_scan_symbols[OF s(2)]) (simp add: CODE_SYMBOLS_def)
  finally show ?thesis
    using assms(1) by simp
qed

text \<open>Base-32 digits, most significant first.\<close>

fun digits32 :: "nat \<Rightarrow> nat \<Rightarrow> nat list" where
  "digits32 0 v = []"
| "digits32 (Suc n) v = digits32 n (v div 32) @ [v mod 32]"

lemma length_digits32 [simp]: "length (digits32 n v) = n"
  by (induction n arbitrary: v) auto

lemma digits32_nth: "i < n \<Longrightarrow> digits32 n v ! i = v div 32 ^ (n - 1 - i) mod 32"
proof (induction n arbitrary: v)
  case 0
  then show ?case by simp
next
  case (Suc n)
  show ?case
  proof (cases "i = n")
    case True
    then show ?thesis
      by (simp add: nth_append)
  next
    case False
    then have "i < n"
      using Suc.prems by simp
    then have "digits32 (Suc n) v ! i = v div 32 div 32 ^ (n - 1 - i) mod 32"
      by (simp add: nth_append Suc.IH)
    moreover have "Suc (n - 1 - i) = n - i"
      using \<open>i < n\<close> by simp
    ultimately show ?thesis
      by (simp flip: div_mult2_eq power_Suc)
  qed
qed

lemma digits32_inverse: "\<forall>d\<in>set ds. d < (32 :: nat) \<Longrightarrow> digits32 (length ds) (foldl (\<lambda>a d. 32 * a + d) 0 ds) = ds"
  by (induction ds rule: rev_induct) auto

lemma digits32_bound: "\<forall>d\<in>set ds. d < (32 :: nat) \<Longrightarrow> foldl (\<lambda>a d. 32 * a + d) 0 ds < 32 ^ length ds"
proof (induction ds rule: rev_induct)
  case (snoc d ds)
  then have "foldl (\<lambda>a d. 32 * a + d) 0 ds + 1 \<le> 32 ^ length ds"
    by auto
  then have "32 * (foldl (\<lambda>a d. 32 * a + d) 0 ds + 1) \<le> 32 * 32 ^ length ds"
    by (rule mult_le_mono2)
  with snoc.prems show ?case by simp
qed simp

lemma digits32_inject:
  "v < 32 ^ n \<Longrightarrow> w < 32 ^ n \<Longrightarrow> digits32 n v = digits32 n w \<Longrightarrow> v = w"
proof (induction n arbitrary: v w)
  case (Suc n)
  then have "v div 32 = w div 32" "v mod 32 = w mod 32"
    by (auto simp: less_mult_imp_div_less mult.commute)
  then show ?case
    by (metis div_mult_mod_eq)
qed simp

lemma code_from_bits_digits: "code_from_bits b = map ((!) ALPHABET) (digits32 CODE_SYMBOLS (unat b))"
proof (rule nth_equalityI)
  fix i
  assume "i < length (code_from_bits b)"
  then have i: "i < CODE_SYMBOLS"
    by (simp add: code_from_bits_def)
  have m: "(0x1F :: u64) = mask 5"
    by (simp add: mask_eq_exp_minus_1)
  have "unat (drop_bit k b AND 0x1F) = unat b div 2 ^ k mod 32" for k
    unfolding m take_bit_eq_mask[symmetric] unsigned_take_bit_eq unat_drop_bit_eq
    by (simp add: take_bit_eq_mod drop_bit_eq_div)
  then show "code_from_bits b ! i = map ((!) ALPHABET) (digits32 CODE_SYMBOLS (unat b)) ! i"
    using i by (simp add: code_from_bits_def digits32_nth power_mult)
qed (simp add: code_from_bits_def)

text \<open>Every list of ten symbols is the code of exactly one 50-bit number.\<close>

lemma ALPHABET_nth_inject: "i < 32 \<Longrightarrow> j < 32 \<Longrightarrow> ALPHABET ! i = ALPHABET ! j \<Longrightarrow> i = j"
  using nth_eq_iff_index_eq[OF ALPHABET_distinct] by (simp add: length_ALPHABET)

lemma digits32_less: "\<forall>d\<in>set (digits32 n v). d < 32"
  by (induction n arbitrary: v) auto

lemma code_symbols_bits:
  assumes "length c = CODE_SYMBOLS" and "set c \<subseteq> set ALPHABET"
  shows "\<exists>!b. unat b < 2 ^ 50 \<and> c = code_from_bits b"
proof -
  have "\<forall>x\<in>set c. \<exists>i<32. x = ALPHABET ! i"
    using assms(2) length_ALPHABET by (metis in_set_conv_nth subsetD)
  then obtain f where f: "\<forall>x\<in>set c. f x < 32 \<and> x = ALPHABET ! f x"
    by metis
  define ds where "ds = map f c"
  define v where "v = foldl (\<lambda>a d. 32 * a + d) 0 ds"
  have ds: "\<forall>d\<in>set ds. d < 32" "length ds = CODE_SYMBOLS" "map ((!) ALPHABET) ds = c"
    using f assms(1) by (auto simp: ds_def intro!: map_idI)
  have p: "(32::nat) ^ CODE_SYMBOLS = 2 ^ 50"
    by (simp add: CODE_SYMBOLS_def)
  have v: "v < 2 ^ 50" "digits32 CODE_SYMBOLS v = ds"
    using digits32_bound[OF ds(1)] digits32_inverse[OF ds(1)] unfolding v_def ds(2) p by simp_all
  then have u: "unat (of_nat v :: u64) = v"
    by (simp add: unat_of_nat)
  show ?thesis
  proof (rule ex1I[of _ "of_nat v"])
    show "unat (of_nat v :: u64) < 2 ^ 50 \<and> c = code_from_bits (of_nat v)"
      unfolding code_from_bits_digits u v(2) ds(3) using v(1) by simp
    fix b :: u64
    assume b: "unat b < 2 ^ 50 \<and> c = code_from_bits b"
    have "map ((!) ALPHABET) (digits32 CODE_SYMBOLS (unat b)) = map ((!) ALPHABET) ds"
      using b ds(3) by (simp add: code_from_bits_digits)
    moreover have "inj_on ((!) ALPHABET) (set (digits32 CODE_SYMBOLS (unat b)) \<union> set ds)"
      using digits32_less ds(1) ALPHABET_nth_inject by (intro inj_onI) blast
    ultimately have "digits32 CODE_SYMBOLS (unat b) = digits32 CODE_SYMBOLS v"
      unfolding v(2) by (rule map_inj_on)
    then have bv: "unat b = v"
      using b v(1) by (intro digits32_inject[of _ CODE_SYMBOLS]) (simp_all add: p)
    then show "b = of_nat v"
      by (simp flip: bv)
  qed
qed

lemma code_from_bits_symbols: "length (code_from_bits b) = CODE_SYMBOLS \<and> set (code_from_bits b) \<subseteq> set ALPHABET"
  unfolding code_from_bits_digits using digits32_less[of CODE_SYMBOLS "unat b"] length_ALPHABET by auto

section \<open>Framing\<close>

definition SETUP_VERSION :: u8 where "SETUP_VERSION = 1"
definition MAX_MESSAGE :: nat where "MAX_MESSAGE = 512"
definition MSG_HEADER_LEN :: nat where "MSG_HEADER_LEN = 2"
definition MK_DISCOVER :: u8 where "MK_DISCOVER = 0"
definition MK_START :: u8 where "MK_START = 1"
definition MK_REPLY :: u8 where "MK_REPLY = 2"
definition MK_CONFIRM :: u8 where "MK_CONFIRM = 3"
definition MK_READY :: u8 where "MK_READY = 4"
definition MK_SETTINGS :: u8 where "MK_SETTINGS = 5"
definition MK_RESULT :: u8 where "MK_RESULT = 6"
definition MK_ERROR :: u8 where "MK_ERROR = 0x7F"
definition SUITE_CODE :: u8 where "SUITE_CODE = 1"
definition DEVPUB_LEN :: nat where "DEVPUB_LEN = 33"
definition SALT_LEN :: nat where "SALT_LEN = 16"
definition MAX_LABEL_LEN :: nat where "MAX_LABEL_LEN = 16"

datatype result_code =
    RcApplied | RcMalformed | RcVersion | RcBusy | RcWindowClosed | RcBackoff | RcNoVerifier | RcOrder
  | RcConfirm | RcSeal | RcBadNetwork | RcBadName | RcBadMaker | RcBadVerifier | RcBadAdoption | RcUnknownTag
  | RcStoreFailed

definition rc_as_u8 :: "result_code \<Rightarrow> u8" where
  "rc_as_u8 c = (case c of
       RcApplied \<Rightarrow> 0x00 | RcMalformed \<Rightarrow> 0x01 | RcVersion \<Rightarrow> 0x02 | RcBusy \<Rightarrow> 0x03 | RcWindowClosed \<Rightarrow> 0x04
     | RcBackoff \<Rightarrow> 0x05 | RcNoVerifier \<Rightarrow> 0x06 | RcOrder \<Rightarrow> 0x07 | RcConfirm \<Rightarrow> 0x08 | RcSeal \<Rightarrow> 0x09
     | RcBadNetwork \<Rightarrow> 0x20 | RcBadName \<Rightarrow> 0x21 | RcBadMaker \<Rightarrow> 0x22 | RcBadVerifier \<Rightarrow> 0x23
     | RcBadAdoption \<Rightarrow> 0x24 | RcUnknownTag \<Rightarrow> 0x25 | RcStoreFailed \<Rightarrow> 0x26)"

definition rc_from_u8 :: "u8 \<Rightarrow> result_code option" where
  "rc_from_u8 b =
     (if b = 0x00 then Some RcApplied else if b = 0x01 then Some RcMalformed else if b = 0x02 then Some RcVersion
      else if b = 0x03 then Some RcBusy else if b = 0x04 then Some RcWindowClosed else if b = 0x05 then Some RcBackoff
      else if b = 0x06 then Some RcNoVerifier else if b = 0x07 then Some RcOrder else if b = 0x08 then Some RcConfirm
      else if b = 0x09 then Some RcSeal else if b = 0x20 then Some RcBadNetwork else if b = 0x21 then Some RcBadName
      else if b = 0x22 then Some RcBadMaker else if b = 0x23 then Some RcBadVerifier
      else if b = 0x24 then Some RcBadAdoption else if b = 0x25 then Some RcUnknownTag
      else if b = 0x26 then Some RcStoreFailed else None)"

definition rc_is_failure :: "result_code \<Rightarrow> bool" where
  "rc_is_failure c \<longleftrightarrow> c = RcConfirm \<or> c = RcSeal"

lemma rc_round_trip [simp]: "rc_from_u8 (rc_as_u8 c) = Some c"
  by (cases c) (simp_all add: rc_as_u8_def rc_from_u8_def)

lemma rc_from_u8_Some: "rc_from_u8 b = Some c \<Longrightarrow> rc_as_u8 c = b"
  by (auto simp: rc_from_u8_def rc_as_u8_def split: if_splits)

definition msg_split :: "bytes \<Rightarrow> err + (u8 \<times> bytes)" where
  "msg_split m =
     (if length m < MSG_HEADER_LEN \<or> length m > MAX_MESSAGE then Inl InvalidFormat
      else if m ! 0 \<noteq> SETUP_VERSION then Inl Unsupported
      else Inr (m ! 1, drop MSG_HEADER_LEN m))"

definition msg_header :: "u8 \<Rightarrow> bytes" where
  "msg_header k = [SETUP_VERSION, k]"

definition write_error :: "result_code \<Rightarrow> bytes \<Rightarrow> (err + nat) \<times> bytes" where
  "write_error code out =
     (if length out < 3 then (Inl (BufferTooSmall 3), out)
      else (Inr 3, write_at out 0 [SETUP_VERSION, MK_ERROR, rc_as_u8 code]))"

section \<open>Discover\<close>

record discover =
  dc_suites :: u8
  dc_devpub :: bytes
  dc_salt :: bytes
  dc_iterations :: u32
  dc_window_s :: u16
  dc_attempts_left :: u8

definition DISCOVER_LEN :: nat where
  "DISCOVER_LEN = MSG_HEADER_LEN + 1 + DEVPUB_LEN + SALT_LEN + 4 + 2 + 1"

definition WINDOW_UNTIL_PROVISIONED :: u16 where "WINDOW_UNTIL_PROVISIONED = 0xFFFF"

definition discover_write :: "discover \<Rightarrow> bytes \<Rightarrow> (err + nat) \<times> bytes" where
  "discover_write d out =
     (if length out < DISCOVER_LEN then (Inl (BufferTooSmall DISCOVER_LEN), out)
      else
        let out = write_at out 0 (msg_header MK_DISCOVER);
            out = write_at out 2 [dc_suites d];
            out = write_at out 3 (dc_devpub d);
            out = write_at out 36 (dc_salt d);
            out = write_at out 52 (be_bytes 4 (dc_iterations d));
            out = write_at out 56 (be_bytes 2 (dc_window_s d));
            out = write_at out 58 [dc_attempts_left d]
        in (Inr DISCOVER_LEN, out))"

definition discover_read :: "bytes \<Rightarrow> err + discover" where
  "discover_read m =
     rbind (msg_split m) (\<lambda>(k, body).
       if k \<noteq> MK_DISCOVER \<or> length body \<noteq> DISCOVER_LEN - MSG_HEADER_LEN then Inl InvalidFormat
       else Inr \<lparr>dc_suites = body ! 0, dc_devpub = take 33 (drop 1 body), dc_salt = take 16 (drop 34 body),
                 dc_iterations = be_word [body ! 50, body ! 51, body ! 52, body ! 53],
                 dc_window_s = be_word [body ! 54, body ! 55], dc_attempts_left = body ! 56\<rparr>)"

definition offers_code :: "discover \<Rightarrow> bool" where
  "offers_code d \<longleftrightarrow> dc_suites d AND SUITE_CODE \<noteq> 0"

definition discover_wf :: "discover \<Rightarrow> bool" where
  "discover_wf d \<longleftrightarrow> length (dc_devpub d) = DEVPUB_LEN \<and> length (dc_salt d) = SALT_LEN"

definition discover_bytes :: "discover \<Rightarrow> bytes" where
  "discover_bytes d = msg_header MK_DISCOVER @ [dc_suites d] @ dc_devpub d @ dc_salt d @
     be_bytes 4 (dc_iterations d) @ be_bytes 2 (dc_window_s d) @ [dc_attempts_left d]"

lemmas setup_len_defs = DISCOVER_LEN_def MSG_HEADER_LEN_def DEVPUB_LEN_def SALT_LEN_def

lemma discover_write_eq:
  "discover_wf d \<Longrightarrow> DISCOVER_LEN \<le> length out \<Longrightarrow>
     discover_write d out = (Inr DISCOVER_LEN, discover_bytes d @ drop DISCOVER_LEN out)"
  by (simp add: discover_write_def Let_def write_at_walk msg_header_def discover_bytes_def discover_wf_def setup_len_defs)

definition discover_wire :: "discover \<Rightarrow> bytes" where
  "discover_wire d = snd (discover_write d (replicate DISCOVER_LEN 0))"

lemma discover_wire_eq: "discover_wf d \<Longrightarrow> discover_wire d = discover_bytes d"
  by (simp add: discover_wire_def discover_write_eq)

lemma list4_exhaust: "length xs = 4 \<Longrightarrow> \<exists>a b c d. xs = [a, b, c, d]"
  by (auto simp: length_Suc_conv numeral_eq_Suc)

lemma discover_read_bytes:
  assumes wf: "discover_wf d"
  shows "discover_read (discover_bytes d) = Inr d"
proof -
  obtain a b c e where i: "be_bytes 4 (dc_iterations d) = [a, b, c, e]"
    using list4_exhaust[of "be_bytes 4 (dc_iterations d)"] by auto
  obtain f g where w: "be_bytes 2 (dc_window_s d) = [f, g]"
    using list2_exhaust[of "be_bytes 2 (dc_window_s d)"] by auto
  define body where "body = dc_suites d # (dc_devpub d @ dc_salt d @ [a, b, c, e, f, g, dc_attempts_left d])"
  have l: "length (dc_devpub d) = 33" "length (dc_salt d) = 16"
    using wf by (simp_all add: discover_wf_def setup_len_defs)
  have sp: "msg_split (discover_bytes d) = Inr (MK_DISCOVER, body)"
    using l by (simp add: msg_split_def discover_bytes_def msg_header_def body_def i w MSG_HEADER_LEN_def MAX_MESSAGE_def)
  have parts: "length body = 57" "body ! 0 = dc_suites d" "take 33 (drop 1 body) = dc_devpub d"
    "take 16 (drop 34 body) = dc_salt d" "[body ! 50, body ! 51, body ! 52, body ! 53] = [a, b, c, e]"
    "[body ! 54, body ! 55] = [f, g]" "body ! 56 = dc_attempts_left d"
    using l unfolding body_def by (simp_all add: nth_append)
  have "be_word [a, b, c, e] = dc_iterations d" "be_word [f, g] = dc_window_s d"
    using be_word_u32[of "dc_iterations d"] be_word_u16[of "dc_window_s d"] by (simp_all add: i w)
  then show ?thesis
    unfolding discover_read_def sp rbind_simps prod.case parts by (simp add: setup_len_defs)
qed

interpretation discover: wire_codec discover_wire discover_read discover_wf
  by unfold_locales (simp add: discover_wire_eq discover_read_bytes)

lemma drop_nth: "i < length xs \<Longrightarrow> drop i xs = xs ! i # drop (Suc i) xs"
  by (simp add: Cons_nth_drop_Suc)

lemma discover_read_Inr:
  assumes "discover_read m = Inr d"
  shows "discover_wf d \<and> m = discover_bytes d"
proof -
  obtain k body where sp: "msg_split m = Inr (k, body)"
    using assms unfolding discover_read_def by (auto simp: rbind_Inr_iff)
  have k: "k = MK_DISCOVER" and len: "length body = 57"
    and d: "d = \<lparr>dc_suites = body ! 0, dc_devpub = take 33 (drop 1 body), dc_salt = take 16 (drop 34 body),
      dc_iterations = be_word [body ! 50, body ! 51, body ! 52, body ! 53],
      dc_window_s = be_word [body ! 54, body ! 55], dc_attempts_left = body ! 56\<rparr>"
    using assms unfolding discover_read_def sp by (auto simp: setup_len_defs split: if_splits)
  have m: "m = msg_header MK_DISCOVER @ body"
  proof -
    have h: "2 \<le> length m" "m ! 0 = SETUP_VERSION" "m ! 1 = MK_DISCOVER" "drop 2 m = body"
      using sp k unfolding msg_split_def MSG_HEADER_LEN_def by (auto split: if_splits)
    then have "m = m ! 0 # m ! 1 # drop 2 m"
      by (cases m; cases "tl m") auto
    with h show ?thesis
      by (simp add: msg_header_def)
  qed
  have four: "be_bytes 4 (be_word [body ! 50, body ! 51, body ! 52, body ! 53] :: u32) =
      [body ! 50, body ! 51, body ! 52, body ! 53]"
    using be_bytes_be_word[where 'a = 32, of "[body ! 50, body ! 51, body ! 52, body ! 53]"] by (simp add: eval_nat_numeral)
  have two: "be_bytes 2 (be_word [body ! 54, body ! 55] :: u16) = [body ! 54, body ! 55]"
    using be_bytes_be_word[where 'a = 16, of "[body ! 54, body ! 55]"] by (simp add: numeral_2_eq_2)
  have "body = body ! 0 # take 33 (drop 1 body) @ take 16 (drop 34 body) @ drop 50 body"
  proof -
    have "drop 1 body = take 33 (drop 1 body) @ take 16 (drop 33 (drop 1 body)) @ drop 16 (drop 33 (drop 1 body))"
      by (simp only: append_take_drop_id)
    then show ?thesis
      using len drop_nth[of 0 body] by simp
  qed
  moreover have "drop 50 body = [body ! 50, body ! 51, body ! 52, body ! 53, body ! 54, body ! 55, body ! 56]"
    using len by (simp add: drop_nth)
  ultimately have "m = discover_bytes d"
    unfolding m discover_bytes_def d using four two by simp
  moreover have "discover_wf d"
    using len by (simp add: discover_wf_def d setup_len_defs)
  ultimately show ?thesis by simp
qed

section \<open>Context\<close>

definition CONTEXT_PREFIX :: bytes where
  "CONTEXT_PREFIX = [106, 97, 110, 117, 115, 45, 115, 101, 116, 117, 112, 45, 118, 49]" \<comment> \<open>janus-setup-v1\<close>

definition context_new :: "bytes \<Rightarrow> bytes \<Rightarrow> err + bytes" where
  "context_new label devpub =
     (if label = [] \<or> length label > MAX_LABEL_LEN then Inl InvalidFormat
      else Inr (CONTEXT_PREFIX @ [of_nat (length label)] @ label @ devpub))"

section \<open>Properties\<close>

lemma setup_code_is_fifty_bits:
  assumes "code_parse typed = Inr c"
  shows "(\<exists>!b. unat b < 2 ^ 50 \<and> c = code_from_bits b) \<and> code_parse (code_display c) = Inr c"
  using code_parse_Inr[OF assms] code_symbols_bits code_parse_display by blast

lemma discover_read_exact: "discover_read m = Inr d \<longleftrightarrow> discover_wf d \<and> m = discover_wire d"
  using discover_read_Inr[of m d] discover_read_bytes[of d] by (auto simp: discover_wire_eq)

end
