(* ===== verification/Setup_Verifier.thy ===== *)
theory Setup_Verifier
  imports Setup_Message Hmac
begin

text \<open>
  The verifier (\<open>crates/rusty_esp_signal-core/src/setup/verifier.rs\<close>): the prover's secrets derived from
  the code by PBKDF2, whose loop works on the two midstates of the password and one pre-padded block, and
  the stored \<open>setup.v\<close> record. The arithmetic of P-256 (crate \<open>p256\<close>) is the argument \<open>curve\<close>; the hash
  crates are the argument \<open>hashes\<close>, with what their documentation promises in \<open>hashes_ok\<close>.
\<close>

section \<open>External arithmetic\<close>

text \<open>\<open>Scalar\<close> and \<open>AffinePoint\<close>/\<open>ProjectivePoint\<close>, the two point types being one here.\<close>

record ('s, 'p) curve =
  sc_from_repr :: "bytes \<Rightarrow> 's option"
  sc_to_bytes :: "'s \<Rightarrow> bytes"
  sc_is_zero :: "'s \<Rightarrow> bool"
  sc_reduce :: "bytes \<Rightarrow> 's"
  sc_from_u64 :: "u64 \<Rightarrow> 's"
  sc_add :: "'s \<Rightarrow> 's \<Rightarrow> 's"
  sc_mul :: "'s \<Rightarrow> 's \<Rightarrow> 's"
  pt_decode :: "bytes \<Rightarrow> 'p option"
  pt_encode :: "'p \<Rightarrow> bytes"
  pt_is_identity :: "'p \<Rightarrow> bool"
  pt_generator :: "'p"
  pt_add :: "'p \<Rightarrow> 'p \<Rightarrow> 'p"
  pt_sub :: "'p \<Rightarrow> 'p \<Rightarrow> 'p"
  pt_mul :: "'p \<Rightarrow> 's \<Rightarrow> 'p"

record hashes =
  h_c256 :: "sha_state \<Rightarrow> bytes \<Rightarrow> sha_state"
  h_sha256 :: "bytes \<Rightarrow> bytes"
  h_hmac :: "bytes \<Rightarrow> bytes \<Rightarrow> bytes"
  h_hkdf :: "bytes \<Rightarrow> bytes \<Rightarrow> nat \<Rightarrow> bytes" \<comment> \<open>\<open>Hkdf::new(None, key).expand(info, len)\<close>\<close>

text \<open>HMAC of RFC 2104 for a key of any length.\<close>

definition hmac_full :: "(sha_state \<Rightarrow> bytes \<Rightarrow> sha_state) \<Rightarrow> bytes \<Rightarrow> bytes \<Rightarrow> bytes" where
  "hmac_full c256 key m = hmac_ref c256 (if length key > 64 then sha256_of c256 key else key) m"

definition hashes_ok :: "hashes \<Rightarrow> bool" where
  "hashes_ok H \<longleftrightarrow> c256_ok (h_c256 H) \<and> h_sha256 H = sha256_of (h_c256 H) \<and> h_hmac H = hmac_full (h_c256 H) \<and>
     (\<forall>k i n. length (h_hkdf H k i n) = n)"

section \<open>PBKDF2\<close>

definition SHA256_IV :: sha_state where
  "SHA256_IV = [0x6a09e667, 0xbb67ae85, 0x3c6ef372, 0xa54ff53a, 0x510e527f, 0x9b05688c, 0x1f83d9ab, 0x5be0cd19]"

definition word_bytes :: "sha_state \<Rightarrow> bytes" where
  "word_bytes st = concat (map (be_bytes 4) st)"

text \<open>The key's two pads, absorbed: \<open>inner\<close> and \<open>outer\<close>.\<close>

definition pad_state :: "hashes \<Rightarrow> bytes \<Rightarrow> u8 \<Rightarrow> sha_state" where
  "pad_state H password byte =
     (let key = replicate 64 0;
          key = (if length password > 64 then write_at key 0 (h_sha256 H password) else write_at key 0 password);
          pad = map (\<lambda>k. k XOR byte) key
      in h_c256 H SHA256_IV pad)"

text \<open>One pass of the loop over \<open>1..iterations\<close>: the block, \<open>u\<close> and \<open>t\<close>.\<close>

definition pbkdf2_round ::
  "hashes \<Rightarrow> sha_state \<Rightarrow> sha_state \<Rightarrow> bytes \<times> sha_state \<times> sha_state \<Rightarrow> bytes \<times> sha_state \<times> sha_state" where
  "pbkdf2_round H inner outer s =
     (case s of (block, u, t) \<Rightarrow>
        let block = write_at block 0 (word_bytes u);
            s = h_c256 H inner block;
            block = write_at block 0 (word_bytes s);
            u = h_c256 H outer block
        in (block, u, map2 (XOR) t u))"

text \<open>One chunk of the output, from its index; the block is carried to the next.\<close>

definition pbkdf2_chunk ::
  "hashes \<Rightarrow> bytes \<Rightarrow> bytes \<Rightarrow> u32 \<Rightarrow> sha_state \<Rightarrow> sha_state \<Rightarrow> u32 \<Rightarrow> bytes \<Rightarrow> bytes \<times> bytes" where
  "pbkdf2_chunk H password salt iterations inner outer i block =
     (let first = h_hmac H password (salt @ be_bytes 4 (i + 1));
          u = map be_word (chunks_exact 4 first);
          (block, u, t) = (pbkdf2_round H inner outer ^^ (unat iterations - 1)) (block, u, u)
      in (word_bytes t, block))"

text \<open>\<open>out.chunks_mut(32)\<close>: \<open>n\<close> bytes of output left.\<close>

function pbkdf2_chunks ::
  "hashes \<Rightarrow> bytes \<Rightarrow> bytes \<Rightarrow> u32 \<Rightarrow> sha_state \<Rightarrow> sha_state \<Rightarrow> u32 \<Rightarrow> bytes \<Rightarrow> nat \<Rightarrow> bytes" where
  "pbkdf2_chunks H password salt iterations inner outer i block n =
     (if n = 0 then []
      else case pbkdf2_chunk H password salt iterations inner outer i block of
        (bs, block) \<Rightarrow>
          take (min 32 n) bs @ pbkdf2_chunks H password salt iterations inner outer (i + 1) block (n - 32))"
  by pat_completeness auto
termination
  by (relation "measure (\<lambda>(H, password, salt, iterations, inner, outer, i, block, n). n)") auto

declare pbkdf2_chunks.simps [simp del]

definition pbkdf2_hmac_sha256 :: "hashes \<Rightarrow> bytes \<Rightarrow> bytes \<Rightarrow> u32 \<Rightarrow> nat \<Rightarrow> bytes" where
  "pbkdf2_hmac_sha256 H password salt iterations n =
     (let inner = pad_state H password 0x36;
          outer = pad_state H password 0x5c;
          block = replicate 64 0;
          block = write_at block 32 [0x80];
          block = write_at block 62 (be_bytes 2 (768 :: u16))
      in pbkdf2_chunks H password salt iterations inner outer 0 block n)"

section \<open>RFC 8018\<close>

text \<open>The reference: \<open>U\<^sub>1 = PRF(P, S || INT(i))\<close>, \<open>U\<^sub>j = PRF(P, U\<^sub>j\<^sub>-\<^sub>1)\<close>, a block is the exclusive or of all
  of them, the key the first \<open>n\<close> bytes of the blocks.\<close>

fun rfc_u :: "(bytes \<Rightarrow> bytes) \<Rightarrow> bytes \<Rightarrow> nat \<Rightarrow> bytes" where
  "rfc_u prf first 0 = first"
| "rfc_u prf first (Suc j) = prf (rfc_u prf first j)"

fun rfc_t :: "(bytes \<Rightarrow> bytes) \<Rightarrow> bytes \<Rightarrow> nat \<Rightarrow> bytes" where
  "rfc_t prf first 0 = first"
| "rfc_t prf first (Suc j) = map2 (XOR) (rfc_t prf first j) (rfc_u prf first (Suc j))"

definition rfc_block :: "(bytes \<Rightarrow> bytes) \<Rightarrow> bytes \<Rightarrow> nat \<Rightarrow> nat \<Rightarrow> bytes" where
  "rfc_block prf salt c i = rfc_t prf (prf (salt @ be_bytes 4 (of_nat (i + 1) :: u32))) (c - 1)"

definition pbkdf2_ref :: "(bytes \<Rightarrow> bytes) \<Rightarrow> bytes \<Rightarrow> nat \<Rightarrow> nat \<Rightarrow> bytes" where
  "pbkdf2_ref prf salt c n = take n (concat (map (rfc_block prf salt c) [0..<(n + 31) div 32]))"

section \<open>The loop computes the reference\<close>

lemma le_bytes_swap: "le_bytes 4 (swap_bytes w) = be_bytes 4 w"
proof -
  have "be_bytes 4 (be_word (le_bytes 4 w) :: u32) = le_bytes 4 w"
    using be_bytes_be_word[of "le_bytes 4 w", where 'a = 32] by simp
  then show ?thesis
    by (simp add: le_bytes_def swap_bytes_def)
qed

lemma digest_word_bytes: "digest_bytes (map swap_bytes st) = word_bytes st"
  by (simp add: digest_bytes_def word_bytes_def le_bytes_swap o_def)

lemma length_word_bytes: "length (word_bytes st) = 4 * length st"
  by (induction st) (auto simp: word_bytes_def)

lemma soft_IV: "soft_compress c256 IV b = map swap_bytes (foldl c256 SHA256_IV (chunks_exact 64 b))"
  by (simp add: soft_compress_def IV_def SHA256_IV_def Let_def)

lemma chunks_two: "length a = n \<Longrightarrow> length b = n \<Longrightarrow> 0 < n \<Longrightarrow> chunks_exact n (a @ b) = [a, b]"
  by (simp add: chunks_exact.simps)

abbreviation pad96 :: bytes where
  "pad96 \<equiv> sha_pad 96"

lemma length_pad96: "length pad96 = 32"
  by (simp add: sha_pad_def)

lemma sha256_of_two:
  "length a = 64 \<Longrightarrow> length m = 32 \<Longrightarrow>
     sha256_of c256 (a @ m) = word_bytes (c256 (c256 SHA256_IV a) (m @ pad96))"
  using chunks_two[of a 64 "m @ pad96"]
  by (simp add: sha256_of_def soft_IV digest_word_bytes length_pad96)

lemma length_sha256_of: "c256_ok c256 \<Longrightarrow> length (sha256_of c256 m) = 32"
  by (simp add: sha256_of_def length_digest_bytes length_soft_compress length_IV)

definition key_of :: "hashes \<Rightarrow> bytes \<Rightarrow> bytes" where
  "key_of H password = (if length password > 64 then h_sha256 H password else password)"

lemma length_key_of: "hashes_ok H \<Longrightarrow> length (key_of H password) \<le> 64"
  by (simp add: key_of_def hashes_ok_def length_sha256_of)

lemma pad_state_eq:
  assumes "hashes_ok H"
  shows "pad_state H password b = h_c256 H SHA256_IV (key_pad b (key_of H password))"
proof -
  have "map (\<lambda>k. k XOR b) (write_at (replicate 64 0) 0 (key_of H password)) = key_pad b (key_of H password)"
    using length_key_of[OF assms, of password] by (simp add: write_at_def key_pad_def xor.commute)
  then show ?thesis
    by (simp add: pad_state_def key_of_def Let_def split: if_splits)
qed

lemma hmac_full_32:
  assumes "hashes_ok H" and "length m = 32"
  shows "hmac_full (h_c256 H) password m =
    word_bytes (h_c256 H (pad_state H password 0x5c) (word_bytes (h_c256 H (pad_state H password 0x36) (m @ pad96)) @ pad96))"
proof -
  let ?k = "key_of H password"
  have ok: "c256_ok (h_c256 H)" and sha: "h_sha256 H = sha256_of (h_c256 H)"
    using assms(1) by (simp_all add: hashes_ok_def)
  have k: "hmac_full (h_c256 H) password m = hmac_ref (h_c256 H) ?k m"
    by (simp add: hmac_full_def key_of_def sha)
  have "length (sha256_of (h_c256 H) (key_pad 0x36 ?k @ m)) = 32"
    using ok by (rule length_sha256_of)
  then show ?thesis
    unfolding k hmac_ref_def pad_state_eq[OF assms(1)]
    using assms(2) length_key_of[OF assms(1), of password] by (simp add: sha256_of_two length_key_pad)
qed

lemma nat_be_4: "nat_be 4 v = [of_nat (v div 2 ^ 24), of_nat (v div 2 ^ 16), of_nat (v div 2 ^ 8), of_nat v]"
proof -
  have "(4 :: nat) = Suc (Suc (Suc (Suc 0)))"
    by simp
  then have "nat_be 4 v = [of_nat (v div 256 div 256 div 256), of_nat (v div 256 div 256), of_nat (v div 256), of_nat v]"
    by (simp only: nat_be.simps append.simps)
  moreover have "v div 256 div 256 div 256 = v div 2 ^ 24" "v div 256 div 256 = v div 2 ^ 16" "v div 256 = v div 2 ^ 8"
    by (simp_all flip: div_mult2_eq)
  ultimately show ?thesis
    by (simp only:)
qed

lemma be_bytes_u32: "be_bytes 4 (w :: u32) = map (\<lambda>k. ucast (drop_bit k w)) [24, 16, 8, 0]"
proof -
  have "(of_nat (unat w div 2 ^ k) :: u8) = ucast (drop_bit k w)" for k
    by (simp only: drop_bit_eq_div[of k "unat w", symmetric] unat_drop_bit_eq[symmetric] of_nat_unat)
  from this[of 24] this[of 16] this[of 8] this[of 0] show ?thesis
    by (simp only: be_bytes_def nat_be_4 list.map drop_bit_0 id_apply power_0 div_by_1)
qed

lemma be_bytes_4_xor: "be_bytes 4 (a XOR b :: u32) = map2 (XOR) (be_bytes 4 a) (be_bytes 4 b)"
  by (simp add: be_bytes_u32 drop_bit_xor unsigned_xor_eq)

lemma word_bytes_xor: "length a = length b \<Longrightarrow> word_bytes (map2 (XOR) a b) = map2 (XOR) (word_bytes a) (word_bytes b)"
  by (induction a b rule: list_induct2) (simp_all add: word_bytes_def be_bytes_4_xor)

lemma word_bytes_be_word: "length bs = 4 * n \<Longrightarrow> word_bytes (map be_word (chunks_exact 4 bs)) = bs"
proof (induction n arbitrary: bs)
  case 0
  then show ?case by (simp add: chunks_exact.simps word_bytes_def)
next
  case (Suc n)
  then have "length (take 4 bs) = 4" "word_bytes (map be_word (chunks_exact 4 (drop 4 bs))) = drop 4 bs"
    by simp_all
  moreover from this(1) have "be_bytes 4 (be_word (take 4 bs) :: u32) = take 4 bs"
    using be_bytes_be_word[of "take 4 bs", where 'a = 32] by simp
  ultimately show ?case
    using Suc.prems by (subst chunks_exact.simps) (simp add: word_bytes_def)
qed

lemma pbkdf2_round_eq:
  assumes "hashes_ok H" and "length x = 32" and "length u = 8"
  shows "\<exists>x' u'. pbkdf2_round H (pad_state H password 0x36) (pad_state H password 0x5c) (x @ pad96, u, t) =
      (x' @ pad96, u', map2 (XOR) t u') \<and> length x' = 32 \<and> length u' = 8 \<and>
      word_bytes u' = hmac_full (h_c256 H) password (word_bytes u)"
proof -
  have ok: "c256_ok (h_c256 H)"
    using assms(1) by (simp add: hashes_ok_def)
  have st: "length (pad_state H password b) = 8" for b
    using ok by (simp add: pad_state_def Let_def c256_ok_def SHA256_IV_def)
  define s where "s = h_c256 H (pad_state H password 0x36) (word_bytes u @ pad96)"
  define u' where "u' = h_c256 H (pad_state H password 0x5c) (word_bytes s @ pad96)"
  have len: "length s = 8" "length u' = 8"
    using ok st by (simp_all add: s_def u'_def c256_ok_def)
  have "word_bytes u' = hmac_full (h_c256 H) password (word_bytes u)"
    unfolding u'_def s_def using assms(3) by (intro hmac_full_32[OF assms(1), symmetric]) (simp add: length_word_bytes)
  moreover have w: "write_at (y @ pad96) 0 z = z @ pad96" if "length y = 32" "length z = 32" for y z
    using that by (simp add: write_at_def)
  moreover have "length (word_bytes u) = 32" "length (word_bytes s) = 32"
    using assms(3) len by (simp_all add: length_word_bytes)
  ultimately show ?thesis
    using assms(2) len
    by (intro exI[of _ "word_bytes s"] exI[of _ u']) (simp add: pbkdf2_round_def s_def[symmetric] u'_def[symmetric])
qed

lemma pbkdf2_rounds:
  assumes "hashes_ok H" and "length x = 32" and "length u = 8"
  shows "\<exists>x' u' t'. (pbkdf2_round H (pad_state H password 0x36) (pad_state H password 0x5c) ^^ n) (x @ pad96, u, u) =
      (x' @ pad96, u', t') \<and> length x' = 32 \<and> length u' = 8 \<and> length t' = 8 \<and>
      word_bytes u' = rfc_u (hmac_full (h_c256 H) password) (word_bytes u) n \<and>
      word_bytes t' = rfc_t (hmac_full (h_c256 H) password) (word_bytes u) n"
proof (induction n)
  case 0
  then show ?case using assms by simp
next
  case (Suc n)
  let ?p = "hmac_full (h_c256 H) password" and ?r = "pbkdf2_round H (pad_state H password 0x36) (pad_state H password 0x5c)"
  obtain x1 u1 t1 where 1: "(?r ^^ n) (x @ pad96, u, u) = (x1 @ pad96, u1, t1)" "length x1 = 32" "length u1 = 8"
    "length t1 = 8" "word_bytes u1 = rfc_u ?p (word_bytes u) n" "word_bytes t1 = rfc_t ?p (word_bytes u) n"
    using Suc by blast
  obtain x2 u2 where 2: "?r (x1 @ pad96, u1, t1) = (x2 @ pad96, u2, map2 (XOR) t1 u2)" "length x2 = 32" "length u2 = 8"
    "word_bytes u2 = ?p (word_bytes u1)"
    using pbkdf2_round_eq[OF assms(1) 1(2,3)] by blast
  have "word_bytes (map2 (XOR) t1 u2) = rfc_t ?p (word_bytes u) (Suc n)"
    using 1 2 by (simp add: word_bytes_xor)
  then show ?case
    using 1 2 by simp
qed

lemma pbkdf2_chunk_eq:
  assumes "hashes_ok H" and "length x = 32"
  shows "\<exists>x'. pbkdf2_chunk H password salt c (pad_state H password 0x36) (pad_state H password 0x5c) (of_nat i) (x @ pad96) =
      (rfc_block (hmac_full (h_c256 H) password) salt (unat c) i, x' @ pad96) \<and> length x' = 32"
proof -
  let ?first = "h_hmac H password (salt @ be_bytes 4 (of_nat i + 1 :: u32))"
  have h: "h_hmac H = hmac_full (h_c256 H)" and ok: "c256_ok (h_c256 H)"
    using assms(1) by (simp_all add: hashes_ok_def)
  then have "length ?first = 4 * 8"
    by (simp add: hmac_full_def hmac_ref_length)
  then have w: "word_bytes (map be_word (chunks_exact 4 ?first)) = ?first"
    by (rule word_bytes_be_word)
  then have "length (map be_word (chunks_exact 4 ?first) :: u32 list) = 8"
    using length_word_bytes[of "map be_word (chunks_exact 4 ?first)"] \<open>length ?first = 4 * 8\<close> by simp
  from pbkdf2_rounds[OF assms this, where password = password and n = "unat c - 1"] show ?thesis
    unfolding w by (auto simp: pbkdf2_chunk_def rfc_block_def h add.commute)
qed

lemma length_rfc_block:
  assumes "\<And>m. length (prf m) = 32"
  shows "length (rfc_block prf salt c i) = 32"
proof -
  have u: "length (rfc_u prf first n) = 32" if "length first = 32" for first n
    using that assms by (induction n) auto
  have "length (rfc_t prf first n) = 32" if "length first = 32" for first n
    using that u[OF that, of "Suc _"] by (induction n) (auto simp del: rfc_u.simps)
  then show ?thesis
    using assms by (simp add: rfc_block_def)
qed

lemma pbkdf2_chunks_eq:
  assumes "hashes_ok H" and "length x = 32"
  shows "pbkdf2_chunks H password salt c (pad_state H password 0x36) (pad_state H password 0x5c) (of_nat i) (x @ pad96) n =
    take n (concat (map (rfc_block (hmac_full (h_c256 H) password) salt (unat c)) [i..<i + (n + 31) div 32]))"
  using assms(2)
proof (induction n arbitrary: i x rule: less_induct)
  case (less n)
  show ?case
  proof (cases "n = 0")
    case True
    then show ?thesis by (simp add: pbkdf2_chunks.simps)
  next
    case False
    let ?b = "rfc_block (hmac_full (h_c256 H) password) salt (unat c)"
    obtain x' where x': "pbkdf2_chunk H password salt c (pad_state H password 0x36) (pad_state H password 0x5c) (of_nat i) (x @ pad96) =
        (?b i, x' @ pad96)" "length x' = 32"
      using pbkdf2_chunk_eq[OF assms(1) less.prems] by blast
    have len: "length (?b i) = 32"
      using assms(1) by (intro length_rfc_block) (simp add: hashes_ok_def hmac_full_def hmac_ref_length)
    have k: "(n + 31) div 32 = Suc ((n - 32 + 31) div 32)"
      using False by (cases "n \<le> 32") (auto simp: div_nat_eqI le_div_geq)
    have IH: "pbkdf2_chunks H password salt c (pad_state H password 0x36) (pad_state H password 0x5c) (of_nat i + 1) (x' @ pad96) (n - 32) =
        take (n - 32) (concat (map ?b [Suc i..<Suc i + (n - 32 + 31) div 32]))"
      using less.IH[of "n - 32" x' "Suc i"] False x'(2) by (simp add: add.commute)
    have "[i..<i + (n + 31) div 32] = i # [Suc i..<Suc i + (n - 32 + 31) div 32]"
      unfolding k by (simp add: upt_rec)
    then show ?thesis
      using False len by (subst pbkdf2_chunks.simps) (simp add: x'(1) IH min_def)
  qed
qed

lemma nat_be_add: "nat_be (m + n) v = nat_be m (v div 256 ^ n) @ nat_be n v"
  by (induction n arbitrary: v) (simp_all add: div_mult2_eq)

lemma nat_be_0: "nat_be n 0 = replicate n 0"
  by (induction n) (simp_all add: replicate_append_same)

lemma pbkdf2_eq:
  assumes "hashes_ok H"
  shows "pbkdf2_hmac_sha256 H password salt c n = pbkdf2_ref (hmac_full (h_c256 H) password) salt (unat c) n"
proof -
  have "be_bytes 8 (768 :: u64) = replicate 6 0 @ be_bytes 2 (768 :: u16)"
    using nat_be_add[of 6 2 768] by (simp add: be_bytes_def nat_be_0)
  then have "write_at (write_at (replicate 64 0) 32 [0x80]) 62 (be_bytes 2 (768 :: u16)) = replicate 32 0 @ pad96"
    by (simp add: write_at_def sha_pad_def flip: replicate_add)
  then show ?thesis
    using pbkdf2_chunks_eq[OF assms, of "replicate 32 0" password salt c 0 n]
    by (simp add: pbkdf2_hmac_sha256_def pbkdf2_ref_def Let_def)
qed

section \<open>The prover's secrets\<close>

definition MIN_ITERATIONS :: u32 where "MIN_ITERATIONS = 1000"
definition MAX_ITERATIONS :: u32 where "MAX_ITERATIONS = 2000000"

definition TWO_POW_256_MOD_N :: bytes where
  "TWO_POW_256_MOD_N = [0, 0, 0, 0, 0xff, 0xff, 0xff, 0xff, 0, 0, 0, 0, 0, 0, 0, 0,
     0x43, 0x19, 0x05, 0x52, 0x58, 0xe8, 0x61, 0x7b, 0x0c, 0x46, 0x35, 0x3d, 0x03, 0x9c, 0xda, 0xaf]"

definition reduce_40 :: "('s, 'p) curve \<Rightarrow> bytes \<Rightarrow> 's" where
  "reduce_40 C bs =
     (let lo = take 32 (drop 8 bs); hi = take 8 bs; r = sc_reduce C TWO_POW_256_MOD_N
      in sc_add C (sc_reduce C lo) (sc_mul C (sc_from_u64 C (be_word hi)) r))"

record 's secrets =
  sec_w0 :: 's
  sec_w1 :: 's

definition secrets_derive :: "('s, 'p) curve \<Rightarrow> hashes \<Rightarrow> bytes \<Rightarrow> bytes \<Rightarrow> u32 \<Rightarrow> err + 's secrets" where
  "secrets_derive C H pw salt iterations =
     (if \<not> (MIN_ITERATIONS \<le> iterations \<and> iterations \<le> MAX_ITERATIONS) then Inl InvalidFormat
      else
        let password = replicate (8 + CODE_SYMBOLS + 16) 0;
            password = write_at password 0 (le_bytes 8 (of_nat (length pw) :: u64));
            password = write_at password 8 pw;
            ws = pbkdf2_hmac_sha256 H password salt iterations 80;
            w0 = reduce_40 C (take 40 ws);
            w1 = reduce_40 C (drop 40 ws)
        in if sc_is_zero C w0 \<or> sc_is_zero C w1 then Inl Crypto
           else Inr \<lparr>sec_w0 = w0, sec_w1 = w1\<rparr>)"

section \<open>The stored verifier\<close>

definition SHARE_LEN :: nat where "SHARE_LEN = 65"
definition SETUP_V_LEN :: nat where "SETUP_V_LEN = 1 + 32 + 65 + SALT_LEN + 4"
definition RECORD_VERSION :: u8 where "RECORD_VERSION = 1"

text \<open>\<open>spake::point\<close>: an uncompressed point of the curve, not the identity.\<close>

definition point :: "('s, 'p) curve \<Rightarrow> bytes \<Rightarrow> err + 'p" where
  "point C bs =
     (if length bs \<noteq> SHARE_LEN \<or> bs ! 0 \<noteq> 0x04 then Inl InvalidFormat
      else case pt_decode C bs of
        None \<Rightarrow> Inl InvalidFormat
      | Some p \<Rightarrow> if pt_is_identity C p then Inl InvalidFormat else Inr p)"

record ('s, 'p) verifier =
  vf_w0 :: 's
  vf_l :: 'p
  vf_salt :: bytes
  vf_iterations :: u32

definition verifier_from_secrets :: "('s, 'p) curve \<Rightarrow> 's secrets \<Rightarrow> bytes \<Rightarrow> u32 \<Rightarrow> ('s, 'p) verifier" where
  "verifier_from_secrets C sec salt iterations =
     \<lparr>vf_w0 = sec_w0 sec, vf_l = pt_mul C (pt_generator C) (sec_w1 sec), vf_salt = salt, vf_iterations = iterations\<rparr>"

definition verifier_encode :: "('s, 'p) curve \<Rightarrow> ('s, 'p) verifier \<Rightarrow> bytes" where
  "verifier_encode C v =
     (let out = replicate SETUP_V_LEN 0;
          out = write_at out 0 [RECORD_VERSION];
          out = write_at out 1 (sc_to_bytes C (vf_w0 v));
          out = write_at out 33 (pt_encode C (vf_l v));
          out = write_at out 98 (vf_salt v)
      in write_at out 114 (be_bytes 4 (vf_iterations v)))"

definition verifier_decode :: "('s, 'p) curve \<Rightarrow> bytes \<Rightarrow> err + ('s, 'p) verifier" where
  "verifier_decode C r =
     (if length r \<noteq> SETUP_V_LEN \<or> r ! 0 \<noteq> RECORD_VERSION then Inl InvalidFormat
      else rbind (ok_or (sc_from_repr C (take 32 (drop 1 r))) InvalidFormat) (\<lambda>w0.
        if sc_is_zero C w0 then Inl InvalidFormat
        else rbind (point C (take 65 (drop 33 r))) (\<lambda>l.
          let salt = take 16 (drop 98 r); iterations = be_word [r ! 114, r ! 115, r ! 116, r ! 117] in
          if \<not> (MIN_ITERATIONS \<le> iterations \<and> iterations \<le> MAX_ITERATIONS) then Inl InvalidFormat
          else Inr \<lparr>vf_w0 = w0, vf_l = l, vf_salt = salt, vf_iterations = iterations\<rparr>)))"

text \<open>\<open>subtle\<close>'s \<open>ct_eq\<close> on slices is equality.\<close>

definition verifier_matches :: "('s, 'p) curve \<Rightarrow> ('s, 'p) verifier \<Rightarrow> 's secrets \<Rightarrow> bool" where
  "verifier_matches C v sec =
     (let l = pt_mul C (pt_generator C) (sec_w1 sec);
          same_w0 = (sc_to_bytes C (vf_w0 v) = sc_to_bytes C (sec_w0 sec));
          same_l = (pt_encode C (vf_l v) = pt_encode C l)
      in same_w0 \<and> same_l)"

text \<open>What the \<open>p256\<close> crate promises of encodings: a scalar is 32 bytes and is read from them, a point
  other than the identity is 65 bytes with the tag 4 and is read from them.\<close>

definition encodings_ok :: "('s, 'p) curve \<Rightarrow> bool" where
  "encodings_ok C \<longleftrightarrow>
     (\<forall>s. length (sc_to_bytes C s) = 32 \<and> sc_from_repr C (sc_to_bytes C s) = Some s) \<and>
     (\<forall>p. \<not> pt_is_identity C p \<longrightarrow>
        length (pt_encode C p) = 65 \<and> pt_encode C p ! 0 = 4 \<and> pt_decode C (pt_encode C p) = Some p)"

definition verifier_wf :: "('s, 'p) curve \<Rightarrow> ('s, 'p) verifier \<Rightarrow> bool" where
  "verifier_wf C v \<longleftrightarrow> \<not> sc_is_zero C (vf_w0 v) \<and> \<not> pt_is_identity C (vf_l v) \<and> length (vf_salt v) = SALT_LEN \<and>
     MIN_ITERATIONS \<le> vf_iterations v \<and> vf_iterations v \<le> MAX_ITERATIONS"

lemma verifier_decode_length: "is_ok (verifier_decode C v) \<Longrightarrow> length v = SETUP_V_LEN"
  by (auto simp: verifier_decode_def split: if_splits)

section \<open>The record and its encoding\<close>

lemmas verifier_consts = SETUP_V_LEN_def SALT_LEN_def RECORD_VERSION_def

lemma verifier_encode_eq:
  assumes "encodings_ok C" and "verifier_wf C v"
  shows "verifier_encode C v =
    RECORD_VERSION # sc_to_bytes C (vf_w0 v) @ pt_encode C (vf_l v) @ vf_salt v @ be_bytes 4 (vf_iterations v)"
proof -
  let ?w = "sc_to_bytes C (vf_w0 v)" and ?l = "pt_encode C (vf_l v)"
  have len: "length ?w = 32" "length ?l = 65" "length (vf_salt v) = 16"
    using assms by (simp_all add: encodings_ok_def verifier_wf_def SALT_LEN_def)
  have r: "replicate SETUP_V_LEN (0 :: u8) =
      [0] @ replicate 32 0 @ replicate 65 0 @ replicate 16 0 @ replicate 4 0"
    by (simp only: verifier_consts replicate_add append_assoc) simp
  show ?thesis
    unfolding verifier_encode_def r Let_def
    by (simp add: write_at_walk len)
qed

lemma verifier_decode_encode:
  assumes "encodings_ok C" and "verifier_wf C v"
  shows "verifier_decode C (verifier_encode C v) = Inr v"
proof -
  let ?w = "sc_to_bytes C (vf_w0 v)" and ?l = "pt_encode C (vf_l v)"
  let ?r = "RECORD_VERSION # ?w @ ?l @ vf_salt v @ be_bytes 4 (vf_iterations v)"
  have len: "length ?w = 32" "length ?l = 65" "length (vf_salt v) = 16"
    and p: "point C ?l = Inr (vf_l v)"
    using assms by (simp_all add: encodings_ok_def verifier_wf_def SALT_LEN_def point_def SHARE_LEN_def)
  have d: "drop 1 ?r = ?w @ ?l @ vf_salt v @ be_bytes 4 (vf_iterations v)"
    "drop 33 ?r = ?l @ vf_salt v @ be_bytes 4 (vf_iterations v)" "drop 98 ?r = vf_salt v @ be_bytes 4 (vf_iterations v)"
    using len by (simp_all add: drop_Cons')
  have "?r ! (114 + k) = be_bytes 4 (vf_iterations v) ! k" for k
    using len by (simp add: nth_append)
  from this[of 0] this[of 1] this[of 2] this[of 3]
  have it: "[?r ! 114, ?r ! 115, ?r ! 116, ?r ! 117] = be_bytes 4 (vf_iterations v)"
    by (simp add: be_bytes_u32 numeral_2_eq_2 numeral_3_eq_3)
  show ?thesis
    unfolding verifier_encode_eq[OF assms] verifier_decode_def d it
    using assms len p by (simp add: verifier_wf_def encodings_ok_def verifier_consts Let_def)
qed

text \<open>The order of P-256, and scalars as numbers modulo it.\<close>

definition p256_order :: nat where
  "p256_order = 0xffffffff00000000ffffffffffffffffbce6faada7179e84f3b9cac2fc632551"

definition scalars_ok :: "('s, 'p) curve \<Rightarrow> ('s \<Rightarrow> nat) \<Rightarrow> bool" where
  "scalars_ok C val \<longleftrightarrow>
     (\<forall>bs. length bs = 32 \<longrightarrow> val (sc_reduce C bs) = be_nat bs mod p256_order) \<and>
     (\<forall>w. val (sc_from_u64 C w) = unat w mod p256_order) \<and>
     (\<forall>a b. val (sc_add C a b) = (val a + val b) mod p256_order) \<and>
     (\<forall>a b. val (sc_mul C a b) = (val a * val b) mod p256_order)"

lemma be_nat_append: "be_nat (a @ b) = be_nat a * 256 ^ length b + be_nat b"
proof (induction b rule: rev_induct)
  case (snoc x b)
  have "be_nat (a @ b @ [x]) = be_nat ((a @ b) @ [x])"
    by simp
  then show ?case
    unfolding be_nat_snoc by (simp add: snoc.IH algebra_simps)
qed simp

lemma two_pow_256: "be_nat TWO_POW_256_MOD_N = 2 ^ 256 mod p256_order" "length TWO_POW_256_MOD_N = 32"
  by (simp_all add: TWO_POW_256_MOD_N_def be_nat_def p256_order_def)

lemma reduce_40_eq:
  assumes "scalars_ok C val" and "length bs = 40"
  shows "val (reduce_40 C bs) = be_nat bs mod p256_order"
proof -
  let ?hi = "take 8 bs" and ?lo = "drop 8 bs" and ?n = p256_order
  have len: "length ?hi = 8" "length ?lo = 32"
    using assms(2) by simp_all
  have hi: "unat (be_word ?hi :: u64) = be_nat ?hi"
    using be_nat_bound[of ?hi] len(1) by (simp add: be_word_def unat_of_nat)
  have "val (reduce_40 C bs) = (be_nat ?lo mod ?n + (be_nat ?hi mod ?n * (2 ^ 256 mod ?n mod ?n)) mod ?n) mod ?n"
    using assms len by (simp add: reduce_40_def scalars_ok_def Let_def hi two_pow_256 del: mod_mod_trivial)
  also have "\<dots> = (be_nat ?lo + be_nat ?hi * 2 ^ 256) mod ?n"
    by (simp only: mod_mod_trivial mod_mult_eq mod_add_eq)
  also have "\<dots> = be_nat (?hi @ ?lo) mod ?n"
    unfolding be_nat_append len by (simp add: add.commute)
  finally show ?thesis by simp
qed

section \<open>Concrete instances\<close>

text \<open>Instances of the external arithmetic for the witnesses: scalars and points are bytes, a point is its
  last byte, every derived scalar is 3, and the compression function reverses the state.\<close>

definition toy_curve :: "(u8, u8) curve" where
  "toy_curve = \<lparr>sc_from_repr = \<lambda>bs. if take 31 bs = replicate 31 0 then Some (last bs) else None,
     sc_to_bytes = \<lambda>s. replicate 31 0 @ [s], sc_is_zero = \<lambda>s. s = 0, sc_reduce = \<lambda>_. 3, sc_from_u64 = ucast,
     sc_add = \<lambda>a b. a, sc_mul = (*), pt_decode = \<lambda>bs. Some (last bs), pt_encode = \<lambda>p. 4 # replicate 63 0 @ [p],
     pt_is_identity = \<lambda>p. p = 0, pt_generator = 1, pt_add = (+), pt_sub = (-), pt_mul = (*)\<rparr>"

definition toy_hashes :: hashes where
  "toy_hashes = (let c = (\<lambda>st b. rev st) in
     \<lparr>h_c256 = c, h_sha256 = sha256_of c, h_hmac = hmac_full c, h_hkdf = \<lambda>k i n. replicate n (of_nat (length i))\<rparr>)"

lemma toy_encodings_ok: "encodings_ok toy_curve"
  by (simp add: encodings_ok_def toy_curve_def)

lemma toy_hashes_ok: "hashes_ok toy_hashes"
  by (simp add: hashes_ok_def toy_hashes_def c256_ok_def Let_def)

section \<open>Properties\<close>

text \<open>C27: The PBKDF2 loop, on two midstates and one pre-padded block carried from chunk to chunk, computes
  PBKDF2 of RFC 8018 over HMAC-SHA256, for every password, salt, count and length.\<close>

theorem pbkdf2_is_rfc8018:
  assumes "hashes_ok H"
  shows "pbkdf2_hmac_sha256 H password salt c n = pbkdf2_ref (hmac_full (h_c256 H) password) salt (unat c) n"
  using assms by (rule pbkdf2_eq)

theorem pbkdf2_is_rfc8018_witness:
  "pbkdf2_hmac_sha256 toy_hashes (replicate 70 3) [1, 2] 1000 80 =
     pbkdf2_ref (hmac_full (h_c256 toy_hashes) (replicate 70 3)) [1, 2] (unat (1000 :: u32)) 80"
  by (rule pbkdf2_is_rfc8018) (rule toy_hashes_ok)

lemma verifier_round_trip:
  assumes "encodings_ok C" and "verifier_wf C v"
  shows "verifier_decode C (verifier_encode C v) = Inr v"
  using assms by (rule verifier_decode_encode)

end
