(* ===== verification/Setup_Spake.thy ===== *)
theory Setup_Spake
  imports Setup_Verifier
begin

text \<open>
  SPAKE2+ over P-256 (\<open>crates/rusty_esp_signal-core/src/setup/spake.rs\<close>): the key schedule, the browser's
  \<open>Prover\<close> and the device's \<open>Response\<close>; and the sealing of what follows (\<open>setup/seal.rs\<close>): one key per
  direction, nonces counted from 0. The cipher ChaCha20-Poly1305 (crate \<open>chacha20poly1305\<close>) is the
  argument \<open>aead\<close>. A function that draws random bytes takes \<open>fill\<close>, the generator's method, and its state.
\<close>

section \<open>Sealing\<close>

record aead =
  ae_encrypt :: "bytes \<Rightarrow> bytes \<Rightarrow> bytes \<Rightarrow> bytes \<Rightarrow> (bytes \<times> bytes) option"
  ae_decrypt :: "bytes \<Rightarrow> bytes \<Rightarrow> bytes \<Rightarrow> bytes \<Rightarrow> bytes \<Rightarrow> bytes option"

definition SEAL_TAG_LEN :: nat where "SEAL_TAG_LEN = 16"

definition nonce :: "u64 \<Rightarrow> bytes" where
  "nonce s = write_at (replicate 12 0) 4 (be_bytes 8 s)"

record sealer =
  se_key :: bytes
  se_seq :: u64

record opener =
  op_key :: bytes
  op_seq :: u64

definition sealer_new :: "bytes \<Rightarrow> sealer" where
  "sealer_new key = \<lparr>se_key = key, se_seq = 0\<rparr>"

definition opener_new :: "bytes \<Rightarrow> opener" where
  "opener_new key = \<lparr>op_key = key, op_seq = 0\<rparr>"

definition checked_add_u64 :: "u64 \<Rightarrow> u64 \<Rightarrow> u64 option" where
  "checked_add_u64 a b = (if unat a + unat b < 2 ^ 64 then Some (a + b) else None)"

text \<open>The result, the sealer and the buffer as they are left. A cipher that refuses leaves the copied
  plaintext in the buffer.\<close>

definition sealer_seal :: "aead \<Rightarrow> sealer \<Rightarrow> bytes \<Rightarrow> bytes \<Rightarrow> bytes \<Rightarrow> (err + nat) \<times> sealer \<times> bytes" where
  "sealer_seal A s header plaintext out =
     (let needed = length plaintext + SEAL_TAG_LEN in
      if length out < needed then (Inl (BufferTooSmall needed), s, out)
      else case checked_add_u64 (se_seq s) 1 of
        None \<Rightarrow> (Inl Denied, s, out)
      | Some nxt \<Rightarrow>
          (case ae_encrypt A (se_key s) (nonce (se_seq s)) header plaintext of
             None \<Rightarrow> (Inl Crypto, s, write_at out 0 plaintext)
           | Some (body, tag) \<Rightarrow>
               (Inr needed, s\<lparr>se_seq := nxt\<rparr>, write_at (write_at out 0 body) (length plaintext) tag)))"

definition opener_open :: "aead \<Rightarrow> opener \<Rightarrow> bytes \<Rightarrow> bytes \<Rightarrow> bytes \<Rightarrow> (err + nat) \<times> opener \<times> bytes" where
  "opener_open A o' header sealed out =
     (if length sealed < SEAL_TAG_LEN then (Inl InvalidFormat, o', out)
      else
        let len = length sealed - SEAL_TAG_LEN in
        if length out < len then (Inl (BufferTooSmall len), o', out)
        else case checked_add_u64 (op_seq o') 1 of
          None \<Rightarrow> (Inl Denied, o', out)
        | Some nxt \<Rightarrow>
            (case ae_decrypt A (op_key o') (nonce (op_seq o')) header (take len sealed) (drop len sealed) of
               None \<Rightarrow> (Inl Crypto, o', write_at out 0 (replicate len 0))
             | Some body \<Rightarrow> (Inr len, o'\<lparr>op_seq := nxt\<rparr>, write_at out 0 body)))"

section \<open>Points, scalars and the key schedule\<close>

definition SPAKE_CONFIRM_LEN :: nat where "SPAKE_CONFIRM_LEN = 32"
definition SIG_LEN :: nat where "SIG_LEN = 64"

definition M_BYTES :: bytes where
  "M_BYTES =
    [0x04, 0x88, 0x6e, 0x2f, 0x97, 0xac, 0xe4, 0x6e, 0x55, 0xba, 0x9d, 0xd7, 0x24, 0x25, 0x79, 0xf2, 0x99,
     0x3b, 0x64, 0xe1, 0x6e, 0xf3, 0xdc, 0xab, 0x95, 0xaf, 0xd4, 0x97, 0x33, 0x3d, 0x8f, 0xa1, 0x2f, 0x5f,
     0xf3, 0x55, 0x16, 0x3e, 0x43, 0xce, 0x22, 0x4e, 0x0b, 0x0e, 0x65, 0xff, 0x02, 0xac, 0x8e, 0x5c, 0x7b,
     0xe0, 0x94, 0x19, 0xc7, 0x85, 0xe0, 0xca, 0x54, 0x7d, 0x55, 0xa1, 0x2e, 0x2d, 0x20]"

definition N_BYTES :: bytes where
  "N_BYTES =
    [0x04, 0xd8, 0xbb, 0xd6, 0xc6, 0x39, 0xc6, 0x29, 0x37, 0xb0, 0x4d, 0x99, 0x7f, 0x38, 0xc3, 0x77, 0x07,
     0x19, 0xc6, 0x29, 0xd7, 0x01, 0x4d, 0x49, 0xa2, 0x4b, 0x4f, 0x98, 0xba, 0xa1, 0x29, 0x2b, 0x49, 0x07,
     0xd6, 0x0a, 0xa6, 0xbf, 0xad, 0xe4, 0x50, 0x08, 0xa6, 0x36, 0x33, 0x7f, 0x51, 0x68, 0xc6, 0x4d, 0x9b,
     0xd3, 0x60, 0x34, 0x80, 0x8c, 0xd5, 0x64, 0x49, 0x0b, 0x1e, 0x65, 0x6e, 0xdb, 0xe7]"

definition INFO_B2D :: bytes where "INFO_B2D = [106, 97, 110, 117, 115, 45, 115, 101, 116, 117, 112, 45, 118, 49, 32, 98, 50, 100]" \<comment> \<open>janus-setup-v1 b2d\<close>
definition INFO_D2B :: bytes where "INFO_D2B = [106, 97, 110, 117, 115, 45, 115, 101, 116, 117, 112, 45, 118, 49, 32, 100, 50, 98]" \<comment> \<open>janus-setup-v1 d2b\<close>

definition point_bytes :: "('s, 'p) curve \<Rightarrow> 'p \<Rightarrow> err + bytes" where
  "point_bytes C p = (if pt_is_identity C p then Inl Crypto else Inr (pt_encode C p))"

definition spake_m :: "('s, 'p) curve \<Rightarrow> 'p" where "spake_m C = projr (point C M_BYTES)"
definition spake_n :: "('s, 'p) curve \<Rightarrow> 'p" where "spake_n C = projr (point C N_BYTES)"

definition scalar :: "('s, 'p) curve \<Rightarrow> bytes \<Rightarrow> err + 's" where
  "scalar C bs =
     rbind (ok_or (sc_from_repr C bs) InvalidFormat) (\<lambda>s. if sc_is_zero C s then Inl InvalidFormat else Inr s)"

fun random_scalar_tries :: "('s, 'p) curve \<Rightarrow> ('g \<Rightarrow> nat \<Rightarrow> (err + bytes) \<times> 'g) \<Rightarrow> nat \<Rightarrow> 'g \<Rightarrow> (err + 's) \<times> 'g" where
  "random_scalar_tries C fill 0 g = (Inl Crypto, g)"
| "random_scalar_tries C fill (Suc n) g =
     (case fill g 32 of
        (Inl e, g) \<Rightarrow> (Inl e, g)
      | (Inr bs, g) \<Rightarrow> (case scalar C bs of Inr s \<Rightarrow> (Inr s, g) | Inl _ \<Rightarrow> random_scalar_tries C fill n g))"

definition random_scalar :: "('s, 'p) curve \<Rightarrow> ('g \<Rightarrow> nat \<Rightarrow> (err + bytes) \<times> 'g) \<Rightarrow> 'g \<Rightarrow> (err + 's) \<times> 'g" where
  "random_scalar C fill g = random_scalar_tries C fill 16 g"

record spake_keys =
  sk_confirm_p :: bytes
  sk_confirm_v :: bytes
  sk_shared :: bytes

definition lp8 :: "bytes \<Rightarrow> bytes" where
  "lp8 part = le_bytes 8 (of_nat (length part) :: u64) @ part"

definition CONFIRMATION_KEYS :: bytes where "CONFIRMATION_KEYS = [67, 111, 110, 102, 105, 114, 109, 97, 116, 105, 111, 110, 75, 101, 121, 115]" \<comment> \<open>ConfirmationKeys\<close>
definition SHARED_KEY :: bytes where "SHARED_KEY = [83, 104, 97, 114, 101, 100, 75, 101, 121]" \<comment> \<open>SharedKey\<close>

definition schedule ::
  "('s, 'p) curve \<Rightarrow> hashes \<Rightarrow> bytes \<Rightarrow> bytes \<Rightarrow> bytes \<Rightarrow> bytes \<Rightarrow> bytes \<Rightarrow> bytes \<Rightarrow> bytes \<Rightarrow> 's \<Rightarrow> spake_keys" where
  "schedule C H context id_p id_v share_p share_v z v w0 =
     (let tt = concat (map lp8 [context, id_p, id_v, M_BYTES, N_BYTES, share_p, share_v, z, v, sc_to_bytes C w0]);
          k_main = h_sha256 H tt;
          confirmation = h_hkdf H k_main CONFIRMATION_KEYS 64
      in \<lparr>sk_confirm_p = take 32 confirmation, sk_confirm_v = drop 32 confirmation,
          sk_shared = h_hkdf H k_main SHARED_KEY 32\<rparr>)"

definition spake_mac :: "hashes \<Rightarrow> bytes \<Rightarrow> bytes \<Rightarrow> bytes" where
  "spake_mac H key share = h_hmac H key share"

definition direction_key :: "hashes \<Rightarrow> bytes \<Rightarrow> bytes \<Rightarrow> bytes" where
  "direction_key H shared info = h_hkdf H shared info 32"

text \<open>\<open>Established\<close>, already split into its sealer and its opener.\<close>

definition established_new :: "hashes \<Rightarrow> bytes \<Rightarrow> bool \<Rightarrow> sealer \<times> opener" where
  "established_new H shared browser =
     (let b2d = direction_key H shared INFO_B2D;
          d2b = direction_key H shared INFO_D2B;
          (send, recv) = (if browser then (b2d, d2b) else (d2b, b2d))
      in (sealer_new send, opener_new recv))"

section \<open>The browser: the prover\<close>

record 's prover =
  pv_secrets :: "'s secrets"
  pv_x :: 's
  pv_share_p :: bytes
  pv_context :: bytes

definition prover_with_scalar :: "('s, 'p) curve \<Rightarrow> 's secrets \<Rightarrow> bytes \<Rightarrow> 's \<Rightarrow> err + 's prover" where
  "prover_with_scalar C sec context x =
     rbind (point_bytes C (pt_add C (pt_mul C (pt_generator C) x) (pt_mul C (spake_m C) (sec_w0 sec)))) (\<lambda>share_p.
       Inr \<lparr>pv_secrets = sec, pv_x = x, pv_share_p = share_p, pv_context = context\<rparr>)"

definition prover_start ::
  "('s, 'p) curve \<Rightarrow> ('g \<Rightarrow> nat \<Rightarrow> (err + bytes) \<times> 'g) \<Rightarrow> 's secrets \<Rightarrow> bytes \<Rightarrow> 'g \<Rightarrow> (err + 's prover) \<times> 'g" where
  "prover_start C fill sec context g =
     (case random_scalar C fill g of (Inl e, g) \<Rightarrow> (Inl e, g) | (Inr x, g) \<Rightarrow> (prover_with_scalar C sec context x, g))"

definition prover_keys ::
  "('s, 'p) curve \<Rightarrow> hashes \<Rightarrow> bytes \<Rightarrow> bytes \<Rightarrow> bytes \<Rightarrow> 's secrets \<Rightarrow> 's \<Rightarrow> bytes \<Rightarrow> bytes \<Rightarrow> err + spake_keys" where
  "prover_keys C H context id_p id_v sec x share_p share_v =
     rbind (point C share_v) (\<lambda>y.
       if length share_v \<noteq> SHARE_LEN then Inl InvalidFormat
       else
         let t = pt_sub C y (pt_mul C (spake_n C) (sec_w0 sec)) in
         rbind (point_bytes C (pt_mul C t x)) (\<lambda>z.
           rbind (point_bytes C (pt_mul C t (sec_w1 sec))) (\<lambda>v.
             Inr (schedule C H context id_p id_v share_p share_v z v (sec_w0 sec)))))"

text \<open>The comparison is \<open>subtle\<close>'s, which is equality.\<close>

definition prover_finish ::
  "('s, 'p) curve \<Rightarrow> hashes \<Rightarrow> 's prover \<Rightarrow> bytes \<Rightarrow> bytes \<Rightarrow> err + (bytes \<times> (sealer \<times> opener))" where
  "prover_finish C H pv share_v confirm_v =
     rbind (prover_keys C H (pv_context pv) [] [] (pv_secrets pv) (pv_x pv) (pv_share_p pv) share_v) (\<lambda>keys.
       if length share_v \<noteq> SHARE_LEN then Inl InvalidFormat
       else
         let want_v = spake_mac H (sk_confirm_v keys) (pv_share_p pv) in
         if want_v \<noteq> confirm_v then Inl Crypto
         else Inr (spake_mac H (sk_confirm_p keys) share_v, established_new H (sk_shared keys) True))"

section \<open>The device: the verifier\<close>

record response =
  rs_share_v :: bytes
  rs_confirm_v :: bytes
  rs_expect_p :: bytes
  rs_shared :: bytes

definition respond_inner ::
  "('s, 'p) curve \<Rightarrow> hashes \<Rightarrow> ('s, 'p) verifier \<Rightarrow> bytes \<Rightarrow> bytes \<Rightarrow> bytes \<Rightarrow> bytes \<Rightarrow> 's \<Rightarrow> err + response" where
  "respond_inner C H verifier context id_p id_v share_p y =
     rbind (point C share_p) (\<lambda>x.
       if length share_p \<noteq> SHARE_LEN then Inl InvalidFormat
       else rbind (point_bytes C (pt_add C (pt_mul C (pt_generator C) y) (pt_mul C (spake_n C) (vf_w0 verifier)))) (\<lambda>share_v.
         rbind (point_bytes C (pt_mul C (pt_sub C x (pt_mul C (spake_m C) (vf_w0 verifier))) y)) (\<lambda>z.
           rbind (point_bytes C (pt_mul C (vf_l verifier) y)) (\<lambda>v.
             let keys = schedule C H context id_p id_v share_p share_v z v (vf_w0 verifier)
             in Inr \<lparr>rs_share_v = share_v, rs_confirm_v = spake_mac H (sk_confirm_v keys) share_p,
                     rs_expect_p = spake_mac H (sk_confirm_p keys) share_v, rs_shared = sk_shared keys\<rparr>))))"

definition spake_respond ::
  "('s, 'p) curve \<Rightarrow> hashes \<Rightarrow> ('g \<Rightarrow> nat \<Rightarrow> (err + bytes) \<times> 'g) \<Rightarrow> ('s, 'p) verifier \<Rightarrow> bytes \<Rightarrow> bytes \<Rightarrow> 'g \<Rightarrow>
   (err + response) \<times> 'g" where
  "spake_respond C H fill verifier context share_p g =
     (case random_scalar C fill g of
        (Inl e, g) \<Rightarrow> (Inl e, g)
      | (Inr y, g) \<Rightarrow> (respond_inner C H verifier context [] [] share_p y, g))"

definition response_confirm :: "hashes \<Rightarrow> response \<Rightarrow> bytes \<Rightarrow> err + (sealer \<times> opener)" where
  "response_confirm H r confirm_p =
     (if rs_expect_p r = confirm_p then Inr (established_new H (rs_shared r) False) else Inl Crypto)"

section \<open>Sealed channels\<close>

text \<open>What the code relies on: a sealed text is as long as its plaintext, the tag 16 bytes; what was
  encrypted decrypts; what decrypts is what encryption gives; and a message is never too long to seal.\<close>

definition aead_ok :: "aead \<Rightarrow> bool" where
  "aead_ok A \<longleftrightarrow>
     (\<forall>k n h p c t. ae_encrypt A k n h p = Some (c, t) \<longrightarrow>
        length c = length p \<and> length t = SEAL_TAG_LEN \<and> ae_decrypt A k n h c t = Some p) \<and>
     (\<forall>k n h p c t. ae_decrypt A k n h c t = Some p \<longrightarrow> ae_encrypt A k n h p = Some (c, t)) \<and>
     (\<forall>k n h p. length p \<le> MAX_MESSAGE \<longrightarrow> ae_encrypt A k n h p \<noteq> None)"

lemma aead_encrypted:
  "aead_ok A \<Longrightarrow> ae_encrypt A k n h p = Some (c, t) \<Longrightarrow>
     length c = length p \<and> length t = SEAL_TAG_LEN \<and> ae_decrypt A k n h c t = Some p"
  unfolding aead_ok_def by blast

lemma aead_decrypted: "aead_ok A \<Longrightarrow> ae_decrypt A k n h c t = Some p \<Longrightarrow> ae_encrypt A k n h p = Some (c, t)"
  unfolding aead_ok_def by blast

lemma aead_total: "aead_ok A \<Longrightarrow> length p \<le> MAX_MESSAGE \<Longrightarrow> \<exists>c t. ae_encrypt A k n h p = Some (c, t)"
  unfolding aead_ok_def by (metis option.exhaust prod.exhaust)

text \<open>The interface: one end sends a payload under a header, the other takes frames; \<open>paired\<close> holds of two
  ends at the same place of the stream. The second law is authenticity: nothing is taken but what the
  sender at that place would send.\<close>

locale sealed_channel =
  fixes send :: "'a \<Rightarrow> bytes \<Rightarrow> bytes \<Rightarrow> (bytes \<times> 'a) option"
    and recv :: "'b \<Rightarrow> bytes \<Rightarrow> bytes \<Rightarrow> (bytes \<times> 'b) option"
    and paired :: "'a \<Rightarrow> 'b \<Rightarrow> bool"
  assumes recv_send: "paired a b \<Longrightarrow> send a h p = Some (f, a') \<Longrightarrow> \<exists>b'. recv b h f = Some (p, b') \<and> paired a' b'"
    and recv_only: "paired a b \<Longrightarrow> recv b h f = Some (p, b') \<Longrightarrow> \<exists>a'. send a h p = Some (f, a') \<and> paired a' b'"
begin

fun send_all :: "'a \<Rightarrow> (bytes \<times> bytes) list \<Rightarrow> (bytes list \<times> 'a) option" where
  "send_all a [] = Some ([], a)"
| "send_all a ((h, p) # ps) =
     (case send a h p of None \<Rightarrow> None | Some (f, a) \<Rightarrow>
        (case send_all a ps of None \<Rightarrow> None | Some (fs, a) \<Rightarrow> Some (f # fs, a)))"

fun recv_all :: "'b \<Rightarrow> (bytes \<times> bytes) list \<Rightarrow> (bytes list \<times> 'b) option" where
  "recv_all b [] = Some ([], b)"
| "recv_all b ((h, f) # fs) =
     (case recv b h f of None \<Rightarrow> None | Some (p, b) \<Rightarrow>
        (case recv_all b fs of None \<Rightarrow> None | Some (ps, b) \<Rightarrow> Some (p # ps, b)))"

lemma stream_exact:
  assumes "paired a b" and "length hs = length ps" and "length fs = length hs"
  shows "(\<exists>a'. send_all a (zip hs ps) = Some (fs, a')) \<longleftrightarrow> (\<exists>b'. recv_all b (zip hs fs) = Some (ps, b'))"
  using assms
proof (induction hs arbitrary: ps fs a b)
  case (Cons h hs)
  obtain p ps' f fs' where c: "ps = p # ps'" "fs = f # fs'"
    using Cons.prems by (cases ps; cases fs) auto
  show ?case
    unfolding c using Cons.IH[of _ _ ps' fs'] Cons.prems recv_send[OF Cons.prems(1), of h p f]
      recv_only[OF Cons.prems(1), of h f p]
    by (fastforce simp: c split: option.splits)
qed simp

end

definition seal_frame :: "aead \<Rightarrow> sealer \<Rightarrow> bytes \<Rightarrow> bytes \<Rightarrow> (bytes \<times> sealer) option" where
  "seal_frame A s h p =
     (case sealer_seal A s h p (replicate (length p + SEAL_TAG_LEN) 0) of
        (Inr n, s, out) \<Rightarrow> Some (take n out, s) | _ \<Rightarrow> None)"

definition open_sealed :: "aead \<Rightarrow> opener \<Rightarrow> bytes \<Rightarrow> bytes \<Rightarrow> (bytes \<times> opener) option" where
  "open_sealed A o' h f =
     (case opener_open A o' h f (replicate (length f) 0) of (Inr n, o', out) \<Rightarrow> Some (take n out, o') | _ \<Rightarrow> None)"

definition sealed_pair :: "aead \<Rightarrow> sealer \<Rightarrow> opener \<Rightarrow> bool" where
  "sealed_pair A s o' \<longleftrightarrow> aead_ok A \<and> se_key s = op_key o' \<and> se_seq s = op_seq o'"

lemma sealer_seal_Inr:
  assumes "aead_ok A" and "sealer_seal A s h p out = (Inr n, s', out')"
  shows "\<exists>c t nxt. checked_add_u64 (se_seq s) 1 = Some nxt \<and> ae_encrypt A (se_key s) (nonce (se_seq s)) h p = Some (c, t) \<and>
    s' = s\<lparr>se_seq := nxt\<rparr> \<and> n = length p + SEAL_TAG_LEN \<and> n \<le> length out \<and> out' = write_at out 0 (c @ t)"
proof -
  obtain c t nxt where e: "checked_add_u64 (se_seq s) 1 = Some nxt"
    "ae_encrypt A (se_key s) (nonce (se_seq s)) h p = Some (c, t)" "s' = s\<lparr>se_seq := nxt\<rparr>" "n = length p + SEAL_TAG_LEN"
    "n \<le> length out" "out' = write_at (write_at out 0 c) (length p) t"
    using assms(2) by (auto simp: sealer_seal_def Let_def not_less split: option.splits if_splits)
  moreover have "length c = length p" "length t = SEAL_TAG_LEN"
    using aead_encrypted[OF assms(1) e(2)] by simp_all
  ultimately show ?thesis
    by (simp add: write_at_def add.commute)
qed

lemma sealer_seal_encrypted:
  assumes "aead_ok A" and "ae_encrypt A (se_key s) (nonce (se_seq s)) h p = Some (c, t)"
    and "checked_add_u64 (se_seq s) 1 = Some nxt" and "length p + SEAL_TAG_LEN \<le> length out"
  shows "sealer_seal A s h p out = (Inr (length p + SEAL_TAG_LEN), s\<lparr>se_seq := nxt\<rparr>, write_at out 0 (c @ t))"
  using assms(2-4) aead_encrypted[OF assms(1,2)]
  by (simp add: sealer_seal_def Let_def write_at_def add.commute)

lemma seal_frame_eq:
  assumes "aead_ok A"
  shows "seal_frame A s h p = Some (f, s') \<longleftrightarrow>
     (\<exists>c t nxt. checked_add_u64 (se_seq s) 1 = Some nxt \<and> ae_encrypt A (se_key s) (nonce (se_seq s)) h p = Some (c, t) \<and>
        f = c @ t \<and> s' = s\<lparr>se_seq := nxt\<rparr>)"
    (is "?l \<longleftrightarrow> ?r")
proof
  let ?out = "replicate (length p + SEAL_TAG_LEN) (0 :: u8)"
  assume ?l
  then obtain n out where n: "sealer_seal A s h p ?out = (Inr n, s', out)" "f = take n out"
    by (auto simp: seal_frame_def split: prod.splits sum.splits)
  from sealer_seal_Inr[OF assms n(1)] show ?r
    using n(2) aead_encrypted[OF assms] by (fastforce simp: write_at_0)
next
  assume ?r
  then obtain c t nxt where r: "checked_add_u64 (se_seq s) 1 = Some nxt" "f = c @ t" "s' = s\<lparr>se_seq := nxt\<rparr>"
    "ae_encrypt A (se_key s) (nonce (se_seq s)) h p = Some (c, t)"
    by blast
  from sealer_seal_encrypted[OF assms r(4) r(1), of "replicate (length p + SEAL_TAG_LEN) 0"] show ?l
    using aead_encrypted[OF assms r(4)] by (simp add: seal_frame_def r(2,3) write_at_0)
qed

lemma opener_open_Inr:
  assumes "aead_ok A" and "opener_open A o' h f out = (Inr n, o'', out')"
  shows "\<exists>c t nxt p. checked_add_u64 (op_seq o') 1 = Some nxt \<and> f = c @ t \<and>
    ae_encrypt A (op_key o') (nonce (op_seq o')) h p = Some (c, t) \<and> n = length p \<and> o'' = o'\<lparr>op_seq := nxt\<rparr> \<and>
    out' = write_at out 0 p \<and> length p \<le> length out"
proof -
  let ?l = "length f - SEAL_TAG_LEN"
  obtain nxt p where p: "checked_add_u64 (op_seq o') 1 = Some nxt" "SEAL_TAG_LEN \<le> length f"
    "ae_decrypt A (op_key o') (nonce (op_seq o')) h (take ?l f) (drop ?l f) = Some p" "n = ?l" "?l \<le> length out"
    "o'' = o'\<lparr>op_seq := nxt\<rparr>" "out' = write_at out 0 p"
    using assms(2) by (auto simp: opener_open_def Let_def not_less split: option.splits if_splits)
  note e = aead_decrypted[OF assms(1) p(3)]
  then have "length (take ?l f) = length p"
    using aead_encrypted[OF assms(1)] by blast
  then have l: "length p = ?l"
    by simp
  show ?thesis
    by (rule exI[of _ "take ?l f"], rule exI[of _ "drop ?l f"], rule exI[of _ nxt], rule exI[of _ p])
      (use p e l in simp)
qed

lemma opener_open_encrypted:
  assumes "aead_ok A" and "ae_encrypt A (op_key o') (nonce (op_seq o')) h p = Some (c, t)"
    and "checked_add_u64 (op_seq o') 1 = Some nxt" and "length p \<le> length out"
  shows "opener_open A o' h (c @ t) out = (Inr (length p), o'\<lparr>op_seq := nxt\<rparr>, write_at out 0 p)"
  using assms(3,4) aead_encrypted[OF assms(1,2)] by (simp add: opener_open_def Let_def)

lemma open_sealed_eq:
  assumes "aead_ok A"
  shows "open_sealed A o' h f = Some (p, o'') \<longleftrightarrow>
     (\<exists>c t nxt. checked_add_u64 (op_seq o') 1 = Some nxt \<and>
        ae_encrypt A (op_key o') (nonce (op_seq o')) h p = Some (c, t) \<and> f = c @ t \<and> o'' = o'\<lparr>op_seq := nxt\<rparr>)"
    (is "?l \<longleftrightarrow> ?r")
proof
  assume ?l
  then obtain n out where "opener_open A o' h f (replicate (length f) 0) = (Inr n, o'', out)" "p = take n out"
    by (auto simp: open_sealed_def split: prod.splits sum.splits)
  with opener_open_Inr[OF assms this(1)] show ?r
    by (auto simp: write_at_0)
next
  assume ?r
  then obtain c t nxt where r: "checked_add_u64 (op_seq o') 1 = Some nxt" "f = c @ t" "o'' = o'\<lparr>op_seq := nxt\<rparr>"
    "ae_encrypt A (op_key o') (nonce (op_seq o')) h p = Some (c, t)"
    by blast
  then have "length p \<le> length (replicate (length f) 0)"
    using aead_encrypted[OF assms] by fastforce
  from opener_open_encrypted[OF assms r(4) r(1) this] show ?l
    by (simp add: open_sealed_def r(2,3) write_at_0)
qed

interpretation seal: sealed_channel "seal_frame A" "open_sealed A" "sealed_pair A"
  for A :: aead
proof
  fix s o' h p f s'
  assume "sealed_pair A s o'" and "seal_frame A s h p = Some (f, s')"
  then show "\<exists>o''. open_sealed A o' h f = Some (p, o'') \<and> sealed_pair A s' o''"
    by (auto simp: sealed_pair_def seal_frame_eq open_sealed_eq)
next
  fix s o' h p f o''
  assume "sealed_pair A s o'" and "open_sealed A o' h f = Some (p, o'')"
  then show "\<exists>s'. seal_frame A s h p = Some (f, s') \<and> sealed_pair A s' o''"
    by (auto simp: sealed_pair_def seal_frame_eq open_sealed_eq)
qed

section \<open>Agreement\<close>

text \<open>The group laws the exchange rests on: subtraction undoes addition and multiplications by two scalars
  commute.\<close>

definition group_ok :: "('s, 'p) curve \<Rightarrow> bool" where
  "group_ok C \<longleftrightarrow> (\<forall>a b. pt_sub C (pt_add C a b) b = a) \<and>
     (\<forall>a x y. pt_mul C (pt_mul C a x) y = pt_mul C (pt_mul C a y) x)"

lemma point_bytes_Inr: "point_bytes C p = Inr bs \<longleftrightarrow> \<not> pt_is_identity C p \<and> bs = pt_encode C p"
  by (auto simp: point_bytes_def)

lemma point_pt_encode: "encodings_ok C \<Longrightarrow> \<not> pt_is_identity C p \<Longrightarrow> point C (pt_encode C p) = Inr p"
  by (simp add: encodings_ok_def point_def SHARE_LEN_def)

lemma point_bytes_length: "encodings_ok C \<Longrightarrow> point_bytes C p = Inr bs \<Longrightarrow> length bs = SHARE_LEN"
  by (simp add: point_bytes_Inr encodings_ok_def SHARE_LEN_def)

lemma spake_agreement:
  assumes "encodings_ok C" and "group_ok C"
    and "prover_with_scalar C sec context x = Inr pv"
    and "respond_inner C H (verifier_from_secrets C sec salt it) context [] [] (pv_share_p pv) y = Inr r"
  shows "prover_finish C H pv (rs_share_v r) (rs_confirm_v r) = Inr (rs_expect_p r, established_new H (rs_shared r) True)"
proof -
  let ?G = "pt_generator C" and ?m = "pt_mul C (spake_m C) (sec_w0 sec)" and ?n = "pt_mul C (spake_n C) (sec_w0 sec)"
  define X where "X = pt_add C (pt_mul C ?G x) ?m"
  define Y where "Y = pt_add C (pt_mul C ?G y) ?n"
  have pv: "pv = \<lparr>pv_secrets = sec, pv_x = x, pv_share_p = pt_encode C X, pv_context = context\<rparr>" "\<not> pt_is_identity C X"
    using assms(3) by (auto simp: prover_with_scalar_def rbind_Inr_iff point_bytes_Inr X_def)
  have pX: "point C (pt_encode C X) = Inr X" "length (pt_encode C X) = SHARE_LEN"
    using pv(2) assms(1) by (simp_all add: point_pt_encode encodings_ok_def SHARE_LEN_def)
  have Z: "pt_mul C (pt_sub C X ?m) y = pt_mul C (pt_sub C Y ?n) x"
    and V: "pt_mul C (pt_mul C ?G (sec_w1 sec)) y = pt_mul C (pt_sub C Y ?n) (sec_w1 sec)"
    using assms(2) by (simp_all add: group_ok_def X_def Y_def)
  define z v where "z = pt_encode C (pt_mul C (pt_sub C Y ?n) x)"
    and "v = pt_encode C (pt_mul C (pt_sub C Y ?n) (sec_w1 sec))"
  define keys where "keys = schedule C H context [] [] (pt_encode C X) (pt_encode C Y) z v (sec_w0 sec)"
  have r: "\<not> pt_is_identity C Y" "\<not> pt_is_identity C (pt_mul C (pt_sub C Y ?n) x)"
    "\<not> pt_is_identity C (pt_mul C (pt_sub C Y ?n) (sec_w1 sec))"
    "r = \<lparr>rs_share_v = pt_encode C Y, rs_confirm_v = spake_mac H (sk_confirm_v keys) (pt_encode C X),
       rs_expect_p = spake_mac H (sk_confirm_p keys) (pt_encode C Y), rs_shared = sk_shared keys\<rparr>"
    using assms(4) by (auto simp: respond_inner_def verifier_from_secrets_def rbind_Inr_iff point_bytes_Inr pv(1)
        pX Z V Let_def Y_def[symmetric] keys_def z_def v_def)
  have "point C (pt_encode C Y) = Inr Y" "length (pt_encode C Y) = SHARE_LEN"
    using r(1) assms(1) by (simp_all add: point_pt_encode encodings_ok_def SHARE_LEN_def)
  then show ?thesis
    using r(2,3) by (simp add: prover_finish_def prover_keys_def pv(1) r(4) point_bytes_def Let_def
        z_def[symmetric] v_def[symmetric] keys_def[symmetric])
qed

lemma response_confirm_own: "response_confirm H r (rs_expect_p r) = Inr (established_new H (rs_shared r) False)"
  by (simp add: response_confirm_def)

text \<open>What one side of an established session sends, the other opens: both directions are paired.\<close>

lemma established_paired:
  assumes "aead_ok A"
  shows "sealed_pair A (fst (established_new H k b)) (snd (established_new H k (\<not> b)))"
  using assms by (cases b) (simp_all add: established_new_def sealed_pair_def sealer_new_def opener_new_def Let_def)

definition toy_aead :: aead where
  "toy_aead = \<lparr>ae_encrypt = \<lambda>k n h p. Some (p, replicate 16 1),
     ae_decrypt = \<lambda>k n h c t. if t = replicate 16 1 then Some c else None\<rparr>"

lemma toy_aead_ok: "aead_ok toy_aead"
  by (auto simp: aead_ok_def toy_aead_def SEAL_TAG_LEN_def)

lemma toy_group_ok: "group_ok toy_curve"
  by (simp add: group_ok_def toy_curve_def mult.assoc mult.commute mult.left_commute)

section \<open>Properties\<close>

text \<open>C8: A browser whose code made the device's verifier and the device it starts a session with agree: the
  device's confirmation verifies at the browser, the browser's at the device, and each ends with keys that
  open what the other seals.\<close>

theorem spake_both_ends_agree:
  assumes "encodings_ok C" and "group_ok C" and "aead_ok A"
    and "prover_with_scalar C sec context x = Inr pv"
    and "respond_inner C H (verifier_from_secrets C sec salt it) context [] [] (pv_share_p pv) y = Inr r"
  shows "\<exists>confirm_p bs br ds dr.
    prover_finish C H pv (rs_share_v r) (rs_confirm_v r) = Inr (confirm_p, (bs, br)) \<and>
    response_confirm H r confirm_p = Inr (ds, dr) \<and> sealed_pair A bs dr \<and> sealed_pair A ds br"
  using spake_agreement[OF assms(1,2,4,5)] response_confirm_own[of H r]
    established_paired[OF assms(3), of H "rs_shared r" True] established_paired[OF assms(3), of H "rs_shared r" False]
  by (metis prod.collapse not_False_eq_True not_True_eq_False)

theorem spake_both_ends_agree_witness:
  "\<exists>confirm_p bs br ds dr.
    prover_finish toy_curve toy_hashes (projr (prover_with_scalar toy_curve \<lparr>sec_w0 = 3, sec_w1 = 5\<rparr> [1] 7))
      (rs_share_v (projr (respond_inner toy_curve toy_hashes (verifier_from_secrets toy_curve \<lparr>sec_w0 = 3, sec_w1 = 5\<rparr> [] 1000)
        [1] [] [] (pv_share_p (projr (prover_with_scalar toy_curve \<lparr>sec_w0 = 3, sec_w1 = 5\<rparr> [1] 7))) 9)))
      (rs_confirm_v (projr (respond_inner toy_curve toy_hashes (verifier_from_secrets toy_curve \<lparr>sec_w0 = 3, sec_w1 = 5\<rparr> [] 1000)
        [1] [] [] (pv_share_p (projr (prover_with_scalar toy_curve \<lparr>sec_w0 = 3, sec_w1 = 5\<rparr> [1] 7))) 9))) =
      Inr (confirm_p, (bs, br)) \<and>
    response_confirm toy_hashes
      (projr (respond_inner toy_curve toy_hashes (verifier_from_secrets toy_curve \<lparr>sec_w0 = 3, sec_w1 = 5\<rparr> [] 1000)
        [1] [] [] (pv_share_p (projr (prover_with_scalar toy_curve \<lparr>sec_w0 = 3, sec_w1 = 5\<rparr> [1] 7))) 9)) confirm_p = Inr (ds, dr) \<and>
    sealed_pair toy_aead bs dr \<and> sealed_pair toy_aead ds br"
proof (rule spake_both_ends_agree[OF toy_encodings_ok toy_group_ok toy_aead_ok])
  let ?pv = "prover_with_scalar toy_curve \<lparr>sec_w0 = 3, sec_w1 = 5\<rparr> [1] 7"
  have pv: "?pv = Inr \<lparr>pv_secrets = \<lparr>sec_w0 = 3, sec_w1 = 5\<rparr>, pv_x = 7, pv_share_p = 4 # replicate 63 0 @ [0x67], pv_context = [1]\<rparr>"
    by (simp add: prover_with_scalar_def point_bytes_def toy_curve_def spake_m_def point_def M_BYTES_def SHARE_LEN_def)
  then show "?pv = Inr (projr ?pv)"
    by simp
  show "respond_inner toy_curve toy_hashes (verifier_from_secrets toy_curve \<lparr>sec_w0 = 3, sec_w1 = 5\<rparr> [] 1000)
        [1] [] [] (pv_share_p (projr ?pv)) 9 =
      Inr (projr (respond_inner toy_curve toy_hashes (verifier_from_secrets toy_curve \<lparr>sec_w0 = 3, sec_w1 = 5\<rparr> [] 1000)
        [1] [] [] (pv_share_p (projr ?pv)) 9))"
    unfolding pv
    by (simp add: respond_inner_def verifier_from_secrets_def point_bytes_def toy_curve_def spake_m_def spake_n_def point_def
        M_BYTES_def N_BYTES_def SHARE_LEN_def Let_def)
qed

end
