(* ===== verification/Setup_Record.thy ===== *)
theory Setup_Record
  imports Setup_Verifier Wifi Utf8
begin

text \<open>
  The settings record (\<open>crates/rusty_esp_signal-core/src/setup/record.rs\<close>): decoding, checked whole before
  anything is applied, and the writer the browser builds it with. Checks that belong to other crates are
  arguments, gathered in \<open>checks\<close>: the arithmetic of the verifier, whether a string is a \<open>did:mata\<close>
  (\<open>Did::parse\<close>) and bytes an adoption (\<open>Adoption::decode\<close>).
\<close>

record ('s, 'p) checks =
  ck_curve :: "('s, 'p) curve"
  ck_did :: "bytes \<Rightarrow> bool"
  ck_adoption :: "bytes \<Rightarrow> bool"

section \<open>The settings record\<close>

definition RT_SSID :: u8 where "RT_SSID = TAG_SSID"
definition RT_PSK :: u8 where "RT_PSK = TAG_PSK"
definition RT_NAME :: u8 where "RT_NAME = 3"
definition RT_MAKER :: u8 where "RT_MAKER = 4"
definition RT_BLINK_MS :: u8 where "RT_BLINK_MS = 5"
definition RT_FPS :: u8 where "RT_FPS = 6"
definition RT_SETUP_V :: u8 where "RT_SETUP_V = 0x10"
definition RT_ADOPTION :: u8 where "RT_ADOPTION = 0x11"
definition NAME_MAX_LEN :: nat where "NAME_MAX_LEN = 64"
definition PSK_MAX_LEN :: nat where "PSK_MAX_LEN = 63"

record settings_record =
  sr_network :: "credentials option"
  sr_name :: "bytes option"
  sr_maker :: "bytes option"
  sr_blink_ms :: "u32 option"
  sr_fps :: "u8 option"
  sr_setup_v :: "bytes option"
  sr_adoption :: "bytes option"

definition record_default :: settings_record where
  "record_default = \<lparr>sr_network = None, sr_name = None, sr_maker = None, sr_blink_ms = None, sr_fps = None,
     sr_setup_v = None, sr_adoption = None\<rparr>"

definition tag_bit :: "u8 \<Rightarrow> nat option" where
  "tag_bit t =
     (if t = RT_SSID then Some 0 else if t = RT_PSK then Some 1 else if t = RT_NAME then Some 2
      else if t = RT_MAKER then Some 3 else if t = RT_BLINK_MS then Some 4 else if t = RT_FPS then Some 5
      else if t = RT_SETUP_V then Some 6 else if t = RT_ADOPTION then Some 7 else None)"

definition name_ok :: "bytes \<Rightarrow> bool" where
  "name_ok v = (case utf8_chars v of None \<Rightarrow> False
     | Some cs \<Rightarrow> \<not> (v = [] \<or> length v > NAME_MAX_LEN \<or> list_ex is_control cs))"

text \<open>The entry with tag \<open>t\<close>: the match inside the loop.\<close>

definition record_entry ::
  "('s, 'p) checks \<Rightarrow> u8 \<Rightarrow> bytes \<Rightarrow> bytes option \<times> bytes option \<times> settings_record \<Rightarrow>
   result_code + (bytes option \<times> bytes option \<times> settings_record)" where
  "record_entry K t value st =
     (case st of (ssid, psk, r) \<Rightarrow>
        if t = RT_SSID then Inr (Some value, psk, r)
        else if t = RT_PSK then Inr (ssid, Some value, r)
        else if t = RT_NAME then
          (if name_ok value then Inr (ssid, psk, r\<lparr>sr_name := Some value\<rparr>) else Inl RcBadName)
        else if t = RT_MAKER then
          (if utf8_chars value \<noteq> None \<and> ck_did K value then Inr (ssid, psk, r\<lparr>sr_maker := Some value\<rparr>)
           else Inl RcBadMaker)
        else if t = RT_BLINK_MS then
          (if length value = 4 then Inr (ssid, psk, r\<lparr>sr_blink_ms := Some (be_word value)\<rparr>) else Inl RcMalformed)
        else if t = RT_FPS then
          (case value of [v] \<Rightarrow> Inr (ssid, psk, r\<lparr>sr_fps := Some v\<rparr>) | _ \<Rightarrow> Inl RcMalformed)
        else if t = RT_SETUP_V then
          (if length value \<noteq> SETUP_V_LEN \<or> \<not> is_ok (verifier_decode (ck_curve K) value) then Inl RcBadVerifier
           else Inr (ssid, psk, r\<lparr>sr_setup_v := Some value\<rparr>))
        else (if ck_adoption K value then Inr (ssid, psk, r\<lparr>sr_adoption := Some value\<rparr>) else Inl RcBadAdoption))"

function record_scan ::
  "('s, 'p) checks \<Rightarrow> bytes \<Rightarrow> u32 \<Rightarrow> bytes option \<times> bytes option \<times> settings_record \<Rightarrow>
   result_code + (bytes option \<times> bytes option \<times> settings_record)" where
  "record_scan K rest seen st =
     (if rest = [] then Inr st
      else if length rest < 3 then Inl RcMalformed
      else
        let t = rest ! 0; len = unat (be_word [rest ! 1, rest ! 2] :: u16) in
        case slice_get rest 3 (3 + len) of
          None \<Rightarrow> Inl RcMalformed
        | Some value \<Rightarrow>
            (case tag_bit t of
               None \<Rightarrow> Inl RcUnknownTag
             | Some b \<Rightarrow>
                 if seen AND push_bit b 1 \<noteq> 0 then Inl RcUnknownTag
                 else rbind (record_entry K t value st)
                        (\<lambda>st. record_scan K (drop (3 + len) rest) (seen OR push_bit b 1) st)))"
  by pat_completeness auto
termination
  by (relation "measure (\<lambda>(K, rest, seen, st). length rest)") (auto simp: slice_get_def split: if_splits)

declare record_scan.simps [simp del]

definition record_decode :: "('s, 'p) checks \<Rightarrow> bytes \<Rightarrow> result_code + settings_record" where
  "record_decode K bs =
     rbind (record_scan K bs 0 (None, None, record_default)) (\<lambda>(ssid, psk, r).
       case (ssid, psk) of
         (None, None) \<Rightarrow> Inr r
       | (Some s, Some p) \<Rightarrow>
           if length p > PSK_MAX_LEN then Inl RcBadNetwork
           else (case creds_new s p of Inl _ \<Rightarrow> Inl RcBadNetwork | Inr c \<Rightarrow> Inr (r\<lparr>sr_network := Some c\<rparr>))
       | _ \<Rightarrow> Inl RcBadNetwork)"

section \<open>The writer\<close>

record record_writer =
  rwr_buf :: bytes
  rwr_len :: nat

definition writer_new :: "bytes \<Rightarrow> record_writer" where
  "writer_new buf = \<lparr>rwr_buf = buf, rwr_len = 0\<rparr>"

definition writer_push :: "record_writer \<Rightarrow> u8 \<Rightarrow> bytes \<Rightarrow> (err + unit) \<times> record_writer" where
  "writer_push w t value =
     (if length value > 65535 then (Inl InvalidFormat, w)
      else
        let needed = rwr_len w + 3 + length value in
        if needed > length (rwr_buf w) then (Inl (BufferTooSmall needed), w)
        else
          let buf = write_at (rwr_buf w) (rwr_len w) [t];
              buf = write_at buf (rwr_len w + 1) (be_bytes 2 (of_nat (length value) :: u16));
              buf = write_at buf (rwr_len w + 3) value
          in (Inr (), \<lparr>rwr_buf = buf, rwr_len = needed\<rparr>))"

definition writer_network :: "record_writer \<Rightarrow> bytes \<Rightarrow> bytes \<Rightarrow> (err + unit) \<times> record_writer" where
  "writer_network w ssid psk =
     (case writer_push w RT_SSID ssid of (Inl e, w) \<Rightarrow> (Inl e, w) | (Inr _, w) \<Rightarrow> writer_push w RT_PSK psk)"

definition writer_name where "writer_name w name = writer_push w RT_NAME name"
definition writer_maker where "writer_maker w did = writer_push w RT_MAKER did"
definition writer_blink_ms where "writer_blink_ms w ms = writer_push w RT_BLINK_MS (be_bytes 4 (ms :: u32))"
definition writer_fps where "writer_fps w fps = writer_push w RT_FPS [fps]"
definition writer_setup_v where "writer_setup_v w v = writer_push w RT_SETUP_V v"
definition writer_adoption where "writer_adoption w a = writer_push w RT_ADOPTION a"

definition writer_is_empty :: "record_writer \<Rightarrow> bool" where
  "writer_is_empty w \<longleftrightarrow> rwr_len w = 0"

section \<open>What the decoder accepts\<close>

text \<open>The bytes of a sequence of entries, the entries so far as a map from tags to values, and what one
  entry must satisfy.\<close>

definition entry_bytes :: "u8 \<Rightarrow> bytes \<Rightarrow> bytes" where
  "entry_bytes t v = t # be_bytes 2 (of_nat (length v) :: u16) @ v"

fun record_bytes :: "(u8 \<times> bytes) list \<Rightarrow> bytes" where
  "record_bytes [] = []"
| "record_bytes ((t, v) # es) = entry_bytes t v @ record_bytes es"

definition fields_of :: "(u8 \<rightharpoonup> bytes) \<Rightarrow> settings_record" where
  "fields_of m = \<lparr>sr_network = None, sr_name = m RT_NAME, sr_maker = m RT_MAKER,
     sr_blink_ms = map_option be_word (m RT_BLINK_MS), sr_fps = map_option hd (m RT_FPS),
     sr_setup_v = m RT_SETUP_V, sr_adoption = m RT_ADOPTION\<rparr>"

definition entry_ok :: "('s, 'p) checks \<Rightarrow> u8 \<times> bytes \<Rightarrow> bool" where
  "entry_ok K e = (case e of (t, v) \<Rightarrow>
     length v < 65536 \<and> tag_bit t \<noteq> None \<and>
     (t = RT_NAME \<longrightarrow> name_ok v) \<and>
     (t = RT_MAKER \<longrightarrow> utf8_chars v \<noteq> None \<and> ck_did K v) \<and>
     (t = RT_BLINK_MS \<longrightarrow> length v = 4) \<and>
     (t = RT_FPS \<longrightarrow> length v = 1) \<and>
     (t = RT_SETUP_V \<longrightarrow> is_ok (verifier_decode (ck_curve K) v)) \<and>
     (t = RT_ADOPTION \<longrightarrow> ck_adoption K v))"

lemmas tag_defs = RT_SSID_def RT_PSK_def RT_NAME_def RT_MAKER_def RT_BLINK_MS_def RT_FPS_def RT_SETUP_V_def
  RT_ADOPTION_def TAG_SSID_def TAG_PSK_def

lemma tag_bit_inject: "tag_bit t = Some b \<Longrightarrow> tag_bit t' = Some b \<Longrightarrow> t = t'"
  by (auto simp: tag_bit_def split: if_splits)

lemma tag_bit_less: "tag_bit t = Some b \<Longrightarrow> b < 8"
  by (auto simp: tag_bit_def split: if_splits)

lemma tag_bit_cases:
  "tag_bit t = Some b \<Longrightarrow> t \<in> {RT_SSID, RT_PSK, RT_NAME, RT_MAKER, RT_BLINK_MS, RT_FPS, RT_SETUP_V, RT_ADOPTION}"
  by (auto simp: tag_bit_def split: if_splits)

lemma record_entry_ok:
  assumes "tag_bit t = Some b" and "length v < 65536"
  shows "record_entry K t v (m RT_SSID, m RT_PSK, fields_of m) = Inr st \<longleftrightarrow>
    entry_ok K (t, v) \<and> st = ((m(t \<mapsto> v)) RT_SSID, (m(t \<mapsto> v)) RT_PSK, fields_of (m(t \<mapsto> v)))"
proof -
  have one: "length v = 1 \<longleftrightarrow> (\<exists>x. v = [x])"
    by (cases v) auto
  show ?thesis
    using tag_bit_cases[OF assms(1)] assms(2) verifier_decode_length[of "ck_curve K" v]
    by (elim insertE emptyE)
      (auto simp: record_entry_def entry_ok_def fields_of_def tag_defs tag_bit_def one split: list.splits)
qed

text \<open>The bits seen so far are those of the tags already read.\<close>

definition seen_ok :: "u32 \<Rightarrow> (u8 \<rightharpoonup> bytes) \<Rightarrow> bool" where
  "seen_ok seen m \<longleftrightarrow> (\<forall>t b. tag_bit t = Some b \<longrightarrow> (bit seen b \<longleftrightarrow> t \<in> dom m))"

lemma seen_ok_test: "seen_ok seen m \<Longrightarrow> tag_bit t = Some b \<Longrightarrow> seen AND push_bit b 1 \<noteq> 0 \<longleftrightarrow> t \<in> dom m"
  unfolding bit_iff_and_push_bit_not_eq_0[symmetric] by (simp add: seen_ok_def)

lemma seen_ok_upd: "seen_ok seen m \<Longrightarrow> tag_bit t = Some b \<Longrightarrow> seen_ok (seen OR push_bit b 1) (m(t \<mapsto> v))"
  unfolding seen_ok_def
proof (intro allI impI)
  fix t' b'
  assume a: "\<forall>t b. tag_bit t = Some b \<longrightarrow> bit seen b = (t \<in> dom m)" "tag_bit t = Some b" "tag_bit t' = Some b'"
  have "bit (push_bit b (1 :: u32)) b' \<longleftrightarrow> b' = b"
    using tag_bit_less[OF a(3)] by (auto simp: bit_simps)
  moreover have "b' = b \<longleftrightarrow> t' = t"
    using a(2,3) tag_bit_inject[of t b t'] by auto
  ultimately show "bit (seen OR push_bit b 1) b' = (t' \<in> dom (m(t \<mapsto> v)))"
    using a(1,3) by (auto simp: bit_or_iff)
qed

lemma seen_ok_empty: "seen_ok 0 Map.empty"
  by (simp add: seen_ok_def)

lemma entry_bytes_head:
  assumes "length v < 65536"
  shows "length (entry_bytes t v @ rest) \<ge> 3" and "(entry_bytes t v @ rest) ! 0 = t"
    and "unat (be_word [(entry_bytes t v @ rest) ! 1, (entry_bytes t v @ rest) ! 2] :: u16) = length v"
    and "slice_get (entry_bytes t v @ rest) 3 (3 + length v) = Some v"
    and "drop (3 + length v) (entry_bytes t v @ rest) = rest"
proof -
  obtain x y where xy: "be_bytes 2 (of_nat (length v) :: u16) = [x, y]"
    using list2_exhaust[of "be_bytes 2 (of_nat (length v) :: u16)"] by auto
  then have "be_word [x, y] = (of_nat (length v) :: u16)"
    by (metis be_word_u16)
  then show "unat (be_word [(entry_bytes t v @ rest) ! 1, (entry_bytes t v @ rest) ! 2] :: u16) = length v"
    using assms by (simp add: entry_bytes_def xy unat_of_nat)
  show "drop (3 + length v) (entry_bytes t v @ rest) = rest"
    by (simp add: entry_bytes_def xy numeral_3_eq_3)
  show "slice_get (entry_bytes t v @ rest) 3 (3 + length v) = Some v"
    by (simp add: entry_bytes_def xy numeral_3_eq_3 slice_get_def)
qed (simp_all add: entry_bytes_def)

lemma record_scan_entry:
  assumes "length v < 65536"
  shows "record_scan K (entry_bytes t v @ rest) seen st =
    (case tag_bit t of None \<Rightarrow> Inl RcUnknownTag
     | Some b \<Rightarrow> if seen AND push_bit b 1 \<noteq> 0 then Inl RcUnknownTag
         else rbind (record_entry K t v st) (\<lambda>st. record_scan K rest (seen OR push_bit b 1) st))"
proof -
  define zs where "zs = entry_bytes t v @ rest"
  have "zs \<noteq> []" "\<not> length zs < 3"
    using entry_bytes_head(1)[OF assms, of t rest] by (auto simp: zs_def entry_bytes_def)
  then show ?thesis
    unfolding zs_def[symmetric] record_scan.simps[of K zs]
    using entry_bytes_head(2-)[OF assms, of t rest, folded zs_def] by (simp add: Let_def split: option.split)
qed

lemma record_bytes_split:
  assumes "length bs \<ge> 3" and "slice_get bs 3 (3 + unat (be_word [bs ! 1, bs ! 2] :: u16)) = Some v"
  obtains rest where "bs = entry_bytes (bs ! 0) v @ rest" and "length v < 65536" and "length rest < length bs"
proof
  let ?len = "unat (be_word [bs ! 1, bs ! 2] :: u16)"
  have v: "v = take ?len (drop 3 bs)" "length v = ?len"
    using assms(2) by (auto simp: slice_get_def split: if_splits)
  have l: "?len < 65536"
    using unat_less[of "be_word [bs ! 1, bs ! 2] :: u16"] by simp
  then show "length v < 65536"
    by (simp add: v(2))
  have a: "be_bytes 2 (of_nat (length v) :: u16) = [bs ! 1, bs ! 2]"
    using be_bytes_be_word[of "[bs ! 1, bs ! 2]", where 'a = 16] by (simp add: v(2) numeral_2_eq_2)
  have b: "bs = bs ! 0 # bs ! 1 # bs ! 2 # drop 3 bs"
  proof -
    have "0 < length bs" "1 < length bs" "2 < length bs"
      using assms(1) by linarith+
    from this[THEN drop_nth] show ?thesis
      by (simp add: numeral_3_eq_3 numeral_2_eq_2)
  qed
  have c: "drop 3 bs = v @ drop ?len (drop 3 bs)"
    unfolding v(1) by (rule append_take_drop_id[symmetric])
  show "bs = entry_bytes (bs ! 0) v @ drop ?len (drop 3 bs)"
    unfolding entry_bytes_def a append_Cons append_Nil append_assoc c[symmetric] by (rule b)
  show "length (drop ?len (drop 3 bs)) < length bs"
    using assms(1) by simp
qed

abbreviation scan_state :: "(u8 \<rightharpoonup> bytes) \<Rightarrow> bytes option \<times> bytes option \<times> settings_record" where
  "scan_state m \<equiv> (m RT_SSID, m RT_PSK, fields_of m)"

definition entries_ok :: "('s, 'p) checks \<Rightarrow> (u8 \<times> bytes) list \<Rightarrow> bool" where
  "entries_ok K es \<longleftrightarrow> list_all (entry_ok K) es \<and> distinct (map fst es)"

lemma entry_ok_tag: "entry_ok K (t, v) \<Longrightarrow> length v < 65536 \<and> (\<exists>b. tag_bit t = Some b)"
  by (auto simp: entry_ok_def)

lemma record_scan_entries:
  "entries_ok K es \<Longrightarrow> fst ` set es \<inter> dom m = {} \<Longrightarrow> seen_ok seen m \<Longrightarrow>
     record_scan K (record_bytes es) seen (scan_state m) = Inr (scan_state (m ++ map_of es))"
proof (induction es arbitrary: seen m)
  case Nil
  then show ?case by (simp add: record_scan.simps)
next
  case (Cons e es)
  obtain t v where e: "e = (t, v)" by (cases e)
  with Cons.prems obtain b where ok: "entry_ok K (t, v)" "length v < 65536" "tag_bit t = Some b" and t: "t \<notin> dom m"
    using entry_ok_tag[of K t v] by (auto simp: entries_ok_def)
  have m: "m ++ map_of (e # es) = m(t \<mapsto> v) ++ map_of es"
    using Cons.prems by (auto simp: e entries_ok_def map_add_def dom_map_of_conv_image_fst fun_eq_iff
        split: option.splits dest: map_of_SomeD intro: rev_image_eqI)
  have "fst ` set es \<inter> dom (m(t \<mapsto> v)) = {}" "entries_ok K es"
    using Cons.prems by (simp_all add: e entries_ok_def)
  then have "record_scan K (record_bytes es) (seen OR push_bit b 1) (scan_state (m(t \<mapsto> v))) =
      Inr (scan_state (m(t \<mapsto> v) ++ map_of es))"
    using Cons.prems(3) by (intro Cons.IH seen_ok_upd ok(3))
  moreover have "record_entry K t v (scan_state m) = Inr (scan_state (m(t \<mapsto> v)))"
    using ok(1) by (subst record_entry_ok[OF ok(3) ok(2)]) simp
  moreover have "\<not> seen AND push_bit b 1 \<noteq> 0"
    using seen_ok_test[OF Cons.prems(3) ok(3)] t by simp
  ultimately show ?case
    unfolding m by (simp only: e record_bytes.simps record_scan_entry[OF ok(2)] ok(3) option.case if_False rbind_simps)
qed

lemma record_scan_Inr:
  "record_scan K bs seen (scan_state m) = Inr st \<Longrightarrow> seen_ok seen m \<Longrightarrow>
     \<exists>es. bs = record_bytes es \<and> entries_ok K es \<and> fst ` set es \<inter> dom m = {}"
proof (induction bs arbitrary: seen m rule: length_induct)
  case (1 bs)
  show ?case
  proof (cases "bs = []")
    case True
    then show ?thesis by (intro exI[of _ "[]"]) (simp add: entries_ok_def)
  next
    case False
    then obtain v where "3 \<le> length bs" "slice_get bs 3 (3 + unat (be_word [bs ! 1, bs ! 2] :: u16)) = Some v"
      using "1.prems"(1) by (subst (asm) record_scan.simps) (auto simp: Let_def not_less split: if_splits option.splits)
    from record_bytes_split[OF this] obtain t rest where
      bs: "bs = entry_bytes t v @ rest" and v: "length v < 65536" and l: "length rest < length bs"
      by metis
    obtain b st' where b: "tag_bit t = Some b" "\<not> seen AND push_bit b 1 \<noteq> 0"
      and st': "record_entry K t v (scan_state m) = Inr st'" "record_scan K rest (seen OR push_bit b 1) st' = Inr st"
      using "1.prems"(1) unfolding bs record_scan_entry[OF v] by (auto simp: rbind_Inr_iff split: option.splits if_splits)
    have ok: "entry_ok K (t, v)" and s: "st' = scan_state (m(t \<mapsto> v))"
      using st'(1) unfolding record_entry_ok[OF b(1) v] by blast+
    obtain es where es: "rest = record_bytes es" "entries_ok K es" "fst ` set es \<inter> dom (m(t \<mapsto> v)) = {}"
      using "1.IH" l st'(2)[unfolded s] seen_ok_upd[OF "1.prems"(2) b(1)] by metis
    have "t \<notin> dom m"
      using seen_ok_test[OF "1.prems"(2) b(1)] b(2) by simp
    then show ?thesis
      using es ok by (intro exI[of _ "(t, v) # es"]) (auto simp: bs entries_ok_def)
  qed
qed

lemma record_scan_start:
  "record_scan K bs 0 (None, None, record_default) = Inr st \<longleftrightarrow>
     (\<exists>es. bs = record_bytes es \<and> entries_ok K es \<and> st = scan_state (map_of es))"
proof -
  have "(None, None, record_default) = scan_state Map.empty"
    by (simp add: fields_of_def record_default_def)
  then show ?thesis
    using record_scan_Inr[OF _ seen_ok_empty, of K bs st] record_scan_entries[OF _ _ seen_ok_empty, of K] by fastforce
qed

text \<open>The record a sequence of entries stands for: the network needs its name and its passphrase
  together, and \<open>Credentials::new\<close> must take them.\<close>

definition network_of :: "(u8 \<rightharpoonup> bytes) \<Rightarrow> result_code + credentials option" where
  "network_of m =
     (case (m RT_SSID, m RT_PSK) of
        (None, None) \<Rightarrow> Inr None
      | (Some s, Some p) \<Rightarrow>
          if length p > PSK_MAX_LEN then Inl RcBadNetwork
          else (case creds_new s p of Inl _ \<Rightarrow> Inl RcBadNetwork | Inr c \<Rightarrow> Inr (Some c))
      | _ \<Rightarrow> Inl RcBadNetwork)"

lemma record_decode_iff:
  "record_decode K bs = Inr r \<longleftrightarrow>
     (\<exists>es net. bs = record_bytes es \<and> entries_ok K es \<and> network_of (map_of es) = Inr net \<and>
        r = (fields_of (map_of es))\<lparr>sr_network := net\<rparr>)"
proof -
  have net: "(case scan_state m of
        (ssid, psk, r) \<Rightarrow> (case (ssid, psk) of
         (None, None) \<Rightarrow> Inr r
       | (Some s, Some p) \<Rightarrow>
           if length p > PSK_MAX_LEN then Inl RcBadNetwork
           else (case creds_new s p of Inl _ \<Rightarrow> Inl RcBadNetwork | Inr c \<Rightarrow> Inr (r\<lparr>sr_network := Some c\<rparr>))
       | _ \<Rightarrow> Inl RcBadNetwork)) = Inr r \<longleftrightarrow>
     (\<exists>net. network_of m = Inr net \<and> r = (fields_of m)\<lparr>sr_network := net\<rparr>)" for m
    by (auto simp: network_of_def fields_of_def split: option.splits if_splits sum.splits)
  show ?thesis
    unfolding record_decode_def rbind_Inr_iff record_scan_start using net by blast
qed

section \<open>What the writer leaves\<close>

definition writer_bytes :: "record_writer \<Rightarrow> bytes" where
  "writer_bytes w = take (rwr_len w) (rwr_buf w)"

definition writer_wf :: "record_writer \<Rightarrow> bool" where
  "writer_wf w \<longleftrightarrow> rwr_len w \<le> length (rwr_buf w)"

lemma writer_push_spec:
  assumes "writer_push w t v = (Inr u, w')" and "writer_wf w"
  shows "writer_bytes w' = writer_bytes w @ entry_bytes t v \<and> writer_wf w' \<and> length v < 65536"
proof -
  have fits: "rwr_len w + 3 + length v \<le> length (rwr_buf w)" "\<not> length v > 65535"
    using assms(1) by (auto simp: writer_push_def Let_def split: if_splits)
  then have w': "w' = \<lparr>rwr_buf = write_at (write_at (write_at (rwr_buf w) (rwr_len w) [t]) (rwr_len w + 1)
      (be_bytes 2 (of_nat (length v) :: u16))) (rwr_len w + 3) v, rwr_len = rwr_len w + 3 + length v\<rparr>"
    using assms(1) by (simp add: writer_push_def Let_def)
  obtain pre post where buf: "rwr_buf w = pre @ post" "length pre = rwr_len w"
    using assms(2) by (metis append_take_drop_id length_take min.absorb2 writer_wf_def)
  then have post: "3 + length v \<le> length post"
    using fits(1) by simp
  have two: "length (be_bytes 2 (of_nat (length v) :: u16)) = 2"
    by simp
  show ?thesis
    using fits post unfolding w' writer_bytes_def writer_wf_def
    by (simp add: buf(1) flip: buf(2)) (simp add: write_at_def entry_bytes_def numeral_3_eq_3)
qed

text \<open>A browser's settings, one per writer operation: the calls, the entries they write, what the decoder
  asks of them and the field each sets.\<close>

datatype setting =
    SetNetwork bytes bytes | SetName bytes | SetMaker bytes | SetBlinkMs u32 | SetFps u8 | SetSetupV bytes
  | SetAdoption bytes

fun write_setting :: "record_writer \<Rightarrow> setting \<Rightarrow> (err + unit) \<times> record_writer" where
  "write_setting w (SetNetwork ssid psk) = writer_network w ssid psk"
| "write_setting w (SetName n) = writer_name w n"
| "write_setting w (SetMaker d) = writer_maker w d"
| "write_setting w (SetBlinkMs ms) = writer_blink_ms w ms"
| "write_setting w (SetFps f) = writer_fps w f"
| "write_setting w (SetSetupV v) = writer_setup_v w v"
| "write_setting w (SetAdoption a) = writer_adoption w a"

fun write_settings :: "record_writer \<Rightarrow> setting list \<Rightarrow> (err + unit) \<times> record_writer" where
  "write_settings w [] = (Inr (), w)"
| "write_settings w (s # ss) = (case write_setting w s of (Inl e, w) \<Rightarrow> (Inl e, w) | (Inr _, w) \<Rightarrow> write_settings w ss)"

fun setting_entries :: "setting \<Rightarrow> (u8 \<times> bytes) list" where
  "setting_entries (SetNetwork ssid psk) = [(RT_SSID, ssid), (RT_PSK, psk)]"
| "setting_entries (SetName n) = [(RT_NAME, n)]"
| "setting_entries (SetMaker d) = [(RT_MAKER, d)]"
| "setting_entries (SetBlinkMs ms) = [(RT_BLINK_MS, be_bytes 4 ms)]"
| "setting_entries (SetFps f) = [(RT_FPS, [f])]"
| "setting_entries (SetSetupV v) = [(RT_SETUP_V, v)]"
| "setting_entries (SetAdoption a) = [(RT_ADOPTION, a)]"

fun setting_ok :: "('s, 'p) checks \<Rightarrow> setting \<Rightarrow> bool" where
  "setting_ok K (SetNetwork ssid psk) \<longleftrightarrow> length psk \<le> PSK_MAX_LEN \<and> is_ok (creds_new ssid psk)"
| "setting_ok K (SetName n) \<longleftrightarrow> name_ok n"
| "setting_ok K (SetMaker d) \<longleftrightarrow> utf8_chars d \<noteq> None \<and> ck_did K d"
| "setting_ok K (SetBlinkMs ms) \<longleftrightarrow> True"
| "setting_ok K (SetFps f) \<longleftrightarrow> True"
| "setting_ok K (SetSetupV v) \<longleftrightarrow> is_ok (verifier_decode (ck_curve K) v)"
| "setting_ok K (SetAdoption a) \<longleftrightarrow> ck_adoption K a"

fun set_field :: "settings_record \<Rightarrow> setting \<Rightarrow> settings_record" where
  "set_field r (SetNetwork ssid psk) = r\<lparr>sr_network := (case creds_new ssid psk of Inr c \<Rightarrow> Some c | Inl _ \<Rightarrow> None)\<rparr>"
| "set_field r (SetName n) = r\<lparr>sr_name := Some n\<rparr>"
| "set_field r (SetMaker d) = r\<lparr>sr_maker := Some d\<rparr>"
| "set_field r (SetBlinkMs ms) = r\<lparr>sr_blink_ms := Some ms\<rparr>"
| "set_field r (SetFps f) = r\<lparr>sr_fps := Some f\<rparr>"
| "set_field r (SetSetupV v) = r\<lparr>sr_setup_v := Some v\<rparr>"
| "set_field r (SetAdoption a) = r\<lparr>sr_adoption := Some a\<rparr>"

lemma record_bytes_append: "record_bytes (es @ es') = record_bytes es @ record_bytes es'"
  by (induction es rule: record_bytes.induct) auto

lemmas writer_defs = writer_network_def writer_name_def writer_maker_def writer_blink_ms_def writer_fps_def
  writer_setup_v_def writer_adoption_def

lemma write_setting_spec:
  "write_setting w s = (Inr u, w') \<Longrightarrow> writer_wf w \<Longrightarrow>
     writer_bytes w' = writer_bytes w @ record_bytes (setting_entries s) \<and> writer_wf w' \<and>
     (\<forall>e\<in>set (setting_entries s). length (snd e) < 65536)"
  by (cases s) (auto simp: writer_defs dest!: writer_push_spec split: prod.splits sum.splits)

lemma write_settings_spec:
  "write_settings w ss = (Inr u, w') \<Longrightarrow> writer_wf w \<Longrightarrow>
     writer_bytes w' = writer_bytes w @ record_bytes (concat (map setting_entries ss)) \<and>
     (\<forall>e\<in>set (concat (map setting_entries ss)). length (snd e) < 65536)"
  by (induction w ss rule: write_settings.induct)
    (auto simp: record_bytes_append dest!: write_setting_spec split: prod.splits sum.splits)

lemma setting_entries_ok:
  "setting_ok K s \<Longrightarrow> \<forall>e\<in>set (setting_entries s). length (snd e) < 65536 \<Longrightarrow> list_all (entry_ok K) (setting_entries s)"
  by (cases s) (simp_all add: entry_ok_def tag_defs tag_bit_def)

text \<open>The record of a whole map of entries, its network included.\<close>

definition record_of :: "(u8 \<rightharpoonup> bytes) \<Rightarrow> settings_record" where
  "record_of m = (fields_of m)\<lparr>sr_network := (case network_of m of Inr n \<Rightarrow> n | Inl _ \<Rightarrow> None)\<rparr>"

lemma record_of_set_field:
  "setting_ok K s \<Longrightarrow> record_of (m ++ map_of (setting_entries s)) = set_field (record_of m) s"
  by (cases s)
    (auto simp: record_of_def fields_of_def network_of_def tag_defs is_ok_iff not_less map_add_def split: option.splits)

lemma network_of_set_field:
  "setting_ok K s \<Longrightarrow> is_ok (network_of m) \<Longrightarrow> is_ok (network_of (m ++ map_of (setting_entries s)))"
  by (cases s) (auto simp: network_of_def tag_defs is_ok_iff not_less map_add_def split: option.splits)

lemma settings_record_of:
  "list_all (setting_ok K) ss \<Longrightarrow> distinct (map fst (concat (map setting_entries ss))) \<Longrightarrow>
     record_of (map_of (concat (map setting_entries ss))) = foldl set_field record_default ss \<and>
     is_ok (network_of (map_of (concat (map setting_entries ss))))"
proof (induction ss rule: rev_induct)
  case Nil
  then show ?case by (simp add: record_of_def network_of_def fields_of_def record_default_def)
next
  case (snoc s ss)
  let ?m = "map_of (concat (map setting_entries ss))"
  have "dom ?m \<inter> dom (map_of (setting_entries s)) = {}"
    using snoc.prems(2) by (auto simp: dom_map_of_conv_image_fst)
  then have "map_of (concat (map setting_entries (ss @ [s]))) = ?m ++ map_of (setting_entries s)"
    by (simp add: map_add_comm)
  then show ?case
    using snoc record_of_set_field[of K s ?m] network_of_set_field[of K s ?m] by auto
qed

section \<open>Properties\<close>

text \<open>C35: A settings record is accepted exactly when it is a sequence of entries with known, different
  tags, each passing its check, whose network is absent or whole and valid; what is decoded is then
  those entries, in whatever order they came.\<close>

theorem record_decode_exact:
  "record_decode K bs = Inr r \<longleftrightarrow>
     (\<exists>es net. bs = record_bytes es \<and> entries_ok K es \<and> network_of (map_of es) = Inr net \<and>
        r = (fields_of (map_of es))\<lparr>sr_network := net\<rparr>)"
  by (rule record_decode_iff)

text \<open>C36: What a browser writes, setting by setting and each at most once, the device decodes to the
  record of those settings.\<close>

theorem settings_round_trip:
  assumes "write_settings (writer_new buf) ss = (Inr u, w)"
    and "list_all (setting_ok K) ss" and "distinct (map fst (concat (map setting_entries ss)))"
  shows "record_decode K (take (rwr_len w) (rwr_buf w)) = Inr (foldl set_field record_default ss)"
proof -
  let ?es = "concat (map setting_entries ss)"
  have "writer_wf (writer_new buf)" "writer_bytes (writer_new buf) = []"
    by (simp_all add: writer_wf_def writer_bytes_def writer_new_def)
  with write_settings_spec[OF assms(1)] have w: "take (rwr_len w) (rwr_buf w) = record_bytes ?es"
    and len: "\<forall>e\<in>set ?es. length (snd e) < 65536"
    by (simp_all add: writer_bytes_def)
  have "list_all (entry_ok K) (setting_entries s)" if "s \<in> set ss" for s
    using that assms(2) len by (intro setting_entries_ok) (auto simp: list_all_iff)
  then have ok: "entries_ok K ?es"
    using assms(3) by (auto simp: entries_ok_def list_all_iff)
  show ?thesis
    unfolding w record_decode_iff using ok settings_record_of[OF assms(2,3)]
    by (intro exI[of _ ?es]) (auto simp: record_of_def is_ok_iff)
qed

theorem settings_round_trip_witness:
  "record_decode \<lparr>ck_curve = toy_curve, ck_did = \<lambda>_. False, ck_adoption = \<lambda>_. False\<rparr>
     [6, 0, 1, 9, 3, 0, 2, 104, 105] = Inr (record_default\<lparr>sr_name := Some [104, 105], sr_fps := Some 9\<rparr>)"
proof -
  let ?K = "\<lparr>ck_curve = toy_curve, ck_did = \<lambda>_. False, ck_adoption = \<lambda>_. False\<rparr>"
  let ?ss = "[SetFps 9, SetName [104, 105]]"
  have "be_bytes 2 x = [of_nat (unat x div 256), of_nat (unat x)]" for x :: u16
    by (simp add: be_bytes_def numeral_2_eq_2)
  then have be2: "be_bytes 2 (1 :: u16) = [0, 1]" "be_bytes 2 (2 :: u16) = [0, 2]"
    by simp_all
  have w: "write_settings (writer_new [0, 0, 0, 0, 0, 0, 0, 0, 0]) ?ss =
      (Inr (), \<lparr>rwr_buf = [6, 0, 1, 9, 3, 0, 2, 104, 105], rwr_len = 9\<rparr>)"
    by (simp add: writer_fps_def writer_name_def writer_push_def writer_new_def tag_defs write_at_def be2)
  have ok: "list_all (setting_ok ?K) ?ss" "distinct (map fst (concat (map setting_entries ?ss)))"
    by (simp_all add: tag_defs name_ok_def NAME_MAX_LEN_def is_control_def)
  show ?thesis
    using settings_round_trip[OF w ok] by (simp add: record_default_def)
qed

end
