(* ===== verification/Scan_List.thy ===== *)
theory Scan_List
  imports Wifi
begin

text \<open>
  The networks of a Wi-Fi scan (\<open>crates/rusty_esp_signal-core/src/provision.rs\<close>, \<open>ScanEntry\<close> and
  \<open>ScanList\<close>): the TLV form of one, and the list that keeps the strongest, one per name. The const generic
  \<open>N\<close> is an argument. A signal strength is an \<open>i8\<close>, read with \<open>sint\<close>.
\<close>

section \<open>Entries\<close>

definition TAG_RSSI :: u8 where "TAG_RSSI = 3"
definition TAG_SECURED :: u8 where "TAG_SECURED = 4"
definition SCAN_ENTRIES :: nat where "SCAN_ENTRIES = 8"
definition SCAN_MAX_LEN :: nat where "SCAN_MAX_LEN = 240"

record scan_entry =
  sn_ssid :: bytes
  sn_ssid_len :: u8
  sn_rssi_dbm :: i8
  sn_secured :: bool

definition scan_entry_new :: "bytes \<Rightarrow> i8 \<Rightarrow> bool \<Rightarrow> err + scan_entry" where
  "scan_entry_new ssid rssi_dbm secured =
     (if ssid = [] \<or> length ssid > SSID_MAX_LEN then Inl InvalidFormat
      else Inr \<lparr>sn_ssid = write_at (replicate SSID_MAX_LEN 0) 0 ssid, sn_ssid_len = of_nat (length ssid),
                sn_rssi_dbm = rssi_dbm, sn_secured = secured\<rparr>)"

definition entry_ssid :: "scan_entry \<Rightarrow> bytes" where
  "entry_ssid e = take (unat (sn_ssid_len e)) (sn_ssid e)"

definition entry_encoded_len :: "scan_entry \<Rightarrow> nat" where
  "entry_encoded_len e = 2 + unat (sn_ssid_len e) + 3 + 3"

definition entry_encode :: "scan_entry \<Rightarrow> bytes \<Rightarrow> (err + nat) \<times> bytes" where
  "entry_encode e out =
     (let needed = entry_encoded_len e in
      if length out < needed then (Inl (BufferTooSmall needed), out)
      else
        let n = unat (sn_ssid_len e);
            out = write_at out 0 [TAG_SSID];
            out = write_at out 1 [sn_ssid_len e];
            out = write_at out 2 (entry_ssid e);
            out = write_at out (2 + n) [TAG_RSSI, 1, sn_rssi_dbm e];
            out = write_at out (5 + n) [TAG_SECURED, 1, if sn_secured e then 1 else 0]
        in (Inr needed, out))"

text \<open>The loop of \<open>decode\<close>: what is left, the name, strength and flag so far, the bytes consumed.\<close>

function entry_scan ::
  "bytes \<Rightarrow> bytes option \<Rightarrow> i8 \<Rightarrow> bool \<Rightarrow> nat \<Rightarrow> err + (bytes option \<times> i8 \<times> bool \<times> nat)" where
  "entry_scan rest ssid rssi secured consumed =
     (case rest of
        [] \<Rightarrow> Inr (ssid, rssi, secured, consumed)
      | tag # after_tag \<Rightarrow>
          if tag = TAG_SSID \<and> ssid \<noteq> None then Inr (ssid, rssi, secured, consumed)
          else case after_tag of
            [] \<Rightarrow> Inl InvalidFormat
          | len # after_len \<Rightarrow>
              if length after_len < unat len then Inl InvalidFormat
              else
                let value = take (unat len) after_len; tail = drop (unat len) after_len;
                    ssid = (if tag = TAG_SSID then Some value else ssid);
                    rssi = (if tag = TAG_RSSI \<and> len = 1 then value ! 0 else rssi);
                    secured = (if tag = TAG_SECURED \<and> len = 1 then value ! 0 \<noteq> 0 else secured)
                in entry_scan tail ssid rssi secured (consumed + (2 + unat len)))"
  by pat_completeness auto
termination
  by (relation "measure (\<lambda>(rest, _). length rest)") auto

declare entry_scan.simps [simp del]

definition entry_decode :: "bytes \<Rightarrow> err + (scan_entry \<times> nat)" where
  "entry_decode bs =
     rbind (entry_scan bs None 0 False 0) (\<lambda>(ssid, rssi, secured, consumed).
       rbind (ok_or ssid InvalidFormat) (\<lambda>ssid.
         rbind (scan_entry_new ssid rssi secured) (\<lambda>e. Inr (e, consumed))))"

section \<open>The list\<close>

record scan_list =
  ls_entries :: "scan_entry list"
  ls_len :: nat

definition EMPTY_ENTRY :: scan_entry where
  "EMPTY_ENTRY = \<lparr>sn_ssid = replicate SSID_MAX_LEN 0, sn_ssid_len = 0, sn_rssi_dbm = 0x80, sn_secured = False\<rparr>"

definition scan_new :: "nat \<Rightarrow> scan_list" where
  "scan_new N = \<lparr>ls_entries = replicate N EMPTY_ENTRY, ls_len = 0\<rparr>"

text \<open>\<open>for j in at..len - 1 { entries[j] = entries[j + 1] }\<close>.\<close>

fun shift_down :: "nat \<Rightarrow> nat \<Rightarrow> 'a list \<Rightarrow> 'a list" where
  "shift_down j 0 xs = xs"
| "shift_down j (Suc n) xs = shift_down (j + 1) n (xs[j := xs ! (j + 1)])"

text \<open>The insertion loop, from slot \<open>i\<close> down.\<close>

fun insert_from :: "scan_entry \<Rightarrow> nat \<Rightarrow> scan_entry list \<Rightarrow> scan_entry list" where
  "insert_from e 0 xs = xs[0 := e]"
| "insert_from e (Suc i) xs =
     (if sint (sn_rssi_dbm (xs ! i)) < sint (sn_rssi_dbm e) then insert_from e i (xs[Suc i := xs ! i])
      else xs[Suc i := e])"

definition scan_insert :: "nat \<Rightarrow> scan_entry \<Rightarrow> scan_list \<Rightarrow> scan_list" where
  "scan_insert N e l =
     (if ls_len l = N \<and> sint (sn_rssi_dbm e) \<le> sint (sn_rssi_dbm (ls_entries l ! (N - 1))) then l
      else
        let len = (if ls_len l = N then ls_len l - 1 else ls_len l)
        in \<lparr>ls_entries = insert_from e len (ls_entries l), ls_len = len + 1\<rparr>)"

definition scan_push :: "nat \<Rightarrow> scan_list \<Rightarrow> scan_entry \<Rightarrow> scan_list" where
  "scan_push N l e =
     (case position (\<lambda>f. entry_ssid f = entry_ssid e) (take (ls_len l) (ls_entries l)) of
        Some at \<Rightarrow>
          if sint (sn_rssi_dbm e) \<le> sint (sn_rssi_dbm (ls_entries l ! at)) then l
          else scan_insert N e
            \<lparr>ls_entries = shift_down at (ls_len l - 1 - at) (ls_entries l), ls_len = ls_len l - 1\<rparr>
      | None \<Rightarrow> scan_insert N e l)"

definition scan_clear :: "scan_list \<Rightarrow> scan_list" where
  "scan_clear l = l\<lparr>ls_len := 0\<rparr>"

definition scan_entries :: "scan_list \<Rightarrow> scan_entry list" where
  "scan_entries l = take (ls_len l) (ls_entries l)"

definition scan_is_empty :: "scan_list \<Rightarrow> bool" where
  "scan_is_empty l \<longleftrightarrow> ls_len l = 0"

fun scan_encode_loop :: "scan_entry list \<Rightarrow> nat \<Rightarrow> nat \<Rightarrow> bytes \<Rightarrow> (err + nat) \<times> bytes" where
  "scan_encode_loop [] cap written out = (Inr written, out)"
| "scan_encode_loop (e # es) cap written out =
     (let n = entry_encoded_len e in
      if written + n > cap then (Inr written, out)
      else case entry_encode e (take n (drop written out)) of
        (Inl err, s) \<Rightarrow> (Inl err, write_at out written s)
      | (Inr _, s) \<Rightarrow> scan_encode_loop es cap (written + n) (write_at out written s))"

definition scan_encode :: "scan_list \<Rightarrow> bytes \<Rightarrow> (err + nat) \<times> bytes" where
  "scan_encode l out = scan_encode_loop (scan_entries l) (min (length out) SCAN_MAX_LEN) 0 out"

lemma entry_scan_step:
  "entry_scan (tag # len # after) ssid rssi sec c = Inr r \<Longrightarrow> tag = TAG_SSID \<and> ssid \<noteq> None \<and> r = (ssid, rssi, sec, c) \<or>
     unat len \<le> length after \<and> (\<exists>rssi' sec'. entry_scan (drop (unat len) after)
       (if tag = TAG_SSID then Some (take (unat len) after) else ssid) rssi' sec' (c + (2 + unat len)) = Inr r)"
  by (subst (asm) entry_scan.simps) (auto simp: Let_def split: if_splits)

lemma entry_scan_consumed:
  "entry_scan rest ssid rssi sec c = Inr (ssid', rssi', sec', c') \<Longrightarrow>
     c \<le> c' \<and> c' \<le> c + length rest \<and> (ssid = None \<longrightarrow> ssid' \<noteq> None \<longrightarrow> c < c')"
proof (induction rest arbitrary: ssid rssi sec c rule: length_induct)
  case (1 rest)
  consider "rest = []" | tag where "rest = [tag]" | tag len after where "rest = tag # len # after"
    by (cases rest rule: list.exhaust; cases "tl rest" rule: list.exhaust) auto
  then show ?case
  proof cases
    case 1
    then show ?thesis using "1.prems" by (simp add: entry_scan.simps)
  next
    case 2
    then show ?thesis using "1.prems" by (auto simp: entry_scan.simps split: if_splits)
  next
    case 3
    then consider "ssid \<noteq> None" "c' = c" | rssi'' sec'' where "unat len \<le> length after"
        "entry_scan (drop (unat len) after) (if tag = TAG_SSID then Some (take (unat len) after) else ssid) rssi'' sec''
          (c + (2 + unat len)) = Inr (ssid', rssi', sec', c')"
      using entry_scan_step[of tag len after ssid rssi sec c "(ssid', rssi', sec', c')"] "1.prems" by auto
    then show ?thesis
    proof cases
      case 1
      then show ?thesis by auto
    next
      case 2
      moreover have "length (drop (unat len) after) < length rest"
        using 3 by simp
      ultimately have "c + (2 + unat len) \<le> c' \<and> c' \<le> c + (2 + unat len) + length (drop (unat len) after)"
        using "1.IH" by blast
      then show ?thesis
        using 2(1) 3 by simp
    qed
  qed
qed

lemma entry_decode_consumed: "entry_decode bs = Inr (e, n) \<Longrightarrow> 0 < n \<and> n \<le> length bs"
  using entry_scan_consumed[of bs None 0 False 0] by (auto simp: entry_decode_def rbind_Inr_iff ok_or_Inr_iff)

function scan_decode_loop :: "nat \<Rightarrow> bytes \<Rightarrow> scan_list \<Rightarrow> err + scan_list" where
  "scan_decode_loop N rest l =
     (if rest = [] then Inr l
      else case entry_decode rest of
        Inl e \<Rightarrow> Inl e
      | Inr (e, n) \<Rightarrow> scan_decode_loop N (drop n rest) (scan_push N l e))"
  by pat_completeness auto
termination
  by (relation "measure (\<lambda>(N, rest, l). length rest)") (auto dest: entry_decode_consumed)

declare scan_decode_loop.simps [simp del]

definition scan_decode :: "nat \<Rightarrow> bytes \<Rightarrow> err + scan_list" where
  "scan_decode N bs = scan_decode_loop N bs (scan_new N)"

section \<open>The strongest of each name\<close>

abbreviation strength :: "scan_entry \<Rightarrow> int" where
  "strength e \<equiv> sint (sn_rssi_dbm e)"

definition scan_wf :: "nat \<Rightarrow> scan_list \<Rightarrow> bool" where
  "scan_wf N l \<longleftrightarrow> length (ls_entries l) = N \<and> ls_len l \<le> N"

text \<open>Where the loop puts an entry: after every one at least as strong, before the rest.\<close>

definition placed :: "scan_entry \<Rightarrow> scan_entry list \<Rightarrow> scan_entry list \<Rightarrow> bool" where
  "placed e ys zs \<longleftrightarrow> (\<exists>a b. ys = a @ b \<and> zs = a @ e # b \<and> (a \<noteq> [] \<longrightarrow> strength e \<le> strength (last a)) \<and>
     (\<forall>f\<in>set b. strength f < strength e))"

lemma length_insert_from [simp]: "length (insert_from e i xs) = length xs"
  by (induction i arbitrary: xs) auto

lemma insert_from_drop: "drop (Suc i) (insert_from e i xs) = drop (Suc i) xs"
proof (induction i arbitrary: xs)
  case (Suc i)
  have "drop (Suc (Suc i)) ys = drop 1 (drop (Suc i) ys)" for ys :: "scan_entry list"
    by simp
  then have "drop (Suc (Suc i)) (insert_from e i (xs[Suc i := xs ! i])) = drop (Suc (Suc i)) xs"
    by (simp only: Suc.IH) simp
  then show ?case by simp
qed simp

lemma insert_from_placed:
  "i < length xs \<Longrightarrow> placed e (take i xs) (take (Suc i) (insert_from e i xs))"
proof (induction i arbitrary: xs)
  case 0
  then show ?case by (cases xs) (auto simp: placed_def)
next
  case (Suc i)
  show ?case
  proof (cases "strength (xs ! i) < strength e")
    case True
    let ?xs = "xs[Suc i := xs ! i]"
    obtain a b where ab: "take i xs = a @ b" "take (Suc i) (insert_from e i ?xs) = a @ e # b"
      "a \<noteq> [] \<longrightarrow> strength e \<le> strength (last a)" "\<forall>f\<in>set b. strength f < strength e"
      using Suc.IH[of ?xs] Suc.prems by (auto simp: placed_def)
    have "insert_from e i ?xs ! Suc i = drop (Suc i) (insert_from e i ?xs) ! 0"
      using Suc.prems by simp
    also have "\<dots> = xs ! i"
      unfolding insert_from_drop using Suc.prems by simp
    finally have "take (Suc (Suc i)) (insert_from e i ?xs) = a @ e # b @ [xs ! i]"
      using Suc.prems ab(2) by (simp add: take_Suc_conv_app_nth)
    moreover have "take (Suc i) xs = a @ b @ [xs ! i]"
      using Suc.prems ab(1) by (simp add: take_Suc_conv_app_nth)
    ultimately show ?thesis
      using True ab(3,4) unfolding placed_def by - (rule exI[of _ a], rule exI[of _ "b @ [xs ! i]"], auto)
  next
    case False
    then have "take (Suc (Suc i)) (insert_from e (Suc i) xs) = take (Suc i) xs @ [e]"
      using Suc.prems by (simp add: take_Suc_conv_app_nth)
    moreover have "last (take (Suc i) xs) = xs ! i"
      using Suc.prems by (simp add: take_Suc_conv_app_nth)
    ultimately show ?thesis
      using False unfolding placed_def by - (rule exI[of _ "take (Suc i) xs"], rule exI[of _ "[]"], auto)
  qed
qed

lemma shift_down_eq:
  "at + n < length xs \<Longrightarrow> length (shift_down at n xs) = length xs \<and>
     take (at + n) (shift_down at n xs) = take at xs @ drop (Suc at) (take (Suc (at + n)) xs)"
proof (induction n arbitrary: at xs)
  case (Suc n)
  let ?xs = "xs[at := xs ! (at + 1)]"
  have IH: "length (shift_down (at + 1) n ?xs) = length ?xs"
    "take (at + 1 + n) (shift_down (at + 1) n ?xs) = take (at + 1) ?xs @ drop (Suc (at + 1)) (take (Suc (at + 1 + n)) ?xs)"
    using Suc.IH[of "at + 1" ?xs] Suc.prems by simp_all
  have "take (at + 1) ?xs = take at xs @ [xs ! (at + 1)]"
    using Suc.prems by (simp add: take_Suc_conv_app_nth)
  moreover have "drop (Suc (at + 1)) (take (Suc (at + 1 + n)) ?xs) = drop (Suc (at + 1)) (take (Suc (at + 1 + n)) xs)"
    by (simp add: drop_take)
  moreover have "drop (Suc at) (take (Suc (at + 1 + n)) xs) =
      xs ! (at + 1) # drop (Suc (at + 1)) (take (Suc (at + 1 + n)) xs)"
    using Suc.prems by (subst Cons_nth_drop_Suc[symmetric]) simp_all
  ultimately show ?case
    using IH by simp
qed simp

lemma placed_set: "placed e ys zs \<Longrightarrow> set zs = insert e (set ys)"
  by (auto simp: placed_def)

lemma placed_length: "placed e ys zs \<Longrightarrow> length zs = Suc (length ys)"
  by (auto simp: placed_def)

abbreviation descending :: "scan_entry list \<Rightarrow> bool" where
  "descending \<equiv> sorted_wrt (\<lambda>a b. strength b \<le> strength a)"

lemma descending_last: "descending ys \<Longrightarrow> f \<in> set ys \<Longrightarrow> strength (last ys) \<le> strength f"
  by (induction ys) auto

lemma placed_descending:
  assumes "placed e ys zs" and "descending ys"
  shows "descending zs"
proof -
  obtain a b where ab: "ys = a @ b" "zs = a @ e # b" "a \<noteq> [] \<longrightarrow> strength e \<le> strength (last a)"
    "\<forall>f\<in>set b. strength f < strength e"
    using assms(1) by (auto simp: placed_def)
  then have "\<forall>f\<in>set a. strength e \<le> strength f"
    using assms(2) descending_last[of a] by (fastforce simp: sorted_wrt_append)
  then show ?thesis
    using ab assms(2) by (auto simp: sorted_wrt_append less_imp_le)
qed

lemma placed_distinct: "placed e ys zs \<Longrightarrow> distinct (map f ys) \<Longrightarrow> f e \<notin> f ` set ys \<Longrightarrow> distinct (map f zs)"
  by (auto simp: placed_def)

text \<open>One insertion, on the listed entries: unchanged, or placed among them, the last making room when the
  list is full.\<close>

lemma scan_insert_entries:
  assumes "scan_wf N l" and "0 < N"
  shows "scan_wf N (scan_insert N e l) \<and>
    (if ls_len l = N \<and> strength e \<le> strength (last (scan_entries l)) then scan_entries (scan_insert N e l) = scan_entries l
     else placed e (if ls_len l = N then butlast (scan_entries l) else scan_entries l) (scan_entries (scan_insert N e l)))"
proof -
  have len: "length (ls_entries l) = N" "ls_len l \<le> N"
    using assms(1) by (simp_all add: scan_wf_def)
  have last: "ls_len l = N \<Longrightarrow> last (scan_entries l) = ls_entries l ! (N - 1)"
    using len assms(2) last_conv_nth[of "ls_entries l"] by (cases "ls_entries l") (simp_all add: scan_entries_def)
  let ?k = "if ls_len l = N then ls_len l - 1 else ls_len l"
  have "?k < length (ls_entries l)"
    using len assms(2) by auto
  from insert_from_placed[OF this, of e] have "placed e (take ?k (ls_entries l)) (take (Suc ?k) (insert_from e ?k (ls_entries l)))" .
  moreover have "take ?k (ls_entries l) = (if ls_len l = N then butlast (scan_entries l) else scan_entries l)"
    using len by (simp add: scan_entries_def butlast_conv_take)
  ultimately show ?thesis
    using len last assms(2) by (auto simp: scan_insert_def scan_wf_def scan_entries_def Let_def)
qed

lemma scan_entries_length: "scan_wf N l \<Longrightarrow> length (scan_entries l) = ls_len l"
  by (simp add: scan_wf_def scan_entries_def)

text \<open>One push, on the listed entries.\<close>

definition pushed :: "nat \<Rightarrow> scan_entry list \<Rightarrow> scan_entry \<Rightarrow> scan_entry list \<Rightarrow> bool" where
  "pushed N ys e zs \<longleftrightarrow>
     (\<exists>f\<in>set ys. entry_ssid f = entry_ssid e \<and> strength e \<le> strength f) \<and> zs = ys \<or>
     (\<exists>a f b. ys = a @ f # b \<and> entry_ssid f = entry_ssid e \<and> strength f < strength e \<and> placed e (a @ b) zs) \<or>
     (entry_ssid e \<notin> entry_ssid ` set ys \<and>
        (if length ys = N \<and> strength e \<le> strength (last ys) then zs = ys
         else placed e (if length ys = N then butlast ys else ys) zs))"

lemma scan_push_pushed:
  assumes "scan_wf N l" and "0 < N"
  shows "scan_wf N (scan_push N l e) \<and> pushed N (scan_entries l) e (scan_entries (scan_push N l e))"
proof (cases "position (\<lambda>f. entry_ssid f = entry_ssid e) (scan_entries l)")
  case None
  then have "scan_push N l e = scan_insert N e l"
    by (simp add: scan_push_def scan_entries_def)
  moreover have "entry_ssid e \<notin> entry_ssid ` set (scan_entries l)"
    using None by (auto simp: position_None)
  ultimately show ?thesis
    using scan_insert_entries[OF assms, of e] scan_entries_length[OF assms(1)] unfolding pushed_def by simp
next
  case (Some at)
  have at: "at < ls_len l" "entry_ssid (scan_entries l ! at) = entry_ssid e"
    using position_Some[OF Some] scan_entries_length[OF assms(1)] by auto
  have nth: "scan_entries l ! at = ls_entries l ! at"
    using at(1) by (simp add: scan_entries_def)
  show ?thesis
  proof (cases "strength e \<le> strength (ls_entries l ! at)")
    case True
    then have "scan_push N l e = l"
      using Some by (simp add: scan_push_def scan_entries_def)
    moreover have "scan_entries l ! at \<in> set (scan_entries l)"
      using at(1) scan_entries_length[OF assms(1)] by simp
    ultimately show ?thesis
      using True at(2) assms(1) unfolding pushed_def nth[symmetric] by auto
  next
    case False
    define l' where "l' = \<lparr>ls_entries = shift_down at (ls_len l - 1 - at) (ls_entries l), ls_len = ls_len l - 1\<rparr>"
    have push: "scan_push N l e = scan_insert N e l'"
      using Some False by (simp add: scan_push_def scan_entries_def l'_def)
    let ?a = "take at (scan_entries l)" and ?b = "drop (Suc at) (scan_entries l)"
    have "ls_len l - 1 < length (ls_entries l)"
      using at(1) assms(1) by (auto simp: scan_wf_def)
    then have "length (ls_entries l') = N" "take (ls_len l - 1) (ls_entries l') = ?a @ ?b"
      using shift_down_eq[of at "ls_len l - 1 - at" "ls_entries l"] at(1) assms(1)
      by (simp_all add: l'_def scan_wf_def scan_entries_def min_def)
    then have wf: "scan_wf N l'" and ent: "scan_entries l' = ?a @ ?b" and len: "ls_len l' < N"
      using at(1) assms(1) by (auto simp: l'_def scan_wf_def scan_entries_def)
    have "scan_entries l = ?a @ scan_entries l ! at # ?b"
      using at(1) scan_entries_length[OF assms(1)] by (simp add: id_take_nth_drop[symmetric])
    moreover have "placed e (?a @ ?b) (scan_entries (scan_insert N e l'))"
      using scan_insert_entries[OF wf assms(2), of e] len ent by simp
    moreover have "strength (scan_entries l ! at) < strength e"
      using False nth by simp
    ultimately have "pushed N (scan_entries l) e (scan_entries (scan_insert N e l'))"
      using at(2) unfolding pushed_def by blast
    then show ?thesis
      using scan_insert_entries[OF wf assms(2), of e] unfolding push by blast
  qed
qed

section \<open>The invariant of the list\<close>

text \<open>The entries listed after \<open>seen\<close> was pushed: strongest first, one per name, at most \<open>N\<close> of those seen,
  and no seen network is missing unless its name is listed as strong or the list is full of networks as
  strong.\<close>

definition keeps_strongest :: "nat \<Rightarrow> scan_entry set \<Rightarrow> scan_entry list \<Rightarrow> bool" where
  "keeps_strongest N seen ys \<longleftrightarrow> descending ys \<and> distinct (map entry_ssid ys) \<and> length ys \<le> N \<and> set ys \<subseteq> seen \<and>
     (\<forall>e\<in>seen. (\<exists>f\<in>set ys. entry_ssid f = entry_ssid e \<and> strength e \<le> strength f) \<or>
       (length ys = N \<and> (\<forall>f\<in>set ys. strength e \<le> strength f)))"

lemma keeps_strongest_replaced:
  assumes "keeps_strongest N seen (a @ f # b)" and "entry_ssid f = entry_ssid e" and "strength f < strength e"
    and "placed e (a @ b) zs"
  shows "keeps_strongest N (insert e seen) zs"
proof -
  have k: "descending (a @ b)" "distinct (map entry_ssid (a @ b))" "entry_ssid e \<notin> entry_ssid ` set (a @ b)"
    "length (a @ b) < N" "set (a @ b) \<subseteq> seen"
    using assms(1,2) by (auto simp: keeps_strongest_def sorted_wrt_append)
  have z: "set zs = insert e (set (a @ b))" "length zs = length (a @ f # b)"
    using placed_set[OF assms(4)] placed_length[OF assms(4)] by simp_all
  have cover: "(\<exists>h\<in>set zs. entry_ssid h = entry_ssid x \<and> strength x \<le> strength h) \<or>
      (length zs = N \<and> (\<forall>h\<in>set zs. strength x \<le> strength h))" if "x \<in> insert e seen" for x
  proof (cases "x = e")
    case True
    then show ?thesis using z(1) by auto
  next
    case False
    then have "(\<exists>h\<in>set (a @ f # b). entry_ssid h = entry_ssid x \<and> strength x \<le> strength h) \<or>
        (length (a @ f # b) = N \<and> (\<forall>h\<in>set (a @ f # b). strength x \<le> strength h))"
      using assms(1) that unfolding keeps_strongest_def by blast
    then show ?thesis
      unfolding z using assms(2,3) by (auto intro: order_trans less_imp_le)
  qed
  show ?thesis
    unfolding keeps_strongest_def
    using placed_descending[OF assms(4) k(1)] placed_distinct[OF assms(4) k(2,3)] k(4,5) z cover by auto
qed

lemma keeps_strongest_added:
  assumes "keeps_strongest N seen ys" and "entry_ssid e \<notin> entry_ssid ` set ys" and "length ys < N" and "placed e ys zs"
  shows "keeps_strongest N (insert e seen) zs"
  using assms placed_descending[OF assms(4)] placed_distinct[OF assms(4), of entry_ssid] placed_set[OF assms(4)]
    placed_length[OF assms(4)]
  unfolding keeps_strongest_def by auto

lemma keeps_strongest_evicting:
  assumes "keeps_strongest N seen ys" and "entry_ssid e \<notin> entry_ssid ` set ys" and "length ys = N" and "0 < N"
    and "strength (last ys) < strength e" and "placed e (butlast ys) zs"
  shows "keeps_strongest N (insert e seen) zs"
proof -
  obtain us d where us: "ys = us @ [d]"
    using assms(3,4) by (cases ys rule: rev_cases) auto
  have k: "descending us" "distinct (map entry_ssid us)" "entry_ssid e \<notin> entry_ssid ` set us" "set us \<subseteq> seen"
    "\<forall>f\<in>set us. strength d \<le> strength f" "placed e us zs" "strength d < strength e"
    using assms by (auto simp: keeps_strongest_def sorted_wrt_append us)
  have z: "set zs = insert e (set us)" "length zs = N"
    using placed_set[OF k(6)] placed_length[OF k(6)] assms(3) us by simp_all
  have cover: "(\<exists>h\<in>set zs. entry_ssid h = entry_ssid x \<and> strength x \<le> strength h) \<or>
      (length zs = N \<and> (\<forall>h\<in>set zs. strength x \<le> strength h))" if "x \<in> insert e seen" for x
  proof (cases "x = e")
    case True
    then show ?thesis using z(1) by auto
  next
    case False
    then have "(\<exists>h\<in>set us. entry_ssid h = entry_ssid x \<and> strength x \<le> strength h) \<or> strength x \<le> strength d"
      using assms(1) that unfolding keeps_strongest_def us by auto
    then show ?thesis
      unfolding z using k(5,7) by force
  qed
  show ?thesis
    unfolding keeps_strongest_def
    using placed_descending[OF k(6,1)] placed_distinct[OF k(6,2,3)] k(4) z cover by auto
qed

lemma keeps_strongest_pushed:
  assumes "keeps_strongest N seen ys" and "0 < N" and "pushed N ys e zs"
  shows "keeps_strongest N (insert e seen) zs"
  using assms(3) unfolding pushed_def
proof (elim disjE exE conjE)
  assume "\<exists>f\<in>set ys. entry_ssid f = entry_ssid e \<and> strength e \<le> strength f" and "zs = ys"
  then show ?thesis
    using assms(1) unfolding keeps_strongest_def by blast
next
  fix a f b
  assume "ys = a @ f # b" "entry_ssid f = entry_ssid e" "strength f < strength e" "placed e (a @ b) zs"
  then show ?thesis
    using keeps_strongest_replaced assms(1) by blast
next
  assume new: "entry_ssid e \<notin> entry_ssid ` set ys"
    and step: "if length ys = N \<and> strength e \<le> strength (last ys) then zs = ys
      else placed e (if length ys = N then butlast ys else ys) zs"
  consider "length ys < N" | "length ys = N" "strength e \<le> strength (last ys)" | "length ys = N" "strength (last ys) < strength e"
    using assms(1) by (auto simp: keeps_strongest_def not_le) (meson nat_less_le not_less)
  then show ?thesis
  proof cases
    case 1
    then show ?thesis using keeps_strongest_added[OF assms(1) new] step by simp
  next
    case 2
    then have "\<forall>f\<in>set ys. strength e \<le> strength f"
      using assms(1) descending_last[of ys] unfolding keeps_strongest_def by (meson order_trans)
    then show ?thesis
      using 2 step assms(1) unfolding keeps_strongest_def by auto
  next
    case 3
    then show ?thesis using keeps_strongest_evicting[OF assms(1) new _ assms(2)] step by simp
  qed
qed

lemma scan_new_wf: "scan_wf N (scan_new N)" "scan_entries (scan_new N) = []"
  by (simp_all add: scan_wf_def scan_new_def scan_entries_def)

lemma scan_pushes:
  assumes "0 < N"
  shows "scan_wf N (foldl (scan_push N) (scan_new N) es) \<and>
    keeps_strongest N (set es) (scan_entries (foldl (scan_push N) (scan_new N) es))"
proof (induction es rule: rev_induct)
  case Nil
  then show ?case by (simp add: scan_new_wf keeps_strongest_def)
next
  case (snoc e es)
  then show ?case
    using scan_push_pushed[OF _ assms] keeps_strongest_pushed[OF _ assms] by fastforce
qed

section \<open>The scan value\<close>

definition entry_wf :: "scan_entry \<Rightarrow> bool" where
  "entry_wf e \<longleftrightarrow> scan_entry_new (entry_ssid e) (sn_rssi_dbm e) (sn_secured e) = Inr e"

definition entry_value :: "scan_entry \<Rightarrow> bytes" where
  "entry_value e = TAG_SSID # sn_ssid_len e # entry_ssid e @ [TAG_RSSI, 1, sn_rssi_dbm e] @
     [TAG_SECURED, 1, if sn_secured e then 1 else 0]"

text \<open>The longest run of entries from the front that fits.\<close>

fun fitting :: "nat \<Rightarrow> scan_entry list \<Rightarrow> scan_entry list" where
  "fitting cap [] = []"
| "fitting cap (e # es) = (if entry_encoded_len e \<le> cap then e # fitting (cap - entry_encoded_len e) es else [])"

lemma scan_entry_new_wf: "scan_entry_new ssid rssi sec = Inr e \<Longrightarrow> entry_wf e \<and> entry_ssid e = ssid"
  by (auto simp: scan_entry_new_def entry_wf_def entry_ssid_def SSID_MAX_LEN_def write_at_0 unat_of_nat split: if_splits)

lemma entry_wf_len: "entry_wf e \<Longrightarrow> length (entry_ssid e) = unat (sn_ssid_len e) \<and> entry_ssid e \<noteq> [] \<and> unat (sn_ssid_len e) \<le> 32"
proof -
  assume e: "entry_wf e"
  then have l: "entry_ssid e \<noteq> []" "length (entry_ssid e) \<le> 32" "sn_ssid_len e = of_nat (length (entry_ssid e))"
    by (auto simp: entry_wf_def scan_entry_new_def SSID_MAX_LEN_def split: if_splits dest: arg_cong[of _ _ sn_ssid_len])
  then have "unat (sn_ssid_len e) = length (entry_ssid e)"
    by (simp add: unat_of_nat)
  with l show ?thesis by simp
qed

lemma length_entry_value: "entry_wf e \<Longrightarrow> length (entry_value e) = entry_encoded_len e"
  using entry_wf_len[of e] by (simp add: entry_value_def entry_encoded_len_def)

lemma entry_encode_eq:
  assumes "entry_wf e" and "length out = entry_encoded_len e"
  shows "entry_encode e out = (Inr (entry_encoded_len e), entry_value e)"
proof -
  have n: "length (entry_ssid e) = unat (sn_ssid_len e)"
    using entry_wf_len[OF assms(1)] by simp
  obtain a b t where out: "out = a # b # t" "length t = unat (sn_ssid_len e) + 6"
    using assms(2) by (cases out; cases "tl out") (auto simp: entry_encoded_len_def)
  obtain u v where t: "t = u @ v" "length u = unat (sn_ssid_len e)" "length v = 6"
    using out(2) by (metis add_diff_cancel_left' append_take_drop_id length_drop length_take le_add1 min.absorb2)
  show ?thesis
    using n t(2,3) by (simp add: entry_encode_def entry_encoded_len_def Let_def out(1) t(1) write_at_walk entry_value_def
        add.commute)
qed

lemma scan_encode_loop_eq:
  "\<forall>e\<in>set es. entry_wf e \<Longrightarrow> written \<le> cap \<Longrightarrow> cap \<le> length out \<Longrightarrow>
     \<exists>n out'. scan_encode_loop es cap written out = (Inr n, out') \<and> length out' = length out \<and>
       take n out' = take written out @ concat (map entry_value (fitting (cap - written) es))"
proof (induction es arbitrary: written out)
  case (Cons e es)
  let ?n = "entry_encoded_len e"
  show ?case
  proof (cases "written + ?n > cap")
    case True
    then have "\<not> ?n \<le> cap - written"
      using Cons.prems(2) by simp
    then show ?thesis using True by simp
  next
    case False
    then have enc: "entry_encode e (take ?n (drop written out)) = (Inr ?n, entry_value e)"
      using Cons.prems by (intro entry_encode_eq) simp_all
    let ?out = "write_at out written (entry_value e)"
    have len: "length (entry_value e) = ?n"
      using Cons.prems(1) length_entry_value by simp
    then have "length ?out = length out" "take (written + ?n) ?out = take written out @ entry_value e"
      using False Cons.prems(3) take_write_at[of written "entry_value e" out] by simp_all
    then obtain n out' where "scan_encode_loop es cap (written + ?n) ?out = (Inr n, out')" "length out' = length out"
      "take n out' = take written out @ entry_value e @ concat (map entry_value (fitting (cap - (written + ?n)) es))"
      using Cons.IH[of "written + ?n" ?out] Cons.prems False by auto
    then show ?thesis
      using False enc by (auto simp: Let_def)
  qed
qed simp

lemma entry_decode_value:
  assumes "entry_wf e" and "rest = [] \<or> hd rest = TAG_SSID"
  shows "entry_decode (entry_value e @ rest) = Inr (e, entry_encoded_len e)"
proof -
  let ?f = "if sn_secured e then 1 else (0 :: u8)"
  have n: "length (entry_ssid e) = unat (sn_ssid_len e)"
    using entry_wf_len[OF assms(1)] by simp
  have tags: "TAG_RSSI \<noteq> TAG_SSID" "TAG_SECURED \<noteq> TAG_SSID" "TAG_SECURED \<noteq> TAG_RSSI"
    by (simp_all add: TAG_RSSI_def TAG_SECURED_def TAG_SSID_def)
  have stop: "entry_scan rest (Some x) r s c = Inr (Some x, r, s, c)" for x r s c
    using assms(2) by (cases rest) (simp_all add: entry_scan.simps)
  have 3: "entry_scan (TAG_SECURED # 1 # ?f # rest) (Some x) r s c = Inr (Some x, r, sn_secured e, c + 3)" for x r s c
    using tags by (subst entry_scan.simps) (simp add: stop)
  have 2: "entry_scan (TAG_RSSI # 1 # v # TAG_SECURED # 1 # ?f # rest) (Some x) r s c = Inr (Some x, v, sn_secured e, c + 6)"
    for x r s c v
    using tags 3 by (subst entry_scan.simps) simp
  have "entry_scan (entry_value e @ rest) None 0 False 0 =
      Inr (Some (entry_ssid e), sn_rssi_dbm e, sn_secured e, entry_encoded_len e)"
    using n 2 tags by (subst entry_scan.simps) (simp add: entry_value_def entry_encoded_len_def Let_def)
  then show ?thesis
    using assms(1) by (simp add: entry_decode_def entry_wf_def)
qed

lemma scan_decode_values:
  "\<forall>e\<in>set es. entry_wf e \<Longrightarrow> scan_decode_loop N (concat (map entry_value es)) l = Inr (foldl (scan_push N) l es)"
proof (induction es arbitrary: l)
  case Nil
  then show ?case by (simp add: scan_decode_loop.simps)
next
  case (Cons e es)
  let ?rest = "concat (map entry_value es)"
  have "?rest = [] \<or> hd ?rest = TAG_SSID"
    by (cases es) (simp_all add: entry_value_def)
  then have d: "entry_decode (entry_value e @ ?rest) = Inr (e, entry_encoded_len e)"
    using Cons.prems by (intro entry_decode_value) simp_all
  have "entry_value e \<noteq> []" "length (entry_value e) = entry_encoded_len e"
    using Cons.prems length_entry_value by (simp_all add: entry_value_def)
  then show ?case
    using Cons d by (subst scan_decode_loop.simps) simp
qed

text \<open>Networks pushed strongest first, one per name, stay as they are.\<close>

lemma scan_push_sorted:
  assumes "0 < N"
  shows "descending es \<Longrightarrow> distinct (map entry_ssid es) \<Longrightarrow> length es \<le> N \<Longrightarrow>
    scan_entries (foldl (scan_push N) (scan_new N) es) = es"
proof (induction es rule: rev_induct)
  case (snoc e es)
  let ?l = "foldl (scan_push N) (scan_new N) es"
  have IH: "scan_entries ?l = es"
    using snoc by (simp add: sorted_wrt_append)
  have ge: "\<forall>f\<in>set es. strength e \<le> strength f" and new: "entry_ssid e \<notin> entry_ssid ` set es" and len: "length es < N"
    using snoc.prems by (auto simp: sorted_wrt_append)
  have "pushed N es e (scan_entries (scan_push N ?l e))"
    using scan_push_pushed[OF _ assms, of ?l e] scan_pushes[OF assms, of es] IH by auto
  moreover have "\<forall>f\<in>set es. entry_ssid f \<noteq> entry_ssid e"
    using new by (metis image_eqI)
  ultimately have "placed e es (scan_entries (scan_push N ?l e))"
    using len unfolding pushed_def by force
  then obtain a b where ab: "es = a @ b" "scan_entries (scan_push N ?l e) = a @ e # b" "\<forall>f\<in>set b. strength f < strength e"
    unfolding placed_def by blast
  then have "b = []"
    using ge by (cases b) auto
  then have "scan_entries (scan_push N ?l e) = es @ [e]"
    using ab by simp
  then show ?case by simp
qed (simp add: scan_new_wf)

lemma fitting_prefix: "\<exists>rest. es = fitting cap es @ rest"
  by (induction cap es rule: fitting.induct) auto

section \<open>Properties\<close>

text \<open>C34: However many networks a scan reports, in whatever order and with whatever repetitions, the list holds
  at most \<open>N\<close> of them, strongest first, one entry per name; and a reported network is absent only when its
  name is listed at least as strong, or the list is full of networks at least as strong.\<close>

theorem scan_list_keeps_strongest:
  assumes "0 < N"
  shows "keeps_strongest N (set es) (scan_entries (foldl (scan_push N) (scan_new N) es))"
  using scan_pushes[OF assms] by blast

theorem scan_list_keeps_strongest_witness:
  "keeps_strongest 2 (set (map (\<lambda>(n, r). projr (scan_entry_new [n] r True)) [(97, 0xD0), (98, 0xC0), (97, 0xE0), (99, 0xF0)]))
     (scan_entries (foldl (scan_push 2) (scan_new 2)
       (map (\<lambda>(n, r). projr (scan_entry_new [n] r True)) [(97, 0xD0), (98, 0xC0), (97, 0xE0), (99, 0xF0)])))"
  by (rule scan_list_keeps_strongest) simp

lemma scan_value_round_trip:
  assumes "0 < N" and "\<forall>e\<in>set es. entry_wf e"
    and "l = foldl (scan_push N) (scan_new N) es" and "scan_encode l out = (r, out')"
  shows "\<exists>n l'. r = Inr n \<and> scan_decode N (take n out') = Inr l' \<and>
    scan_entries l' = fitting (min (length out) SCAN_MAX_LEN) (scan_entries l)"
proof -
  let ?cap = "min (length out) SCAN_MAX_LEN" and ?es = "scan_entries l"
  have k: "keeps_strongest N (set es) ?es"
    using scan_pushes[OF assms(1)] assms(3) by blast
  then have wf: "\<forall>e\<in>set ?es. entry_wf e"
    using assms(2) unfolding keeps_strongest_def by blast
  obtain rest where f: "?es = fitting ?cap ?es @ rest"
    using fitting_prefix by blast
  obtain n where n: "r = Inr n" "take n out' = concat (map entry_value (fitting ?cap ?es))"
    using scan_encode_loop_eq[OF wf, of 0 ?cap out] assms(4) by (auto simp: scan_encode_def)
  have "set (fitting ?cap ?es) \<subseteq> set ?es"
    by (subst (2) f) auto
  then have "scan_decode N (take n out') = Inr (foldl (scan_push N) (scan_new N) (fitting ?cap ?es))"
    using scan_decode_values[of "fitting ?cap ?es" N "scan_new N"] wf by (auto simp: scan_decode_def n(2))
  moreover have "descending (fitting ?cap ?es)" "distinct (map entry_ssid (fitting ?cap ?es))" "length (fitting ?cap ?es) \<le> N"
    using k by (subst (asm) f, simp add: keeps_strongest_def sorted_wrt_append)+
  then have "scan_entries (foldl (scan_push N) (scan_new N) (fitting ?cap ?es)) = fitting ?cap ?es"
    by (rule scan_push_sorted[OF assms(1)])
  ultimately show ?thesis
    using n(1) by blast
qed

end
