(* ===== verification/Setup_Device.thy ===== *)
theory Setup_Device
  imports Setup_Spake Setup_Record Scan_List
begin

text \<open>
  The device's side of the setup session (\<open>crates/rusty_esp_signal-core/src/setup/device.rs\<close>): the state
  machine a carrier feeds messages to, the window, the backoff and the lockout. Everything a message may
  change is in the record \<open>world\<close>: the session, the two stores, the random generator and the answer's
  buffer. What other crates do (the key-value store, mID's adoption, pin and failure count, the signature)
  is the record \<open>env\<close>; \<open>'a\<close> is an adoption and \<open>'o\<close> an owner pin.
\<close>

section \<open>External operations\<close>

record ('kv, 'g, 's, 'p, 'a, 'o) env =
  en_curve :: "('s, 'p) curve"
  en_hashes :: hashes
  en_aead :: aead
  en_since :: "micros \<Rightarrow> micros \<Rightarrow> u64"
  en_fill :: "'g \<Rightarrow> nat \<Rightarrow> (err + bytes) \<times> 'g"
  en_get :: "'kv \<Rightarrow> bytes \<Rightarrow> nat \<Rightarrow> (err + nat option) \<times> bytes" \<comment> \<open>key, buffer length; bytes found, buffer\<close>
  en_put :: "'kv \<Rightarrow> bytes \<Rightarrow> bytes \<Rightarrow> (err + unit) \<times> 'kv"
  en_load_failures :: "'kv \<Rightarrow> err + u8"
  en_store_failures :: "'kv \<Rightarrow> u8 \<Rightarrow> (err + unit) \<times> 'kv"
  en_load_verifier :: "'kv \<Rightarrow> err + bytes option"
  en_reply_prehash :: "bytes \<Rightarrow> bytes \<Rightarrow> bytes \<Rightarrow> bytes \<Rightarrow> bytes"
  en_sign_reply :: "bytes \<Rightarrow> bytes" \<comment> \<open>with the device's signer\<close>
  en_verify_reply :: "bytes \<Rightarrow> bytes \<Rightarrow> bytes \<Rightarrow> err + unit"
  en_did_parse :: "bytes \<Rightarrow> bool"
  en_did_of :: "bytes \<Rightarrow> err + bytes" \<comment> \<open>\<open>Did::from_pubkey(..).write(..)\<close>\<close>
  en_adoption_decode :: "bytes \<Rightarrow> err + 'a"
  en_adoption_accept :: "'a \<Rightarrow> bytes \<Rightarrow> 'o option \<Rightarrow> err + 'o"
  en_pin_len :: nat
  en_pin_encode :: "'o \<Rightarrow> err + bytes"
  en_pin_decode :: "bytes \<Rightarrow> err + 'o"
  en_key_setup_v :: bytes
  en_key_adoption :: bytes
  en_key_owner_pin :: bytes

definition env_checks :: "('kv, 'g, 's, 'p, 'a, 'o) env \<Rightarrow> ('s, 'p) checks" where
  "env_checks E = \<lparr>ck_curve = en_curve E, ck_did = en_did_parse E, ck_adoption = (\<lambda>bs. is_ok (en_adoption_decode E bs))\<rparr>"

section \<open>State\<close>

definition IDLE_TIMEOUT_US :: u64 where "IDLE_TIMEOUT_US = 60000000"
definition WINDOW_AFTER_RESET_US :: u64 where "WINDOW_AFTER_RESET_US = 600000000"
definition MAX_FAILURES :: u8 where "MAX_FAILURES = 5"

definition KEY_SSID :: bytes where "KEY_SSID = [119, 105, 102, 105, 46, 115, 115, 105, 100]" \<comment> \<open>wifi.ssid\<close>
definition KEY_PSK :: bytes where "KEY_PSK = [119, 105, 102, 105, 46, 112, 115, 107]" \<comment> \<open>wifi.psk\<close>
definition KEY_NAME :: bytes where "KEY_NAME = [110, 97, 109, 101]" \<comment> \<open>name\<close>
definition KEY_MAKER :: bytes where "KEY_MAKER = [109, 97, 107, 101, 114]" \<comment> \<open>maker\<close>
definition KEY_BLINK_MS :: bytes where "KEY_BLINK_MS = [98, 108, 105, 110, 107, 95, 109, 115]" \<comment> \<open>blink\_ms\<close>
definition KEY_FPS :: bytes where "KEY_FPS = [102, 112, 115]" \<comment> \<open>fps\<close>

datatype reset = PowerOn | OtherReset

record status =
  st_phase :: u8
  st_scan :: bytes

record applied =
  ap_network :: "credentials option"
  ap_code_rotated :: bool
  ap_adopted :: bool

record answer =
  an_len :: nat
  an_applied :: "applied option"

record setup_window =
  wn_open :: bool
  wn_window_s :: u16
  wn_attempts_left :: u8

datatype dstate = DIdle | DReplied response micros | DConfirmed sealer opener micros

record device =
  dv_label :: bytes
  dv_devpub :: bytes
  dv_state :: dstate
  dv_window_opened :: "micros option"
  dv_last_failure :: "micros option"

record ('kv, 'g) world =
  w_device :: device
  w_settings :: 'kv
  w_identity :: 'kv
  w_rng :: 'g
  w_out :: bytes

section \<open>The window\<close>

definition failures :: "('kv, 'g, 's, 'p, 'a, 'o) env \<Rightarrow> 'kv \<Rightarrow> u8" where
  "failures E kv = (case en_load_failures E kv of Inr n \<Rightarrow> n | Inl _ \<Rightarrow> MAX_FAILURES)"

definition provisioned :: "('kv, 'g, 's, 'p, 'a, 'o) env \<Rightarrow> 'kv \<Rightarrow> bool" where
  "provisioned E kv = (case fst (en_get E kv KEY_SSID 32) of Inr (Some n) \<Rightarrow> n > 0 | _ \<Rightarrow> False)"

definition load_verifier :: "('kv, 'g, 's, 'p, 'a, 'o) env \<Rightarrow> 'kv \<Rightarrow> ('s, 'p) verifier option" where
  "load_verifier E kv =
     (case en_load_verifier E kv of
        Inr (Some buf) \<Rightarrow> (case verifier_decode (en_curve E) buf of Inr v \<Rightarrow> Some v | Inl _ \<Rightarrow> None)
      | _ \<Rightarrow> None)"

definition load_pin :: "('kv, 'g, 's, 'p, 'a, 'o) env \<Rightarrow> 'kv \<Rightarrow> 'o option" where
  "load_pin E kv =
     (case en_get E kv (en_key_owner_pin E) (en_pin_len E) of
        (Inr (Some n), buf) \<Rightarrow>
          if n = en_pin_len E then (case en_pin_decode E buf of Inr p \<Rightarrow> Some p | Inl _ \<Rightarrow> None) else None
      | _ \<Rightarrow> None)"

definition device_new ::
  "('kv, 'g, 's, 'p, 'a, 'o) env \<Rightarrow> bytes \<Rightarrow> bytes \<Rightarrow> reset \<Rightarrow> micros \<Rightarrow> 'kv \<Rightarrow> (err + device) \<times> 'kv" where
  "device_new E label devpub reset now settings =
     (case context_new label devpub of
        Inl e \<Rightarrow> (Inl e, settings)
      | Inr _ \<Rightarrow>
          let d = \<lparr>dv_label = label, dv_devpub = devpub, dv_state = DIdle, dv_window_opened = None, dv_last_failure = None\<rparr>
          in if reset = PowerOn then
               let d = d\<lparr>dv_window_opened := Some now\<rparr> in
               if failures E settings \<ge> MAX_FAILURES then
                 (case en_store_failures E settings (MAX_FAILURES - 1) of
                    (Inl e, settings) \<Rightarrow> (Inl e, settings)
                  | (Inr _, settings) \<Rightarrow> (Inr d, settings))
               else (Inr d, settings)
             else (Inr d, settings))"

definition device_button :: "micros \<Rightarrow> device \<Rightarrow> device" where
  "device_button now d = d\<lparr>dv_window_opened := Some now\<rparr>"

text \<open>\<open>u64::div_ceil\<close>.\<close>

definition div_ceil_u64 :: "u64 \<Rightarrow> u64 \<Rightarrow> u64" where
  "div_ceil_u64 a b = (let q = a div b; r = a mod b in if r > 0 then q + 1 else q)"

definition device_window :: "('kv, 'g, 's, 'p, 'a, 'o) env \<Rightarrow> device \<Rightarrow> micros \<Rightarrow> 'kv \<Rightarrow> setup_window" where
  "device_window E d now settings =
     (let fail = failures E settings;
          attempts_left = sat_sub MAX_FAILURES fail;
          closed = \<lparr>wn_open = False, wn_window_s = 0, wn_attempts_left = attempts_left\<rparr>
      in if fail \<ge> MAX_FAILURES then closed
         else if \<not> provisioned E settings then
           \<lparr>wn_open = True, wn_window_s = WINDOW_UNTIL_PROVISIONED, wn_attempts_left = attempts_left\<rparr>
         else case dv_window_opened d of
           Some t \<Rightarrow>
             if en_since E now t < WINDOW_AFTER_RESET_US then
               let left = div_ceil_u64 (WINDOW_AFTER_RESET_US - en_since E now t) 1000000 in
               \<lparr>wn_open = True, wn_window_s = ucast (min left 0xFFFE), wn_attempts_left = attempts_left\<rparr>
             else closed
         | None \<Rightarrow> closed)"

definition device_advertising :: "('kv, 'g, 's, 'p, 'a, 'o) env \<Rightarrow> device \<Rightarrow> micros \<Rightarrow> 'kv \<Rightarrow> bool" where
  "device_advertising E d now settings = wn_open (device_window E d now settings)"

definition device_discover ::
  "('kv, 'g, 's, 'p, 'a, 'o) env \<Rightarrow> device \<Rightarrow> micros \<Rightarrow> 'kv \<Rightarrow> bytes \<Rightarrow> (err + nat) \<times> bytes" where
  "device_discover E d now settings out =
     (let window = device_window E d now settings;
          (suites, salt, iterations) =
            (case load_verifier E settings of
               Some v \<Rightarrow> (SUITE_CODE, vf_salt v, vf_iterations v)
             | None \<Rightarrow> (0, replicate SALT_LEN 0, 0))
      in discover_write \<lparr>dc_suites = suites, dc_devpub = dv_devpub d, dc_salt = salt, dc_iterations = iterations,
           dc_window_s = wn_window_s window, dc_attempts_left = wn_attempts_left window\<rparr> out)"

definition in_session :: "device \<Rightarrow> bool" where
  "in_session d \<longleftrightarrow> dv_state d \<noteq> DIdle"

definition carrier_closed :: "device \<Rightarrow> device" where
  "carrier_closed d = d\<lparr>dv_state := DIdle\<rparr>"

definition device_tick :: "('kv, 'g, 's, 'p, 'a, 'o) env \<Rightarrow> micros \<Rightarrow> device \<Rightarrow> device" where
  "device_tick E now d =
     (case dv_state d of
        DIdle \<Rightarrow> d
      | DReplied _ at \<Rightarrow> if en_since E now at > IDLE_TIMEOUT_US then d\<lparr>dv_state := DIdle\<rparr> else d
      | DConfirmed _ _ at \<Rightarrow> if en_since E now at > IDLE_TIMEOUT_US then d\<lparr>dv_state := DIdle\<rparr> else d)"

section \<open>Answers\<close>

abbreviation set_state :: "dstate \<Rightarrow> ('kv, 'g) world \<Rightarrow> ('kv, 'g) world" where
  "set_state s w \<equiv> w\<lparr>w_device := (w_device w)\<lparr>dv_state := s\<rparr>\<rparr>"

definition refuse :: "result_code \<Rightarrow> ('kv, 'g) world \<Rightarrow> (err + answer) \<times> ('kv, 'g) world" where
  "refuse code w =
     (case write_error code (w_out w) of
        (Inl e, out) \<Rightarrow> (Inl e, w\<lparr>w_out := out\<rparr>)
      | (Inr n, out) \<Rightarrow> (Inr \<lparr>an_len = n, an_applied = None\<rparr>, w\<lparr>w_out := out\<rparr>))"

definition end_with :: "result_code \<Rightarrow> ('kv, 'g) world \<Rightarrow> (err + answer) \<times> ('kv, 'g) world" where
  "end_with code w = refuse code (set_state DIdle w)"

definition record_failure ::
  "('kv, 'g, 's, 'p, 'a, 'o) env \<Rightarrow> micros \<Rightarrow> ('kv, 'g) world \<Rightarrow> (err + unit) \<times> ('kv, 'g) world" where
  "record_failure E now w =
     (let fail = sat_add (failures E (w_settings w)) 1 in
      case en_store_failures E (w_settings w) fail of
        (Inl e, kv) \<Rightarrow> (Inl e, w\<lparr>w_settings := kv\<rparr>)
      | (Inr _, kv) \<Rightarrow>
          (Inr (), w\<lparr>w_settings := kv, w_device := (w_device w)\<lparr>dv_last_failure := Some now\<rparr>\<rparr>))"

section \<open>Start\<close>

text \<open>\<open>1_000_000u64 << (fail - 1).min(31)\<close>, for \<open>fail \<ge> 1\<close>.\<close>

definition backoff_wait :: "u8 \<Rightarrow> u64" where
  "backoff_wait fail = push_bit (unat (min (fail - 1) 31)) 1000000"

definition backing_off :: "('kv, 'g, 's, 'p, 'a, 'o) env \<Rightarrow> device \<Rightarrow> micros \<Rightarrow> u8 \<Rightarrow> bool" where
  "backing_off E d now fail \<longleftrightarrow>
     fail \<ge> 1 \<and> (case dv_last_failure d of Some t \<Rightarrow> en_since E now t < backoff_wait fail | None \<Rightarrow> False)"

text \<open>The Reply's parts, copied one after the other.\<close>

fun write_parts :: "bytes list \<Rightarrow> nat \<Rightarrow> bytes \<Rightarrow> nat \<times> bytes" where
  "write_parts [] at out = (at, out)"
| "write_parts (p # ps) at out = write_parts ps (at + length p) (write_at out at p)"

definition on_start ::
  "('kv, 'g, 's, 'p, 'a, 'o) env \<Rightarrow> bytes \<Rightarrow> micros \<Rightarrow> ('kv, 'g) world \<Rightarrow> (err + answer) \<times> ('kv, 'g) world" where
  "on_start E body now w =
     (let d = w_device w; fail = failures E (w_settings w) in
      if in_session d then refuse RcBusy w
      else if \<not> wn_open (device_window E d now (w_settings w)) then refuse RcWindowClosed w
      else if backing_off E d now fail then refuse RcBackoff w
      else if length body \<noteq> 1 + SHARE_LEN then refuse RcMalformed w
      else if body ! 0 \<noteq> SUITE_CODE then refuse RcVersion w
      else case load_verifier E (w_settings w) of
        None \<Rightarrow> refuse RcNoVerifier w
      | Some verifier \<Rightarrow>
          (case context_new (dv_label d) (dv_devpub d) of
             Inl e \<Rightarrow> (Inl e, w)
           | Inr context \<Rightarrow>
               let share_p = drop 1 body in
               (case spake_respond (en_curve E) (en_hashes E) (en_fill E) verifier context share_p (w_rng w) of
                  (Inl e, g) \<Rightarrow>
                    (if e = InvalidFormat then refuse RcMalformed (w\<lparr>w_rng := g\<rparr>) else (Inl e, w\<lparr>w_rng := g\<rparr>))
                | (Inr response, g) \<Rightarrow>
                    (case record_failure E now (w\<lparr>w_rng := g\<rparr>) of
                       (Inl e, w) \<Rightarrow> (Inl e, w)
                     | (Inr _, w) \<Rightarrow>
                         let prehash = en_reply_prehash E context share_p (rs_share_v response) (rs_confirm_v response);
                             sig = en_sign_reply E prehash;
                             (at, out) = write_parts [msg_header MK_REPLY, rs_share_v response, rs_confirm_v response, sig]
                               0 (w_out w)
                         in (Inr \<lparr>an_len = at, an_applied = None\<rparr>, set_state (DReplied response now) (w\<lparr>w_out := out\<rparr>))))))"

section \<open>Confirm\<close>

definition on_confirm ::
  "('kv, 'g, 's, 'p, 'a, 'o) env \<Rightarrow> bytes \<Rightarrow> micros \<Rightarrow> status \<Rightarrow> ('kv, 'g) world \<Rightarrow> (err + answer) \<times> ('kv, 'g) world" where
  "on_confirm E body now status w =
     (case dv_state (w_device w) of
        DReplied response _ \<Rightarrow>
          let w = set_state DIdle w in
          if length body \<noteq> 32 then end_with RcMalformed w
          else case response_confirm (en_hashes E) response body of
            Inl _ \<Rightarrow> end_with RcConfirm w
          | Inr (send, recv) \<Rightarrow>
              (case en_store_failures E (w_settings w) 0 of
                 (Inl e, kv) \<Rightarrow> (Inl e, w\<lparr>w_settings := kv\<rparr>)
               | (Inr _, kv) \<Rightarrow>
                   let w = w\<lparr>w_settings := kv, w_device := (w_device w)\<lparr>dv_last_failure := None\<rparr>\<rparr> in
                   if length (st_scan status) > SCAN_MAX_LEN then (Inl InvalidFormat, w)
                   else
                     let plain = st_phase status # st_scan status;
                         out = write_at (w_out w) 0 (msg_header MK_READY)
                     in case sealer_seal (en_aead E) send (msg_header MK_READY) plain (drop 2 out) of
                       (Inl e, _, rest) \<Rightarrow> (Inl e, w\<lparr>w_out := take 2 out @ rest\<rparr>)
                     | (Inr n, send, rest) \<Rightarrow>
                         (Inr \<lparr>an_len = 2 + n, an_applied = None\<rparr>,
                          set_state (DConfirmed send recv now) (w\<lparr>w_out := take 2 out @ rest\<rparr>)))
      | _ \<Rightarrow> end_with RcOrder w)"

section \<open>Settings\<close>

datatype store = Settings | Identity

text \<open>The writes of \<open>apply\<close>'s closure, in its order, each stopping the rest when it fails.\<close>

definition record_writes :: "('kv, 'g, 's, 'p, 'a, 'o) env \<Rightarrow> settings_record \<Rightarrow> bytes \<Rightarrow> (store \<times> bytes \<times> bytes) list" where
  "record_writes E r pin_bytes =
     (case sr_network r of Some net \<Rightarrow> [(Settings, KEY_SSID, ssid_of net), (Settings, KEY_PSK, psk_of net)] | None \<Rightarrow> []) @
     (case sr_name r of Some name \<Rightarrow> [(Settings, KEY_NAME, name)] | None \<Rightarrow> []) @
     (case sr_maker r of Some maker \<Rightarrow> [(Settings, KEY_MAKER, maker)] | None \<Rightarrow> []) @
     (case sr_blink_ms r of Some ms \<Rightarrow> [(Settings, KEY_BLINK_MS, le_bytes 4 ms)] | None \<Rightarrow> []) @
     (case sr_fps r of Some fps \<Rightarrow> [(Settings, KEY_FPS, [fps])] | None \<Rightarrow> []) @
     (case sr_adoption r of
        Some adoption \<Rightarrow> [(Identity, en_key_adoption E, adoption), (Identity, en_key_owner_pin E, pin_bytes)]
      | None \<Rightarrow> []) @
     (case sr_setup_v r of Some v \<Rightarrow> [(Settings, en_key_setup_v E, v)] | None \<Rightarrow> [])"

fun put_all :: "('kv, 'g, 's, 'p, 'a, 'o) env \<Rightarrow> (store \<times> bytes \<times> bytes) list \<Rightarrow> 'kv \<times> 'kv \<Rightarrow> (err + unit) \<times> 'kv \<times> 'kv" where
  "put_all E [] kvs = (Inr (), kvs)"
| "put_all E ((Settings, k, v) # ws) (settings, identity) =
     (case en_put E settings k v of
        (Inl e, settings) \<Rightarrow> (Inl e, settings, identity)
      | (Inr _, settings) \<Rightarrow> put_all E ws (settings, identity))"
| "put_all E ((Identity, k, v) # ws) (settings, identity) =
     (case en_put E identity k v of
        (Inl e, identity) \<Rightarrow> (Inl e, settings, identity)
      | (Inr _, identity) \<Rightarrow> put_all E ws (settings, identity))"

text \<open>An adoption against this device and its pinned owner: the new pin's bytes.\<close>

definition accept_adoption :: "('kv, 'g, 's, 'p, 'a, 'o) env \<Rightarrow> bytes \<Rightarrow> 'kv \<Rightarrow> bytes \<Rightarrow> err + bytes" where
  "accept_adoption E devpub identity bs =
     rbind (en_adoption_decode E bs) (\<lambda>adoption.
       rbind (en_did_of E devpub) (\<lambda>my_did.
         rbind (en_adoption_accept E adoption my_did (load_pin E identity)) (\<lambda>new_pin. en_pin_encode E new_pin)))"

definition device_apply ::
  "('kv, 'g, 's, 'p, 'a, 'o) env \<Rightarrow> device \<Rightarrow> bytes \<Rightarrow> 'kv \<times> 'kv \<Rightarrow> (result_code \<times> applied option) \<times> 'kv \<times> 'kv" where
  "device_apply E d plain kvs =
     (case record_decode (env_checks E) plain of
        Inl code \<Rightarrow> ((code, None), kvs)
      | Inr r \<Rightarrow>
          (case (case sr_adoption r of None \<Rightarrow> Inr [] | Some bs \<Rightarrow> accept_adoption E (dv_devpub d) (snd kvs) bs) of
             Inl _ \<Rightarrow> ((RcBadAdoption, None), kvs)
           | Inr pin_bytes \<Rightarrow>
               (case put_all E (record_writes E r pin_bytes) kvs of
                  (Inl _, kvs) \<Rightarrow> ((RcStoreFailed, None), kvs)
                | (Inr _, kvs) \<Rightarrow>
                    ((RcApplied, Some \<lparr>ap_network = sr_network r, ap_code_rotated = (sr_setup_v r \<noteq> None),
                       ap_adopted = (sr_adoption r \<noteq> None)\<rparr>), kvs))))"

definition on_settings ::
  "('kv, 'g, 's, 'p, 'a, 'o) env \<Rightarrow> bytes \<Rightarrow> micros \<Rightarrow> status \<Rightarrow> ('kv, 'g) world \<Rightarrow> (err + answer) \<times> ('kv, 'g) world" where
  "on_settings E body now status w =
     (case dv_state (w_device w) of
        DConfirmed send recv _ \<Rightarrow>
          let w = set_state DIdle w in
          (case opener_open (en_aead E) recv (msg_header MK_SETTINGS) body (replicate MAX_MESSAGE 0) of
             (Inl _, _, _) \<Rightarrow>
               (case record_failure E now w of (Inl e, w) \<Rightarrow> (Inl e, w) | (Inr _, w) \<Rightarrow> end_with RcSeal w)
           | (Inr n, _, plain) \<Rightarrow>
               (case device_apply E (w_device w) (take n plain) (w_settings w, w_identity w) of
                  ((code, applied), settings, identity) \<Rightarrow>
                    let w = w\<lparr>w_settings := settings, w_identity := identity\<rparr>;
                        out = write_at (w_out w) 0 (msg_header MK_RESULT)
                    in case sealer_seal (en_aead E) send (msg_header MK_RESULT) [rc_as_u8 code, st_phase status] (drop 2 out) of
                      (Inl e, _, rest) \<Rightarrow> (Inl e, w\<lparr>w_out := take 2 out @ rest\<rparr>)
                    | (Inr n, _, rest) \<Rightarrow>
                        (Inr \<lparr>an_len = 2 + n, an_applied = applied\<rparr>, w\<lparr>w_out := take 2 out @ rest\<rparr>)))
      | _ \<Rightarrow> end_with RcOrder w)"

section \<open>One message\<close>

definition on_message ::
  "('kv, 'g, 's, 'p, 'a, 'o) env \<Rightarrow> bytes \<Rightarrow> micros \<Rightarrow> status \<Rightarrow> ('kv, 'g) world \<Rightarrow> (err + answer) \<times> ('kv, 'g) world" where
  "on_message E message now status w =
     (if length (w_out w) < MAX_MESSAGE then (Inl (BufferTooSmall MAX_MESSAGE), w)
      else
        let w = w\<lparr>w_device := device_tick E now (w_device w)\<rparr> in
        case msg_split message of
          Inl e \<Rightarrow> end_with (if e = Unsupported then RcVersion else RcMalformed) w
        | Inr (k, body) \<Rightarrow>
            if k = MK_START then on_start E body now w
            else if k = MK_CONFIRM then on_confirm E body now status w
            else if k = MK_SETTINGS then on_settings E body now status w
            else end_with RcOrder w)"

section \<open>The failure count\<close>

text \<open>The keys the session writes in the settings store, and what mID's failure count promises: a stored
  count is read; a store that failed leaves the count as it was or unreadable; a write under one of the
  session's keys does not touch it.\<close>

definition session_keys :: "('kv, 'g, 's, 'p, 'a, 'o) env \<Rightarrow> bytes set" where
  "session_keys E = {KEY_SSID, KEY_PSK, KEY_NAME, KEY_MAKER, KEY_BLINK_MS, KEY_FPS, en_key_setup_v E}"

definition failure_store_ok :: "('kv, 'g, 's, 'p, 'a, 'o) env \<Rightarrow> bool" where
  "failure_store_ok E \<longleftrightarrow>
     (\<forall>kv n u kv'. en_store_failures E kv n = (Inr u, kv') \<longrightarrow> en_load_failures E kv' = Inr n) \<and>
     (\<forall>kv n e kv'. en_store_failures E kv n = (Inl e, kv') \<longrightarrow>
        en_load_failures E kv' = en_load_failures E kv \<or> \<not> is_ok (en_load_failures E kv')) \<and>
     (\<forall>kv k v r kv'. k \<in> session_keys E \<longrightarrow> en_put E kv k v = (r, kv') \<longrightarrow>
        en_load_failures E kv' = en_load_failures E kv)"

text \<open>The count as far as the lockout sees it.\<close>

definition level :: "('kv, 'g, 's, 'p, 'a, 'o) env \<Rightarrow> 'kv \<Rightarrow> nat" where
  "level E kv = min 5 (unat (failures E kv))"

lemma level_le: "level E kv \<le> 5"
  by (simp add: level_def)

lemma level_stored: "failure_store_ok E \<Longrightarrow> en_store_failures E kv n = (Inr u, kv') \<Longrightarrow> level E kv' = min 5 (unat n)"
  unfolding failure_store_ok_def level_def failures_def by (metis old.sum.simps(6))

lemma level_not_stored: "failure_store_ok E \<Longrightarrow> en_store_failures E kv n = (Inl e, kv') \<Longrightarrow> level E kv \<le> level E kv'"
proof -
  assume "failure_store_ok E" and "en_store_failures E kv n = (Inl e, kv')"
  then have "en_load_failures E kv' = en_load_failures E kv \<or> \<not> is_ok (en_load_failures E kv')"
    unfolding failure_store_ok_def by blast
  then show ?thesis
    by (cases "en_load_failures E kv'") (auto simp: level_def failures_def MAX_FAILURES_def)
qed

lemma level_put: "failure_store_ok E \<Longrightarrow> k \<in> session_keys E \<Longrightarrow> en_put E kv k v = (r, kv') \<Longrightarrow> level E kv' = level E kv"
proof -
  assume "failure_store_ok E" "k \<in> session_keys E" "en_put E kv k v = (r, kv')"
  then have "en_load_failures E kv' = en_load_failures E kv"
    unfolding failure_store_ok_def by blast
  then show ?thesis by (simp add: level_def failures_def)
qed

lemma level_put_all:
  "failure_store_ok E \<Longrightarrow> \<forall>(st, k, v)\<in>set ws. st = Settings \<longrightarrow> k \<in> session_keys E \<Longrightarrow>
     put_all E ws kvs = (r, kvs') \<Longrightarrow> level E (fst kvs') = level E (fst kvs)"
proof (induction E ws kvs rule: put_all.induct)
  case (2 E k v ws settings identity)
  then show ?case
    using level_put[of E k settings v] by (force split: prod.splits sum.splits)
next
  case (3 E k v ws settings identity)
  then show ?case
    by (auto split: prod.splits sum.splits)
qed simp

lemma record_writes_keys: "\<forall>(st, k, v)\<in>set (record_writes E r pin). st = Settings \<longrightarrow> k \<in> session_keys E"
  by (auto simp: record_writes_def session_keys_def split: option.splits)

lemma level_apply:
  "failure_store_ok E \<Longrightarrow> device_apply E d plain kvs = (r, kvs') \<Longrightarrow> level E (fst kvs') = level E (fst kvs)"
  by (auto simp: device_apply_def dest: level_put_all[OF _ record_writes_keys] split: sum.splits prod.splits option.splits)

lemma level_record_failure:
  assumes "failure_store_ok E"
  shows "record_failure E now w = (Inr u, w') \<Longrightarrow> level E (w_settings w') = min 5 (level E (w_settings w) + 1)"
    and "record_failure E now w = (Inl e, w') \<Longrightarrow> level E (w_settings w) \<le> level E (w_settings w')"
proof -
  have "min 5 (unat (sat_add n 1 :: u8)) = min 5 (min 5 (unat n) + 1)" for n :: u8
    using unat_less[of n] by (simp add: unat_sat_add)
  then show "record_failure E now w = (Inr u, w') \<Longrightarrow> level E (w_settings w') = min 5 (level E (w_settings w) + 1)"
    using level_stored[OF assms] by (auto simp: record_failure_def Let_def level_def split: prod.splits sum.splits)
  show "record_failure E now w = (Inl e, w') \<Longrightarrow> level E (w_settings w) \<le> level E (w_settings w')"
    using level_not_stored[OF assms] by (auto simp: record_failure_def Let_def split: prod.splits sum.splits)
qed

lemma level_record_failure_mono:
  "failure_store_ok E \<Longrightarrow> record_failure E now w = (x, w') \<Longrightarrow> level E (w_settings w) \<le> level E (w_settings w')"
  using level_record_failure[of E now w _ w'] level_le[of E "w_settings w"] by (cases x) force+

section \<open>What is answered\<close>

definition is_reply :: "(err + answer) \<times> ('kv, 'g) world \<Rightarrow> bool" where
  "is_reply r = (case r of (Inr a, w) \<Rightarrow> 2 \<le> an_len a \<and> take 2 (w_out w) = msg_header MK_REPLY | _ \<Rightarrow> False)"

lemma refuse_settings: "w_settings (snd (refuse code w)) = w_settings w"
  by (auto simp: refuse_def split: prod.splits sum.splits)

lemma refuse_not_reply: "\<not> is_reply (refuse code w)"
  by (auto simp: refuse_def is_reply_def write_error_def write_at_0 msg_header_def MK_ERROR_def MK_REPLY_def
      split: prod.splits sum.splits)

lemma end_with_settings: "w_settings (snd (end_with code w)) = w_settings w"
  by (simp add: end_with_def refuse_settings)

lemma end_with_not_reply: "\<not> is_reply (end_with code w)"
  by (simp add: end_with_def refuse_not_reply)

lemma not_reply_Inl: "\<not> is_reply (Inl e, w)"
  by (simp add: is_reply_def)

lemmas answer_simps = refuse_settings refuse_not_reply end_with_settings end_with_not_reply not_reply_Inl

lemma refuse_eqD: "refuse code w = (r, w') \<Longrightarrow> w_settings w' = w_settings w \<and> \<not> is_reply (r, w')"
  using refuse_settings[of code w] refuse_not_reply[of code w] by simp

lemma end_with_eqD: "end_with code w = (r, w') \<Longrightarrow> w_settings w' = w_settings w \<and> \<not> is_reply (r, w')"
  using end_with_settings[of code w] end_with_not_reply[of code w] by simp

lemma window_open_level: "wn_open (device_window E d now kv) \<Longrightarrow> level E kv < 5"
  by (auto simp: device_window_def Let_def level_def MAX_FAILURES_def word_le_nat_alt split: if_splits)

text \<open>What an answered Start has passed.\<close>

lemma on_start_reply:
  assumes "on_start E body now w = (r, w')" and "is_reply (r, w')"
  shows "wn_open (device_window E (w_device w) now (w_settings w)) \<and>
    (\<exists>g u w1. record_failure E now (w\<lparr>w_rng := g\<rparr>) = (Inr u, w1) \<and> w_settings w' = w_settings w1)"
proof -
  have no: "refuse c v \<noteq> (r, w')" for c v
    using assms(2) refuse_eqD by blast
  show ?thesis
    using assms
    by (auto simp: on_start_def Let_def no not_reply_Inl split: if_splits option.splits sum.splits prod.splits; blast)
qed

lemma on_start_no_reply:
  assumes "failure_store_ok E" and "on_start E body now w = (r, w')"
  shows "level E (w_settings w) \<le> level E (w_settings w')"
  using assms(2)
  by (auto simp: on_start_def Let_def dest: refuse_eqD dest!: level_record_failure_mono[OF assms(1)] split: if_splits option.splits sum.splits prod.splits)

lemma on_start_level:
  assumes "failure_store_ok E" and "on_start E body now w = (r, w')"
  shows "level E (w_settings w) + of_bool (is_reply (r, w')) \<le> level E (w_settings w')"
proof (cases "is_reply (r, w')")
  case True
  then obtain g u w1 where "wn_open (device_window E (w_device w) now (w_settings w))"
    "record_failure E now (w\<lparr>w_rng := g\<rparr>) = (Inr u, w1)" "w_settings w' = w_settings w1"
    using on_start_reply[OF assms(2)] by blast
  with level_record_failure(1)[OF assms(1) this(2)] window_open_level[OF this(1)] True show ?thesis
    by simp
next
  case False
  then show ?thesis
    using on_start_no_reply[OF assms] by simp
qed

text \<open>Confirm counts nothing: it leaves the count unless the browser's confirmation verifies.\<close>

definition confirms :: "('kv, 'g, 's, 'p, 'a, 'o) env \<Rightarrow> bytes \<Rightarrow> micros \<Rightarrow> ('kv, 'g) world \<Rightarrow> bool" where
  "confirms E message now w \<longleftrightarrow>
     (case dv_state (device_tick E now (w_device w)) of
        DReplied response _ \<Rightarrow> msg_split message = Inr (MK_CONFIRM, rs_expect_p response)
      | _ \<Rightarrow> False)"

lemma headed: "take 2 (write_at out 0 (msg_header k)) @ rest = SETUP_VERSION # k # rest"
  by (simp add: write_at_0 msg_header_def)

lemma header_eq: "[SETUP_VERSION, k] = msg_header k' \<longleftrightarrow> k = k'"
  by (simp add: msg_header_def)

lemma kinds_not_reply: "MK_READY \<noteq> MK_REPLY" "MK_RESULT \<noteq> MK_REPLY"
  by (simp_all add: MK_READY_def MK_RESULT_def MK_REPLY_def)

lemma on_confirm_level:
  assumes "on_confirm E body now status w = (r, w')"
  shows "\<not> is_reply (r, w')"
    and "(\<forall>resp at. dv_state (w_device w) = DReplied resp at \<longrightarrow> rs_expect_p resp \<noteq> body) \<Longrightarrow> w_settings w' = w_settings w"
proof -
  show "\<not> is_reply (r, w')"
    using assms
    by (auto simp: on_confirm_def Let_def not_reply_Inl is_reply_def headed header_eq kinds_not_reply dest: end_with_eqD
        split: dstate.splits if_splits sum.splits prod.splits)
  show "(\<forall>resp at. dv_state (w_device w) = DReplied resp at \<longrightarrow> rs_expect_p resp \<noteq> body) \<Longrightarrow> w_settings w' = w_settings w"
    using assms
    by (auto simp: on_confirm_def Let_def response_confirm_def dest: end_with_eqD
        split: dstate.splits if_splits sum.splits prod.splits)
qed

lemma on_settings_level:
  assumes "failure_store_ok E" and "on_settings E body now status w = (r, w')"
  shows "\<not> is_reply (r, w')" and "level E (w_settings w) \<le> level E (w_settings w')"
proof -
  have out: "record_failure E now v = (x, v') \<Longrightarrow> w_out v' = w_out v" for v x v'
    by (auto simp: record_failure_def Let_def split: prod.splits sum.splits)
  show "\<not> is_reply (r, w')"
    using assms(2)
    by (auto simp: on_settings_def Let_def not_reply_Inl is_reply_def headed header_eq kinds_not_reply dest: end_with_eqD
        split: dstate.splits if_splits sum.splits prod.splits)
  show "level E (w_settings w) \<le> level E (w_settings w')"
    using assms(2)
    by (auto simp: on_settings_def Let_def level_le dest!: end_with_eqD level_apply[OF assms(1)]
        level_record_failure_mono[OF assms(1)]
        split: dstate.splits if_splits sum.splits prod.splits)
qed

abbreviation ticked :: "('kv, 'g, 's, 'p, 'a, 'o) env \<Rightarrow> micros \<Rightarrow> ('kv, 'g) world \<Rightarrow> ('kv, 'g) world" where
  "ticked E now w \<equiv> w\<lparr>w_device := device_tick E now (w_device w)\<rparr>"

lemma on_message_cases:
  assumes "on_message E message now status w = (r, w')"
  obtains (short) "r = Inl (BufferTooSmall MAX_MESSAGE)" "w' = w"
    | (ended) code where "end_with code (ticked E now w) = (r, w')"
    | (start) body where "msg_split message = Inr (MK_START, body)" "on_start E body now (ticked E now w) = (r, w')"
    | (confirm) body where "msg_split message = Inr (MK_CONFIRM, body)"
        "on_confirm E body now status (ticked E now w) = (r, w')"
    | (settings) body where "msg_split message = Inr (MK_SETTINGS, body)"
        "on_settings E body now status (ticked E now w) = (r, w')"
proof (cases "length (w_out w) < MAX_MESSAGE")
  case True
  then show thesis using assms short by (simp add: on_message_def)
next
  case False
  show thesis
  proof (cases "msg_split message")
    case (Inl e)
    then show thesis
      using assms False by (intro ended) (simp add: on_message_def Let_def)
  next
    case (Inr kb)
    obtain k body where kb: "kb = (k, body)" by (cases kb)
    show thesis
      using assms False Inr start confirm settings ended unfolding on_message_def kb Let_def
      by (simp split: if_splits)
  qed
qed

lemma on_message_level:
  assumes "failure_store_ok E" and "on_message E message now status w = (r, w')"
  shows "level E (w_settings w) + of_bool (is_reply (r, w')) \<le> level E (w_settings w') + 5 * of_bool (confirms E message now w)"
  using assms(2)
proof (cases rule: on_message_cases)
  case short
  then show ?thesis by (simp add: not_reply_Inl)
next
  case ended
  then show ?thesis using end_with_eqD[OF ended] by simp
next
  case start
  then show ?thesis using on_start_level[OF assms(1) start(2)] by simp
next
  case (confirm body)
  show ?thesis
  proof (cases "confirms E message now w")
    case True
    then show ?thesis using on_confirm_level(1)[OF confirm(2)] level_le[of E "w_settings w"] by simp
  next
    case False
    then have "\<forall>resp at. dv_state (device_tick E now (w_device w)) = DReplied resp at \<longrightarrow> rs_expect_p resp \<noteq> body"
      using confirm(1) by (auto simp: confirms_def)
    then have "w_settings w' = w_settings w"
      using on_confirm_level(2)[OF confirm(2)] by simp
    then show ?thesis using on_confirm_level(1)[OF confirm(2)] by simp
  qed
next
  case settings
  then show ?thesis using on_settings_level[OF assms(1) settings(2)] by simp
qed

section \<open>Histories\<close>

text \<open>Whatever a device goes through: messages (each with the answer's buffer), the button, the clock, a
  closed carrier and restarts; a device that does not come up after a restart is left without a session.\<close>

datatype op = Message bytes micros status bytes | Button micros | Tick micros | Closed | Restart reset micros

fun device_step :: "('kv, 'g, 's, 'p, 'a, 'o) env \<Rightarrow> op \<Rightarrow> ('kv, 'g) world \<Rightarrow> ('kv, 'g) world" where
  "device_step E (Message m now status out) w = snd (on_message E m now status (w\<lparr>w_out := out\<rparr>))"
| "device_step E (Button now) w = w\<lparr>w_device := device_button now (w_device w)\<rparr>"
| "device_step E (Tick now) w = w\<lparr>w_device := device_tick E now (w_device w)\<rparr>"
| "device_step E Closed w = w\<lparr>w_device := carrier_closed (w_device w)\<rparr>"
| "device_step E (Restart rs now) w =
     (case device_new E (dv_label (w_device w)) (dv_devpub (w_device w)) rs now (w_settings w) of
        (Inl _, kv) \<Rightarrow> w\<lparr>w_settings := kv, w_device := carrier_closed (w_device w)\<rparr>
      | (Inr d, kv) \<Rightarrow> w\<lparr>w_settings := kv, w_device := d\<rparr>)"

text \<open>Replies given, confirmations verified and power-on resets, over a history.\<close>

fun op_replies :: "('kv, 'g, 's, 'p, 'a, 'o) env \<Rightarrow> op \<Rightarrow> ('kv, 'g) world \<Rightarrow> bool" where
  "op_replies E (Message m now status out) w = is_reply (on_message E m now status (w\<lparr>w_out := out\<rparr>))"
| "op_replies E _ w = False"

fun op_confirms :: "('kv, 'g, 's, 'p, 'a, 'o) env \<Rightarrow> op \<Rightarrow> ('kv, 'g) world \<Rightarrow> bool" where
  "op_confirms E (Message m now status out) w = confirms E m now w"
| "op_confirms E _ w = False"

fun op_powers :: "op \<Rightarrow> bool" where
  "op_powers (Restart rs now) = (rs = PowerOn)"
| "op_powers _ = False"

fun device_run :: "('kv, 'g, 's, 'p, 'a, 'o) env \<Rightarrow> op list \<Rightarrow> ('kv, 'g) world \<Rightarrow> ('kv, 'g) world" where
  "device_run E [] w = w"
| "device_run E (op # ops) w = device_run E ops (device_step E op w)"

fun count_ops :: "(op \<Rightarrow> ('kv, 'g) world \<Rightarrow> bool) \<Rightarrow> ('kv, 'g, 's, 'p, 'a, 'o) env \<Rightarrow> op list \<Rightarrow> ('kv, 'g) world \<Rightarrow> nat" where
  "count_ops P E [] w = 0"
| "count_ops P E (op # ops) w = of_bool (P op w) + count_ops P E ops (device_step E op w)"

lemma device_new_level:
  assumes "failure_store_ok E" and "device_new E label devpub rs now kv = (r, kv')"
  shows "level E kv \<le> level E kv' + of_bool (rs = PowerOn)"
  using assms(2) level_le[of E kv] level_not_stored[OF assms(1)] level_stored[OF assms(1)]
  by (fastforce simp: device_new_def Let_def MAX_FAILURES_def split: sum.splits prod.splits if_splits)

lemma device_step_level:
  assumes "failure_store_ok E"
  shows "level E (w_settings w) + of_bool (op_replies E op w) \<le>
    level E (w_settings (device_step E op w)) + 5 * of_bool (op_confirms E op w) + of_bool (op_powers op)"
proof (cases op)
  case (Message m now status out)
  then show ?thesis
    using on_message_level[OF assms, of m now status "w\<lparr>w_out := out\<rparr>"
        "fst (on_message E m now status (w\<lparr>w_out := out\<rparr>))" "snd (on_message E m now status (w\<lparr>w_out := out\<rparr>))"]
    by (simp add: confirms_def)
next
  case (Restart rs now)
  obtain r kv where new: "device_new E (dv_label (w_device w)) (dv_devpub (w_device w)) rs now (w_settings w) = (r, kv)"
    by fastforce
  from device_new_level[OF assms new] show ?thesis
    by (cases r) (simp_all add: Restart new)
qed simp_all

lemma device_run_level:
  assumes "failure_store_ok E"
  shows "level E (w_settings w) + count_ops (op_replies E) E ops w \<le>
    5 + 5 * count_ops (op_confirms E) E ops w + count_ops (\<lambda>op _. op_powers op) E ops w"
proof (induction ops arbitrary: w)
  case Nil
  then show ?case using level_le[of E "w_settings w"] by simp
next
  case (Cons op ops)
  show ?case
    unfolding count_ops.simps add_mult_distrib2
    using device_step_level[OF assms, of w op] Cons.IH[of "device_step E op w"] by linarith
qed

section \<open>What a message may write\<close>

text \<open>A stored failure count is not one of the session's keys.\<close>

definition failure_store_apart :: "('kv, 'g, 's, 'p, 'a, 'o) env \<Rightarrow> bool" where
  "failure_store_apart E \<longleftrightarrow>
     (\<forall>kv n r kv' k. k \<in> session_keys E \<longrightarrow> en_store_failures E kv n = (r, kv') \<longrightarrow> en_get E kv' k = en_get E kv k)"

text \<open>What may not change: the identity store, and the settings under the session's keys.\<close>

definition same_stores :: "('kv, 'g, 's, 'p, 'a, 'o) env \<Rightarrow> 'kv \<times> 'kv \<Rightarrow> 'kv \<times> 'kv \<Rightarrow> bool" where
  "same_stores E kvs kvs' \<longleftrightarrow> snd kvs' = snd kvs \<and> (\<forall>k\<in>session_keys E. en_get E (fst kvs') k = en_get E (fst kvs) k)"

abbreviation stores :: "('kv, 'g) world \<Rightarrow> 'kv \<times> 'kv" where
  "stores w \<equiv> (w_settings w, w_identity w)"

lemma same_stores_refl: "same_stores E kvs kvs"
  by (simp add: same_stores_def)

lemma refuse_stores: "refuse code w = (r, w') \<Longrightarrow> stores w' = stores w"
  by (auto simp: refuse_def split: prod.splits sum.splits)

lemma end_with_stores: "end_with code w = (r, w') \<Longrightarrow> stores w' = stores w"
  by (auto simp: end_with_def dest: refuse_stores)

lemma record_failure_stores:
  assumes "failure_store_apart E" and "record_failure E now w = (r, w')"
  shows "same_stores E (stores w) (stores w')"
  using assms unfolding failure_store_apart_def same_stores_def
  by (auto simp: record_failure_def Let_def split: prod.splits sum.splits)

lemma on_start_stores:
  assumes "failure_store_apart E" and "on_start E body now w = (r, w')"
  shows "same_stores E (stores w) (stores w')"
  using assms(2)
  by (auto simp: on_start_def Let_def same_stores_refl dest!: refuse_stores record_failure_stores[OF assms(1)]
      split: if_splits option.splits sum.splits prod.splits)

lemma on_confirm_stores:
  assumes "failure_store_apart E" and "on_confirm E body now status w = (r, w')"
  shows "same_stores E (stores w) (stores w')"
proof -
  have "en_store_failures E kv n = (x, kv') \<Longrightarrow> same_stores E (kv, i) (kv', i)" for kv n x kv' i
    using assms(1) by (auto simp: failure_store_apart_def same_stores_def)
  then show ?thesis
    using assms(2)
    by (auto simp: on_confirm_def Let_def same_stores_refl dest!: end_with_stores
        split: dstate.splits if_splits sum.splits prod.splits)
qed

text \<open>What a record has passed when it is written.\<close>

definition record_passes :: "('kv, 'g, 's, 'p, 'a, 'o) env \<Rightarrow> device \<Rightarrow> 'kv \<Rightarrow> bytes \<Rightarrow> settings_record \<Rightarrow> bool" where
  "record_passes E d identity plain rec \<longleftrightarrow> record_decode (env_checks E) plain = Inr rec \<and>
     (\<forall>bs. sr_adoption rec = Some bs \<longrightarrow> is_ok (accept_adoption E (dv_devpub d) identity bs))"

lemma device_apply_checked:
  "device_apply E d plain kvs = (x, kvs') \<Longrightarrow> kvs' \<noteq> kvs \<or> snd x \<noteq> None \<Longrightarrow>
     \<exists>rec. record_passes E d (snd kvs) plain rec \<and> (\<forall>ap. snd x = Some ap \<longrightarrow> ap_network ap = sr_network rec)"
  by (auto simp: device_apply_def record_passes_def is_ok_iff split: sum.splits prod.splits option.splits)

text \<open>What a Settings message does: nothing to the session's settings, or it opened and was applied.\<close>

lemma on_settings_cases:
  assumes "failure_store_apart E" and "aead_ok (en_aead E)" and "on_settings E body now status w = (r, w')"
  obtains (refused) "same_stores E (stores w) (stores w')" "\<And>a. r = Inr a \<Longrightarrow> an_applied a = None"
    | (opened) send recv at plain recv' x where "dv_state (w_device w) = DConfirmed send recv at"
        "open_sealed (en_aead E) recv (msg_header MK_SETTINGS) body = Some (plain, recv')"
        "device_apply E (w_device (set_state DIdle w)) plain (stores w) = (x, stores w')"
        "\<And>a. r = Inr a \<Longrightarrow> an_applied a = snd x"
proof (cases "dv_state (w_device w)")
  case (DConfirmed send recv at)
  note st = this
  let ?o = "opener_open (en_aead E) recv (msg_header MK_SETTINGS) body (replicate MAX_MESSAGE 0)"
  obtain x o' plain where o': "?o = (x, o', plain)"
    by (cases ?o) auto
  show thesis
  proof (cases x)
    case (Inl e)
    then show thesis
      using assms(3) by (intro refused) (auto simp: on_settings_def st o' end_with_def refuse_def
          dest!: end_with_stores record_failure_stores[OF assms(1)] split: prod.splits sum.splits)
  next
    case (Inr n)
    obtain y kvs where a: "device_apply E (w_device (set_state DIdle w)) (take n plain) (stores w) = (y, kvs)"
      by (meson surj_pair)
    have res: "stores w' = kvs" "\<And>a. r = Inr a \<Longrightarrow> an_applied a = snd y"
      using assms(3) a by (auto simp: on_settings_def st o' Inr Let_def split: prod.splits sum.splits)
    from opener_open_Inr[OF assms(2) o'[unfolded Inr]] obtain c t nxt p where p:
      "checked_add_u64 (op_seq recv) 1 = Some nxt" "body = c @ t"
      "ae_encrypt (en_aead E) (op_key recv) (nonce (op_seq recv)) (msg_header MK_SETTINGS) p = Some (c, t)"
      "n = length p" "plain = write_at (replicate MAX_MESSAGE 0) 0 p"
      by blast
    then have "open_sealed (en_aead E) recv (msg_header MK_SETTINGS) body = Some (p, recv\<lparr>op_seq := nxt\<rparr>)"
      using open_sealed_eq[OF assms(2)] by blast
    moreover have "take n plain = p"
      by (simp add: p(4,5) write_at_0)
    ultimately show thesis
      using opened[OF st] a res by blast
  qed
qed (use assms(3) end_with_stores[of RcOrder w r w'] refused in
    \<open>auto simp: on_settings_def same_stores_refl end_with_def refuse_def split: prod.splits sum.splits\<close>)

lemma on_settings_checked:
  assumes "failure_store_apart E" and "aead_ok (en_aead E)" and "on_settings E body now status w = (r, w')"
    and "\<not> same_stores E (stores w) (stores w') \<or> (\<exists>a ap. r = Inr a \<and> an_applied a = Some ap)"
  shows "\<exists>send recv at plain recv' rec. dv_state (w_device w) = DConfirmed send recv at \<and>
    open_sealed (en_aead E) recv (msg_header MK_SETTINGS) body = Some (plain, recv') \<and>
    record_passes E (w_device w) (w_identity w) plain rec \<and>
    (\<forall>a ap. r = Inr a \<longrightarrow> an_applied a = Some ap \<longrightarrow> ap_network ap = sr_network rec)"
  using assms(1-3)
proof (cases rule: on_settings_cases)
  case refused
  then show ?thesis using assms(4) by auto
next
  case (opened send recv at plain recv' x)
  then have "stores w' \<noteq> stores w \<or> snd x \<noteq> None"
    using assms(4) same_stores_refl by (metis option.distinct(1))
  from device_apply_checked[OF opened(3) this] opened show ?thesis
    by (fastforce simp: record_passes_def)
qed

lemma msg_split_Inr: "msg_split m = Inr (k, body) \<Longrightarrow> m = msg_header k @ body"
  by (cases m rule: list.exhaust; cases "tl m")
    (auto simp: msg_split_def msg_header_def MSG_HEADER_LEN_def numeral_2_eq_2 split: if_splits)

lemma device_tick_cases: "device_tick E now d = d \<or> dv_state (device_tick E now d) = DIdle"
  by (auto simp: device_tick_def split: dstate.splits)

lemma device_tick_devpub: "dv_devpub (device_tick E now d) = dv_devpub d"
  by (auto simp: device_tick_def split: dstate.splits)

lemma end_with_unapplied: "end_with code w = (Inr a, w') \<Longrightarrow> an_applied a = None"
  by (auto simp: end_with_def refuse_def split: prod.splits sum.splits)

lemma on_start_unapplied: "on_start E body now w = (Inr a, w') \<Longrightarrow> an_applied a = None"
  by (auto simp: on_start_def refuse_def Let_def split: if_splits option.splits sum.splits prod.splits)

lemma on_confirm_unapplied: "on_confirm E body now status w = (Inr a, w') \<Longrightarrow> an_applied a = None"
  by (auto simp: on_confirm_def Let_def dest: end_with_unapplied split: dstate.splits if_splits sum.splits prod.splits)

lemma on_message_checked:
  assumes "failure_store_apart E" and "aead_ok (en_aead E)" and "on_message E m now status w = (r, w')"
    and "\<not> same_stores E (stores w) (stores w') \<or> (\<exists>a ap. r = Inr a \<and> an_applied a = Some ap)"
  shows "\<exists>send recv at body plain recv' rec. dv_state (w_device w) = DConfirmed send recv at \<and>
    m = msg_header MK_SETTINGS @ body \<and> open_sealed (en_aead E) recv (msg_header MK_SETTINGS) body = Some (plain, recv') \<and>
    record_passes E (w_device w) (w_identity w) plain rec \<and>
    (\<forall>a ap. r = Inr a \<longrightarrow> an_applied a = Some ap \<longrightarrow> ap_network ap = sr_network rec)"
  using assms(3)
proof (cases rule: on_message_cases)
  case short
  then show ?thesis using assms(4) by (simp add: same_stores_refl)
next
  case ended
  then show ?thesis using assms(4) end_with_stores[OF ended] by (auto simp: same_stores_refl dest: end_with_unapplied)
next
  case start
  then show ?thesis using assms(4) on_start_stores[OF assms(1) start(2)] by (auto dest: on_start_unapplied)
next
  case confirm
  then show ?thesis using assms(4) on_confirm_stores[OF assms(1) confirm(2)] by (auto dest: on_confirm_unapplied)
next
  case (settings body)
  with on_settings_checked[OF assms(1,2) settings(2)] assms(4) obtain send recv at plain recv' rec where
    "dv_state (device_tick E now (w_device w)) = DConfirmed send recv at"
    "open_sealed (en_aead E) recv (msg_header MK_SETTINGS) body = Some (plain, recv')"
    "record_passes E (device_tick E now (w_device w)) (w_identity w) plain rec"
    "\<forall>a ap. r = Inr a \<longrightarrow> an_applied a = Some ap \<longrightarrow> ap_network ap = sr_network rec"
    by auto
  moreover from this(1) have "device_tick E now (w_device w) = w_device w"
    using device_tick_cases[of E now "w_device w"] by auto
  ultimately show ?thesis
    using msg_split_Inr[OF settings(1)] by auto
qed

lemma on_message_dispatch:
  assumes "MAX_MESSAGE \<le> length (w_out w)"
  shows "msg_split m = Inr (MK_START, body) \<Longrightarrow> on_message E m now status w = on_start E body now (ticked E now w)"
    and "msg_split m = Inr (MK_CONFIRM, body) \<Longrightarrow>
      on_message E m now status w = on_confirm E body now status (ticked E now w)"
    and "msg_split m = Inr (MK_SETTINGS, body) \<Longrightarrow>
      on_message E m now status w = on_settings E body now status (ticked E now w)"
  using assms by (simp_all add: on_message_def Let_def MK_START_def MK_CONFIRM_def MK_SETTINGS_def)

section \<open>A concrete environment\<close>

text \<open>An environment for the witnesses: stores are maps, the curve, hashes and cipher those above, an
  adoption and a pin are bytes, the generator counts.\<close>

definition TOY_FAIL :: bytes where "TOY_FAIL = [115, 101, 116, 117, 112, 46, 102, 97, 105, 108]" \<comment> \<open>setup.fail\<close>

definition toy_env :: "(bytes \<Rightarrow> bytes option, u8, u8, u8, bytes, bytes) env" where
  "toy_env = \<lparr>en_curve = toy_curve, en_hashes = toy_hashes, en_aead = toy_aead, en_since = sat_sub,
     en_fill = \<lambda>g n. (Inr (replicate (n - 1) 0 @ [g]), g + 1),
     en_get = \<lambda>kv k n. (Inr (map_option length (kv k)), case kv k of Some v \<Rightarrow> v | None \<Rightarrow> []),
     en_put = \<lambda>kv k v. (Inr (), kv(k \<mapsto> v)),
     en_load_failures = \<lambda>kv. Inr (case kv TOY_FAIL of Some [n] \<Rightarrow> n | _ \<Rightarrow> 0),
     en_store_failures = \<lambda>kv n. (Inr (), kv(TOY_FAIL \<mapsto> [n])),
     en_load_verifier = \<lambda>kv. Inr (kv [1]),
     en_reply_prehash = \<lambda>c p v k. replicate 32 0, en_sign_reply = \<lambda>p. replicate 64 2,
     en_verify_reply = \<lambda>d p s. Inr (), en_did_parse = \<lambda>_. True, en_did_of = Inr,
     en_adoption_decode = Inr, en_adoption_accept = \<lambda>a d o'. Inr a, en_pin_len = 1, en_pin_encode = Inr,
     en_pin_decode = Inr, en_key_setup_v = [1], en_key_adoption = [2], en_key_owner_pin = [3]\<rparr>"

lemma toy_session_keys: "k \<in> session_keys toy_env \<Longrightarrow> k \<noteq> TOY_FAIL"
  by (auto simp: session_keys_def toy_env_def TOY_FAIL_def KEY_SSID_def KEY_PSK_def KEY_NAME_def KEY_MAKER_def
      KEY_BLINK_MS_def KEY_FPS_def)

lemma toy_failure_store_ok: "failure_store_ok toy_env"
  using toy_session_keys unfolding failure_store_ok_def by (auto simp: toy_env_def)

lemma toy_failure_store_apart: "failure_store_apart toy_env"
  using toy_session_keys unfolding failure_store_apart_def by (auto simp: toy_env_def)

definition toy_world :: "dstate \<Rightarrow> (bytes \<Rightarrow> bytes option, u8) world" where
  "toy_world st = \<lparr>w_device = \<lparr>dv_label = [98], dv_devpub = [], dv_state = st, dv_window_opened = None,
       dv_last_failure = None\<rparr>,
     w_settings = Map.empty, w_identity = Map.empty, w_rng = 7, w_out = replicate 512 0\<rparr>"

lemma toy_apply_fps:
  "device_apply toy_env d [6, 0, 1, 9] (k, i) =
     ((RcApplied, Some \<lparr>ap_network = None, ap_code_rotated = False, ap_adopted = False\<rparr>), k(KEY_FPS \<mapsto> [9]), i)"
proof -
  have "record_decode (env_checks toy_env) [6, 0, 1, 9] = Inr (record_default\<lparr>sr_fps := Some 9\<rparr>)"
    by (simp add: record_decode_def record_scan.simps slice_get_def tag_bit_def tag_defs record_entry_def be_word_def
        be_nat_def Let_def)
  then show ?thesis
    by (simp add: device_apply_def record_writes_def record_default_def) (simp add: toy_env_def)
qed

lemma toy_settings_message:
  assumes "device_apply toy_env (w_device (toy_world DIdle)) rec (Map.empty, Map.empty) = ((code, applied), kvs)"
    and "length rec \<le> 400"
  shows "\<exists>a w'. on_message toy_env (msg_header MK_SETTINGS @ rec @ replicate 16 1) 0 st
      (toy_world (DConfirmed (sealer_new []) (opener_new []) 0)) = (Inr a, w') \<and> stores w' = kvs \<and> an_applied a = applied"
proof -
  let ?w = "toy_world (DConfirmed (sealer_new []) (opener_new []) 0)" and ?body = "rec @ replicate 16 1"
  have split: "msg_split (msg_header MK_SETTINGS @ ?body) = Inr (MK_SETTINGS, ?body)"
    using assms(2) by (simp add: msg_split_def msg_header_def MSG_HEADER_LEN_def MAX_MESSAGE_def SETUP_VERSION_def)
  have tick: "ticked toy_env 0 ?w = ?w"
    by (simp add: device_tick_def toy_world_def toy_env_def sat_sub_def IDLE_TIMEOUT_US_def)
  have op: "opener_open (en_aead toy_env) (opener_new []) (msg_header MK_SETTINGS) ?body (replicate MAX_MESSAGE 0) =
      (Inr (length rec), \<lparr>op_key = [], op_seq = 1\<rparr>, write_at (replicate MAX_MESSAGE 0) 0 rec)"
    using assms(2) opener_open_encrypted[OF toy_aead_ok, of "opener_new []" "msg_header MK_SETTINGS" rec rec
        "replicate 16 1" 1 "replicate MAX_MESSAGE 0"]
    by (simp add: toy_env_def toy_aead_def opener_new_def checked_add_u64_def MAX_MESSAGE_def)
  have "set_state DIdle ?w = toy_world DIdle"
    by (simp add: toy_world_def)
  moreover have "take (length rec) (write_at (replicate MAX_MESSAGE 0) 0 rec) = rec"
    by (simp add: write_at_0)
  moreover obtain n s' rest where "sealer_seal (en_aead toy_env) (sealer_new []) (msg_header MK_RESULT) [rc_as_u8 code, st_phase st]
      (drop 2 (write_at (replicate 512 0) 0 (msg_header MK_RESULT))) = (Inr n, s', rest)"
    using sealer_seal_encrypted[OF toy_aead_ok, of "sealer_new []" "msg_header MK_RESULT" "[rc_as_u8 code, st_phase st]"
        "[rc_as_u8 code, st_phase st]" "replicate 16 1" 1 "drop 2 (write_at (replicate 512 0) 0 (msg_header MK_RESULT))"]
    by (simp add: toy_env_def toy_aead_def sealer_new_def checked_add_u64_def SEAL_TAG_LEN_def msg_header_def write_at_0)
  ultimately have "\<exists>a w'. on_settings toy_env ?body 0 st ?w = (Inr a, w') \<and> stores w' = kvs \<and> an_applied a = applied"
    using assms(1) op by (cases kvs) (auto simp: on_settings_def toy_world_def Let_def)
  then show ?thesis
    using on_message_dispatch(3)[of ?w, OF _ split, where E = toy_env and now = 0 and status = st] tick
    by (simp add: toy_world_def MAX_MESSAGE_def)
qed

section \<open>Properties\<close>

text \<open>C7: Guesses are bounded. Over any history of a device, with messages in any order, restarts and
  clock readings of any kind, the number of Replies it gives (each lets one guess of the code be checked)
  is at most the failures left before the lockout, five more for each confirmation that verified (a right
  code), and one for each power-on reset.\<close>

theorem setup_guesses_bounded:
  assumes "failure_store_ok E"
  shows "count_ops (op_replies E) E ops w \<le>
    (5 - unat (failures E (w_settings w))) + 5 * count_ops (op_confirms E) E ops w + count_ops (\<lambda>op _. op_powers op) E ops w"
  using device_run_level[OF assms, of w ops] by (auto simp: level_def)

theorem setup_guesses_bounded_witness:
  "let w = toy_world DIdle;
     ops = [Restart PowerOn 0, Message [1, 1, 1] 5 \<lparr>st_phase = 0, st_scan = []\<rparr> (replicate 512 0), Closed]
   in count_ops (op_replies toy_env) toy_env ops w \<le> 5 - unat (failures toy_env (w_settings w)) +
        5 * count_ops (op_confirms toy_env) toy_env ops w + count_ops (\<lambda>op _. op_powers op) toy_env ops w"
  unfolding Let_def by (rule setup_guesses_bounded) (rule toy_failure_store_ok)

text \<open>C6: Nothing is written unless everything checks. A message that changes the identity store, or a
  setting under any of the session's keys, is a Settings message to a confirmed session, sealed under the
  key and the sequence number that session expects, whose record decodes whole and whose adoption, if it
  carries one, is accepted against this device and its pinned owner.\<close>

theorem settings_written_only_when_checked:
  assumes "failure_store_apart E" and "aead_ok (en_aead E)" and "on_message E m now status w = (r, w')"
    and "w_identity w' \<noteq> w_identity w \<or> (\<exists>k\<in>session_keys E. en_get E (w_settings w') k \<noteq> en_get E (w_settings w) k)"
  shows "\<exists>send recv at body plain recv' rec. dv_state (w_device w) = DConfirmed send recv at \<and>
    m = msg_header MK_SETTINGS @ body \<and> open_sealed (en_aead E) recv (msg_header MK_SETTINGS) body = Some (plain, recv') \<and>
    record_passes E (w_device w) (w_identity w) plain rec"
  using on_message_checked[OF assms(1,2,3)] assms(4) by (fastforce simp: same_stores_def)

theorem settings_written_only_when_checked_witness:
  "let w = toy_world (DConfirmed (sealer_new []) (opener_new []) 0)
   in \<exists>send recv at body plain recv' rec. dv_state (w_device w) = DConfirmed send recv at \<and>
     msg_header MK_SETTINGS @ [6, 0, 1, 9] @ replicate 16 1 = msg_header MK_SETTINGS @ body \<and>
     open_sealed (en_aead toy_env) recv (msg_header MK_SETTINGS) body = Some (plain, recv') \<and>
     record_passes toy_env (w_device w) (w_identity w) plain rec"
proof -
  let ?w = "toy_world (DConfirmed (sealer_new []) (opener_new []) 0)" and ?st = "\<lparr>st_phase = 0, st_scan = []\<rparr>"
  obtain r w' where m: "on_message toy_env (msg_header MK_SETTINGS @ [6, 0, 1, 9] @ replicate 16 1) 0 ?st ?w = (r, w')"
    and "w_settings w' = [KEY_FPS \<mapsto> [9]]"
    using toy_settings_message[OF toy_apply_fps, of ?st] by auto
  then have "w_identity w' \<noteq> w_identity ?w \<or>
      (\<exists>k\<in>session_keys toy_env. en_get toy_env (w_settings w') k \<noteq> en_get toy_env (w_settings ?w) k)"
    by (intro disjI2 bexI[of _ KEY_FPS]) (auto simp: toy_env_def toy_world_def session_keys_def fun_eq_iff)
  moreover have "aead_ok (en_aead toy_env)"
    using toy_aead_ok by (simp add: toy_env_def)
  ultimately show ?thesis
    unfolding Let_def using settings_written_only_when_checked[OF toy_failure_store_apart _ m] by blast
qed

end
