(* ===== verification/Setup_Browser.thy ===== *)
theory Setup_Browser
  imports Setup_Device
begin

text \<open>
  The browser's side of the setup session (\<open>crates/rusty_esp_signal-core/src/setup/browser.rs\<close>), and the
  whole session: a browser with the device's code and the device, message by message, to the Result.
\<close>

section \<open>State\<close>

datatype failure = Remote result_code | Local err

datatype 's bstate = BStarted "'s prover" | BConfirmed sealer opener | BSent opener | BDone

record 's browser =
  br_devpub :: bytes
  br_state :: "'s bstate"

record ready =
  rd_phase :: u8
  rd_scan_len :: nat

text \<open>The body of a message of the wanted kind; a device's Error is \<open>Remote\<close>.\<close>

definition expect_kind :: "bytes \<Rightarrow> u8 \<Rightarrow> failure + bytes" where
  "expect_kind message want =
     (case msg_split message of
        Inl e \<Rightarrow> Inl (Local e)
      | Inr (k, body) \<Rightarrow>
          if k = MK_ERROR then
            (case body of
               [] \<Rightarrow> Inl (Local InvalidFormat)
             | b # _ \<Rightarrow> (case rc_from_u8 b of None \<Rightarrow> Inl (Local InvalidFormat) | Some code \<Rightarrow> Inl (Remote code)))
          else if k \<noteq> want then Inl (Local InvalidFormat)
          else Inr body)"

section \<open>Steps\<close>

definition browser_start ::
  "('kv, 'g, 's, 'p, 'a, 'o) env \<Rightarrow> bytes \<Rightarrow> bytes \<Rightarrow> bytes option \<Rightarrow> bytes \<Rightarrow> 'g \<Rightarrow> bytes \<Rightarrow>
   (failure + 's browser \<times> nat) \<times> 'g \<times> bytes" where
  "browser_start E discover code expected label g out =
     (case discover_read discover of
        Inl e \<Rightarrow> (Inl (Local e), g, out)
      | Inr d \<Rightarrow>
          if (case expected of Some k \<Rightarrow> k \<noteq> dc_devpub d | None \<Rightarrow> False) then (Inl (Local Denied), g, out)
          else if \<not> offers_code d then (Inl (Remote RcNoVerifier), g, out)
          else
            let needed = 3 + SHARE_LEN in
            if length out < needed then (Inl (Local (BufferTooSmall needed)), g, out)
            else case secrets_derive (en_curve E) (en_hashes E) code (dc_salt d) (dc_iterations d) of
              Inl e \<Rightarrow> (Inl (Local e), g, out)
            | Inr sec \<Rightarrow>
                (case context_new label (dc_devpub d) of
                   Inl e \<Rightarrow> (Inl (Local e), g, out)
                 | Inr context \<Rightarrow>
                     (case prover_start (en_curve E) (en_fill E) sec context g of
                        (Inl e, g) \<Rightarrow> (Inl (Local e), g, out)
                      | (Inr pv, g) \<Rightarrow>
                          let out = write_at out 0 (msg_header MK_START);
                              out = write_at out 2 [SUITE_CODE];
                              out = write_at out 3 (pv_share_p pv)
                          in (Inr (\<lparr>br_devpub = dc_devpub d, br_state = BStarted pv\<rparr>, needed), g, out))))"

definition browser_on_reply ::
  "('kv, 'g, 's, 'p, 'a, 'o) env \<Rightarrow> 's browser \<Rightarrow> bytes \<Rightarrow> bytes \<Rightarrow> (failure + nat) \<times> 's browser \<times> bytes" where
  "browser_on_reply E b message out =
     (case expect_kind message MK_REPLY of
        Inl f \<Rightarrow> (Inl f, b, out)
      | Inr body \<Rightarrow>
          let done = b\<lparr>br_state := BDone\<rparr> in
          case br_state b of
            BStarted pv \<Rightarrow>
              let needed = 2 + SPAKE_CONFIRM_LEN in
              if length body \<noteq> SHARE_LEN + SPAKE_CONFIRM_LEN + SIG_LEN then (Inl (Local InvalidFormat), done, out)
              else if length out < needed then (Inl (Local (BufferTooSmall needed)), done, out)
              else
                let share_v = take SHARE_LEN body;
                    confirm_v = take SPAKE_CONFIRM_LEN (drop SHARE_LEN body);
                    sig = drop (SHARE_LEN + SPAKE_CONFIRM_LEN) body;
                    prehash = en_reply_prehash E (pv_context pv) (pv_share_p pv) share_v confirm_v
                in case prover_finish (en_curve E) (en_hashes E) pv share_v confirm_v of
                  Inl e \<Rightarrow> (Inl (Local e), done, out)
                | Inr (confirm_p, send, recv) \<Rightarrow>
                    (case en_verify_reply E (br_devpub b) prehash sig of
                       Inl e \<Rightarrow> (Inl (Local e), done, out)
                     | Inr _ \<Rightarrow>
                         (Inr needed, b\<lparr>br_state := BConfirmed send recv\<rparr>,
                          write_at (write_at out 0 (msg_header MK_CONFIRM)) 2 confirm_p))
          | _ \<Rightarrow> (Inl (Local Denied), done, out))"

definition browser_on_ready ::
  "('kv, 'g, 's, 'p, 'a, 'o) env \<Rightarrow> 's browser \<Rightarrow> bytes \<Rightarrow> bytes \<Rightarrow> (failure + ready) \<times> 's browser \<times> bytes" where
  "browser_on_ready E b message scan =
     (case expect_kind message MK_READY of
        Inl f \<Rightarrow> (Inl f, b, scan)
      | Inr body \<Rightarrow>
          (case br_state b of
             BConfirmed send recv \<Rightarrow>
               (case opener_open (en_aead E) recv (msg_header MK_READY) body (replicate MAX_MESSAGE 0) of
                  (Inl e, recv, _) \<Rightarrow> (Inl (Local e), b\<lparr>br_state := BConfirmed send recv\<rparr>, scan)
                | (Inr n, recv, plain) \<Rightarrow>
                    let b = b\<lparr>br_state := BConfirmed send recv\<rparr> in
                    if n = 0 then (Inl (Local InvalidFormat), b, scan)
                    else if length scan < n - 1 then (Inl (Local (BufferTooSmall (n - 1))), b, scan)
                    else (Inr \<lparr>rd_phase = plain ! 0, rd_scan_len = n - 1\<rparr>, b, write_at scan 0 (take (n - 1) (drop 1 plain))))
           | _ \<Rightarrow> (Inl (Local Denied), b, scan)))"

definition send_settings ::
  "('kv, 'g, 's, 'p, 'a, 'o) env \<Rightarrow> 's browser \<Rightarrow> bytes \<Rightarrow> bytes \<Rightarrow> (failure + nat) \<times> 's browser \<times> bytes" where
  "send_settings E b rec out =
     (let done = b\<lparr>br_state := BDone\<rparr> in
      case br_state b of
        BConfirmed send recv \<Rightarrow>
          if length out < 2 then (Inl (Local (BufferTooSmall (2 + length rec + 16))), done, out)
          else
            let out = write_at out 0 (msg_header MK_SETTINGS) in
            (case sealer_seal (en_aead E) send (msg_header MK_SETTINGS) rec (drop 2 out) of
               (Inl e, _, rest) \<Rightarrow> (Inl (Local e), done, take 2 out @ rest)
             | (Inr n, _, rest) \<Rightarrow>
                 if 2 + n > MAX_MESSAGE then (Inl (Local InvalidFormat), done, take 2 out @ rest)
                 else (Inr (2 + n), b\<lparr>br_state := BSent recv\<rparr>, take 2 out @ rest))
      | _ \<Rightarrow> (Inl (Local Denied), done, out))"

definition browser_on_result ::
  "('kv, 'g, 's, 'p, 'a, 'o) env \<Rightarrow> 's browser \<Rightarrow> bytes \<Rightarrow> (failure + result_code \<times> u8) \<times> 's browser" where
  "browser_on_result E b message =
     (case expect_kind message MK_RESULT of
        Inl f \<Rightarrow> (Inl f, b)
      | Inr body \<Rightarrow>
          let done = b\<lparr>br_state := BDone\<rparr> in
          (case br_state b of
             BSent recv \<Rightarrow>
               (case opener_open (en_aead E) recv (msg_header MK_RESULT) body [0, 0] of
                  (Inl e, _, _) \<Rightarrow> (Inl (Local e), done)
                | (Inr n, _, plain) \<Rightarrow>
                    if n \<noteq> 2 then (Inl (Local InvalidFormat), done)
                    else (case rc_from_u8 (plain ! 0) of
                        None \<Rightarrow> (Inl (Local InvalidFormat), done)
                      | Some code \<Rightarrow> (Inr (code, plain ! 1), done)))
           | _ \<Rightarrow> (Inl (Local Denied), done)))"

end
