(* ===== verification/Setup_Session.thy ===== *)
theory Setup_Session
  imports Setup_Browser
begin

text \<open>
  A whole setup session: a browser that holds the device's code (\<open>setup/browser.rs\<close>) against the device
  (\<open>setup/device.rs\<close>), from Discover to Result, over the laws of the external operations gathered in
  \<open>session_env_ok\<close>.
\<close>

definition session_env_ok :: "('kv, 'g, 's, 'p, 'a, 'o) env \<Rightarrow> bytes \<Rightarrow> bool" where
  "session_env_ok E devpub \<longleftrightarrow>
     encodings_ok (en_curve E) \<and> group_ok (en_curve E) \<and> hashes_ok (en_hashes E) \<and> aead_ok (en_aead E) \<and>
     (\<forall>p. length (en_sign_reply E p) = SIG_LEN \<and> en_verify_reply E devpub p (en_sign_reply E p) = Inr ())"

lemma length_spake_mac: "hashes_ok H \<Longrightarrow> length (spake_mac H k s) = 32"
  by (simp add: spake_mac_def hashes_ok_def hmac_full_def hmac_ref_length)

lemma sealable:
  assumes "aead_ok A" and "length p \<le> MAX_MESSAGE"
  obtains c t where "ae_encrypt A k n h p = Some (c, t)"
  using aead_total[OF assms] by blast

section \<open>Framing\<close>

lemma msg_split_header:
  "length body + 2 \<le> MAX_MESSAGE \<Longrightarrow> msg_split (msg_header k @ body) = Inr (k, body)"
  by (simp add: msg_split_def msg_header_def MSG_HEADER_LEN_def)

lemma expect_kind_header:
  "length body + 2 \<le> MAX_MESSAGE \<Longrightarrow> k \<noteq> MK_ERROR \<Longrightarrow> expect_kind (msg_header k @ body) k = Inr body"
  by (simp add: expect_kind_def msg_split_header)

lemma write_parts_eq:
  "write_parts ps at out = (at', out') \<Longrightarrow> at + length (concat ps) \<le> length out \<Longrightarrow>
     at' = at + length (concat ps) \<and> length out' = length out \<and> take at' out' = take at out @ concat ps"
proof (induction ps arbitrary: at out)
  case (Cons p ps)
  have "at' = at + length p + length (concat ps) \<and> length out' = length (write_at out at p) \<and>
      take at' out' = take (at + length p) (write_at out at p) @ concat ps"
    using Cons.prems by (intro Cons.IH) simp_all
  then show ?case
    using Cons.prems(2) by (clarsimp simp: take_write_at add.assoc)
qed simp

section \<open>The device's steps\<close>

lemma response_lengths:
  assumes "encodings_ok C" and "hashes_ok H" and "respond_inner C H v ctx [] [] share_p y = Inr r"
  shows "length (rs_share_v r) = 65" and "length (rs_confirm_v r) = 32" and "length (rs_expect_p r) = 32"
  using assms(3) point_bytes_length[OF assms(1)] length_spake_mac[OF assms(2)]
  by (auto simp: respond_inner_def rbind_Inr_iff Let_def SHARE_LEN_def split: if_splits)

lemma spake_respond_Inr: "spake_respond C H fill v ctx share_p g = (Inr r, g') \<Longrightarrow>
    \<exists>y. respond_inner C H v ctx [] [] share_p y = Inr r"
  by (auto simp: spake_respond_def split: prod.splits sum.splits)

text \<open>What an answered Start leaves: the response made from the share, and its Reply in the buffer.\<close>

lemma on_start_replied:
  assumes "session_env_ok E devpub" and "on_start E body now w = (Inr a, w')" and "is_reply (Inr a, w')"
    and "MAX_MESSAGE \<le> length (w_out w)"
  shows "\<exists>v ctx y r. load_verifier E (w_settings w) = Some v \<and>
    context_new (dv_label (w_device w)) (dv_devpub (w_device w)) = Inr ctx \<and> length body = 66 \<and>
    respond_inner (en_curve E) (en_hashes E) v ctx [] [] (drop 1 body) y = Inr r \<and>
    dv_state (w_device w') = DReplied r now \<and> dv_devpub (w_device w') = dv_devpub (w_device w) \<and>
    length (w_out w') = length (w_out w) \<and>
    take (an_len a) (w_out w') = msg_header MK_REPLY @ rs_share_v r @ rs_confirm_v r @
      en_sign_reply E (en_reply_prehash E ctx (drop 1 body) (rs_share_v r) (rs_confirm_v r))"
proof -
  have no: "refuse c x \<noteq> (Inr a, w')" for c x
    using assms(3) refuse_eqD by blast
  obtain v ctx r g w1 u where s: "load_verifier E (w_settings w) = Some v"
    "context_new (dv_label (w_device w)) (dv_devpub (w_device w)) = Inr ctx" "length body = 1 + SHARE_LEN"
    "spake_respond (en_curve E) (en_hashes E) (en_fill E) v ctx (drop 1 body) (w_rng w) = (Inr r, g)"
    "record_failure E now (w\<lparr>w_rng := g\<rparr>) = (Inr u, w1)"
    and res: "(case write_parts [msg_header MK_REPLY, rs_share_v r, rs_confirm_v r,
        en_sign_reply E (en_reply_prehash E ctx (drop 1 body) (rs_share_v r) (rs_confirm_v r))] 0 (w_out w1) of
      (at, out) \<Rightarrow> (Inr \<lparr>an_len = at, an_applied = None\<rparr>, set_state (DReplied r now) (w1\<lparr>w_out := out\<rparr>))) =
      ((Inr a, w') :: (err + answer) \<times> ('a, 'b) world)"
    using assms(2) by (auto simp: on_start_def Let_def no simp del: write_parts.simps
        split: if_splits option.splits sum.splits prod.splits)
  obtain y where y: "respond_inner (en_curve E) (en_hashes E) v ctx [] [] (drop 1 body) y = Inr r"
    using spake_respond_Inr[OF s(4)] by blast
  have w1: "w_out w1 = w_out w" "dv_devpub (w_device w1) = dv_devpub (w_device w)"
    using s(5) by (auto simp: record_failure_def Let_def split: prod.splits sum.splits)
  let ?sig = "en_sign_reply E (en_reply_prehash E ctx (drop 1 body) (rs_share_v r) (rs_confirm_v r))"
  obtain at out where p: "write_parts [msg_header MK_REPLY, rs_share_v r, rs_confirm_v r, ?sig] 0 (w_out w) = (at, out)"
    by (meson surj_pair)
  have "length (concat [msg_header MK_REPLY, rs_share_v r, rs_confirm_v r, ?sig]) = 163"
    using response_lengths[OF _ _ y] assms(1) by (simp add: session_env_ok_def msg_header_def SIG_LEN_def)
  with write_parts_eq[OF p] have "length out = length (w_out w)"
    "take at out = msg_header MK_REPLY @ rs_share_v r @ rs_confirm_v r @ ?sig"
    using assms(4) by (auto simp: MAX_MESSAGE_def)
  moreover have "a = \<lparr>an_len = at, an_applied = None\<rparr>" "w' = set_state (DReplied r now) (w1\<lparr>w_out := out\<rparr>)"
    using res[unfolded w1 p] by simp_all
  ultimately show ?thesis
    using s y w1 by (auto simp: SHARE_LEN_def)
qed

text \<open>A Confirm that carries the expected confirmation is answered by a Ready sealed with the device's
  first key and number.\<close>

lemma on_confirm_ready:
  assumes "aead_ok (en_aead E)" and "dv_state (w_device w) = DReplied r at" and "rs_expect_p r = body" and "length body = 32"
    and "en_store_failures E (w_settings w) 0 = (Inr u, kv)" and "length (st_scan status) \<le> SCAN_MAX_LEN"
    and "MAX_MESSAGE \<le> length (w_out w)"
    and "response_confirm (en_hashes E) r body = Inr (send, recv)" and "se_seq send = 0"
  shows "\<exists>c t w'. on_confirm E body now status w = (Inr \<lparr>an_len = 2 + length (c @ t), an_applied = None\<rparr>, w') \<and>
    ae_encrypt (en_aead E) (se_key send) (nonce 0) (msg_header MK_READY) (st_phase status # st_scan status) = Some (c, t) \<and>
    take (2 + length (c @ t)) (w_out w') = msg_header MK_READY @ c @ t \<and> length (w_out w') = length (w_out w) \<and>
    dv_state (w_device w') = DConfirmed (send\<lparr>se_seq := 1\<rparr>) recv now \<and> dv_devpub (w_device w') = dv_devpub (w_device w) \<and>
    w_settings w' = kv \<and> w_identity w' = w_identity w"
proof -
  let ?plain = "st_phase status # st_scan status"
  obtain c t where e: "ae_encrypt (en_aead E) (se_key send) (nonce 0) (msg_header MK_READY) ?plain = Some (c, t)"
    using sealable[OF assms(1), where p = ?plain and k = "se_key send" and n = "nonce 0" and h = "msg_header MK_READY"] assms(6) by (auto simp: SCAN_MAX_LEN_def MAX_MESSAGE_def)
  have len: "length c = length ?plain" "length t = SEAL_TAG_LEN"
    using aead_encrypted[OF assms(1) e] by simp_all
  let ?rest = "drop 2 (write_at (w_out w) 0 (msg_header MK_READY))"
  have "length ?plain + SEAL_TAG_LEN \<le> length ?rest"
    using assms(6,7) by (simp add: write_at_0 msg_header_def SCAN_MAX_LEN_def MAX_MESSAGE_def SEAL_TAG_LEN_def)
  from sealer_seal_encrypted[OF assms(1), of send "msg_header MK_READY" ?plain c t 1, OF _ _ this]
  have "sealer_seal (en_aead E) send (msg_header MK_READY) ?plain ?rest =
      (Inr (length (c @ t)), send\<lparr>se_seq := 1\<rparr>, write_at ?rest 0 (c @ t))"
    using e len assms(9) by (simp add: checked_add_u64_def)
  moreover have "Suc (Suc (length c + length t)) \<le> length (w_out w)"
    using assms(6,7) len by (simp add: SCAN_MAX_LEN_def MAX_MESSAGE_def SEAL_TAG_LEN_def)
  ultimately show ?thesis
    using assms e by (simp add: on_confirm_def Let_def headed) (simp add: write_at_0 msg_header_def)
qed

lemma device_apply_cong: "dv_devpub d = dv_devpub d' \<Longrightarrow> device_apply E d plain kvs = device_apply E d' plain kvs"
  unfolding device_apply_def by (simp only:)

text \<open>A Settings sealed with the number the session expects is opened and applied, and its Result sealed with
  the device's next number.\<close>

lemma on_settings_result:
  assumes "aead_ok (en_aead E)" and "dv_state (w_device w) = DConfirmed send recv at"
    and "ae_encrypt (en_aead E) (op_key recv) (nonce (op_seq recv)) (msg_header MK_SETTINGS) plain = Some (c, t)"
    and "checked_add_u64 (op_seq recv) 1 = Some nxt" and "checked_add_u64 (se_seq send) 1 = Some snxt"
    and "length plain \<le> MAX_MESSAGE" and "MAX_MESSAGE \<le> length (w_out w)"
    and "device_apply E (w_device w) plain (w_settings w, w_identity w) = ((code, applied), kvs)"
  shows "\<exists>c' t' w'. on_settings E (c @ t) now status w = (Inr \<lparr>an_len = 2 + length (c' @ t'), an_applied = applied\<rparr>, w') \<and>
    ae_encrypt (en_aead E) (se_key send) (nonce (se_seq send)) (msg_header MK_RESULT) [rc_as_u8 code, st_phase status] =
      Some (c', t') \<and> take (2 + length (c' @ t')) (w_out w') = msg_header MK_RESULT @ c' @ t' \<and> length (c' @ t') = 18 \<and>
    w_settings w' = fst kvs \<and> w_identity w' = snd kvs \<and> dv_state (w_device w') = DIdle"
proof -
  let ?res = "[rc_as_u8 code, st_phase status]"
  obtain c' t' where e: "ae_encrypt (en_aead E) (se_key send) (nonce (se_seq send)) (msg_header MK_RESULT) ?res = Some (c', t')"
    using sealable[OF assms(1), where p = ?res and k = "se_key send" and n = "nonce (se_seq send)" and h = "msg_header MK_RESULT"] by (auto simp: MAX_MESSAGE_def)
  have len: "length c' = 2" "length t' = SEAL_TAG_LEN"
    using aead_encrypted[OF assms(1) e] by simp_all
  let ?rest = "drop 2 (write_at (w_out w) 0 (msg_header MK_RESULT))"
  have fit: "length ?res + SEAL_TAG_LEN \<le> length ?rest"
    using assms(7) by (simp add: write_at_0 msg_header_def MAX_MESSAGE_def SEAL_TAG_LEN_def)
  have "sealer_seal (en_aead E) send (msg_header MK_RESULT) ?res ?rest =
      (Inr (length (c' @ t')), send\<lparr>se_seq := snxt\<rparr>, write_at ?rest 0 (c' @ t'))"
    using sealer_seal_encrypted[OF assms(1) e assms(5) fit] len by simp
  moreover have "opener_open (en_aead E) recv (msg_header MK_SETTINGS) (c @ t) (replicate MAX_MESSAGE 0) =
      (Inr (length plain), recv\<lparr>op_seq := nxt\<rparr>, write_at (replicate MAX_MESSAGE 0) 0 plain)"
    using opener_open_encrypted[OF assms(1,3,4), of "replicate MAX_MESSAGE 0"] assms(6) by simp
  moreover have "take (length plain) (write_at (replicate MAX_MESSAGE 0) 0 plain) = plain"
    by (simp add: write_at_0)
  moreover have "device_apply E ((w_device w)\<lparr>dv_state := DIdle\<rparr>) plain (w_settings w, w_identity w) = ((code, applied), kvs)"
    using assms(8) device_apply_cong[of "(w_device w)\<lparr>dv_state := DIdle\<rparr>" "w_device w" E] by simp
  ultimately show ?thesis
    using e len fit
    by (cases kvs) (simp add: on_settings_def assms(2) Let_def headed SEAL_TAG_LEN_def,
        simp add: write_at_0 msg_header_def)
qed

section \<open>The browser's steps\<close>

lemma browser_on_reply_ok:
  assumes "session_env_ok E devpub" and "br_devpub b = devpub" and "br_state b = BStarted pv"
    and "prover_finish (en_curve E) (en_hashes E) pv share_v confirm_v = Inr (confirm_p, send, recv)"
    and "length share_v = 65" and "length confirm_v = 32" and "length confirm_p = 32"
    and "m = msg_header MK_REPLY @ share_v @ confirm_v @
      en_sign_reply E (en_reply_prehash E (pv_context pv) (pv_share_p pv) share_v confirm_v)"
    and "MAX_MESSAGE \<le> length out"
  shows "\<exists>out'. browser_on_reply E b m out = (Inr 34, b\<lparr>br_state := BConfirmed send recv\<rparr>, out') \<and>
    take 34 out' = msg_header MK_CONFIRM @ confirm_p"
proof -
  have sig: "length (en_sign_reply E p) = 64" "en_verify_reply E devpub p (en_sign_reply E p) = Inr ()" for p
    using assms(1) by (simp_all add: session_env_ok_def SIG_LEN_def)
  show ?thesis
    unfolding browser_on_reply_def assms(8)
    using assms(2-7,9) sig
    by (subst expect_kind_header)
      (simp_all add: MAX_MESSAGE_def MK_REPLY_def MK_ERROR_def SHARE_LEN_def SPAKE_CONFIRM_LEN_def SIG_LEN_def Let_def
        write_at_def msg_header_def)
qed

lemma browser_on_ready_ok:
  assumes "aead_ok (en_aead E)" and "br_state b = BConfirmed send recv" and "op_seq recv = 0"
    and "ae_encrypt (en_aead E) (op_key recv) (nonce 0) (msg_header MK_READY) (phase # scan) = Some (c, t)"
    and "length scan \<le> SCAN_MAX_LEN" and "length scan \<le> length out"
  shows "\<exists>out'. browser_on_ready E b (msg_header MK_READY @ c @ t) out =
      (Inr \<lparr>rd_phase = phase, rd_scan_len = length scan\<rparr>, b\<lparr>br_state := BConfirmed send (recv\<lparr>op_seq := 1\<rparr>)\<rparr>, out') \<and>
    take (length scan) out' = scan"
proof -
  have len: "length c = length scan + 1" "length t = SEAL_TAG_LEN"
    using aead_encrypted[OF assms(1,4)] by simp_all
  have "expect_kind (msg_header MK_READY @ c @ t) MK_READY = Inr (c @ t)"
    using assms(5) len
    by (intro expect_kind_header) (simp_all add: SCAN_MAX_LEN_def MAX_MESSAGE_def SEAL_TAG_LEN_def MK_READY_def MK_ERROR_def)
  moreover have "opener_open (en_aead E) recv (msg_header MK_READY) (c @ t) (replicate MAX_MESSAGE 0) =
      (Inr (length (phase # scan)), recv\<lparr>op_seq := 1\<rparr>, write_at (replicate MAX_MESSAGE 0) 0 (phase # scan))"
    using assms(3-5)
    by (intro opener_open_encrypted[OF assms(1)]) (simp_all add: checked_add_u64_def SCAN_MAX_LEN_def MAX_MESSAGE_def)
  ultimately show ?thesis
    using assms(2,6) by (simp add: browser_on_ready_def Let_def write_at_0)
qed

lemma send_settings_ok:
  assumes "aead_ok (en_aead E)" and "br_state b = BConfirmed send recv" and "se_seq send = 0"
    and "length rec + 18 \<le> MAX_MESSAGE" and "MAX_MESSAGE \<le> length out"
  shows "\<exists>c t out'. send_settings E b rec out = (Inr (2 + length (c @ t)), b\<lparr>br_state := BSent recv\<rparr>, out') \<and>
    ae_encrypt (en_aead E) (se_key send) (nonce 0) (msg_header MK_SETTINGS) rec = Some (c, t) \<and>
    take (2 + length (c @ t)) out' = msg_header MK_SETTINGS @ c @ t \<and> length (c @ t) + 2 \<le> MAX_MESSAGE"
proof -
  obtain c t where e: "ae_encrypt (en_aead E) (se_key send) (nonce 0) (msg_header MK_SETTINGS) rec = Some (c, t)"
    using sealable[OF assms(1), where p = rec and k = "se_key send" and n = "nonce 0" and h = "msg_header MK_SETTINGS"] assms(4) by auto
  have len: "length c = length rec" "length t = SEAL_TAG_LEN"
    using aead_encrypted[OF assms(1) e] by simp_all
  let ?rest = "drop 2 (write_at out 0 (msg_header MK_SETTINGS))"
  have fit: "length rec + SEAL_TAG_LEN \<le> length ?rest"
    using assms(4,5) by (simp add: write_at_0 msg_header_def SEAL_TAG_LEN_def)
  have "sealer_seal (en_aead E) send (msg_header MK_SETTINGS) rec ?rest =
      (Inr (length (c @ t)), send\<lparr>se_seq := 1\<rparr>, write_at ?rest 0 (c @ t))"
    using sealer_seal_encrypted[OF assms(1), of send _ rec c t 1 ?rest, OF _ _ fit] e len assms(3)
    by (simp add: checked_add_u64_def)
  then show ?thesis
    using assms(2,4,5) e len
    by (simp add: send_settings_def Let_def headed SEAL_TAG_LEN_def) (simp add: write_at_0 msg_header_def)
qed

lemma browser_on_result_ok:
  assumes "aead_ok (en_aead E)" and "br_state b = BSent recv" and "checked_add_u64 (op_seq recv) 1 = Some nxt"
    and "ae_encrypt (en_aead E) (op_key recv) (nonce (op_seq recv)) (msg_header MK_RESULT) [rc_as_u8 code, phase] = Some (c, t)"
  shows "browser_on_result E b (msg_header MK_RESULT @ c @ t) = (Inr (code, phase), b\<lparr>br_state := BDone\<rparr>)"
proof -
  have len: "length c = 2" "length t = SEAL_TAG_LEN"
    using aead_encrypted[OF assms(1,4)] by simp_all
  have "expect_kind (msg_header MK_RESULT @ c @ t) MK_RESULT = Inr (c @ t)"
    using len by (intro expect_kind_header) (simp_all add: MAX_MESSAGE_def SEAL_TAG_LEN_def MK_RESULT_def MK_ERROR_def)
  moreover have "opener_open (en_aead E) recv (msg_header MK_RESULT) (c @ t) [0, 0] =
      (Inr 2, recv\<lparr>op_seq := nxt\<rparr>, write_at [0, 0] 0 [rc_as_u8 code, phase])"
    using opener_open_encrypted[OF assms(1,4,3), of "[0, 0]"] by simp
  ultimately show ?thesis
    using assms(2) by (simp add: browser_on_result_def Let_def write_at_0)
qed

section \<open>The whole session\<close>

text \<open>From the device's Reply on: the browser confirms, reads Ready, sends the settings and reads the Result,
  each answer carried to the other side. What comes of it: what Ready carried, the Result, what was applied.\<close>

definition finish_session ::
  "('kv, 'g, 's, 'p, 'a, 'o) env \<Rightarrow> 's browser \<Rightarrow> bytes \<Rightarrow> micros \<Rightarrow> micros \<Rightarrow> status \<Rightarrow> bytes \<Rightarrow> ('kv, 'g) world \<Rightarrow>
   (ready \<times> bytes \<times> (result_code \<times> u8) \<times> applied option \<times> ('kv, 'g) world) option" where
  "finish_session E b reply t2 t3 status rec w =
     (case browser_on_reply E b reply (replicate MAX_MESSAGE 0) of
        (Inr n, b, m) \<Rightarrow>
          (case on_message E (take n m) t2 status w of
             (Inr a, w) \<Rightarrow>
               (case browser_on_ready E b (take (an_len a) (w_out w)) (replicate SCAN_MAX_LEN 0) of
                  (Inr rd, b, scan) \<Rightarrow>
                    (case send_settings E b rec (replicate MAX_MESSAGE 0) of
                       (Inr n, b, m) \<Rightarrow>
                         (case on_message E (take n m) t3 status w of
                            (Inr a, w) \<Rightarrow>
                              (case browser_on_result E b (take (an_len a) (w_out w)) of
                                 (Inr res, b) \<Rightarrow> Some (rd, take (rd_scan_len rd) scan, res, an_applied a, w)
                               | _ \<Rightarrow> None)
                          | _ \<Rightarrow> None)
                     | _ \<Rightarrow> None)
                | _ \<Rightarrow> None)
           | _ \<Rightarrow> None)
      | _ \<Rightarrow> None)"

lemma finish_session_ok:
  assumes env: "session_env_ok E (dv_devpub (w_device w))"
    and pv: "prover_with_scalar (en_curve E) sec ctx x = Inr pv"
    and resp: "respond_inner (en_curve E) (en_hashes E) (verifier_from_secrets (en_curve E) sec salt it) ctx [] []
      (pv_share_p pv) y = Inr r"
    and st: "dv_state (w_device w) = DReplied r t1"
    and b: "b = \<lparr>br_devpub = dv_devpub (w_device w), br_state = BStarted pv\<rparr>"
    and reply: "reply = msg_header MK_REPLY @ rs_share_v r @ rs_confirm_v r @
      en_sign_reply E (en_reply_prehash E ctx (pv_share_p pv) (rs_share_v r) (rs_confirm_v r))"
    and out: "MAX_MESSAGE \<le> length (w_out w)"
    and times: "en_since E t2 t1 \<le> IDLE_TIMEOUT_US" "en_since E t3 t2 \<le> IDLE_TIMEOUT_US"
    and store: "en_store_failures E (w_settings w) 0 = (Inr u, kv)"
    and scan: "length (st_scan status) \<le> SCAN_MAX_LEN"
    and rec: "length rec + 18 \<le> MAX_MESSAGE"
    and app: "device_apply E (w_device w) rec (kv, w_identity w) = ((code, applied), kvs)"
  shows "\<exists>w'. finish_session E b reply t2 t3 status rec w =
      Some (\<lparr>rd_phase = st_phase status, rd_scan_len = length (st_scan status)\<rparr>, st_scan status, (code, st_phase status),
        applied, w') \<and> (w_settings w', w_identity w') = kvs \<and> dv_state (w_device w') = DIdle"
proof -
  let ?A = "en_aead E" and ?H = "en_hashes E"
  have ok: "encodings_ok (en_curve E)" "group_ok (en_curve E)" "hashes_ok ?H" "aead_ok ?A"
    using env by (simp_all add: session_env_ok_def)
  have ctx: "pv_context pv = ctx"
    using pv by (auto simp: prover_with_scalar_def rbind_Inr_iff)
  note len = response_lengths[OF ok(1,3) resp]
  obtain bs br ds dr where est: "established_new ?H (rs_shared r) True = (bs, br)" "established_new ?H (rs_shared r) False = (ds, dr)"
    by fastforce
  have keys: "se_key bs = op_key dr" "se_key ds = op_key br" "se_seq bs = 0" "se_seq ds = 0" "op_seq br = 0" "op_seq dr = 0"
    using est by (auto simp: established_new_def sealer_new_def opener_new_def Let_def)
  obtain m1 where m1: "browser_on_reply E b reply (replicate MAX_MESSAGE 0) =
      (Inr 34, b\<lparr>br_state := BConfirmed bs br\<rparr>, m1)" "take 34 m1 = msg_header MK_CONFIRM @ rs_expect_p r"
    using browser_on_reply_ok[OF env, of b pv "rs_share_v r" "rs_confirm_v r" "rs_expect_p r" bs br reply
        "replicate MAX_MESSAGE 0"] spake_agreement[OF ok(1,2) pv resp] len est
    by (auto simp: b reply ctx)
  have tick2: "ticked E t2 w = w"
    using times(1) by (simp add: device_tick_def st not_less)
  obtain c1 e1 w2 where w2: "on_confirm E (rs_expect_p r) t2 status w = (Inr \<lparr>an_len = 2 + length (c1 @ e1), an_applied = None\<rparr>, w2)"
    "ae_encrypt ?A (se_key ds) (nonce 0) (msg_header MK_READY) (st_phase status # st_scan status) = Some (c1, e1)"
    "take (2 + length (c1 @ e1)) (w_out w2) = msg_header MK_READY @ c1 @ e1" "length (w_out w2) = length (w_out w)"
    "dv_state (w_device w2) = DConfirmed (ds\<lparr>se_seq := 1\<rparr>) dr t2" "dv_devpub (w_device w2) = dv_devpub (w_device w)"
    "w_settings w2 = kv" "w_identity w2 = w_identity w"
    using on_confirm_ready[OF ok(4) st refl len(3) store scan out _ keys(4), of dr t2] response_confirm_own[of ?H r] est
    by auto
  have "on_message E (take 34 m1) t2 status w = on_confirm E (rs_expect_p r) t2 status w"
    using on_message_dispatch(2)[OF out msg_split_header[of "rs_expect_p r" MK_CONFIRM], where E = E] len(3) m1(2) tick2
    by (simp add: MAX_MESSAGE_def)
  note step2 = this[unfolded w2(1)]
  obtain s where s: "browser_on_ready E (b\<lparr>br_state := BConfirmed bs br\<rparr>) (msg_header MK_READY @ c1 @ e1) (replicate SCAN_MAX_LEN 0) =
      (Inr \<lparr>rd_phase = st_phase status, rd_scan_len = length (st_scan status)\<rparr>,
       b\<lparr>br_state := BConfirmed bs (br\<lparr>op_seq := 1\<rparr>)\<rparr>, s)" "take (length (st_scan status)) s = st_scan status"
    using browser_on_ready_ok[OF ok(4), of "b\<lparr>br_state := BConfirmed bs br\<rparr>" bs br "st_phase status" "st_scan status" c1 e1
        "replicate SCAN_MAX_LEN 0"] w2(2) keys scan by auto
  obtain c2 e2 m2 where m2: "send_settings E (b\<lparr>br_state := BConfirmed bs (br\<lparr>op_seq := 1\<rparr>)\<rparr>) rec (replicate MAX_MESSAGE 0) =
      (Inr (2 + length (c2 @ e2)), b\<lparr>br_state := BSent (br\<lparr>op_seq := 1\<rparr>)\<rparr>, m2)"
    "ae_encrypt ?A (se_key bs) (nonce 0) (msg_header MK_SETTINGS) rec = Some (c2, e2)"
    "take (2 + length (c2 @ e2)) m2 = msg_header MK_SETTINGS @ c2 @ e2" "length (c2 @ e2) + 2 \<le> MAX_MESSAGE"
    using send_settings_ok[OF ok(4), of "b\<lparr>br_state := BConfirmed bs (br\<lparr>op_seq := 1\<rparr>)\<rparr>" bs "br\<lparr>op_seq := 1\<rparr>" rec
        "replicate MAX_MESSAGE 0"] keys rec by auto
  have tick3: "ticked E t3 w2 = w2"
    using times(2) by (simp add: device_tick_def w2(5) not_less)
  have "device_apply E (w_device w2) rec (w_settings w2, w_identity w2) = ((code, applied), kvs)"
    using app device_apply_cong[OF w2(6), of E] w2(7,8) by simp
  then obtain c3 e3 w3 where w3: "on_settings E (c2 @ e2) t3 status w2 = (Inr \<lparr>an_len = 2 + length (c3 @ e3), an_applied = applied\<rparr>, w3)"
    "ae_encrypt ?A (se_key ds) (nonce 1) (msg_header MK_RESULT) [rc_as_u8 code, st_phase status] = Some (c3, e3)"
    "take (2 + length (c3 @ e3)) (w_out w3) = msg_header MK_RESULT @ c3 @ e3"
    "w_settings w3 = fst kvs" "w_identity w3 = snd kvs" "dv_state (w_device w3) = DIdle"
    using on_settings_result[OF ok(4) w2(5), of rec c2 e2 1 2 code applied kvs t3 status] m2(2) keys out rec w2(4)
    by (auto simp: checked_add_u64_def)
  have "on_message E (take (2 + length (c2 @ e2)) m2) t3 status w2 = on_settings E (c2 @ e2) t3 status w2"
    unfolding m2(3) using on_message_dispatch(3)[OF _ msg_split_header[OF m2(4)], of w2 E] out w2(4) tick3 by simp
  note step3 = this[unfolded w3(1)]
  have res: "browser_on_result E (b\<lparr>br_state := BSent (br\<lparr>op_seq := 1\<rparr>)\<rparr>) (msg_header MK_RESULT @ c3 @ e3) =
      (Inr (code, st_phase status), b\<lparr>br_state := BDone\<rparr>)"
    using browser_on_result_ok[OF ok(4), of "b\<lparr>br_state := BSent (br\<lparr>op_seq := 1\<rparr>)\<rparr>" "br\<lparr>op_seq := 1\<rparr>" 2 code
        "st_phase status" c3 e3] w3(2) keys by (simp add: checked_add_u64_def)
  show ?thesis
    unfolding finish_session_def m1(1) prod.case sum.case step2 answer.simps w2(3) s(1) m2(1) step3 w3(3) res ready.simps s(2)
    using w3 by simp
qed

section \<open>The opening\<close>

lemma device_discover_read:
  assumes "device_discover E d now kv out = (Inr n, m)" and "load_verifier E kv = Some v"
    and "length (dv_devpub d) = DEVPUB_LEN" and "length (vf_salt v) = SALT_LEN"
  shows "\<exists>x. discover_read (take n m) = Inr x \<and> dc_devpub x = dv_devpub d \<and> dc_salt x = vf_salt v \<and>
    dc_iterations x = vf_iterations v \<and> offers_code x"
proof -
  let ?wn = "device_window E d now kv"
  let ?x = "\<lparr>dc_suites = SUITE_CODE, dc_devpub = dv_devpub d, dc_salt = vf_salt v, dc_iterations = vf_iterations v,
    dc_window_s = wn_window_s ?wn, dc_attempts_left = wn_attempts_left ?wn\<rparr>"
  have w: "discover_write ?x out = (Inr n, m)" and wf: "discover_wf ?x"
    using assms by (simp_all add: device_discover_def Let_def discover_wf_def)
  then have "DISCOVER_LEN \<le> length out"
    by (auto simp: discover_write_def split: if_splits)
  from discover_write_eq[OF wf this] w have "n = DISCOVER_LEN" "m = discover_bytes ?x @ drop DISCOVER_LEN out"
    by simp_all
  moreover have "length (discover_bytes ?x) = DISCOVER_LEN"
    using wf by (simp add: discover_bytes_def discover_wf_def setup_len_defs msg_header_def)
  ultimately have "take n m = discover_bytes ?x"
    by simp
  then show ?thesis
    using discover_read_bytes[OF wf] by (auto simp: offers_code_def SUITE_CODE_def)
qed

lemma browser_start_Inr:
  assumes "browser_start E m code expected label g out = (Inr (b, n), g', out')" and "discover_read m = Inr x"
    and "encodings_ok (en_curve E)"
  shows "\<exists>sec ctx y pv. secrets_derive (en_curve E) (en_hashes E) code (dc_salt x) (dc_iterations x) = Inr sec \<and>
    context_new label (dc_devpub x) = Inr ctx \<and> prover_with_scalar (en_curve E) sec ctx y = Inr pv \<and>
    b = \<lparr>br_devpub = dc_devpub x, br_state = BStarted pv\<rparr> \<and> length (pv_share_p pv) = 65 \<and>
    take n out' = msg_header MK_START @ SUITE_CODE # pv_share_p pv"
proof -
  obtain sec ctx pv where s: "\<not> length out < 3 + SHARE_LEN"
    "secrets_derive (en_curve E) (en_hashes E) code (dc_salt x) (dc_iterations x) = Inr sec"
    "context_new label (dc_devpub x) = Inr ctx" "prover_start (en_curve E) (en_fill E) sec ctx g = (Inr pv, g')"
    "b = \<lparr>br_devpub = dc_devpub x, br_state = BStarted pv\<rparr>" "n = 3 + SHARE_LEN"
    "out' = write_at (write_at (write_at out 0 (msg_header MK_START)) 2 [SUITE_CODE]) 3 (pv_share_p pv)"
    using assms(1,2) by (auto simp: browser_start_def Let_def split: if_splits option.splits sum.splits prod.splits)
  obtain y where y: "prover_with_scalar (en_curve E) sec ctx y = Inr pv"
    using s(4) by (auto simp: prover_start_def split: sum.splits prod.splits)
  then have len: "length (pv_share_p pv) = 65"
    using point_bytes_length[OF assms(3)] by (auto simp: prover_with_scalar_def rbind_Inr_iff SHARE_LEN_def)
  have "take n out' = msg_header MK_START @ SUITE_CODE # pv_share_p pv"
    using s(1) len unfolding s(6,7) by (simp add: SHARE_LEN_def write_at_def msg_header_def)
  then show ?thesis
    using s y len by blast
qed

lemma device_tick_label: "dv_label (device_tick E now d) = dv_label d"
  by (auto simp: device_tick_def split: dstate.splits)

lemma on_message_Inr_out: "on_message E m now status w = (Inr a, w') \<Longrightarrow> MAX_MESSAGE \<le> length (w_out w)"
  by (auto simp: on_message_def not_less split: if_splits)

section \<open>A concrete session\<close>

lemma toy_env_sel:
  "en_curve toy_env = toy_curve" "en_hashes toy_env = toy_hashes" "en_aead toy_env = toy_aead" "en_since toy_env = sat_sub"
  "en_fill toy_env = (\<lambda>g n. (Inr (replicate (n - 1) 0 @ [g]), g + 1))"
  "en_store_failures toy_env kv n = (Inr (), kv(TOY_FAIL \<mapsto> [n]))"
  by (simp_all add: toy_env_def)

lemma toy_session_env_ok: "session_env_ok toy_env devpub"
  using toy_encodings_ok toy_group_ok toy_hashes_ok toy_aead_ok
  by (simp add: session_env_ok_def toy_env_sel) (simp add: toy_env_def SIG_LEN_def)

abbreviation "toy_salt \<equiv> replicate 16 (7 :: u8)"
abbreviation "toy_code \<equiv> replicate 10 (48 :: u8)"
abbreviation "toy_secrets \<equiv> \<lparr>sec_w0 = 3, sec_w1 = 3 :: u8\<rparr>"
abbreviation "toy_verifier \<equiv> verifier_from_secrets toy_curve toy_secrets toy_salt 1000"
abbreviation "toy_devpub \<equiv> replicate 33 (2 :: u8)"
abbreviation "toy_share \<equiv> 4 # replicate 63 0 @ [0x67 :: u8]"

definition toy_store :: "bytes \<Rightarrow> bytes option" where
  "toy_store = [[1] \<mapsto> verifier_encode toy_curve toy_verifier]"

lemma toy_secrets_derived: "secrets_derive toy_curve toy_hashes toy_code toy_salt 1000 = Inr toy_secrets"
  by (simp add: secrets_derive_def MIN_ITERATIONS_def MAX_ITERATIONS_def reduce_40_def Let_def) (simp add: toy_curve_def)

lemma toy_verifier_loaded: "load_verifier toy_env toy_store = Some toy_verifier"
proof -
  have "verifier_wf toy_curve toy_verifier"
    by (simp add: verifier_wf_def verifier_from_secrets_def SALT_LEN_def MIN_ITERATIONS_def MAX_ITERATIONS_def)
      (simp add: toy_curve_def)
  from verifier_decode_encode[OF toy_encodings_ok this] show ?thesis
    by (simp add: load_verifier_def toy_env_sel) (simp add: toy_env_def toy_store_def)
qed

lemma toy_scalar: "g \<noteq> 0 \<Longrightarrow> random_scalar toy_curve (en_fill toy_env) g = (Inr g, g + 1)"
proof -
  assume "g \<noteq> 0"
  moreover have "(16 :: nat) = Suc 15"
    by simp
  ultimately show ?thesis
    by (simp only: random_scalar_def random_scalar_tries.simps toy_env_sel) (simp add: scalar_def toy_curve_def)
qed

lemma toy_points: "spake_m toy_curve = 0x20" "spake_n toy_curve = 0xe7"
  by (simp_all add: spake_m_def spake_n_def point_def toy_curve_def M_BYTES_def N_BYTES_def SHARE_LEN_def)

lemma toy_prover:
  "prover_start toy_curve (en_fill toy_env) toy_secrets ctx 7 =
     (Inr \<lparr>pv_secrets = toy_secrets, pv_x = 7, pv_share_p = toy_share, pv_context = ctx\<rparr>, 8)"
  by (simp add: prover_start_def toy_scalar prover_with_scalar_def toy_points) (simp add: toy_curve_def point_bytes_def)

lemma toy_response: "\<exists>r. spake_respond toy_curve toy_hashes (en_fill toy_env) toy_verifier ctx toy_share 7 = (Inr r, 8)"
proof -
  have "point toy_curve toy_share = Inr 0x67"
    by (simp add: point_def SHARE_LEN_def toy_curve_def)
  then show ?thesis
    by (simp add: spake_respond_def toy_scalar respond_inner_def SHARE_LEN_def toy_points verifier_from_secrets_def Let_def)
      (simp add: toy_curve_def point_bytes_def)
qed

lemma toy_store_open: "failures toy_env toy_store = 0" "\<not> provisioned toy_env toy_store"
  by (simp_all add: failures_def provisioned_def toy_env_def toy_store_def TOY_FAIL_def KEY_SSID_def)

section \<open>Properties\<close>

text \<open>C5: A setup session completes. A browser that reads the device's Discover, holds the code the device's
  verifier was made from and gets a Reply to its Start goes on, if the messages are carried unchanged and in
  time, to a Result: Ready gives it the device's phase and scan list, the device applies exactly the
  browser's settings, and the Result's code is what applying them returned.\<close>

theorem setup_session_completes:
  assumes "session_env_ok E (dv_devpub (w_device w))"
    and "length (dv_devpub (w_device w)) = DEVPUB_LEN" and "length salt = SALT_LEN"
    and "secrets_derive (en_curve E) (en_hashes E) code salt it = Inr sec"
    and "load_verifier E (w_settings w) = Some (verifier_from_secrets (en_curve E) sec salt it)"
    and "device_discover E (w_device w) t0 (w_settings w) dout = (Inr n0, dmsg)"
    and "browser_start E (take n0 dmsg) code expected (dv_label (w_device w)) g sout = (Inr (b, n1), g', smsg)"
    and "on_message E (take n1 smsg) t1 status w = (Inr a, w1)" and "is_reply (Inr a, w1)"
    and "en_since E t2 t1 \<le> IDLE_TIMEOUT_US" and "en_since E t3 t2 \<le> IDLE_TIMEOUT_US"
    and "en_store_failures E (w_settings w1) 0 = (Inr u, kv)"
    and "length (st_scan status) \<le> SCAN_MAX_LEN" and "length rec + 18 \<le> MAX_MESSAGE"
    and "device_apply E (w_device w) rec (kv, w_identity w1) = ((result, applied), kvs)"
  shows "\<exists>w'. finish_session E b (take (an_len a) (w_out w1)) t2 t3 status rec w1 =
      Some (\<lparr>rd_phase = st_phase status, rd_scan_len = length (st_scan status)\<rparr>, st_scan status, (result, st_phase status),
        applied, w') \<and> (w_settings w', w_identity w') = kvs \<and> dv_state (w_device w') = DIdle"
proof -
  let ?v = "verifier_from_secrets (en_curve E) sec salt it" and ?d = "w_device w"
  have enc: "encodings_ok (en_curve E)"
    using assms(1) by (simp add: session_env_ok_def)
  have v: "vf_salt ?v = salt" "vf_iterations ?v = it"
    by (simp_all add: verifier_from_secrets_def)
  obtain x where x: "discover_read (take n0 dmsg) = Inr x" "dc_devpub x = dv_devpub ?d" "dc_salt x = salt" "dc_iterations x = it"
    using device_discover_read[OF assms(6,5,2)] assms(3) v by auto
  obtain ctx y pv where s: "context_new (dv_label ?d) (dv_devpub ?d) = Inr ctx" "prover_with_scalar (en_curve E) sec ctx y = Inr pv"
    "b = \<lparr>br_devpub = dv_devpub ?d, br_state = BStarted pv\<rparr>" "length (pv_share_p pv) = 65"
    "take n1 smsg = msg_header MK_START @ SUITE_CODE # pv_share_p pv"
    using browser_start_Inr[OF assms(7) x(1) enc] assms(4) x by auto
  note out = on_message_Inr_out[OF assms(8)]
  have "msg_split (take n1 smsg) = Inr (MK_START, SUITE_CODE # pv_share_p pv)"
    unfolding s(5) using s(4) by (intro msg_split_header) (simp add: MAX_MESSAGE_def)
  from on_message_dispatch(1)[OF out this, where E = E and now = t1 and status = status]
  have start: "on_start E (SUITE_CODE # pv_share_p pv) t1 (ticked E t1 w) = (Inr a, w1)"
    using assms(8) by simp
  obtain y' r where r: "respond_inner (en_curve E) (en_hashes E) ?v ctx [] [] (pv_share_p pv) y' = Inr r"
    "dv_state (w_device w1) = DReplied r t1" "dv_devpub (w_device w1) = dv_devpub ?d" "length (w_out w1) = length (w_out w)"
    "take (an_len a) (w_out w1) = msg_header MK_REPLY @ rs_share_v r @ rs_confirm_v r @
      en_sign_reply E (en_reply_prehash E ctx (pv_share_p pv) (rs_share_v r) (rs_confirm_v r))"
    using on_start_replied[OF assms(1) start assms(9)] out assms(5) s(1)
    by (auto simp: device_tick_devpub device_tick_label)
  have "device_apply E (w_device w1) rec (kv, w_identity w1) = ((result, applied), kvs)"
    using assms(15) device_apply_cong[OF r(3), of E] by simp
  from finish_session_ok[OF _ s(2) r(1,2) _ r(5) _ assms(10-14) this, of b] assms(1) s(3) r(3,4) out show ?thesis
    by simp
qed

theorem setup_session_completes_witness:
  "\<exists>b reply w1 w'. finish_session toy_env b reply 3 4 \<lparr>st_phase = 2, st_scan = [1, 1, 97]\<rparr> [6, 0, 1, 9] w1 =
      Some (\<lparr>rd_phase = 2, rd_scan_len = 3\<rparr>, [1, 1, 97], (RcApplied, 2),
        Some \<lparr>ap_network = None, ap_code_rotated = False, ap_adopted = False\<rparr>, w') \<and> w_settings w' KEY_FPS = Some [9]"
proof -
  let ?E = toy_env and ?st = "\<lparr>st_phase = 2, st_scan = [1, 1, 97]\<rparr>"
  define w where "w = (toy_world DIdle)\<lparr>w_settings := toy_store, w_device := (w_device (toy_world DIdle))\<lparr>dv_devpub := toy_devpub\<rparr>\<rparr>"
  have fields: "w_settings w = toy_store" "dv_devpub (w_device w) = toy_devpub" "dv_label (w_device w) = [98]" "dv_state (w_device w) = DIdle"
    "dv_last_failure (w_device w) = None" "w_rng w = 7" "w_out w = replicate 512 0"
    by (simp_all add: w_def toy_world_def)
  note E = toy_env_sel
  have sec: "secrets_derive (en_curve ?E) (en_hashes ?E) toy_code toy_salt 1000 = Inr toy_secrets"
    by (simp add: toy_secrets_derived E)
  have ver: "load_verifier ?E (w_settings w) = Some (verifier_from_secrets (en_curve ?E) toy_secrets toy_salt 1000)"
    by (simp add: toy_verifier_loaded fields E)
  obtain n0 dmsg where disc: "device_discover ?E (w_device w) 1 (w_settings w) (replicate 100 0) = (Inr n0, dmsg)"
    by (simp add: device_discover_def ver Let_def discover_write_def setup_len_defs)
  obtain ctx where ctx: "context_new [98] toy_devpub = Inr ctx"
    by (simp add: context_new_def MAX_LABEL_LEN_def)
  let ?pv = "\<lparr>pv_secrets = toy_secrets, pv_x = 7, pv_share_p = toy_share, pv_context = ctx\<rparr>"
  obtain d where d: "discover_read (take n0 dmsg) = Inr d" "dc_devpub d = toy_devpub" "dc_salt d = toy_salt" "dc_iterations d = 1000"
    "offers_code d"
    using device_discover_read[OF disc ver] by (auto simp: fields DEVPUB_LEN_def SALT_LEN_def verifier_from_secrets_def)
  obtain smsg where start: "browser_start ?E (take n0 dmsg) toy_code None (dv_label (w_device w)) 7 (replicate 100 0) =
      (Inr (\<lparr>br_devpub = toy_devpub, br_state = BStarted ?pv\<rparr>, 68), 8, smsg)"
    using sec by (simp add: browser_start_def d fields ctx E(1,2) toy_prover SHARE_LEN_def Let_def)
  have smsg: "take 68 smsg = msg_header MK_START @ SUITE_CODE # toy_share"
    using browser_start_Inr[OF start d(1)] toy_encodings_ok by (auto simp: E)
  have "msg_split (take 68 smsg) = Inr (MK_START, SUITE_CODE # toy_share)"
    unfolding smsg by (intro msg_split_header) (simp add: MAX_MESSAGE_def)
  moreover have "ticked ?E 2 w = w"
    by (simp add: device_tick_def fields)
  ultimately have msg: "on_message ?E (take 68 smsg) 2 ?st w = on_start ?E (SUITE_CODE # toy_share) 2 w"
    using on_message_dispatch(1)[of w "take 68 smsg" "SUITE_CODE # toy_share" ?E 2 ?st] by (simp add: fields MAX_MESSAGE_def)
  obtain r where r: "spake_respond toy_curve toy_hashes (en_fill ?E) toy_verifier ctx toy_share 7 = (Inr r, 8)"
    using toy_response by blast
  have win: "wn_open (device_window ?E (w_device w) 2 toy_store)"
    using toy_store_open by (simp add: device_window_def MAX_FAILURES_def Let_def)
  let ?ps = "[msg_header MK_REPLY, rs_share_v r, rs_confirm_v r,
    en_sign_reply ?E (en_reply_prehash ?E ctx toy_share (rs_share_v r) (rs_confirm_v r))]"
  obtain at out where ps: "write_parts ?ps 0 (w_out w) = (at, out)"
    by (meson surj_pair)
  let ?w1 = "set_state (DReplied r 2) (w\<lparr>w_rng := 8, w_settings := toy_store(TOY_FAIL \<mapsto> [1]),
        w_device := (w_device w)\<lparr>dv_last_failure := Some 2\<rparr>, w_out := out\<rparr>)"
  have reply: "on_message ?E (take 68 smsg) 2 ?st w = (Inr \<lparr>an_len = at, an_applied = None\<rparr>, ?w1)"
    unfolding msg using ps
    by (simp add: on_start_def Let_def in_session_def fields win backing_off_def toy_verifier_loaded ctx SHARE_LEN_def
        E(1,2,6) r record_failure_def toy_store_open sat_add_def del: write_parts.simps)
  have "length (concat ?ps) = 163"
    using spake_respond_Inr[OF r] response_lengths[OF toy_encodings_ok toy_hashes_ok, of toy_verifier ctx toy_share _ r]
    by (auto simp: msg_header_def) (simp add: toy_env_def)
  with write_parts_eq[OF ps] have "at = 163" "take 163 out = concat ?ps"
    by (auto simp: fields)
  then have "take 2 (take 163 out) = msg_header MK_REPLY"
    by (simp add: msg_header_def)
  with \<open>at = 163\<close> have isr: "is_reply (Inr \<lparr>an_len = at, an_applied = None\<rparr>, ?w1)"
    by (simp add: is_reply_def)
  have "\<exists>w'. finish_session ?E \<lparr>br_devpub = toy_devpub, br_state = BStarted ?pv\<rparr> (take at out) 3 4 ?st [6, 0, 1, 9] ?w1 =
      Some (\<lparr>rd_phase = 2, rd_scan_len = 3\<rparr>, [1, 1, 97], (RcApplied, 2),
        Some \<lparr>ap_network = None, ap_code_rotated = False, ap_adopted = False\<rparr>, w') \<and>
      (w_settings w', w_identity w') = (toy_store(TOY_FAIL \<mapsto> [1], TOY_FAIL \<mapsto> [0], KEY_FPS \<mapsto> [9]), w_identity w) \<and>
      dv_state (w_device w') = DIdle"
    using setup_session_completes[OF toy_session_env_ok _ _ sec ver disc start reply isr, of 3 4 "()" "toy_store(TOY_FAIL \<mapsto> [1], TOY_FAIL \<mapsto> [0])"
        "[6, 0, 1, 9]" RcApplied] toy_apply_fps
    by (simp add: fields DEVPUB_LEN_def SALT_LEN_def E sat_sub_def IDLE_TIMEOUT_US_def SCAN_MAX_LEN_def MAX_MESSAGE_def numeral_3_eq_3)
  then obtain w' where "finish_session ?E \<lparr>br_devpub = toy_devpub, br_state = BStarted ?pv\<rparr> (take at out) 3 4 ?st [6, 0, 1, 9] ?w1 =
      Some (\<lparr>rd_phase = 2, rd_scan_len = 3\<rparr>, [1, 1, 97], (RcApplied, 2),
        Some \<lparr>ap_network = None, ap_code_rotated = False, ap_adopted = False\<rparr>, w')" "w_settings w' KEY_FPS = Some [9]"
    by auto
  then show ?thesis by blast
qed

end
