(* ===== verification/Setup_Page.thy ===== *)
theory Setup_Page
  imports Setup_Device
begin

text \<open>
  The device's own page as a carrier of the setup session (\<open>crates/rusty_esp_signal-core/src/setup/page.rs\<close>):
  one browser at a time, named by the header it sends. The device is part of the \<open>world\<close> of
  \<open>Setup_Device\<close>.
\<close>

definition SESSION_DIGITS :: nat where "SESSION_DIGITS = 16"

record page_answer =
  pa_status :: u16
  pa_len :: nat
  pa_applied :: "applied option"

text \<open>\<open>Page\<close>: the session in flight.\<close>

type_synonym page = "u64 option"

definition status_of :: "bytes \<Rightarrow> u16" where
  "status_of ans =
     (case msg_split ans of
        Inr (k, body) \<Rightarrow>
          if k = MK_ERROR then
            (case (case body of [] \<Rightarrow> None | b # _ \<Rightarrow> rc_from_u8 b) of
               Some RcBusy \<Rightarrow> 409
             | Some RcWindowClosed \<Rightarrow> 403 | Some RcBackoff \<Rightarrow> 403 | Some RcNoVerifier \<Rightarrow> 403
             | Some RcConfirm \<Rightarrow> 401 | Some RcSeal \<Rightarrow> 401
             | _ \<Rightarrow> 400)
          else 200
      | Inl _ \<Rightarrow> 200)"

definition hex_digit :: "u8 \<Rightarrow> u8 option" where
  "hex_digit c =
     (if 48 \<le> c \<and> c \<le> 57 then Some (c - 48)
      else if 97 \<le> c \<and> c \<le> 102 then Some (c - 97 + 10)
      else if 65 \<le> c \<and> c \<le> 70 then Some (c - 65 + 10)
      else None)"

fun parse_hex :: "bytes \<Rightarrow> u64 \<Rightarrow> u64 option" where
  "parse_hex [] n = Some n"
| "parse_hex (c # cs) n = (case hex_digit c of None \<Rightarrow> None | Some d \<Rightarrow> parse_hex cs (push_bit 4 n OR ucast d))"

definition parse_session :: "bytes \<Rightarrow> u64 option" where
  "parse_session value = (if length value \<noteq> SESSION_DIGITS then None else parse_hex value 0)"

definition page_new :: page where "page_new = None"

definition page_in_flight :: "page \<Rightarrow> bool" where "page_in_flight p \<longleftrightarrow> p \<noteq> None"

definition page_settle ::
  "('kv, 'g, 's, 'p, 'a, 'o) env \<Rightarrow> micros \<Rightarrow> page \<Rightarrow> ('kv, 'g) world \<Rightarrow> page \<times> ('kv, 'g) world" where
  "page_settle E now p w =
     (let w = w\<lparr>w_device := device_tick E now (w_device w)\<rparr>
      in (if \<not> in_session (w_device w) then None else p, w))"

definition page_discover ::
  "('kv, 'g, 's, 'p, 'a, 'o) env \<Rightarrow> micros \<Rightarrow> page \<Rightarrow> ('kv, 'g) world \<Rightarrow> (err + page_answer) \<times> page \<times> ('kv, 'g) world" where
  "page_discover E now p w =
     (case page_settle E now p w of
        (p, w) \<Rightarrow>
          (case device_discover E (w_device w) now (w_settings w) (w_out w) of
             (Inl e, out) \<Rightarrow> (Inl e, p, w\<lparr>w_out := out\<rparr>)
           | (Inr len, out) \<Rightarrow>
               (Inr \<lparr>pa_status = 200, pa_len = len, pa_applied = None\<rparr>, p, w\<lparr>w_out := out\<rparr>)))"

definition page_refuse :: "result_code \<Rightarrow> page \<Rightarrow> ('kv, 'g) world \<Rightarrow> (err + page_answer) \<times> page \<times> ('kv, 'g) world" where
  "page_refuse code p w =
     (case write_error code (w_out w) of
        (Inl e, out) \<Rightarrow> (Inl e, p, w\<lparr>w_out := out\<rparr>)
      | (Inr len, out) \<Rightarrow>
          (Inr \<lparr>pa_status = status_of (take len out), pa_len = len, pa_applied = None\<rparr>, p, w\<lparr>w_out := out\<rparr>))"

text \<open>The message given to the device, and the carrier session following the session.\<close>

definition page_forward ::
  "('kv, 'g, 's, 'p, 'a, 'o) env \<Rightarrow> bytes \<Rightarrow> micros \<Rightarrow> status \<Rightarrow> page \<Rightarrow> ('kv, 'g) world \<Rightarrow>
   (err + page_answer) \<times> page \<times> ('kv, 'g) world" where
  "page_forward E body now status p w =
     (case on_message E body now status w of
        (Inl e, w) \<Rightarrow> (Inl e, p, w)
      | (Inr a, w) \<Rightarrow>
          (case page_settle E now p w of
             (p, w) \<Rightarrow>
               (Inr \<lparr>pa_status = status_of (take (an_len a) (w_out w)), pa_len = an_len a, pa_applied = an_applied a\<rparr>, p, w)))"

definition page_post ::
  "('kv, 'g, 's, 'p, 'a, 'o) env \<Rightarrow> bytes \<Rightarrow> bytes \<Rightarrow> micros \<Rightarrow> status \<Rightarrow> page \<Rightarrow> ('kv, 'g) world \<Rightarrow>
   (err + page_answer) \<times> page \<times> ('kv, 'g) world" where
  "page_post E header body now status p w =
     (case page_settle E now p w of
        (p, w) \<Rightarrow>
          (case parse_session header of
             None \<Rightarrow> page_refuse RcMalformed p w
           | Some session \<Rightarrow>
               (case p of
                  Some current \<Rightarrow>
                    if current \<noteq> session then page_refuse RcBusy p w
                    else if 1 < length body \<and> body ! 1 = MK_START then
                      page_forward E body now status p (w\<lparr>w_device := carrier_closed (w_device w)\<rparr>)
                    else page_forward E body now status p w
                | None \<Rightarrow> page_forward E body now status (Some session) w)))"

section \<open>Lemmas\<close>

text \<open>The carrier session is in flight only while the device's is, after every request that is answered.\<close>

lemma page_settle_in_flight: "page_settle E now p w = (p', w') \<Longrightarrow> page_in_flight p' \<Longrightarrow> in_session (w_device w')"
  by (auto simp: page_settle_def page_in_flight_def Let_def split: if_splits)

lemma refused_unseen: "page_refuse code p w = (r, p', w') \<Longrightarrow> p' = p \<and> w' = w\<lparr>w_out := w_out w'\<rparr>"
  by (auto simp: page_refuse_def split: prod.splits sum.splits)

lemma settle_device: "page_settle E now p w = (p', w') \<Longrightarrow> w' = w\<lparr>w_device := device_tick E now (w_device w)\<rparr>"
  by (simp add: page_settle_def Let_def)

section \<open>Properties\<close>

text \<open>C29: A browser's session on the page is its own: while one is in flight (and not timed out), a request
  under any other name, or under none, leaves the device, its stores and the session's owner as they were and is
  answered with an error.\<close>

theorem other_browser_never_reaches_session:
  assumes "p = Some current" and "in_session (device_tick E now (w_device w))" and "parse_session header \<noteq> Some current"
    and "page_post E header body now status p w = (r, p', w')"
  shows "p' = p \<and> w_device w' = device_tick E now (w_device w) \<and> w_settings w' = w_settings w \<and>
    w_identity w' = w_identity w \<and> w_rng w' = w_rng w \<and> (\<forall>a. r = Inr a \<longrightarrow> pa_status a \<in> {400, 409} \<and> pa_applied a = None)"
proof -
  let ?w = "w\<lparr>w_device := device_tick E now (w_device w)\<rparr>"
  have "page_settle E now p w = (p, ?w)"
    using assms(2) by (simp add: page_settle_def)
  then obtain code where c: "page_refuse code p ?w = (r, p', w')" "code = RcMalformed \<or> code = RcBusy"
    using assms(1,3,4) by (auto simp: page_post_def split: option.splits if_splits)
  have "status_of [SETUP_VERSION, MK_ERROR, rc_as_u8 code] \<in> {400, 409}"
    using c(2) by (auto simp: status_of_def msg_split_def MSG_HEADER_LEN_def MAX_MESSAGE_def)
  then have "\<forall>a. r = Inr a \<longrightarrow> pa_status a \<in> {400, 409} \<and> pa_applied a = None"
    using c(1) by (auto simp: page_refuse_def write_error_def write_at_0 split: if_splits prod.splits sum.splits)
  moreover obtain out where "p' = p" "w' = ?w\<lparr>w_out := out\<rparr>"
    using refused_unseen[OF c(1)] by blast
  ultimately show ?thesis
    by simp
qed

theorem other_browser_never_reaches_session_witness:
  "\<exists>r p' w'. page_post toy_env [] [1, 1] 9 \<lparr>st_phase = 0, st_scan = []\<rparr> (Some 5)
      (toy_world (DConfirmed (sealer_new []) (opener_new []) 4)) = (r, p', w') \<and>
    p' = Some 5 \<and> dv_state (w_device w') = DConfirmed (sealer_new []) (opener_new []) 4"
proof -
  let ?w = "toy_world (DConfirmed (sealer_new []) (opener_new []) 4)"
  obtain r p' w' where post: "page_post toy_env [] [1, 1] 9 \<lparr>st_phase = 0, st_scan = []\<rparr> (Some 5) ?w = (r, p', w')"
    by (metis prod_cases3)
  have "device_tick toy_env 9 (w_device ?w) = w_device ?w"
    by (simp add: device_tick_def toy_world_def toy_env_def sat_sub_def IDLE_TIMEOUT_US_def)
  moreover have "in_session (w_device ?w)"
    by (simp add: in_session_def toy_world_def)
  moreover have "parse_session [] \<noteq> Some 5"
    by (simp add: parse_session_def SESSION_DIGITS_def)
  ultimately have "p' = Some 5 \<and> w_device w' = w_device ?w"
    using other_browser_never_reaches_session[OF refl _ _ post] by simp
  then show ?thesis
    using post by (auto simp: toy_world_def)
qed

end
