(* ===== verification/Ble.thy ===== *)
theory Ble
  imports Utf8
begin

text \<open>
  The GATT table of a Janus device (\<open>crates/rusty_esp_signal-core/src/ble.rs\<close>): the 128-bit UUIDs and their
  text form, the property bits, the table a backend registers and routes by, and what fits an
  advertisement.
\<close>

section \<open>UUIDs\<close>

datatype uuid128 = Uuid128 bytes \<comment> \<open>16 bytes, display order\<close>

definition HYPHENATED_LEN :: nat where "HYPHENATED_LEN = 36"

definition uuid_new :: "bytes \<Rightarrow> uuid128" where "uuid_new bs = Uuid128 bs"

fun as_bytes :: "uuid128 \<Rightarrow> bytes" where "as_bytes (Uuid128 bs) = bs"

definition ble_hex_digit :: "u8 \<Rightarrow> u8" where
  "ble_hex_digit n = (let d = n AND 0x0F in if d \<le> 9 then 48 + d else 97 + d - 10)"

text \<open>The loop of \<open>write_hyphenated\<close>: byte number, position, the slice. A store past the slice's end is
  skipped, as \<open>get_mut\<close> does.\<close>

fun hyphenate :: "bytes \<Rightarrow> nat \<Rightarrow> nat \<Rightarrow> bytes \<Rightarrow> bytes" where
  "hyphenate [] i pos out = out"
| "hyphenate (b # bs) i pos out =
     (let (out, pos) = (if i \<in> {4, 6, 8, 10} then (out[pos := 45], pos + 1) else (out, pos));
          out = out[pos := ble_hex_digit (drop_bit 4 b)];
          out = out[pos + 1 := ble_hex_digit (b AND 0x0F)]
      in hyphenate bs (i + 1) (pos + 2) out)"

definition write_hyphenated :: "uuid128 \<Rightarrow> bytes \<Rightarrow> (err + bytes) \<times> bytes" where
  "write_hyphenated u out =
     (if length out < HYPHENATED_LEN then (Inl (BufferTooSmall HYPHENATED_LEN), out)
      else
        let text = hyphenate (as_bytes u) 0 0 (take HYPHENATED_LEN out)
        in (if utf8_chars text \<noteq> None then Inr text else Inl InvalidFormat, text @ drop HYPHENATED_LEN out))"

definition JANUS_BASE :: bytes where
  "JANUS_BASE = [0x4a, 0x61, 0x6e, 0x75, 0x73, 0x00, 0x4d, 0x41, 0x54, 0x41, 0x00, 0x00, 0x00, 0x00, 0x00, 0x00]"

definition janus_uuid :: "u16 \<Rightarrow> uuid128" where
  "janus_uuid short = Uuid128 (JANUS_BASE[14 := be_bytes 2 short ! 0, 15 := be_bytes 2 short ! 1])"

definition SERVICE_PROVISIONING :: uuid128 where "SERVICE_PROVISIONING = janus_uuid 0x0100"
definition CHAR_STATUS :: uuid128 where "CHAR_STATUS = janus_uuid 0x0102"
definition CHAR_SETUP :: uuid128 where "CHAR_SETUP = janus_uuid 0x0104"
definition CHAR_DISCOVER :: uuid128 where "CHAR_DISCOVER = janus_uuid 0x0105"
definition SETUP_VALUE_LEN :: u16 where "SETUP_VALUE_LEN = 512"
definition DISCOVER_VALUE_LEN :: u16 where "DISCOVER_VALUE_LEN = 59"
definition SERVICE_MANIFEST :: uuid128 where "SERVICE_MANIFEST = janus_uuid 0x0200"
definition CHAR_MANIFEST :: uuid128 where "CHAR_MANIFEST = janus_uuid 0x0201"
definition CHAR_DID :: uuid128 where "CHAR_DID = janus_uuid 0x0202"
definition CHAR_TICKET :: uuid128 where "CHAR_TICKET = janus_uuid 0x0203"
definition SERVICE_TELEMETRY :: uuid128 where "SERVICE_TELEMETRY = janus_uuid 0x0300"
definition CHAR_RSSI :: uuid128 where "CHAR_RSSI = janus_uuid 0x0301"
definition CHAR_UPTIME :: uuid128 where "CHAR_UPTIME = janus_uuid 0x0302"
definition CHAR_PRESENCE :: uuid128 where "CHAR_PRESENCE = janus_uuid 0x0303"

section \<open>Property bits\<close>

datatype props = Props u8

definition PROPS_NONE :: props where "PROPS_NONE = Props 0"
definition PROPS_READ :: props where "PROPS_READ = Props 0x02"
definition PROPS_WRITE_WITHOUT_RESPONSE :: props where "PROPS_WRITE_WITHOUT_RESPONSE = Props 0x04"
definition PROPS_WRITE :: props where "PROPS_WRITE = Props 0x08"
definition PROPS_NOTIFY :: props where "PROPS_NOTIFY = Props 0x10"
definition PROPS_INDICATE :: props where "PROPS_INDICATE = Props 0x20"
definition ALL_BITS :: u8 where "ALL_BITS = 0x02 OR 0x04 OR 0x08 OR 0x10 OR 0x20"

fun props_bits :: "props \<Rightarrow> u8" where "props_bits (Props b) = b"

definition props_from_bits :: "u8 \<Rightarrow> props option" where
  "props_from_bits bits = (if bits AND NOT ALL_BITS = 0 then Some (Props bits) else None)"

fun props_contains :: "props \<Rightarrow> props \<Rightarrow> bool" where "props_contains (Props a) (Props b) \<longleftrightarrow> a AND b = b"

fun props_is_empty :: "props \<Rightarrow> bool" where "props_is_empty (Props a) \<longleftrightarrow> a = 0"

fun props_union :: "props \<Rightarrow> props \<Rightarrow> props" where "props_union (Props a) (Props b) = Props (a OR b)"

section \<open>The table\<close>

record characteristic =
  ch_uuid :: uuid128
  ch_props :: props
  ch_max_len :: u16
  ch_name :: string

record service =
  sv_uuid :: uuid128
  sv_name :: string
  sv_characteristics :: "characteristic list"

record gatt_table =
  gt_services :: "service list"

definition characteristics :: "gatt_table \<Rightarrow> characteristic list" where
  "characteristics t = concat (map sv_characteristics (gt_services t))"

definition gatt_find :: "gatt_table \<Rightarrow> uuid128 \<Rightarrow> characteristic option" where
  "gatt_find t uuid = find (\<lambda>c. ch_uuid c = uuid) (characteristics t)"

definition find_service :: "gatt_table \<Rightarrow> uuid128 \<Rightarrow> service option" where
  "find_service t uuid = find (\<lambda>s. sv_uuid s = uuid) (gt_services t)"

definition characteristic_count :: "gatt_table \<Rightarrow> nat" where
  "characteristic_count t = length (characteristics t)"

definition ATT_MAX_VALUE_LEN :: u16 where "ATT_MAX_VALUE_LEN = 512"

definition PROVISIONING_CHARACTERISTICS :: "characteristic list" where
  "PROVISIONING_CHARACTERISTICS =
     [\<lparr>ch_uuid = CHAR_STATUS, ch_props = props_union PROPS_READ PROPS_NOTIFY, ch_max_len = 1, ch_name = ''status''\<rparr>,
      \<lparr>ch_uuid = CHAR_SETUP, ch_props = props_union (props_union PROPS_WRITE PROPS_READ) PROPS_NOTIFY,
       ch_max_len = SETUP_VALUE_LEN, ch_name = ''setup''\<rparr>,
      \<lparr>ch_uuid = CHAR_DISCOVER, ch_props = PROPS_READ, ch_max_len = DISCOVER_VALUE_LEN, ch_name = ''discover''\<rparr>]"

definition MANIFEST_CHARACTERISTICS :: "characteristic list" where
  "MANIFEST_CHARACTERISTICS =
     [\<lparr>ch_uuid = CHAR_MANIFEST, ch_props = PROPS_READ, ch_max_len = 512, ch_name = ''manifest''\<rparr>,
      \<lparr>ch_uuid = CHAR_DID, ch_props = PROPS_READ, ch_max_len = 55, ch_name = ''did''\<rparr>,
      \<lparr>ch_uuid = CHAR_TICKET, ch_props = PROPS_READ, ch_max_len = 128, ch_name = ''ticket''\<rparr>]"

definition TELEMETRY_CHARACTERISTICS :: "characteristic list" where
  "TELEMETRY_CHARACTERISTICS =
     [\<lparr>ch_uuid = CHAR_RSSI, ch_props = props_union PROPS_READ PROPS_NOTIFY, ch_max_len = 1, ch_name = ''rssi''\<rparr>,
      \<lparr>ch_uuid = CHAR_UPTIME, ch_props = PROPS_READ, ch_max_len = 4, ch_name = ''uptime''\<rparr>,
      \<lparr>ch_uuid = CHAR_PRESENCE, ch_props = props_union PROPS_READ PROPS_NOTIFY, ch_max_len = 2, ch_name = ''presence''\<rparr>]"

definition SERVICES :: "service list" where
  "SERVICES =
     [\<lparr>sv_uuid = SERVICE_PROVISIONING, sv_name = ''provisioning'', sv_characteristics = PROVISIONING_CHARACTERISTICS\<rparr>,
      \<lparr>sv_uuid = SERVICE_MANIFEST, sv_name = ''manifest'', sv_characteristics = MANIFEST_CHARACTERISTICS\<rparr>,
      \<lparr>sv_uuid = SERVICE_TELEMETRY, sv_name = ''telemetry'', sv_characteristics = TELEMETRY_CHARACTERISTICS\<rparr>]"

definition GATT_TABLE :: gatt_table where "GATT_TABLE = \<lparr>gt_services = SERVICES\<rparr>"

section \<open>Advertisements\<close>

definition LEGACY_ADV_CAPACITY :: nat where "LEGACY_ADV_CAPACITY = 31"

definition adv_structure_len :: "nat \<Rightarrow> nat" where "adv_structure_len value_len = 2 + value_len"

definition provisioning_adv_len :: "nat \<Rightarrow> nat" where
  "provisioning_adv_len name_len = adv_structure_len 1 + adv_structure_len 16 + adv_structure_len name_len"

definition LEGACY_ADV_NAME_BUDGET :: nat where
  "LEGACY_ADV_NAME_BUDGET = LEGACY_ADV_CAPACITY - adv_structure_len 1 - adv_structure_len 16 - 2"

definition SCAN_RESPONSE_NAME_BUDGET :: nat where
  "SCAN_RESPONSE_NAME_BUDGET = LEGACY_ADV_CAPACITY - adv_structure_len 0"

text \<open>The loop of \<open>advertised_name\<close>: back to a character boundary; index 0 is one.\<close>

fun boundary_before :: "bytes \<Rightarrow> nat \<Rightarrow> nat" where
  "boundary_before name 0 = 0"
| "boundary_before name (Suc end) =
     (if is_char_boundary name (Suc end) then Suc end else boundary_before name end)"

definition advertised_name :: "bytes \<Rightarrow> bytes" where
  "advertised_name name =
     (if length name \<le> SCAN_RESPONSE_NAME_BUDGET then name
      else take (boundary_before name SCAN_RESPONSE_NAME_BUDGET) name)"

section \<open>Lemmas\<close>

lemmas uuid_defs = janus_uuid_def JANUS_BASE_def SERVICE_PROVISIONING_def CHAR_STATUS_def CHAR_SETUP_def
  CHAR_DISCOVER_def SERVICE_MANIFEST_def CHAR_MANIFEST_def CHAR_DID_def CHAR_TICKET_def SERVICE_TELEMETRY_def
  CHAR_RSSI_def CHAR_UPTIME_def CHAR_PRESENCE_def

lemma janus_uuid_inject: "janus_uuid a = janus_uuid b \<longleftrightarrow> a = b"
proof
  assume "janus_uuid a = janus_uuid b"
  then have "\<And>i. JANUS_BASE[14 := be_bytes 2 a ! 0, 15 := be_bytes 2 a ! 1] ! i =
      JANUS_BASE[14 := be_bytes 2 b ! 0, 15 := be_bytes 2 b ! 1] ! i"
    by (simp add: janus_uuid_def)
  from this[of 14] this[of 15] have "be_bytes 2 a ! 0 = be_bytes 2 b ! 0 \<and> be_bytes 2 a ! 1 = be_bytes 2 b ! 1"
    by (simp add: JANUS_BASE_def)
  then have "be_bytes 2 a = be_bytes 2 b"
    using list2_exhaust[of "be_bytes 2 a"] list2_exhaust[of "be_bytes 2 b"] by auto
  then show "a = b"
    by (metis be_word_u16)
qed simp

lemmas gatt_defs = GATT_TABLE_def SERVICES_def PROVISIONING_CHARACTERISTICS_def MANIFEST_CHARACTERISTICS_def
  TELEMETRY_CHARACTERISTICS_def SERVICE_PROVISIONING_def CHAR_STATUS_def CHAR_SETUP_def
  CHAR_DISCOVER_def SERVICE_MANIFEST_def CHAR_MANIFEST_def CHAR_DID_def CHAR_TICKET_def SERVICE_TELEMETRY_def
  CHAR_RSSI_def CHAR_UPTIME_def CHAR_PRESENCE_def

text \<open>Every UUID of the table names one thing, so routing by UUID finds each characteristic and service.\<close>

lemma gatt_uuids_distinct:
  "distinct (map sv_uuid (gt_services GATT_TABLE) @ map ch_uuid (characteristics GATT_TABLE))"
  by (simp add: gatt_defs characteristics_def janus_uuid_inject)

lemma find_distinct: "distinct (map f xs) \<Longrightarrow> x \<in> set xs \<Longrightarrow> find (\<lambda>y. f y = f x) xs = Some x"
  by (induction xs) (auto simp: image_iff)

lemma gatt_find_own: "c \<in> set (characteristics GATT_TABLE) \<Longrightarrow> gatt_find GATT_TABLE (ch_uuid c) = Some c"
  using gatt_uuids_distinct by (auto simp: gatt_find_def intro!: find_distinct)

lemma find_service_own: "s \<in> set (gt_services GATT_TABLE) \<Longrightarrow> find_service GATT_TABLE (sv_uuid s) = Some s"
  using gatt_uuids_distinct by (auto simp: find_service_def intro!: find_distinct)

lemma gatt_values_fit: "c \<in> set (characteristics GATT_TABLE) \<Longrightarrow> ch_max_len c \<le> ATT_MAX_VALUE_LEN"
  by (auto simp: gatt_defs characteristics_def ATT_MAX_VALUE_LEN_def SETUP_VALUE_LEN_def DISCOVER_VALUE_LEN_def)

subsection \<open>The name in the scan response\<close>

lemma boundary_before_le: "boundary_before name end \<le> end"
  by (induction name "end" rule: boundary_before.induct) auto

lemma boundary_before_is: "is_char_boundary name (boundary_before name end)"
  by (induction name "end" rule: boundary_before.induct) (auto simp: is_char_boundary_def)

lemma boundary_before_greatest: "is_char_boundary name m \<Longrightarrow> m \<le> end \<Longrightarrow> m \<le> boundary_before name end"
  by (induction name "end" rule: boundary_before.induct) (auto simp: le_Suc_eq)

subsection \<open>The text form\<close>

text \<open>What the text should be: the groups 8-4-4-4-12 of lowercase hexadecimal digits.\<close>

definition hex_pairs :: "bytes \<Rightarrow> bytes" where
  "hex_pairs bs = concat (map (\<lambda>b. [ble_hex_digit (drop_bit 4 b), ble_hex_digit (b AND 0x0F)]) bs)"

definition uuid_text :: "bytes \<Rightarrow> bytes" where
  "uuid_text bs = hex_pairs (take 4 bs) @ [45] @ hex_pairs (take 2 (drop 4 bs)) @ [45] @
     hex_pairs (take 2 (drop 6 bs)) @ [45] @ hex_pairs (take 2 (drop 8 bs)) @ [45] @ hex_pairs (drop 10 bs)"

fun dashed :: "bytes \<Rightarrow> nat \<Rightarrow> bytes" where
  "dashed [] i = []"
| "dashed (b # bs) i = (if i \<in> {4, 6, 8, 10} then [45] else []) @ hex_pairs [b] @ dashed bs (i + 1)"

lemma put_next: "p = length pre \<Longrightarrow> (pre @ x # post)[p := y] = pre @ y # post"
  by simp

lemma hyphenate_dashed:
  "length out = length pre + length (dashed bs i) \<Longrightarrow> take (length pre) out = pre \<Longrightarrow>
     hyphenate bs i (length pre) out = pre @ dashed bs i"
proof (induction bs arbitrary: i pre out)
  case (Cons b bs)
  let ?w = "(if i \<in> {4, 6, 8, 10} then [45] else []) @ hex_pairs [b]"
  let ?rest = "drop (length pre + length ?w) out"
  obtain post where post: "out = pre @ post" "length post = length (dashed (b # bs) i)"
    using Cons.prems by (metis append_eq_conv_conj append_take_drop_id diff_add_inverse length_drop)
  have step: "hyphenate (b # bs) i (length pre) out = hyphenate bs (i + 1) (length (pre @ ?w)) (pre @ ?w @ ?rest)"
  proof (cases "i \<in> {4, 6, 8, 10}")
    case True
    then obtain x y z post' where "post = x # y # z # post'"
      using post(2) by (auto simp: hex_pairs_def length_Suc_conv)
    then show ?thesis
      unfolding post(1) using True by (simp add: hex_pairs_def list_update_append)
  next
    case False
    then obtain x y post' where "post = x # y # post'"
      using post(2) by (auto simp: hex_pairs_def length_Suc_conv)
    then show ?thesis
      unfolding post(1) using False by (simp add: hex_pairs_def list_update_append)
  qed
  show ?case
    unfolding step using post
    by (subst Cons.IH) (auto simp: hex_pairs_def)
qed (auto)

lemma list16: "length bs = 16 \<Longrightarrow> \<exists>a b c d e f g h i j k l m n p q. bs = [a, b, c, d, e, f, g, h, i, j, k, l, m, n, p, q]"
  by (simp add: eval_nat_numeral length_Suc_conv) blast

lemma dashed_16: "length bs = 16 \<Longrightarrow> dashed bs 0 = uuid_text bs \<and> length (uuid_text bs) = 36"
  by (drule list16) (auto simp: uuid_text_def hex_pairs_def)

lemma low_nibble: "(n :: u8) AND 0x0F \<in> set (map of_nat [0..<16])"
proof -
  have "n AND 0x0F = take_bit 4 n"
    by (simp add: take_bit_eq_mask mask_eq_exp_minus_1)
  then have "unat (n AND 0x0F) = take_bit 4 (unat n)"
    by (simp only: unsigned_take_bit_eq)
  then have "n AND 0x0F = of_nat (unat n mod 16)"
    by (simp add: take_bit_eq_mod word_unat_eq_iff unat_of_nat take_bit_nat_def)
  then show ?thesis
    by (simp add: image_iff) (metis atLeastLessThan_iff le0 mod_less_divisor zero_less_numeral)
qed

lemma ble_hex_digit_ascii: "unat (ble_hex_digit n) \<in> {48..57} \<union> {97..102}"
proof -
  have "\<forall>d \<in> set (map of_nat [0..<16]). (if d \<le> 9 then 48 + d else 97 + d - 10 :: u8) \<in>
      set (map of_nat ([48..<58] @ [97..<103]))"
    by code_simp
  then have "ble_hex_digit n \<in> set (map of_nat ([48..<58] @ [97..<103]))"
    using low_nibble[of n] unfolding ble_hex_digit_def Let_def by blast
  then show ?thesis
    by (auto simp: unat_of_nat)
qed

lemma hex_pairs_ascii: "list_all (\<lambda>b. b \<le> 0x7F) (hex_pairs bs)"
proof -
  have "ble_hex_digit n \<le> 0x7F" for n
    using ble_hex_digit_ascii[of n] by (auto simp: word_le_nat_alt)
  then show ?thesis
    by (induction bs) (auto simp: hex_pairs_def)
qed

lemma uuid_text_ascii: "list_all (\<lambda>b. b \<le> 0x7F) (uuid_text bs)"
  by (simp add: uuid_text_def hex_pairs_ascii)

text \<open>A reader of the text form: the digits' values, the hyphens dropped.\<close>

definition hex_value :: "u8 \<Rightarrow> u8" where
  "hex_value c = (if c \<le> 57 then c - 48 else c - 97 + 10)"

fun unhex_pairs :: "bytes \<Rightarrow> bytes" where
  "unhex_pairs (a # b # r) = (push_bit 4 (hex_value a) OR hex_value b) # unhex_pairs r"
| "unhex_pairs _ = []"

lemma hex_value_digit: "hex_value (ble_hex_digit n) = n AND 0x0F"
proof -
  have "\<forall>d \<in> set (map of_nat [0..<16]). hex_value (if d \<le> 9 then 48 + d else 97 + d - 10) = d"
    by code_simp
  then show ?thesis
    using low_nibble[of n] unfolding ble_hex_digit_def Let_def by blast
qed

lemma hex_pair_value:
  "push_bit 4 (hex_value (ble_hex_digit (drop_bit 4 b))) OR hex_value (ble_hex_digit (b AND 0x0F)) = b"
proof -
  have m: "(0x0F :: u8) = mask 4"
    by (simp add: mask_eq_exp_minus_1)
  show ?thesis
    unfolding hex_value_digit m by (intro bit_word_eqI) (auto simp: bit_simps)
qed

lemma ble_hex_digit_no_dash: "ble_hex_digit n \<noteq> 45"
  using ble_hex_digit_ascii[of n] by auto

lemma hex_pairs_append: "hex_pairs (xs @ ys) = hex_pairs xs @ hex_pairs ys"
  by (simp add: hex_pairs_def)

lemma hex_pairs_no_dash: "filter (\<lambda>c. c \<noteq> 45) (hex_pairs bs) = hex_pairs bs"
  by (induction bs) (auto simp: hex_pairs_def ble_hex_digit_no_dash)

lemma unhex_hex_pairs: "unhex_pairs (hex_pairs bs) = bs"
  by (induction bs) (simp_all add: hex_pairs_def hex_pair_value)

lemma uuid_text_digits: "length bs = 16 \<Longrightarrow> filter (\<lambda>c. c \<noteq> 45) (uuid_text bs) = hex_pairs bs"
proof -
  have "hex_pairs bs = hex_pairs (take 4 bs) @ hex_pairs (take 2 (drop 4 bs)) @ hex_pairs (take 2 (drop 6 bs)) @
      hex_pairs (take 2 (drop 8 bs)) @ hex_pairs (drop 10 bs)"
    by (simp only: hex_pairs_append[symmetric]) (simp add: take_drop[symmetric] flip: drop_drop take_add append_assoc)
  then show ?thesis
    by (simp add: uuid_text_def hex_pairs_no_dash)
qed

section \<open>Theorems\<close>

lemma uuid_text_round_trip:
  assumes "length bs = 16" and "HYPHENATED_LEN \<le> length out"
  shows "\<exists>text. write_hyphenated (Uuid128 bs) out = (Inr text, text @ drop HYPHENATED_LEN out) \<and> text = uuid_text bs \<and>
    length text = HYPHENATED_LEN \<and> unhex_pairs (filter (\<lambda>c. c \<noteq> 45) text) = bs"
proof -
  have "hyphenate bs 0 0 (take HYPHENATED_LEN out) = uuid_text bs"
    using hyphenate_dashed[of "take HYPHENATED_LEN out" "[]" bs 0] assms dashed_16[OF assms(1)]
    by (simp add: HYPHENATED_LEN_def)
  then show ?thesis
    using assms dashed_16[OF assms(1)] utf8_ascii[OF uuid_text_ascii]
    by (simp add: write_hyphenated_def uuid_text_digits unhex_hex_pairs HYPHENATED_LEN_def Let_def)
qed

text \<open>C33: The name a scan response carries is a whole number of characters of the owner's name, fits in the
  response, and is the longest such cut.\<close>

theorem advertised_name_is_longest_cut:
  assumes "utf8_chars name = Some cs"
  shows "(\<exists>k. utf8_chars (advertised_name name) = Some (take k cs)) \<and>
    adv_structure_len (length (advertised_name name)) \<le> LEGACY_ADV_CAPACITY \<and>
    (\<exists>n. advertised_name name = take n name \<and>
      (\<forall>m. adv_structure_len m \<le> LEGACY_ADV_CAPACITY \<and> m \<le> length name \<and> utf8_chars (take m name) \<noteq> None \<longrightarrow> m \<le> n))"
proof (cases "length name \<le> SCAN_RESPONSE_NAME_BUDGET")
  case True
  then show ?thesis
    using assms by (auto simp: advertised_name_def adv_structure_len_def SCAN_RESPONSE_NAME_BUDGET_def LEGACY_ADV_CAPACITY_def
        intro: exI[of _ "length cs"] exI[of _ "length name"])
next
  case False
  let ?n = "boundary_before name SCAN_RESPONSE_NAME_BUDGET"
  have n: "?n \<le> 29" "?n \<le> length name" "advertised_name name = take ?n name"
    using False boundary_before_le[of name SCAN_RESPONSE_NAME_BUDGET]
    by (simp_all add: advertised_name_def SCAN_RESPONSE_NAME_BUDGET_def LEGACY_ADV_CAPACITY_def adv_structure_len_def)
  have "m \<le> ?n" if "m \<le> 29" "m \<le> length name" "utf8_chars (take m name) \<noteq> None" for m
  proof -
    have "is_char_boundary name m"
      using utf8_cut[OF assms that(2)] that(3) by blast
    then show ?thesis
      using that(1) by (intro boundary_before_greatest) (simp_all add: SCAN_RESPONSE_NAME_BUDGET_def LEGACY_ADV_CAPACITY_def adv_structure_len_def)
  qed
  moreover have "\<exists>k. utf8_chars (take ?n name) = Some (take k cs)"
    using utf8_cut[OF assms n(2)] boundary_before_is by blast
  ultimately show ?thesis
    using n by (auto simp: adv_structure_len_def LEGACY_ADV_CAPACITY_def)
qed

theorem advertised_name_is_longest_cut_witness:
  "let name = replicate 28 97 @ [0xC3, 0xA9, 98] in
     (\<exists>k. utf8_chars (advertised_name name) = Some (take k (replicate 28 97 @ [0xE9, 98]))) \<and>
     adv_structure_len (length (advertised_name name)) \<le> LEGACY_ADV_CAPACITY \<and>
     (\<exists>n. advertised_name name = take n name)"
proof -
  have "utf8_chars (replicate 28 97 @ [0xC3, 0xA9, 98]) = Some (replicate 28 97 @ [0xE9, 98])"
    by code_simp
  from advertised_name_is_longest_cut[OF this] show ?thesis
    unfolding Let_def by blast
qed

end
