(* ===== verification/Provision.thy ===== *)
theory Provision
  imports Setup_Session Ble
begin

text \<open>
  The provisioning service (\<open>crates/rusty_esp_signal-core/src/provision.rs\<close>, \<open>Provisioner\<close>): the setup
  session carried by the characteristics of \<open>Ble\<close>, the station policy of \<open>Wifi\<close> and the scan list of
  \<open>Scan_List\<close>. The session, the stores, the generator and the \<open>setup\<close> value are the \<open>world\<close> of
  \<open>Setup_Device\<close> (its \<open>w_out\<close> is the field \<open>answer\<close>).
\<close>

section \<open>State\<close>

text \<open>\<open>Kv::remove\<close> and the addition of \<open>Micros\<close> belong to other crates.\<close>

record 'kv platform =
  pl_remove :: "'kv \<Rightarrow> bytes \<Rightarrow> (err + unit) \<times> 'kv"
  pl_add :: "micros \<Rightarrow> u64 \<Rightarrow> micros"

record outcome =
  oc_action :: action
  oc_status :: "u8 option"
  oc_answer :: "bytes option"

definition outcome_nothing :: outcome where
  "outcome_nothing = \<lparr>oc_action = ActNone, oc_status = None, oc_answer = None\<rparr>"

record ('kv, 'g) provisioner =
  pr_policy :: station_policy
  pr_world :: "('kv, 'g) world"
  pr_credentials :: "credentials option"
  pr_trial :: bool
  pr_scan :: scan_list
  pr_answer_len :: nat

text \<open>\<open>label::BLE\<close>.\<close>

definition LABEL_BLE :: bytes where "LABEL_BLE = [98, 108, 101]"

section \<open>Helpers\<close>

definition status_if_changed :: "phase \<Rightarrow> phase \<Rightarrow> u8 option" where
  "status_if_changed before after = (if before \<noteq> after then Some (phase_as_u8 after) else None)"

definition stored_network :: "('kv, 'g, 's, 'p, 'a, 'o) env \<Rightarrow> 'kv \<Rightarrow> credentials option" where
  "stored_network E settings =
     (case en_get E settings KEY_SSID SSID_MAX_LEN of
        (Inr (Some n), ssid) \<Rightarrow>
          (case en_get E settings KEY_PSK 64 of
             (Inr (Some m), psk) \<Rightarrow> (case creds_new (take n ssid) (take m psk) of Inr c \<Rightarrow> Some c | Inl _ \<Rightarrow> None)
           | _ \<Rightarrow> None)
      | _ \<Rightarrow> None)"

section \<open>Operations\<close>

definition prov_new ::
  "('kv, 'g, 's, 'p, 'a, 'o) env \<Rightarrow> nat \<Rightarrow> station_policy \<Rightarrow> bytes \<Rightarrow> reset \<Rightarrow> micros \<Rightarrow> 'kv \<times> 'kv \<times> 'g \<Rightarrow>
   err + ('kv, 'g) provisioner" where
  "prov_new E N policy devpub reset now parts =
     (case parts of (settings, identity, rng) \<Rightarrow>
        (case device_new E LABEL_BLE devpub reset now settings of
           (Inl e, _) \<Rightarrow> Inl e
         | (Inr session, settings) \<Rightarrow>
             Inr \<lparr>pr_policy = policy,
               pr_world = \<lparr>w_device = session, w_settings = settings, w_identity = identity, w_rng = rng,
                 w_out = replicate MAX_MESSAGE 0\<rparr>,
               pr_credentials = None, pr_trial = False, pr_scan = scan_new N, pr_answer_len = 0\<rparr>))"

definition prov_phase :: "('kv, 'g) provisioner \<Rightarrow> phase" where
  "prov_phase p = sp_phase (pr_policy p)"

definition prov_adopt ::
  "('kv, 'g, 's, 'p, 'a, 'o) env \<Rightarrow> 'kv platform \<Rightarrow> credentials \<Rightarrow> micros \<Rightarrow> ('kv, 'g) provisioner \<Rightarrow>
   outcome \<times> ('kv, 'g) provisioner" where
  "prov_adopt E P credentials now p =
     (let before = prov_phase p;
          p = p\<lparr>pr_credentials := Some credentials\<rparr>;
          (action, policy) = policy_on (en_since E) (pl_add P) (pr_policy p) EvProvisioned now;
          p = p\<lparr>pr_policy := policy\<rparr>
      in (\<lparr>oc_action = action, oc_status = status_if_changed before (prov_phase p), oc_answer = None\<rparr>, p))"

definition prov_boot ::
  "('kv, 'g, 's, 'p, 'a, 'o) env \<Rightarrow> 'kv platform \<Rightarrow> micros \<Rightarrow> ('kv, 'g) provisioner \<Rightarrow> outcome \<times> ('kv, 'g) provisioner" where
  "prov_boot E P now p =
     (case stored_network E (w_settings (pr_world p)) of
        Some credentials \<Rightarrow> prov_adopt E P credentials now p
      | None \<Rightarrow> (outcome_nothing\<lparr>oc_action := ActStartProvisioning\<rparr>, p))"

definition prov_set_scan :: "scan_list \<Rightarrow> ('kv, 'g) provisioner \<Rightarrow> ('kv, 'g) provisioner" where
  "prov_set_scan scan p = p\<lparr>pr_scan := scan\<rparr>"

definition prov_advertising :: "('kv, 'g, 's, 'p, 'a, 'o) env \<Rightarrow> micros \<Rightarrow> ('kv, 'g) provisioner \<Rightarrow> bool" where
  "prov_advertising E now p = device_advertising E (w_device (pr_world p)) now (w_settings (pr_world p))"

definition prov_window :: "('kv, 'g, 's, 'p, 'a, 'o) env \<Rightarrow> micros \<Rightarrow> ('kv, 'g) provisioner \<Rightarrow> setup_window" where
  "prov_window E now p = device_window E (w_device (pr_world p)) now (w_settings (pr_world p))"

abbreviation on_device :: "(device \<Rightarrow> device) \<Rightarrow> ('kv, 'g) provisioner \<Rightarrow> ('kv, 'g) provisioner" where
  "on_device f p \<equiv> p\<lparr>pr_world := (pr_world p)\<lparr>w_device := f (w_device (pr_world p))\<rparr>\<rparr>"

definition prov_button :: "micros \<Rightarrow> ('kv, 'g) provisioner \<Rightarrow> ('kv, 'g) provisioner" where
  "prov_button now p = on_device (device_button now) p"

definition prov_tick :: "('kv, 'g, 's, 'p, 'a, 'o) env \<Rightarrow> micros \<Rightarrow> ('kv, 'g) provisioner \<Rightarrow> ('kv, 'g) provisioner" where
  "prov_tick E now p = on_device (device_tick E now) p"

text \<open>\<open>answer.zeroize()\<close>.\<close>

definition wipe :: "('kv, 'g) world \<Rightarrow> ('kv, 'g) world" where
  "wipe w = w\<lparr>w_out := replicate (length (w_out w)) 0\<rparr>"

definition prov_carrier_closed :: "('kv, 'g) provisioner \<Rightarrow> ('kv, 'g) provisioner" where
  "prov_carrier_closed p =
     (let p = on_device carrier_closed p in p\<lparr>pr_world := wipe (pr_world p), pr_answer_len := 0\<rparr>)"

definition prov_forget :: "'kv platform \<Rightarrow> ('kv, 'g) provisioner \<Rightarrow> (err + outcome) \<times> ('kv, 'g) provisioner" where
  "prov_forget P p =
     (let before = prov_phase p; w = pr_world p in
      case pl_remove P (w_settings w) KEY_SSID of
        (Inl e, kv) \<Rightarrow> (Inl e, p\<lparr>pr_world := w\<lparr>w_settings := kv\<rparr>\<rparr>)
      | (Inr _, kv) \<Rightarrow>
          (case pl_remove P kv KEY_PSK of
             (Inl e, kv) \<Rightarrow> (Inl e, p\<lparr>pr_world := w\<lparr>w_settings := kv\<rparr>\<rparr>)
           | (Inr _, kv) \<Rightarrow>
               let p = p\<lparr>pr_world := w\<lparr>w_settings := kv\<rparr>, pr_credentials := None,
                         pr_policy := policy_new (sp_cfg (pr_policy p))\<rparr>
               in (Inr \<lparr>oc_action = ActStartProvisioning, oc_status = status_if_changed before (prov_phase p),
                     oc_answer = None\<rparr>, p)))"

text \<open>\<open>on_write\<close>: one message of the session for \<open>setup\<close>, refused for any other characteristic.\<close>

definition prov_setup_write ::
  "('kv, 'g, 's, 'p, 'a, 'o) env \<Rightarrow> 'kv platform \<Rightarrow> bytes \<Rightarrow> micros \<Rightarrow> ('kv, 'g) provisioner \<Rightarrow>
   (err + outcome) \<times> ('kv, 'g) provisioner" where
  "prov_setup_write E P val now p =
     (case scan_encode (pr_scan p) (replicate SCAN_MAX_LEN 0) of
        (Inl e, _) \<Rightarrow> (Inl e, p)
      | (Inr scan_len, scan) \<Rightarrow>
          let status = \<lparr>st_phase = phase_as_u8 (prov_phase p), st_scan = take scan_len scan\<rparr> in
          (case on_message E val now status (wipe (pr_world p)) of
             (Inl e, w) \<Rightarrow> (Inl e, p\<lparr>pr_world := w, pr_answer_len := 0\<rparr>)
           | (Inr a, w) \<Rightarrow>
               let p = p\<lparr>pr_world := w, pr_answer_len := an_len a\<rparr>;
                   header = [w_out w ! 0, w_out w ! 1];
                   (out, p) =
                     (case (case an_applied a of Some ap \<Rightarrow> ap_network ap | None \<Rightarrow> None) of
                        Some network \<Rightarrow> prov_adopt E P network now (p\<lparr>pr_trial := True\<rparr>)
                      | None \<Rightarrow> (outcome_nothing, p))
               in (Inr (out\<lparr>oc_answer := Some header\<rparr>), p)))"

definition prov_on_write ::
  "('kv, 'g, 's, 'p, 'a, 'o) env \<Rightarrow> 'kv platform \<Rightarrow> uuid128 \<Rightarrow> bytes \<Rightarrow> micros \<Rightarrow> ('kv, 'g) provisioner \<Rightarrow>
   (err + outcome) \<times> ('kv, 'g) provisioner" where
  "prov_on_write E P uuid val now p =
     (if uuid = CHAR_SETUP then prov_setup_write E P val now p
      else if uuid = CHAR_STATUS \<or> uuid = CHAR_DISCOVER then (Inl Denied, p)
      else (Inl (if gatt_find GATT_TABLE uuid \<noteq> None then Denied else Unsupported), p))"

definition prov_read ::
  "('kv, 'g, 's, 'p, 'a, 'o) env \<Rightarrow> uuid128 \<Rightarrow> micros \<Rightarrow> bytes \<Rightarrow> ('kv, 'g) provisioner \<Rightarrow> (err + nat) \<times> bytes" where
  "prov_read E uuid now out p =
     (if uuid = CHAR_STATUS then
        (case out of
           [] \<Rightarrow> (Inl (BufferTooSmall 1), out)
         | _ # rest \<Rightarrow> (Inr 1, phase_as_u8 (prov_phase p) # rest))
      else if uuid = CHAR_DISCOVER then device_discover E (w_device (pr_world p)) now (w_settings (pr_world p)) out
      else if uuid = CHAR_SETUP then
        let n = pr_answer_len p in
        if length out < n then (Inl (BufferTooSmall n), out)
        else (Inr n, write_at out 0 (take n (w_out (pr_world p))))
      else (Inl Unsupported, out))"

definition prov_on_event ::
  "('kv, 'g, 's, 'p, 'a, 'o) env \<Rightarrow> 'kv platform \<Rightarrow> event \<Rightarrow> micros \<Rightarrow> ('kv, 'g) provisioner \<Rightarrow>
   outcome \<times> ('kv, 'g) provisioner" where
  "prov_on_event E P ev now p =
     (let before = prov_phase p;
          (action, policy) = policy_on (en_since E) (pl_add P) (pr_policy p) ev now;
          p = p\<lparr>pr_policy := policy\<rparr>;
          p = (case ev of
                 EvConnected \<Rightarrow> p\<lparr>pr_trial := False\<rparr>
               | EvDisconnected \<Rightarrow> if pr_trial p then prov_button now (p\<lparr>pr_trial := False\<rparr>) else p
               | _ \<Rightarrow> p);
          p = (if action = ActStartProvisioning then prov_button now p else p)
      in (\<lparr>oc_action = action, oc_status = status_if_changed before (prov_phase p), oc_answer = None\<rparr>, p))"

section \<open>Where a network comes from\<close>

lemma prov_adopt_eq:
  "prov_adopt E P c now p =
     (\<lparr>oc_action = ActConnect, oc_status = status_if_changed (prov_phase p) Connecting, oc_answer = None\<rparr>,
      p\<lparr>pr_credentials := Some c, pr_policy := (pr_policy p)\<lparr>sp_failures := 0, sp_phase := Connecting\<rparr>\<rparr>)"
  by (simp add: prov_adopt_def prov_phase_def policy_on_def Let_def split: phase.split)

lemma setup_write_cases:
  assumes "prov_setup_write E P val now p = (r, p')"
  obtains (encode) e where "r = Inl e" "p' = p"
    | (failed) e w status where "on_message E val now status (wipe (pr_world p)) = (Inl e, w)" "r = Inl e"
        "p' = p\<lparr>pr_world := w, pr_answer_len := 0\<rparr>"
    | (answered) a w status n buf where "scan_encode (pr_scan p) (replicate SCAN_MAX_LEN 0) = (Inr n, buf)"
        "status = \<lparr>st_phase = phase_as_u8 (prov_phase p), st_scan = take n buf\<rparr>"
        "on_message E val now status (wipe (pr_world p)) = (Inr a, w)"
        "(\<exists>out. r = Inr out \<and> oc_answer out = Some [w_out w ! 0, w_out w ! 1]) \<and>
         p' = (case an_applied a of None \<Rightarrow> p\<lparr>pr_world := w, pr_answer_len := an_len a\<rparr>
           | Some ap \<Rightarrow> (case ap_network ap of None \<Rightarrow> p\<lparr>pr_world := w, pr_answer_len := an_len a\<rparr>
             | Some c \<Rightarrow> p\<lparr>pr_world := w, pr_answer_len := an_len a, pr_trial := True, pr_credentials := Some c,
                 pr_policy := (pr_policy p)\<lparr>sp_failures := 0, sp_phase := Connecting\<rparr>\<rparr>))"
proof -
  obtain x buf where x: "scan_encode (pr_scan p) (replicate SCAN_MAX_LEN 0) = (x, buf)"
    by (meson surj_pair)
  show thesis
  proof (cases x)
    case (Inl e)
    then show thesis
      using assms by (intro encode[of e]) (simp_all add: prov_setup_write_def x)
  next
    case (Inr n)
    let ?st = "\<lparr>st_phase = phase_as_u8 (prov_phase p), st_scan = take n buf\<rparr>"
    obtain y w where y: "on_message E val now ?st (wipe (pr_world p)) = (y, w)"
      by (meson surj_pair)
    show thesis
    proof (cases y)
      case (Inl e)
      then show thesis
        using assms y by (intro failed[OF y[unfolded Inl]]) (simp_all add: prov_setup_write_def x Inr)
    next
      case (Inr a)
      show thesis
        by (rule answered[OF x[unfolded \<open>x = Inr n\<close>] refl y[unfolded Inr]])
          (use assms y Inr in \<open>auto simp: prov_setup_write_def x \<open>x = Inr n\<close> prov_adopt_eq Let_def outcome_nothing_def
            split: option.splits\<close>)
    qed
  qed
qed

lemma on_write_other: "uuid \<noteq> CHAR_SETUP \<Longrightarrow> prov_on_write E P uuid val now p = (r, p') \<Longrightarrow> p' = p \<and> \<not> is_ok r"
  by (auto simp: prov_on_write_def split: if_splits)

section \<open>Sizes\<close>

text \<open>The \<open>setup\<close> value is a session message: it fits the characteristic, and carries at least its header.\<close>

definition sized :: "(err + answer) \<Rightarrow> ('kv, 'g) world \<Rightarrow> bool" where
  "sized r w \<longleftrightarrow> length (w_out w) = MAX_MESSAGE \<and> (\<forall>a. r = Inr a \<longrightarrow> 2 \<le> an_len a \<and> an_len a \<le> MAX_MESSAGE)"

lemma refuse_sized: "refuse code w = (r, w') \<Longrightarrow> length (w_out w) = MAX_MESSAGE \<Longrightarrow> sized r w'"
  by (auto simp: refuse_def sized_def write_error_def MAX_MESSAGE_def split: if_splits)

lemma end_with_sized: "end_with code w = (r, w') \<Longrightarrow> length (w_out w) = MAX_MESSAGE \<Longrightarrow> sized r w'"
  by (auto simp: end_with_def dest: refuse_sized)

lemma record_failure_out: "record_failure E now w = (x, w') \<Longrightarrow> w_out w' = w_out w"
  by (auto simp: record_failure_def Let_def split: prod.splits sum.splits)

lemma sealed_into:
  assumes "aead_ok A" and "sealer_seal A s h p out = (x, s', rest)"
  shows "length rest = length out \<and> (\<forall>n. x = Inr n \<longrightarrow> n = length p + SEAL_TAG_LEN)"
proof (cases "length p + SEAL_TAG_LEN \<le> length out")
  case True
  then show ?thesis
    using assms(2) aead_encrypted[OF assms(1)]
    by (fastforce simp: sealer_seal_def Let_def split: if_splits option.splits)
next
  case False
  then show ?thesis
    using assms(2) by (auto simp: sealer_seal_def Let_def)
qed

lemma reply_sized:
  assumes "session_env_ok E devpub" and "spake_respond (en_curve E) (en_hashes E) (en_fill E) v ctx share g = (Inr x, g')"
    and "write_parts [msg_header MK_REPLY, rs_share_v x, rs_confirm_v x, en_sign_reply E pre] 0 out = (at, out')"
    and "length out = MAX_MESSAGE"
  shows "length out' = MAX_MESSAGE \<and> at = 163"
proof -
  obtain y where y: "respond_inner (en_curve E) (en_hashes E) v ctx [] [] share y = Inr x"
    using spake_respond_Inr[OF assms(2)] by blast
  have "length (concat [msg_header MK_REPLY, rs_share_v x, rs_confirm_v x, en_sign_reply E pre]) = 163"
    using response_lengths[OF _ _ y] assms(1) by (simp add: session_env_ok_def msg_header_def SIG_LEN_def)
  with write_parts_eq[OF assms(3)] assms(4) show ?thesis
    by (simp add: MAX_MESSAGE_def)
qed

lemma on_start_guards:
  "(\<exists>code. on_start E body now w = refuse code w) \<or>
   (\<not> in_session (w_device w) \<and> wn_open (device_window E (w_device w) now (w_settings w)) \<and>
    \<not> backing_off E (w_device w) now (failures E (w_settings w)) \<and> length body = 1 + SHARE_LEN \<and> body ! 0 = SUITE_CODE \<and>
    load_verifier E (w_settings w) \<noteq> None)"
  unfolding on_start_def Let_def
  by (cases "in_session (w_device w)"; cases "wn_open (device_window E (w_device w) now (w_settings w))";
      cases "backing_off E (w_device w) now (failures E (w_settings w))"; cases "length body = 1 + SHARE_LEN";
      cases "body ! 0 = SUITE_CODE"; cases "load_verifier E (w_settings w)") (simp_all; blast)+

lemma on_start_cases:
  assumes "on_start E body now w = (r, w')"
  obtains (refused) code x where "refuse code x = (r, w')" "w_out x = w_out w"
    | (failed) e where "r = Inl e" "w_out w' = w_out w"
    | (replied) v ctx g x g' pre at out where
        "spake_respond (en_curve E) (en_hashes E) (en_fill E) v ctx (drop 1 body) g = (Inr x, g')"
        "write_parts [msg_header MK_REPLY, rs_share_v x, rs_confirm_v x, en_sign_reply E pre] 0 (w_out w) = (at, out)"
        "r = Inr \<lparr>an_len = at, an_applied = None\<rparr>" "w_out w' = out"
proof (cases "\<exists>code. on_start E body now w = refuse code w")
  case True
  then show thesis using assms refused by metis
next
  case False
  then obtain v where v: "load_verifier E (w_settings w) = Some v" and
    tail: "on_start E body now w =
      (case context_new (dv_label (w_device w)) (dv_devpub (w_device w)) of
         Inl e \<Rightarrow> (Inl e, w)
       | Inr ctx \<Rightarrow>
           (case spake_respond (en_curve E) (en_hashes E) (en_fill E) v ctx (drop 1 body) (w_rng w) of
              (Inl e, g) \<Rightarrow> (if e = InvalidFormat then refuse RcMalformed (w\<lparr>w_rng := g\<rparr>) else (Inl e, w\<lparr>w_rng := g\<rparr>))
            | (Inr x, g) \<Rightarrow>
                (case record_failure E now (w\<lparr>w_rng := g\<rparr>) of
                   (Inl e, w) \<Rightarrow> (Inl e, w)
                 | (Inr _, w) \<Rightarrow>
                     (case write_parts [msg_header MK_REPLY, rs_share_v x, rs_confirm_v x,
                         en_sign_reply E (en_reply_prehash E ctx (drop 1 body) (rs_share_v x) (rs_confirm_v x))] 0 (w_out w) of
                       (at, out) \<Rightarrow> (Inr \<lparr>an_len = at, an_applied = None\<rparr>, set_state (DReplied x now) (w\<lparr>w_out := out\<rparr>))))))"
    using on_start_guards[of E body now w] unfolding on_start_def Let_def by (auto simp del: write_parts.simps)
  show thesis
  proof (cases "context_new (dv_label (w_device w)) (dv_devpub (w_device w))")
    case (Inl e)
    then show thesis using assms tail by (intro failed) auto
  next
    case (Inr ctx)
    obtain y g where y: "spake_respond (en_curve E) (en_hashes E) (en_fill E) v ctx (drop 1 body) (w_rng w) = (y, g)"
      by (meson surj_pair)
    obtain z w1 where z: "record_failure E now (w\<lparr>w_rng := g\<rparr>) = (z, w1)"
      by (meson surj_pair)
    have out: "w_out w1 = w_out w"
      using record_failure_out[OF z] by simp
    show thesis
    proof (cases y)
      case (Inl e)
      then show thesis
        using assms refused[of RcMalformed "w\<lparr>w_rng := g\<rparr>"] failed[of e] y unfolding tail \<open>context_new _ _ = Inr ctx\<close>
        by (auto simp: Inl split: if_splits)
    next
      case (Inr x)
      obtain at o' where p: "write_parts [msg_header MK_REPLY, rs_share_v x, rs_confirm_v x,
          en_sign_reply E (en_reply_prehash E ctx (drop 1 body) (rs_share_v x) (rs_confirm_v x))] 0 (w_out w) = (at, o')"
        by (meson surj_pair)
      have eq: "(case z of Inl e \<Rightarrow> (Inl e, w1)
          | Inr _ \<Rightarrow> (Inr \<lparr>an_len = at, an_applied = None\<rparr>, set_state (DReplied x now) (w1\<lparr>w_out := o'\<rparr>))) = (r, w')"
        using assms y p unfolding tail \<open>context_new _ _ = Inr ctx\<close>
        by (cases z) (simp_all only: sum.case prod.case Inr z out)
      show thesis
      proof (cases z)
        case (Inl e)
        then show thesis using eq out by (intro failed) auto
      next
        case (Inr u)
        then show thesis using eq by (intro replied[OF y[unfolded \<open>y = Inr x\<close>] p]) auto
      qed
    qed
  qed
qed

lemma on_start_sized:
  assumes "session_env_ok E devpub" and "on_start E body now w = (r, w')" and "length (w_out w) = MAX_MESSAGE"
  shows "sized r w'"
  using assms(2)
proof (cases rule: on_start_cases)
  case refused
  then show ?thesis using refuse_sized assms(3) by metis
next
  case failed
  then show ?thesis using assms(3) by (simp add: sized_def)
next
  case replied
  then show ?thesis using reply_sized[OF assms(1) replied(1,2) assms(3)] by (simp add: sized_def MAX_MESSAGE_def)
qed

lemma sealed_answer:
  assumes "aead_ok A" and "sealer_seal A s h p (drop 2 (write_at out 0 (msg_header k))) = (x, s', rest)"
    and "length out = MAX_MESSAGE" and "length p \<le> 494"
  shows "length (take 2 (write_at out 0 (msg_header k)) @ rest) = MAX_MESSAGE \<and> (\<forall>n. x = Inr n \<longrightarrow> n + 2 \<le> MAX_MESSAGE)"
  using sealed_into[OF assms(1,2)] assms(3,4) by (auto simp: MAX_MESSAGE_def msg_header_def SEAL_TAG_LEN_def)

lemma on_confirm_sized:
  assumes "aead_ok (en_aead E)" and "on_confirm E body now status w = (r, w')" and "length (w_out w) = MAX_MESSAGE"
  shows "sized r w'"
proof (cases "\<exists>x at. dv_state (w_device w) = DReplied x at \<and> length body = 32 \<and> is_ok (response_confirm (en_hashes E) x body)")
  case False
  then show ?thesis
    using assms(2,3) by (auto simp: on_confirm_def is_ok_def Let_def intro: end_with_sized split: dstate.splits if_splits sum.splits)
next
  case True
  then obtain x at send recv where c: "dv_state (w_device w) = DReplied x at" "length body = 32"
    "response_confirm (en_hashes E) x body = Inr (send, recv)"
    by (auto simp: is_ok_iff)
  obtain y kv where kv: "en_store_failures E (w_settings w) 0 = (y, kv)"
    by (meson surj_pair)
  let ?plain = "st_phase status # st_scan status" and ?out = "write_at (w_out w) 0 (msg_header MK_READY)"
  obtain z s' rest where z: "sealer_seal (en_aead E) send (msg_header MK_READY) ?plain (drop 2 ?out) = (z, s', rest)"
    by (cases "sealer_seal (en_aead E) send (msg_header MK_READY) ?plain (drop 2 ?out)") auto
  show ?thesis
  proof (cases "is_ok y \<and> length (st_scan status) \<le> SCAN_MAX_LEN")
    case True
    then have "length ?plain \<le> 494"
      by (simp add: SCAN_MAX_LEN_def)
    from sealed_answer[OF assms(1) z assms(3) this] True show ?thesis
      using assms(2) c kv z by (cases z) (auto simp: on_confirm_def sized_def is_ok_iff)
  next
    case False
    then show ?thesis
      using assms(2,3) c kv by (cases y) (auto simp: on_confirm_def sized_def)
  qed
qed

lemma on_settings_sized:
  assumes "aead_ok (en_aead E)" and "on_settings E body now status w = (r, w')" and "length (w_out w) = MAX_MESSAGE"
  shows "sized r w'"
proof (cases "\<exists>send recv at. dv_state (w_device w) = DConfirmed send recv at")
  case False
  then show ?thesis
    using assms(2,3) by (auto simp: on_settings_def intro: end_with_sized split: dstate.splits)
next
  case True
  then obtain send recv at where c: "dv_state (w_device w) = DConfirmed send recv at"
    by auto
  obtain x o' plain where o': "opener_open (en_aead E) recv (msg_header MK_SETTINGS) body (replicate MAX_MESSAGE 0) = (x, o', plain)"
    by (cases "opener_open (en_aead E) recv (msg_header MK_SETTINGS) body (replicate MAX_MESSAGE 0)") auto
  show ?thesis
  proof (cases x)
    case (Inl e)
    obtain y w1 where y: "record_failure E now (set_state DIdle w) = (y, w1)"
      by (meson surj_pair)
    then have "w_out w1 = w_out w"
      using record_failure_out[OF y] by simp
    then show ?thesis
      using assms(2,3) c o' Inl y end_with_sized[of RcSeal w1 r w'] by (cases y) (auto simp: on_settings_def sized_def)
  next
    case (Inr n)
    obtain code applied kvs where a: "device_apply E (w_device (set_state DIdle w)) (take n plain) (stores w) = ((code, applied), kvs)"
      by (metis surj_pair)
    let ?out = "write_at (w_out w) 0 (msg_header MK_RESULT)"
    obtain z s' rest where z: "sealer_seal (en_aead E) send (msg_header MK_RESULT) [rc_as_u8 code, st_phase status] (drop 2 ?out) = (z, s', rest)"
      by (cases "sealer_seal (en_aead E) send (msg_header MK_RESULT) [rc_as_u8 code, st_phase status] (drop 2 ?out)") auto
    from sealed_answer[OF assms(1) z assms(3)] show ?thesis
      using assms(2) c o' Inr a z by (cases z; cases kvs) (auto simp: on_settings_def sized_def Let_def)
  qed
qed

lemma on_message_sized:
  assumes "session_env_ok E devpub" and "on_message E m now status w = (r, w')" and "length (w_out w) = MAX_MESSAGE"
  shows "sized r w'"
proof -
  have aead: "aead_ok (en_aead E)"
    using assms(1) by (simp add: session_env_ok_def)
  from assms(2) show ?thesis
  proof (cases rule: on_message_cases)
    case short
    then show ?thesis using assms(3) by (simp add: sized_def)
  next
    case ended
    then show ?thesis using assms(3) by (auto intro: end_with_sized)
  next
    case start
    then show ?thesis using on_start_sized[OF assms(1) start(2)] assms(3) by simp
  next
    case confirm
    then show ?thesis using on_confirm_sized[OF aead confirm(2)] assms(3) by simp
  next
    case settings
    then show ?thesis using on_settings_sized[OF aead settings(2)] assms(3) by simp
  qed
qed

section \<open>Histories\<close>

text \<open>Whatever a provisioner goes through.\<close>

inductive prov_reaches for E P N where
  start: "prov_new E N policy devpub reset now parts = Inr p \<Longrightarrow> prov_reaches E P N p"
| boot: "prov_reaches E P N p \<Longrightarrow> prov_reaches E P N (snd (prov_boot E P now p))"
| scan: "prov_reaches E P N p \<Longrightarrow> prov_reaches E P N (prov_set_scan scan p)"
| button: "prov_reaches E P N p \<Longrightarrow> prov_reaches E P N (prov_button now p)"
| tick: "prov_reaches E P N p \<Longrightarrow> prov_reaches E P N (prov_tick E now p)"
| closed: "prov_reaches E P N p \<Longrightarrow> prov_reaches E P N (prov_carrier_closed p)"
| forget: "prov_reaches E P N p \<Longrightarrow> prov_reaches E P N (snd (prov_forget P p))"
| wrote: "prov_reaches E P N p \<Longrightarrow> prov_reaches E P N (snd (prov_on_write E P uuid val now p))"
| event: "prov_reaches E P N p \<Longrightarrow> prov_reaches E P N (snd (prov_on_event E P ev now p))"

text \<open>The fields the operations of the service keep among themselves: the value's array and its length.\<close>

definition prov_wf :: "('kv, 'g) provisioner \<Rightarrow> bool" where
  "prov_wf p \<longleftrightarrow> length (w_out (pr_world p)) = MAX_MESSAGE \<and> pr_answer_len p \<le> MAX_MESSAGE"

lemma prov_write_wf:
  assumes "session_env_ok E devpub" and "prov_wf p" and "prov_on_write E P uuid val now p = (r, p')"
  shows "prov_wf p'"
proof (cases "uuid = CHAR_SETUP")
  case False
  then show ?thesis using on_write_other[OF False assms(3)] assms(2) by simp
next
  case True
  have len: "length (w_out (wipe (pr_world p))) = MAX_MESSAGE"
    using assms(2) by (simp add: wipe_def prov_wf_def)
  from assms(3) True have "prov_setup_write E P val now p = (r, p')"
    by (simp add: prov_on_write_def)
  then show ?thesis
  proof (cases rule: setup_write_cases)
    case encode
    then show ?thesis using assms(2) by simp
  next
    case failed
    then show ?thesis using on_message_sized[OF assms(1) failed(1) len] by (simp add: sized_def prov_wf_def)
  next
    case answered
    then show ?thesis using on_message_sized[OF assms(1) answered(3) len]
      by (auto simp: sized_def prov_wf_def split: option.split)
  qed
qed

lemma prov_event_world:
  "w_out (pr_world (snd (prov_on_event E P ev now p))) = w_out (pr_world p) \<and>
   pr_answer_len (snd (prov_on_event E P ev now p)) = pr_answer_len p"
  by (auto simp: prov_on_event_def prov_button_def Let_def split: prod.split event.split)

lemma prov_reaches_wf:
  assumes "session_env_ok E devpub" and "prov_reaches E P N p"
  shows "prov_wf p"
  using assms(2)
proof (induction rule: prov_reaches.induct)
  case (start policy devpub' reset now parts p)
  then show ?case
    by (auto simp: prov_new_def prov_wf_def split: prod.splits sum.splits)
next
  case (wrote p uuid val now)
  then show ?case
    using prov_write_wf[OF assms(1) wrote.IH prod.collapse[symmetric]] by blast
qed (auto simp: prov_wf_def prov_boot_def prov_adopt_eq prov_set_scan_def prov_button_def prov_tick_def
    prov_carrier_closed_def wipe_def prov_forget_def prov_event_world Let_def split: option.split prod.splits sum.splits)

section \<open>Runs of link events\<close>

fun prov_events ::
  "('kv, 'g, 's, 'p, 'a, 'o) env \<Rightarrow> 'kv platform \<Rightarrow> (event \<times> micros) list \<Rightarrow> ('kv, 'g) provisioner \<Rightarrow> ('kv, 'g) provisioner" where
  "prov_events E P [] p = p"
| "prov_events E P ((ev, now) # es) p = prov_events E P es (snd (prov_on_event E P ev now p))"

lemma prov_on_event_policy:
  "pr_policy (snd (prov_on_event E P ev now p)) = snd (policy_on (en_since E) (pl_add P) (pr_policy p) ev now)"
  by (auto simp: prov_on_event_def prov_button_def Let_def split: prod.split event.split)

lemma prov_events_policy:
  "pr_policy (prov_events E P es p) = snd (policy_run (en_since E) (pl_add P) (pr_policy p) es)"
  by (induction E P es p rule: prov_events.induct) (auto simp: prov_on_event_policy split: prod.split)

lemma prov_on_event_settings: "w_settings (pr_world (snd (prov_on_event E P ev now p))) = w_settings (pr_world p)"
  by (auto simp: prov_on_event_def prov_button_def Let_def split: prod.split event.split)

lemma prov_events_settings: "w_settings (pr_world (prov_events E P es p)) = w_settings (pr_world p)"
  by (induction E P es p rule: prov_events.induct) (simp_all add: prov_on_event_settings)

abbreviation opened_at :: "('kv, 'g) provisioner \<Rightarrow> micros option" where
  "opened_at p \<equiv> dv_window_opened (w_device (pr_world p))"

text \<open>An event leaves the window or opens it now; falling back, and a first failed join, open it.\<close>

lemma prov_on_event_opened:
  "opened_at (snd (prov_on_event E P ev now p)) = opened_at p \<or> opened_at (snd (prov_on_event E P ev now p)) = Some now"
  by (auto simp: prov_on_event_def prov_button_def device_button_def Let_def split: prod.split event.split)

lemma policy_on_to_fallback:
  "policy_on since add q ev now = (a, q') \<Longrightarrow> sp_phase q' = Fallback \<Longrightarrow> sp_phase q \<noteq> Fallback \<Longrightarrow> a = ActStartProvisioning"
  by (auto simp: policy_on_def Let_def split: event.splits phase.splits if_splits)

lemma prov_on_event_fallback:
  "prov_phase (snd (prov_on_event E P ev now p)) = Fallback \<Longrightarrow> prov_phase p \<noteq> Fallback \<Longrightarrow>
     opened_at (snd (prov_on_event E P ev now p)) = Some now"
  using policy_on_to_fallback[of "en_since E" "pl_add P" "pr_policy p" ev now]
  by (auto simp: prov_on_event_def prov_button_def device_button_def prov_phase_def Let_def split: prod.splits event.splits)

lemma trial_failure_opens:
  "pr_trial p \<Longrightarrow> opened_at (snd (prov_on_event E P EvDisconnected now p)) = Some now \<and>
     \<not> pr_trial (snd (prov_on_event E P EvDisconnected now p))"
  by (auto simp: prov_on_event_def prov_button_def device_button_def Let_def split: prod.splits)

lemma prov_events_fallback:
  "prov_phase (prov_events E P es p) = Fallback \<Longrightarrow> prov_phase p \<noteq> Fallback \<or> (\<exists>t\<in>T. opened_at p = Some t) \<Longrightarrow>
     \<exists>t \<in> T \<union> snd ` set es. opened_at (prov_events E P es p) = Some t"
proof (induction es arbitrary: p T)
  case (Cons e es)
  obtain ev now where e: "e = (ev, now)" by (cases e)
  let ?q = "snd (prov_on_event E P ev now p)"
  have "prov_phase ?q \<noteq> Fallback \<or> (\<exists>t\<in>insert now T. opened_at ?q = Some t)"
    using prov_on_event_fallback[of E P ev now p] prov_on_event_opened[of E P ev now p] Cons.prems(2) by auto
  from Cons.IH[of ?q "insert now T", OF _ this] Cons.prems(1) show ?case
    by (auto simp: e)
qed auto

lemma window_advertises:
  "opened_at p = Some t \<Longrightarrow> failures E (w_settings (pr_world p)) < MAX_FAILURES \<Longrightarrow>
     en_since E now t < WINDOW_AFTER_RESET_US \<Longrightarrow> prov_advertising E now p"
  by (auto simp: prov_advertising_def device_advertising_def device_window_def Let_def not_less)

section \<open>Properties\<close>

lemma provisioning_found:
  "gatt_find GATT_TABLE CHAR_STATUS = Some (PROVISIONING_CHARACTERISTICS ! 0)"
  "gatt_find GATT_TABLE CHAR_SETUP = Some (PROVISIONING_CHARACTERISTICS ! 1)"
  "gatt_find GATT_TABLE CHAR_DISCOVER = Some (PROVISIONING_CHARACTERISTICS ! 2)"
  by (simp_all add: gatt_find_def characteristics_def gatt_defs janus_uuid_inject)

lemmas provisioning_values = PROVISIONING_CHARACTERISTICS_def SETUP_VALUE_LEN_def DISCOVER_VALUE_LEN_def
  PROPS_READ_def PROPS_NOTIFY_def PROPS_WRITE_def

lemma discover_length: "device_discover E d now kv out = (Inr n, out') \<Longrightarrow> n = 59"
  by (auto simp: device_discover_def discover_write_def setup_len_defs Let_def split: option.splits if_splits)

definition toy_platform :: "(bytes \<Rightarrow> bytes option) platform" where
  "toy_platform = \<lparr>pl_remove = \<lambda>kv k. (Inr (), kv(k := None)), pl_add = sat_add\<rparr>"

text \<open>C32: Whatever a backend serves fits the GATT table. In any history, a read that succeeds is of a
  characteristic of the table that may be read, and its length is at most the length the table declares.\<close>

theorem prov_read_fits_table:
  assumes "session_env_ok E devpub" and "prov_reaches E P N p" and "prov_read E uuid now out p = (Inr n, out')"
  shows "\<exists>c. gatt_find GATT_TABLE uuid = Some c \<and> props_contains (ch_props c) PROPS_READ \<and> n \<le> unat (ch_max_len c)"
proof -
  have "pr_answer_len p \<le> MAX_MESSAGE"
    using prov_reaches_wf[OF assms(1,2)] by (simp add: prov_wf_def)
  then show ?thesis
    using assms(3) unfolding prov_read_def
    by (auto simp: provisioning_found provisioning_values MAX_MESSAGE_def Let_def dest: discover_length split: if_splits list.splits)
qed

theorem prov_read_fits_table_witness:
  "\<exists>c. gatt_find GATT_TABLE CHAR_STATUS = Some c \<and> props_contains (ch_props c) PROPS_READ \<and> 1 \<le> unat (ch_max_len c)"
proof -
  define p where "p = projr (prov_new toy_env 2 (policy_new policy_config_default) (replicate 33 2) OtherReset 0
    (Map.empty, Map.empty, 7))"
  have "prov_new toy_env 2 (policy_new policy_config_default) (replicate 33 2) OtherReset 0 (Map.empty, Map.empty, 7) = Inr p"
    unfolding p_def by (simp add: prov_new_def device_new_def context_new_def LABEL_BLE_def setup_len_defs MAX_LABEL_LEN_def)
  then have "prov_reaches toy_env toy_platform 2 p"
    by (rule prov_reaches.start)
  from prov_read_fits_table[OF toy_session_env_ok this, of CHAR_STATUS 0 "[0]"] show ?thesis
    by (simp add: prov_read_def)
qed

text \<open>C31: A network that never joins does not leave the device unreachable. Starting from a join, when the
  failures reach the policy's maximum, each waited out, the device is in fallback and its setup window has
  been opened at one of the failures: for 600 seconds from then it advertises the service, unless the code
  was guessed wrong too often.\<close>

theorem fallback_reopens_setup:
  assumes "prov_phase p = Connecting \<or> prov_phase p = Connected"
    and "patient (en_since E) (pl_add P) (sp_cfg (pr_policy p)) rs" and "rs \<noteq> []"
    and "unat (pc_max_failures (sp_cfg (pr_policy p))) \<le> unat (sp_failures (pr_policy p)) + length rs"
    and "failures E (w_settings (pr_world p)) < MAX_FAILURES"
  shows "prov_phase (prov_events E P (fail_rounds rs) p) = Fallback \<and>
    (\<exists>t \<in> snd ` set (fail_rounds rs). \<forall>now. en_since E now t < WINDOW_AFTER_RESET_US \<longrightarrow>
      prov_advertising E now (prov_events E P (fail_rounds rs) p))"
proof -
  have fb: "prov_phase (prov_events E P (fail_rounds rs) p) = Fallback"
    using policy_run_falls_back[OF assms(1)[unfolded prov_phase_def] assms(2-4)]
    by (simp add: prov_phase_def prov_events_policy)
  have "prov_phase p \<noteq> Fallback"
    using assms(1) by auto
  with prov_events_fallback[OF fb, of "{}"] obtain t where
    "t \<in> snd ` set (fail_rounds rs)" "opened_at (prov_events E P (fail_rounds rs) p) = Some t"
    by auto
  with fb window_advertises assms(5) show ?thesis
    by (metis prov_events_settings)
qed

theorem fallback_reopens_setup_witness:
  "let p = \<lparr>pr_policy = (policy_new \<lparr>pc_min_backoff = 5, pc_max_backoff = 7, pc_max_failures = 2\<rparr>)\<lparr>sp_phase := Connecting\<rparr>,
       pr_world = toy_world DIdle, pr_credentials = None, pr_trial = True, pr_scan = scan_new 1, pr_answer_len = 0\<rparr>;
     p' = prov_events toy_env toy_platform (fail_rounds [(0, 100), (200, 300)]) p
   in prov_phase p' = Fallback \<and> (\<exists>t. prov_advertising toy_env t p')"
proof -
  let ?p = "\<lparr>pr_policy = (policy_new \<lparr>pc_min_backoff = 5, pc_max_backoff = 7, pc_max_failures = 2\<rparr>)\<lparr>sp_phase := Connecting\<rparr>,
       pr_world = toy_world DIdle, pr_credentials = None, pr_trial = True, pr_scan = scan_new 1, pr_answer_len = 0\<rparr>"
  have u: "unat w \<le> 7" if "w \<le> 7" for w :: u64
    using that by (simp add: word_le_nat_alt)
  have "patient sat_sub sat_add \<lparr>pc_min_backoff = 5, pc_max_backoff = 7, pc_max_failures = 2\<rparr> [(0, 100), (200, 300)]"
    by (auto simp: patient_def word_unat_eq_iff sat_simps dest: u)
  then have "prov_phase (prov_events toy_env toy_platform (fail_rounds [(0, 100), (200, 300)]) ?p) = Fallback \<and>
    (\<exists>t \<in> snd ` set (fail_rounds [(0, 100), (200, 300)]). \<forall>now. en_since toy_env now t < WINDOW_AFTER_RESET_US \<longrightarrow>
      prov_advertising toy_env now (prov_events toy_env toy_platform (fail_rounds [(0, 100), (200, 300)]) ?p))"
    by (intro fallback_reopens_setup)
      (simp_all add: toy_env_sel toy_platform_def prov_phase_def policy_new_def toy_world_def failures_def MAX_FAILURES_def toy_env_def)
  then obtain t where "prov_phase (prov_events toy_env toy_platform (fail_rounds [(0, 100), (200, 300)]) ?p) = Fallback"
    "\<forall>now. sat_sub now t < WINDOW_AFTER_RESET_US \<longrightarrow>
      prov_advertising toy_env now (prov_events toy_env toy_platform (fail_rounds [(0, 100), (200, 300)]) ?p)"
    by (auto simp: toy_env_sel)
  moreover have "sat_sub t t < WINDOW_AFTER_RESET_US"
    by (simp add: sat_sub_def WINDOW_AFTER_RESET_US_def)
  ultimately show ?thesis
    unfolding Let_def by blast
qed

text \<open>C30: The network a device joins comes from its owner. A write that changes the network is a Settings
  message to a confirmed session, sealed under the key and number that session expects; its record passes
  every check and carries the network now joined, on trial.\<close>

theorem network_only_from_sealed_settings:
  assumes "failure_store_apart E" and "aead_ok (en_aead E)" and "prov_on_write E P uuid val now p = (r, p')"
    and "pr_credentials p' \<noteq> pr_credentials p"
  shows "uuid = CHAR_SETUP \<and> (\<exists>send recv at body plain recv' rec c.
    dv_state (w_device (pr_world p)) = DConfirmed send recv at \<and> val = msg_header MK_SETTINGS @ body \<and>
    open_sealed (en_aead E) recv (msg_header MK_SETTINGS) body = Some (plain, recv') \<and>
    record_passes E (w_device (pr_world p)) (w_identity (pr_world p)) plain rec \<and>
    sr_network rec = Some c \<and> pr_credentials p' = Some c \<and> prov_phase p' = Connecting \<and> pr_trial p')"
proof -
  have uuid: "uuid = CHAR_SETUP"
    using on_write_other[OF _ assms(3)] assms(4) by auto
  with assms(3) have "prov_setup_write E P val now p = (r, p')"
    by (simp add: prov_on_write_def)
  then show ?thesis
  proof (cases rule: setup_write_cases)
    case (answered a w status n buf)
    then obtain ap c where c: "an_applied a = Some ap" "ap_network ap = Some c"
      using assms(4) by (auto split: option.splits)
    with on_message_checked[OF assms(1,2) answered(3)] obtain send recv at body plain recv' rec where
      "dv_state (w_device (pr_world p)) = DConfirmed send recv at" "val = msg_header MK_SETTINGS @ body"
      "open_sealed (en_aead E) recv (msg_header MK_SETTINGS) body = Some (plain, recv')"
      "record_passes E (w_device (pr_world p)) (w_identity (pr_world p)) plain rec" "sr_network rec = Some c"
      by (auto simp: wipe_def)
    with uuid answered(4) c show ?thesis
      by (auto simp: prov_phase_def)
  qed (use assms(4) in auto)
qed

lemma toy_apply_network:
  "\<exists>c kvs. device_apply toy_env d [1, 0, 1, 97, 2, 0, 0] (Map.empty, i) =
     ((RcApplied, Some \<lparr>ap_network = Some c, ap_code_rotated = False, ap_adopted = False\<rparr>), kvs)"
proof -
  have "length ([97] :: bytes) = 1"
    by simp
  then obtain c where c: "creds_new [97] [] = Inr c"
    by (simp add: creds_new_def classify_def SSID_MAX_LEN_def Let_def u8_try_def)
  then have "record_decode (env_checks toy_env) [1, 0, 1, 97, 2, 0, 0] = Inr (record_default\<lparr>sr_network := Some c\<rparr>)"
    by (simp add: record_decode_def record_scan.simps slice_get_def tag_bit_def tag_defs record_entry_def be_word_def
        be_nat_def Let_def PSK_MAX_LEN_def)
  then show ?thesis
    by (simp add: device_apply_def record_writes_def record_default_def) (simp add: toy_env_def)
qed

theorem network_only_from_sealed_settings_witness:
  "let p = \<lparr>pr_policy = policy_new policy_config_default, pr_world = toy_world (DConfirmed (sealer_new []) (opener_new []) 0),
         pr_credentials = None, pr_trial = False, pr_scan = scan_new 1, pr_answer_len = 0\<rparr>
   in \<exists>send recv at body plain recv' rec c. dv_state (w_device (pr_world p)) = DConfirmed send recv at \<and>
     msg_header MK_SETTINGS @ [1, 0, 1, 97, 2, 0, 0] @ replicate 16 1 = msg_header MK_SETTINGS @ body \<and>
     open_sealed (en_aead toy_env) recv (msg_header MK_SETTINGS) body = Some (plain, recv') \<and>
     record_passes toy_env (w_device (pr_world p)) (w_identity (pr_world p)) plain rec \<and>
     sr_network rec = Some (c :: credentials)"
proof -
  let ?p = "\<lparr>pr_policy = policy_new policy_config_default, pr_world = toy_world (DConfirmed (sealer_new []) (opener_new []) 0),
    pr_credentials = None, pr_trial = False, pr_scan = scan_new 1, pr_answer_len = 0\<rparr>"
  let ?rec = "[1, 0, 1, 97, 2, 0, 0] :: bytes"
  let ?val = "msg_header MK_SETTINGS @ ?rec @ replicate 16 1"
  obtain c kvs where app: "device_apply toy_env (w_device (toy_world DIdle)) ?rec (Map.empty, Map.empty) =
     ((RcApplied, Some \<lparr>ap_network = Some c, ap_code_rotated = False, ap_adopted = False\<rparr>), kvs)"
    using toy_apply_network by blast
  have scan: "scan_encode (pr_scan ?p) (replicate SCAN_MAX_LEN 0) = (Inr 0, replicate SCAN_MAX_LEN 0)"
    by (simp add: scan_encode_def scan_entries_def scan_new_def)
  have wipe: "wipe (pr_world ?p) = pr_world ?p"
    by (simp add: wipe_def toy_world_def)
  let ?st = "\<lparr>st_phase = phase_as_u8 (prov_phase ?p), st_scan = []\<rparr>"
  obtain a w' where m: "on_message toy_env ?val 0 ?st (pr_world ?p) = (Inr a, w')"
    and "an_applied a = Some \<lparr>ap_network = Some c, ap_code_rotated = False, ap_adopted = False\<rparr>"
    using toy_settings_message[OF app, of ?st] by auto
  then have cred: "pr_credentials (snd (prov_on_write toy_env toy_platform CHAR_SETUP ?val 0 ?p)) = Some c"
    using m by (simp add: prov_on_write_def prov_setup_write_def scan[simplified] wipe[simplified] prov_adopt_eq Let_def)
  have "aead_ok (en_aead toy_env)"
    using toy_aead_ok by (simp add: toy_env_def)
  from network_only_from_sealed_settings[OF toy_failure_store_apart this prod.collapse[symmetric], of toy_platform CHAR_SETUP ?val 0 ?p]
  show ?thesis
    unfolding Let_def using cred by force
qed

end
