(* ===== verification/Ap_Core.thy ===== *)
theory Ap_Core
  imports Prelude "HOL-Library.Multiset"
begin

text \<open>
  The access point's bookkeeping (\<open>vendor/open-mac/ap_core\<close>): the frames held for stations that doze
  (\<open>hold.rs\<close>), the receive counters of a station (\<open>replay.rs\<close>) and the station table (\<open>stations.rs\<close>).
\<close>

section \<open>Frames held for dozing stations\<close>

definition HELD_FRAMES :: nat where "HELD_FRAMES = 8"
definition HELD_FRAME_BYTES :: nat where "HELD_FRAME_BYTES = 1514"

record held_slot =
  hs_bytes :: bytes
  hs_len :: nat
  hs_group :: bool
  hs_sequence :: u32

definition held_slot_empty :: held_slot where
  "held_slot_empty = \<lparr>hs_bytes = replicate HELD_FRAME_BYTES 0, hs_len = 0, hs_group = False, hs_sequence = 0\<rparr>"

definition hs_destination :: "held_slot \<Rightarrow> bytes" where
  "hs_destination s = take 6 (hs_bytes s)"

record held =
  hd_slots :: "held_slot list"
  hd_next_sequence :: u32
  hd_groups :: u16

definition held_new :: held where
  "held_new = \<lparr>hd_slots = replicate HELD_FRAMES held_slot_empty, hd_next_sequence = 1, hd_groups = 0\<rparr>"

text \<open>\<open>wrapping_add(1).max(1)\<close>\<close>

definition next_sequence :: "u32 \<Rightarrow> u32" where
  "next_sequence n = (if n + 1 = 0 then 1 else n + 1)"

definition held_push :: "bytes \<Rightarrow> bool \<Rightarrow> held \<Rightarrow> bool \<times> held" where
  "held_push frame grp h =
     (if length frame < 14 \<or> length frame > HELD_FRAME_BYTES then (False, h)
      else case position (\<lambda>s. hs_sequence s = 0) (hd_slots h) of
          None \<Rightarrow> (False, h)
        | Some i \<Rightarrow>
            let s = hd_slots h ! i;
                s = s\<lparr>hs_sequence := hd_next_sequence h, hs_group := grp, hs_len := length frame,
                      hs_bytes := write_at (hs_bytes s) 0 frame\<rparr>
            in (True, h\<lparr>hd_slots := (hd_slots h)[i := s], hd_next_sequence := next_sequence (hd_next_sequence h),
                        hd_groups := hd_groups h + (if grp then 1 else 0)\<rparr>))"

text \<open>The oldest slot a test takes, and how many it takes, in one walk.\<close>

fun oldest_from :: "(held_slot \<Rightarrow> bool) \<Rightarrow> nat \<Rightarrow> held_slot list \<Rightarrow> (nat \<times> u32) option \<Rightarrow> nat \<Rightarrow> (nat \<times> u32) option \<times> nat" where
  "oldest_from pick i [] best n = (best, n)"
| "oldest_from pick i (s # ss) best n =
     (if hs_sequence s \<noteq> 0 \<and> pick s
      then oldest_from pick (i + 1) ss
             (case best of
                None \<Rightarrow> Some (i, hs_sequence s)
              | Some (_, sq) \<Rightarrow> if hs_sequence s < sq then Some (i, hs_sequence s) else best) (n + 1)
      else oldest_from pick (i + 1) ss best n)"

definition oldest :: "(held_slot \<Rightarrow> bool) \<Rightarrow> held \<Rightarrow> (nat \<times> nat) option" where
  "oldest pick h = (case oldest_from pick 0 (hd_slots h) None 0 of (best, n) \<Rightarrow> map_option (\<lambda>(i, _). (i, n)) best)"

definition held_take :: "nat \<Rightarrow> held \<Rightarrow> bytes \<times> held" where
  "held_take i h =
     (let s = hd_slots h ! i
      in (take (hs_len s) (hs_bytes s),
          h\<lparr>hd_slots := (hd_slots h)[i := s\<lparr>hs_sequence := 0\<rparr>],
            hd_groups := hd_groups h - (if hs_group s then 1 else 0)\<rparr>))"

text \<open>A frame taken out, whether more remain, and the pool.\<close>

definition held_pop_where :: "(held_slot \<Rightarrow> bool) \<Rightarrow> held \<Rightarrow> (bytes \<times> bool \<times> held) option" where
  "held_pop_where pick h =
     (case oldest pick h of None \<Rightarrow> None
      | Some (i, n) \<Rightarrow> (case held_take i h of (frame, h) \<Rightarrow> Some (frame, n > 1, h)))"

definition held_for :: "bytes \<Rightarrow> held_slot \<Rightarrow> bool" where
  "held_for station s \<longleftrightarrow> \<not> hs_group s \<and> hs_destination s = station"

definition held_pop :: "bytes \<Rightarrow> held \<Rightarrow> (bytes \<times> bool \<times> held) option" where
  "held_pop station h = held_pop_where (held_for station) h"

definition held_pop_group :: "held \<Rightarrow> (bytes \<times> bool \<times> held) option" where
  "held_pop_group h = held_pop_where hs_group h"

definition held_count :: "bytes \<Rightarrow> held \<Rightarrow> nat" where
  "held_count station h = length (filter (\<lambda>s. hs_sequence s \<noteq> 0 \<and> held_for station s) (hd_slots h))"

definition held_group_count :: "held \<Rightarrow> u16" where
  "held_group_count h = hd_groups h"

definition held_clear :: "bytes \<Rightarrow> held \<Rightarrow> held" where
  "held_clear station h =
     h\<lparr>hd_slots := map (\<lambda>s. if hs_sequence s \<noteq> 0 \<and> held_for station s then s\<lparr>hs_sequence := 0\<rparr> else s) (hd_slots h)\<rparr>"

section \<open>Receive counters\<close>

datatype ap_verdict = Fresh | Duplicate | Replay

record rx_window =
  rx_tid :: "u64 list"
  rx_non_qos :: u64
  rx_seen :: u32

definition rx_window_new :: rx_window where
  "rx_window_new = \<lparr>rx_tid = replicate 16 0, rx_non_qos = 0, rx_seen = 0\<rparr>"

definition rx_check :: "u8 option \<Rightarrow> u64 \<Rightarrow> bool \<Rightarrow> rx_window \<Rightarrow> ap_verdict \<times> rx_window" where
  "rx_check tid pn retry w =
     (let (counter, bit_no) =
        (case tid of Some t \<Rightarrow> (rx_tid w ! unat (t AND 0x0f), unat (t AND 0x0f)) | None \<Rightarrow> (rx_non_qos w, 16));
          first = (rx_seen w AND push_bit bit_no 1 = 0)
      in if first \<or> pn > counter
         then let w = (case tid of
                  Some t \<Rightarrow> w\<lparr>rx_tid := (rx_tid w)[unat (t AND 0x0f) := pn]\<rparr>
                | None \<Rightarrow> w\<lparr>rx_non_qos := pn\<rparr>)
              in (Fresh, w\<lparr>rx_seen := rx_seen w OR push_bit bit_no 1\<rparr>)
         else (if retry then Duplicate else Replay, w))"

section \<open>The station table\<close>

definition MAX_STATIONS :: nat where "MAX_STATIONS = 8"
definition MAX_RSN_ELEMENT :: nat where "MAX_RSN_ELEMENT = 64"

definition SUCCESS :: u16 where "SUCCESS = 0"
definition UNSPECIFIED :: u16 where "UNSPECIFIED = 1"
definition UNSUPPORTED_AUTH_ALGORITHM :: u16 where "UNSUPPORTED_AUTH_ALGORITHM = 13"
definition AUTH_OUT_OF_SEQUENCE :: u16 where "AUTH_OUT_OF_SEQUENCE = 14"
definition TOO_MANY_STATIONS :: u16 where "TOO_MANY_STATIONS = 17"
definition INVALID_ELEMENT :: u16 where "INVALID_ELEMENT = 40"

datatype st_state = Authenticated | Associated | Connected

record ht_capabilities =
  ht_short_gi_20 :: bool
  ht_rx_mcs :: u8

text \<open>\<open>7 - leading_zeros\<close>, the highest bit set.\<close>

definition highest_mcs :: "ht_capabilities \<Rightarrow> u8 option" where
  "highest_mcs h =
     (if ht_rx_mcs h = 0 then None
      else Some (7 - of_nat (length (takeWhile (\<lambda>i. \<not> bit (ht_rx_mcs h) (7 - i)) [0..<8]))))"

record station =
  st_address :: bytes
  st_aid :: u16
  st_state :: st_state
  st_last_heard :: u64
  st_power_save :: bool
  st_queued :: u16
  st_qos :: bool
  st_ht :: "ht_capabilities option"
  st_rsne :: bytes
  st_rsne_len :: nat

type_synonym stations = "station option list"

definition stations_new :: stations where
  "stations_new = replicate MAX_STATIONS None"

text \<open>The first filled slot that satisfies a test, and that slot changed in place.\<close>

fun slot_find :: "('a \<Rightarrow> bool) \<Rightarrow> 'a option list \<Rightarrow> 'a option" where
  "slot_find P [] = None"
| "slot_find P (None # ss) = slot_find P ss"
| "slot_find P (Some x # ss) = (if P x then Some x else slot_find P ss)"

fun slot_update :: "('a \<Rightarrow> bool) \<Rightarrow> ('a \<Rightarrow> 'a option) \<Rightarrow> 'a option list \<Rightarrow> 'a option list" where
  "slot_update P f [] = []"
| "slot_update P f (None # ss) = None # slot_update P f ss"
| "slot_update P f (Some x # ss) = (if P x then f x # ss else Some x # slot_update P f ss)"

lemma slots_induct [case_names Nil None Some]:
  assumes "P []" "\<And>xs. P xs \<Longrightarrow> P (None # xs)" "\<And>x xs. P xs \<Longrightarrow> P (Some x # xs)"
  shows "P xs"
proof (induction xs)
  case Nil
  then show ?case by (rule assms(1))
next
  case (Cons o' xs)
  then show ?case by (cases o') (auto intro: assms)
qed

definition stations_get :: "bytes \<Rightarrow> stations \<Rightarrow> station option" where
  "stations_get a ss = slot_find (\<lambda>s. st_address s = a) ss"

text \<open>\<open>get_mut\<close>: the first station of that address, changed in place.\<close>

definition stations_map :: "bytes \<Rightarrow> (station \<Rightarrow> station) \<Rightarrow> stations \<Rightarrow> stations" where
  "stations_map a f ss = slot_update (\<lambda>s. st_address s = a) (\<lambda>s. Some (f s)) ss"

text \<open>\<open>&self.rsne[..self.rsne_len]\<close>: \<open>None\<close> past the array's end.\<close>

definition rsn_element :: "station \<Rightarrow> bytes option" where
  "rsn_element s = slice_get (st_rsne s) 0 (st_rsne_len s)"

definition station_fresh :: "bytes \<Rightarrow> station" where
  "station_fresh a = \<lparr>st_address = a, st_aid = 0, st_state = Authenticated, st_last_heard = 0, st_power_save = False,
     st_queued = 0, st_qos = False, st_ht = None, st_rsne = replicate MAX_RSN_ELEMENT 0, st_rsne_len = 0\<rparr>"

definition stations_authenticate :: "bytes \<Rightarrow> u16 \<Rightarrow> u16 \<Rightarrow> stations \<Rightarrow> u16 \<times> stations" where
  "stations_authenticate a algorithm sequence ss =
     (if algorithm \<noteq> 0 then (UNSUPPORTED_AUTH_ALGORITHM, ss)
      else if sequence \<noteq> 1 then (AUTH_OUT_OF_SEQUENCE, ss)
      else if stations_get a ss \<noteq> None then (SUCCESS, stations_map a (\<lambda>_. station_fresh a) ss)
      else case position (\<lambda>o'. o' = None) ss of
          Some i \<Rightarrow> (SUCCESS, ss[i := Some (station_fresh a)])
        | None \<Rightarrow> (TOO_MANY_STATIONS, ss))"

text \<open>\<open>rsn::check_station\<close> is the argument \<open>check_rsn\<close>: the status it refuses with.\<close>

definition lowest_free_aid :: "u16 list \<Rightarrow> u16 option" where
  "lowest_free_aid in_use = List.find (\<lambda>aid. aid \<notin> set in_use) (map of_nat [1..<MAX_STATIONS + 1])"

definition stations_associate ::
  "(bytes \<Rightarrow> u16 option) \<Rightarrow> bytes \<Rightarrow> bool \<Rightarrow> bytes option \<Rightarrow> bool \<Rightarrow> stations \<Rightarrow> (u16 + u16) \<times> stations" where
  "stations_associate check_rsn a ssid_matches element protected ss =
     (let in_use = map (\<lambda>o'. case o' of Some s \<Rightarrow> st_aid s | None \<Rightarrow> 0) ss in
      case stations_get a ss of None \<Rightarrow> (Inl UNSPECIFIED, ss) | Some st \<Rightarrow>
      if \<not> ssid_matches then (Inl UNSPECIFIED, ss)
      else case (case (protected, element) of
          (True, None) \<Rightarrow> Some INVALID_ELEMENT
        | (True, Some e) \<Rightarrow>
            if length e > MAX_RSN_ELEMENT then Some INVALID_ELEMENT
            else if length e < 2 then Some INVALID_ELEMENT
            else check_rsn (drop 2 e)
        | (False, Some _) \<Rightarrow> Some INVALID_ELEMENT
        | (False, None) \<Rightarrow> None) of
        Some status \<Rightarrow> (Inl status, ss)
      | None \<Rightarrow>
        case (if st_aid st \<noteq> 0 then Some (st_aid st) else lowest_free_aid in_use) of
          None \<Rightarrow> (Inl TOO_MANY_STATIONS, ss)
        | Some aid \<Rightarrow>
            let e = (case element of Some e \<Rightarrow> e | None \<Rightarrow> [])
            in (Inr aid,
                stations_map a (\<lambda>st. st\<lparr>st_aid := aid, st_state := (if protected then Associated else Connected),
                  st_rsne := write_at (st_rsne st) 0 e, st_rsne_len := length e\<rparr>) ss))"

definition stations_set_capabilities :: "bytes \<Rightarrow> bool \<Rightarrow> ht_capabilities option \<Rightarrow> stations \<Rightarrow> stations" where
  "stations_set_capabilities a qos ht ss = stations_map a (\<lambda>st. st\<lparr>st_qos := qos, st_ht := ht\<rparr>) ss"

definition stations_connected :: "bytes \<Rightarrow> stations \<Rightarrow> stations" where
  "stations_connected a ss = stations_map a (\<lambda>st. if st_state st = Associated then st\<lparr>st_state := Connected\<rparr> else st) ss"

definition stations_heard :: "bytes \<Rightarrow> u64 \<Rightarrow> bool \<Rightarrow> stations \<Rightarrow> stations" where
  "stations_heard a now power_save ss = stations_map a (\<lambda>st. st\<lparr>st_last_heard := now, st_power_save := power_save\<rparr>) ss"

definition stations_heard_was :: "bytes \<Rightarrow> u64 \<Rightarrow> bool \<Rightarrow> stations \<Rightarrow> (st_state \<times> bool) option \<times> stations" where
  "stations_heard_was a now power_save ss =
     (map_option (\<lambda>st. (st_state st, st_power_save st)) (stations_get a ss), stations_heard a now power_save ss)"

definition stations_set_queued :: "bytes \<Rightarrow> u16 \<Rightarrow> stations \<Rightarrow> stations" where
  "stations_set_queued a queued ss = stations_map a (\<lambda>st. st\<lparr>st_queued := queued\<rparr>) ss"

definition filled :: "'a option list \<Rightarrow> 'a list" where
  "filled ss = List.map_filter id ss"

text \<open>\<open>min_by_key\<close>: the first of those heard longest ago.\<close>

fun longest_ago :: "station option \<Rightarrow> station list \<Rightarrow> station option" where
  "longest_ago best [] = best"
| "longest_ago best (s # ss) =
     longest_ago (case best of None \<Rightarrow> Some s | Some b \<Rightarrow> if st_last_heard s < st_last_heard b then Some s else best) ss"

definition stations_inactive :: "u64 \<Rightarrow> u64 \<Rightarrow> stations \<Rightarrow> bytes option" where
  "stations_inactive now limit ss =
     map_option st_address (longest_ago None (filter (\<lambda>s. sat_sub now (st_last_heard s) > limit) (filled ss)))"

record tim =
  tim_dtim_count :: u8
  tim_dtim_period :: u8
  tim_group_buffered :: bool
  tim_buffered_aids :: u16

definition stations_tim :: "u8 \<Rightarrow> u8 \<Rightarrow> bool \<Rightarrow> stations \<Rightarrow> tim" where
  "stations_tim dtim_count dtim_period group_buffered ss =
     \<lparr>tim_dtim_count = dtim_count, tim_dtim_period = dtim_period, tim_group_buffered = group_buffered,
      tim_buffered_aids = foldl (\<lambda>bits s. bits OR push_bit (unat (st_aid s)) 1) 0
        (filter (\<lambda>s. st_aid s \<noteq> 0 \<and> st_aid s < 16 \<and> st_queued s > 0) (filled ss))\<rparr>"

definition stations_remove :: "bytes \<Rightarrow> stations \<Rightarrow> stations" where
  "stations_remove a ss = slot_update (\<lambda>s. st_address s = a) (\<lambda>_. None) ss"

section \<open>What the pool holds\<close>

definition held_wf :: "held \<Rightarrow> bool" where
  "held_wf h \<longleftrightarrow> length (hd_slots h) = HELD_FRAMES \<and>
     (\<forall>s\<in>set (hd_slots h). length (hs_bytes s) = HELD_FRAME_BYTES \<and> hs_len s \<le> HELD_FRAME_BYTES)"

definition holds :: "(held_slot \<Rightarrow> bool) \<Rightarrow> held_slot \<Rightarrow> bool" where
  "holds pick s \<longleftrightarrow> hs_sequence s \<noteq> 0 \<and> pick s"

definition held_number :: "(held_slot \<Rightarrow> bool) \<Rightarrow> held \<Rightarrow> nat" where
  "held_number pick h = length (filter (holds pick) (hd_slots h))"

lemma held_count_number: "held_count a h = held_number (held_for a) h"
  by (simp add: held_count_def held_number_def holds_def[abs_def])

lemma held_new_wf: "held_wf held_new"
  by (simp add: held_wf_def held_new_def held_slot_empty_def)

lemma filter_update_length:
  "i < length xs \<Longrightarrow> P (xs ! i) \<Longrightarrow> \<not> P y \<Longrightarrow> length (filter P (xs[i := y])) = length (filter P xs) - 1"
  "i < length xs \<Longrightarrow> \<not> P (xs ! i) \<Longrightarrow> P y \<Longrightarrow> length (filter P (xs[i := y])) = length (filter P xs) + 1"
  "i < length xs \<Longrightarrow> P (xs ! i) = P y \<Longrightarrow> length (filter P (xs[i := y])) = length (filter P xs)"
proof -
  assume i: "i < length xs"
  have xs: "filter P xs = filter P (take i xs) @ filter P [xs ! i] @ filter P (drop (Suc i) xs)"
    using id_take_nth_drop[OF i] by (metis append_Cons append_Nil filter_append)
  have ys: "filter P (xs[i := y]) = filter P (take i xs) @ filter P [y] @ filter P (drop (Suc i) xs)"
    using upd_conv_take_nth_drop[OF i, of y] by (metis append_Cons append_Nil filter_append)
  show "P (xs ! i) \<Longrightarrow> \<not> P y \<Longrightarrow> length (filter P (xs[i := y])) = length (filter P xs) - 1"
    "\<not> P (xs ! i) \<Longrightarrow> P y \<Longrightarrow> length (filter P (xs[i := y])) = length (filter P xs) + 1"
    "P (xs ! i) = P y \<Longrightarrow> length (filter P (xs[i := y])) = length (filter P xs)"
    unfolding xs ys by simp_all
qed

lemma oldest_from_spec:
  assumes "oldest_from pick i ss best n = (b, k)"
  shows "k = n + length (filter (holds pick) ss) \<and>
    (b = None \<longleftrightarrow> best = None \<and> filter (holds pick) ss = []) \<and>
    (\<forall>j sq. b = Some (j, sq) \<longrightarrow>
      (best = Some (j, sq) \<or> i \<le> j \<and> j < i + length ss \<and> holds pick (ss ! (j - i)) \<and> sq = hs_sequence (ss ! (j - i))) \<and>
      (\<forall>s\<in>set ss. holds pick s \<longrightarrow> sq \<le> hs_sequence s) \<and> (\<forall>j' sq'. best = Some (j', sq') \<longrightarrow> sq \<le> sq'))"
  using assms
proof (induction pick i ss best n rule: oldest_from.induct)
  case (1 pick i best n)
  then show ?case by auto
next
  case (2 pick i s ss best n)
  define best' where "best' = (case best of None \<Rightarrow> Some (i, hs_sequence s)
      | Some (_, sq) \<Rightarrow> if hs_sequence s < sq then Some (i, hs_sequence s) else best)"
  have shift: "i < j \<Longrightarrow> (s # ss) ! (j - i) = ss ! (j - (i + 1))" for j
    by (simp add: nth_Cons')
  show ?case
  proof (cases "hs_sequence s \<noteq> 0 \<and> pick s")
    case True
    then have run: "oldest_from pick (i + 1) ss best' (n + 1) = (b, k)"
      using "2.prems" by (simp add: best'_def)
    have best': "best' = Some (i, hs_sequence s) \<and> (\<forall>j sq. best = Some (j, sq) \<longrightarrow> hs_sequence s < sq) \<or>
        best' = best \<and> (\<exists>j sq. best = Some (j, sq) \<and> sq \<le> hs_sequence s)"
      by (auto simp: best'_def split: option.splits)
    have h: "holds pick s"
      using True by (simp add: holds_def)
    from "2.IH"(1)[OF True run[unfolded best'_def]] show ?thesis
      unfolding best'_def[symmetric] using best' h shift
      by (auto simp: Suc_le_eq)
  next
    case False
    then have run: "oldest_from pick (i + 1) ss best n = (b, k)" and h: "\<not> holds pick s"
      using "2.prems" by (auto simp: holds_def)
    from "2.IH"(2)[OF False run] show ?thesis
      using h shift by (auto simp: Suc_le_eq)
  qed
qed

text \<open>What is taken out is the oldest of those a test takes, and the test takes one fewer after.\<close>

lemma held_pop_where_None: "held_pop_where pick h = None \<longleftrightarrow> held_number pick h = 0"
proof -
  obtain b k where o': "oldest_from pick 0 (hd_slots h) None 0 = (b, k)"
    by fastforce
  have "b = None \<longleftrightarrow> held_number pick h = 0"
    using oldest_from_spec[OF o'] by (simp add: held_number_def)
  then show ?thesis
    by (cases b) (auto simp: held_pop_where_def oldest_def o' split: prod.splits)
qed

lemma held_pop_where_Some:
  assumes "held_number pick h > 0"
  obtains i where "i < length (hd_slots h)" "holds pick (hd_slots h ! i)"
    "\<forall>s\<in>set (hd_slots h). holds pick s \<longrightarrow> hs_sequence (hd_slots h ! i) \<le> hs_sequence s"
    "held_pop_where pick h = Some (take (hs_len (hd_slots h ! i)) (hs_bytes (hd_slots h ! i)), held_number pick h > 1, snd (held_take i h))"
proof -
  obtain b k where o': "oldest_from pick 0 (hd_slots h) None 0 = (b, k)"
    by fastforce
  note spec = oldest_from_spec[OF o', folded held_number_def]
  then obtain i sq where b: "b = Some (i, sq)"
    using assms by (auto simp: held_number_def)
  with spec have i: "i < length (hd_slots h)" "holds pick (hd_slots h ! i)" "k = held_number pick h"
    "\<forall>s\<in>set (hd_slots h). holds pick s \<longrightarrow> hs_sequence (hd_slots h ! i) \<le> hs_sequence s"
    by auto
  moreover have "held_pop_where pick h =
      Some (take (hs_len (hd_slots h ! i)) (hs_bytes (hd_slots h ! i)), held_number pick h > 1, snd (held_take i h))"
    using i(3) by (simp add: held_pop_where_def oldest_def o' b held_take_def Let_def)
  ultimately show ?thesis
    using that by blast
qed

lemma held_take_number:
  assumes "i < length (hd_slots h)" "hs_sequence (hd_slots h ! i) \<noteq> 0"
  shows "held_number q (snd (held_take i h)) = held_number q h - (if q (hd_slots h ! i) then 1 else 0)"
proof -
  have "\<not> holds q ((hd_slots h ! i)\<lparr>hs_sequence := 0\<rparr>)"
    by (simp add: holds_def)
  with assms show ?thesis
    by (cases "q (hd_slots h ! i)") (simp_all add: held_number_def held_take_def Let_def filter_update_length holds_def)
qed

lemma held_take_wf: "held_wf h \<Longrightarrow> i < length (hd_slots h) \<Longrightarrow> held_wf (snd (held_take i h))"
  by (auto simp: held_wf_def held_take_def Let_def dest!: set_update_subset_insert[THEN subsetD])

lemma held_pop_ok:
  assumes "held_wf h" "held_number pick h > 0"
  shows "\<exists>frame remain h'. held_pop_where pick h = Some (frame, remain, h') \<and> length frame \<le> HELD_FRAME_BYTES \<and> held_wf h' \<and>
    held_number pick h' = held_number pick h - 1"
proof -
  from held_pop_where_Some[OF assms(2)] obtain i where i: "i < length (hd_slots h)" "holds pick (hd_slots h ! i)"
    "held_pop_where pick h = Some (take (hs_len (hd_slots h ! i)) (hs_bytes (hd_slots h ! i)), held_number pick h > 1, snd (held_take i h))"
    by blast
  then show ?thesis
    using held_take_wf[OF assms(1) i(1)] held_take_number[OF i(1), of pick] assms(1) nth_mem[OF i(1)]
    by (auto simp: holds_def held_wf_def)
qed

lemma held_push_wf: "held_wf h \<Longrightarrow> held_wf (snd (held_push frame grp h))"
  by (auto simp: held_wf_def held_push_def Let_def split: option.splits dest!: set_update_subset_insert[THEN subsetD] position_Some)

lemma held_clear_wf: "held_wf h \<Longrightarrow> held_wf (held_clear a h)"
  by (auto simp: held_wf_def held_clear_def)

section \<open>The pool is a queue per station\<close>

text \<open>
  What is held, oldest first. Sequence numbers tell the frames apart while fewer than \<open>2^32\<close> have been held.
\<close>

definition held_queue :: "held \<Rightarrow> held_slot list" where
  "held_queue h = sort_key hs_sequence (filter (\<lambda>s. hs_sequence s \<noteq> 0) (hd_slots h))"

definition slot_frame :: "held_slot \<Rightarrow> bytes \<times> bool" where
  "slot_frame s = (take (hs_len s) (hs_bytes s), hs_group s)"

definition held_ordered :: "held \<Rightarrow> bool" where
  "held_ordered h \<longleftrightarrow> distinct (map hs_sequence (filter (\<lambda>s. hs_sequence s \<noteq> 0) (hd_slots h))) \<and>
     (\<forall>s\<in>set (hd_slots h). hs_sequence s \<noteq> 0 \<longrightarrow> hs_sequence s < hd_next_sequence h \<and> 14 \<le> hs_len s) \<and>
     hd_next_sequence h \<noteq> 0"

definition pool_rel :: "held \<Rightarrow> (bytes \<times> bool) list \<Rightarrow> bool" where
  "pool_rel h q \<longleftrightarrow> held_wf h \<and> held_ordered h \<and> map slot_frame (held_queue h) = q"

lemma held_queue_sorted: "sorted (map hs_sequence (held_queue h))"
  by (simp add: held_queue_def)

lemma held_queue_mset: "mset (held_queue h) = filter_mset (\<lambda>s. hs_sequence s \<noteq> 0) (mset (hd_slots h))"
  by (simp add: held_queue_def)

lemma held_queue_eqI:
  assumes "distinct (map hs_sequence (filter (\<lambda>s. hs_sequence s \<noteq> 0) (hd_slots h)))" "sorted (map hs_sequence q)"
    "mset q = filter_mset (\<lambda>s. hs_sequence s \<noteq> 0) (mset (hd_slots h))"
  shows "held_queue h = q"
  unfolding held_queue_def
proof (rule sort_key_inj_key_eq)
  show "mset (filter (\<lambda>s. hs_sequence s \<noteq> 0) (hd_slots h)) = mset q"
    using assms(3) by simp
  show "inj_on hs_sequence (set (filter (\<lambda>s. hs_sequence s \<noteq> 0) (hd_slots h)))"
    using assms(1) by (simp only: distinct_map)
qed (rule assms(2))

lemma distinct_held_queue: "held_ordered h \<Longrightarrow> distinct (map hs_sequence (held_queue h))"
proof -
  assume "held_ordered h"
  then have "distinct (map hs_sequence (filter (\<lambda>s. hs_sequence s \<noteq> 0) (hd_slots h)))"
    by (simp add: held_ordered_def)
  moreover have "mset (map hs_sequence (held_queue h)) = mset (map hs_sequence (filter (\<lambda>s. hs_sequence s \<noteq> 0) (hd_slots h)))"
    by (simp add: held_queue_mset)
  ultimately show ?thesis
    using mset_eq_imp_distinct_iff by blast
qed

lemma filter_update_split:
  assumes "i < length xs"
  shows "filter P xs = filter P (take i xs) @ filter P [xs ! i] @ filter P (drop (Suc i) xs)"
    "filter P (xs[i := y]) = filter P (take i xs) @ filter P [y] @ filter P (drop (Suc i) xs)"
  using id_take_nth_drop[OF assms] upd_conv_take_nth_drop[OF assms, of y]
  by (metis append_Cons append_Nil filter_append)+

lemma distinct_keys_update:
  assumes "distinct (map f (filter P xs))" "i < length xs" "P y \<longrightarrow> f y \<notin> f ` set (filter P xs)"
  shows "distinct (map f (filter P (xs[i := y])))"
  using assms(1,3) unfolding filter_update_split(1)[OF assms(2), of P] filter_update_split(2)[OF assms(2), of P y] by auto

text \<open>Holding a frame puts it last; taking one out takes the first the test takes.\<close>

lemma held_push_queue:
  assumes "held_wf h" "held_ordered h" "hd_next_sequence h \<noteq> - 1" "held_push frame grp h = (True, h')"
  shows "held_ordered h' \<and> map slot_frame (held_queue h') = map slot_frame (held_queue h) @ [(frame, grp)]"
proof -
  let ?n = "hd_next_sequence h" and ?P = "\<lambda>s. hs_sequence s \<noteq> 0"
  from assms(4) obtain i where len: "14 \<le> length frame" "length frame \<le> HELD_FRAME_BYTES"
    and free: "position (\<lambda>s. hs_sequence s = 0) (hd_slots h) = Some i"
    and h': "h' = h\<lparr>hd_slots := (hd_slots h)[i := (hd_slots h ! i)\<lparr>hs_sequence := ?n, hs_group := grp, hs_len := length frame,
        hs_bytes := write_at (hs_bytes (hd_slots h ! i)) 0 frame\<rparr>], hd_next_sequence := next_sequence ?n,
        hd_groups := hd_groups h + (if grp then 1 else 0)\<rparr>"
    by (auto simp: held_push_def Let_def split: if_splits option.splits)
  define s where "s = (hd_slots h ! i)\<lparr>hs_sequence := ?n, hs_group := grp, hs_len := length frame,
        hs_bytes := write_at (hs_bytes (hd_slots h ! i)) 0 frame\<rparr>"
  have i: "i < length (hd_slots h)" "hs_sequence (hd_slots h ! i) = 0"
    using position_Some[OF free] by auto
  have next_: "next_sequence ?n = ?n + 1" "?n < ?n + 1" "?n + 1 \<noteq> 0"
    using assms(3) by (auto simp: next_sequence_def eq_neg_iff_add_eq_0 word_less_nat_alt unatSuc add.commute[of ?n])
  have ord: "distinct (map hs_sequence (filter ?P (hd_slots h)))" "?n \<noteq> 0"
    "\<And>t. t \<in> set (hd_slots h) \<Longrightarrow> ?P t \<Longrightarrow> hs_sequence t < ?n \<and> 14 \<le> hs_len t"
    using assms(2) by (auto simp: held_ordered_def)
  have slots: "hd_slots h' = (hd_slots h)[i := s]" "hd_next_sequence h' = ?n + 1"
    by (simp_all add: h' s_def next_(1))
  have ord': "distinct (map hs_sequence (filter ?P (hd_slots h')))"
    unfolding slots by (rule distinct_keys_update[OF ord(1) i(1)]) (use ord(3) in \<open>fastforce simp: s_def\<close>)
  have "held_queue h' = held_queue h @ [s]"
  proof (rule held_queue_eqI[OF ord'])
    show "sorted (map hs_sequence (held_queue h @ [s]))"
      using held_queue_sorted[of h] ord(3)
      by (auto simp: sorted_append held_queue_def s_def intro: order.strict_implies_order)
    have "mset (hd_slots h') = add_mset s (mset (hd_slots h) - {#hd_slots h ! i#})"
      by (simp add: slots mset_update i(1))
    moreover have "filter_mset ?P (mset (hd_slots h) - {#hd_slots h ! i#}) = filter_mset ?P (mset (hd_slots h))"
      using i by (simp add: filter_diff_mset)
    ultimately show "mset (held_queue h @ [s]) = filter_mset ?P (mset (hd_slots h'))"
      using ord(2) by (simp add: held_queue_mset s_def)
  qed
  moreover have "slot_frame s = (frame, grp)"
    by (simp add: slot_frame_def s_def write_at_0)
  moreover have "held_ordered h'"
    using ord' ord(3) next_ len(1) unfolding held_ordered_def slots
    by (auto dest!: set_update_subset_insert[THEN subsetD] simp: s_def intro: order.strict_trans)
  ultimately show ?thesis
    by simp
qed

lemma extract_first:
  assumes "distinct (map f q)" "sorted (map f q)" "x \<in> set q" "P x" "\<forall>y\<in>set q. P y \<longrightarrow> f x \<le> f y"
  shows "\<exists>ys zs. List.extract P q = Some (ys, x, zs)"
proof -
  obtain ys y zs where e: "List.extract P q = Some (ys, y, zs)"
    using assms(3,4) by (cases "List.extract P q") (auto simp: extract_None_iff)
  then have q: "q = ys @ y # zs" "P y" "\<forall>z\<in>set ys. \<not> P z"
    by (auto simp: extract_Some_iff)
  have "x = y"
  proof (rule ccontr)
    assume "x \<noteq> y"
    then have "x \<in> set zs"
      using assms(3,4) q by auto
    then have "f y \<le> f x" "f x \<noteq> f y"
      using assms(1,2) q(1) by (auto simp: sorted_append) (metis image_eqI)
    moreover have "f x \<le> f y"
      using assms(5) q by simp
    ultimately show False
      by simp
  qed
  with e show ?thesis
    by blast
qed

lemma held_pop_queue:
  assumes "held_ordered h" "held_pop_where pick h = Some (frame, remain, h')"
  shows "held_ordered h' \<and> hd_next_sequence h' = hd_next_sequence h \<and>
    (\<exists>ys s zs. List.extract pick (held_queue h) = Some (ys, s, zs) \<and> frame = fst (slot_frame s) \<and>
      held_queue h' = ys @ zs \<and> (remain \<longleftrightarrow> (\<exists>t\<in>set zs. pick t)))"
proof -
  let ?P = "\<lambda>s. hs_sequence s \<noteq> 0"
  have "held_number pick h > 0"
    using assms(2) held_pop_where_None[of pick h] by (cases "held_number pick h") auto
  from held_pop_where_Some[OF this] obtain i where i: "i < length (hd_slots h)" "holds pick (hd_slots h ! i)"
    "\<forall>s\<in>set (hd_slots h). holds pick s \<longrightarrow> hs_sequence (hd_slots h ! i) \<le> hs_sequence s"
    "held_pop_where pick h = Some (take (hs_len (hd_slots h ! i)) (hs_bytes (hd_slots h ! i)), held_number pick h > 1, snd (held_take i h))"
    by blast
  define s where "s = hd_slots h ! i"
  have out: "frame = fst (slot_frame s)" "remain = (held_number pick h > 1)" "h' = snd (held_take i h)"
    using assms(2) i(4) by (simp_all add: s_def slot_frame_def)
  have slots: "hd_slots h' = (hd_slots h)[i := s\<lparr>hs_sequence := 0\<rparr>]" "hd_next_sequence h' = hd_next_sequence h"
    by (simp_all add: out(3) held_take_def Let_def s_def)
  have ord: "distinct (map hs_sequence (filter ?P (hd_slots h)))"
    using assms(1) by (simp add: held_ordered_def)
  have ord': "distinct (map hs_sequence (filter ?P (hd_slots h')))"
    unfolding slots by (rule distinct_keys_update[OF ord i(1)]) simp
  have setq: "set (held_queue h) = {t \<in> set (hd_slots h). ?P t}"
    by (simp add: held_queue_def)
  have s: "s \<in> set (held_queue h)" "pick s" "?P s"
    using i(1,2) by (auto simp: setq s_def holds_def)
  obtain ys zs where e: "List.extract pick (held_queue h) = Some (ys, s, zs)"
    using extract_first[of hs_sequence "held_queue h" s pick, OF distinct_held_queue[OF assms(1)] held_queue_sorted s(1,2)] i(3) by (auto simp: setq holds_def s_def)
  then have q: "held_queue h = ys @ s # zs" "\<forall>t\<in>set ys. \<not> pick t"
    by (auto simp: extract_Some_iff)
  have "held_queue h' = ys @ zs"
  proof (rule held_queue_eqI[OF ord'])
    show "sorted (map hs_sequence (ys @ zs))"
      using held_queue_sorted[of h] by (simp add: q(1) sorted_append)
    have "mset (hd_slots h') = add_mset (s\<lparr>hs_sequence := 0\<rparr>) (mset (hd_slots h) - {#s#})"
      using i(1) by (simp add: slots mset_update s_def)
    then have "filter_mset ?P (mset (hd_slots h')) = filter_mset ?P (mset (hd_slots h)) - {#s#}"
      using s(3) by (simp add: filter_diff_mset)
    also have "\<dots> = mset (ys @ zs)"
      by (simp add: held_queue_mset[symmetric] q(1))
    finally show "mset (ys @ zs) = filter_mset ?P (mset (hd_slots h'))"
      by simp
  qed
  moreover have "held_number pick h = Suc (length (filter pick zs))"
  proof -
    have "held_number pick h = size (filter_mset pick (mset (held_queue h)))"
      unfolding held_queue_mset held_number_def holds_def[abs_def]
      by (simp add: filter_filter_mset conj_commute size_mset[symmetric] del: size_mset)
    also have "\<dots> = Suc (length (filter pick zs))"
      using s(2) q(2) by (simp add: q(1) filter_empty_conv[THEN iffD2] flip: mset_filter)
    finally show ?thesis .
  qed
  then have "remain \<longleftrightarrow> (\<exists>t\<in>set zs. pick t)"
    by (auto simp: out(2) filter_empty_conv)
  moreover have "held_ordered h'"
    using ord' assms(1) unfolding held_ordered_def slots
    by (auto dest!: set_update_subset_insert[THEN subsetD])
  ultimately show ?thesis
    using e out(1) slots(2) by blast
qed

text \<open>The promise: one queue of frames, at most eight, each test taking its first.\<close>

datatype pool_op = Hold bytes bool | Release bytes | ReleaseGroup

datatype pool_out = Accepted bool | Taken bytes bool | NothingHeld

definition pool_take :: "(bytes \<times> bool \<Rightarrow> bool) \<Rightarrow> (bytes \<times> bool) list \<Rightarrow> pool_out \<times> (bytes \<times> bool) list" where
  "pool_take P q =
     (case List.extract P q of None \<Rightarrow> (NothingHeld, q)
      | Some (ys, x, zs) \<Rightarrow> (Taken (fst x) (\<exists>t\<in>set zs. P t), ys @ zs))"

fun pool_do :: "pool_op \<Rightarrow> (bytes \<times> bool) list \<Rightarrow> pool_out \<times> (bytes \<times> bool) list" where
  "pool_do (Hold frame grp) q =
     (if 14 \<le> length frame \<and> length frame \<le> HELD_FRAME_BYTES \<and> length q < HELD_FRAMES
      then (Accepted True, q @ [(frame, grp)]) else (Accepted False, q))"
| "pool_do (Release a) q = pool_take (\<lambda>(frame, grp). \<not> grp \<and> take 6 frame = a) q"
| "pool_do ReleaseGroup q = pool_take snd q"

definition taken :: "held \<Rightarrow> (bytes \<times> bool \<times> held) option \<Rightarrow> pool_out \<times> held" where
  "taken h r = (case r of None \<Rightarrow> (NothingHeld, h) | Some (frame, remain, h') \<Rightarrow> (Taken frame remain, h'))"

fun held_do :: "pool_op \<Rightarrow> held \<Rightarrow> pool_out \<times> held" where
  "held_do (Hold frame grp) h = (case held_push frame grp h of (ok, h') \<Rightarrow> (Accepted ok, h'))"
| "held_do (Release a) h = taken h (held_pop a h)"
| "held_do ReleaseGroup h = taken h (held_pop_group h)"

fun pool_outs :: "('s \<Rightarrow> pool_op \<Rightarrow> pool_out \<times> 's) \<Rightarrow> 's \<Rightarrow> pool_op list \<Rightarrow> pool_out list" where
  "pool_outs step s [] = []"
| "pool_outs step s (x # xs) = (case step s x of (out, s) \<Rightarrow> out # pool_outs step s xs)"

lemma length_held_queue: "length (held_queue h) = length (filter (\<lambda>s. hs_sequence s \<noteq> 0) (hd_slots h))"
  by (simp add: held_queue_def)

lemma held_push_accepts:
  assumes "held_wf h"
  shows "fst (held_push frame grp h) \<longleftrightarrow>
    14 \<le> length frame \<and> length frame \<le> HELD_FRAME_BYTES \<and> length (held_queue h) < HELD_FRAMES"
proof -
  have "position (\<lambda>s. hs_sequence s = 0) (hd_slots h) = None \<longleftrightarrow> (\<forall>s\<in>set (hd_slots h). hs_sequence s \<noteq> 0)"
    by (simp add: position_None)
  also have "\<dots> \<longleftrightarrow> \<not> length (filter (\<lambda>s. hs_sequence s \<noteq> 0) (hd_slots h)) < length (hd_slots h)"
    using length_filter_less[of _ "hd_slots h" "\<lambda>s. hs_sequence s \<noteq> 0"] by (auto simp: filter_id_conv[THEN iffD2])
  finally show ?thesis
    using assms unfolding length_held_queue held_wf_def by (auto simp: held_push_def Let_def split: option.splits)
qed

lemma held_push_refused: "\<not> fst (held_push frame grp h) \<Longrightarrow> held_push frame grp h = (False, h)"
  by (auto simp: held_push_def Let_def split: option.splits if_splits)

lemma extract_map:
  assumes "List.extract pick q = Some (ys, s, zs)" "\<forall>s\<in>set q. pick s \<longleftrightarrow> P (f s)"
  shows "List.extract P (map f q) = Some (map f ys, f s, map f zs)"
  using assms by (auto simp: extract_Some_iff)

lemma held_take_refines:
  assumes "pool_rel h q" "\<forall>s\<in>set (held_queue h). pick s \<longleftrightarrow> P (slot_frame s)"
  shows "\<exists>h' q'. taken h (held_pop_where pick h) = (fst (pool_take P q), h') \<and> snd (pool_take P q) = q' \<and> pool_rel h' q' \<and>
    hd_next_sequence h' = hd_next_sequence h"
proof -
  from assms(1) have wf: "held_wf h" and ord: "held_ordered h" and q: "q = map slot_frame (held_queue h)"
    by (auto simp: pool_rel_def)
  show ?thesis
  proof (cases "held_pop_where pick h")
    case None
    then have "filter (holds pick) (hd_slots h) = []"
      by (simp add: held_pop_where_None held_number_def)
    then have "\<forall>s\<in>set (held_queue h). \<not> pick s"
      by (auto simp: held_queue_def holds_def filter_empty_conv)
    then have "List.extract P q = None"
      using assms(2) by (auto simp: q extract_None_iff)
    with None assms(1) show ?thesis
      by (simp add: taken_def pool_take_def)
  next
    case (Some r)
    then obtain frame remain h' where pop: "held_pop_where pick h = Some (frame, remain, h')"
      by (metis prod_cases3)
    from held_pop_queue[OF ord pop] obtain ys s zs where ord': "held_ordered h'" "hd_next_sequence h' = hd_next_sequence h" and
      e: "List.extract pick (held_queue h) = Some (ys, s, zs)" and out: "frame = fst (slot_frame s)" "held_queue h' = ys @ zs"
      "remain \<longleftrightarrow> (\<exists>t\<in>set zs. pick t)"
      by blast
    have "set zs \<subseteq> set (held_queue h)"
      using e by (auto simp: extract_Some_iff)
    then have "remain \<longleftrightarrow> (\<exists>t\<in>set (map slot_frame zs). P t)"
      using out(3) assms(2) by auto
    moreover have "held_number pick h > 0"
      using pop held_pop_where_None[of pick h] by (cases "held_number pick h") auto
    from held_pop_ok[OF wf this] have "held_wf h'"
      using pop by auto
    ultimately show ?thesis
      using extract_map[OF e, of P slot_frame] assms(2) ord' out by (simp add: taken_def pop pool_take_def q pool_rel_def)
  qed
qed

lemma held_do_refines:
  assumes "pool_rel h q" "hd_next_sequence h \<noteq> - 1"
  shows "\<exists>h'. held_do x h = (fst (pool_do x q), h') \<and> pool_rel h' (snd (pool_do x q)) \<and>
    unat (hd_next_sequence h') \<le> Suc (unat (hd_next_sequence h))"
proof (cases x)
  case (Hold frame grp)
  obtain ok h' where push: "held_push frame grp h = (ok, h')"
    by fastforce
  have ok: "ok \<longleftrightarrow> 14 \<le> length frame \<and> length frame \<le> HELD_FRAME_BYTES \<and> length q < HELD_FRAMES"
    using held_push_accepts[of h frame grp] push assms(1) by (auto simp: pool_rel_def)
  have next_: "unat (next_sequence (hd_next_sequence h)) \<le> Suc (unat (hd_next_sequence h))"
    by (auto simp: next_sequence_def unatSuc add.commute)
  show ?thesis
  proof (cases ok)
    case True
    have "hd_next_sequence h' = next_sequence (hd_next_sequence h)"
      using push True by (auto simp: held_push_def Let_def split: if_splits option.splits)
    then show ?thesis
      using held_push_queue[of h frame grp h'] held_push_wf[of h frame grp] push True ok assms next_ Hold by (auto simp: pool_rel_def)
  next
    case False
    then have "h' = h"
      using held_push_refused[of frame grp h] push by simp
    with False ok push assms Hold show ?thesis
      by auto
  qed
next
  case (Release a)
  have "\<forall>s\<in>set (held_queue h). held_for a s \<longleftrightarrow> (\<lambda>(frame, grp). \<not> grp \<and> take 6 frame = a) (slot_frame s)"
    using assms(1) by (auto simp: pool_rel_def held_ordered_def held_queue_def held_for_def slot_frame_def hs_destination_def)
  from held_take_refines[OF assms(1) this] Release show ?thesis
    by (auto simp: held_pop_def)
next
  case ReleaseGroup
  from held_take_refines[OF assms(1), of hs_group snd] ReleaseGroup show ?thesis
    by (auto simp: held_pop_group_def slot_frame_def)
qed

lemma pool_rel_new: "pool_rel held_new []"
  using held_new_wf by (auto simp: pool_rel_def held_ordered_def held_queue_def held_new_def held_slot_empty_def)

text \<open>C14: The eight slots and their sequence numbers are one queue: over any fewer than \<open>2^32 - 1\<close> operations, what is accepted,
  what a station or the group is handed, and whether it is told more remains, are those of a list of at most eight
  frames in the order they came, each request taking the oldest frame that is for it.\<close>

theorem held_pool_is_a_queue:
  assumes "length xs < 2 ^ 32 - 1"
  shows "pool_outs (\<lambda>h x. held_do x h) held_new xs = pool_outs (\<lambda>q x. pool_do x q) [] xs"
proof -
  have "pool_rel h q \<Longrightarrow> unat (hd_next_sequence h) + length xs < 2 ^ 32 \<Longrightarrow>
      pool_outs (\<lambda>h x. held_do x h) h xs = pool_outs (\<lambda>q x. pool_do x q) q xs" for h q
  proof (induction xs arbitrary: h q)
    case Nil
    then show ?case by simp
  next
    case (Cons x xs)
    have "hd_next_sequence h \<noteq> - 1"
      using Cons.prems(2) by (auto simp: unat_minus_1)
    from held_do_refines[OF Cons.prems(1) this, of x] obtain h' where
      "held_do x h = (fst (pool_do x q), h')" "pool_rel h' (snd (pool_do x q))"
      "unat (hd_next_sequence h') \<le> Suc (unat (hd_next_sequence h))"
      by blast
    with Cons show ?case
      by (simp add: case_prod_unfold)
  qed
  from this[OF pool_rel_new] assms show ?thesis
    by (simp add: held_new_def)
qed

theorem held_pool_is_a_queue_witness:
  "pool_outs (\<lambda>h x. held_do x h) held_new [Hold (replicate 14 2) False, Hold (replicate 15 2) False, Release (replicate 6 2)] =
     [Accepted True, Accepted True, Taken (replicate 14 2) True]"
proof -
  let ?xs = "[Hold (replicate 14 2) False, Hold (replicate 15 2) False, Release (replicate 6 2)]"
  have "pool_outs (\<lambda>q x. pool_do x q) [] ?xs = [Accepted True, Accepted True, Taken (replicate 14 2) True]"
    by code_simp
  with held_pool_is_a_queue[of ?xs] show ?thesis
    by simp
qed

end
