(* ===== verification/Ap_Frames.thy ===== *)
theory Ap_Frames
  imports Ap_Core "HOL-Library.Monad_Syntax"
begin

text \<open>
  The management frames the access point lays out (\<open>vendor/open-mac/ap_core/src/frames.rs\<close>, and the WMM and HT
  elements of \<open>qos.rs\<close>): each into a buffer, with its length, or \<open>None\<close> when the buffer is too short.
\<close>

section \<open>Elements\<close>

record bss =
  bs_bssid :: bytes
  bs_ssid :: bytes
  bs_channel :: u8
  bs_interval_tu :: u16
  bs_protected :: bool
  bs_ht :: bool

definition BROADCAST :: bytes where "BROADCAST = replicate 6 0xff"

definition ID_SSID :: u8 where "ID_SSID = 0"
definition ID_SUPPORTED_RATES :: u8 where "ID_SUPPORTED_RATES = 1"
definition ID_DSSS :: u8 where "ID_DSSS = 3"
definition ID_TIM :: u8 where "ID_TIM = 5"
definition ID_ERP :: u8 where "ID_ERP = 42"
definition ID_RSN :: u8 where "ID_RSN = 48"
definition ID_EXTENDED_RATES :: u8 where "ID_EXTENDED_RATES = 50"

definition SUPPORTED_RATES :: bytes where "SUPPORTED_RATES = [0x82, 0x84, 0x8b, 0x96, 0x0c, 0x12, 0x18, 0x24]"
definition EXTENDED_RATES :: bytes where "EXTENDED_RATES = [0x30, 0x48, 0x60, 0x6c]"

definition RSN_ELEMENT :: bytes where
  "RSN_ELEMENT = [ID_RSN, 20, 1, 0, 0x00, 0x0f, 0xac, 4, 1, 0, 0x00, 0x0f, 0xac, 4, 1, 0, 0x00, 0x0f, 0xac, 2, 0, 0]"

definition ac_record :: "u8 \<Rightarrow> u8 \<Rightarrow> u8 \<Rightarrow> u8 \<Rightarrow> u16 \<Rightarrow> bytes" where
  "ac_record aci aifsn ecw_min ecw_max txop =
     [push_bit 5 aci OR (aifsn AND 0xf), push_bit 4 ecw_max OR (ecw_min AND 0xf)] @ le_bytes 2 txop"

definition WMM_PARAMETER_ELEMENT :: bytes where
  "WMM_PARAMETER_ELEMENT =
     [221, 24, 0x00, 0x50, 0xf2, 0x02, 0x01, 0x01, 0x00, 0x00] @
     ac_record 0 3 4 10 0 @ ac_record 1 7 4 10 0 @ ac_record 2 2 3 4 94 @ ac_record 3 2 2 3 47"

definition HT_CAPABILITIES_ELEMENT :: bytes where
  "HT_CAPABILITIES_ELEMENT =
     [45, 26, 0x2c, 0x00, 0x00, 0xff, 0x00, 0x00, 0x00, 0x00, 0x00, 0x00, 0x00, 0x00, 0x00, 0x00, 0x00, 0x01,
      0x00, 0x00, 0x00, 0x00, 0x00, 0x00, 0x00, 0x00, 0x00, 0x00]"

definition ht_operation_element :: "u8 \<Rightarrow> bytes" where
  "ht_operation_element channel = [61, 22, channel, 0x00, 0x04] @ replicate 19 0"

definition capabilities :: "bool \<Rightarrow> u16" where
  "capabilities protected = 1 OR (if protected then push_bit 4 1 else 0)"

section \<open>The writer\<close>

text \<open>A buffer and how much of it is written. Each write checks its room once.\<close>

type_synonym frame_writer = "bytes \<times> nat"

definition write_bytes :: "bytes \<Rightarrow> frame_writer \<Rightarrow> frame_writer option" where
  "write_bytes b = (\<lambda>(out, k). if k + length b \<le> length out then Some (write_at out k b, k + length b) else None)"

definition write_u16 :: "u16 \<Rightarrow> frame_writer \<Rightarrow> frame_writer option" where
  "write_u16 v = write_bytes (le_bytes 2 v)"

definition write_fixed_fields :: "u16 \<Rightarrow> u16 \<Rightarrow> frame_writer \<Rightarrow> frame_writer option" where
  "write_fixed_fields beacon_interval_tu caps = write_bytes (replicate 8 0 @ le_bytes 2 beacon_interval_tu @ le_bytes 2 caps)"

definition write_element :: "u8 \<Rightarrow> bytes \<Rightarrow> frame_writer \<Rightarrow> frame_writer option" where
  "write_element ident body w =
     (if length body > 255 then None else write_bytes (ident # of_nat (length body) # body) w)"

definition write_ht :: "bss \<Rightarrow> frame_writer \<Rightarrow> frame_writer option" where
  "write_ht bss w =
     (if bs_ht bss then write_bytes (HT_CAPABILITIES_ELEMENT @ ht_operation_element (bs_channel bss) @ WMM_PARAMETER_ELEMENT) w
      else Some w)"

definition write_header :: "u8 \<Rightarrow> bytes \<Rightarrow> bytes \<Rightarrow> frame_writer \<Rightarrow> frame_writer option" where
  "write_header subtype dest bssid = write_bytes ([push_bit 4 subtype, 0, 0, 0] @ dest @ bssid @ bssid @ [0, 0])"

definition write_rsn :: "bool \<Rightarrow> frame_writer \<Rightarrow> frame_writer option" where
  "write_rsn protected w = (if protected then write_bytes RSN_ELEMENT w else Some w)"

section \<open>The frames\<close>

record beacon_template =
  bt_len :: nat
  bt_timestamp_at :: nat
  bt_tim_at :: nat

text \<open>\<open>tim.buffered_aids & !1\<close>, two octets, low first.\<close>

definition tim_body :: "tim \<Rightarrow> bytes" where
  "tim_body tim = [tim_dtim_count tim, tim_dtim_period tim, if tim_group_buffered tim then 1 else 0] @
     le_bytes 2 (tim_buffered_aids tim AND NOT 1)"

definition frame_beacon :: "bytes \<Rightarrow> bss \<Rightarrow> tim \<Rightarrow> (bytes \<times> beacon_template) option" where
  "frame_beacon out bss tim =
     do {
       w \<leftarrow> write_header 8 BROADCAST (bs_bssid bss) (out, 0);
       let timestamp_at = snd w;
       w \<leftarrow> write_fixed_fields (bs_interval_tu bss) (capabilities (bs_protected bss)) w;
       w \<leftarrow> write_element ID_SSID (bs_ssid bss) w;
       w \<leftarrow> write_element ID_SUPPORTED_RATES SUPPORTED_RATES w;
       w \<leftarrow> write_element ID_DSSS [bs_channel bss] w;
       let tim_at = snd w;
       w \<leftarrow> write_element ID_TIM (tim_body tim) w;
       w \<leftarrow> write_element ID_ERP [0] w;
       w \<leftarrow> write_element ID_EXTENDED_RATES EXTENDED_RATES w;
       w \<leftarrow> write_rsn (bs_protected bss) w;
       w \<leftarrow> write_ht bss w;
       Some (fst w, \<lparr>bt_len = snd w, bt_timestamp_at = timestamp_at, bt_tim_at = tim_at\<rparr>)
     }"

definition frame_set_tim :: "bytes \<Rightarrow> nat \<Rightarrow> tim \<Rightarrow> bytes option" where
  "frame_set_tim frame tim_at tim =
     (if tim_at + 7 \<le> length frame then Some (write_at frame (tim_at + 2) (tim_body tim)) else None)"

definition frame_set_receiver :: "bytes \<Rightarrow> bytes \<Rightarrow> bytes option" where
  "frame_set_receiver frame dest = (if 10 \<le> length frame then Some (write_at frame 4 dest) else None)"

definition frame_probe_response :: "bytes \<Rightarrow> bss \<Rightarrow> bytes \<Rightarrow> (bytes \<times> nat) option" where
  "frame_probe_response out bss dest =
     do {
       w \<leftarrow> write_header 5 dest (bs_bssid bss) (out, 0);
       w \<leftarrow> write_fixed_fields (bs_interval_tu bss) (capabilities (bs_protected bss)) w;
       w \<leftarrow> write_element ID_SSID (bs_ssid bss) w;
       w \<leftarrow> write_element ID_SUPPORTED_RATES SUPPORTED_RATES w;
       w \<leftarrow> write_element ID_DSSS [bs_channel bss] w;
       w \<leftarrow> write_element ID_ERP [0] w;
       w \<leftarrow> write_element ID_EXTENDED_RATES EXTENDED_RATES w;
       w \<leftarrow> write_rsn (bs_protected bss) w;
       write_ht bss w
     }"

definition frame_authentication :: "bytes \<Rightarrow> bytes \<Rightarrow> u16 \<Rightarrow> bytes \<Rightarrow> (bytes \<times> nat) option" where
  "frame_authentication bssid dest status out =
     do {
       w \<leftarrow> write_header 11 dest bssid (out, 0);
       w \<leftarrow> write_u16 0 w;
       w \<leftarrow> write_u16 2 w;
       write_u16 status w
     }"

definition frame_association_response :: "bss \<Rightarrow> bytes \<Rightarrow> u16 \<Rightarrow> u16 \<Rightarrow> bool \<Rightarrow> bytes \<Rightarrow> (bytes \<times> nat) option" where
  "frame_association_response bss dest status aid reassociation out =
     do {
       w \<leftarrow> write_header (if reassociation then 3 else 1) dest (bs_bssid bss) (out, 0);
       w \<leftarrow> write_u16 (capabilities (bs_protected bss)) w;
       w \<leftarrow> write_u16 status w;
       w \<leftarrow> write_u16 (if status = SUCCESS then aid OR 0xc000 else 0) w;
       w \<leftarrow> write_element ID_SUPPORTED_RATES SUPPORTED_RATES w;
       w \<leftarrow> write_element ID_EXTENDED_RATES EXTENDED_RATES w;
       write_ht bss w
     }"

definition frame_deauthentication :: "bytes \<Rightarrow> bytes \<Rightarrow> u16 \<Rightarrow> bytes \<Rightarrow> (bytes \<times> nat) option" where
  "frame_deauthentication bssid dest reason out =
     do {
       w \<leftarrow> write_header 12 dest bssid (out, 0);
       write_u16 reason w
     }"

section \<open>What fits\<close>

lemma write_bytes_fits: "k + length b \<le> length out \<Longrightarrow> write_bytes b (out, k) = Some (write_at out k b, k + length b)"
  by (simp add: write_bytes_def)

lemmas element_defs = RSN_ELEMENT_def HT_CAPABILITIES_ELEMENT_def ht_operation_element_def WMM_PARAMETER_ELEMENT_def
  ac_record_def SUPPORTED_RATES_def EXTENDED_RATES_def BROADCAST_def

lemma length_frame_consts:
  "length RSN_ELEMENT = 22" "length HT_CAPABILITIES_ELEMENT = 28" "length (ht_operation_element c) = 24"
  "length WMM_PARAMETER_ELEMENT = 26" "length SUPPORTED_RATES = 8" "length EXTENDED_RATES = 4" "length BROADCAST = 6"
  "length (tim_body t) = 5"
  by (simp_all add: element_defs tim_body_def)

lemmas writer_defs = write_header_def write_fixed_fields_def write_element_def write_rsn_def write_ht_def

text \<open>A name of at most 32 bytes: the probe response fits the 256 bytes kept for it, the beacon its 512.\<close>

lemma probe_response_fits:
  assumes "length (bs_bssid bss) = 6" "length (bs_ssid bss) \<le> 32" "length out = 256"
  shows "\<exists>out' n. frame_probe_response out bss BROADCAST = Some (out', n) \<and> length out' = 256 \<and> 32 \<le> n \<and> n \<le> 256"
  using assms by (simp add: frame_probe_response_def writer_defs write_bytes_fits length_frame_consts)

lemma beacon_fits:
  assumes "length (bs_bssid bss) = 6" "length (bs_ssid bss) \<le> 32" "length out = 512"
  shows "\<exists>out' t. frame_beacon out bss tim = Some (out', t) \<and> length out' = 512 \<and> bt_len t \<le> 512 \<and>
    bt_timestamp_at t + 8 \<le> bt_len t \<and> bt_tim_at t + 7 \<le> bt_len t"
  using assms by (simp add: frame_beacon_def writer_defs write_bytes_fits length_frame_consts)

lemma length_set_tim: "frame_set_tim frame k tim = Some frame' \<Longrightarrow> length frame' = length frame"
  by (auto simp: frame_set_tim_def length_frame_consts split: if_splits)

end
