(* ===== verification/Ap_State.thy ===== *)
theory Ap_State
  imports Ap_Frames
begin

text \<open>
  The access point's state (\<open>crates/rusty_esp_signal-open/src/access_point/mod.rs\<close>): the rate ladder, a station's
  security association, the access point, and the headers of its data frames. What other crates answer (the EAPOL
  frames, CCMP, the request parser) and what the radio, the clock and the random generator answer is the record
  \<open>ap_world\<close>; each question to the radio takes the next answer, so a run is a function of the world.
\<close>

section \<open>The rate ladder\<close>

datatype ofdm_rate = Mbits6 | Mbits9 | Mbits12 | Mbits18 | Mbits24 | Mbits36 | Mbits48 | Mbits54

datatype tx_phy_rate = HrDsss u8 | Ofdm ofdm_rate | Ht u8 bool

record ladder =
  la_rung :: u8
  la_top :: u8
  la_short_gi :: bool
  la_streak :: u8

definition LADDER_LEGACY :: "ofdm_rate list" where
  "LADDER_LEGACY = [Mbits6, Mbits12, Mbits24, Mbits36, Mbits54]"
definition LADDER_DSSS :: u8 where "LADDER_DSSS = 2"
definition LADDER_START :: u8 where "LADDER_START = LADDER_DSSS + 2"

definition hr_dsss_new :: "u8 \<Rightarrow> u8 option" where
  "hr_dsss_new rate = (if rate > 3 then None else Some rate)"

definition ht_rate_new :: "u8 \<Rightarrow> bool \<Rightarrow> (u8 \<times> bool) option" where
  "ht_rate_new mcs short_gi = (if mcs \<le> 7 then Some (mcs, short_gi) else None)"

definition ladder_new :: "ht_capabilities option \<Rightarrow> ladder" where
  "ladder_new ht =
     (let legacy = LADDER_DSSS + of_nat (length LADDER_LEGACY);
          (top, short_gi) =
            (case Option.bind ht (\<lambda>h. map_option (\<lambda>m. (m, ht_short_gi_20 h)) (highest_mcs h)) of
               Some (mcs, sgi) \<Rightarrow> (legacy + mcs, sgi)
             | None \<Rightarrow> (legacy - 1, False))
      in \<lparr>la_rung = min LADDER_START top, la_top = top, la_short_gi = short_gi, la_streak = 0\<rparr>)"

definition ladder_rate :: "ladder \<Rightarrow> tx_phy_rate" where
  "ladder_rate l =
     (let legacy = LADDER_DSSS + of_nat (length LADDER_LEGACY)
      in if la_rung l < LADDER_DSSS
         then case hr_dsss_new (la_rung l) of Some dsss \<Rightarrow> HrDsss dsss | None \<Rightarrow> Ofdm Mbits6
         else if la_rung l < legacy then Ofdm (LADDER_LEGACY ! unat (la_rung l - LADDER_DSSS))
         else case ht_rate_new (la_rung l - legacy) (la_short_gi l) of
             Some (mcs, sgi) \<Rightarrow> Ht mcs sgi
           | None \<Rightarrow> Ofdm Mbits24)"

definition ladder_acknowledged :: "ladder \<Rightarrow> ladder \<times> bool" where
  "ladder_acknowledged l =
     (let l = l\<lparr>la_streak := sat_add (la_streak l) 1\<rparr>
      in if la_streak l \<ge> 8 \<and> la_rung l < la_top l
         then (l\<lparr>la_rung := la_rung l + 1, la_streak := 0\<rparr>, True) else (l, False))"

definition ladder_lost :: "ladder \<Rightarrow> ladder \<times> bool" where
  "ladder_lost l =
     (let l = l\<lparr>la_streak := 0\<rparr>
      in if la_rung l > 0 then (l\<lparr>la_rung := la_rung l - 1\<rparr>, True) else (l, False))"

section \<open>A station's security association\<close>

datatype stage = SentMessage1 | SentMessage3 | Done | SentGroupMessage1

record 'k authenticator =
  au_anonce :: bytes
  au_replay_counter :: u64
  au_keys :: "'k option"

definition authenticator_new :: "bytes \<Rightarrow> 'k authenticator" where
  "authenticator_new anonce = \<lparr>au_anonce = anonce, au_replay_counter = 0, au_keys = None\<rparr>"

definition auth_replay :: "bool \<Rightarrow> 'k authenticator \<Rightarrow> u64 \<times> 'k authenticator" where
  "auth_replay fresh au =
     (if fresh then (au_replay_counter au + 1, au\<lparr>au_replay_counter := au_replay_counter au + 1\<rparr>)
      else (au_replay_counter au, au))"

record 'k ap_peer =
  pe_address :: bytes
  pe_auth :: "'k authenticator"
  pe_stage :: stage
  pe_sent_at :: u64
  pe_resends :: u8
  pe_key_slot :: "nat option"
  pe_tx_pn :: u64
  pe_rx :: rx_window
  pe_group_key_wanted :: bool
  pe_qos :: bool
  pe_ladder :: ladder

definition peer_new :: "bytes \<Rightarrow> bytes \<Rightarrow> stage \<Rightarrow> u64 \<Rightarrow> 'k ap_peer" where
  "peer_new a anonce stage tx_pn =
     \<lparr>pe_address = a, pe_auth = authenticator_new anonce, pe_stage = stage, pe_sent_at = 0, pe_resends = 0,
      pe_key_slot = None, pe_tx_pn = tx_pn, pe_rx = rx_window_new, pe_group_key_wanted = False, pe_qos = False,
      pe_ladder = ladder_new None\<rparr>"

record group_key =
  gk_key :: bytes
  gk_key_id :: u8
  gk_rsc :: u64
  gk_replay_counter :: u64

definition new_group_key :: "bytes \<Rightarrow> u8 \<Rightarrow> group_key" where
  "new_group_key random key_id = \<lparr>gk_key = random, gk_key_id = key_id, gk_rsc = 0, gk_replay_counter = 0\<rparr>"

section \<open>What the access point is told, and what it does\<close>

datatype ap_request =
    Probe bytes "bytes option"
  | Authentication bytes u16 u16
  | Association bytes "bytes option" "bytes option" bool bool "ht_capabilities option"
  | Deauthentication bytes u16
  | Disassociation bytes u16

datatype refusal = RFrame | RMic | RKeyInformation | RReplay | RRsnMismatch | RBuffer

datatype access_category = BestEffort | Background

datatype retry_behaviour = RetryDrop | RetryUntil nat

record tx_parameters =
  tx_rate :: tx_phy_rate
  tx_key_slot :: "nat option"
  tx_wait_for_ack :: bool
  tx_retry :: retry_behaviour

datatype ap_effect =
    Air access_category bytes tx_parameters
  | AirBeacon bytes
  | ToStack bytes
  | SetPairwiseKey nat bytes bytes
  | SetGroupKey nat u8 bytes
  | SyncStamp u64

text \<open>The counters, by the names of the code's statics.\<close>

type_synonym ap_stat = string

record 'k ap_world =
  w_tk :: "'k \<Rightarrow> bytes"
  w_message_1 :: "nat \<Rightarrow> bytes \<Rightarrow> bytes \<Rightarrow> bytes \<Rightarrow> u64 \<Rightarrow> bytes option"
  w_message_3 :: "nat \<Rightarrow> bytes \<Rightarrow> bytes \<Rightarrow> 'k \<Rightarrow> bytes \<Rightarrow> u64 \<Rightarrow> group_key \<Rightarrow> bytes option"
  w_group_message_1 :: "nat \<Rightarrow> bytes \<Rightarrow> bytes \<Rightarrow> 'k \<Rightarrow> u64 \<Rightarrow> group_key \<Rightarrow> u64 \<Rightarrow> bytes option"
  w_read_message_2 :: "bytes \<Rightarrow> bytes \<Rightarrow> bytes \<Rightarrow> bytes \<Rightarrow> bytes \<Rightarrow> u64 \<Rightarrow> bytes \<Rightarrow> refusal + 'k"
  w_read_message_4 :: "bytes \<Rightarrow> 'k \<Rightarrow> u64 \<Rightarrow> bool"
  w_read_group_message_2 :: "bytes \<Rightarrow> 'k \<Rightarrow> u64 \<Rightarrow> bool"
  w_unprotect :: "bytes \<Rightarrow> bytes option"
  w_encapsulate :: "bytes \<Rightarrow> bytes \<Rightarrow> bytes option"
  w_parse :: "bytes \<Rightarrow> bytes \<Rightarrow> ap_request option"
  w_check_rsn :: "bytes \<Rightarrow> u16 option"
  w_acked :: "nat \<Rightarrow> bool"
  w_clock :: "nat \<Rightarrow> u64"
  w_tsf :: "nat \<Rightarrow> u64"
  w_random :: "nat \<Rightarrow> nat \<Rightarrow> bytes"
  w_key_slot :: "nat list \<Rightarrow> nat \<Rightarrow> nat option"
  w_set_key :: "nat \<Rightarrow> bool"
  w_tx_buf :: "nat \<Rightarrow> bytes"
  w_up_room :: "nat \<Rightarrow> nat option"

record 'k access_point =
  ap_bss :: bss
  ap_stations :: stations
  ap_peers :: "'k ap_peer option list"
  ap_pmk :: bytes
  ap_gtk :: group_key
  ap_pending_gtk :: "group_key option"
  ap_gtk_slots :: "nat list"
  ap_gtk_slot_in_use :: u32
  ap_software_crypto :: bool
  ap_group_pn :: u64
  ap_rekey_at :: u64
  ap_rekey_due :: bool
  ap_rekey_interval :: u64
  ap_inactivity :: u64
  ap_held :: held
  ap_probe :: bytes
  ap_probe_len :: nat
  ap_release_buf :: "bytes option"
  ap_own_ip :: bytes
  ap_admitting :: bool
  ap_beaconing :: bool
  ap_relay_background :: bool
  ap_renumber :: bool
  ap_stats :: "ap_stat \<Rightarrow> u32"
  ap_asked :: nat
  ap_done :: "ap_effect list"

abbreviation ap_bssid :: "'k access_point \<Rightarrow> bytes" where "ap_bssid ap \<equiv> bs_bssid (ap_bss ap)"
abbreviation ap_ssid :: "'k access_point \<Rightarrow> bytes" where "ap_ssid ap \<equiv> bs_ssid (ap_bss ap)"
abbreviation ap_protected :: "'k access_point \<Rightarrow> bool" where "ap_protected ap \<equiv> bs_protected (ap_bss ap)"

definition tally :: "ap_stat \<Rightarrow> 'k access_point \<Rightarrow> 'k access_point" where
  "tally s ap = ap\<lparr>ap_stats := (ap_stats ap)(s := ap_stats ap s + 1)\<rparr>"

definition tally_if :: "bool \<Rightarrow> ap_stat \<Rightarrow> 'k access_point \<Rightarrow> 'k access_point" where
  "tally_if b s ap = (if b then tally s ap else ap)"

definition set_stat :: "ap_stat \<Rightarrow> u32 \<Rightarrow> 'k access_point \<Rightarrow> 'k access_point" where
  "set_stat s n ap = ap\<lparr>ap_stats := (ap_stats ap)(s := n)\<rparr>"

definition does :: "ap_effect \<Rightarrow> 'k access_point \<Rightarrow> 'k access_point" where
  "does e ap = ap\<lparr>ap_done := ap_done ap @ [e]\<rparr>"

text \<open>The world's next answer.\<close>

definition ask :: "(nat \<Rightarrow> 'b) \<Rightarrow> 'k access_point \<Rightarrow> 'b \<times> 'k access_point" where
  "ask answer ap = (answer (ap_asked ap), ap\<lparr>ap_asked := Suc (ap_asked ap)\<rparr>)"

text \<open>An index into an array: \<open>None\<close> is the panic past its end.\<close>

definition index_get :: "'b list \<Rightarrow> nat \<Rightarrow> 'b option" where
  "index_get xs i = (if i < length xs then Some (xs ! i) else None)"

definition peer :: "bytes \<Rightarrow> 'k access_point \<Rightarrow> 'k ap_peer option" where
  "peer a ap = slot_find (\<lambda>p. pe_address p = a) (ap_peers ap)"

text \<open>The key slots in use: the group's two, and every station's.\<close>

definition slots_in_use :: "'k access_point \<Rightarrow> nat list" where
  "slots_in_use ap = ap_gtk_slots ap @ List.map_filter pe_key_slot (filled (ap_peers ap))"

definition peer_update :: "bytes \<Rightarrow> ('k ap_peer \<Rightarrow> 'k ap_peer) \<Rightarrow> 'k access_point \<Rightarrow> 'k access_point" where
  "peer_update a f ap = ap\<lparr>ap_peers := slot_update (\<lambda>p. pe_address p = a) (\<lambda>p. Some (f p)) (ap_peers ap)\<rparr>"

definition with_stations :: "(stations \<Rightarrow> stations) \<Rightarrow> 'k access_point \<Rightarrow> 'k access_point" where
  "with_stations f ap = ap\<lparr>ap_stations := f (ap_stations ap)\<rparr>"

section \<open>The frames it lays out\<close>

definition SNAP :: bytes where "SNAP = [0xaa, 0xaa, 0x03, 0, 0, 0]"
definition EAPOL :: bytes where "EAPOL = [0x88, 0x8e]"
definition FORWARD_BYTES :: nat where "FORWARD_BYTES = 1600"

definition is_group :: "bytes \<Rightarrow> bool" where
  "is_group a = (case a of b # _ \<Rightarrow> b AND 1 = 1 | [] \<Rightarrow> False)"

definition one_mbit :: tx_phy_rate where "one_mbit = HrDsss 0"

definition relayed :: "bytes \<Rightarrow> bytes \<Rightarrow> bool" where
  "relayed eth own \<longleftrightarrow> length eth \<ge> 34 \<and> take 2 (drop 12 eth) = [0x08, 0x00] \<and> take 4 (drop 26 eth) \<noteq> own"

definition ccmp_header :: "u64 \<Rightarrow> u8 \<Rightarrow> bytes" where
  "ccmp_header packet_number key_id =
     (let pn = le_bytes 8 packet_number
      in [pn ! 0, pn ! 1, 0, 0x20 OR push_bit 6 key_id, pn ! 2, pn ! 3, pn ! 4, pn ! 5])"

definition ccmp_packet_number :: "bytes \<Rightarrow> u64" where
  "ccmp_packet_number header =
     le_word [header ! 0, header ! 1, header ! 4, header ! 5, header ! 6, header ! 7, 0, 0]"

definition qos_control :: "u8 \<Rightarrow> bytes" where
  "qos_control user_priority = [user_priority AND 7, 0]"

definition data_header :: "bool \<Rightarrow> u8 \<Rightarrow> bytes \<Rightarrow> bytes \<Rightarrow> bytes \<Rightarrow> u8 \<Rightarrow> bytes" where
  "data_header qos_station flags dest bssid src user_priority =
     [(if qos_station then 0x88 else 0x08), flags, 0, 0] @ dest @ bssid @ src @ [0, 0] @
     (if qos_station then qos_control user_priority else [])"

end
