(* ===== verification/Access_Point.thy ===== *)
theory Access_Point
  imports Ap_State
begin

text \<open>
  The access point's operations (\<open>access_point/mod.rs\<close>): frames to the air, frames held for stations that doze, the
  4-way and group-key handshakes as authenticator, the key rotation, what a station's frames do, and a turn of the
  task. An operation that may panic or not return is an option.
\<close>

section \<open>Frames to the air\<close>

definition encapsulate :: "'k ap_world \<Rightarrow> bytes \<Rightarrow> bytes \<Rightarrow> 'k access_point \<Rightarrow> bytes option \<times> 'k access_point" where
  "encapsulate W frame key ap =
     (case w_encapsulate W frame key of
        Some out \<Rightarrow> (Some out, tally ''SOFTWARE_CRYPTO'' ap)
      | None \<Rightarrow> (None, tally ''SOFTWARE_CRYPTO_REFUSED'' ap))"

text \<open>A frame that names a key slot is encrypted by the hardware, unless the access point encrypts itself.\<close>

definition protect :: "'k ap_world \<Rightarrow> bytes \<Rightarrow> bytes \<Rightarrow> 'k access_point \<Rightarrow> bytes option \<times> 'k access_point" where
  "protect W frame key ap = (if ap_software_crypto ap then encapsulate W frame key ap else (Some frame, ap))"

text \<open>What every data frame counts, and what the station's ladder learns from its acknowledgement.\<close>

definition count_sent :: "bool \<Rightarrow> tx_phy_rate \<Rightarrow> 'k access_point \<Rightarrow> 'k access_point" where
  "count_sent qos_station rate ap =
     tally_if (case rate of Ht _ _ \<Rightarrow> True | _ \<Rightarrow> False) ''HT_SENT'' (tally_if qos_station ''QOS_DATA_SENT'' (tally ''DOWN_FRAMES'' ap))"

definition learn_ack :: "'k ap_world \<Rightarrow> bytes \<Rightarrow> 'k access_point \<Rightarrow> 'k access_point" where
  "learn_ack W dest ap =
     (case ask (w_acked W) ap of (acked, ap) \<Rightarrow>
      let ap = tally_if (\<not> acked) ''DATA_UNACKED'' ap in
      case peer dest ap of None \<Rightarrow> ap
      | Some p \<Rightarrow>
          (case (if acked then ladder_acknowledged (pe_ladder p) else ladder_lost (pe_ladder p)) of (l, moved) \<Rightarrow>
           tally_if moved (if acked then ''LADDER_UP'' else ''LADDER_DOWN'') (peer_update dest (\<lambda>p. p\<lparr>pe_ladder := l\<rparr>) ap)))"

definition transmit_open ::
  "'k ap_world \<Rightarrow> bytes \<Rightarrow> bytes \<Rightarrow> bytes \<Rightarrow> bytes \<Rightarrow> bool \<Rightarrow> bool \<Rightarrow> access_category \<Rightarrow> u8 \<Rightarrow> 'k access_point \<Rightarrow> 'k access_point" where
  "transmit_open W dest src ether_type payload more_data grp category user_priority ap =
     (case (if grp then Some (False, one_mbit) else map_option (\<lambda>p. (pe_qos p, ladder_rate (pe_ladder p))) (peer dest ap)) of
        None \<Rightarrow> ap
      | Some (qos_station, rate) \<Rightarrow>
          case ask (w_tx_buf W) ap of (buf, ap) \<Rightarrow>
          let frame = data_header qos_station (0x02 OR (if more_data then 0x20 else 0)) dest (ap_bssid ap) src user_priority
                      @ SNAP @ ether_type @ payload
          in if length frame > length buf then ap
             else let ap = does (Air category frame \<lparr>tx_rate = rate, tx_key_slot = None, tx_wait_for_ack = \<not> grp,
                               tx_retry = (if grp then RetryDrop else RetryUntil 7)\<rparr>) ap;
                      ap = count_sent qos_station rate ap
                  in if grp then ap else learn_ack W dest ap)"

text \<open>Who a protected frame is sent under: the slot, the key, its ID, the packet number, QoS and the rate.\<close>

definition protection :: "'k ap_world \<Rightarrow> bool \<Rightarrow> bytes \<Rightarrow> 'k access_point \<Rightarrow>
    ((nat \<times> bytes \<times> u8 \<times> u64 \<times> bool \<times> tx_phy_rate) option \<times> 'k access_point) option" where
  "protection W grp dest ap =
     (if grp
      then case index_get (ap_gtk_slots ap) (unat (ap_gtk_slot_in_use ap)) of None \<Rightarrow> None | Some slot \<Rightarrow>
           (let pn = ap_group_pn ap + 1
            in Some (Some (slot, gk_key (ap_gtk ap), gk_key_id (ap_gtk ap), pn, False, one_mbit), ap\<lparr>ap_group_pn := pn\<rparr>))
      else Some
          (case peer dest ap of None \<Rightarrow> (None, ap) | Some p \<Rightarrow>
           case pe_key_slot p of None \<Rightarrow> (None, ap) | Some slot \<Rightarrow>
           case au_keys (pe_auth p) of None \<Rightarrow> (None, ap) | Some k \<Rightarrow>
             (let pn = pe_tx_pn p + 1
              in (Some (slot, w_tk W k, 0, pn, pe_qos p, ladder_rate (pe_ladder p)),
                  peer_update dest (\<lambda>p. p\<lparr>pe_tx_pn := pn\<rparr>) ap))))"

definition protected_frame :: "bool \<Rightarrow> bool \<Rightarrow> bytes \<Rightarrow> bytes \<Rightarrow> bytes \<Rightarrow> u8 \<Rightarrow> u64 \<Rightarrow> u8 \<Rightarrow> bytes \<Rightarrow> bytes \<Rightarrow> bytes" where
  "protected_frame qos_station more_data dest bssid src user_priority pn key_id ether_type payload =
     data_header qos_station (0x02 OR 0x40 OR (if more_data then 0x20 else 0)) dest bssid src user_priority
     @ ccmp_header pn key_id @ SNAP @ ether_type @ payload @ replicate 8 0"

definition send_protected ::
  "'k ap_world \<Rightarrow> bytes \<Rightarrow> bytes \<Rightarrow> bytes \<Rightarrow> bytes \<Rightarrow> bool \<Rightarrow> bool \<Rightarrow> access_category \<Rightarrow> u8 \<Rightarrow>
   (nat \<times> bytes \<times> u8 \<times> u64 \<times> bool \<times> tx_phy_rate) option \<Rightarrow> 'k access_point \<Rightarrow> 'k access_point" where
  "send_protected W dest src ether_type payload more_data grp category user_priority how ap =
     (case how of None \<Rightarrow> ap
      | Some (slot, key, key_id, pn, qos_station, rate) \<Rightarrow>
          case ask (w_tx_buf W) ap of (buf, ap) \<Rightarrow>
          let frame = protected_frame qos_station more_data dest (ap_bssid ap) src user_priority pn key_id ether_type payload
          in if length frame > length buf then ap
             else case protect W frame key ap of
                 (None, ap) \<Rightarrow> ap
               | (Some frame, ap) \<Rightarrow>
                   let ap = does (Air category frame
                              \<lparr>tx_rate = rate, tx_key_slot = (if ap_software_crypto ap then None else Some slot),
                               tx_wait_for_ack = \<not> grp, tx_retry = (if grp then RetryDrop else RetryUntil 7)\<rparr>) ap;
                       ap = count_sent qos_station rate ap
                   in if grp then ap else learn_ack W dest ap)"

definition transmit_protected ::
  "'k ap_world \<Rightarrow> bytes \<Rightarrow> bytes \<Rightarrow> bytes \<Rightarrow> bytes \<Rightarrow> bool \<Rightarrow> bool \<Rightarrow> access_category \<Rightarrow> u8 \<Rightarrow> 'k access_point \<Rightarrow> 'k access_point option" where
  "transmit_protected W dest src ether_type payload more_data grp category user_priority ap =
     do {
       (how, ap) \<leftarrow> protection W grp dest ap;
       Some (send_protected W dest src ether_type payload more_data grp category user_priority how ap)
     }"

definition transmit :: "'k ap_world \<Rightarrow> bytes \<Rightarrow> bool \<Rightarrow> 'k access_point \<Rightarrow> 'k access_point option" where
  "transmit W eth more_data ap =
     (if length eth < 14 then Some ap
      else
        let dest = take 6 eth; src = take 6 (drop 6 eth); ether_type = take 2 (drop 12 eth); payload = drop 14 eth;
            grp = is_group dest;
            background = (\<not> grp \<and> ap_relay_background ap \<and> relayed eth (ap_own_ip ap));
            ap = tally_if background ''RELAYED_AS_BACKGROUND'' ap;
            category = (if background then Background else BestEffort);
            user_priority = (if background then 1 else 0)
        in if \<not> ap_protected ap
           then Some (transmit_open W dest src ether_type payload more_data grp category user_priority ap)
           else transmit_protected W dest src ether_type payload more_data grp category user_priority ap)"

text \<open>A management frame, or an EAPOL frame in the clear: acknowledged and retried; \<open>None\<close> when it was not laid out.\<close>

definition send_reply :: "'k ap_world \<Rightarrow> bytes \<Rightarrow> 'k access_point \<Rightarrow> 'k access_point" where
  "send_reply W frame ap =
     (case ask (w_acked W) (does (Air BestEffort frame
          \<lparr>tx_rate = one_mbit, tx_key_slot = None, tx_wait_for_ack = True, tx_retry = RetryUntil 4\<rparr>) ap) of
        (acked, ap) \<Rightarrow> tally_if (\<not> acked) ''MANAGEMENT_UNACKED'' (tally ''MANAGEMENT_REPLIES'' ap))"

definition reply :: "'k ap_world \<Rightarrow> (bytes \<Rightarrow> (bytes \<times> nat) option) \<Rightarrow> 'k access_point \<Rightarrow> 'k access_point" where
  "reply W write ap =
     (case ask (w_tx_buf W) ap of (buf, ap) \<Rightarrow>
      case write buf of None \<Rightarrow> ap | Some (buf, n) \<Rightarrow> send_reply W (take n buf) ap)"

text \<open>A frame another crate writes into a buffer, if it has the room.\<close>

definition lay :: "bytes option \<Rightarrow> bytes \<Rightarrow> (bytes \<times> nat) option" where
  "lay frame buf = Option.bind frame (\<lambda>f. if length f \<le> length buf then Some (write_at buf 0 f, length f) else None)"

section \<open>Stations that leave, and stations that doze\<close>

definition forget :: "bytes \<Rightarrow> 'k access_point \<Rightarrow> 'k access_point" where
  "forget a ap =
     (let gone = (\<lambda>p. pe_address p = a);
          keyed = (\<exists>p\<in>set (filled (ap_peers ap)). gone p \<and> pe_key_slot p \<noteq> None)
      in ap\<lparr>ap_rekey_due := ap_rekey_due ap \<or> keyed,
            ap_peers := map (\<lambda>o'. case o' of Some p \<Rightarrow> if gone p then None else Some p | None \<Rightarrow> None) (ap_peers ap),
            ap_held := held_clear a (ap_held ap),
            ap_stations := stations_remove a (ap_stations ap)\<rparr>)"

definition refresh_queued :: "bytes \<Rightarrow> 'k access_point \<Rightarrow> 'k access_point" where
  "refresh_queued a ap =
     (let waiting = (case peer a ap of Some p \<Rightarrow> pe_group_key_wanted p | None \<Rightarrow> False);
          n = of_nat (held_count a (ap_held ap)) + (if waiting then 1 else 0)
      in with_stations (stations_set_queued a n) ap)"

definition dozes :: "bytes \<Rightarrow> 'k access_point \<Rightarrow> bool" where
  "dozes a ap = (case stations_get a (ap_stations ap) of Some s \<Rightarrow> st_power_save s | None \<Rightarrow> False)"

definition anyone_dozing :: "'k access_point \<Rightarrow> bool" where
  "anyone_dozing ap = (\<exists>s\<in>set (filled (ap_stations ap)). st_power_save s)"

definition deliver :: "'k ap_world \<Rightarrow> bytes \<Rightarrow> 'k access_point \<Rightarrow> 'k access_point option" where
  "deliver W eth ap =
     (if length eth < 6 then Some ap
      else
        let dest = take 6 eth; grp = is_group dest;
            dozing = (if grp then anyone_dozing ap else dozes dest ap)
        in if \<not> dozing then transmit W eth False ap
           else Some (case held_push eth grp (ap_held ap) of
               (True, h) \<Rightarrow>
                 (if grp then tally ''GROUP_HELD'' (ap\<lparr>ap_held := h\<rparr>)
                  else refresh_queued dest (tally ''HELD'' (ap\<lparr>ap_held := h\<rparr>)))
             | (False, _) \<Rightarrow> tally ''HELD_DROPPED'' ap))"

text \<open>The group-key handshake's message 1 on the air, under the station's pairwise key.\<close>

definition transmit_group_message_1 :: "'k ap_world \<Rightarrow> bytes \<Rightarrow> bool \<Rightarrow> 'k access_point \<Rightarrow> 'k access_point" where
  "transmit_group_message_1 W a fresh ap =
     (case ap_pending_gtk ap of
        None \<Rightarrow> peer_update a (\<lambda>p. if pe_stage p = SentGroupMessage1 then p\<lparr>pe_stage := Done\<rparr> else p) ap
      | Some gtk \<Rightarrow>
      case peer a ap of None \<Rightarrow> ap | Some p \<Rightarrow>
      case au_keys (pe_auth p) of None \<Rightarrow> ap | Some keys \<Rightarrow>
      case pe_key_slot p of None \<Rightarrow> ap | Some slot \<Rightarrow>
      case auth_replay fresh (pe_auth p) of (replay, au) \<Rightarrow>
      case ask (w_clock W) ap of (now, ap) \<Rightarrow>
      let pn = pe_tx_pn p + 1;
          ap = peer_update a (\<lambda>p. p\<lparr>pe_auth := au, pe_tx_pn := pn, pe_stage := SentGroupMessage1, pe_sent_at := now\<rparr>) ap
      in case ask (w_tx_buf W) ap of (buf, ap) \<Rightarrow>
         case lay (w_group_message_1 W (length buf) (ap_bssid ap) a keys replay gtk pn) buf of None \<Rightarrow> ap | Some (buf, n) \<Rightarrow>
         case protect W (take n buf) (w_tk W keys) ap of
           (None, ap) \<Rightarrow> ap
         | (Some frame, ap) \<Rightarrow>
             case ask (w_acked W) (does (Air BestEffort frame
                 \<lparr>tx_rate = Ofdm Mbits24, tx_key_slot = (if ap_software_crypto ap then None else Some slot),
                  tx_wait_for_ack = True, tx_retry = RetryUntil 4\<rparr>) ap) of
               (acked, ap) \<Rightarrow> tally_if (\<not> acked) ''REKEY_UNACKED'' (tally ''REKEY_MESSAGES'' ap))"

definition release_one :: "'k ap_world \<Rightarrow> bytes \<Rightarrow> 'k access_point \<Rightarrow> 'k access_point option" where
  "release_one W a ap =
     (if (case peer a ap of Some p \<Rightarrow> pe_group_key_wanted p | None \<Rightarrow> False)
      then Some (transmit_group_message_1 W a True
             (refresh_queued a (peer_update a (\<lambda>p. p\<lparr>pe_group_key_wanted := False\<rparr>) ap)))
      else case ap_release_buf ap of None \<Rightarrow> Some ap | Some copy \<Rightarrow>
           case held_pop a (ap_held ap) of None \<Rightarrow> Some ap | Some (frame, remain, h) \<Rightarrow>
             if length frame > length copy then None
             else
               let copy = write_at copy 0 frame;
                   ap = refresh_queued a (tally ''RELEASED'' (ap\<lparr>ap_held := h, ap_release_buf := None\<rparr>))
               in do {
                    ap \<leftarrow> transmit W (take (length frame) copy) remain ap;
                    Some (ap\<lparr>ap_release_buf := Some copy\<rparr>)
                  })"

definition waiting_for :: "bytes \<Rightarrow> 'k access_point \<Rightarrow> bool" where
  "waiting_for a ap \<longleftrightarrow> held_count a (ap_held ap) > 0 \<or>
     (case peer a ap of Some p \<Rightarrow> pe_group_key_wanted p | None \<Rightarrow> False)"

text \<open>The loop does not return if a turn of it leaves as much waiting: \<open>None\<close> then.\<close>

partial_function (option) release_all :: "'k ap_world \<Rightarrow> bytes \<Rightarrow> 'k access_point \<Rightarrow> 'k access_point option" where
  "release_all W a ap =
     (if waiting_for a ap then Option.bind (release_one W a ap) (\<lambda>ap. release_all W a ap) else Some ap)"

declare release_all.simps [code]

text \<open>The group frames held, after the DTIM beacon.\<close>

partial_function (option) release_group_loop ::
  "'k ap_world \<Rightarrow> bytes \<Rightarrow> 'k access_point \<Rightarrow> (bytes \<times> 'k access_point) option" where
  "release_group_loop W copy ap =
     (case held_pop_group (ap_held ap) of None \<Rightarrow> Some (copy, ap) | Some (frame, remain, h) \<Rightarrow>
        if length frame > length copy then None
        else
          Option.bind (transmit W (take (length frame) (write_at copy 0 frame)) remain (tally ''RELEASED'' (ap\<lparr>ap_held := h\<rparr>)))
            (\<lambda>ap. release_group_loop W (write_at copy 0 frame) ap))"

declare release_group_loop.simps [code]

definition release_group :: "'k ap_world \<Rightarrow> 'k access_point \<Rightarrow> 'k access_point option" where
  "release_group W ap =
     (case ap_release_buf ap of None \<Rightarrow> Some ap | Some copy \<Rightarrow>
      map_option (\<lambda>(copy, ap). ap\<lparr>ap_release_buf := Some copy\<rparr>)
        (release_group_loop W copy (ap\<lparr>ap_release_buf := None\<rparr>)))"

section \<open>The group key's rotation\<close>

definition finish_rekey_if_done :: "'k access_point \<Rightarrow> 'k access_point" where
  "finish_rekey_if_done ap =
     (case ap_pending_gtk ap of None \<Rightarrow> ap
      | Some gtk \<Rightarrow>
          if \<exists>p\<in>set (filled (ap_peers ap)). pe_stage p = SentGroupMessage1 then ap
          else tally ''REKEYS'' (ap\<lparr>ap_pending_gtk := None, ap_gtk := gtk, ap_gtk_slot_in_use := 1 - ap_gtk_slot_in_use ap,
                               ap_group_pn := 0\<rparr>))"

definition send_group_message_1 :: "'k ap_world \<Rightarrow> bytes \<Rightarrow> bool \<Rightarrow> 'k access_point \<Rightarrow> 'k access_point" where
  "send_group_message_1 W a fresh ap =
     (if dozes a ap
      then refresh_queued a
             (peer_update a (\<lambda>p. p\<lparr>pe_stage := SentGroupMessage1, pe_group_key_wanted := True, pe_sent_at := - 1\<rparr>) ap)
      else transmit_group_message_1 W a fresh ap)"

definition begin_rekey :: "'k ap_world \<Rightarrow> u64 \<Rightarrow> 'k access_point \<Rightarrow> 'k access_point option" where
  "begin_rekey W now ap =
     (let ap = ap\<lparr>ap_rekey_due := False, ap_rekey_at := now + ap_rekey_interval ap\<rparr>
      in if \<not> ap_protected ap \<or> ap_pending_gtk ap \<noteq> None then Some ap
         else
           let key_id = (if gk_key_id (ap_gtk ap) = 1 then 2 else 1) in
           case ask (w_random W 16) ap of (random, ap) \<Rightarrow>
           let gtk = new_group_key random key_id; spare = 1 - ap_gtk_slot_in_use ap in
           case index_get (ap_gtk_slots ap) (unat spare) of None \<Rightarrow> None | Some slot \<Rightarrow>
           case ask (w_set_key W) (does (SetGroupKey slot key_id (gk_key gtk)) ap) of (ok, ap) \<Rightarrow>
           if \<not> ok then Some ap
           else
             let ap = ap\<lparr>ap_pending_gtk := Some gtk\<rparr>;
                 keyed = map pe_address (filter (\<lambda>p. pe_stage p = Done) (filled (ap_peers ap)));
                 ap = fold (\<lambda>a ap. send_group_message_1 W a True (peer_update a (\<lambda>p. p\<lparr>pe_resends := 0\<rparr>) ap)) keyed ap
             in Some (finish_rekey_if_done ap))"

definition group_eapol :: "'k ap_world \<Rightarrow> bytes \<Rightarrow> bytes \<Rightarrow> 'k access_point \<Rightarrow> 'k access_point" where
  "group_eapol W a plain ap =
     (case peer a ap of None \<Rightarrow> ap | Some p \<Rightarrow>
      if pe_stage p \<noteq> SentGroupMessage1 then ap
      else case au_keys (pe_auth p) of None \<Rightarrow> ap | Some keys \<Rightarrow>
        if w_read_group_message_2 W plain keys (au_replay_counter (pe_auth p))
        then finish_rekey_if_done (tally ''REKEY_CONFIRMED'' (peer_update a (\<lambda>p. p\<lparr>pe_stage := Done, pe_resends := 0\<rparr>) ap))
        else tally ''HANDSHAKE_REFUSED_GROUP'' (tally ''HANDSHAKE_REFUSED'' ap))"

section \<open>The 4-way handshake\<close>

definition HANDSHAKE_RESEND_US :: u64 where "HANDSHAKE_RESEND_US = 1000000"
definition HANDSHAKE_RESENDS :: u8 where "HANDSHAKE_RESENDS = 3"
definition PREV_AUTH_NOT_VALID :: u16 where "PREV_AUTH_NOT_VALID = 2"
definition INACTIVITY :: u16 where "INACTIVITY = 4"
definition CLASS3_FROM_NONASSOC :: u16 where "CLASS3_FROM_NONASSOC = 7"
definition FOURWAY_HANDSHAKE_TIMEOUT :: u16 where "FOURWAY_HANDSHAKE_TIMEOUT = 15"
definition GROUP_KEY_HANDSHAKE_TIMEOUT :: u16 where "GROUP_KEY_HANDSHAKE_TIMEOUT = 16"

definition send_message_1 :: "'k ap_world \<Rightarrow> bytes \<Rightarrow> bool \<Rightarrow> 'k access_point \<Rightarrow> 'k access_point" where
  "send_message_1 W a fresh ap =
     (case peer a ap of None \<Rightarrow> ap | Some p \<Rightarrow>
      case auth_replay fresh (pe_auth p) of (replay, au) \<Rightarrow>
      case ask (w_clock W) ap of (now, ap) \<Rightarrow>
        reply W (\<lambda>buf. lay (w_message_1 W (length buf) (ap_bssid ap) a (au_anonce au) replay) buf)
          (peer_update a (\<lambda>p. p\<lparr>pe_auth := au, pe_stage := SentMessage1, pe_sent_at := now\<rparr>) ap))"

definition send_message_3 :: "'k ap_world \<Rightarrow> bytes \<Rightarrow> bool \<Rightarrow> 'k access_point \<Rightarrow> 'k access_point" where
  "send_message_3 W a fresh ap =
     (let gtk = (case ap_pending_gtk ap of Some g \<Rightarrow> g | None \<Rightarrow> ap_gtk ap) in
      case peer a ap of None \<Rightarrow> ap | Some p \<Rightarrow>
      case au_keys (pe_auth p) of None \<Rightarrow> ap | Some keys \<Rightarrow>
      case auth_replay fresh (pe_auth p) of (replay, au) \<Rightarrow>
      case ask (w_clock W) ap of (now, ap) \<Rightarrow>
        reply W (\<lambda>buf. lay (w_message_3 W (length buf) (ap_bssid ap) a keys (au_anonce au) replay gtk) buf)
          (peer_update a (\<lambda>p. p\<lparr>pe_auth := au, pe_stage := SentMessage3, pe_sent_at := now\<rparr>) ap))"

text \<open>The first slot that is free or the station's: \<open>find(|p| p.is_none_or(|p| p.address == station))\<close>.\<close>

definition peer_place :: "'k ap_peer \<Rightarrow> 'k access_point \<Rightarrow> 'k access_point option" where
  "peer_place p ap =
     (case position (\<lambda>o'. case o' of None \<Rightarrow> True | Some q \<Rightarrow> pe_address q = pe_address p) (ap_peers ap) of
        None \<Rightarrow> None
      | Some i \<Rightarrow> Some (ap\<lparr>ap_peers := (ap_peers ap)[i := Some p]\<rparr>))"

definition begin_handshake :: "'k ap_world \<Rightarrow> bytes \<Rightarrow> 'k access_point \<Rightarrow> 'k access_point" where
  "begin_handshake W a ap =
     (if \<not> ap_protected ap
      then tally ''JOINS'' (with_stations (stations_connected a)
             (case peer_place (peer_new a (replicate 32 0) Done 0) ap of Some ap \<Rightarrow> ap | None \<Rightarrow> ap))
      else
        let ap = tally_if (\<exists>p\<in>set (filled (ap_peers ap)). pe_address p = a \<and> pe_stage p \<noteq> Done) ''HANDSHAKES_RESTARTED''
                   (tally ''HANDSHAKES_BEGUN'' ap)
        in case ask (w_random W 32) ap of (anonce, ap) \<Rightarrow>
           case peer_place (peer_new a anonce SentMessage1 1) ap of
             None \<Rightarrow> ap
           | Some ap \<Rightarrow> send_message_1 W a True ap)"

definition refusal_stat :: "refusal \<Rightarrow> ap_stat" where
  "refusal_stat why =
     (case why of RMic \<Rightarrow> ''M2_MIC'' | RKeyInformation \<Rightarrow> ''M2_KEYINFO'' | RReplay \<Rightarrow> ''M2_REPLAY''
      | RRsnMismatch \<Rightarrow> ''M2_RSN'' | _ \<Rightarrow> ''M2_FRAME'')"

text \<open>Message 2, against the RSN element the station associated with; message 4, and its key installed.\<close>

definition on_message_2 :: "'k ap_world \<Rightarrow> bytes \<Rightarrow> bytes \<Rightarrow> bytes \<Rightarrow> 'k ap_peer \<Rightarrow> 'k access_point \<Rightarrow> 'k access_point" where
  "on_message_2 W a frame rsn p ap =
     (case w_read_message_2 W frame (ap_pmk ap) (ap_bssid ap) a (au_anonce (pe_auth p)) (au_replay_counter (pe_auth p)) rsn of
        Inr keys \<Rightarrow>
          send_message_3 W a True
            (peer_update a (\<lambda>p. p\<lparr>pe_auth := (pe_auth p)\<lparr>au_keys := Some keys\<rparr>, pe_resends := 0\<rparr>) ap)
      | Inl why \<Rightarrow> tally (refusal_stat why) (tally ''HANDSHAKE_REFUSED_M2'' (tally ''HANDSHAKE_REFUSED'' ap)))"

definition on_message_4 :: "'k ap_world \<Rightarrow> bytes \<Rightarrow> bytes \<Rightarrow> 'k ap_peer \<Rightarrow> 'k access_point \<Rightarrow> 'k access_point" where
  "on_message_4 W a frame p ap =
     (case au_keys (pe_auth p) of None \<Rightarrow> ap | Some keys \<Rightarrow>
      if \<not> w_read_message_4 W frame keys (au_replay_counter (pe_auth p))
      then tally ''HANDSHAKE_REFUSED_M4'' (tally ''HANDSHAKE_REFUSED'' ap)
      else case ask (w_key_slot W (slots_in_use ap)) ap of (None, ap) \<Rightarrow> ap | (Some slot, ap) \<Rightarrow>
           case ask (w_set_key W) (does (SetPairwiseKey slot a (w_tk W keys)) ap) of (ok, ap) \<Rightarrow>
             if \<not> ok then ap
             else tally ''JOINS'' (with_stations (stations_connected a)
                    (peer_update a (\<lambda>p. p\<lparr>pe_key_slot := Some slot, pe_stage := Done\<rparr>) ap)))"

definition eapol :: "'k ap_world \<Rightarrow> bytes \<Rightarrow> bytes \<Rightarrow> 'k access_point \<Rightarrow> 'k access_point option" where
  "eapol W a frame ap =
     (case stations_get a (ap_stations ap) of None \<Rightarrow> Some ap | Some st \<Rightarrow>
      case rsn_element st of None \<Rightarrow> None | Some element \<Rightarrow>
      Some
       (case peer a ap of None \<Rightarrow> ap | Some p \<Rightarrow>
        case pe_stage p of
          SentMessage1 \<Rightarrow> on_message_2 W a frame (take MAX_RSN_ELEMENT element) p ap
        | SentMessage3 \<Rightarrow> on_message_4 W a frame p ap
        | _ \<Rightarrow> ap))"

definition resend_due :: "'k ap_world \<Rightarrow> 'k access_point \<Rightarrow> 'k access_point" where
  "resend_due W ap =
     (case ask (w_clock W) ap of (now, ap) \<Rightarrow>
      case slot_find (\<lambda>p. pe_stage p \<noteq> Done \<and> sat_sub now (pe_sent_at p) > HANDSHAKE_RESEND_US) (ap_peers ap) of
        None \<Rightarrow> ap
      | Some d \<Rightarrow>
          let a = pe_address d; stage = pe_stage d; grp = (stage = SentGroupMessage1) in
          if pe_resends d \<ge> HANDSHAKE_RESENDS
          then finish_rekey_if_done
                 (reply W (frame_deauthentication (ap_bssid ap) a
                    (if grp then GROUP_KEY_HANDSHAKE_TIMEOUT else FOURWAY_HANDSHAKE_TIMEOUT))
                   (forget a (tally (if grp then ''REKEY_TIMEOUTS'' else ''HANDSHAKE_TIMEOUTS'') ap)))
          else
            let ap = tally ''HANDSHAKE_RESENT'' (peer_update a (\<lambda>p. p\<lparr>pe_resends := pe_resends p + 1\<rparr>) ap)
            in case stage of
                 SentMessage1 \<Rightarrow> send_message_1 W a False ap
               | SentMessage3 \<Rightarrow> send_message_3 W a False ap
               | SentGroupMessage1 \<Rightarrow> send_group_message_1 W a False ap
               | Done \<Rightarrow> ap)"

section \<open>Frames from the air\<close>

definition is_connected :: "bytes \<Rightarrow> 'k access_point \<Rightarrow> bool" where
  "is_connected a ap = (case stations_get a (ap_stations ap) of Some s \<Rightarrow> st_state s = Connected | None \<Rightarrow> False)"

definition control :: "'k ap_world \<Rightarrow> bytes \<Rightarrow> u8 \<Rightarrow> u64 \<Rightarrow> 'k access_point \<Rightarrow> 'k access_point option" where
  "control W f fc0 now ap =
     (if drop_bit 4 fc0 \<noteq> 10 \<or> length f < 16 \<or> take 6 (drop 4 f) \<noteq> ap_bssid ap then Some ap
      else
        let a = take 6 (drop 10 f)
        in if \<not> is_connected a ap then Some ap
           else release_one W a (with_stations (stations_heard a now True) (tally ''PS_POLLS'' ap)))"

text \<open>The probe response kept, its receiver and timestamp set; a copy that panics is \<open>None\<close>.\<close>

definition answer_probe :: "'k ap_world \<Rightarrow> bytes \<Rightarrow> 'k access_point \<Rightarrow> 'k access_point option" where
  "answer_probe W src ap =
     (case ask (w_tx_buf W) ap of (buf, ap) \<Rightarrow>
      let n = ap_probe_len ap in
      if n > length buf then Some ap
      else if n > length (ap_probe ap) then None
      else
        let out = take n (ap_probe ap);
            out = (case frame_set_receiver out src of Some out \<Rightarrow> out | None \<Rightarrow> out)
        in if length out < 32 then None
           else case ask (w_tsf W) ap of (tsf, ap) \<Rightarrow> Some (send_reply W (write_at out 24 (le_bytes 8 tsf)) ap))"

definition on_authentication :: "'k ap_world \<Rightarrow> bytes \<Rightarrow> u16 \<Rightarrow> u16 \<Rightarrow> u64 \<Rightarrow> 'k access_point \<Rightarrow> 'k access_point" where
  "on_authentication W src algorithm sequence now ap =
     (let ap = forget src ap;
          (status, ss) = stations_authenticate src algorithm sequence (ap_stations ap);
          ap = with_stations (stations_heard src now False) (ap\<lparr>ap_stations := ss\<rparr>)
      in reply W (frame_authentication (ap_bssid ap) src status) ap)"

text \<open>Admitted or not: the status, the AID, and the table.\<close>

definition admit :: "'k ap_world \<Rightarrow> bytes \<Rightarrow> bytes option \<Rightarrow> bytes option \<Rightarrow> 'k access_point \<Rightarrow> u16 \<times> u16 \<times> 'k access_point" where
  "admit W src ssid rsne ap =
     (let known = (case stations_get src (ap_stations ap) of
            Some s \<Rightarrow> st_state s = Associated \<or> st_state s = Connected | None \<Rightarrow> False)
      in if \<not> ap_admitting ap \<and> \<not> known then (TOO_MANY_STATIONS, 0, tally ''ADMISSIONS_REFUSED'' ap)
         else case stations_associate (w_check_rsn W) src (ssid = Some (ap_ssid ap)) rsne (ap_protected ap) (ap_stations ap) of
             (Inr aid, ss) \<Rightarrow> (SUCCESS, aid, ap\<lparr>ap_stations := ss\<rparr>)
           | (Inl status, ss) \<Rightarrow> (status, 0, ap\<lparr>ap_stations := ss\<rparr>))"

definition on_association :: "'k ap_world \<Rightarrow> bytes \<Rightarrow> bytes option \<Rightarrow> bytes option \<Rightarrow> bool \<Rightarrow> bool \<Rightarrow> ht_capabilities option \<Rightarrow>
    u64 \<Rightarrow> 'k access_point \<Rightarrow> 'k access_point" where
  "on_association W src ssid rsne reassociation qos ht now ap =
     (case admit W src ssid rsne ap of (status, aid, ap) \<Rightarrow>
      let ap = (if status = SUCCESS then with_stations (stations_set_capabilities src qos ht) ap else ap);
          ap = with_stations (stations_heard src now False) ap;
          ap = reply W (frame_association_response (ap_bss ap) src status aid reassociation) ap
      in if status = SUCCESS
         then peer_update src (\<lambda>p. p\<lparr>pe_qos := qos, pe_ladder := ladder_new ht\<rparr>) (begin_handshake W src ap)
         else ap)"

definition on_leave :: "bytes \<Rightarrow> 'k access_point \<Rightarrow> 'k access_point" where
  "on_leave src ap = forget src (tally_if (stations_get src (ap_stations ap) \<noteq> None) ''LEAVES'' ap)"

definition management :: "'k ap_world \<Rightarrow> bytes \<Rightarrow> u64 \<Rightarrow> 'k access_point \<Rightarrow> 'k access_point option" where
  "management W f now ap =
     (case w_parse W f (ap_bssid ap) of
        Some (Probe src ssid) \<Rightarrow> (if ssid = None \<or> ssid = Some (ap_ssid ap) then answer_probe W src ap else Some ap)
      | Some (Authentication src algorithm sequence) \<Rightarrow> Some (on_authentication W src algorithm sequence now ap)
      | Some (Association src ssid rsne reassociation qos ht) \<Rightarrow>
          Some (on_association W src ssid rsne reassociation qos ht now ap)
      | Some (Deauthentication src reason) \<Rightarrow> Some (on_leave src ap)
      | Some (Disassociation src reason) \<Rightarrow> Some (on_leave src ap)
      | None \<Rightarrow> Some ap)"

text \<open>A station's frame up to the stack, if it has room for one: whether to go on; and on to another station.\<close>

definition pass_up :: "'k ap_world \<Rightarrow> bytes \<Rightarrow> 'k access_point \<Rightarrow> bool \<times> 'k access_point" where
  "pass_up W eth ap =
     (case ask (w_up_room W) ap of
        (None, ap) \<Rightarrow> (False, tally ''UP_DROPPED'' ap)
      | (Some room, ap) \<Rightarrow> (True, if length eth \<le> room then does (ToStack eth) ap else ap))"

definition pass_on :: "'k ap_world \<Rightarrow> bytes \<Rightarrow> 'k access_point \<Rightarrow> 'k access_point option" where
  "pass_on W eth ap =
     (let ap = tally ''FORWARDED'' ap in
      case ap_release_buf ap of None \<Rightarrow> Some ap | Some copy \<Rightarrow>
        if length eth > length copy then None
        else
          let copy = write_at copy 0 eth
          in do {
               ap \<leftarrow> deliver W (take (length eth) copy) (ap\<lparr>ap_release_buf := None\<rparr>);
               Some (ap\<lparr>ap_release_buf := Some copy\<rparr>)
             })"

text \<open>A station's frame, its LLC header at \<open>body\<close>: to the stack, to another station, or both.\<close>

definition station_data ::
  "'k ap_world \<Rightarrow> bytes \<Rightarrow> nat \<Rightarrow> bytes \<Rightarrow> bytes \<Rightarrow> 'k access_point \<Rightarrow> 'k access_point option" where
  "station_data W f body a dest ap =
     (case slice_get f body (body + 8) of None \<Rightarrow> Some ap | Some llc \<Rightarrow>
      if take 6 llc \<noteq> SNAP then Some ap
      else
        let ether_type = drop 6 llc; payload = drop (body + 8) f in
        if ether_type = EAPOL \<and> ap_protected ap
        then Some (case w_unprotect W f of Some plain \<Rightarrow> group_eapol W a plain ap | None \<Rightarrow> ap)
        else
          let ap = tally ''UP_FRAMES'' (tally_if (ether_type = [0x08, 0x06]) ''ARP_UP'' ap);
              for_us = (dest = ap_bssid ap); grp = is_group dest;
              eth = dest @ a @ ether_type @ payload
          in case (if for_us \<or> grp then pass_up W eth ap else (True, ap)) of
               (False, ap) \<Rightarrow> Some ap
             | (True, ap) \<Rightarrow> if for_us then Some ap else pass_on W eth ap)"

text \<open>A data frame to the access point: what the table held before it, in one walk.\<close>

definition data_frame :: "'k ap_world \<Rightarrow> bytes \<Rightarrow> u8 \<Rightarrow> u8 \<Rightarrow> u64 \<Rightarrow> 'k access_point \<Rightarrow> 'k access_point option" where
  "data_frame W f fc0 fc1 now ap =
     (if fc1 AND 3 \<noteq> 1 \<or> length f < 24 then Some ap
      else if take 6 (drop 4 f) \<noteq> ap_bssid ap then Some ap
      else
        let a = take 6 (drop 10 f); dest = take 6 (drop 16 f); power_save = (fc1 AND 0x10 \<noteq> 0);
            (was, ss) = stations_heard_was a now power_save (ap_stations ap);
            ap = ap\<lparr>ap_stations := ss\<rparr>
        in case was of
             None \<Rightarrow> Some (reply W (frame_deauthentication (ap_bssid ap) a CLASS3_FROM_NONASSOC) (tally ''STRANGERS'' ap))
           | Some (state, was_dozing) \<Rightarrow>
        if state = Authenticated
        then Some (reply W (frame_deauthentication (ap_bssid ap) a CLASS3_FROM_NONASSOC) (tally ''STRANGERS'' ap))
        else
        case (if was_dozing \<and> \<not> power_save then release_all W a (tally ''WAKES'' ap) else Some ap) of
          None \<Rightarrow> None
        | Some ap \<Rightarrow>
            let subtype = drop_bit 4 fc0; qos = (subtype AND 8 \<noteq> 0); header = (if qos then 26 else 24); prot = (fc1 AND 0x40 \<noteq> 0) in
            if subtype AND 4 \<noteq> 0 then Some ap
            else if \<not> ap_protected ap then (if prot then Some ap else station_data W f header a dest ap)
            else if \<not> prot then
              (if (case slice_get f header (header + 8) of Some l \<Rightarrow> take 6 l = SNAP \<and> drop 6 l = EAPOL | None \<Rightarrow> False) \<and>
                  (case peer a ap of Some p \<Rightarrow> pe_stage p = SentMessage1 \<or> pe_stage p = SentMessage3 | None \<Rightarrow> False)
               then eapol W a f ap else Some (tally ''PLAINTEXT_DROPPED'' ap))
            else case slice_get f header (header + 8) of None \<Rightarrow> Some ap | Some hd' \<Rightarrow>
                 case peer a ap of None \<Rightarrow> Some ap | Some p \<Rightarrow>
                 if pe_key_slot p = None then Some ap
                 else
                   let tid = (if qos then Some (if length f > 24 then f ! 24 AND 0x0f else 0) else None);
                       (verdict, w) = rx_check tid (ccmp_packet_number hd') (fc1 AND 8 \<noteq> 0) (pe_rx p);
                       ap = peer_update a (\<lambda>p. p\<lparr>pe_rx := w\<rparr>) ap
                   in case verdict of
                        Fresh \<Rightarrow> station_data W f (header + 8) a dest ap
                      | Duplicate \<Rightarrow> Some (tally ''DUPLICATES'' ap)
                      | Replay \<Rightarrow> Some (tally ''REPLAYS'' ap))"

section \<open>A turn of the task\<close>

definition BEACON_INTERVAL_US :: u64 where "BEACON_INTERVAL_US = 100 * 1024"
definition AP_DTIM_PERIOD :: u8 where "AP_DTIM_PERIOD = 2"
definition LATE_LIMIT_US :: u64 where "LATE_LIMIT_US = 51200"
definition TO_TIMESTAMP_US :: u64 where "TO_TIMESTAMP_US = 192 + 24 * 8"
definition AP_FRAME :: nat where "AP_FRAME = 1600"

record ap_loop =
  lo_next_tbtt :: u64
  lo_beacon :: bytes
  lo_template :: "beacon_template option"
  lo_frame :: bytes
  lo_sweep :: u64

text \<open>What the loop waits for: the beacon's time, a frame from the air, a frame from the stack.\<close>

datatype ap_event = BeaconTime | FromAir bytes | FromStack bytes

text \<open>A TBTT too late for its beacon is counted and skipped, before the wait.\<close>

definition catch_up :: "u64 \<Rightarrow> ap_loop \<Rightarrow> 'k access_point \<Rightarrow> ap_loop \<times> 'k access_point" where
  "catch_up now lo ap =
     (if now > lo_next_tbtt lo + LATE_LIMIT_US
      then let to = (now div BEACON_INTERVAL_US + 1) * BEACON_INTERVAL_US
           in (lo\<lparr>lo_next_tbtt := to\<rparr>,
               set_stat ''TBTTS_SKIPPED'' (ap_stats ap ''TBTTS_SKIPPED'' + ucast ((to - lo_next_tbtt lo) div BEACON_INTERVAL_US)) ap)
      else (lo, ap))"

definition dtim_count_at :: "u64 \<Rightarrow> u8" where
  "dtim_count_at next_tbtt =
     (let tbtt = next_tbtt div BEACON_INTERVAL_US; period = ucast AP_DTIM_PERIOD
      in ucast ((period - tbtt mod period) mod period))"

definition after_beacon :: "'k ap_world \<Rightarrow> 'k access_point \<Rightarrow> 'k access_point option" where
  "after_beacon W ap =
     (let ap = resend_due W ap in
      case ask (w_clock W) ap of (now, ap) \<Rightarrow>
        if ap_rekey_due ap \<or> now \<ge> ap_rekey_at ap then begin_rekey W now ap else Some ap)"

text \<open>What the hook counts of a beacon's lateness; a beacon later than \<open>LATE_US\<close> is counted late.\<close>

definition LATE_US :: u64 where "LATE_US = 2000"

definition count_late :: "u64 \<Rightarrow> 'k access_point \<Rightarrow> 'k access_point" where
  "count_late late ap =
     (let most = (\<lambda>s ap. set_stat s (max (ap_stats ap s) (ucast late)) ap);
          ap = most ''BEACON_LATE_MAX_US'' (tally_if (late > LATE_US) ''BEACONS_LATE'' ap);
          ap = tally ''BEACON_HOOKS'' ap;
          ap = set_stat ''BEACON_LATE_SUM_US'' (ap_stats ap ''BEACON_LATE_SUM_US'' + ucast late) ap
      in most ''BEACON_WINDOW_MAX_US'' ap)"

text \<open>
  The beacon on the air, stamped by the hook that runs as it goes. \<open>beacon_buf[..len]\<close> and the timestamp's slice panic
  past their ends: \<open>None\<close>.
\<close>

definition send_beacon :: "'k ap_world \<Rightarrow> u64 \<Rightarrow> beacon_template \<Rightarrow> bytes \<Rightarrow> 'k access_point \<Rightarrow> (bytes \<times> 'k access_point) option" where
  "send_beacon W scheduled beacon buf ap =
     (if bt_len beacon > length buf then None
      else case ask (w_tsf W) ap of (hook, ap) \<Rightarrow>
        let ap = count_late (sat_sub hook scheduled) ap; frame = take (bt_len beacon) buf in
        if bt_timestamp_at beacon + 8 > length frame then None
        else
          let frame = write_at frame (bt_timestamp_at beacon) (le_bytes 8 (hook + TO_TIMESTAMP_US)) in
          case ask (w_acked W) (does (AirBeacon frame) ap) of (sent, ap) \<Rightarrow>
            Some (frame @ drop (bt_len beacon) buf, tally (if sent then ''BEACONS'' else ''BEACON_FAILURES'') ap))"

text \<open>The first result is whether the turn goes on to the housekeeping: a \<open>continue\<close> skips it.\<close>

definition on_beacon_time :: "'k ap_world \<Rightarrow> ap_loop \<Rightarrow> 'k access_point \<Rightarrow> (bool \<times> ap_loop \<times> 'k access_point) option" where
  "on_beacon_time W lo ap =
     (let scheduled = lo_next_tbtt lo;
          dtim_count = dtim_count_at scheduled;
          lo = lo\<lparr>lo_next_tbtt := scheduled + BEACON_INTERVAL_US\<rparr>;
          group_buffered = (held_group_count (ap_held ap) > 0);
          tim = stations_tim dtim_count AP_DTIM_PERIOD group_buffered (ap_stations ap)
      in case lo_template lo of None \<Rightarrow> Some (False, lo, ap) | Some beacon \<Rightarrow>
         if \<not> ap_beaconing ap then Some (False, lo, tally ''BEACONS_WITHHELD'' ap)
         else case frame_set_tim (lo_beacon lo) (bt_tim_at beacon) tim of None \<Rightarrow> Some (False, lo, ap) | Some buf \<Rightarrow>
           do {
             (buf, ap) \<leftarrow> send_beacon W scheduled beacon buf ap;
             ap \<leftarrow> (if dtim_count = 0 \<and> group_buffered then release_group W ap else Some ap);
             ap \<leftarrow> after_beacon W ap;
             Some (True, lo\<lparr>lo_beacon := buf\<rparr>, ap)
           })"

text \<open>A frame from the air, at most \<open>AP_FRAME\<close> bytes of it, over the one before in the task's buffer.\<close>

definition on_air :: "'k ap_world \<Rightarrow> bytes \<Rightarrow> ap_loop \<Rightarrow> 'k access_point \<Rightarrow> (ap_loop \<times> 'k access_point) option" where
  "on_air W received lo ap =
     (let f = take AP_FRAME received;
          lo = lo\<lparr>lo_frame := write_at (lo_frame lo) 0 f\<rparr>;
          fc0 = lo_frame lo ! 0; fc1 = lo_frame lo ! 1; kind = drop_bit 2 fc0 AND 3
      in case ask (w_clock W) ap of (now, ap) \<Rightarrow>
         map_option (Pair lo)
           (if kind = 0 then management W f now ap
            else if kind = 1 then control W f fc0 now ap
            else if kind = 2 then data_frame W f fc0 fc1 now ap
            else Some ap))"

text \<open>Every station sent away, and the stations gone quiet dropped: each turn of the loops removes one.\<close>

definition send_away :: "'k ap_world \<Rightarrow> ap_stat \<Rightarrow> u16 \<Rightarrow> bytes \<Rightarrow> 'k access_point \<Rightarrow> 'k access_point" where
  "send_away W stat reason a ap =
     reply W (frame_deauthentication (ap_bssid ap) a reason) (tally stat (forget a ap))"

partial_function (option) renumber_loop :: "'k ap_world \<Rightarrow> 'k access_point \<Rightarrow> 'k access_point option" where
  "renumber_loop W ap =
     (case filled (ap_stations ap) of [] \<Rightarrow> Some ap
      | s # _ \<Rightarrow> renumber_loop W (send_away W ''STATIONS_RENUMBERED'' PREV_AUTH_NOT_VALID (st_address s) ap))"

partial_function (option) sweep_loop :: "'k ap_world \<Rightarrow> u64 \<Rightarrow> 'k access_point \<Rightarrow> 'k access_point option" where
  "sweep_loop W now ap =
     (case stations_inactive now (ap_inactivity ap) (ap_stations ap) of None \<Rightarrow> Some ap
      | Some a \<Rightarrow> sweep_loop W now (send_away W ''DROPPED_INACTIVE'' INACTIVITY a ap))"

text \<open>The two counters that stamp and schedule beacons, set equal when they part; the sweep, every ten seconds.\<close>

definition check_stamp :: "'k ap_world \<Rightarrow> 'k access_point \<Rightarrow> 'k access_point" where
  "check_stamp W ap =
     (case ask (w_tsf W) ap of (stamp, ap) \<Rightarrow>
      case ask (w_tsf W) ap of (tsf, ap) \<Rightarrow>
        if (if stamp < tsf then tsf - stamp else stamp - tsf) > 100
        then (case ask (w_tsf W) ap of (t, ap) \<Rightarrow> tally ''STAMP_SYNCS'' (does (SyncStamp t) ap)) else ap)"

definition count_stations :: "'k access_point \<Rightarrow> 'k access_point" where
  "count_stations ap =
     set_stat ''DOZING_NOW'' (of_nat (length (filter st_power_save (filled (ap_stations ap)))))
       (set_stat ''STATIONS_NOW'' (of_nat (length (filled (ap_stations ap)))) ap)"

definition sweep :: "'k ap_world \<Rightarrow> ap_loop \<Rightarrow> 'k access_point \<Rightarrow> (ap_loop \<times> 'k access_point) option" where
  "sweep W lo ap =
     (case ask (w_clock W) ap of (now, ap) \<Rightarrow>
        if now - lo_sweep lo < 10000000 then Some (lo, ap)
        else case ask (w_clock W) ap of (swept, ap) \<Rightarrow>
             case ask (w_clock W) (check_stamp W ap) of (now, ap) \<Rightarrow>
               map_option (\<lambda>ap. (lo\<lparr>lo_sweep := swept\<rparr>, count_stations ap)) (sweep_loop W now ap))"

definition housekeeping :: "'k ap_world \<Rightarrow> ap_loop \<Rightarrow> 'k access_point \<Rightarrow> (ap_loop \<times> 'k access_point) option" where
  "housekeeping W lo ap =
     do {
       ap \<leftarrow> (if ap_renumber ap then renumber_loop W (ap\<lparr>ap_renumber := False\<rparr>) else Some ap);
       sweep W lo ap
     }"

definition ap_turn :: "'k ap_world \<Rightarrow> ap_event \<Rightarrow> ap_loop \<Rightarrow> 'k access_point \<Rightarrow> (ap_loop \<times> 'k access_point) option" where
  "ap_turn W ev lo ap =
     (case ask (w_tsf W) ap of (now, ap) \<Rightarrow>
      case catch_up now lo ap of (lo, ap) \<Rightarrow>
      do {
        (go_on, lo, ap) \<leftarrow> (case ev of
            BeaconTime \<Rightarrow> on_beacon_time W lo ap
          | FromAir f \<Rightarrow> map_option (Pair True) (on_air W f lo ap)
          | FromStack eth \<Rightarrow>
              map_option (\<lambda>ap. (True, lo, ap)) (if length eth \<ge> 14 then deliver W eth ap else Some ap));
        if go_on then housekeeping W lo ap else Some (lo, ap)
      })"

text \<open>
  The access point as it is set up (\<open>host_on\<close>) and the task as it starts. A name of more than 32 bytes panics. The two
  key slots, the random key, the PMK and the clock's first readings are arguments.
\<close>

definition GTK_KEY_ID :: u8 where "GTK_KEY_ID = 1"

definition ap_start :: "bss \<Rightarrow> bytes \<Rightarrow> bytes \<Rightarrow> nat \<Rightarrow> nat \<Rightarrow> bool \<Rightarrow> u64 \<Rightarrow> u64 \<Rightarrow> u64 \<Rightarrow> bytes \<Rightarrow> 'k access_point option" where
  "ap_start bss pmk random slot0 slot1 software_crypto now rekey_interval inactivity own_ip =
     (if length (bs_ssid bss) > 32 then None
      else
        let (probe, probe_len) =
          (case frame_probe_response (replicate 256 0) bss BROADCAST of Some r \<Rightarrow> r | None \<Rightarrow> (replicate 256 0, 0))
        in Some
          \<lparr>ap_bss = bss, ap_stations = stations_new,
           ap_peers = replicate MAX_STATIONS None, ap_pmk = pmk, ap_gtk = new_group_key random GTK_KEY_ID, ap_pending_gtk = None,
           ap_gtk_slots = [slot0, slot1], ap_gtk_slot_in_use = 0, ap_software_crypto = software_crypto, ap_group_pn = 0,
           ap_rekey_at = now + rekey_interval, ap_rekey_due = False, ap_rekey_interval = rekey_interval,
           ap_inactivity = inactivity, ap_held = held_new, ap_probe = probe, ap_probe_len = probe_len,
           ap_release_buf = Some (replicate FORWARD_BYTES 0), ap_own_ip = own_ip, ap_admitting = True, ap_beaconing = True,
           ap_relay_background = False, ap_renumber = False, ap_stats = (\<lambda>_. 0), ap_asked = 0,
           ap_done = [SetGroupKey slot0 GTK_KEY_ID random]\<rparr>)"

definition tim_default :: tim where
  "tim_default = \<lparr>tim_dtim_count = 0, tim_dtim_period = 0, tim_group_buffered = False, tim_buffered_aids = 0\<rparr>"

definition task_start :: "'k ap_world \<Rightarrow> 'k access_point \<Rightarrow> ap_loop \<times> 'k access_point" where
  "task_start W ap =
     (case ask (w_clock W) ap of (now, ap) \<Rightarrow>
      case ask (w_tsf W) ap of (tsf, ap) \<Rightarrow>
      let (buf, template) =
        (case frame_beacon (replicate 512 0) (ap_bss ap) tim_default of
           Some (buf, t) \<Rightarrow> (buf, Some t) | None \<Rightarrow> (replicate 512 0, None))
      in case ask (w_tsf W) ap of (t, ap) \<Rightarrow>
         (\<lparr>lo_next_tbtt = (tsf div BEACON_INTERVAL_US + 1) * BEACON_INTERVAL_US, lo_beacon = buf, lo_template = template,
           lo_frame = replicate AP_FRAME 0, lo_sweep = now\<rparr>,
          tally ''STAMP_SYNCS'' (does (SyncStamp t) ap)))"

text \<open>What other tasks may set between two turns: whether to beacon, to admit, to relay as background, to renumber.\<close>

datatype ap_switch = SetBeaconing bool | SetAdmitting bool | SetRelayBackground bool | RenumberStations

fun ap_flip :: "ap_switch \<Rightarrow> 'k access_point \<Rightarrow> 'k access_point" where
  "ap_flip (SetBeaconing on) ap = ap\<lparr>ap_beaconing := on\<rparr>"
| "ap_flip (SetAdmitting on) ap = ap\<lparr>ap_admitting := on\<rparr>"
| "ap_flip (SetRelayBackground on) ap = ap\<lparr>ap_relay_background := on\<rparr>"
| "ap_flip RenumberStations ap = ap\<lparr>ap_renumber := True\<rparr>"

fun ap_run :: "'k ap_world \<Rightarrow> (ap_switch list \<times> ap_event) list \<Rightarrow> ap_loop \<Rightarrow> 'k access_point \<Rightarrow> (ap_loop \<times> 'k access_point) option" where
  "ap_run W [] lo ap = Some (lo, ap)"
| "ap_run W ((switches, ev) # evs) lo ap =
     Option.bind (ap_turn W ev lo (fold ap_flip switches ap)) (\<lambda>(lo, ap). ap_run W evs lo ap)"

text \<open>From the start on.\<close>

definition ap_task :: "'k ap_world \<Rightarrow> (ap_switch list \<times> ap_event) list \<Rightarrow> 'k access_point \<Rightarrow> (ap_loop \<times> 'k access_point) option" where
  "ap_task W evs ap = (case task_start W ap of (lo, ap) \<Rightarrow> ap_run W evs lo ap)"

end
