(* ===== verification/Ap_Turn.thy ===== *)
theory Ap_Turn
  imports Access_Point
begin

text \<open>
  Every turn of the access point's task returns: the loops that release held frames, send stations away and drop the
  quiet ones end, and no slice, copy or index runs past its buffer, whatever the air and the stack bring.
\<close>

section \<open>Slots\<close>

lemma slot_find_update:
  "(\<And>x. P (f x) \<longleftrightarrow> P x) \<Longrightarrow> slot_find P (slot_update P (\<lambda>x. Some (f x)) xs) = map_option f (slot_find P xs)"
  by (induction xs rule: slots_induct) auto

lemma slot_find_update_other:
  "(\<And>x. Q x \<Longrightarrow> \<not> P x \<and> \<not> P (f x)) \<Longrightarrow> slot_find P (slot_update Q (\<lambda>x. Some (f x)) xs) = slot_find P xs"
  by (induction xs rule: slots_induct) auto

lemma length_slot_update [simp]: "length (slot_update P f xs) = length xs"
  by (induction xs rule: slots_induct) auto

lemma filled_simps [simp]: "filled [] = []" "filled (None # xs) = filled xs" "filled (Some x # xs) = x # filled xs"
  by (simp_all add: filled_def List.map_filter_def)

lemma slot_find_Some: "slot_find P xs = Some x \<Longrightarrow> P x \<and> x \<in> set (filled xs)"
  by (induction xs rule: slots_induct) (auto split: if_splits)

lemma slot_find_None: "slot_find P xs = None \<longleftrightarrow> (\<forall>x\<in>set (filled xs). \<not> P x)"
  by (induction xs rule: slots_induct) auto

lemma peer_update_same [simp]:
  "(\<And>p. pe_address (f p) = pe_address p) \<Longrightarrow>
   peer a (peer_update b f ap) = (if a = b then map_option f (peer a ap) else peer a ap)"
  by (auto simp: peer_def peer_update_def intro!: slot_find_update slot_find_update_other)

section \<open>Stations\<close>

text \<open>The RSN element kept for a station lies in its array.\<close>

definition stations_wf :: "stations \<Rightarrow> bool" where
  "stations_wf ss \<longleftrightarrow> (\<forall>s\<in>set (filled ss). st_rsne_len s \<le> length (st_rsne s))"

lemma filled_slot_update:
  "set (filled (slot_update P f xs)) \<subseteq> set (filled xs) \<union> {y. \<exists>x\<in>set (filled xs). P x \<and> f x = Some y}"
proof (induction xs rule: slots_induct)
  case (Some x xs)
  then show ?case
    by (cases "f x") auto
qed auto

lemma stations_wf_map:
  assumes "stations_wf ss" "\<And>s. st_rsne_len s \<le> length (st_rsne s) \<Longrightarrow> st_rsne_len (f s) \<le> length (st_rsne (f s))"
  shows "stations_wf (stations_map a f ss)"
  using assms filled_slot_update[of "\<lambda>s. st_address s = a" "\<lambda>s. Some (f s)" ss]
  unfolding stations_wf_def stations_map_def by fastforce

lemma filled_list_update: "i < length xs \<Longrightarrow> xs ! i = None \<Longrightarrow> set (filled (xs[i := Some y])) = insert y (set (filled xs))"
proof (induction xs arbitrary: i)
  case (Cons x xs)
  then show ?case by (cases i; cases x) auto
qed simp

lemma stations_wf_ops [simp]:
  assumes "stations_wf ss"
  shows "stations_wf (stations_set_queued a n ss)" "stations_wf (stations_heard a now ps ss)" "stations_wf (stations_connected a ss)"
    "stations_wf (stations_set_capabilities a q h ss)" "stations_wf (snd (stations_authenticate a al sq ss))"
    "stations_wf (snd (stations_associate c a m e p ss))" "stations_wf (stations_remove a ss)"
    "stations_wf (snd (stations_heard_was a now ps ss))"
proof -
  show "stations_wf (stations_set_queued a n ss)" "stations_wf (stations_heard a now ps ss)" "stations_wf (stations_connected a ss)"
    "stations_wf (stations_set_capabilities a q h ss)"
    unfolding stations_set_queued_def stations_heard_def stations_connected_def stations_set_capabilities_def
    by (rule stations_wf_map[OF assms]; simp)+
  then show "stations_wf (snd (stations_heard_was a now ps ss))"
    by (simp add: stations_heard_was_def)
  have "st_rsne_len (station_fresh a) \<le> length (st_rsne (station_fresh a))"
    by (simp add: station_fresh_def)
  with assms show "stations_wf (snd (stations_authenticate a al sq ss))"
    by (auto simp: stations_authenticate_def stations_wf_map stations_wf_def[of "ss[_ := _]"] filled_list_update
        dest!: position_Some split: option.splits) (auto simp: stations_wf_def)
  have laid: "stations_wf (stations_map a (\<lambda>st. st\<lparr>st_aid := aid, st_state := x, st_rsne := write_at (st_rsne st) 0 e', st_rsne_len := length e'\<rparr>) ss)"
    for aid x e'
    by (rule stations_wf_map[OF assms]) (simp add: write_at_0)
  with assms laid[where e' = "[]"] show "stations_wf (snd (stations_associate c a m e p ss))"
    by (auto simp: stations_associate_def Let_def split: option.splits)
  show "stations_wf (stations_remove a ss)"
    using assms filled_slot_update[of "\<lambda>s. st_address s = a" "\<lambda>_. None" ss]
    unfolding stations_remove_def stations_wf_def by fastforce
qed

lemma stations_wf_results:
  "stations_associate c a m e p ss = (r, ss') \<Longrightarrow> stations_wf ss \<Longrightarrow> stations_wf ss'"
  "stations_heard_was a now ps ss = (r'', ss') \<Longrightarrow> stations_wf ss \<Longrightarrow> stations_wf ss'"
  using stations_wf_ops by (metis snd_conv)+

lemma rsn_element_returns: "stations_wf ss \<Longrightarrow> stations_get a ss = Some s \<Longrightarrow> \<exists>e. rsn_element s = Some e"
  by (auto simp: stations_wf_def stations_get_def rsn_element_def slice_get_def dest!: slot_find_Some)

section \<open>What sending keeps\<close>

lemmas ap_prims = tally_def tally_if_def does_def set_stat_def ask_def with_stations_def

definition wanted :: "bytes \<Rightarrow> 'k access_point \<Rightarrow> bool" where
  "wanted a ap = (case peer a ap of Some p \<Rightarrow> pe_group_key_wanted p | None \<Rightarrow> False)"

text \<open>What only the release loops touch, and what is fixed.\<close>

definition pool_of :: "'k access_point \<Rightarrow> held \<times> bytes option" where
  "pool_of ap = (ap_held ap, ap_release_buf ap)"

definition fixed_of :: "'k access_point \<Rightarrow> bytes \<times> nat \<times> nat list" where
  "fixed_of ap = (ap_probe ap, ap_probe_len ap, ap_gtk_slots ap)"

text \<open>The slot in use is one of the two, and the stations' elements lie in their arrays.\<close>

definition ap_live :: "'k access_point \<Rightarrow> bool" where
  "ap_live ap \<longleftrightarrow> ap_gtk_slot_in_use ap \<le> 1 \<and> stations_wf (ap_stations ap)"

definition slots_ok :: "'k access_point \<Rightarrow> bool" where
  "slots_ok ap \<longleftrightarrow> length (ap_gtk_slots ap) = 2 \<and> ap_gtk_slot_in_use ap \<le> 1"

definition ap_wf :: "'k access_point \<Rightarrow> bool" where
  "ap_wf ap \<longleftrightarrow> held_wf (ap_held ap) \<and> (\<exists>b. ap_release_buf ap = Some b \<and> length b = FORWARD_BYTES) \<and>
     32 \<le> ap_probe_len ap \<and> ap_probe_len ap \<le> length (ap_probe ap) \<and> length (ap_gtk_slots ap) = 2 \<and> ap_live ap"

lemma ap_wf_I: "ap_wf ap \<Longrightarrow> pool_of ap' = pool_of ap \<Longrightarrow> fixed_of ap' = fixed_of ap \<Longrightarrow> ap_live ap' \<Longrightarrow> ap_wf ap'"
  by (simp add: ap_wf_def pool_of_def fixed_of_def)

lemma ap_wf_D: "ap_wf ap \<Longrightarrow> ap_live ap" "ap_wf ap \<Longrightarrow> slots_ok ap"
  by (simp_all add: ap_wf_def ap_live_def slots_ok_def)

named_theorems keeps \<open>operations that leave the pool, the copy buffer and what is fixed alone\<close>
named_theorems live \<open>operations that keep the slot in use and the stations well-formed\<close>

lemma keeps_prims [keeps]:
  "pool_of (tally s ap) = pool_of ap" "pool_of (tally_if b s ap) = pool_of ap" "pool_of (does e ap) = pool_of ap"
  "pool_of (set_stat s n ap) = pool_of ap" "pool_of (with_stations h ap) = pool_of ap" "pool_of (peer_update a f ap) = pool_of ap"
  "pool_of (ap\<lparr>ap_asked := k\<rparr>) = pool_of ap" "pool_of (ap\<lparr>ap_stations := ss\<rparr>) = pool_of ap" "pool_of (ap\<lparr>ap_group_pn := pn\<rparr>) = pool_of ap"
  "pool_of (ap\<lparr>ap_pending_gtk := g\<rparr>) = pool_of ap" "pool_of (ap\<lparr>ap_renumber := b\<rparr>) = pool_of ap"
  "pool_of (ap\<lparr>ap_rekey_due := b, ap_rekey_at := t\<rparr>) = pool_of ap" "pool_of (ap\<lparr>ap_peers := ps\<rparr>) = pool_of ap"
  "pool_of (ap\<lparr>ap_pending_gtk := g, ap_gtk := k', ap_gtk_slot_in_use := u\<rparr>) = pool_of ap"
  "fixed_of (tally s ap) = fixed_of ap" "fixed_of (tally_if b s ap) = fixed_of ap" "fixed_of (does e ap) = fixed_of ap"
  "fixed_of (set_stat s n ap) = fixed_of ap" "fixed_of (with_stations h ap) = fixed_of ap" "fixed_of (peer_update a f ap) = fixed_of ap"
  "fixed_of (ap\<lparr>ap_asked := k\<rparr>) = fixed_of ap" "fixed_of (ap\<lparr>ap_stations := ss\<rparr>) = fixed_of ap" "fixed_of (ap\<lparr>ap_group_pn := pn\<rparr>) = fixed_of ap"
  "fixed_of (ap\<lparr>ap_pending_gtk := g\<rparr>) = fixed_of ap" "fixed_of (ap\<lparr>ap_renumber := b\<rparr>) = fixed_of ap"
  "fixed_of (ap\<lparr>ap_rekey_due := b, ap_rekey_at := t\<rparr>) = fixed_of ap" "fixed_of (ap\<lparr>ap_peers := ps\<rparr>) = fixed_of ap"
  "fixed_of (ap\<lparr>ap_pending_gtk := g, ap_gtk := k', ap_gtk_slot_in_use := u\<rparr>) = fixed_of ap"
  "fixed_of (ap\<lparr>ap_held := h'\<rparr>) = fixed_of ap" "fixed_of (ap\<lparr>ap_release_buf := rb\<rparr>) = fixed_of ap"
  "fixed_of (ap\<lparr>ap_held := h', ap_release_buf := rb\<rparr>) = fixed_of ap"
  by (simp_all add: pool_of_def fixed_of_def ap_prims peer_update_def)

lemma live_prims [live]:
  "ap_live (tally s ap) = ap_live ap" "ap_live (tally_if b s ap) = ap_live ap" "ap_live (does e ap) = ap_live ap"
  "ap_live (set_stat s n ap) = ap_live ap" "ap_live (peer_update a f ap) = ap_live ap"
  "ap_live (ap\<lparr>ap_asked := k\<rparr>) = ap_live ap" "ap_live (ap\<lparr>ap_group_pn := pn\<rparr>) = ap_live ap"
  "ap_live (ap\<lparr>ap_pending_gtk := g\<rparr>) = ap_live ap" "ap_live (ap\<lparr>ap_renumber := b\<rparr>) = ap_live ap"
  "ap_live (ap\<lparr>ap_rekey_due := b, ap_rekey_at := t\<rparr>) = ap_live ap" "ap_live (ap\<lparr>ap_peers := ps\<rparr>) = ap_live ap"
  "ap_live (ap\<lparr>ap_held := h'\<rparr>) = ap_live ap" "ap_live (ap\<lparr>ap_release_buf := rb\<rparr>) = ap_live ap"
  "ap_live (ap\<lparr>ap_held := h', ap_release_buf := rb\<rparr>) = ap_live ap"
  by (simp_all add: ap_live_def ap_prims peer_update_def)

lemma live_stations [live]:
  "ap_live ap \<Longrightarrow> stations_wf (h (ap_stations ap)) \<Longrightarrow> ap_live (with_stations h ap)"
  "ap_live ap \<Longrightarrow> stations_wf ss \<Longrightarrow> ap_live (ap\<lparr>ap_stations := ss\<rparr>)"
  "ap_live ap \<Longrightarrow> stations_wf (ap_stations ap)"
  by (simp_all add: ap_live_def with_stations_def)

text \<open>What sending a frame leaves alone; the stations' associations change only in their counters and ladders.\<close>

definition peer_rest :: "'k ap_peer \<Rightarrow> 'k ap_peer" where
  "peer_rest p = p\<lparr>pe_tx_pn := 0, pe_ladder := ladder_new None\<rparr>"

definition same_but_sent :: "'k access_point \<Rightarrow> 'k access_point \<Rightarrow> bool" where
  "same_but_sent ap ap' \<longleftrightarrow> pool_of ap' = pool_of ap \<and> fixed_of ap' = fixed_of ap \<and> ap_stations ap' = ap_stations ap \<and>
     ap_gtk_slot_in_use ap' = ap_gtk_slot_in_use ap \<and> map (map_option peer_rest) (ap_peers ap') = map (map_option peer_rest) (ap_peers ap)"

lemma same_but_sent_refl [simp]: "same_but_sent ap ap"
  by (simp add: same_but_sent_def)

lemma same_but_sent_trans: "same_but_sent a b \<Longrightarrow> same_but_sent b c \<Longrightarrow> same_but_sent a c"
  by (simp add: same_but_sent_def)

lemma same_but_sent_prims [simp]:
  "same_but_sent ap (tally s ap') = same_but_sent ap ap'" "same_but_sent ap (tally_if b s ap') = same_but_sent ap ap'"
  "same_but_sent ap (does e ap') = same_but_sent ap ap'" "same_but_sent ap (ap'\<lparr>ap_group_pn := n\<rparr>) = same_but_sent ap ap'"
  "same_but_sent ap (ap'\<lparr>ap_asked := k\<rparr>) = same_but_sent ap ap'"
  by (simp_all add: same_but_sent_def keeps) (simp_all add: ap_prims)

lemma same_but_sent_peer [simp]:
  "same_but_sent ap (peer_update a (\<lambda>p. p\<lparr>pe_tx_pn := pn\<rparr>) ap') = same_but_sent ap ap'"
  "same_but_sent ap (peer_update a (\<lambda>p. p\<lparr>pe_ladder := l\<rparr>) ap') = same_but_sent ap ap'"
proof -
  have "map (map_option peer_rest) (slot_update P (\<lambda>p. Some (f p)) xs) = map (map_option peer_rest) xs"
    if "\<And>p. peer_rest (f p) = peer_rest p" for P f and xs :: "'a ap_peer option list"
    using that by (induction xs rule: slots_induct) auto
  then show "same_but_sent ap (peer_update a (\<lambda>p. p\<lparr>pe_tx_pn := pn\<rparr>) ap') = same_but_sent ap ap'"
    "same_but_sent ap (peer_update a (\<lambda>p. p\<lparr>pe_ladder := l\<rparr>) ap') = same_but_sent ap ap'"
    by (simp_all add: same_but_sent_def keeps) (simp_all add: peer_update_def peer_rest_def)
qed

lemma learn_ack_sent: "same_but_sent ap ap' \<Longrightarrow> same_but_sent ap (learn_ack W dest ap')"
  by (simp add: learn_ack_def ask_def Let_def split: option.splits prod.splits)

lemma count_sent_sent: "same_but_sent ap (count_sent q r ap') = same_but_sent ap ap'"
  by (simp add: count_sent_def)

lemma transmit_open_sent: "same_but_sent ap ap' \<Longrightarrow> same_but_sent ap (transmit_open W dest src et payload m grp cat up ap')"
  unfolding transmit_open_def ask_def Let_def
  by (cases grp; cases "peer dest ap'") (simp_all add: learn_ack_sent count_sent_sent)

lemma slots_ok_sent: "same_but_sent ap ap' \<Longrightarrow> slots_ok ap \<Longrightarrow> slots_ok ap'"
  by (simp add: same_but_sent_def slots_ok_def fixed_of_def)

lemma index_in_use: "slots_ok ap \<Longrightarrow> \<exists>slot. index_get (ap_gtk_slots ap) (unat (ap_gtk_slot_in_use ap)) = Some slot"
  by (auto simp: slots_ok_def index_get_def word_le_nat_alt)

lemma protection_returns:
  assumes "slots_ok ap'" "same_but_sent ap ap'"
  shows "\<exists>how ap''. protection W grp dest ap' = Some (how, ap'') \<and> same_but_sent ap ap''"
proof (cases grp)
  case True
  with index_in_use[OF assms(1)] assms(2) show ?thesis
    by (auto simp: protection_def Let_def)
next
  case False
  with assms(2) show ?thesis
    by (cases "peer dest ap'") (auto simp: protection_def Let_def split: option.split)
qed

lemma encapsulate_sent: "same_but_sent ap ap' \<Longrightarrow> same_but_sent ap (snd (encapsulate W frame key ap'))"
  by (simp add: encapsulate_def split: option.splits)

lemma protect_sent: "same_but_sent ap ap' \<Longrightarrow> same_but_sent ap (snd (protect W frame key ap'))"
  by (simp add: protect_def encapsulate_sent)

lemma send_protected_sent:
  assumes "same_but_sent ap ap'"
  shows "same_but_sent ap (send_protected W dest src et payload m grp cat up how ap')"
proof (cases how)
  case None
  with assms show ?thesis
    by (simp add: send_protected_def)
next
  case (Some how')
  obtain slot key key_id pn q rate where h: "how' = (slot, key, key_id, pn, q, rate)"
    by (metis prod_cases6)
  let ?frame = "protected_frame q m dest (ap_bssid ap') src up pn key_id et payload"
  obtain res ap2 where e: "protect W ?frame key (ap'\<lparr>ap_asked := Suc (ap_asked ap')\<rparr>) = (res, ap2)"
    by fastforce
  have "same_but_sent ap ap2"
    using protect_sent[of ap "ap'\<lparr>ap_asked := Suc (ap_asked ap')\<rparr>" W ?frame key] assms e by simp
  then show ?thesis
    using assms by (cases res) (simp_all add: send_protected_def Some h ask_def e Let_def count_sent_sent learn_ack_sent)
qed

text \<open>A frame is sent: no index panics, and nothing but counters and ladders changes.\<close>

lemma transmit_returns:
  assumes "slots_ok ap"
  shows "\<exists>ap'. transmit W eth m ap = Some ap' \<and> same_but_sent ap ap'"
proof -
  have "\<exists>ap'. transmit_protected W dest src et payload m grp cat up (tally_if b s ap) = Some ap' \<and> same_but_sent ap ap'"
    for dest src et payload grp cat up b s
  proof -
    have "slots_ok (tally_if b s ap)"
      using slots_ok_sent[of ap "tally_if b s ap"] assms by simp
    from protection_returns[OF this, of ap W grp dest] obtain how ap'' where
      "protection W grp dest (tally_if b s ap) = Some (how, ap'')" "same_but_sent ap ap''"
      by auto
    then show ?thesis
      by (simp add: transmit_protected_def send_protected_sent)
  qed
  then show ?thesis
    unfolding transmit_def Let_def by (simp add: transmit_open_sent)
qed

lemma live_sent: "same_but_sent ap ap' \<Longrightarrow> ap_live ap \<Longrightarrow> ap_live ap'"
  by (simp add: same_but_sent_def ap_live_def)

section \<open>What each operation keeps\<close>

lemma keeps_send_reply [keeps]: "pool_of (send_reply W frame ap) = pool_of ap" "fixed_of (send_reply W frame ap) = fixed_of ap"
  by (simp_all add: send_reply_def ask_def keeps)

lemma live_send_reply [live]: "ap_live (send_reply W frame ap) = ap_live ap"
  by (simp add: send_reply_def ask_def live)

lemma keeps_reply [keeps]: "pool_of (reply W f ap) = pool_of ap" "fixed_of (reply W f ap) = fixed_of ap"
  by (simp_all add: reply_def ask_def keeps split: option.splits)

lemma live_reply [live]: "ap_live (reply W f ap) = ap_live ap"
  by (simp add: reply_def ask_def live split: option.splits)

lemma keeps_refresh [keeps]: "pool_of (refresh_queued a ap) = pool_of ap" "fixed_of (refresh_queued a ap) = fixed_of ap"
  by (simp_all add: refresh_queued_def Let_def keeps)

lemma live_refresh [live]: "ap_live ap \<Longrightarrow> ap_live (refresh_queued a ap)"
  by (simp add: refresh_queued_def Let_def live)

lemma keeps_protect:
  "protect W frame key ap = (res, ap') \<Longrightarrow> pool_of ap' = pool_of ap \<and> fixed_of ap' = fixed_of ap \<and> ap_live ap' = ap_live ap"
  by (auto simp: protect_def encapsulate_def keeps live split: if_splits option.splits)

lemma keeps_group_message_1 [keeps]:
  "pool_of (transmit_group_message_1 W a fresh ap) = pool_of ap" "fixed_of (transmit_group_message_1 W a fresh ap) = fixed_of ap"
  by (auto simp: transmit_group_message_1_def ask_def Let_def keeps dest!: keeps_protect split: option.splits prod.splits)

lemma live_group_message_1 [live]: "ap_live (transmit_group_message_1 W a fresh ap) = ap_live ap"
  by (auto simp: transmit_group_message_1_def ask_def Let_def live dest!: keeps_protect split: option.splits prod.splits)

lemma keeps_send_group_message_1 [keeps]:
  "pool_of (send_group_message_1 W a fresh ap) = pool_of ap" "fixed_of (send_group_message_1 W a fresh ap) = fixed_of ap"
  by (simp_all add: send_group_message_1_def keeps)

lemma live_send_group_message_1 [live]: "ap_live ap \<Longrightarrow> ap_live (send_group_message_1 W a fresh ap)"
  by (simp add: send_group_message_1_def live)

lemma other_slot: "(u :: u32) \<le> 1 \<Longrightarrow> 1 - u \<le> 1"
proof -
  assume "u \<le> 1"
  then have "unat u = 0 \<or> unat u = 1"
    by (auto simp: word_le_nat_alt)
  then have "u = 0 \<or> u = 1"
    by (auto simp: word_unat_eq_iff)
  then show ?thesis
    by auto
qed

lemma keeps_finish_rekey [keeps]:
  "pool_of (finish_rekey_if_done ap) = pool_of ap" "fixed_of (finish_rekey_if_done ap) = fixed_of ap"
  by (simp_all add: finish_rekey_if_done_def keeps split: option.splits)

lemma live_finish_rekey [live]: "ap_live ap \<Longrightarrow> ap_live (finish_rekey_if_done ap)"
  by (auto simp: finish_rekey_if_done_def ap_live_def tally_def other_slot split: option.splits)

lemma keeps_fold [keeps]:
  "pool_of (fold (\<lambda>a ap. send_group_message_1 W a True (peer_update a f ap)) as ap) = pool_of ap"
  "fixed_of (fold (\<lambda>a ap. send_group_message_1 W a True (peer_update a f ap)) as ap) = fixed_of ap"
  by (induction as arbitrary: ap) (simp_all add: keeps)

lemma live_fold [live]:
  "ap_live ap \<Longrightarrow> ap_live (fold (\<lambda>a ap. send_group_message_1 W a True (peer_update a f ap)) as ap)"
  by (induction as arbitrary: ap) (simp_all add: live)

lemma begin_rekey_returns:
  assumes "ap_wf ap"
  shows "\<exists>ap'. begin_rekey W now ap = Some ap' \<and> ap_wf ap'"
proof -
  have "ap_gtk_slot_in_use ap \<le> 1" "length (ap_gtk_slots ap) = 2"
    using assms by (simp_all add: ap_wf_def ap_live_def)
  then obtain slot where slot: "index_get (ap_gtk_slots ap) (unat (1 - ap_gtk_slot_in_use ap)) = Some slot"
    using other_slot[of "ap_gtk_slot_in_use ap"] by (auto simp: index_get_def word_le_nat_alt)
  show ?thesis
    using ap_wf_D(1)[OF assms] slot unfolding begin_rekey_def ask_def Let_def
    by (auto intro!: ap_wf_I[OF assms] simp: keeps live)
qed

lemma keeps_messages [keeps]:
  "pool_of (send_message_1 W a fresh ap) = pool_of ap" "pool_of (send_message_3 W a fresh ap) = pool_of ap"
  "fixed_of (send_message_1 W a fresh ap) = fixed_of ap" "fixed_of (send_message_3 W a fresh ap) = fixed_of ap"
  by (simp_all add: send_message_1_def send_message_3_def ask_def Let_def keeps split: option.splits prod.splits)

lemma live_messages [live]: "ap_live (send_message_1 W a fresh ap) = ap_live ap" "ap_live (send_message_3 W a fresh ap) = ap_live ap"
  by (simp_all add: send_message_1_def send_message_3_def ask_def Let_def live split: option.splits prod.splits)

lemma keeps_peer_place: "peer_place p ap = Some ap' \<Longrightarrow> pool_of ap' = pool_of ap \<and> fixed_of ap' = fixed_of ap \<and> ap_live ap' = ap_live ap"
  by (auto simp: peer_place_def keeps live split: option.splits)

lemma keeps_begin_handshake [keeps]:
  "pool_of (begin_handshake W a ap) = pool_of ap" "fixed_of (begin_handshake W a ap) = fixed_of ap"
  by (auto simp: begin_handshake_def ask_def Let_def keeps dest!: keeps_peer_place split: option.splits)

lemma live_begin_handshake [live]: "ap_live ap \<Longrightarrow> ap_live (begin_handshake W a ap)"
  by (auto simp: begin_handshake_def ask_def Let_def live dest!: keeps_peer_place split: option.split)

lemma ap_wf_prims [simp]:
  "ap_wf (tally s ap) = ap_wf ap" "ap_wf (tally_if b s ap) = ap_wf ap" "ap_wf (does e ap) = ap_wf ap"
  "ap_wf (set_stat s n ap) = ap_wf ap" "ap_wf (peer_update a f ap) = ap_wf ap" "ap_wf (ap\<lparr>ap_asked := k\<rparr>) = ap_wf ap"
  "ap_wf (ap\<lparr>ap_renumber := b\<rparr>) = ap_wf ap" "ap_wf (reply W frame' ap) = ap_wf ap" "ap_wf (send_reply W frame ap) = ap_wf ap"
  "ap_wf (transmit_group_message_1 W a fresh ap) = ap_wf ap" "ap_wf (send_message_1 W a fresh ap) = ap_wf ap"
  "ap_wf (send_message_3 W a fresh ap) = ap_wf ap"
proof -
  have same: "ap_wf ap' = ap_wf ap" if "pool_of ap' = pool_of ap" "fixed_of ap' = fixed_of ap" "ap_live ap' = ap_live ap"
    for ap ap' :: "'a access_point"
    using that ap_wf_I[of ap ap'] ap_wf_I[of ap' ap] ap_wf_D(1) by metis
  show "ap_wf (tally s ap) = ap_wf ap" "ap_wf (tally_if b s ap) = ap_wf ap" "ap_wf (does e ap) = ap_wf ap"
    "ap_wf (set_stat s n ap) = ap_wf ap" "ap_wf (peer_update a f ap) = ap_wf ap" "ap_wf (ap\<lparr>ap_asked := k\<rparr>) = ap_wf ap"
    "ap_wf (ap\<lparr>ap_renumber := b\<rparr>) = ap_wf ap" "ap_wf (reply W frame' ap) = ap_wf ap" "ap_wf (send_reply W frame ap) = ap_wf ap"
    "ap_wf (transmit_group_message_1 W a fresh ap) = ap_wf ap" "ap_wf (send_message_1 W a fresh ap) = ap_wf ap"
    "ap_wf (send_message_3 W a fresh ap) = ap_wf ap"
    by (rule same; simp add: keeps live)+
qed

lemma ap_wf_ops [simp]:
  assumes "ap_wf ap"
  shows "stations_wf (h (ap_stations ap)) \<Longrightarrow> ap_wf (with_stations h ap)" "stations_wf ss \<Longrightarrow> ap_wf (ap\<lparr>ap_stations := ss\<rparr>)"
    "ap_wf (refresh_queued a ap)" "ap_wf (send_group_message_1 W a fresh ap)" "ap_wf (finish_rekey_if_done ap)"
    "ap_wf (begin_handshake W a ap)"
  using ap_wf_D(1)[OF assms] by (auto intro!: ap_wf_I[OF assms] simp: keeps live)

lemma ap_wf_associated:
  "stations_associate c a m e p (ap_stations ap) = (r, ss') \<Longrightarrow> ap_wf ap \<Longrightarrow> ap_wf (ap\<lparr>ap_stations := ss'\<rparr>)"
  using stations_wf_results(1) by (fastforce simp: ap_wf_def ap_live_def)

lemma ap_wf_stations [simp]: "ap_wf ap \<Longrightarrow> stations_wf (ap_stations ap)"
  by (simp add: ap_wf_def ap_live_def)

lemma ap_wf_group_eapol [simp]: "ap_wf ap \<Longrightarrow> ap_wf (group_eapol W a plain ap)"
  by (simp add: group_eapol_def split: option.splits)

lemma ap_wf_on_message [simp]:
  "ap_wf ap \<Longrightarrow> ap_wf (on_message_2 W a frame rsn p ap)" "ap_wf ap \<Longrightarrow> ap_wf (on_message_4 W a frame p ap)"
  by (auto simp: on_message_2_def on_message_4_def ask_def split: option.split sum.split)

lemma eapol_returns: "ap_wf ap \<Longrightarrow> \<exists>ap'. eapol W a frame ap = Some ap' \<and> ap_wf ap'"
proof (cases "stations_get a (ap_stations ap)")
  case (Some st)
  assume wf: "ap_wf ap"
  then obtain e where "rsn_element st = Some e"
    using rsn_element_returns[OF _ Some] by auto
  with Some wf show ?thesis
    by (auto simp: eapol_def split: option.split stage.split)
qed (simp add: eapol_def)

lemma ap_wf_forget [simp]: "ap_wf ap \<Longrightarrow> ap_wf (forget a ap)"
  by (simp add: ap_wf_def ap_live_def forget_def Let_def held_clear_wf)

text \<open>Delivering a frame needs no copy buffer: it runs while a release holds it.\<close>

lemma held_live_I:
  assumes "pool_of ap' = (h, ap_release_buf ap)" "held_wf h" "fixed_of ap' = fixed_of ap" "ap_live ap'"
  shows "held_wf (ap_held ap') \<and> ap_release_buf ap' = ap_release_buf ap \<and> fixed_of ap' = fixed_of ap \<and> ap_live ap'"
  using assms by (simp add: pool_of_def)

lemma pool_of_held: "pool_of (ap\<lparr>ap_held := h\<rparr>) = (h, ap_release_buf ap)"
  by (simp add: pool_of_def)

lemma deliver_returns:
  assumes "slots_ok ap" "held_wf (ap_held ap)" "ap_live ap"
  shows "\<exists>ap'. deliver W eth ap = Some ap' \<and> held_wf (ap_held ap') \<and> ap_release_buf ap' = ap_release_buf ap \<and>
    fixed_of ap' = fixed_of ap \<and> ap_live ap'"
proof -
  let ?grp = "is_group (take 6 eth)"
  obtain ap' where sent: "transmit W eth False ap = Some ap'" "same_but_sent ap ap'"
    using transmit_returns[OF assms(1)] by blast
  have kept: "held_wf (ap_held ap') \<and> ap_release_buf ap' = ap_release_buf ap \<and> fixed_of ap' = fixed_of ap \<and> ap_live ap'"
    using sent(2) assms live_sent[OF sent(2)] by (simp add: same_but_sent_def pool_of_def)
  obtain ok h where push: "held_push eth ?grp (ap_held ap) = (ok, h)"
    by fastforce
  have h: "held_wf h"
    using held_push_wf[OF assms(2), of eth ?grp] push by simp
  show ?thesis
  proof (cases "length eth < 6 \<or> \<not> (if ?grp then anyone_dozing ap else dozes (take 6 eth) ap)")
    case True
    then show ?thesis
      using sent(1) kept assms by (auto simp: deliver_def Let_def)
  next
    case False
    let ?grp_ap = "tally ''GROUP_HELD'' (ap\<lparr>ap_held := h\<rparr>)"
    let ?one_ap = "refresh_queued (take 6 eth) (tally ''HELD'' (ap\<lparr>ap_held := h\<rparr>))"
    have ap': "deliver W eth ap = Some (if ok then if ?grp then ?grp_ap else ?one_ap else tally ''HELD_DROPPED'' ap)"
      using False push by (cases ok) (simp_all add: deliver_def Let_def)
    have "pool_of ?grp_ap = (h, ap_release_buf ap)" "pool_of ?one_ap = (h, ap_release_buf ap)"
      "pool_of (tally ''HELD_DROPPED'' ap) = (ap_held ap, ap_release_buf ap)"
      by (simp_all add: keeps pool_of_held) (simp add: pool_of_def)
    moreover have "ap_live ?grp_ap" "ap_live ?one_ap" "ap_live (tally ''HELD_DROPPED'' ap)"
      using assms(3) by (simp_all add: live)
    moreover have "fixed_of ?grp_ap = fixed_of ap" "fixed_of ?one_ap = fixed_of ap" "fixed_of (tally ''HELD_DROPPED'' ap) = fixed_of ap"
      by (simp_all add: keeps)
    ultimately show ?thesis
      unfolding ap' using held_live_I[of _ h ap] held_live_I[of _ "ap_held ap" ap] h assms(2) by (cases ok; cases ?grp) auto
  qed
qed

section \<open>A held frame released\<close>

lemma peer_rest_same [simp]:
  "pe_address (peer_rest p) = pe_address p" "pe_group_key_wanted (peer_rest p) = pe_group_key_wanted p"
  by (simp_all add: peer_rest_def)

lemma peer_rest_find:
  "slot_find (\<lambda>p. pe_address p = a) (map (map_option peer_rest) xs) = map_option peer_rest (slot_find (\<lambda>p. pe_address p = a) xs)"
  by (induction xs rule: slots_induct) auto

lemma wanted_rest:
  "wanted a ap = (case slot_find (\<lambda>p. pe_address p = a) (map (map_option peer_rest) (ap_peers ap)) of
     Some p \<Rightarrow> pe_group_key_wanted p | None \<Rightarrow> False)"
  unfolding peer_rest_find by (simp add: wanted_def peer_def split: option.splits)

lemma wanted_same: "same_but_sent ap ap' \<Longrightarrow> wanted a ap' = wanted a ap"
  by (simp add: wanted_rest same_but_sent_def)

lemma waiting_iff: "waiting_for a ap \<longleftrightarrow> held_number (held_for a) (ap_held ap) > 0 \<or> wanted a ap"
  by (simp add: waiting_for_def wanted_def held_count_number)

definition waiting_number :: "bytes \<Rightarrow> 'k access_point \<Rightarrow> nat" where
  "waiting_number a ap = held_number (held_for a) (ap_held ap) + (if wanted a ap then 1 else 0)"

lemma wanted_prims [simp]:
  "wanted a (tally s ap) = wanted a ap" "wanted a (tally_if b s ap) = wanted a ap" "wanted a (does e ap) = wanted a ap"
  "wanted a (with_stations h ap) = wanted a ap" "wanted a (ap\<lparr>ap_asked := k\<rparr>) = wanted a ap"
  "wanted a (ap\<lparr>ap_held := h', ap_release_buf := buf\<rparr>) = wanted a ap" "wanted a (ap\<lparr>ap_release_buf := buf\<rparr>) = wanted a ap"
  "wanted a (refresh_queued a' ap) = wanted a ap" "wanted a (ap\<lparr>ap_held := h'\<rparr>) = wanted a ap"
  by (simp_all add: wanted_def peer_def refresh_queued_def Let_def ap_prims)

lemma wanted_update:
  "(\<And>p. pe_address (f p) = pe_address p) \<Longrightarrow>
   wanted a (peer_update a f ap) = (case peer a ap of Some p \<Rightarrow> pe_group_key_wanted (f p) | None \<Rightarrow> False)"
  by (simp add: wanted_def option.case_eq_if option.map_sel)

lemma peer_prims: "peer a (ap\<lparr>ap_asked := k\<rparr>) = peer a ap"
  by (simp add: peer_def)

lemma wanted_alt: "\<not> wanted a ap \<Longrightarrow> peer a ap = Some p \<Longrightarrow> \<not> pe_group_key_wanted p"
  by (simp add: wanted_def)

lemma protect_wanted: "protect W frame key ap = (res, ap') \<Longrightarrow> wanted a ap' = wanted a ap"
  by (auto simp: protect_def encapsulate_def split: if_splits option.splits)

lemma wanted_group_message_1: "\<not> wanted a ap \<Longrightarrow> \<not> wanted a (transmit_group_message_1 W a fresh ap)"
  by (auto simp: transmit_group_message_1_def ask_def Let_def wanted_update peer_prims wanted_alt
      dest!: protect_wanted[where a = a] split: option.splits prod.splits)

lemma held_wanted_first [simp]: "ap_held (refresh_queued a (peer_update a f ap)) = ap_held ap"
  by (simp add: refresh_queued_def Let_def with_stations_def peer_update_def)

lemma release_one_progress:
  assumes "ap_wf ap" "waiting_for a ap"
  shows "\<exists>ap'. release_one W a ap = Some ap' \<and> ap_wf ap' \<and> waiting_number a ap' < waiting_number a ap"
proof (cases "wanted a ap")
  case True
  let ?ap = "refresh_queued a (peer_update a (\<lambda>p. p\<lparr>pe_group_key_wanted := False\<rparr>) ap)"
  have "\<not> wanted a ?ap"
    by (simp add: wanted_update split: option.splits)
  then have "\<not> wanted a (transmit_group_message_1 W a True ?ap)"
    by (rule wanted_group_message_1)
  moreover have "ap_held (transmit_group_message_1 W a True ?ap) = ap_held ap"
    using keeps_group_message_1(1)[of W a True ?ap] by (simp add: pool_of_def)
  moreover have "release_one W a ap = Some (transmit_group_message_1 W a True ?ap)"
    using True by (simp add: release_one_def wanted_def split: option.splits)
  ultimately show ?thesis
    using True assms(1) by (simp add: waiting_number_def)
next
  case False
  then have some: "held_number (held_for a) (ap_held ap) > 0"
    using assms(2) by (simp add: waiting_iff)
  with assms(1) held_pop_ok[of "ap_held ap" "held_for a"] obtain frame remain h buf where
    pop: "held_pop a (ap_held ap) = Some (frame, remain, h)" "length frame \<le> HELD_FRAME_BYTES" "held_wf h"
      "held_number (held_for a) h = held_number (held_for a) (ap_held ap) - 1" and
    buf: "ap_release_buf ap = Some buf" "length buf = FORWARD_BYTES"
    by (auto simp: ap_wf_def held_pop_def)
  let ?copy = "write_at buf 0 frame" and ?ap = "refresh_queued a (tally ''RELEASED'' (ap\<lparr>ap_held := h, ap_release_buf := None\<rparr>))"
  have fits: "length frame \<le> length buf"
    using pop(2) buf(2) by (simp add: HELD_FRAME_BYTES_def FORWARD_BYTES_def)
  have "fixed_of ?ap = fixed_of ap" "ap_live ?ap"
    using ap_wf_D(1)[OF assms(1)] by (simp_all add: keeps live)
  then have "slots_ok ?ap"
    using assms(1) by (simp add: fixed_of_def slots_ok_def ap_live_def ap_wf_def)
  then obtain ap' where sent: "transmit W (take (length frame) ?copy) remain ?ap = Some ap'" "same_but_sent ?ap ap'"
    using transmit_returns by blast
  have "release_one W a ap = Some (ap'\<lparr>ap_release_buf := Some ?copy\<rparr>)"
    using False pop(1) buf(1) fits sent(1) by (simp add: release_one_def wanted_def Let_def split: option.splits)
  moreover have held: "ap_held ap' = h"
    using sent(2) keeps_refresh(1)[of a "tally ''RELEASED'' (ap\<lparr>ap_held := h, ap_release_buf := None\<rparr>)"]
    by (simp add: same_but_sent_def pool_of_def tally_def)
  moreover have "wanted a ap' = wanted a ap"
    using wanted_same[OF sent(2)] by simp
  moreover have "fixed_of ap' = fixed_of ap" "ap_live ap'"
    using sent(2) live_sent[OF sent(2) \<open>ap_live ?ap\<close>] \<open>fixed_of ?ap = fixed_of ap\<close> by (simp_all add: same_but_sent_def)
  then have "ap_wf (ap'\<lparr>ap_release_buf := Some ?copy\<rparr>)"
    using assms(1) pop(3) held fits buf(2) by (simp add: ap_wf_def fixed_of_def ap_live_def)
  ultimately show ?thesis
    using False pop(4) some by (simp add: waiting_number_def)
qed

lemma release_all_returns:
  "ap_wf ap \<Longrightarrow> \<exists>ap'. release_all W a ap = Some ap' \<and> ap_wf ap' \<and> \<not> waiting_for a ap'"
proof (induction "waiting_number a ap" arbitrary: ap rule: less_induct)
  case less
  show ?case
  proof (cases "waiting_for a ap")
    case True
    from release_one_progress[OF less.prems True] obtain ap' where
      "release_one W a ap = Some ap'" "ap_wf ap'" "waiting_number a ap' < waiting_number a ap"
      by blast
    with less.hyps[of ap'] True show ?thesis
      by (subst release_all.simps) simp
  next
    case False
    with less.prems show ?thesis
      by (subst release_all.simps) simp
  qed
qed

section \<open>The group's frames\<close>

lemma release_group_loop_returns:
  assumes "held_wf (ap_held ap)" "length copy = FORWARD_BYTES" "slots_ok ap" "ap_live ap"
  shows "\<exists>copy' ap'. release_group_loop W copy ap = Some (copy', ap') \<and> held_wf (ap_held ap') \<and> length copy' = FORWARD_BYTES \<and>
    fixed_of ap' = fixed_of ap \<and> ap_live ap'"
  using assms
proof (induction "held_number hs_group (ap_held ap)" arbitrary: ap copy rule: less_induct)
  case less
  show ?case
  proof (cases "held_pop_group (ap_held ap)")
    case None
    with less.prems show ?thesis
      by (subst release_group_loop.simps) simp
  next
    case (Some r)
    then have some: "held_number hs_group (ap_held ap) > 0"
      using held_pop_where_None[of hs_group "ap_held ap"] by (cases "held_number hs_group (ap_held ap)") (auto simp: held_pop_group_def)
    with less.prems(1) held_pop_ok[of "ap_held ap" hs_group] obtain frame remain h where
      pop: "held_pop_group (ap_held ap) = Some (frame, remain, h)" "length frame \<le> HELD_FRAME_BYTES" "held_wf h"
        "held_number hs_group h = held_number hs_group (ap_held ap) - 1"
      by (auto simp: held_pop_group_def)
    have fits: "length frame \<le> length copy"
      using pop(2) less.prems(2) by (simp add: HELD_FRAME_BYTES_def FORWARD_BYTES_def)
    let ?ap = "tally ''RELEASED'' (ap\<lparr>ap_held := h\<rparr>)"
    have ok: "slots_ok ?ap" "ap_live ?ap" "fixed_of ?ap = fixed_of ap"
      using less.prems(3,4) by (simp_all add: live keeps) (simp add: slots_ok_def tally_def)
    obtain ap' where sent: "transmit W (take (length frame) (write_at copy 0 frame)) remain ?ap = Some ap'" "same_but_sent ?ap ap'"
      using transmit_returns[OF ok(1)] by blast
    have ap': "ap_held ap' = h" "slots_ok ap'" "ap_live ap'" "fixed_of ap' = fixed_of ap"
      using sent(2) ok slots_ok_sent[OF sent(2)] live_sent[OF sent(2)] by (simp_all add: same_but_sent_def pool_of_def tally_def)
    have "held_number hs_group (ap_held ap') < held_number hs_group (ap_held ap)"
      using pop(4) some ap'(1) by simp
    from less.hyps[OF this] ap' pop(3) fits less.prems(2)
    have "\<exists>copy' ap''. release_group_loop W (write_at copy 0 frame) ap' = Some (copy', ap'') \<and> held_wf (ap_held ap'') \<and>
        length copy' = FORWARD_BYTES \<and> fixed_of ap'' = fixed_of ap \<and> ap_live ap''"
      by simp
    with pop(1) fits sent(1) show ?thesis
      by (subst release_group_loop.simps) simp
  qed
qed

lemma ap_wf_put_back:
  "ap_wf ap \<Longrightarrow> held_wf (ap_held ap') \<Longrightarrow> length b = FORWARD_BYTES \<Longrightarrow> fixed_of ap' = fixed_of ap \<Longrightarrow> ap_live ap' \<Longrightarrow>
   ap_wf (ap'\<lparr>ap_release_buf := Some b\<rparr>)"
  by (simp add: ap_wf_def fixed_of_def ap_live_def)

lemma release_group_returns:
  assumes "ap_wf ap"
  shows "\<exists>ap'. release_group W ap = Some ap' \<and> ap_wf ap'"
proof -
  obtain copy where copy: "ap_release_buf ap = Some copy" "length copy = FORWARD_BYTES" "held_wf (ap_held ap)"
    using assms by (auto simp: ap_wf_def)
  let ?ap = "ap\<lparr>ap_release_buf := None\<rparr>"
  have "slots_ok ?ap" "ap_live ?ap" "fixed_of ?ap = fixed_of ap"
    using ap_wf_D[OF assms] by (simp_all add: live keeps) (simp add: slots_ok_def)
  then obtain copy' ap' where "release_group_loop W copy ?ap = Some (copy', ap')" "held_wf (ap_held ap')" "length copy' = FORWARD_BYTES"
      "fixed_of ap' = fixed_of ap" "ap_live ap'"
    using release_group_loop_returns[of ?ap copy W] copy by auto
  then show ?thesis
    using ap_wf_put_back[OF assms, of ap' copy'] copy(1) by (simp add: release_group_def)
qed

section \<open>Frames from the air\<close>

lemma slice_get_length: "slice_get f i j = Some s \<Longrightarrow> j \<le> length f \<and> length s = j - i"
  by (auto simp: slice_get_def split: if_splits)

lemma pass_on_returns:
  assumes "ap_wf ap" "length eth \<le> FORWARD_BYTES"
  shows "\<exists>ap'. pass_on W eth ap = Some ap' \<and> ap_wf ap'"
proof -
  obtain copy where copy: "ap_release_buf ap = Some copy" "length copy = FORWARD_BYTES" "held_wf (ap_held ap)"
    using assms(1) by (auto simp: ap_wf_def)
  let ?ap = "tally ''FORWARDED'' ap\<lparr>ap_release_buf := None\<rparr>"
  have "slots_ok ?ap" "ap_live ?ap" "fixed_of ?ap = fixed_of ap" "held_wf (ap_held ?ap)"
    using ap_wf_D[OF assms(1)] copy(3) by (simp_all add: live keeps) (simp_all add: slots_ok_def tally_def)
  from deliver_returns[OF this(1,4,2), of W "take (length eth) (write_at copy 0 eth)"] this(3) obtain ap' where
    "deliver W (take (length eth) (write_at copy 0 eth)) ?ap = Some ap'" "held_wf (ap_held ap')" "fixed_of ap' = fixed_of ap" "ap_live ap'"
    by auto
  then show ?thesis
    using ap_wf_put_back[OF assms(1), of ap' "write_at copy 0 eth"] copy assms(2) by (simp add: pass_on_def Let_def tally_def)
qed

lemma ap_wf_pass_up: "pass_up W eth ap = (go, ap') \<Longrightarrow> ap_wf ap \<Longrightarrow> ap_wf ap'"
  by (auto simp: pass_up_def ask_def split: option.splits if_splits)

lemma station_data_returns:
  assumes "ap_wf ap" "length f \<le> AP_FRAME" "24 \<le> body" "length a \<le> 6" "length dest \<le> 6"
  shows "\<exists>ap'. station_data W f body a dest ap = Some ap' \<and> ap_wf ap'"
proof (cases "slice_get f body (body + 8)")
  case None
  with assms(1) show ?thesis
    by (simp add: station_data_def)
next
  case (Some llc)
  then have llc: "body + 8 \<le> length f" "length llc = 8"
    using slice_get_length[OF Some] by auto
  let ?eth = "dest @ a @ drop 6 llc @ drop (body + 8) f"
  have fits: "length ?eth \<le> FORWARD_BYTES"
    using assms(2-5) llc by (simp add: AP_FRAME_def FORWARD_BYTES_def)
  let ?ap = "tally ''UP_FRAMES'' (tally_if (drop 6 llc = [0x08, 0x06]) ''ARP_UP'' ap)"
  show ?thesis
  proof (cases "(if dest = ap_bssid ?ap \<or> is_group dest then pass_up W ?eth ?ap else (True, ?ap))")
    case (Pair go ap1)
    then have "ap_wf ap1"
      using assms(1) by (auto dest: ap_wf_pass_up split: if_splits)
    with pass_on_returns[OF this fits, of W] assms(1) Some Pair show ?thesis
      by (cases go) (auto simp: station_data_def Let_def split: option.split)
  qed
qed

lemma data_frame_returns:
  assumes "ap_wf ap" "length f \<le> AP_FRAME"
  shows "\<exists>ap'. data_frame W f fc0 fc1 now ap = Some ap' \<and> ap_wf ap'"
proof -
  let ?a = "take 6 (drop 10 f)" and ?dest = "take 6 (drop 16 f)" and ?doze = "fc1 AND 0x10 \<noteq> 0"
  have data: "\<exists>ap'. station_data W f body ?a ?dest ap1 = Some ap' \<and> ap_wf ap'" if "ap_wf ap1" "24 \<le> body" for body ap1
    using station_data_returns[OF that(1) assms(2) that(2), of ?a ?dest W] by simp
  have wake: "\<exists>ap'. (if b then release_all W ?a (tally ''WAKES'' ap1) else Some ap1) = Some ap' \<and> ap_wf ap'" if "ap_wf ap1" for b ap1
    using release_all_returns[of "tally ''WAKES'' ap1" W ?a] that by auto
  obtain was ss where heard: "stations_heard_was ?a now ?doze (ap_stations ap) = (was, ss)"
    by fastforce
  let ?ap = "ap\<lparr>ap_stations := ss\<rparr>"
  have wf: "ap_wf ?ap"
    using assms(1) stations_wf_results(2)[OF heard] by simp
  show ?thesis
  proof (cases was)
    case None
    with assms(1) heard wf show ?thesis
      by (simp add: data_frame_def Let_def)
  next
    case (Some sd)
    obtain st dozed where sd: "sd = (st, dozed)"
      by fastforce
    obtain ap1 where ap1: "(if dozed \<and> \<not> ?doze then release_all W ?a (tally ''WAKES'' ?ap) else Some ?ap) = Some ap1" "ap_wf ap1"
      using wake[of ?ap "dozed \<and> \<not> ?doze"] wf by auto
    show ?thesis
      unfolding data_frame_def Let_def heard prod.case Some option.case sd ap1(1)
      by (simp add: assms(1) wf ap1(2) data eapol_returns split: option.split prod.split ap_verdict.split)
  qed
qed

lemma control_returns: "ap_wf ap \<Longrightarrow> \<exists>ap'. control W f fc0 now ap = Some ap' \<and> ap_wf ap'"
proof -
  assume wf: "ap_wf ap"
  have "\<exists>ap'. release_one W a ap1 = Some ap' \<and> ap_wf ap'" if "ap_wf ap1" for a ap1
  proof (cases "waiting_for a ap1")
    case True
    with release_one_progress[OF that] show ?thesis
      by blast
  next
    case False
    then have "held_number (held_for a) (ap_held ap1) = 0" "\<not> wanted a ap1"
      by (auto simp: waiting_iff)
    then have "held_pop a (ap_held ap1) = None"
      by (simp add: held_pop_def held_pop_where_None)
    with \<open>\<not> wanted a ap1\<close> that show ?thesis
      by (auto simp: release_one_def wanted_def split: option.splits)
  qed
  with wf show ?thesis
    by (simp add: control_def Let_def)
qed

lemma ap_wf_resend_due [simp]: "ap_wf ap \<Longrightarrow> ap_wf (resend_due W ap)"
  by (auto simp: resend_due_def ask_def Let_def split: option.split stage.split)

lemma answer_probe_returns:
  assumes "ap_wf ap"
  shows "\<exists>ap'. answer_probe W src ap = Some ap' \<and> ap_wf ap'"
proof -
  let ?out = "take (ap_probe_len ap) (ap_probe ap)"
  have n: "32 \<le> ap_probe_len ap" "ap_probe_len ap \<le> length (ap_probe ap)"
    using assms by (simp_all add: ap_wf_def)
  then have "32 \<le> length (case frame_set_receiver ?out src of Some out \<Rightarrow> out | None \<Rightarrow> ?out)"
    by (simp add: frame_set_receiver_def write_at_def)
  then show ?thesis
    using assms n unfolding answer_probe_def ask_def Let_def by (cases "frame_set_receiver ?out src") simp_all
qed

lemma ap_wf_on_authentication [simp]: "ap_wf ap \<Longrightarrow> ap_wf (on_authentication W src algorithm sequence now ap)"
  by (simp add: on_authentication_def Let_def case_prod_unfold)

lemma ap_wf_admit: "ap_wf ap \<Longrightarrow> admit W src ssid rsne ap = (status, aid, ap') \<Longrightarrow> ap_wf ap'"
  by (auto simp: admit_def Let_def dest: ap_wf_associated split: if_splits prod.splits sum.splits)

lemma ap_wf_on_association [simp]: "ap_wf ap \<Longrightarrow> ap_wf (on_association W src ssid rsne reassociation qos ht now ap)"
  by (cases "admit W src ssid rsne ap") (auto simp: on_association_def Let_def dest: ap_wf_admit)

lemma ap_wf_on_leave [simp]: "ap_wf ap \<Longrightarrow> ap_wf (on_leave src ap)"
  by (simp add: on_leave_def)

lemma management_returns: "ap_wf ap \<Longrightarrow> \<exists>ap'. management W f now ap = Some ap' \<and> ap_wf ap'"
  using answer_probe_returns by (auto simp: management_def split: option.split ap_request.split)

section \<open>A turn\<close>

text \<open>The task's buffers: the frame's has its size, the beacon lies in its own, with room for the timestamp.\<close>

definition lo_wf :: "ap_loop \<Rightarrow> bool" where
  "lo_wf lo \<longleftrightarrow> length (lo_frame lo) = AP_FRAME \<and>
     (\<forall>t. lo_template lo = Some t \<longrightarrow> bt_len t \<le> length (lo_beacon lo) \<and> bt_timestamp_at t + 8 \<le> bt_len t)"

lemma lo_wf_times [simp]: "lo_wf (lo\<lparr>lo_next_tbtt := t\<rparr>) = lo_wf lo" "lo_wf (lo\<lparr>lo_sweep := t\<rparr>) = lo_wf lo"
  by (simp_all add: lo_wf_def)

lemma after_beacon_returns: "ap_wf ap \<Longrightarrow> \<exists>ap'. after_beacon W ap = Some ap' \<and> ap_wf ap'"
  using begin_rekey_returns[of "(resend_due W ap)\<lparr>ap_asked := Suc (ap_asked (resend_due W ap))\<rparr>" W]
  by (simp add: after_beacon_def Let_def ask_def)

lemma ap_wf_count_late [simp]: "ap_wf (count_late late ap) = ap_wf ap"
  by (simp add: count_late_def Let_def)

lemma send_beacon_returns:
  assumes "ap_wf ap" "bt_len beacon \<le> length buf" "bt_timestamp_at beacon + 8 \<le> bt_len beacon"
  shows "\<exists>buf' ap'. send_beacon W scheduled beacon buf ap = Some (buf', ap') \<and> ap_wf ap' \<and> length buf' = length buf"
  using assms unfolding send_beacon_def ask_def Let_def by simp

lemma on_beacon_time_returns:
  assumes "ap_wf ap" "lo_wf lo"
  shows "\<exists>go lo' ap'. on_beacon_time W lo ap = Some (go, lo', ap') \<and> ap_wf ap' \<and> lo_wf lo'"
proof (cases "lo_template lo")
  case None
  with assms show ?thesis
    by (auto simp: on_beacon_time_def Let_def)
next
  case (Some beacon)
  let ?tim = "stations_tim (dtim_count_at (lo_next_tbtt lo)) AP_DTIM_PERIOD (held_group_count (ap_held ap) > 0) (ap_stations ap)"
  let ?dtim = "dtim_count_at (lo_next_tbtt lo) = 0 \<and> held_group_count (ap_held ap) > 0"
  show ?thesis
  proof (cases "ap_beaconing ap \<and> frame_set_tim (lo_beacon lo) (bt_tim_at beacon) ?tim \<noteq> None")
    case False
    with assms Some show ?thesis
      by (auto simp: on_beacon_time_def Let_def split: option.split)
  next
    case True
    then obtain buf where buf: "frame_set_tim (lo_beacon lo) (bt_tim_at beacon) ?tim = Some buf" "length buf = length (lo_beacon lo)"
      using length_set_tim by blast
    then have fits: "bt_len beacon \<le> length buf" "bt_timestamp_at beacon + 8 \<le> bt_len beacon"
      using assms(2) Some by (simp_all add: lo_wf_def)
    from send_beacon_returns[OF assms(1) this, of W "lo_next_tbtt lo"] obtain buf' ap1 where
      sent: "send_beacon W (lo_next_tbtt lo) beacon buf ap = Some (buf', ap1)" "ap_wf ap1" "length buf' = length buf"
      by blast
    obtain ap2 where grp: "(if ?dtim then release_group W ap1 else Some ap1) = Some ap2" "ap_wf ap2"
      using release_group_returns[OF sent(2), of W] sent(2) by (cases ?dtim) auto
    obtain ap3 where last: "after_beacon W ap2 = Some ap3" "ap_wf ap3"
      using after_beacon_returns[OF grp(2)] by blast
    have "on_beacon_time W lo ap =
        Some (True, lo\<lparr>lo_next_tbtt := lo_next_tbtt lo + BEACON_INTERVAL_US, lo_beacon := buf'\<rparr>, ap3)"
      using True Some buf(1) sent(1) grp(1) last(1) by (simp add: on_beacon_time_def Let_def)
    moreover have "lo_wf (lo\<lparr>lo_next_tbtt := lo_next_tbtt lo + BEACON_INTERVAL_US, lo_beacon := buf'\<rparr>)"
      using assms(2) buf(2) sent(3) by (simp add: lo_wf_def)
    ultimately show ?thesis
      using last(2) by blast
  qed
qed

lemma on_air_returns:
  assumes "ap_wf ap" "lo_wf lo"
  shows "\<exists>lo' ap'. on_air W received lo ap = Some (lo', ap') \<and> ap_wf ap' \<and> lo_wf lo'"
proof -
  let ?f = "take AP_FRAME received" and ?ap = "ap\<lparr>ap_asked := Suc (ap_asked ap)\<rparr>"
  let ?lo = "lo\<lparr>lo_frame := write_at (lo_frame lo) 0 ?f\<rparr>"
  have lo: "lo_wf ?lo"
    using assms(2) by (simp add: lo_wf_def)
  have "ap_wf ?ap" "length ?f \<le> AP_FRAME"
    using assms(1) by simp_all
  then have "\<exists>ap'. (if kind = 0 then management W ?f now ?ap else if kind = 1 then control W ?f fc0 now ?ap
      else if kind = 2 then data_frame W ?f fc0 fc1 now ?ap else Some ?ap) = Some ap' \<and> ap_wf ap'" for kind :: u8 and fc0 fc1 now
    using management_returns[of ?ap W ?f now] control_returns[of ?ap W ?f fc0 now] data_frame_returns[of ?ap ?f W fc0 fc1 now] by auto
  from this[of "drop_bit 2 (lo_frame ?lo ! 0) AND 3" "w_clock W (ap_asked ap)" "lo_frame ?lo ! 0" "lo_frame ?lo ! 1"] show ?thesis
    using lo unfolding on_air_def ask_def Let_def prod.case by auto
qed

lemma stations_send_away [simp]: "ap_stations (send_away W stat reason a ap) = stations_remove a (ap_stations ap)"
  by (simp add: send_away_def reply_def send_reply_def ap_prims forget_def Let_def split: option.split)

lemma ap_wf_send_away [simp]: "ap_wf ap \<Longrightarrow> ap_wf (send_away W stat reason a ap)"
  by (simp add: send_away_def)

lemma stations_remove_shrinks:
  "s \<in> set (filled ss) \<Longrightarrow> length (filled (stations_remove (st_address s) ss)) < length (filled ss)"
  unfolding stations_remove_def by (induction ss rule: slots_induct) auto

lemma renumber_loop_returns: "ap_wf ap \<Longrightarrow> \<exists>ap'. renumber_loop W ap = Some ap' \<and> ap_wf ap' \<and> filled (ap_stations ap') = []"
proof (induction "length (filled (ap_stations ap))" arbitrary: ap rule: less_induct)
  case less
  show ?case
  proof (cases "filled (ap_stations ap)")
    case Nil
    with less.prems show ?thesis
      by (subst renumber_loop.simps) simp
  next
    case (Cons s ss)
    then have "length (filled (stations_remove (st_address s) (ap_stations ap))) < length (filled (ap_stations ap))"
      by (intro stations_remove_shrinks) simp
    with less.hyps[of "send_away W ''STATIONS_RENUMBERED'' PREV_AUTH_NOT_VALID (st_address s) ap"] less.prems Cons show ?thesis
      by (subst renumber_loop.simps) simp
  qed
qed

lemma longest_ago_in: "longest_ago best ss = Some s \<Longrightarrow> s \<in> set ss \<or> best = Some s"
  by (induction best ss rule: longest_ago.induct) (auto split: option.splits if_splits)

lemma stations_inactive_in: "stations_inactive now limit ss = Some a \<Longrightarrow> \<exists>s\<in>set (filled ss). st_address s = a"
  by (fastforce simp: stations_inactive_def dest: longest_ago_in)

lemma sweep_loop_returns:
  "ap_wf ap \<Longrightarrow> \<exists>ap'. sweep_loop W now ap = Some ap' \<and> ap_wf ap'"
proof (induction "length (filled (ap_stations ap))" arbitrary: ap rule: less_induct)
  case less
  show ?case
  proof (cases "stations_inactive now (ap_inactivity ap) (ap_stations ap)")
    case None
    with less.prems show ?thesis
      by (subst sweep_loop.simps) simp
  next
    case (Some a)
    then obtain s where "s \<in> set (filled (ap_stations ap))" "st_address s = a"
      using stations_inactive_in by blast
    then have "length (filled (stations_remove a (ap_stations ap))) < length (filled (ap_stations ap))"
      using stations_remove_shrinks by blast
    with less.hyps[of "send_away W ''DROPPED_INACTIVE'' INACTIVITY a ap"] less.prems Some show ?thesis
      by (subst sweep_loop.simps) simp
  qed
qed

lemma ap_wf_check_stamp [simp]: "ap_wf (check_stamp W ap) = ap_wf ap"
  by (simp add: check_stamp_def ask_def)

lemma ap_wf_count_stations [simp]: "ap_wf (count_stations ap) = ap_wf ap"
  by (simp add: count_stations_def)

lemma sweep_returns:
  assumes "ap_wf ap" "lo_wf lo"
  shows "\<exists>lo' ap'. sweep W lo ap = Some (lo', ap') \<and> ap_wf ap' \<and> lo_wf lo'"
proof -
  let ?ap = "check_stamp W (ap\<lparr>ap_asked := Suc (Suc (ap_asked ap))\<rparr>)"
  obtain z where "sweep_loop W (w_clock W (ap_asked ?ap)) (?ap\<lparr>ap_asked := Suc (ap_asked ?ap)\<rparr>) = Some z" "ap_wf z"
    using sweep_loop_returns[of "?ap\<lparr>ap_asked := Suc (ap_asked ?ap)\<rparr>" W] assms by auto
  with assms show ?thesis
    by (simp add: sweep_def ask_def)
qed

lemma housekeeping_returns:
  assumes "ap_wf ap" "lo_wf lo"
  shows "\<exists>lo' ap'. housekeeping W lo ap = Some (lo', ap') \<and> ap_wf ap' \<and> lo_wf lo'"
proof -
  obtain ap1 where ap1: "(if ap_renumber ap then renumber_loop W (ap\<lparr>ap_renumber := False\<rparr>) else Some ap) = Some ap1" "ap_wf ap1"
    using renumber_loop_returns[of "ap\<lparr>ap_renumber := False\<rparr>" W] assms by (cases "ap_renumber ap") auto
  show ?thesis
    unfolding housekeeping_def ap1(1) Option.bind.bind_lunit by (rule sweep_returns[OF ap1(2) assms(2)])
qed

lemma on_stack_returns:
  assumes "ap_wf ap"
  shows "\<exists>ap'. deliver W eth ap = Some ap' \<and> ap_wf ap'"
  using deliver_returns[OF ap_wf_D(2)[OF assms] _ ap_wf_D(1)[OF assms], of W eth] assms
  by (auto simp: ap_wf_def fixed_of_def)

lemma ap_turn_ok:
  assumes "ap_wf ap" "lo_wf lo"
  shows "\<exists>lo' ap'. ap_turn W ev lo ap = Some (lo', ap') \<and> ap_wf ap' \<and> lo_wf lo'"
proof -
  obtain lo1 ap1 where caught: "catch_up (w_tsf W (ap_asked ap)) lo (ap\<lparr>ap_asked := Suc (ap_asked ap)\<rparr>) = (lo1, ap1)"
    by fastforce
  then have ok1: "ap_wf ap1" "lo_wf lo1"
    using assms by (auto simp: catch_up_def Let_def split: if_splits)
  let ?body = "case ev of
            BeaconTime \<Rightarrow> on_beacon_time W lo1 ap1
          | FromAir f \<Rightarrow> map_option (Pair True) (on_air W f lo1 ap1)
          | FromStack eth \<Rightarrow> map_option (\<lambda>ap. (True, lo1, ap)) (if length eth \<ge> 14 then deliver W eth ap1 else Some ap1)"
  have "\<exists>go lo2 ap2. ?body = Some (go, lo2, ap2) \<and> ap_wf ap2 \<and> lo_wf lo2"
    using on_beacon_time_returns[OF ok1, of W] on_air_returns[OF ok1, of W] on_stack_returns[OF ok1(1), of W] ok1
    by (cases ev) fastforce+
  then obtain go lo2 ap2 where turn: "?body = Some (go, lo2, ap2)" "ap_wf ap2" "lo_wf lo2"
    by blast
  show ?thesis
    unfolding ap_turn_def ask_def prod.case caught turn(1) Option.bind.bind_lunit
    using housekeeping_returns[OF turn(2,3), of W] turn(2,3) by auto
qed

lemma ap_wf_flip [simp]: "ap_wf (ap_flip s ap) = ap_wf ap"
  by (cases s) (simp_all add: ap_wf_def ap_live_def)

lemma ap_wf_flips [simp]: "ap_wf (fold ap_flip ss ap) = ap_wf ap"
  by (induction ss arbitrary: ap) simp_all

lemma ap_run_ok: "ap_wf ap \<Longrightarrow> lo_wf lo \<Longrightarrow> \<exists>lo' ap'. ap_run W evs lo ap = Some (lo', ap') \<and> ap_wf ap' \<and> lo_wf lo'"
proof (induction evs arbitrary: lo ap)
  case Nil
  then show ?case by simp
next
  case (Cons e evs)
  obtain ss ev where e: "e = (ss, ev)"
    by fastforce
  from ap_turn_ok[of "fold ap_flip ss ap" lo W ev] Cons.prems obtain lo' ap' where
    "ap_turn W ev lo (fold ap_flip ss ap) = Some (lo', ap')" "ap_wf ap'" "lo_wf lo'"
    by auto
  with Cons.IH[of ap' lo'] e show ?case
    by simp
qed

section \<open>From the start\<close>

lemma ap_start_ok:
  assumes "length (bs_bssid bss) = 6" "length (bs_ssid bss) \<le> 32"
  shows "\<exists>ap. ap_start bss pmk random slot0 slot1 software_crypto now rekey_interval inactivity own_ip = Some ap \<and> ap_wf ap \<and> ap_bss ap = bss"
proof -
  obtain probe n where "frame_probe_response (replicate 256 0) bss BROADCAST = Some (probe, n)" "length probe = 256" "32 \<le> n" "n \<le> 256"
    using probe_response_fits[OF assms, of "replicate 256 0"] by auto
  moreover have "filled stations_new = []"
    by (simp add: filled_def stations_new_def List.map_filter_def)
  ultimately show ?thesis
    using assms held_new_wf by (simp add: ap_start_def ap_wf_def ap_live_def stations_wf_def)
qed

lemma task_start_ok:
  assumes "ap_wf ap" "length (bs_bssid (ap_bss ap)) = 6" "length (bs_ssid (ap_bss ap)) \<le> 32"
  shows "\<exists>lo ap'. task_start W ap = (lo, ap') \<and> ap_wf ap' \<and> lo_wf lo"
proof -
  obtain buf t where "frame_beacon (replicate 512 0) (ap_bss ap) tim_default = Some (buf, t)" "length buf = 512" "bt_len t \<le> 512"
    "bt_timestamp_at t + 8 \<le> bt_len t"
    using beacon_fits[OF assms(2,3), of "replicate 512 0" tim_default] by auto
  then show ?thesis
    using assms(1) by (simp add: task_start_def ask_def lo_wf_def)
qed

text \<open>C13: However the air and the stack load it, the access point's task never stops. Set up with an address of six bytes
  and a network name of at most 32, it starts, and whatever the sequence of beacon times, frames from the air and frames from the stack,
  whatever the other tasks switch between the turns, and whatever the radio, the clock and the keys answer, every turn
  returns: every loop ends, and no slice, copy or index runs past its buffer. (Times are 64-bit words that wrap; a clock
  that runs backwards, on which the embassy clock's subtraction panics, is not modelled.)\<close>

theorem ap_task_never_stops:
  fixes W :: "'k ap_world"
  assumes "length (bs_bssid bss) = 6" "length (bs_ssid bss) \<le> 32"
  shows "\<exists>ap lo' ap'. ap_start bss pmk random slot0 slot1 software_crypto now rekey_interval inactivity own_ip = Some ap \<and>
    ap_task W evs ap = Some (lo', ap') \<and> ap_wf ap' \<and> lo_wf lo'"
proof -
  obtain ap :: "'k access_point" where ap: "ap_start bss pmk random slot0 slot1 software_crypto now rekey_interval inactivity own_ip = Some ap"
    "ap_wf ap" "ap_bss ap = bss"
    using ap_start_ok[OF assms] by blast
  obtain lo ap1 where "task_start W ap = (lo, ap1)" "ap_wf ap1" "lo_wf lo"
    using task_start_ok[OF ap(2)] assms ap(3) by blast
  with ap_run_ok[of ap1 lo W evs] ap(1) show ?thesis
    by (simp add: ap_task_def)
qed

text \<open>One world and one network for the witness: a radio that always answers, a probe for any network heard.\<close>

definition quiet_world :: "unit ap_world" where
  "quiet_world = \<lparr>w_tk = (\<lambda>_. replicate 16 0), w_message_1 = (\<lambda>_ _ _ _ _. Some [1]), w_message_3 = (\<lambda>_ _ _ _ _ _ _. Some [3]),
     w_group_message_1 = (\<lambda>_ _ _ _ _ _ _. Some [5]), w_read_message_2 = (\<lambda>_ _ _ _ _ _ _. Inr ()), w_read_message_4 = (\<lambda>_ _ _. True),
     w_read_group_message_2 = (\<lambda>_ _ _. True), w_unprotect = Some, w_encapsulate = (\<lambda>f _. Some f),
     w_parse = (\<lambda>f _. if length f = 24 then Some (Probe (replicate 6 4) None) else None),
     w_check_rsn = (\<lambda>_. None), w_acked = (\<lambda>_. True), w_clock = of_nat, w_tsf = of_nat, w_random = (\<lambda>n _. replicate n 7),
     w_key_slot = (\<lambda>_ _. None), w_set_key = (\<lambda>_. True), w_tx_buf = (\<lambda>_. replicate 1600 0), w_up_room = (\<lambda>_. Some 1600)\<rparr>"

definition quiet_bss :: bss where
  "quiet_bss = \<lparr>bs_bssid = [2, 0, 0, 0, 0, 1], bs_ssid = [65], bs_channel = 6, bs_interval_tu = 100, bs_protected = True, bs_ht = True\<rparr>"

theorem ap_task_never_stops_witness:
  "\<exists>ap lo' ap'. ap_start quiet_bss (replicate 32 1) (replicate 16 1) 0 1 False 0 1000000 1000000 [10, 0, 0, 1] = Some ap \<and>
     ap_task quiet_world [([], BeaconTime), ([SetAdmitting False], FromAir (replicate 24 64)), ([], FromStack (replicate 20 2))] ap =
       Some (lo', ap') \<and> ap_wf ap' \<and> lo_wf lo'"
  by (rule ap_task_never_stops) (simp_all add: quiet_bss_def)

end
