(* ===== verification/Spec2Isabelle.thy ===== *)
theory Spec2Isabelle
  imports Prelude Replay Hmac Session Handshake Wifi Lora Ld2410 Ld2410_Parser Csi Fall Phase Vitals Presence Csi_Stream Fifo Csi_Queue Relay_Ring Relay_Wire Relay_Loop Setup_Message Setup_Verifier Setup_Spake Setup_Record Setup_Device Setup_Browser Setup_Session Setup_Page Scan_List Utf8 Signed Window Ble Provision Ap_Core Ap_Frames Ap_State Access_Point Ap_Turn
begin

text \<open>
  A verification development for \<open>rusty_esp_signal\<close>, the radio crates of a Rust firmware for ESP32 boards. The
  program's own logic is in the crate \<open>crates/rusty_esp_signal-core\<close>, free of input and output: wire formats, a
  secure link, first-time setup, radio budgets and presence sensing, each a state with operations that the device
  backends call. Beside it, the development models the frame queue of \<open>rusty_esp_signal-esp\<close>, the access point of
  \<open>rusty_esp_signal-open\<close> with the bookkeeping under it, and the firmware \<open>espnow-relay\<close>.

  Shared theories. \<open>Prelude\<close>: machine integers as words, the error type, byte slices and words, saturating arithmetic,
  and the interface \<open>wire_codec\<close> of a wire format, an encoder and a decoder that invert each other on well-formed
  values, interpreted by every fixed format below. \<open>Signed\<close>: signed arithmetic read off words. \<open>Utf8\<close>: Rust's strings.
  \<open>Window\<close>: the interface \<open>sliding\<close> of a window kept in a ring, interpreted by the phase and vital-sign detectors.
  \<open>Fifo\<close>: the interface \<open>bounded_fifo\<close> of a queue that drops its oldest or its newest, interpreted by the two rings.

  The link between two devices (\<open>core/src/link.rs\<close>).
  \<^item> \<open>Replay\<close> (\<open>ReplayWindow\<close>): the 64-bit bitmap, refined to the set of all accepted numbers. The interface
    \<open>replay_guard\<close> states what a guard promises; the window and, on it, a whole session are interpretations.
  \<^item> \<open>Hmac\<close> (\<open>Sha256Blocks\<close>, \<open>Keyed\<close>, \<open>hmac_with\<close>): HMAC from two midstates, over any engine that agrees with the
    compression function, a parameter (the \<open>sha2\<close> crate); the interface \<open>sha_blocks\<close> is interpreted by the soft engine.
  \<^item> \<open>Session\<close> (\<open>Envelope\<close>, \<open>Session\<close>) and \<open>Handshake\<close> (\<open>Handshake\<close>, \<open>Pending\<close>): data frames, and the three messages
    and key schedule over a record \<open>link_crypto\<close> of the external crates' operations; \<open>link_crypto_ok\<close> states the
    laws the code relies on and \<open>toy_crypto\<close> meets them.

  First-time setup (\<open>core/src/setup/\<close>, \<open>provision.rs\<close>, \<open>ble.rs\<close>).
  \<^item> \<open>Setup_Message\<close> (\<open>code.rs\<close>, \<open>message.rs\<close>), \<open>Setup_Verifier\<close> (PBKDF2 and the stored verifier), \<open>Setup_Spake\<close>
    (SPAKE2+ and, with the interface \<open>sealed_channel\<close>, \<open>seal.rs\<close>), \<open>Setup_Record\<close> (the settings), \<open>Setup_Device\<close> and
    \<open>Setup_Browser\<close> (the two ends), \<open>Setup_Session\<close> (a whole session between them), \<open>Setup_Page\<close> (over the device's page).
  \<^item> \<open>Scan_List\<close> and \<open>Provision\<close> (\<open>provision.rs\<close>): the networks of a scan, and the service that drives the setup window,
    the station policy and the GATT table of \<open>Ble\<close> (\<open>ble.rs\<close>).
  \<^item> \<open>Wifi\<close> (\<open>wifi.rs\<close>): credentials and their TLV form, the station policy, RSSI statistics.

  Sensing and radio (\<open>core/src/radar/\<close>, \<open>lora.rs\<close>).
  \<^item> \<open>Csi\<close>, \<open>Phase\<close>, \<open>Vitals\<close>: presence from the amplitude and the phase of channel state, breathing and heart rate;
    \<open>Fall\<close> (falls), \<open>Presence\<close> (the record sent and the room's fingerprint), \<open>Csi_Stream\<close> (a frame on the wire),
    \<open>Csi_Queue\<close> (\<open>esp/src/csi_queue.rs\<close>: from the chip's buffer to the detectors).
  \<^item> \<open>Ld2410\<close> and \<open>Ld2410_Parser\<close>: the radar module's frames and commands, and its byte-stream parser.
  \<^item> \<open>Lora\<close>: airtime, regional rules, the sliding duty-cycle budget, the discovery beacon.

  The ESP-NOW relay (\<open>firmware/espnow-relay\<close>). \<open>Relay_Ring\<close> (\<open>ring.rs\<close>: the receive ring and the newline search),
  \<open>Relay_Wire\<close> (\<open>hex.rs\<close> and the host's lines), \<open>Relay_Loop\<close> (\<open>main.rs\<close>: every command and the speed on trial).

  The open access point. \<open>Ap_Core\<close> (\<open>vendor/open-mac/ap_core\<close>: frames held for dozing stations, receive counters, the
  station table), \<open>Ap_Frames\<close> (\<open>frames.rs\<close> there and the WMM and HT elements of \<open>qos.rs\<close>: the management frames, laid
  out byte by byte), \<open>Ap_State\<close> and \<open>Access_Point\<close> (\<open>open/src/access_point/mod.rs\<close>: the state, every operation of the
  task, a turn of it, and its start), \<open>Ap_Turn\<close> (from its start every turn returns, and no slice, copy or index
  panics). The radio, the clock, the random numbers, the keys' hardware, the reader of requests, the EAPOL-Key frames
  and CCMP are the record \<open>ap_world\<close>: each question takes the world's next answer, and what the task does is a list of
  effects.

  How code is rendered. A struct is a record and an enum a datatype with the source's variants. A \<open>&mut self\<close> method
  returns the new state (beside its result); a fallible one returns \<open>err + 'a\<close>; an output buffer is passed in and
  returned. Integers keep their width: \<open>+\<close>, \<open>-\<close> and \<open>*\<close> on words wrap as Rust's do in release builds, saturating
  operations are \<open>sat_add\<close> and its companions, and where the proofs show that an intermediate value cannot overflow,
  neither does the checked build. Const generics (window lengths, queue sizes) are arguments. A panic, or a loop that
  would not return, is \<open>None\<close>. Loops are recursions over what remains, each with a measure; the four loops of the
  access point whose end depends on the invariant are \<open>partial_function\<close>s, and \<open>Ap_Turn\<close> proves that they end. The
  setup code's PBKDF2 and the handshake's draws run over lists given in full, so no result depends on fuel.

  Bounds that the statements need and the devices meet: windows \<open>W \<le> 4096\<close> (amplitude), \<open>W \<le> 131068\<close>
  (phase) and \<open>N \<le> 2048\<close> (vitals), blocks of at most 32768 frames, sample rates below \<open>2^18\<close>, a network name of at most
  32 bytes (the access point), counters and sequence numbers before they wrap.

  What the lemmas show. For every codec: what is decoded is exactly what is encoded, on every error branch. For every
  state: an invariant all operations keep, and the abstract value it stands for (the set of accepted numbers, the list
  of samples, the transmissions of the last hour, the queue of held frames), from which the properties over arbitrary
  histories follow. For every optimised routine (midstate HMAC, bulk copy, sliding sums, integer airtime, word-wise
  newline search): equality with its plain definition. For every protocol: agreement when both ends follow it and
  refusal otherwise.

  Not modelled. The arithmetic of other crates is a parameter: SHA-256's compression, P-256, ChaCha20-Poly1305, HKDF,
  CCMP, the integer square root and the inner products. Left out are the device backends (\<open>rusty_esp_signal-esp\<close> but
  for its queue), the station, the splice and the raw link over the open MAC, its drivers and the rest of the vendored
  code, the browser bindings, the other firmware programs (board wiring and probes), the DHCP tasks and the bring-up
  of the access point's radio. Formatting for humans (\<open>Debug\<close>, \<open>Display\<close>) and wiping on drop have no value to state a
  theorem about.
\<close>

end
